(* ===== verification/GoPrelude.thy ===== *)
theory GoPrelude
  imports Main "HOL-Library.Sublist"
begin

text \<open>
  The vocabulary every component shares: Go's strings and byte slices as lists of 8-bit
  characters, the functions of the packages \<open>strings\<close> and \<open>bytes\<close> that the gateway calls, and
  the generic facts about them.  The collection \<open>go_defs\<close> is the simplifier
  set the component theories extend and use.
\<close>

named_theorems go_defs "definitions the component proofs unfold together"

section \<open>Types\<close>

text \<open>A Go \<open>string\<close> and a \<open>[]byte\<close> are both byte sequences; a rune is a natural number.\<close>

type_synonym bytes = "char list"
type_synonym rune = nat

abbreviation byte :: "char \<Rightarrow> nat" where
  "byte c \<equiv> of_char c"

lemma byte_less_256 [simp]: "byte c < 256"
  by (rule nat_of_char_less_256)

lemma byte_inject [simp]: "byte c = byte d \<longleftrightarrow> c = d"
  by (rule of_char_eq_iff)

section \<open>Splitting and joining\<close>

text \<open>\<open>strings.Split(s, sep)\<close> for a one-byte separator: always at least one piece.\<close>

fun strings_Split :: "bytes \<Rightarrow> char \<Rightarrow> bytes list" where
  "strings_Split [] sep = [[]]"
| "strings_Split (c # s) sep =
     (if c = sep then [] # strings_Split s sep
      else (case strings_Split s sep of
              [] \<Rightarrow> [[c]]
            | tok # toks \<Rightarrow> (c # tok) # toks))"

text \<open>\<open>strings.Join(toks, sep)\<close>.\<close>

fun strings_Join :: "bytes list \<Rightarrow> bytes \<Rightarrow> bytes" where
  "strings_Join [] sep = []"
| "strings_Join [t] sep = t"
| "strings_Join (t # u # ts) sep = t @ sep @ strings_Join (u # ts) sep"

lemma strings_Split_not_Nil [simp]: "strings_Split s sep \<noteq> []"
  by (induction s sep rule: strings_Split.induct) (auto split: list.splits)

lemma strings_Split_sep_free: "tok \<in> set (strings_Split s sep) \<Longrightarrow> sep \<notin> set tok"
  by (induction s sep arbitrary: tok rule: strings_Split.induct)
    (auto split: if_splits list.splits)

lemma strings_Split_plain: "sep \<notin> set s \<Longrightarrow> strings_Split s sep = [s]"
  by (induction s sep rule: strings_Split.induct) auto

lemma strings_Split_append_sep:
  "sep \<notin> set t \<Longrightarrow> strings_Split (t @ sep # s) sep = t # strings_Split s sep"
  by (induction t) (auto split: list.splits)

lemma strings_Split_Join:
  "ts \<noteq> [] \<Longrightarrow> (\<And>t. t \<in> set ts \<Longrightarrow> sep \<notin> set t) \<Longrightarrow>
     strings_Split (strings_Join ts [sep]) sep = ts"
  by (induction ts "[sep]" rule: strings_Join.induct)
    (auto simp: strings_Split_plain strings_Split_append_sep)

lemma strings_Join_Split: "strings_Join (strings_Split s sep) [sep] = s"
proof (induction s sep rule: strings_Split.induct)
  case (1 sep)
  then show ?case by simp
next
  case (2 c s sep)
  then show ?case
    by (cases "strings_Split s sep"; cases "tl (strings_Split s sep)") auto
qed

lemma strings_Join_append:
  "ts \<noteq> [] \<Longrightarrow> us \<noteq> [] \<Longrightarrow>
     strings_Join (ts @ us) sep = strings_Join ts sep @ sep @ strings_Join us sep"
proof (induction ts sep rule: strings_Join.induct)
  case (2 t sep)
  then show ?case by (cases us) auto
qed auto

lemma strings_Join_Cons:
  "us \<noteq> [] \<Longrightarrow> strings_Join (t # us) sep = t @ sep @ strings_Join us sep"
  by (cases us) auto

section \<open>Prefixes, suffixes and searching\<close>

text \<open>\<open>strings.CutPrefix\<close> and \<open>strings.CutSuffix\<close>: \<open>None\<close> is the false of the Go pair.\<close>

fun strings_CutPrefix :: "bytes \<Rightarrow> bytes \<Rightarrow> bytes option" where
  "strings_CutPrefix s [] = Some s"
| "strings_CutPrefix [] (p # ps) = None"
| "strings_CutPrefix (c # s) (p # ps) = (if c = p then strings_CutPrefix s ps else None)"

definition strings_CutSuffix :: "bytes \<Rightarrow> bytes \<Rightarrow> bytes option" where
  "strings_CutSuffix s suf = map_option rev (strings_CutPrefix (rev s) (rev suf))"

definition strings_HasPrefix :: "bytes \<Rightarrow> bytes \<Rightarrow> bool" where
  "strings_HasPrefix s p = (strings_CutPrefix s p \<noteq> None)"

definition strings_HasSuffix :: "bytes \<Rightarrow> bytes \<Rightarrow> bool" where
  "strings_HasSuffix s p = (strings_CutSuffix s p \<noteq> None)"

lemma strings_CutPrefix_Some: "strings_CutPrefix s p = Some r \<longleftrightarrow> s = p @ r"
  by (induction s p rule: strings_CutPrefix.induct) auto

lemma strings_CutPrefix_append [simp]: "strings_CutPrefix (p @ r) p = Some r"
  by (simp add: strings_CutPrefix_Some)

lemma strings_CutSuffix_Some: "strings_CutSuffix s p = Some r \<longleftrightarrow> s = r @ p"
  unfolding strings_CutSuffix_def map_option_eq_Some strings_CutPrefix_Some
  by (metis rev_append rev_rev_ident)

lemma strings_CutSuffix_append [simp]: "strings_CutSuffix (r @ p) p = Some r"
  by (simp add: strings_CutSuffix_Some)

lemma strings_HasPrefix_iff: "strings_HasPrefix s p \<longleftrightarrow> (\<exists>r. s = p @ r)"
  by (auto simp: strings_HasPrefix_def strings_CutPrefix_Some)

lemma strings_HasSuffix_iff: "strings_HasSuffix s p \<longleftrightarrow> (\<exists>r. s = r @ p)"
  by (auto simp: strings_HasSuffix_def strings_CutSuffix_Some)

text \<open>\<open>strings.Contains\<close> (and \<open>bytes.Contains\<close>).\<close>

fun strings_Contains :: "bytes \<Rightarrow> bytes \<Rightarrow> bool" where
  "strings_Contains [] sub = (sub = [])"
| "strings_Contains (c # s) sub =
     (strings_HasPrefix (c # s) sub \<or> strings_Contains s sub)"

lemma strings_Contains_iff: "strings_Contains s sub \<longleftrightarrow> (\<exists>l r. s = l @ sub @ r)"
proof (induction s sub rule: strings_Contains.induct)
  case (1 sub)
  then show ?case by auto
next
  case (2 c s sub)
  have "(\<exists>l r. c # s = l @ sub @ r) \<longleftrightarrow> (\<exists>r. c # s = sub @ r) \<or> (\<exists>l r. s = l @ sub @ r)"
    (is "?L \<longleftrightarrow> ?R")
  proof
    assume ?L
    then obtain l r where eq: "c # s = l @ sub @ r" by blast
    then show ?R by (cases l) auto
  next
    assume ?R
    then show ?L
    proof
      assume "\<exists>r. c # s = sub @ r"
      then show ?L by (metis append_Nil)
    next
      assume "\<exists>l r. s = l @ sub @ r"
      then show ?L by (metis append_Cons)
    qed
  qed
  with 2 show ?case by (simp add: strings_HasPrefix_iff)
qed

text \<open>\<open>strings.ContainsAny(s, chars)\<close> for ASCII \<open>chars\<close>.\<close>

definition strings_ContainsAny :: "bytes \<Rightarrow> bytes \<Rightarrow> bool" where
  "strings_ContainsAny s chars = list_ex (\<lambda>c. c \<in> set chars) s"

text \<open>\<open>strings.IndexByte\<close> used to cut: what precedes and what follows the first occurrence.\<close>

fun cut_at_byte :: "char \<Rightarrow> bytes \<Rightarrow> (bytes \<times> bytes) option" where
  "cut_at_byte x [] = None"
| "cut_at_byte x (c # s) =
     (if c = x then Some ([], s)
      else map_option (\<lambda>(pre, post). (c # pre, post)) (cut_at_byte x s))"

lemma cut_at_byte_Some:
  "cut_at_byte x s = Some (pre, post) \<longleftrightarrow> s = pre @ x # post \<and> x \<notin> set pre"
proof (induction s arbitrary: pre)
  case Nil
  then show ?case by simp
next
  case (Cons c s)
  show ?case
  proof (cases "c = x")
    case True
    then show ?thesis by (cases pre) auto
  next
    case False
    then show ?thesis by (cases pre) (auto simp: Cons.IH)
  qed
qed

lemma cut_at_byte_None: "cut_at_byte x s = None \<longleftrightarrow> x \<notin> set s"
  by (induction s) auto

lemma cut_at_byte_length:
  "cut_at_byte x s = Some (pre, post) \<Longrightarrow> length post < length s"
  by (auto simp: cut_at_byte_Some)

section \<open>Sums as results\<close>

text \<open>\<open>Inl e\<close> is the error of a Go \<open>(T, error)\<close> pair, \<open>Inr x\<close> the value.\<close>

definition bind_err :: "'e + 'a \<Rightarrow> ('a \<Rightarrow> 'e + 'b) \<Rightarrow> 'e + 'b" where
  "bind_err r f = (case r of Inl e \<Rightarrow> Inl e | Inr x \<Rightarrow> f x)"

lemma bind_err_simps [simp]:
  "bind_err (Inl e) f = Inl e"
  "bind_err (Inr x) f = f x"
  by (simp_all add: bind_err_def)

lemma bind_err_Inr: "bind_err r f = Inr y \<longleftrightarrow> (\<exists>x. r = Inr x \<and> f x = Inr y)"
  by (cases r) auto

lemma bind_err_Inl: "bind_err r f = Inl e \<longleftrightarrow> r = Inl e \<or> (\<exists>x. r = Inr x \<and> f x = Inl e)"
  by (cases r) auto

section \<open>Folding ASCII letters\<close>

text \<open>The lower case of a byte; on ASCII text this is what \<open>strings.ToLower\<close> does.\<close>

definition ascii_lower :: "char \<Rightarrow> char" where
  "ascii_lower c = (if 65 \<le> byte c \<and> byte c \<le> 90 then char_of (byte c + 32) else c)"

section \<open>Keys in lists of pairs\<close>

lemma distinct_map_of_unique:
  "distinct (map fst kvs) \<Longrightarrow> (k, v) \<in> set kvs \<Longrightarrow> map_of kvs k = Some v"
  by (simp add: map_of_is_SomeI)

lemma list_all_takeWhile: "list_all P (takeWhile P xs)"
  by (induction xs) auto

lemma find_SomeD: "find P xs = Some x \<Longrightarrow> x \<in> set xs \<and> P x"
  by (induction xs) (auto split: if_splits)

lemma dropWhile_idem: "xs \<noteq> [] \<Longrightarrow> \<not> P (hd xs) \<Longrightarrow> dropWhile P xs = xs"
  by (cases xs) auto

end
