(* ===== verification/Base64.thy ===== *)
theory Base64
  imports GoPrelude
begin

text \<open>
  \<open>encoding/base64.StdEncoding\<close>: the padded standard alphabet, with the decoder's rules (line
  breaks are skipped, padding is mandatory, trailing garbage is an error, unused trailing bits
  are ignored).
\<close>

definition b64_char :: "nat \<Rightarrow> char" where
  "b64_char n =
     (if n < 26 then char_of (n + 65)
      else if n < 52 then char_of (n + 71)
      else if n < 62 then char_of (n - 4)
      else if n = 62 then CHR ''+'' else CHR ''/'')"

definition b64_val :: "char \<Rightarrow> nat option" where
  "b64_val c =
     (let b = byte c in
      if 65 \<le> b \<and> b \<le> 90 then Some (b - 65)
      else if 97 \<le> b \<and> b \<le> 122 then Some (b - 71)
      else if 48 \<le> b \<and> b \<le> 57 then Some (b + 4)
      else if b = 43 then Some 62
      else if b = 47 then Some 63
      else None)"

fun b64_encode :: "bytes \<Rightarrow> bytes" where
  "b64_encode [] = []"
| "b64_encode [a] =
     [b64_char (byte a div 4), b64_char (byte a mod 4 * 16), CHR ''='', CHR ''='']"
| "b64_encode [a, b] =
     [b64_char (byte a div 4), b64_char (byte a mod 4 * 16 + byte b div 16),
      b64_char (byte b mod 16 * 4), CHR ''='']"
| "b64_encode (a # b # c # s) =
     b64_char (byte a div 4) # b64_char (byte a mod 4 * 16 + byte b div 16) #
     b64_char (byte b mod 16 * 4 + byte c div 64) # b64_char (byte c mod 64) # b64_encode s"

fun b64_quanta :: "bytes \<Rightarrow> bytes option" where
  "b64_quanta [] = Some []"
| "b64_quanta (c0 # c1 # c2 # c3 # s) =
     (case (b64_val c0, b64_val c1) of
        (Some v0, Some v1) \<Rightarrow>
          (case (b64_val c2, b64_val c3) of
             (Some v2, Some v3) \<Rightarrow>
               map_option (\<lambda>t. char_of (v0 * 4 + v1 div 16) # char_of (v1 mod 16 * 16 + v2 div 4) #
                             char_of (v2 mod 4 * 64 + v3) # t) (b64_quanta s)
           | (Some v2, None) \<Rightarrow>
               if c3 = CHR ''='' \<and> s = []
               then Some [char_of (v0 * 4 + v1 div 16), char_of (v1 mod 16 * 16 + v2 div 4)]
               else None
           | (None, _) \<Rightarrow>
               if c2 = CHR ''='' \<and> c3 = CHR ''='' \<and> s = []
               then Some [char_of (v0 * 4 + v1 div 16)] else None)
      | _ \<Rightarrow> None)"
| "b64_quanta s = None"

definition b64_decode :: "bytes \<Rightarrow> bytes option" where
  "b64_decode s = b64_quanta (filter (\<lambda>c. c \<noteq> CHR 0x0A \<and> c \<noteq> CHR 0x0D) s)"

lemma b64_val_char [simp]: "n < 64 \<Longrightarrow> b64_val (b64_char n) = Some n"
  by (auto simp: b64_val_def b64_char_def Let_def)

lemma b64_val_pad [simp]: "b64_val (CHR ''='') = None"
  by (simp add: b64_val_def)

lemma b64_char_plain:
  assumes "n < 64"
  shows "0x2B \<le> byte (b64_char n) \<and> byte (b64_char n) \<le> 0x7A \<and> b64_char n \<noteq> CHR ''?''"
proof -
  have "0x2B \<le> byte (b64_char n) \<and> byte (b64_char n) \<le> 0x7A \<and> byte (b64_char n) \<noteq> 0x3F"
    using assms by (auto simp: b64_char_def)
  then show ?thesis by auto
qed

lemma digit_split:
  fixes x y k :: nat
  assumes "y < k"
  shows "(x * k + y) div k = x" "(x * k + y) mod k = y"
  using assms by simp_all

lemma b64_digits:
  "byte a div 4 < 64" "byte a mod 4 * 16 < 64" "byte a mod 4 * 16 + byte b div 16 < 64"
  "byte b mod 16 * 4 < 64" "byte b mod 16 * 4 + byte c div 64 < 64" "byte c mod 64 < 64"
proof -
  have "byte a mod 4 < 4" "byte b mod 16 < 16" by simp_all
  moreover have "byte a div 4 < 64" "byte b div 16 < 16" "byte c div 64 < 4"
    using byte_less_256 [of a] byte_less_256 [of b] byte_less_256 [of c]
    by (auto simp: less_mult_imp_div_less)
  ultimately show "byte a div 4 < 64" "byte a mod 4 * 16 < 64"
    "byte a mod 4 * 16 + byte b div 16 < 64"
    "byte b mod 16 * 4 < 64" "byte b mod 16 * 4 + byte c div 64 < 64" "byte c mod 64 < 64"
    by linarith+
qed

lemma b64_bytes:
  fixes a b c :: nat
  assumes "b < 256" "c < 256"
  shows "(a mod 4 * 16 + b div 16) div 16 = a mod 4"
    and "(a mod 4 * 16 + b div 16) mod 16 = b div 16"
    and "(b mod 16 * 4 + c div 64) div 4 = b mod 16"
    and "(b mod 16 * 4 + c div 64) mod 4 = c div 64"
proof -
  have "b div 16 < 16" "c div 64 < 4" using assms by (auto simp: less_mult_imp_div_less)
  then show "(a mod 4 * 16 + b div 16) div 16 = a mod 4"
    and "(a mod 4 * 16 + b div 16) mod 16 = b div 16"
    and "(b mod 16 * 4 + c div 64) div 4 = b mod 16"
    and "(b mod 16 * 4 + c div 64) mod 4 = c div 64"
    by (simp_all only: digit_split)
qed

lemma b64_high_digits: "byte b div 16 < 16" "byte c div 64 < 4"
  using byte_less_256 [of b] byte_less_256 [of c] by (auto simp: less_mult_imp_div_less)

lemma b64_encode_chars:
  "c \<in> set (b64_encode s) \<Longrightarrow> 0x2B \<le> byte c \<and> byte c \<le> 0x7A \<and> c \<noteq> CHR ''?''"
proof (induction s rule: b64_encode.induct)
  case (2 a)
  then show ?case
    using b64_char_plain [OF b64_digits(1) [of a]] b64_char_plain [OF b64_digits(2) [of a]] by auto
next
  case (3 a b)
  then show ?case
    using b64_char_plain [OF b64_digits(1) [of a]] b64_char_plain [OF b64_digits(3) [of a b]]
      b64_char_plain [OF b64_digits(4) [of b]] by auto
next
  case (4 a b c s)
  then show ?case
    using b64_char_plain [OF b64_digits(1) [of a]] b64_char_plain [OF b64_digits(3) [of a b]]
      b64_char_plain [OF b64_digits(5) [of b c]] b64_char_plain [OF b64_digits(6) [of c]] by auto
qed simp

lemma b64_quanta_encode: "b64_quanta (b64_encode s) = Some s"
proof (induction s rule: b64_encode.induct)
  case 1
  show ?case by simp
next
  case (2 a)
  show ?case using b64_digits(1) [of a] b64_digits(2) [of a] by simp
next
  case (3 a b)
  show ?case
    using b64_digits(1) [of a] b64_digits(3) [of a b] b64_digits(4) [of b]
      b64_bytes(1,2) [of "byte b" 0 "byte a"] b64_high_digits(1) [of b] by (simp add: mult.commute)
next
  case (4 a b c s)
  then show ?case
    using b64_digits(1) [of a] b64_digits(3) [of a b] b64_digits(5) [of b c] b64_digits(6) [of c]
      b64_bytes(1,2) [of "byte b" "byte c" "byte a"] b64_bytes(3,4) [of "byte b" "byte c"]
      b64_high_digits(1) [of b] b64_high_digits(2) [of c] by (simp add: mult.commute)
qed

lemma b64_decode_encode: "b64_decode (b64_encode s) = Some s"
proof -
  have "filter (\<lambda>c. c \<noteq> CHR 0x0A \<and> c \<noteq> CHR 0x0D) (b64_encode s) = b64_encode s"
    by (rule filter_True) (use b64_encode_chars in fastforce)
  then show ?thesis by (simp add: b64_decode_def b64_quanta_encode)
qed

lemma b64_encode_no_query: "CHR ''?'' \<notin> set (b64_encode s)"
  using b64_encode_chars by blast

end
