(* ===== verification/Utf8.thy ===== *)
theory Utf8
  imports GoPrelude
begin

text \<open>
  The parts of Go's \<open>unicode/utf8\<close>, \<open>unicode\<close> and \<open>strings\<close> packages that work on runes:
  decoding a byte sequence the way \<open>utf8.DecodeRuneInString\<close> and \<open>range\<close> over a string do,
  encoding a rune, validity, and trimming white space.
\<close>

section \<open>Runes\<close>

definition RuneError :: rune where
  "RuneError = 0xFFFD"

text \<open>\<open>utf8.ValidRune\<close>: a Unicode scalar value.\<close>

definition valid_rune :: "rune \<Rightarrow> bool" where
  "valid_rune r = (r < 0xD800 \<or> (0xDFFF < r \<and> r \<le> 0x10FFFF))"

definition utf8_cont :: "char \<Rightarrow> bool" where
  "utf8_cont c = (0x80 \<le> byte c \<and> byte c \<le> 0xBF)"

text \<open>
  \<open>utf8.DecodeRune\<close>: the rune at the front and its width, \<open>(RuneError, 0)\<close> for the empty
  sequence and \<open>(RuneError, 1)\<close> where the encoding is invalid (truncated, overlong, a surrogate,
  or out of range).
\<close>

fun decode_rune_2 :: "nat \<Rightarrow> bytes \<Rightarrow> rune \<times> nat" where
  "decode_rune_2 b0 (c1 # s) =
     (if utf8_cont c1 then ((b0 - 0xC0) * 64 + (byte c1 - 0x80), 2) else (RuneError, 1))"
| "decode_rune_2 b0 s = (RuneError, 1)"

fun decode_rune_3 :: "nat \<Rightarrow> bytes \<Rightarrow> rune \<times> nat" where
  "decode_rune_3 b0 (c1 # c2 # s) =
     (if (if b0 = 0xE0 then 0xA0 else 0x80) \<le> byte c1 \<and>
         byte c1 \<le> (if b0 = 0xED then 0x9F else 0xBF) \<and> utf8_cont c2
      then ((b0 - 0xE0) * 4096 + (byte c1 - 0x80) * 64 + (byte c2 - 0x80), 3)
      else (RuneError, 1))"
| "decode_rune_3 b0 s = (RuneError, 1)"

fun decode_rune_4 :: "nat \<Rightarrow> bytes \<Rightarrow> rune \<times> nat" where
  "decode_rune_4 b0 (c1 # c2 # c3 # s) =
     (if (if b0 = 0xF0 then 0x90 else 0x80) \<le> byte c1 \<and>
         byte c1 \<le> (if b0 = 0xF4 then 0x8F else 0xBF) \<and> utf8_cont c2 \<and> utf8_cont c3
      then ((b0 - 0xF0) * 262144 + (byte c1 - 0x80) * 4096 +
            (byte c2 - 0x80) * 64 + (byte c3 - 0x80), 4)
      else (RuneError, 1))"
| "decode_rune_4 b0 s = (RuneError, 1)"

fun decode_rune :: "bytes \<Rightarrow> rune \<times> nat" where
  "decode_rune [] = (RuneError, 0)"
| "decode_rune (c0 # s) =
     (if byte c0 < 0x80 then (byte c0, 1)
      else if byte c0 < 0xC2 then (RuneError, 1)
      else if byte c0 < 0xE0 then decode_rune_2 (byte c0) s
      else if byte c0 < 0xF0 then decode_rune_3 (byte c0) s
      else if byte c0 < 0xF5 then decode_rune_4 (byte c0) s
      else (RuneError, 1))"

text \<open>\<open>utf8.AppendRune\<close>; what is not a scalar value is written as U+FFFD.\<close>

definition encode_rune :: "rune \<Rightarrow> bytes" where
  "encode_rune r =
     (if r < 0x80 then [char_of r]
      else if r < 0x800 then [char_of (0xC0 + r div 64), char_of (0x80 + r mod 64)]
      else if \<not> valid_rune r then [CHR 0xEF, CHR 0xBF, CHR 0xBD]
      else if r < 0x10000 then
        [char_of (0xE0 + r div 4096), char_of (0x80 + r div 64 mod 64), char_of (0x80 + r mod 64)]
      else
        [char_of (0xF0 + r div 262144), char_of (0x80 + r div 4096 mod 64),
         char_of (0x80 + r div 64 mod 64), char_of (0x80 + r mod 64)])"

lemma valid_RuneError [simp]: "valid_rune RuneError"
  by (simp add: valid_rune_def RuneError_def)

lemma byte_char_of [simp]: "n < 256 \<Longrightarrow> byte (char_of n) = n"
  by simp

lemma utf8_cont_byte: "byte c = 128 + n \<Longrightarrow> n < 64 \<Longrightarrow> utf8_cont c"
  by (simp add: utf8_cont_def)

lemma encode_rune_not_Nil [simp]: "encode_rune r \<noteq> []"
  by (simp add: encode_rune_def)

lemma decode_rune_2_digits:
  assumes "byte c0 = 192 + a" "byte c1 = 128 + b" "2 \<le> a" "a < 32" "b < 64"
  shows "decode_rune (c0 # c1 # s) = (a * 64 + b, 2)"
  using assms utf8_cont_byte [OF assms(2,5)] by simp

lemma decode_rune_3_digits:
  assumes "byte c0 = 224 + a" "byte c1 = 128 + b" "byte c2 = 128 + c"
    and "a < 16" "b < 64" "c < 64" "a = 0 \<longrightarrow> 32 \<le> b" "a = 13 \<longrightarrow> b < 32"
  shows "decode_rune (c0 # c1 # c2 # s) = (a * 4096 + b * 64 + c, 3)"
  using assms utf8_cont_byte [OF assms(3,6)] by auto

lemma decode_rune_4_digits:
  assumes "byte c0 = 240 + a" "byte c1 = 128 + b" "byte c2 = 128 + c" "byte c3 = 128 + d"
    and "a < 5" "b < 64" "c < 64" "d < 64" "a = 0 \<longrightarrow> 16 \<le> b" "a = 4 \<longrightarrow> b < 16"
  shows "decode_rune (c0 # c1 # c2 # c3 # s) = (a * 262144 + b * 4096 + c * 64 + d, 4)"
  using assms utf8_cont_byte [OF assms(3,7)] utf8_cont_byte [OF assms(4,8)] by auto

lemma rune_digits:
  fixes r :: nat
  shows "r = r div 64 * 64 + r mod 64"
    and "r = r div 4096 * 4096 + r div 64 mod 64 * 64 + r mod 64"
    and "r = r div 262144 * 262144 + r div 4096 mod 64 * 4096 + r div 64 mod 64 * 64 + r mod 64"
proof -
  have e: "r div 4096 = r div 64 div 64" "r div 262144 = r div 64 div 64 div 64"
    by (simp_all flip: div_mult2_eq)
  have m: "x = x div 64 * 64 + x mod 64" for x :: nat by simp
  show "r = r div 64 * 64 + r mod 64" by (rule m)
  show "r = r div 4096 * 4096 + r div 64 mod 64 * 64 + r mod 64"
    using m [of r] m [of "r div 64"] unfolding e by linarith
  show "r = r div 262144 * 262144 + r div 4096 mod 64 * 4096 + r div 64 mod 64 * 64 + r mod 64"
    using m [of r] m [of "r div 64"] m [of "r div 64 div 64"] unfolding e by linarith
qed

lemma decode_encode_rune:
  assumes "valid_rune r"
  shows "decode_rune (encode_rune r @ s) = (r, length (encode_rune r))"
proof -
  define a2 a3 a4 b3 b4 c d where "a2 = r div 64" and "a3 = r div 4096" and "a4 = r div 262144"
    and "b3 = r div 64 mod 64" and "b4 = r div 4096 mod 64" and "c = r div 64 mod 64"
    and "d = r mod 64"
  have lt: "b3 < 64" "b4 < 64" "c < 64" "d < 64"
    by (simp_all add: b3_def b4_def c_def d_def)
  have r2: "r = a2 * 64 + d" and r3: "r = a3 * 4096 + b3 * 64 + d"
    and r4: "r = a4 * 262144 + b4 * 4096 + c * 64 + d"
    unfolding a2_def a3_def a4_def b3_def b4_def c_def d_def by (rule rune_digits)+
  consider "r < 0x80" | "0x80 \<le> r" "r < 0x800" | "0x800 \<le> r" "r < 0x10000"
    | "0x10000 \<le> r" "r \<le> 0x10FFFF"
    using assms unfolding valid_rune_def by linarith
  then show ?thesis
  proof cases
    case 1
    then show ?thesis by (simp add: encode_rune_def)
  next
    case 2
    then have b: "2 \<le> a2" "a2 < 32" using r2 lt by linarith+
    have "decode_rune (char_of (192 + a2) # char_of (128 + d) # s) = (a2 * 64 + d, 2)"
      by (rule decode_rune_2_digits) (use b lt in auto)
    then show ?thesis using 2 by (simp add: encode_rune_def flip: r2 a2_def d_def)
  next
    case 3
    have b1: "a3 < 16" using 3 r3 by linarith
    have b2: "32 \<le> b3" if "a3 = 0" using 3 r3 lt that by linarith
    have b3: "b3 < 32" if "a3 = 13"
    proof -
      have "r < 0xE000" using r3 lt that by linarith
      then have "r < 0xD800" using assms by (auto simp: valid_rune_def)
      then show ?thesis using r3 that by linarith
    qed
    have b: "a3 < 16" "a3 = 0 \<longrightarrow> 32 \<le> b3" "a3 = 13 \<longrightarrow> b3 < 32"
      using b1 b2 b3 by blast+
    have "decode_rune (char_of (224 + a3) # char_of (128 + b3) # char_of (128 + d) # s)
        = (a3 * 4096 + b3 * 64 + d, 3)"
      by (rule decode_rune_3_digits) (use b lt in auto)
    then show ?thesis using 3 assms by (simp add: encode_rune_def flip: r3 a3_def b3_def d_def)
  next
    case 4
    have b1: "a4 < 5" using 4 r4 by linarith
    have b2: "16 \<le> b4" if "a4 = 0" using 4 r4 lt that by linarith
    have b3: "b4 < 16" if "a4 = 4" using 4 r4 that by linarith
    have b: "a4 < 5" "a4 = 0 \<longrightarrow> 16 \<le> b4" "a4 = 4 \<longrightarrow> b4 < 16"
      using b1 b2 b3 by blast+
    have "decode_rune (char_of (240 + a4) # char_of (128 + b4) # char_of (128 + c)
        # char_of (128 + d) # s) = (a4 * 262144 + b4 * 4096 + c * 64 + d, 4)"
      by (rule decode_rune_4_digits) (use b lt in auto)
    then show ?thesis using 4 assms by (simp add: encode_rune_def flip: r4 a4_def b4_def c_def d_def)
  qed
qed

lemma decode_rune_2_size: "snd (decode_rune_2 b s) \<in> {1, 2} \<and> snd (decode_rune_2 b s) \<le> Suc (length s)"
  by (induction b s rule: decode_rune_2.induct) auto

lemma decode_rune_3_size: "snd (decode_rune_3 b s) \<in> {1, 3} \<and> snd (decode_rune_3 b s) \<le> Suc (length s)"
  by (induction b s rule: decode_rune_3.induct) auto

lemma decode_rune_4_size: "snd (decode_rune_4 b s) \<in> {1, 4} \<and> snd (decode_rune_4 b s) \<le> Suc (length s)"
  by (induction b s rule: decode_rune_4.induct) auto

lemma decode_rune_size_pos: "s \<noteq> [] \<Longrightarrow> 0 < snd (decode_rune s)"
  using decode_rune_2_size [of "byte (hd s)" "tl s"] decode_rune_3_size [of "byte (hd s)" "tl s"]
    decode_rune_4_size [of "byte (hd s)" "tl s"]
  by (cases s) auto

lemma decode_rune_size_le: "snd (decode_rune s) \<le> length s"
  using decode_rune_2_size [of "byte (hd s)" "tl s"] decode_rune_3_size [of "byte (hd s)" "tl s"]
    decode_rune_4_size [of "byte (hd s)" "tl s"]
  by (cases s) auto

lemma decode_rune_ascii: "byte c < 0x80 \<Longrightarrow> decode_rune (c # s) = (byte c, 1)"
  by simp

section \<open>Strings as runes\<close>

text \<open>The runes a \<open>range\<close> loop over a string visits, and \<open>utf8.Valid\<close>.\<close>

function runes :: "bytes \<Rightarrow> rune list" where
  "runes [] = []"
| "runes (c # s) = (let (r, n) = decode_rune (c # s) in r # runes (drop n (c # s)))"
  by pat_completeness auto
termination
proof (relation "measure length")
  fix c s x r n
  assume "x = decode_rune (c # s)" "(r, n) = x"
  then have "0 < n" using decode_rune_size_pos [of "c # s"] by (metis list.distinct(1) snd_conv)
  then show "(drop n (c # s), c # s) \<in> measure length" by simp
qed simp

function utf8_Valid :: "bytes \<Rightarrow> bool" where
  "utf8_Valid [] = True"
| "utf8_Valid (c # s) =
     (let (r, n) = decode_rune (c # s) in
      \<not> (r = RuneError \<and> n = 1) \<and> utf8_Valid (drop n (c # s)))"
  by pat_completeness auto
termination
proof (relation "measure length")
  fix c s x r n
  assume "x = decode_rune (c # s)" "(r, n) = x"
  then have "0 < n" using decode_rune_size_pos [of "c # s"] by (metis list.distinct(1) snd_conv)
  then show "(drop n (c # s), c # s) \<in> measure length" by simp
qed simp

declare runes.simps(2) [simp del] utf8_Valid.simps(2) [simp del] decode_rune.simps(2) [simp del]

definition encode_runes :: "rune list \<Rightarrow> bytes" where
  "encode_runes rs = concat (map encode_rune rs)"

lemma encode_runes_simps [simp]:
  "encode_runes [] = []"
  "encode_runes (r # rs) = encode_rune r @ encode_runes rs"
  by (simp_all add: encode_runes_def)

lemma runes_Cons:
  "s \<noteq> [] \<Longrightarrow> runes s = fst (decode_rune s) # runes (drop (snd (decode_rune s)) s)"
  by (cases s) (auto simp: runes.simps(2) Let_def split: prod.splits)

lemma utf8_Valid_Cons:
  "s \<noteq> [] \<Longrightarrow> utf8_Valid s \<longleftrightarrow>
     decode_rune s \<noteq> (RuneError, 1) \<and> utf8_Valid (drop (snd (decode_rune s)) s)"
  by (cases s) (auto simp: utf8_Valid.simps(2) Let_def split: prod.splits)

lemma runes_encode_rune:
  "valid_rune r \<Longrightarrow> runes (encode_rune r @ s) = r # runes s"
  using runes_Cons [of "encode_rune r @ s"] by (simp add: decode_encode_rune)

lemma runes_encode_runes:
  "list_all valid_rune rs \<Longrightarrow> runes (encode_runes rs) = rs"
  by (induction rs) (auto simp: runes_encode_rune)

lemma encode_runes_inject:
  "list_all valid_rune rs \<Longrightarrow> list_all valid_rune ss \<Longrightarrow>
     encode_runes rs = encode_runes ss \<longleftrightarrow> rs = ss"
  by (metis runes_encode_runes)

lemma encode_rune_size_one: "valid_rune r \<Longrightarrow> length (encode_rune r) = 1 \<Longrightarrow> r < 0x80"
  by (auto simp: encode_rune_def split: if_splits)

lemma utf8_Valid_encode_rune:
  assumes "valid_rune r"
  shows "utf8_Valid (encode_rune r @ s) = utf8_Valid s"
proof -
  have "decode_rune (encode_rune r @ s) \<noteq> (RuneError, 1)"
    using encode_rune_size_one [OF assms] by (auto simp: decode_encode_rune [OF assms] RuneError_def)
  then show ?thesis
    using utf8_Valid_Cons [of "encode_rune r @ s"] by (simp add: decode_encode_rune [OF assms])
qed

lemma utf8_Valid_encode_runes: "list_all valid_rune rs \<Longrightarrow> utf8_Valid (encode_runes rs)"
  by (induction rs) (auto simp: utf8_Valid_encode_rune)

lemma valid_rune_three:
  fixes a b c :: nat
  assumes "a < 16" "b < 64" "c < 64" "a = 13 \<Longrightarrow> b < 32"
  shows "valid_rune (a * 4096 + b * 64 + c)"
proof -
  consider "a < 13" | "a = 13" | "13 < a" by linarith
  then show ?thesis using assms unfolding valid_rune_def by cases linarith+
qed

lemma valid_rune_four:
  fixes a b c d :: nat
  assumes "a < 5" "b < 64" "c < 64" "d < 64" "a = 0 \<Longrightarrow> 16 \<le> b" "a = 4 \<Longrightarrow> b < 16"
  shows "valid_rune (a * 262144 + b * 4096 + c * 64 + d)"
proof -
  consider "a = 0" | "0 < a" "a < 4" | "a = 4" using assms by linarith
  then show ?thesis using assms unfolding valid_rune_def by cases linarith+
qed

lemma utf8_cont_digit: "utf8_cont c \<Longrightarrow> byte c - 128 < 64"
  by (auto simp: utf8_cont_def)

lemma decode_rune_2_valid: "b < 224 \<Longrightarrow> valid_rune (fst (decode_rune_2 b s))"
proof (induction b s rule: decode_rune_2.induct)
  case (1 b0 c1 s)
  then show ?case by (auto simp: valid_rune_def [of "_ * 64 + _"] dest!: utf8_cont_digit)
qed auto

lemma decode_rune_3_valid: "b < 240 \<Longrightarrow> valid_rune (fst (decode_rune_3 b s))"
proof (induction b s rule: decode_rune_3.induct)
  case (1 b0 c1 c2 s)
  show ?case
  proof (cases "(if b0 = 224 then 160 else 128) \<le> byte c1 \<and>
         byte c1 \<le> (if b0 = 237 then 159 else 191) \<and> utf8_cont c2")
    case True
    then have "byte c1 - 128 < 64" "byte c2 - 128 < 64"
      "b0 - 224 = 13 \<Longrightarrow> byte c1 - 128 < 32"
      by (auto dest: utf8_cont_digit split: if_splits)
    then have "valid_rune ((b0 - 224) * 4096 + (byte c1 - 128) * 64 + (byte c2 - 128))"
      using 1 by (intro valid_rune_three) auto
    with True show ?thesis by simp
  qed auto
qed auto

lemma decode_rune_4_valid: "240 \<le> b \<Longrightarrow> b < 245 \<Longrightarrow> valid_rune (fst (decode_rune_4 b s))"
proof (induction b s rule: decode_rune_4.induct)
  case (1 b0 c1 c2 c3 s)
  show ?case
  proof (cases "(if b0 = 240 then 144 else 128) \<le> byte c1 \<and>
         byte c1 \<le> (if b0 = 244 then 143 else 191) \<and> utf8_cont c2 \<and> utf8_cont c3")
    case True
    then have "byte c1 - 128 < 64" "byte c2 - 128 < 64" "byte c3 - 128 < 64"
      "b0 - 240 = 0 \<Longrightarrow> 16 \<le> byte c1 - 128" "b0 - 240 = 4 \<Longrightarrow> byte c1 - 128 < 16"
      using 1 by (auto dest: utf8_cont_digit split: if_splits)
    then have "valid_rune ((b0 - 240) * 262144 + (byte c1 - 128) * 4096
        + (byte c2 - 128) * 64 + (byte c3 - 128))"
      using 1 by (intro valid_rune_four) auto
    with True show ?thesis by simp
  qed auto
qed auto

lemma decode_rune_valid [simp]: "valid_rune (fst (decode_rune s))"
proof (cases s)
  case (Cons c s')
  then show ?thesis
    by (auto simp: decode_rune_2_valid decode_rune_3_valid decode_rune_4_valid decode_rune.simps(2))
      (simp add: valid_rune_def)
qed simp

lemma runes_valid: "list_all valid_rune (runes s)"
proof (induction s rule: runes.induct)
  case (2 c s)
  have "runes (c # s) = fst (decode_rune (c # s)) # runes (drop (snd (decode_rune (c # s))) (c # s))"
    by (rule runes_Cons) simp
  moreover have "list_all valid_rune (runes (drop (snd (decode_rune (c # s))) (c # s)))"
    by (rule "2.IH" [of "decode_rune (c # s)" "fst (decode_rune (c # s))"]) auto
  ultimately show ?case by simp
qed simp

text \<open>A valid encoding is the encoding of the rune it decodes to.\<close>

lemma char_of_byte [simp]: "char_of (byte c) = c"
  by simp

lemma div_mod_digit:
  fixes x y k :: nat
  assumes "y < k"
  shows "(x * k + y) div k = x" "(x * k + y) mod k = y"
  using assms by simp_all

lemma encode_two: "2 \<le> a \<Longrightarrow> a < 32 \<Longrightarrow> d < 64 \<Longrightarrow>
    encode_rune (a * 64 + d) = [char_of (192 + a), char_of (128 + d)]"
  using div_mod_digit [of d 64 a] by (simp add: encode_rune_def)

lemma encode_three:
  assumes "a < 16" "b < 64" "d < 64" "a = 0 \<longrightarrow> 32 \<le> b" "a = 13 \<longrightarrow> b < 32"
  shows "encode_rune (a * 4096 + b * 64 + d)
    = [char_of (224 + a), char_of (128 + b), char_of (128 + d)]"
proof -
  define r where "r = a * 4096 + b * 64 + d"
  have v: "valid_rune r" unfolding r_def by (rule valid_rune_three) (use assms in auto)
  have r: "\<not> r < 0x800" "r < 0x10000"
    using assms by (cases "a = 0"; simp add: r_def)+
  have "r = (a * 64 + b) * 64 + d" by (simp add: r_def)
  then have q: "r div 64 = a * 64 + b" "r mod 64 = d" by (simp_all only: div_mod_digit [OF assms(3)])
  have "r div 4096 = r div 64 div 64" by (simp flip: div_mult2_eq)
  then have "r div 4096 = a" "r div 64 mod 64 = b"
    by (simp_all only: q div_mod_digit [OF assms(2)])
  with q v r show ?thesis unfolding r_def [symmetric] by (simp add: encode_rune_def)
qed

lemma encode_four:
  assumes "a < 5" "b < 64" "c < 64" "d < 64" "a = 0 \<longrightarrow> 16 \<le> b" "a = 4 \<longrightarrow> b < 16"
  shows "encode_rune (a * 262144 + b * 4096 + c * 64 + d)
    = [char_of (240 + a), char_of (128 + b), char_of (128 + c), char_of (128 + d)]"
proof -
  define r where "r = a * 262144 + b * 4096 + c * 64 + d"
  have v: "valid_rune r" unfolding r_def by (rule valid_rune_four) (use assms in auto)
  have r: "\<not> r < 0x10000" using assms by (cases "a = 0"; simp add: r_def)
  have "r = ((a * 64 + b) * 64 + c) * 64 + d" by (simp add: r_def)
  then have q: "r div 64 = (a * 64 + b) * 64 + c" "r mod 64 = d"
    by (simp_all only: div_mod_digit [OF assms(4)])
  have e: "r div 4096 = r div 64 div 64" "r div 262144 = r div 64 div 64 div 64"
    by (simp_all flip: div_mult2_eq)
  have "r div 262144 = a" "r div 4096 mod 64 = b" "r div 64 mod 64 = c"
    by (simp_all only: e q div_mod_digit [OF assms(2)] div_mod_digit [OF assms(3)])
  with q v r show ?thesis unfolding r_def [symmetric] by (simp add: encode_rune_def)
qed

lemma utf8_cont_split: "utf8_cont c \<Longrightarrow> 128 + (byte c - 128) = byte c"
  by (simp add: utf8_cont_def)

lemma decode_rune_2_encode:
  assumes "194 \<le> byte c0" "byte c0 < 224" "decode_rune_2 (byte c0) s = (r, n)" "n \<noteq> 1"
  shows "encode_rune r = take n (c0 # s)"
proof (cases s)
  case (Cons c1 t)
  with assms have c: "utf8_cont c1" "r = (byte c0 - 192) * 64 + (byte c1 - 128)" "n = 2"
    by (auto split: if_splits)
  have "encode_rune r = [char_of (192 + (byte c0 - 192)), char_of (128 + (byte c1 - 128))]"
    unfolding c(2) by (rule encode_two) (use assms c(1) utf8_cont_digit in auto)
  with assms c Cons show ?thesis by (simp add: utf8_cont_split)
qed (use assms in auto)

lemma decode_rune_3_encode:
  assumes "224 \<le> byte c0" "byte c0 < 240" "decode_rune_3 (byte c0) s = (r, n)" "n \<noteq> 1"
  shows "encode_rune r = take n (c0 # s)"
proof -
  from assms obtain c1 c2 t where s: "s = c1 # c2 # t"
    by (cases "(byte c0, s)" rule: decode_rune_3.cases) auto
  with assms have g: "(if byte c0 = 224 then 160 else 128) \<le> byte c1 \<and>
      byte c1 \<le> (if byte c0 = 237 then 159 else 191) \<and> utf8_cont c2"
    and c: "r = (byte c0 - 224) * 4096 + (byte c1 - 128) * 64 + (byte c2 - 128)" "n = 3"
    by (auto simp del: split_paired_All split: if_split_asm)
  have "encode_rune r = [char_of (224 + (byte c0 - 224)), char_of (128 + (byte c1 - 128)),
      char_of (128 + (byte c2 - 128))]"
    unfolding c(1) by (rule encode_three) (use assms g utf8_cont_digit in \<open>auto split: if_splits\<close>)
  moreover have "128 \<le> byte c1" using g by (simp split: if_splits)
  ultimately show ?thesis using assms c s g by (simp add: utf8_cont_split)
qed

lemma decode_rune_4_encode:
  assumes "240 \<le> byte c0" "byte c0 < 245" "decode_rune_4 (byte c0) s = (r, n)" "n \<noteq> 1"
  shows "encode_rune r = take n (c0 # s)"
proof -
  from assms obtain c1 c2 c3 t where s: "s = c1 # c2 # c3 # t"
    by (cases "(byte c0, s)" rule: decode_rune_4.cases) auto
  with assms have g: "(if byte c0 = 240 then 144 else 128) \<le> byte c1 \<and>
      byte c1 \<le> (if byte c0 = 244 then 143 else 191) \<and> utf8_cont c2 \<and> utf8_cont c3"
    and c: "r = (byte c0 - 240) * 262144 + (byte c1 - 128) * 4096 + (byte c2 - 128) * 64
      + (byte c3 - 128)" "n = 4"
    by (auto simp del: split_paired_All split: if_split_asm)
  have "encode_rune r = [char_of (240 + (byte c0 - 240)), char_of (128 + (byte c1 - 128)),
      char_of (128 + (byte c2 - 128)), char_of (128 + (byte c3 - 128))]"
    unfolding c(1) by (rule encode_four) (use assms g utf8_cont_digit in \<open>auto split: if_splits\<close>)
  moreover have "128 \<le> byte c1" using g by (simp split: if_splits)
  ultimately show ?thesis using assms c s g by (simp add: utf8_cont_split)
qed

lemma encode_decode_rune:
  assumes "decode_rune s = (r, n)" "(r, n) \<noteq> (RuneError, 1)" "s \<noteq> []"
  shows "encode_rune r = take n s"
proof (cases s)
  case (Cons c0 t)
  consider (one) "byte c0 < 0x80" | (two) "194 \<le> byte c0" "byte c0 < 224"
    | (three) "224 \<le> byte c0" "byte c0 < 240" | (four) "240 \<le> byte c0" "byte c0 < 245"
    using assms Cons by (fastforce simp: decode_rune.simps not_less split: if_splits)
  then show ?thesis
  proof cases
    case one
    with assms Cons show ?thesis by (auto simp: decode_rune.simps encode_rune_def)
  next
    case two
    with assms Cons have d: "decode_rune_2 (byte c0) t = (r, n)" by (simp add: decode_rune.simps)
    then have "n \<noteq> 1" using assms(2)
      by (cases "(byte c0, t)" rule: decode_rune_2.cases) (auto split: if_splits)
    with decode_rune_2_encode [OF two d] show ?thesis by (simp add: Cons)
  next
    case three
    with assms Cons have d: "decode_rune_3 (byte c0) t = (r, n)" by (simp add: decode_rune.simps)
    then have "n \<noteq> 1" using assms(2)
      by (cases "(byte c0, t)" rule: decode_rune_3.cases) (auto split: if_split_asm)
    with decode_rune_3_encode [OF three d] show ?thesis by (simp add: Cons)
  next
    case four
    with assms Cons have d: "decode_rune_4 (byte c0) t = (r, n)" by (simp add: decode_rune.simps)
    then have "n \<noteq> 1" using assms(2)
      by (cases "(byte c0, t)" rule: decode_rune_4.cases) (auto split: if_split_asm)
    with decode_rune_4_encode [OF four d] show ?thesis by (simp add: Cons)
  qed
qed (use assms in simp)

section \<open>ASCII strings\<close>

definition ascii :: "bytes \<Rightarrow> bool" where
  "ascii s = list_all (\<lambda>c. byte c < 0x80) s"

lemma ascii_simps [simp]:
  "ascii []"
  "ascii (c # s) \<longleftrightarrow> byte c < 0x80 \<and> ascii s"
  by (simp_all add: ascii_def)

lemma ascii_append [simp]: "ascii (s @ t) \<longleftrightarrow> ascii s \<and> ascii t"
  by (simp add: ascii_def)

lemma runes_ascii_Cons: "byte c < 0x80 \<Longrightarrow> runes (c # s) = byte c # runes s"
  by (subst runes_Cons) (auto simp: decode_rune.simps)

lemma utf8_Valid_ascii_Cons: "byte c < 0x80 \<Longrightarrow> utf8_Valid (c # s) = utf8_Valid s"
  by (subst utf8_Valid_Cons) (auto simp: decode_rune.simps RuneError_def)

lemma runes_ascii: "ascii s \<Longrightarrow> runes s = map byte s"
  by (induction s) (auto simp: runes_ascii_Cons)

lemma utf8_Valid_ascii: "ascii s \<Longrightarrow> utf8_Valid s"
  by (induction s) (auto simp: utf8_Valid_ascii_Cons)

lemma utf8_Valid_ascii_append: "ascii s \<Longrightarrow> utf8_Valid (s @ t) = utf8_Valid t"
  by (induction s) (auto simp: utf8_Valid_ascii_Cons)

lemma encode_runes_runes: "utf8_Valid s \<Longrightarrow> encode_runes (runes s) = s"
proof (induction s rule: runes.induct)
  case (2 c s)
  obtain r n where d: "decode_rune (c # s) = (r, n)" by fastforce
  with "2.prems" have v: "(r, n) \<noteq> (RuneError, 1)" "utf8_Valid (drop n (c # s))"
    by (auto simp: utf8_Valid_Cons)
  then have "encode_runes (runes (drop n (c # s))) = drop n (c # s)"
    using "2.IH" [OF d [symmetric] refl] by simp
  then show ?case using encode_decode_rune [OF d v(1)] d by (simp add: runes_Cons)
qed simp

lemma utf8_Valid_append: "utf8_Valid s \<Longrightarrow> utf8_Valid t \<Longrightarrow> utf8_Valid (s @ t)"
proof -
  assume "utf8_Valid s" "utf8_Valid t"
  then have "s @ t = encode_runes (runes s @ runes t)"
    by (simp add: encode_runes_def encode_runes_runes [unfolded encode_runes_def])
  moreover have "list_all valid_rune (runes s @ runes t)" by (simp add: runes_valid)
  ultimately show ?thesis by (metis utf8_Valid_encode_runes)
qed

section \<open>White space\<close>

text \<open>The runes for which \<open>unicode.IsSpace\<close> holds, and \<open>strings.TrimSpace\<close>.\<close>

definition unicode_spaces :: "rune list" where
  "unicode_spaces =
     [0x20, 0x09, 0x0A, 0x0D, 0x0B, 0x0C, 0x85, 0xA0, 0x1680, 0x2000, 0x2001, 0x2002, 0x2003,
      0x2004, 0x2005, 0x2006, 0x2007, 0x2008, 0x2009, 0x200A, 0x2028, 0x2029, 0x202F, 0x205F,
      0x3000]"

definition unicode_IsSpace :: "rune \<Rightarrow> bool" where
  "unicode_IsSpace r = (r \<in> set unicode_spaces)"

text \<open>
  Every space is a scalar value, so a string begins (ends) with a space rune exactly when its
  bytes begin (end) with that rune's encoding: trimming strips encodings from either side.
\<close>

fun trim_step :: "bytes list \<Rightarrow> bytes \<Rightarrow> bytes option" where
  "trim_step [] s = None"
| "trim_step (e # es) s =
     (case strings_CutPrefix s e of Some s' \<Rightarrow> Some s' | None \<Rightarrow> trim_step es s)"

fun trim_prefixes :: "nat \<Rightarrow> bytes list \<Rightarrow> bytes \<Rightarrow> bytes" where
  "trim_prefixes 0 es s = s"
| "trim_prefixes (Suc n) es s =
     (case trim_step es s of None \<Rightarrow> s | Some s' \<Rightarrow> trim_prefixes n es s')"

definition strings_TrimLeftSpace :: "bytes \<Rightarrow> bytes" where
  "strings_TrimLeftSpace s = trim_prefixes (length s) (map encode_rune unicode_spaces) s"

definition strings_TrimRightSpace :: "bytes \<Rightarrow> bytes" where
  "strings_TrimRightSpace s =
     rev (trim_prefixes (length s) (map (rev \<circ> encode_rune) unicode_spaces) (rev s))"

definition strings_TrimSpace :: "bytes \<Rightarrow> bytes" where
  "strings_TrimSpace s = strings_TrimRightSpace (strings_TrimLeftSpace s)"

lemma trim_step_Some:
  "trim_step es s = Some s' \<Longrightarrow> \<exists>e \<in> set es. s = e @ s'"
  by (induction es) (auto simp: strings_CutPrefix_Some split: option.splits)

lemma trim_step_None:
  "trim_step es s = None \<longleftrightarrow> (\<forall>e \<in> set es. \<nexists>r. s = e @ r)"
proof (induction es)
  case (Cons e es)
  have "strings_CutPrefix s e = None \<longleftrightarrow> (\<nexists>r. s = e @ r)"
    by (metis not_None_eq strings_CutPrefix_Some)
  with Cons show ?case by (auto split: option.splits)
qed simp

text \<open>Every encoding is non-empty, so the bound \<open>length s\<close> on the number of trims suffices.\<close>

lemma trim_prefixes_trimmed:
  "[] \<notin> set es \<Longrightarrow> length s \<le> n \<Longrightarrow> e \<in> set es \<Longrightarrow> trim_prefixes n es s \<noteq> e @ r"
proof (induction n arbitrary: s)
  case 0
  then show ?case by auto
next
  case (Suc n)
  show ?case
  proof (cases "trim_step es s")
    case None
    then have "\<forall>r. s \<noteq> e @ r" using Suc.prems(3) by (simp add: trim_step_None)
    with None show ?thesis by simp
  next
    case (Some s')
    then obtain e' where "e' \<in> set es" "s = e' @ s'" using trim_step_Some by blast
    then have "length s = length e' + length s'" by simp
    moreover have "0 < length e'" using Suc.prems(1) \<open>e' \<in> set es\<close> by (metis length_greater_0_conv)
    ultimately have "length s' \<le> n" using Suc.prems(2) by linarith
    with Some Suc show ?thesis by simp
  qed
qed

lemma strings_TrimSpace_unspaced:
  "strings_TrimSpace s \<noteq> s \<or> (\<forall>r \<in> set unicode_spaces. \<forall>t. s \<noteq> t @ encode_rune r)"
proof (rule ccontr)
  assume "\<not> ?thesis"
  then obtain r t where eq: "strings_TrimSpace s = s" and r: "r \<in> set unicode_spaces"
    and s: "s = t @ encode_rune r" by blast
  define u where "u = strings_TrimLeftSpace s"
  define es where "es = map (rev \<circ> encode_rune) unicode_spaces"
  have "trim_prefixes (length u) es (rev u) \<noteq> rev (encode_rune r) @ rev t"
    by (rule trim_prefixes_trimmed) (use r in \<open>auto simp: es_def\<close>)
  moreover have "rev (trim_prefixes (length u) es (rev u)) = s"
    using eq by (simp add: strings_TrimSpace_def strings_TrimRightSpace_def u_def es_def)
  ultimately show False using s by (metis rev_append rev_rev_ident)
qed

lemma trim_prefixes_id: "trim_step es s = None \<Longrightarrow> trim_prefixes n es s = s"
  by (cases n) auto

lemma visible_not_space:
  "\<forall>r\<in>set unicode_spaces. list_all (\<lambda>c. byte c < 0x21 \<or> 0x7E < byte c) (encode_rune r)"
  by (simp add: unicode_spaces_def encode_rune_def valid_rune_def)

lemma TrimSpace_visible:
  assumes "s \<noteq> []" "0x21 \<le> byte (hd s)" "byte (hd s) \<le> 0x7E" "0x21 \<le> byte (last s)" "byte (last s) \<le> 0x7E"
  shows "strings_TrimSpace s = s"
proof -
  have edge: "byte (hd (encode_rune r)) < 0x21 \<or> 0x7E < byte (hd (encode_rune r))"
    "byte (last (encode_rune r)) < 0x21 \<or> 0x7E < byte (last (encode_rune r))" if "r \<in> set unicode_spaces" for r
    using that visible_not_space hd_in_set [of "encode_rune r"] last_in_set [of "encode_rune r"]
    by (auto simp: list_all_iff)
  have "s \<noteq> encode_rune r @ t" if "r \<in> set unicode_spaces" for r t
    using edge(1) [OF that] assms by auto
  then have left: "trim_step (map encode_rune unicode_spaces) s = None" by (auto simp: trim_step_None)
  have "s \<noteq> t @ encode_rune r" if "r \<in> set unicode_spaces" for r t
    using edge(2) [OF that] assms by auto
  then have "rev s \<noteq> rev (encode_rune r) @ t" if "r \<in> set unicode_spaces" for r t
    using that by (metis rev_append rev_rev_ident)
  then have right: "trim_step (map (rev \<circ> encode_rune) unicode_spaces) (rev s) = None"
    by (auto simp: trim_step_None)
  with left show ?thesis
    by (simp add: strings_TrimSpace_def strings_TrimLeftSpace_def strings_TrimRightSpace_def trim_prefixes_id)
qed

section \<open>Printable ASCII\<close>

definition printable :: "char \<Rightarrow> bool" where
  "printable c = (0x20 \<le> byte c \<and> byte c \<le> 0x7E)"

lemma runes_printable:
  "list_all (\<lambda>r. 0x20 \<le> r \<and> r \<le> 0x7E) (runes s) \<Longrightarrow> list_all printable s"
proof (induction s)
  case (Cons c s)
  show ?case
  proof (cases "byte c < 0x80")
    case True
    with Cons show ?thesis by (auto simp: runes_ascii_Cons printable_def)
  next
    case False
    have "fst (decode_rune (c # s)) \<le> 0x7E"
      using Cons.prems by (simp add: runes_Cons)
    moreover have "\<not> fst (decode_rune (c # s)) \<le> 0x7E"
    proof -
      have "\<not> fst (decode_rune_2 b s) \<le> 0x7E" if "194 \<le> b" for b
        using that by (induction b s rule: decode_rune_2.induct)
          (auto simp: RuneError_def not_le utf8_cont_def)
      moreover have "\<not> fst (decode_rune_3 b s) \<le> 0x7E" if "224 \<le> b" for b
        using that by (induction b s rule: decode_rune_3.induct)
          (auto simp: RuneError_def not_le utf8_cont_def)
      moreover have "\<not> fst (decode_rune_4 b s) \<le> 0x7E" if "240 \<le> b" for b
        using that by (induction b s rule: decode_rune_4.induct)
          (auto simp: RuneError_def not_le utf8_cont_def)
      ultimately show ?thesis using False by (auto simp: RuneError_def decode_rune.simps)
    qed
    ultimately show ?thesis by blast
  qed
qed simp

end
