(* ===== verification/HeaderValue.thy ===== *)
theory HeaderValue
  imports Base64 Utf8
begin

text \<open>
  \<open>pkg/mcpspec/headervalue.go\<close>: how a tool name, a resource URI or a protocol version rides in a
  NATS or HTTP header.  The lemmas show that encoding is lossless, that an encoded value is
  header-safe, and which values a receiver refuses.
\<close>

section \<open>The code\<close>

definition sentinelPrefix :: bytes where
  "sentinelPrefix = ''=?base64?''"

definition sentinelSuffix :: bytes where
  "sentinelSuffix = ''?=''"

datatype header_error = StrayQuestionMark | BadBase64 | PayloadNotUtf8

definition needsHeaderEncoding :: "bytes \<Rightarrow> bool" where
  "needsHeaderEncoding s =
     (if s = [] then False
      else if strings_HasPrefix s sentinelPrefix \<and> strings_HasSuffix s sentinelSuffix then True
      else if s \<noteq> strings_TrimSpace s then True
      else list_ex (\<lambda>r. r < 0x20 \<or> r > 0x7E) (runes s))"

definition EncodeHeaderValue :: "bytes \<Rightarrow> bytes" where
  "EncodeHeaderValue s =
     (if \<not> needsHeaderEncoding s then s
      else sentinelPrefix @ b64_encode s @ sentinelSuffix)"

definition DecodeHeaderValue :: "bytes \<Rightarrow> header_error + bytes" where
  "DecodeHeaderValue v =
     (case strings_CutPrefix v sentinelPrefix of
        None \<Rightarrow> Inr v
      | Some inner \<Rightarrow>
          (case strings_CutSuffix inner sentinelSuffix of
             None \<Rightarrow> Inr v
           | Some payload \<Rightarrow>
               if CHR ''?'' \<in> set payload then Inl StrayQuestionMark
               else (case b64_decode payload of
                       None \<Rightarrow> Inl BadBase64
                     | Some raw \<Rightarrow> if utf8_Valid raw then Inr raw else Inl PayloadNotUtf8)))"

section \<open>Lossless\<close>

lemma DecodeHeaderValue_wrapped:
  "DecodeHeaderValue (sentinelPrefix @ b64_encode s @ sentinelSuffix) =
     (if utf8_Valid s then Inr s else Inl PayloadNotUtf8)"
  by (simp add: DecodeHeaderValue_def b64_decode_encode b64_encode_no_query)

lemma needsHeaderEncoding_False:
  "\<not> needsHeaderEncoding s \<Longrightarrow> s = [] \<or>
     \<not> (strings_HasPrefix s sentinelPrefix \<and> strings_HasSuffix s sentinelSuffix) \<and>
     s = strings_TrimSpace s \<and> list_all printable s"
  by (auto simp: needsHeaderEncoding_def list_ex_iff list_all_iff not_less
      intro!: runes_printable [unfolded list_all_iff] split: if_splits)

lemma DecodeHeaderValue_plain:
  assumes "\<not> needsHeaderEncoding s"
  shows "DecodeHeaderValue s = Inr s"
proof (cases "strings_CutPrefix s sentinelPrefix")
  case None
  then show ?thesis by (simp add: DecodeHeaderValue_def)
next
  case (Some inner)
  then have s: "s = sentinelPrefix @ inner" by (simp add: strings_CutPrefix_Some)
  have "strings_CutSuffix inner sentinelSuffix = None"
  proof (rule ccontr)
    assume "strings_CutSuffix inner sentinelSuffix \<noteq> None"
    then obtain p where "inner = p @ sentinelSuffix" by (auto simp: strings_CutSuffix_Some)
    with s have "strings_HasPrefix s sentinelPrefix" "strings_HasSuffix s sentinelSuffix"
      unfolding strings_HasPrefix_iff strings_HasSuffix_iff by (auto intro: exI [of _ "_ @ p"])
    moreover have "s \<noteq> []" using s by (simp add: sentinelPrefix_def)
    ultimately show False using needsHeaderEncoding_False [OF assms] by blast
  qed
  with Some show ?thesis by (simp add: DecodeHeaderValue_def)
qed

lemma needsHeaderEncoding_invalid:
  assumes "\<not> utf8_Valid s"
  shows "needsHeaderEncoding s"
proof (rule ccontr)
  assume "\<not> needsHeaderEncoding s"
  from needsHeaderEncoding_False [OF this] have "s = [] \<or> list_all printable s" by blast
  then have "ascii s" by (auto simp: ascii_def list_all_iff printable_def)
  with assms show False by (simp add: utf8_Valid_ascii)
qed

lemma DecodeHeaderValue_Encode:
  "DecodeHeaderValue (EncodeHeaderValue s) =
     (if utf8_Valid s then Inr s else Inl PayloadNotUtf8)"
proof (cases "needsHeaderEncoding s")
  case True
  then show ?thesis by (simp add: EncodeHeaderValue_def DecodeHeaderValue_wrapped)
next
  case False
  then have "utf8_Valid s" using needsHeaderEncoding_invalid by blast
  with False show ?thesis by (simp add: EncodeHeaderValue_def DecodeHeaderValue_plain)
qed

text \<open>
  A receiver that decodes a header value gets back exactly the value the sender encoded; only
  a value that is not valid UTF-8 is refused, and it is refused rather than altered.
\<close>

theorem header_value_roundtrip:
  "DecodeHeaderValue (EncodeHeaderValue s) =
     (if utf8_Valid s then Inr s else Inl PayloadNotUtf8)"
  by (rule DecodeHeaderValue_Encode)

section \<open>Header safety\<close>

text \<open>What the binding may put after a header's colon: printable ASCII, no edge white space.\<close>

definition header_safe :: "bytes \<Rightarrow> bool" where
  "header_safe v = (list_all printable v \<and>
     (v \<noteq> [] \<longrightarrow> hd v \<noteq> CHR '' '' \<and> last v \<noteq> CHR '' ''))"

lemma printable_wrapped:
  "list_all printable (sentinelPrefix @ b64_encode s @ sentinelSuffix)"
  using b64_encode_chars [of _ s]
  by (fastforce simp: list_all_iff printable_def sentinelPrefix_def sentinelSuffix_def)

lemma encode_rune_space: "encode_rune 0x20 = '' ''"
  by code_simp

lemma space_in_spaces: "0x20 \<in> set unicode_spaces"
  by (simp add: unicode_spaces_def)

lemma strings_TrimSpace_last: "strings_TrimSpace s = s \<Longrightarrow> s \<noteq> [] \<Longrightarrow> last s \<noteq> CHR '' ''"
  using strings_TrimSpace_unspaced [of s] space_in_spaces encode_rune_space
  by (metis append_butlast_last_id)

lemma trim_prefixes_length: "length (trim_prefixes n es s) \<le> length s"
proof (induction n arbitrary: s)
  case (Suc n)
  show ?case
  proof (cases "trim_step es s")
    case (Some s')
    then have "length s' \<le> length s" using trim_step_Some by fastforce
    with Suc.IH [of s'] Some show ?thesis by simp
  qed simp
qed simp

lemma strings_TrimSpace_first:
  assumes "strings_TrimSpace s = s" "s \<noteq> []"
  shows "hd s \<noteq> CHR '' ''"
proof
  assume h: "hd s = CHR '' ''"
  define es where "es = map encode_rune unicode_spaces"
  obtain t where s: "s = CHR '' '' # t" using assms(2) h by (cases s) auto
  have "trim_step es s = Some t"
    by (simp add: es_def unicode_spaces_def s encode_rune_space)
  then have "strings_TrimLeftSpace s = trim_prefixes (length t) es t"
    by (simp add: strings_TrimLeftSpace_def es_def s)
  then have "length (strings_TrimLeftSpace s) < length s"
    using trim_prefixes_length [of "length t" es t] by (simp add: s)
  moreover have "length (strings_TrimRightSpace u) \<le> length u" for u
    using trim_prefixes_length by (simp add: strings_TrimRightSpace_def) (metis length_rev)
  ultimately have "length (strings_TrimSpace s) < length s"
    unfolding strings_TrimSpace_def by (meson le_less_trans)
  with assms(1) show False by simp
qed

text \<open>
  Whatever text a caller supplies, the header value written for it is printable ASCII without
  edge white space: no CR, LF or other control byte can reach the wire and forge a header line.
\<close>

theorem header_value_safe: "header_safe (EncodeHeaderValue s)"
proof (cases "needsHeaderEncoding s")
  case True
  then show ?thesis using printable_wrapped [of s]
    by (simp add: EncodeHeaderValue_def header_safe_def sentinelPrefix_def sentinelSuffix_def)
next
  case False
  from needsHeaderEncoding_False [OF this] have "s = [] \<or> list_all printable s \<and> strings_TrimSpace s = s"
    by auto
  with False show ?thesis
    by (auto simp: EncodeHeaderValue_def header_safe_def
        dest: strings_TrimSpace_last strings_TrimSpace_first)
qed

text \<open>Two values that differ are never written alike, valid UTF-8 or not.\<close>

lemma EncodeHeaderValue_wrapped_plain:
  "\<not> needsHeaderEncoding t \<Longrightarrow> t \<noteq> sentinelPrefix @ p @ sentinelSuffix"
  using needsHeaderEncoding_False [of t]
  by (auto simp: strings_HasPrefix_iff strings_HasSuffix_iff sentinelPrefix_def)

lemma EncodeHeaderValue_inject: "EncodeHeaderValue s = EncodeHeaderValue t \<longleftrightarrow> s = t"
proof
  assume eq: "EncodeHeaderValue s = EncodeHeaderValue t"
  show "s = t"
  proof (cases "needsHeaderEncoding s = needsHeaderEncoding t")
    case True
    with eq have "b64_encode s = b64_encode t \<or> s = t"
      by (cases "needsHeaderEncoding t") (simp_all add: EncodeHeaderValue_def)
    then show ?thesis by (metis b64_decode_encode option.inject)
  next
    case False
    with eq show ?thesis
      by (cases "needsHeaderEncoding t")
        (auto simp: EncodeHeaderValue_def dest: EncodeHeaderValue_wrapped_plain)
  qed
qed simp

end
