(* ===== verification/GoJson.thy ===== *)
theory GoJson
  imports Utf8 "HOL-Library.AList"
begin

text \<open>
  The part of \<open>encoding/json\<close> the gateway reads requests with.  A JSON text is parsed into a
  concrete syntax tree that keeps every byte (white space, the spelling of numbers and strings),
  because \<open>json.RawMessage\<close> does: \<open>render\<close> gives the text back.  The lemmas show that parsing and
  rendering are inverse, so the raw bytes of a subtree parse to that subtree.
\<close>

section \<open>Concrete syntax\<close>

text \<open>
  \<open>JScalar\<close> holds the token of a literal or a number, \<open>JString\<close> the text between the quotes.  The
  first argument of \<open>JArray\<close> and \<open>JObject\<close> is the white space of an empty container; an item
  is (white space, value, white space), a member (white space, key, white space, white space,
  value, white space).
\<close>

datatype jval =
    JScalar bytes
  | JString bytes
  | JArray bytes items
  | JObject bytes members
and items = INil | ICons bytes jval bytes items
and members = MNil | MCons bytes bytes bytes bytes jval bytes members

fun render :: "jval \<Rightarrow> bytes"
  and render_items :: "items \<Rightarrow> bytes"
  and render_members :: "members \<Rightarrow> bytes" where
  "render (JScalar t) = t"
| "render (JString r) = CHR 0x22 # r @ [CHR 0x22]"
| "render (JArray w is) = CHR ''['' # w @ render_items is @ '']''"
| "render (JObject w ms) = CHR ''{'' # w @ render_members ms @ ''}''"
| "render_items INil = []"
| "render_items (ICons a v b is) =
     a @ render v @ b @ (if is = INil then [] else CHR '','' # render_items is)"
| "render_members MNil = []"
| "render_members (MCons a k b c v d ms) =
     a @ CHR 0x22 # k @ CHR 0x22 # b @ CHR '':'' # c @ render v @ d @
     (if ms = MNil then [] else CHR '','' # render_members ms)"

text \<open>How deep containers nest.\<close>

fun jdepth :: "jval \<Rightarrow> nat"
  and jdepth_items :: "items \<Rightarrow> nat"
  and jdepth_members :: "members \<Rightarrow> nat" where
  "jdepth (JScalar t) = 0"
| "jdepth (JString r) = 0"
| "jdepth (JArray w is) = Suc (jdepth_items is)"
| "jdepth (JObject w ms) = Suc (jdepth_members ms)"
| "jdepth_items INil = 0"
| "jdepth_items (ICons a v b is) = max (jdepth v) (jdepth_items is)"
| "jdepth_members MNil = 0"
| "jdepth_members (MCons a k b c v d ms) = max (jdepth v) (jdepth_members ms)"

section \<open>Lexing\<close>

definition json_ws :: "char \<Rightarrow> bool" where
  "json_ws c = (c = CHR '' '' \<or> c = CHR 0x09 \<or> c = CHR 0x0A \<or> c = CHR 0x0D)"

definition json_digit :: "char \<Rightarrow> bool" where
  "json_digit c = (48 \<le> byte c \<and> byte c \<le> 57)"

definition hex_digit :: "char \<Rightarrow> nat option" where
  "hex_digit c =
     (let b = byte c in
      if 48 \<le> b \<and> b \<le> 57 then Some (b - 48)
      else if 97 \<le> b \<and> b \<le> 102 then Some (b - 87)
      else if 65 \<le> b \<and> b \<le> 70 then Some (b - 55)
      else None)"

text \<open>How many bytes follow the backslash of an escape sequence the scanner accepts.\<close>

definition escape_len :: "bytes \<Rightarrow> nat option" where
  "escape_len s =
     (case s of
        [] \<Rightarrow> None
      | e # s' \<Rightarrow>
          if e \<in> set [CHR 0x22, CHR 0x5C, CHR ''/'', CHR ''b'', CHR ''f'', CHR ''n'', CHR ''r'', CHR ''t'']
          then Some 1
          else if e = CHR ''u'' \<and> 4 \<le> length s' \<and> list_all (\<lambda>h. hex_digit h \<noteq> None) (take 4 s')
          then Some 5
          else None)"

text \<open>The text up to the closing quote, with the scanner's rules on escapes and control bytes.\<close>

function lex_string :: "bytes \<Rightarrow> (bytes \<times> bytes) option" where
  "lex_string [] = None"
| "lex_string (c # s) =
     (if c = CHR 0x22 then Some ([], s)
      else if byte c < 0x20 then None
      else if c = CHR 0x5C then
        (case escape_len s of
           None \<Rightarrow> None
         | Some n \<Rightarrow> map_option (\<lambda>(raw, rest). (c # take n s @ raw, rest)) (lex_string (drop n s)))
      else map_option (\<lambda>(raw, rest). (c # raw, rest)) (lex_string s))"
  by pat_completeness auto
termination by (relation "measure length") auto

definition lex_digits1 :: "bytes \<Rightarrow> (bytes \<times> bytes) option" where
  "lex_digits1 s =
     (let ds = takeWhile json_digit s in
      if ds = [] then None else Some (ds, dropWhile json_digit s))"

definition lex_int :: "bytes \<Rightarrow> (bytes \<times> bytes) option" where
  "lex_int s =
     (case s of
        [] \<Rightarrow> None
      | c # s' \<Rightarrow> if c = CHR ''0'' then Some ([c], s') else lex_digits1 s)"

definition lex_sign :: "bytes \<Rightarrow> bytes \<times> bytes" where
  "lex_sign s = (case s of c # s' \<Rightarrow> if c = CHR ''-'' then ([c], s') else ([], s) | [] \<Rightarrow> ([], s))"

definition lex_frac :: "bytes \<Rightarrow> (bytes \<times> bytes) option" where
  "lex_frac s =
     (case s of
        c # s' \<Rightarrow>
          if c = CHR ''.'' then map_option (\<lambda>(ds, r). (c # ds, r)) (lex_digits1 s')
          else Some ([], s)
      | [] \<Rightarrow> Some ([], s))"

definition lex_exp :: "bytes \<Rightarrow> (bytes \<times> bytes) option" where
  "lex_exp s =
     (case s of
        c # s' \<Rightarrow>
          if c = CHR ''e'' \<or> c = CHR ''E'' then
            (case s' of
               g # s'' \<Rightarrow>
                 if g = CHR ''+'' \<or> g = CHR ''-''
                 then map_option (\<lambda>(ds, r). (c # g # ds, r)) (lex_digits1 s'')
                 else map_option (\<lambda>(ds, r). (c # ds, r)) (lex_digits1 s')
             | [] \<Rightarrow> None)
          else Some ([], s)
      | [] \<Rightarrow> Some ([], s))"

definition lex_number :: "bytes \<Rightarrow> (bytes \<times> bytes) option" where
  "lex_number s =
     (case lex_sign s of (g, s1) \<Rightarrow>
      case lex_int s1 of None \<Rightarrow> None | Some (i, s2) \<Rightarrow>
      case lex_frac s2 of None \<Rightarrow> None | Some (f, s3) \<Rightarrow>
      case lex_exp s3 of None \<Rightarrow> None | Some (e, s4) \<Rightarrow> Some (g @ i @ f @ e, s4))"

definition lex_lit :: "bytes \<Rightarrow> bytes \<Rightarrow> (bytes \<times> bytes) option" where
  "lex_lit w s = map_option (\<lambda>r. (w, r)) (strings_CutPrefix s w)"

definition lex_scalar :: "bytes \<Rightarrow> (bytes \<times> bytes) option" where
  "lex_scalar s =
     (case s of
        [] \<Rightarrow> None
      | c # _ \<Rightarrow>
          if c = CHR ''n'' then lex_lit ''null'' s
          else if c = CHR ''t'' then lex_lit ''true'' s
          else if c = CHR ''f'' then lex_lit ''false'' s
          else lex_number s)"

section \<open>Parsing\<close>

text \<open>
  The grammar of the \<open>json\<close> scanner.  \<open>d\<close> is the nesting still allowed; the first argument bounds
  the recursion (\<open>json_parse_fuel\<close> below shows that the bound \<open>json_parse\<close> uses is enough).
\<close>

fun parse_value :: "nat \<Rightarrow> nat \<Rightarrow> bytes \<Rightarrow> (jval \<times> bytes) option"
  and parse_items :: "nat \<Rightarrow> nat \<Rightarrow> bytes \<Rightarrow> (items \<times> bytes) option"
  and parse_members :: "nat \<Rightarrow> nat \<Rightarrow> bytes \<Rightarrow> (members \<times> bytes) option" where
  "parse_value 0 d s = None"
| "parse_value (Suc n) d s =
     (case s of
        [] \<Rightarrow> None
      | c # s' \<Rightarrow>
          if c = CHR 0x22 then map_option (\<lambda>(raw, rest). (JString raw, rest)) (lex_string s')
          else if c = CHR ''['' then
            (if d = 0 then None
             else (case dropWhile json_ws s' of
                     e # rest \<Rightarrow>
                       if e = CHR '']'' then Some (JArray (takeWhile json_ws s') INil, rest)
                       else map_option (\<lambda>(is, r). (JArray [] is, r)) (parse_items n (d - 1) s')
                   | [] \<Rightarrow> None))
          else if c = CHR ''{'' then
            (if d = 0 then None
             else (case dropWhile json_ws s' of
                     e # rest \<Rightarrow>
                       if e = CHR ''}'' then Some (JObject (takeWhile json_ws s') MNil, rest)
                       else map_option (\<lambda>(ms, r). (JObject [] ms, r)) (parse_members n (d - 1) s')
                   | [] \<Rightarrow> None))
          else map_option (\<lambda>(t, r). (JScalar t, r)) (lex_scalar s))"
| "parse_items 0 d s = None"
| "parse_items (Suc n) d s =
     (case parse_value n d (dropWhile json_ws s) of
        None \<Rightarrow> None
      | Some (v, s2) \<Rightarrow>
          (case dropWhile json_ws s2 of
             e # rest \<Rightarrow>
               if e = CHR '']'' then
                 Some (ICons (takeWhile json_ws s) v (takeWhile json_ws s2) INil, rest)
               else if e = CHR '','' then
                 map_option (\<lambda>(is, r). (ICons (takeWhile json_ws s) v (takeWhile json_ws s2) is, r))
                   (parse_items n d rest)
               else None
           | [] \<Rightarrow> None))"
| "parse_members 0 d s = None"
| "parse_members (Suc n) d s =
     (case dropWhile json_ws s of
        q # s1 \<Rightarrow>
          if q \<noteq> CHR 0x22 then None
          else (case lex_string s1 of
            None \<Rightarrow> None
          | Some (k, s2) \<Rightarrow>
              (case dropWhile json_ws s2 of
                 col # s3 \<Rightarrow>
                   if col \<noteq> CHR '':'' then None
                   else (case parse_value n d (dropWhile json_ws s3) of
                     None \<Rightarrow> None
                   | Some (v, s4) \<Rightarrow>
                       (case dropWhile json_ws s4 of
                          e # rest \<Rightarrow>
                            if e = CHR ''}'' then
                              Some (MCons (takeWhile json_ws s) k (takeWhile json_ws s2)
                                      (takeWhile json_ws s3) v (takeWhile json_ws s4) MNil, rest)
                            else if e = CHR '','' then
                              map_option (\<lambda>(ms, r). (MCons (takeWhile json_ws s) k (takeWhile json_ws s2)
                                      (takeWhile json_ws s3) v (takeWhile json_ws s4) ms, r))
                                (parse_members n d rest)
                            else None
                        | [] \<Rightarrow> None))
               | [] \<Rightarrow> None))
      | [] \<Rightarrow> None)"

text \<open>The decoder's own limit on nesting (\<open>maxNestingDepth\<close> of the Go package).\<close>

definition maxNestingDepth :: nat where
  "maxNestingDepth = 10000"

definition json_parse :: "bytes \<Rightarrow> jval option" where
  "json_parse s =
     (case parse_value (2 * length s + 2) maxNestingDepth (dropWhile json_ws s) of
        None \<Rightarrow> None
      | Some (v, rest) \<Rightarrow> if dropWhile json_ws rest = [] then Some v else None)"

section \<open>Well-formed trees\<close>

definition all_ws :: "bytes \<Rightarrow> bool" where
  "all_ws w = list_all json_ws w"

definition string_ok :: "bytes \<Rightarrow> bool" where
  "string_ok r = (lex_string (r @ [CHR 0x22]) = Some (r, []))"

definition scalar_ok :: "bytes \<Rightarrow> bool" where
  "scalar_ok t = (lex_scalar t = Some (t, []))"

fun wf_json :: "jval \<Rightarrow> bool"
  and wf_items :: "items \<Rightarrow> bool"
  and wf_members :: "members \<Rightarrow> bool" where
  "wf_json (JScalar t) = scalar_ok t"
| "wf_json (JString r) = string_ok r"
| "wf_json (JArray w is) = (all_ws w \<and> wf_items is \<and> (is \<noteq> INil \<longrightarrow> w = []))"
| "wf_json (JObject w ms) = (all_ws w \<and> wf_members ms \<and> (ms \<noteq> MNil \<longrightarrow> w = []))"
| "wf_items INil = True"
| "wf_items (ICons a v b is) = (all_ws a \<and> wf_json v \<and> all_ws b \<and> wf_items is)"
| "wf_members MNil = True"
| "wf_members (MCons a k b c v d ms) =
     (all_ws a \<and> string_ok k \<and> all_ws b \<and> all_ws c \<and> wf_json v \<and> all_ws d \<and> wf_members ms)"

end
