(* ===== verification/JsonRoundtrip.thy ===== *)
theory JsonRoundtrip
  imports GoJson
begin

text \<open>
  The parser of \<open>GoJson\<close> is sound and complete for the concrete syntax: what it accepts renders
  back to the same bytes, and every well-formed tree within the nesting limit is what its
  rendering parses to.  In particular the recursion bound of \<open>json_parse\<close> is always enough.
\<close>

section \<open>Lexers\<close>

text \<open>
  The contract of a lexer: it splits its input, and it finds the same token again in front of
  anything that may follow it.
\<close>

locale lexer =
  fixes lex :: "bytes \<Rightarrow> (bytes \<times> bytes) option"
    and stops :: "bytes \<Rightarrow> bool"
  assumes lex_split: "lex s = Some (t, r) \<Longrightarrow> s = t @ r"
    and lex_again: "lex s = Some (t, r) \<Longrightarrow> stops r' \<Longrightarrow> lex (t @ r') = Some (t, r')"
begin

lemma lex_self: "lex s = Some (t, r) \<Longrightarrow> stops [] \<Longrightarrow> lex t = Some (t, [])"
  using lex_again [of s t r "[]"] by simp

lemma lex_extend: "lex t = Some (t, []) \<Longrightarrow> stops r \<Longrightarrow> lex (t @ r) = Some (t, r)"
  using lex_again by blast

end

definition head_ok :: "(char \<Rightarrow> bool) \<Rightarrow> bytes \<Rightarrow> bool" where
  "head_ok P r = (case r of [] \<Rightarrow> True | c # _ \<Rightarrow> P c)"

lemma head_ok_simps [simp]:
  "head_ok P []"
  "head_ok P (c # r) = P c"
  by (simp_all add: head_ok_def)

lemma takeWhile_stop: "list_all P ds \<Longrightarrow> head_ok (\<lambda>c. \<not> P c) r \<Longrightarrow> takeWhile P (ds @ r) = ds"
  by (induction ds) (auto simp: head_ok_def split: list.splits)

lemma dropWhile_stop: "list_all P ds \<Longrightarrow> head_ok (\<lambda>c. \<not> P c) r \<Longrightarrow> dropWhile P (ds @ r) = r"
  by (induction ds) (auto simp: head_ok_def split: list.splits)

lemma lex_digits1_Some:
  "lex_digits1 s = Some (ds, r) \<longleftrightarrow>
     ds \<noteq> [] \<and> list_all json_digit ds \<and> s = ds @ r \<and> head_ok (\<lambda>c. \<not> json_digit c) r"
proof
  assume "lex_digits1 s = Some (ds, r)"
  then have "ds = takeWhile json_digit s" "r = dropWhile json_digit s" "ds \<noteq> []"
    by (auto simp: lex_digits1_def Let_def split: if_splits)
  then show "ds \<noteq> [] \<and> list_all json_digit ds \<and> s = ds @ r \<and> head_ok (\<lambda>c. \<not> json_digit c) r"
    by (auto simp: list_all_takeWhile head_ok_def dest: hd_dropWhile split: list.splits)
      (metis hd_dropWhile list.distinct(1) list.sel(1))
next
  assume "ds \<noteq> [] \<and> list_all json_digit ds \<and> s = ds @ r \<and> head_ok (\<lambda>c. \<not> json_digit c) r"
  then show "lex_digits1 s = Some (ds, r)"
    by (simp add: lex_digits1_def Let_def takeWhile_stop dropWhile_stop)
qed

interpretation digits: lexer lex_digits1 "head_ok (\<lambda>c. \<not> json_digit c)"
  by unfold_locales (auto simp: lex_digits1_Some)

lemma digit_chars [simp]:
  "\<not> json_digit (CHR ''.'')" "\<not> json_digit (CHR ''e'')" "\<not> json_digit (CHR ''E'')"
  "\<not> json_digit (CHR ''+'')" "\<not> json_digit (CHR ''-'')" "json_digit (CHR ''0'')"
  by (simp_all add: json_digit_def)

interpretation int_lexer: lexer lex_int "head_ok (\<lambda>c. \<not> json_digit c)"
proof
  fix s t r
  assume "lex_int s = Some (t, r)"
  then show "s = t @ r"
    by (auto simp: lex_int_def lex_digits1_Some split: list.splits if_splits)
next
  fix s t r r' :: bytes
  assume a: "lex_int s = Some (t, r)" "head_ok (\<lambda>c. \<not> json_digit c) r'"
  then obtain c s' where s: "s = c # s'" by (auto simp: lex_int_def split: list.splits)
  show "lex_int (t @ r') = Some (t, r')"
  proof (cases "c = CHR ''0''")
    case True
    with a s show ?thesis by (auto simp: lex_int_def)
  next
    case False
    with a(1) s have d: "lex_digits1 s = Some (t, r)" by (simp add: lex_int_def)
    then obtain t' where "t = c # t'" using s by (cases t) (auto simp: lex_digits1_Some)
    with digits.lex_again [OF d a(2)] False show ?thesis by (simp add: lex_int_def)
  qed
qed

definition frac_stops :: "bytes \<Rightarrow> bool" where
  "frac_stops r = head_ok (\<lambda>c. \<not> json_digit c \<and> c \<noteq> CHR ''.'') r"

lemma lex_frac_shape:
  "lex_frac s = Some (f, r) \<longleftrightarrow>
     (f = [] \<and> s = r \<and> head_ok (\<lambda>c. c \<noteq> CHR ''.'') r) \<or>
     (\<exists>ds. f = CHR ''.'' # ds \<and> ds \<noteq> [] \<and> list_all json_digit ds \<and> s = f @ r \<and>
        head_ok (\<lambda>c. \<not> json_digit c) r)"
proof (cases s)
  case Nil
  then show ?thesis by (auto simp: lex_frac_def)
next
  case (Cons c s')
  show ?thesis
  proof (cases "c = CHR ''.''")
    case True
    then have "lex_frac s = Some (f, r) \<longleftrightarrow> (\<exists>ds. lex_digits1 s' = Some (ds, r) \<and> f = c # ds)"
      by (auto simp: lex_frac_def Cons)
    then show ?thesis using True unfolding Cons lex_digits1_Some by auto
  next
    case False
    then show ?thesis by (auto simp: lex_frac_def Cons)
  qed
qed

interpretation frac_lexer: lexer lex_frac frac_stops
proof
  fix s t r
  assume "lex_frac s = Some (t, r)"
  then show "s = t @ r" by (auto simp: lex_frac_shape)
next
  fix s t r r' :: bytes
  assume l: "lex_frac s = Some (t, r)" and "frac_stops r'"
  then have h: "head_ok (\<lambda>c. \<not> json_digit c) r'" "head_ok (\<lambda>c. c \<noteq> CHR ''.'') r'"
    by (auto simp: frac_stops_def head_ok_def split: list.splits)
  from l consider "t = []" | ds where "t = CHR ''.'' # ds" "ds \<noteq> []" "list_all json_digit ds"
    by (auto simp: lex_frac_shape)
  then show "lex_frac (t @ r') = Some (t, r')"
  proof cases
    case 1
    with h show ?thesis by (simp add: lex_frac_shape)
  next
    case 2
    have "lex_frac (t @ r') = Some (t, r') \<longleftrightarrow> (\<exists>ds. t = CHR ''.'' # ds \<and> ds \<noteq> [] \<and>
        list_all json_digit ds \<and> head_ok (\<lambda>c. \<not> json_digit c) r')"
      unfolding lex_frac_shape using 2 by blast
    with 2 h show ?thesis by blast
  qed
qed

definition number_stops :: "bytes \<Rightarrow> bool" where
  "number_stops r = head_ok (\<lambda>c. \<not> json_digit c \<and> c \<noteq> CHR ''.'' \<and> c \<noteq> CHR ''e'' \<and> c \<noteq> CHR ''E'') r"

lemma number_stops_head:
  "number_stops r \<Longrightarrow> head_ok (\<lambda>c. \<not> json_digit c) r"
  "number_stops r \<Longrightarrow> frac_stops r"
  by (auto simp: number_stops_def frac_stops_def head_ok_def split: list.splits)

lemma lex_exp_shape:
  "lex_exp s = Some (e, r) \<longleftrightarrow>
     (e = [] \<and> s = r \<and> head_ok (\<lambda>c. c \<noteq> CHR ''e'' \<and> c \<noteq> CHR ''E'') r) \<or>
     (\<exists>c g ds. (c = CHR ''e'' \<or> c = CHR ''E'') \<and> g \<in> {[], ''+'', ''-''} \<and> e = c # g @ ds \<and>
        ds \<noteq> [] \<and> list_all json_digit ds \<and> s = e @ r \<and> head_ok (\<lambda>c. \<not> json_digit c) r)"
  (is "?L \<longleftrightarrow> ?A \<or> ?B")
proof (cases s)
  case Nil
  then have "\<not> ?B" by simp
  moreover have "?L \<longleftrightarrow> ?A" unfolding Nil by (auto simp: lex_exp_def)
  ultimately show ?thesis by blast
next
  case (Cons c s')
  show ?thesis
  proof (cases "c = CHR ''e'' \<or> c = CHR ''E''")
    case False
    then have "\<not> ?B" unfolding Cons by auto
    moreover have "?L \<longleftrightarrow> ?A" using False unfolding Cons by (auto simp: lex_exp_def)
    ultimately show ?thesis by blast
  next
    case True
    then have nA: "\<not> ?A" unfolding Cons by auto
    show ?thesis
    proof (cases s')
      case Nil
      with True show ?thesis unfolding Cons by (auto simp: lex_exp_def)
    next
      case (Cons g s'')
      show ?thesis
      proof (cases "g = CHR ''+'' \<or> g = CHR ''-''")
        case True2: True
        have "?L \<longleftrightarrow> (\<exists>ds. lex_digits1 s'' = Some (ds, r) \<and> e = c # g # ds)"
          using True True2 unfolding \<open>s = c # s'\<close> Cons by (auto simp: lex_exp_def)
        also have "\<dots> \<longleftrightarrow> ?B"
        proof
          assume "\<exists>ds. lex_digits1 s'' = Some (ds, r) \<and> e = c # g # ds"
          then obtain ds where d: "ds \<noteq> []" "list_all json_digit ds" "s'' = ds @ r"
            "head_ok (\<lambda>c. \<not> json_digit c) r" "e = c # [g] @ ds"
            by (auto simp: lex_digits1_Some)
          moreover have "s = e @ r" using d \<open>s = c # s'\<close> Cons by simp
          moreover have "[g] \<in> {[], ''+'', ''-''}" using True2 by auto
          ultimately show ?B using True by blast
        next
          assume ?B
          then obtain c0 g0 ds where b: "g0 \<in> {[], ''+'', ''-''}" "e = c0 # g0 @ ds" "ds \<noteq> []"
            "list_all json_digit ds" "s = e @ r" "head_ok (\<lambda>c. \<not> json_digit c) r" by blast
          then have eq: "c0 = c" "g # s'' = g0 @ ds @ r" using \<open>s = c # s'\<close> Cons by simp_all
          have "g0 \<noteq> []"
          proof
            assume "g0 = []"
            then have "json_digit g" using eq(2) b(3,4) by (cases ds) auto
            then show False using True2 by auto
          qed
          then have "g0 = [g]" "s'' = ds @ r" using b(1) eq(2) by auto
          then show "\<exists>ds. lex_digits1 s'' = Some (ds, r) \<and> e = c # g # ds"
            using b eq(1) by (simp add: lex_digits1_Some)
        qed
        finally show ?thesis using nA by blast
      next
        case False2: False
        have "?L \<longleftrightarrow> (\<exists>ds. lex_digits1 s' = Some (ds, r) \<and> e = c # ds)"
          using True False2 unfolding \<open>s = c # s'\<close> Cons by (auto simp: lex_exp_def)
        also have "\<dots> \<longleftrightarrow> ?B"
        proof
          assume "\<exists>ds. lex_digits1 s' = Some (ds, r) \<and> e = c # ds"
          then obtain ds where d: "ds \<noteq> []" "list_all json_digit ds" "s' = ds @ r"
            "head_ok (\<lambda>c. \<not> json_digit c) r" "e = c # [] @ ds"
            by (auto simp: lex_digits1_Some)
          moreover have "s = e @ r" using d \<open>s = c # s'\<close> by simp
          moreover have "[] \<in> {[], ''+'', ''-''}" by simp
          ultimately show ?B using True by blast
        next
          assume ?B
          then obtain c0 g0 ds where b: "g0 \<in> {[], ''+'', ''-''}" "e = c0 # g0 @ ds" "ds \<noteq> []"
            "list_all json_digit ds" "s = e @ r" "head_ok (\<lambda>c. \<not> json_digit c) r" by blast
          then have "c0 = c" "s' = g0 @ ds @ r" using \<open>s = c # s'\<close> by simp_all
          moreover have "g0 = []" using b(1) calculation(2) Cons False2 by auto
          ultimately show "\<exists>ds. lex_digits1 s' = Some (ds, r) \<and> e = c # ds"
            using b by (simp add: lex_digits1_Some)
        qed
        finally show ?thesis using nA by blast
      qed
    qed
  qed
qed

interpretation exp_lexer: lexer lex_exp number_stops
proof
  fix s t r
  assume "lex_exp s = Some (t, r)"
  then show "s = t @ r" by (auto simp: lex_exp_shape)
next
  fix s t r r' :: bytes
  assume l: "lex_exp s = Some (t, r)" and "number_stops r'"
  then have h: "head_ok (\<lambda>c. \<not> json_digit c) r'"
    "head_ok (\<lambda>c. c \<noteq> CHR ''e'' \<and> c \<noteq> CHR ''E'') r'"
    by (auto simp: number_stops_def head_ok_def split: list.splits)
  from l consider "t = []" | c g ds where "c = CHR ''e'' \<or> c = CHR ''E''" "g \<in> {[], ''+'', ''-''}"
      "t = c # g @ ds" "ds \<noteq> []" "list_all json_digit ds"
    unfolding lex_exp_shape by blast
  then show "lex_exp (t @ r') = Some (t, r')"
  proof cases
    case 1
    with h show ?thesis by (simp add: lex_exp_shape)
  next
    case 2
    with h show ?thesis unfolding lex_exp_shape by blast
  qed
qed

section \<open>Numbers and literals\<close>

lemma lex_sign_split: "lex_sign s = (g, r) \<Longrightarrow> s = g @ r"
  by (auto simp: lex_sign_def split: list.splits if_splits)

lemma lex_sign_again:
  "lex_sign s = (g, r) \<Longrightarrow> head_ok (\<lambda>c. c \<noteq> CHR ''-'') r' \<or> g \<noteq> [] \<Longrightarrow> lex_sign (g @ r') = (g, r')"
  by (auto simp: lex_sign_def head_ok_def split: list.splits if_splits)

lemma lex_int_head: "lex_int s = Some (i, r) \<Longrightarrow> i \<noteq> [] \<and> json_digit (hd i)"
  by (auto simp: lex_int_def lex_digits1_Some list_all_iff split: list.splits if_splits)

interpretation number_lexer: lexer lex_number number_stops
proof
  fix s t r
  assume "lex_number s = Some (t, r)"
  then show "s = t @ r"
    by (auto simp: lex_number_def split: prod.splits option.splits
        dest!: lex_sign_split int_lexer.lex_split frac_lexer.lex_split exp_lexer.lex_split)
next
  fix s t r r' :: bytes
  assume l: "lex_number s = Some (t, r)" and stop: "number_stops r'"
  from l obtain g s1 i s2 f s3 e where
    parts: "lex_sign s = (g, s1)" "lex_int s1 = Some (i, s2)" "lex_frac s2 = Some (f, s3)"
      "lex_exp s3 = Some (e, r)" and t: "t = g @ i @ f @ e"
    by (auto simp: lex_number_def split: prod.splits option.splits)
  have e: "lex_exp (e @ r') = Some (e, r')" by (rule exp_lexer.lex_again [OF parts(4) stop])
  have "frac_stops (e @ r')"
    using parts(4) stop number_stops_head(2) [OF stop] unfolding lex_exp_shape
    by (auto simp: frac_stops_def)
  then have f: "lex_frac (f @ e @ r') = Some (f, e @ r')" by (rule frac_lexer.lex_again [OF parts(3)])
  have "head_ok (\<lambda>c. \<not> json_digit c) (f @ e @ r')"
    using parts(3) \<open>frac_stops (e @ r')\<close> unfolding lex_frac_shape
    by (auto simp: frac_stops_def head_ok_def split: list.splits)
  then have i: "lex_int (i @ f @ e @ r') = Some (i, f @ e @ r')" by (rule int_lexer.lex_again [OF parts(2)])
  have "head_ok (\<lambda>c. c \<noteq> CHR ''-'') (i @ f @ e @ r')"
    using lex_int_head [OF parts(2)] by (cases i) auto
  then have "lex_sign (g @ i @ f @ e @ r') = (g, i @ f @ e @ r')"
    using lex_sign_again [OF parts(1)] by blast
  with i f e show "lex_number (t @ r') = Some (t, r')" by (simp add: lex_number_def t)
qed

lemma lex_lit_Some: "lex_lit w s = Some (t, r) \<longleftrightarrow> t = w \<and> s = w @ r"
  by (auto simp: lex_lit_def strings_CutPrefix_Some)

lemma lex_number_nonempty: "lex_number s = Some (t, r) \<Longrightarrow> t \<noteq> []"
  by (auto simp: lex_number_def dest!: lex_int_head split: prod.splits option.splits)

lemma lex_scalar_shape:
  "lex_scalar s = Some (t, r) \<longleftrightarrow>
     (t \<in> {''null'', ''true'', ''false''} \<and> s = t @ r) \<or>
     (head_ok (\<lambda>c. c \<notin> set ''ntf'') s \<and> lex_number s = Some (t, r))"
proof (cases s)
  case Nil
  then show ?thesis by (auto simp: lex_scalar_def lex_number_def lex_sign_def lex_int_def)
next
  case (Cons c s')
  consider "c = CHR ''n''" | "c = CHR ''t''" | "c = CHR ''f''" | "c \<notin> set ''ntf''" by auto
  then show ?thesis
    by cases (auto simp: lex_scalar_def Cons lex_lit_Some)
qed

interpretation scalar_lexer: lexer lex_scalar number_stops
proof
  fix s t r
  assume "lex_scalar s = Some (t, r)"
  then show "s = t @ r" by (auto simp: lex_scalar_shape dest: number_lexer.lex_split)
next
  fix s t r r' :: bytes
  assume l: "lex_scalar s = Some (t, r)" and stop: "number_stops r'"
  show "lex_scalar (t @ r') = Some (t, r')"
  proof (cases "t \<in> {''null'', ''true'', ''false''}")
    case True
    then show ?thesis unfolding lex_scalar_shape by blast
  next
    case False
    with l have n: "lex_number s = Some (t, r)" "head_ok (\<lambda>c. c \<notin> set ''ntf'') s"
      by (auto simp: lex_scalar_shape)
    then have "head_ok (\<lambda>c. c \<notin> set ''ntf'') (t @ r')"
      using lex_number_nonempty [OF n(1)] number_lexer.lex_split [OF n(1)] by (cases t) auto
    with number_lexer.lex_again [OF n(1) stop] show ?thesis unfolding lex_scalar_shape by blast
  qed
qed

lemma number_stops_Nil [simp]: "number_stops []"
  by (simp add: number_stops_def)

lemma lex_scalar_nonempty: "lex_scalar s = Some (t, r) \<Longrightarrow> t \<noteq> []"
  by (auto simp: lex_scalar_shape dest: lex_number_nonempty)

section \<open>Strings\<close>

text \<open>The quote that ends a string is part of what its lexer consumes.\<close>

definition lex_quoted :: "bytes \<Rightarrow> (bytes \<times> bytes) option" where
  "lex_quoted s = map_option (\<lambda>(raw, rest). (raw @ [CHR 0x22], rest)) (lex_string s)"

lemma escape_len_take:
  assumes "escape_len s = Some n"
  shows "n \<le> length s" "escape_len (take n s @ r) = Some n"
proof -
  obtain e s' where s: "s = e # s'" using assms by (cases s) (auto simp: escape_len_def)
  have "n = 1 \<or> n = 5 \<and> 4 \<le> length s'"
    using assms by (auto simp: escape_len_def s split: if_split_asm)
  then show "n \<le> length s" "escape_len (take n s @ r) = Some n"
    using assms by (auto simp: escape_len_def s split: if_split_asm)
qed

lemma lex_string_cases:
  assumes "lex_string (c # s) = Some (raw, rest)"
  obtains (quote) "c = CHR 0x22" "raw = []" "rest = s"
  | (escape) n raw' where "c = CHR 0x5C" "escape_len s = Some n" "raw = c # take n s @ raw'"
      "lex_string (drop n s) = Some (raw', rest)"
  | (plain) raw' where "c \<noteq> CHR 0x22" "c \<noteq> CHR 0x5C" "\<not> byte c < 0x20" "raw = c # raw'"
      "lex_string s = Some (raw', rest)"
  using assms by (auto split: if_split_asm option.split_asm)

lemma lex_string_split:
  "lex_string s = Some (raw, rest) \<Longrightarrow> s = raw @ CHR 0x22 # rest"
proof (induction s arbitrary: raw rest rule: lex_string.induct)
  case (2 c s)
  from "2.prems" show ?case
  proof (cases rule: lex_string_cases)
    case (escape n raw')
    then have "drop n s = raw' @ CHR 0x22 # rest" using "2.IH"(1) by simp
    with escape show ?thesis by (metis append_Cons append_assoc append_take_drop_id)
  next
    case (plain raw')
    then show ?thesis using "2.IH"(2) by simp
  qed simp
qed simp

lemma lex_string_again:
  "lex_string s = Some (raw, rest) \<Longrightarrow> lex_string (raw @ CHR 0x22 # r') = Some (raw, r')"
proof (induction s arbitrary: raw rest rule: lex_string.induct)
  case (2 c s)
  from "2.prems" show ?case
  proof (cases rule: lex_string_cases)
    case (escape n raw')
    then have "lex_string (raw' @ CHR 0x22 # r') = Some (raw', r')" using "2.IH"(1) by simp
    with escape escape_len_take [OF escape(2)] show ?thesis by simp
  next
    case (plain raw')
    then show ?thesis using "2.IH"(2) by simp
  qed simp
qed simp

interpretation quoted_lexer: lexer lex_quoted "\<lambda>_. True"
  by unfold_locales (auto simp: lex_quoted_def dest: lex_string_split lex_string_again)

lemma lex_string_ok: "lex_string s = Some (raw, rest) \<Longrightarrow> string_ok raw"
  unfolding string_ok_def by (rule lex_string_again)

lemma string_ok_extend: "string_ok raw \<Longrightarrow> lex_string (raw @ CHR 0x22 # r) = Some (raw, r)"
  unfolding string_ok_def by (rule lex_string_again)

section \<open>Soundness of the parser\<close>

lemma ws_split: "s = takeWhile json_ws s @ dropWhile json_ws s"
  by simp

lemma ws_all [simp]: "all_ws (takeWhile json_ws s)"
  by (simp add: all_ws_def list_all_takeWhile)

lemma all_ws_Nil [simp]: "all_ws []"
  by (simp add: all_ws_def)

lemma lex_string_sound: "lex_string s = Some (raw, r) \<Longrightarrow> s = raw @ CHR 0x22 # r \<and> string_ok raw"
  by (simp add: lex_string_split lex_string_ok)

lemma lex_scalar_sound:
  assumes "lex_scalar s = Some (t, r)"
  shows "s = t @ r \<and> scalar_ok t"
  using scalar_lexer.lex_split [OF assms] scalar_lexer.lex_self [OF assms]
  by (simp add: scalar_ok_def)

lemma ws_cut: "dropWhile json_ws s = e # rest \<Longrightarrow> s = takeWhile json_ws s @ e # rest"
  by (metis takeWhile_dropWhile_id)

lemma parse_value_scalar:
  "c \<noteq> CHR 0x22 \<Longrightarrow> c \<noteq> CHR ''['' \<Longrightarrow> c \<noteq> CHR ''{'' \<Longrightarrow>
     parse_value (Suc n) d (c # s) = map_option (\<lambda>(t, r). (JScalar t, r)) (lex_scalar (c # s))"
  by simp

lemma parse_sound:
  "parse_value n d s = Some (v, r) \<Longrightarrow> s = render v @ r \<and> wf_json v \<and> jdepth v \<le> d"
  "parse_items n d s = Some (is, r) \<Longrightarrow>
     s = render_items is @ CHR '']'' # r \<and> wf_items is \<and> jdepth_items is \<le> d \<and> is \<noteq> INil"
  "parse_members n d s = Some (ms, r) \<Longrightarrow>
     s = render_members ms @ CHR ''}'' # r \<and> wf_members ms \<and> jdepth_members ms \<le> d \<and> ms \<noteq> MNil"
proof (induction n d s and n d s and n d s arbitrary: v r and "is" r and ms r
    rule: parse_value_parse_items_parse_members.induct)
  case (2 n d s)
  from "2.prems" obtain c s' where s: "s = c # s'" by (auto split: list.splits)
  consider "c = CHR 0x22" | "c = CHR ''[''" | "c = CHR ''{''"
    | "c \<noteq> CHR 0x22" "c \<noteq> CHR ''[''" "c \<noteq> CHR ''{''" by blast
  then show ?case
  proof cases
    case 1
    with "2.prems" s obtain raw where "lex_string s' = Some (raw, r)" "v = JString raw" by auto
    with 1 s show ?thesis by (auto dest: lex_string_sound)
  next
    case c: 2
    with "2.prems" s obtain e rest where d: "d \<noteq> 0" and e: "dropWhile json_ws s' = e # rest"
      by (auto split: if_split_asm list.split_asm)
    show ?thesis
    proof (cases "e = CHR '']''")
      case True
      with "2.prems" s c d e have v: "v = JArray (takeWhile json_ws s') INil" "r = rest" by auto
      with ws_cut [OF e] True s c d show ?thesis by simp
    next
      case False
      with "2.prems" s c d e obtain "is" where
        p: "parse_items n (d - 1) s' = Some (is, r)" "v = JArray [] is" by auto
      have nq: "c \<noteq> CHR 0x22" using c by simp
      from "2.IH"(1) [OF s nq c d e False p(1)] have
        "s' = render_items is @ CHR '']'' # r \<and> wf_items is \<and> jdepth_items is \<le> d - 1 \<and> is \<noteq> INil" .
      with p(2) s c d show ?thesis by auto
    qed
  next
    case c: 3
    with "2.prems" s obtain e rest where d: "d \<noteq> 0" and e: "dropWhile json_ws s' = e # rest"
      by (auto split: if_split_asm list.split_asm)
    show ?thesis
    proof (cases "e = CHR ''}''")
      case True
      with "2.prems" s c d e have v: "v = JObject (takeWhile json_ws s') MNil" "r = rest" by auto
      with ws_cut [OF e] True s c d show ?thesis by simp
    next
      case False
      with "2.prems" s c d e obtain ms where
        p: "parse_members n (d - 1) s' = Some (ms, r)" "v = JObject [] ms" by auto
      have nq: "c \<noteq> CHR 0x22" "c \<noteq> CHR ''[''" using c by simp_all
      from "2.IH"(2) [OF s nq c d e False p(1)] have
        "s' = render_members ms @ CHR ''}'' # r \<and> wf_members ms \<and> jdepth_members ms \<le> d - 1 \<and> ms \<noteq> MNil" .
      with p(2) s c d show ?thesis by auto
    qed
  next
    case 4
    then have "parse_value (Suc n) d s = map_option (\<lambda>(t, r). (JScalar t, r)) (lex_scalar s)"
      unfolding s by (rule parse_value_scalar)
    with "2.prems" have "map_option (\<lambda>(t, r). (JScalar t, r)) (lex_scalar s) = Some (v, r)"
      by (simp only:)
    then obtain t where "lex_scalar s = Some (t, r)" "v = JScalar t" by auto
    then show ?thesis by (auto dest: lex_scalar_sound)
  qed
next
  case (4 n d s)
  from "4.prems" obtain v s2 e rest where
    v: "parse_value n d (dropWhile json_ws s) = Some (v, s2)" and
    e: "dropWhile json_ws s2 = e # rest" by (auto split: option.split_asm list.split_asm prod.split_asm)
  have v': "dropWhile json_ws s = render v @ s2 \<and> wf_json v \<and> jdepth v \<le> d"
    by (rule "4.IH"(1) [OF v])
  then have s: "s = takeWhile json_ws s @ render v @ takeWhile json_ws s2 @ e # rest"
    using ws_cut [OF e] by (metis takeWhile_dropWhile_id)
  show ?case
  proof (cases "e = CHR '']''")
    case True
    with "4.prems" v e have "is = ICons (takeWhile json_ws s) v (takeWhile json_ws s2) INil" "r = rest"
      by auto
    with v' s True show ?thesis by simp
  next
    case False
    with "4.prems" v e obtain is' where p: "e = CHR '',''" "parse_items n d rest = Some (is', r)"
      "is = ICons (takeWhile json_ws s) v (takeWhile json_ws s2) is'"
      by (auto split: if_split_asm)
    have "rest = render_items is' @ CHR '']'' # r \<and> wf_items is' \<and> jdepth_items is' \<le> d \<and> is' \<noteq> INil"
      using "4.IH"(2) [OF v refl e False p(1) p(2)] by simp
    with p v' s show ?thesis by simp
  qed
next
  case (6 n d s)
  from "6.prems" obtain q s1 where q: "dropWhile json_ws s = q # s1"
    by (auto split: list.split_asm)
  with "6.prems" obtain k s2 where qq: "q = CHR 0x22" and k: "lex_string s1 = Some (k, s2)"
    by (auto split: if_split_asm option.split_asm)
  from "6.prems" q qq k obtain col s3 where col: "dropWhile json_ws s2 = col # s3"
    by (auto split: list.split_asm)
  from "6.prems" q qq k col have colon: "col = CHR '':''" by (auto split: if_split_asm)
  from "6.prems" q qq k col colon obtain v s4 where
    v: "parse_value n d (dropWhile json_ws s3) = Some (v, s4)"
    by (auto split: option.split_asm)
  from "6.prems" q qq k col colon v obtain e rest where e: "dropWhile json_ws s4 = e # rest"
    by (auto split: list.split_asm)
  have v': "dropWhile json_ws s3 = render v @ s4 \<and> wf_json v \<and> jdepth v \<le> d"
    using "6.IH"(1) [OF q _ k refl col _ v] qq colon by simp
  have k': "s1 = k @ CHR 0x22 # s2 \<and> string_ok k" using k by (rule lex_string_sound)
  have s3: "s3 = takeWhile json_ws s3 @ render v @ takeWhile json_ws s4 @ e # rest"
    using v' ws_cut [OF e] by (metis takeWhile_dropWhile_id)
  have s: "s = takeWhile json_ws s @ CHR 0x22 # k @ CHR 0x22 # takeWhile json_ws s2 @ CHR '':'' # s3"
    using ws_cut [OF q] ws_cut [OF col] k' qq colon by simp
  show ?case
  proof (cases "e = CHR ''}''")
    case True
    with "6.prems" q qq k col colon v e have
      "ms = MCons (takeWhile json_ws s) k (takeWhile json_ws s2) (takeWhile json_ws s3) v
         (takeWhile json_ws s4) MNil" "r = rest"
      by auto
    with v' k' s s3 True show ?thesis by simp
  next
    case False
    with "6.prems" q qq k col colon v e obtain ms' where
      p: "e = CHR '',''" "parse_members n d rest = Some (ms', r)"
      "ms = MCons (takeWhile json_ws s) k (takeWhile json_ws s2) (takeWhile json_ws s3) v
         (takeWhile json_ws s4) ms'"
      by (auto split: if_split_asm)
    have "rest = render_members ms' @ CHR ''}'' # r \<and> wf_members ms' \<and> jdepth_members ms' \<le> d \<and> ms' \<noteq> MNil"
      using "6.IH"(2) [OF q _ k refl col _ v refl e False p(1) p(2)] qq colon by simp
    with p v' k' s s3 show ?thesis by simp
  qed
qed simp_all

section \<open>Completeness of the parser\<close>

text \<open>How much recursion the parser needs for a tree.\<close>

fun need :: "jval \<Rightarrow> nat"
  and need_items :: "items \<Rightarrow> nat"
  and need_members :: "members \<Rightarrow> nat" where
  "need (JScalar t) = 1"
| "need (JString r) = 1"
| "need (JArray w is) = Suc (need_items is)"
| "need (JObject w ms) = Suc (need_members ms)"
| "need_items INil = 0"
| "need_items (ICons a v b is) = Suc (max (need v) (need_items is))"
| "need_members MNil = 0"
| "need_members (MCons a k b c v d ms) = Suc (max (need v) (need_members ms))"

lemma scalar_ok_head:
  assumes "scalar_ok t"
  obtains c t' where "t = c # t'" "c \<noteq> CHR 0x22" "c \<noteq> CHR ''[''" "c \<noteq> CHR ''{''" "\<not> json_ws c"
proof -
  from assms consider "t \<in> {''null'', ''true'', ''false''}" | "lex_number t = Some (t, [])"
    by (auto simp: scalar_ok_def lex_scalar_shape)
  then show ?thesis
  proof cases
    case 1
    then show ?thesis by (intro that [of "hd t" "tl t"]) (auto simp: json_ws_def)
  next
    case 2
    then obtain g s1 i s2 where p: "lex_sign t = (g, s1)" "lex_int s1 = Some (i, s2)"
      by (auto simp: lex_number_def split: prod.splits option.splits)
    obtain d i' where i: "i = d # i'" "json_digit d" using lex_int_head [OF p(2)] by (cases i) auto
    have "g = [] \<or> g = ''-''" using p(1) by (auto simp: lex_sign_def split: list.splits if_splits)
    moreover have "t = g @ i @ s2"
      using lex_sign_split [OF p(1)] int_lexer.lex_split [OF p(2)] by simp
    ultimately have "hd t = CHR ''-'' \<or> json_digit (hd t)" "t \<noteq> []" using i by auto
    then show ?thesis by (intro that [of "hd t" "tl t"]) (auto simp: json_digit_def json_ws_def)
  qed
qed

lemma render_head:
  assumes "wf_json v"
  obtains c s where "render v = c # s" "\<not> json_ws c" "c \<noteq> CHR '']''" "c \<noteq> CHR ''}''"
proof (cases v)
  case (JScalar t)
  with assms have ok: "scalar_ok t" by simp
  then obtain c t' where c: "t = c # t'" "\<not> json_ws c" by (rule scalar_ok_head)
  have "c \<noteq> CHR '']''" "c \<noteq> CHR ''}''"
    using ok by (auto simp: scalar_ok_def c lex_scalar_def lex_number_def lex_sign_def lex_int_def
        lex_digits1_def json_digit_def)
  with c JScalar show ?thesis by (intro that) auto
qed (auto intro: that simp: json_ws_def)

lemma ws_take: "all_ws w \<Longrightarrow> \<not> json_ws c \<Longrightarrow> takeWhile json_ws (w @ c # s) = w"
  by (simp add: all_ws_def takeWhile_stop)

lemma ws_drop: "all_ws w \<Longrightarrow> \<not> json_ws c \<Longrightarrow> dropWhile json_ws (w @ c # s) = c # s"
  by (simp add: all_ws_def dropWhile_stop)

lemma ws_value:
  assumes "all_ws w" "wf_json v"
  shows "takeWhile json_ws (w @ render v @ r) = w" "dropWhile json_ws (w @ render v @ r) = render v @ r"
proof -
  obtain c s where "render v = c # s" "\<not> json_ws c" using assms(2) by (rule render_head)
  with assms(1) show "takeWhile json_ws (w @ render v @ r) = w"
    "dropWhile json_ws (w @ render v @ r) = render v @ r"
    by (simp_all add: ws_take ws_drop)
qed

lemma json_ws_not [simp]:
  "\<not> json_ws (CHR '','')" "\<not> json_ws (CHR '']'')" "\<not> json_ws (CHR ''}'')" "\<not> json_ws (CHR '':'')"
  "\<not> json_ws (CHR 0x22)"
  by (simp_all add: json_ws_def)

lemma number_stops_ws: "all_ws w \<Longrightarrow> number_stops r \<Longrightarrow> number_stops (w @ r)"
  by (cases w) (auto simp: number_stops_def all_ws_def json_ws_def json_digit_def)

lemma number_stops_punct [simp]:
  "number_stops (CHR '','' # r)" "number_stops (CHR '']'' # r)" "number_stops (CHR ''}'' # r)"
  by (simp_all add: number_stops_def json_digit_def)

lemma items_head:
  assumes "wf_items is" "is \<noteq> INil"
  obtains c s where "dropWhile json_ws (render_items is @ r) = c # s" "c \<noteq> CHR '']''"
proof (cases "is")
  case (ICons a v b is')
  with assms have "all_ws a" "wf_json v" by auto
  moreover obtain c s where "render v = c # s" "\<not> json_ws c" "c \<noteq> CHR '']''"
    using \<open>wf_json v\<close> by (rule render_head)
  ultimately show ?thesis using ICons by (intro that) (auto simp: ws_drop)
qed (use assms in simp)

lemma members_head:
  assumes "wf_members ms" "ms \<noteq> MNil"
  obtains c s where "dropWhile json_ws (render_members ms @ r) = c # s" "c \<noteq> CHR ''}''"
proof (cases ms)
  case (MCons a k b c v d ms')
  with assms show ?thesis by (intro that) (auto simp: ws_drop)
qed (use assms in simp)

lemma parse_complete:
  "wf_json v \<Longrightarrow> jdepth v \<le> d \<Longrightarrow> need v \<le> n \<Longrightarrow> number_stops r \<Longrightarrow>
     parse_value n d (render v @ r) = Some (v, r)"
  "wf_items is \<Longrightarrow> jdepth_items is \<le> d \<Longrightarrow> need_items is \<le> n \<Longrightarrow> is \<noteq> INil \<Longrightarrow>
     parse_items n d (render_items is @ CHR '']'' # r) = Some (is, r)"
  "wf_members ms \<Longrightarrow> jdepth_members ms \<le> d \<Longrightarrow> need_members ms \<le> n \<Longrightarrow> ms \<noteq> MNil \<Longrightarrow>
     parse_members n d (render_members ms @ CHR ''}'' # r) = Some (ms, r)"
proof (induction v and "is" and ms arbitrary: n d r and n d r and n d r)
  case (JScalar t)
  from JScalar.prems have ok: "scalar_ok t" by simp
  then obtain c t' where c: "t = c # t'" "c \<noteq> CHR 0x22" "c \<noteq> CHR ''[''" "c \<noteq> CHR ''{''"
    by (rule scalar_ok_head)
  obtain m where n: "n = Suc m" using JScalar.prems by (cases n) auto
  have "lex_scalar (t @ r) = Some (t, r)"
    using ok JScalar.prems(4) scalar_lexer.lex_extend unfolding scalar_ok_def by blast
  with c n show ?case using parse_value_scalar [of c m d "t' @ r"] by simp
next
  case (JString t)
  then obtain m where n: "n = Suc m" by (cases n) auto
  from JString.prems have "lex_string (t @ CHR 0x22 # r) = Some (t, r)"
    by (simp add: string_ok_extend)
  with n show ?case by simp
next
  case (JArray w "is")
  then obtain m where n: "n = Suc m" by (cases n) auto
  show ?case
  proof (cases "is = INil")
    case True
    with JArray.prems n show ?thesis by (simp add: ws_drop ws_take)
  next
    case False
    have p: "parse_items m (d - 1) (render_items is @ CHR '']'' # r) = Some (is, r)"
      using JArray.prems n False by (intro JArray.IH) auto
    obtain c s where "dropWhile json_ws (render_items is @ CHR '']'' # r) = c # s" "c \<noteq> CHR '']''"
      using False JArray.prems by (elim items_head [rotated]) simp_all
    with p n False JArray.prems show ?thesis by simp
  qed
next
  case (JObject w ms)
  then obtain m where n: "n = Suc m" by (cases n) auto
  show ?case
  proof (cases "ms = MNil")
    case True
    with JObject.prems n show ?thesis by (simp add: ws_drop ws_take)
  next
    case False
    have p: "parse_members m (d - 1) (render_members ms @ CHR ''}'' # r) = Some (ms, r)"
      using JObject.prems n False by (intro JObject.IH) auto
    obtain c s where "dropWhile json_ws (render_members ms @ CHR ''}'' # r) = c # s" "c \<noteq> CHR ''}''"
      using False JObject.prems by (elim members_head [rotated]) simp_all
    with p n False JObject.prems show ?thesis by simp
  qed
next
  case (ICons a v b is')
  then obtain m where n: "n = Suc m" by (cases n) auto
  define tail where "tail = (if is' = INil then CHR '']'' # r else CHR '','' # render_items is' @ CHR '']'' # r)"
  have head: "tail = CHR '']'' # r \<or> (\<exists>s. tail = CHR '','' # s)" by (auto simp: tail_def)
  have wf: "all_ws a" "wf_json v" "all_ws b" "wf_items is'" using ICons.prems by auto
  have "number_stops (b @ tail)" using head wf(3) by (auto intro: number_stops_ws)
  then have v: "parse_value m d (render v @ b @ tail) = Some (v, b @ tail)"
    using ICons.prems n by (intro ICons.IH(1)) auto
  have eq: "render_items (ICons a v b is') @ CHR '']'' # r = a @ render v @ b @ tail"
    by (simp add: tail_def)
  show ?case
  proof (cases "is' = INil")
    case True
    then show ?thesis unfolding eq n using v wf
      by (simp add: ws_value tail_def ws_drop ws_take)
  next
    case False
    then have "parse_items m d (render_items is' @ CHR '']'' # r) = Some (is', r)"
      using ICons.prems n by (intro ICons.IH(2)) auto
    with False show ?thesis unfolding eq n using v wf
      by (simp add: ws_value tail_def ws_drop ws_take)
  qed
next
  case (MCons a k b c v e ms')
  then obtain m where n: "n = Suc m" by (cases n) auto
  define tail where "tail = (if ms' = MNil then CHR ''}'' # r else CHR '','' # render_members ms' @ CHR ''}'' # r)"
  have head: "tail = CHR ''}'' # r \<or> (\<exists>s. tail = CHR '','' # s)" by (auto simp: tail_def)
  have wf: "all_ws a" "string_ok k" "all_ws b" "all_ws c" "wf_json v" "all_ws e" "wf_members ms'"
    using MCons.prems by auto
  have "number_stops (e @ tail)" using head wf(6) by (auto intro: number_stops_ws)
  then have v: "parse_value m d (render v @ e @ tail) = Some (v, e @ tail)"
    using MCons.prems n by (intro MCons.IH(1)) auto
  have k: "lex_string (k @ CHR 0x22 # x) = Some (k, x)" for x using wf(2) by (rule string_ok_extend)
  have eq: "render_members (MCons a k b c v e ms') @ CHR ''}'' # r =
      a @ CHR 0x22 # k @ CHR 0x22 # b @ CHR '':'' # c @ render v @ e @ tail"
    by (simp add: tail_def)
  show ?case
  proof (cases "ms' = MNil")
    case True
    then show ?thesis unfolding eq n using v wf
      by (simp add: k ws_value tail_def ws_drop ws_take)
  next
    case False
    then have "parse_members m d (render_members ms' @ CHR ''}'' # r) = Some (ms', r)"
      using MCons.prems n by (intro MCons.IH(2)) auto
    with False show ?thesis unfolding eq n using v wf
      by (simp add: k ws_value tail_def ws_drop ws_take)
  qed
qed simp_all

lemma render_length: "wf_json v \<Longrightarrow> 0 < length (render v)"
  by (erule render_head) auto

lemma need_bound:
  "wf_json v \<Longrightarrow> need v \<le> length (render v)"
  "wf_items is \<Longrightarrow> need_items is \<le> Suc (length (render_items is))"
  "wf_members ms \<Longrightarrow> need_members ms \<le> Suc (length (render_members ms))"
proof (induction v and "is" and ms)
  case (JScalar t)
  then show ?case using render_length [of "JScalar t"] by (simp add: Suc_le_eq)
qed (auto split: if_splits)

section \<open>The whole text\<close>

text \<open>
  A text parses to \<open>v\<close> exactly when it is white space around the rendering of the well-formed
  tree \<open>v\<close>, and \<open>v\<close> nests no deeper than the limit.
\<close>

lemma json_parse_iff:
  "json_parse s = Some v \<longleftrightarrow>
     wf_json v \<and> jdepth v \<le> maxNestingDepth \<and> (\<exists>a b. all_ws a \<and> all_ws b \<and> s = a @ render v @ b)"
  (is "?L \<longleftrightarrow> ?R")
proof
  assume ?L
  then obtain r where r: "parse_value (2 * length s + 2) maxNestingDepth (dropWhile json_ws s) = Some (v, r)"
    and e: "dropWhile json_ws r = []"
    by (auto simp: json_parse_def split: option.splits if_splits)
  have v: "dropWhile json_ws s = render v @ r" "wf_json v" "jdepth v \<le> maxNestingDepth"
    using parse_sound(1) [OF r] by auto
  have "r = takeWhile json_ws r" using e by (metis append_Nil2 takeWhile_dropWhile_id)
  then have "all_ws r" by (metis ws_all)
  moreover have "s = takeWhile json_ws s @ render v @ r" using v(1) by (metis takeWhile_dropWhile_id)
  ultimately show ?R using v(2,3) ws_all by blast
next
  assume ?R
  then obtain a b where v: "wf_json v" "jdepth v \<le> maxNestingDepth" "all_ws a" "all_ws b"
    "s = a @ render v @ b" by blast
  have "need v \<le> 2 * length s + 2" using need_bound(1) [OF v(1)] v(5) by simp
  moreover have "number_stops b" using number_stops_ws [OF v(4) number_stops_Nil] by simp
  ultimately have "parse_value (2 * length s + 2) maxNestingDepth (render v @ b) = Some (v, b)"
    using v by (intro parse_complete)
  moreover have "dropWhile json_ws s = render v @ b" using v by (simp add: ws_value)
  moreover have "dropWhile json_ws b = []" using v(4) by (simp add: all_ws_def list_all_iff)
  ultimately show ?L by (simp add: json_parse_def)
qed

lemma json_parse_render: "wf_json v \<Longrightarrow> jdepth v \<le> maxNestingDepth \<Longrightarrow> json_parse (render v) = Some v"
  unfolding json_parse_iff by (metis all_ws_Nil append_Nil append_Nil2)

text \<open>The recursion bound of \<open>json_parse\<close> is never the reason it refuses a text.\<close>

lemma json_parse_fuel:
  "parse_value n maxNestingDepth (dropWhile json_ws s) = Some (v, r) \<Longrightarrow> dropWhile json_ws r = [] \<Longrightarrow>
     json_parse s = Some v"
proof -
  assume p: "parse_value n maxNestingDepth (dropWhile json_ws s) = Some (v, r)" and e: "dropWhile json_ws r = []"
  have v: "dropWhile json_ws s = render v @ r" "wf_json v" "jdepth v \<le> maxNestingDepth"
    using parse_sound(1) [OF p] by auto
  have "r = takeWhile json_ws r" using e by (metis append_Nil2 takeWhile_dropWhile_id)
  then have "all_ws r" by (metis ws_all)
  moreover have "s = takeWhile json_ws s @ render v @ r" using v(1) by (metis takeWhile_dropWhile_id)
  ultimately show ?thesis using v(2,3) ws_all unfolding json_parse_iff by blast
qed

text \<open>What the bytes of a literal or a number can be.\<close>

lemma scalar_ok_all:
  assumes "scalar_ok t" and dig: "\<And>c. json_digit c \<Longrightarrow> P c"
    and sym: "list_all P ''-+.eE''" and lit: "list_all P ''nulltruefalse''"
  shows "list_all P t"
proof -
  from assms consider "t \<in> {''null'', ''true'', ''false''}" | "lex_number t = Some (t, [])"
    by (auto simp: scalar_ok_def lex_scalar_shape)
  then show ?thesis
  proof cases
    case 1
    with lit show ?thesis by auto
  next
    case 2
    then obtain g s1 i s2 f s3 e where p: "lex_sign t = (g, s1)" "lex_int s1 = Some (i, s2)"
      "lex_frac s2 = Some (f, s3)" "lex_exp s3 = Some (e, [])" "t = g @ i @ f @ e"
      by (auto simp: lex_number_def split: prod.splits option.splits)
    have digs: "list_all json_digit ds \<Longrightarrow> list_all P ds" for ds
      using dig by (auto simp: list_all_iff)
    have "P (CHR ''0'')" by (rule dig) (simp add: json_digit_def)
    then have i: "list_all P i"
      using p(2) by (auto simp: lex_int_def lex_digits1_Some dest: digs split: list.splits if_splits)
    have "g = [] \<or> g = ''-''" using p(1) by (auto simp: lex_sign_def split: list.splits if_splits)
    then have g: "list_all P g" using sym by auto
    have f: "list_all P f"
      using lex_frac_shape [THEN iffD1, OF p(3)] sym by (elim disjE exE) (simp_all add: digs)
    have e: "list_all P e"
      using lex_exp_shape [THEN iffD1, OF p(4)] sym by (elim disjE exE conjE) (auto simp: digs)
    show ?thesis unfolding p(5) list_all_append using g i f e by blast
  qed
qed

end
