(* ===== verification/JsonDecode.thy ===== *)
theory JsonDecode
  imports JsonRoundtrip "HOL-Library.Char_ord" "HOL-Library.List_Lexorder"
begin

text \<open>
  What \<open>json.Unmarshal\<close> makes of a parsed text: the value of a string (escapes, surrogate pairs,
  invalid UTF-8), and the decoding into the few Go types the gateway uses, \<open>string\<close>,
  \<open>map[string]json.RawMessage\<close> and \<open>[]json.RawMessage\<close>.
\<close>

section \<open>The value of a string\<close>

text \<open>\<open>getu4\<close>: the code unit of a leading \<open>\uXXXX\<close>.\<close>

definition hex4 :: "bytes \<Rightarrow> nat option" where
  "hex4 s =
     (case s of
        a # b # c # d # _ \<Rightarrow>
          (case (hex_digit a, hex_digit b, hex_digit c, hex_digit d) of
             (Some x, Some y, Some z, Some w) \<Rightarrow> Some (((x * 16 + y) * 16 + z) * 16 + w)
           | _ \<Rightarrow> None)
      | _ \<Rightarrow> None)"

definition getu4 :: "bytes \<Rightarrow> nat option" where
  "getu4 s =
     (case s of
        a # b # s' \<Rightarrow> if a = CHR 0x5C \<and> b = CHR ''u'' then hex4 s' else None
      | _ \<Rightarrow> None)"

text \<open>\<open>utf16.IsSurrogate\<close> and \<open>utf16.DecodeRune\<close>, whose failure is \<open>None\<close> here.\<close>

definition utf16_IsSurrogate :: "nat \<Rightarrow> bool" where
  "utf16_IsSurrogate r = (0xD800 \<le> r \<and> r < 0xE000)"

definition utf16_DecodeRune :: "nat \<Rightarrow> nat \<Rightarrow> rune option" where
  "utf16_DecodeRune r1 r2 =
     (if 0xD800 \<le> r1 \<and> r1 < 0xDC00 \<and> 0xDC00 \<le> r2 \<and> r2 < 0xE000
      then Some ((r1 - 0xD800) * 0x400 + (r2 - 0xDC00) + 0x10000) else None)"

text \<open>The rune of \<open>\uXXXX\<close> (the four digits lead \<open>s\<close>), and how many bytes of \<open>s\<close> it takes.\<close>

definition unquote_u :: "bytes \<Rightarrow> (rune \<times> nat) option" where
  "unquote_u s =
     (case hex4 s of
        None \<Rightarrow> None
      | Some r \<Rightarrow>
          if utf16_IsSurrogate r then
            (case getu4 (drop 4 s) of
               None \<Rightarrow> Some (RuneError, 4)
             | Some r2 \<Rightarrow>
                 (case utf16_DecodeRune r r2 of
                    Some d \<Rightarrow> Some (d, 10)
                  | None \<Rightarrow> Some (RuneError, 4)))
          else Some (r, 4))"

definition simple_escape :: "char \<Rightarrow> char option" where
  "simple_escape e =
     (if e \<in> set [CHR 0x22, CHR 0x5C, CHR ''/'', CHR 0x27] then Some e
      else if e = CHR ''b'' then Some (CHR 0x08)
      else if e = CHR ''f'' then Some (CHR 0x0C)
      else if e = CHR ''n'' then Some (CHR 0x0A)
      else if e = CHR ''r'' then Some (CHR 0x0D)
      else if e = CHR ''t'' then Some (CHR 0x09)
      else None)"

text \<open>\<open>unquoteBytes\<close>, on the text between the quotes.\<close>

function unquote :: "bytes \<Rightarrow> bytes option" where
  "unquote [] = Some []"
| "unquote (c # s) =
     (if c = CHR 0x5C then
        (case s of
           [] \<Rightarrow> None
         | e # s' \<Rightarrow>
             if e = CHR ''u'' then
               (case unquote_u s' of
                  None \<Rightarrow> None
                | Some (r, n) \<Rightarrow> map_option ((@) (encode_rune r)) (unquote (drop n s')))
             else
               (case simple_escape e of
                  None \<Rightarrow> None
                | Some x \<Rightarrow> map_option ((#) x) (unquote s')))
      else if c = CHR 0x22 \<or> byte c < 0x20 then None
      else if byte c < 0x80 then map_option ((#) c) (unquote s)
      else (let (r, n) = decode_rune (c # s) in
            map_option ((@) (encode_rune r)) (unquote (drop n (c # s)))))"
  by pat_completeness auto
termination
proof (relation "measure length", goal_cases)
  case (5 c s p r n)
  then have "0 < n" using decode_rune_size_pos [of "c # s"] by (metis list.distinct(1) snd_conv)
  then show ?case by (cases n) (auto simp: less_Suc_eq_le)
qed auto

declare unquote.simps(2) [simp del]

lemma unquote_plain:
  "c \<noteq> CHR 0x5C \<Longrightarrow> c \<noteq> CHR 0x22 \<Longrightarrow> 0x20 \<le> byte c \<Longrightarrow> byte c < 0x80 \<Longrightarrow>
     unquote (c # s) = map_option ((#) c) (unquote s)"
  by (simp add: unquote.simps(2))

lemma unquote_multibyte:
  assumes "0x80 \<le> byte c"
  shows "unquote (c # s) = map_option ((@) (encode_rune (fst (decode_rune (c # s)))))
           (unquote (drop (snd (decode_rune (c # s))) (c # s)))"
proof -
  have "c \<noteq> CHR 0x5C" "c \<noteq> CHR 0x22" using assms by auto
  with assms show ?thesis by (simp add: unquote.simps(2) Let_def case_prod_beta)
qed

text \<open>A text without escapes that is valid UTF-8 is its own value (the \<open>exact\<close> case of a scan).\<close>

lemma unquote_exact:
  "CHR 0x5C \<notin> set s \<Longrightarrow> CHR 0x22 \<notin> set s \<Longrightarrow> list_all (\<lambda>c. 0x20 \<le> byte c) s \<Longrightarrow> utf8_Valid s \<Longrightarrow>
     unquote s = Some s"
proof (induction s rule: runes.induct)
  case (2 c s)
  show ?case
  proof (cases "byte c < 0x80")
    case True
    then have n: "snd (decode_rune (c # s)) = 1" by (simp add: decode_rune_ascii)
    with "2" True have "unquote s = Some s"
      by (auto simp: utf8_Valid_ascii_Cons decode_rune_ascii)
    moreover have "c \<noteq> CHR 0x5C" "c \<noteq> CHR 0x22" "0x20 \<le> byte c" using "2.prems" by auto
    ultimately show ?thesis using True by (simp add: unquote_plain)
  next
    case False
    obtain r n where d: "decode_rune (c # s) = (r, n)" by fastforce
    from "2.prems"(4) d have v: "\<not> (r = RuneError \<and> n = 1)" "utf8_Valid (drop n (c # s))"
      by (auto simp: utf8_Valid_Cons)
    have sub: "set (drop n (c # s)) \<subseteq> set (c # s)" by (rule set_drop_subset)
    have "unquote (drop n (c # s)) = Some (drop n (c # s))"
      using "2.IH" [OF d [symmetric] refl] v sub "2.prems" by (auto simp: list_all_iff)
    moreover have "encode_rune r = take n (c # s)"
      using encode_decode_rune [of "c # s"] d v(1) by simp
    ultimately show ?thesis using False d by (simp add: unquote_multibyte)
  qed
qed simp

text \<open>Whatever the scanner accepts between two quotes has a value.\<close>

lemma string_ok_plain:
  "c \<noteq> CHR 0x5C \<Longrightarrow> string_ok (c # s) \<longleftrightarrow> c \<noteq> CHR 0x22 \<and> \<not> byte c < 0x20 \<and> string_ok s"
  by (auto simp: string_ok_def)

lemma string_ok_escape:
  assumes "string_ok (CHR 0x5C # s)"
  obtains n where "escape_len s = Some n" "string_ok (drop n s)"
proof -
  from assms obtain n raw where n: "escape_len (s @ [CHR 0x22]) = Some n"
    and l: "lex_string (drop n (s @ [CHR 0x22])) = Some (raw, [])"
    and s: "s = take n (s @ [CHR 0x22]) @ raw"
    by (auto simp: string_ok_def split: option.splits)
  have le: "n \<le> length s"
  proof (rule ccontr)
    assume "\<not> n \<le> length s"
    then have "drop n (s @ [CHR 0x22]) = []" by simp
    with l show False by simp
  qed
  then have "escape_len s = Some n"
    using n by (auto simp: escape_len_def split: list.splits if_splits)
  moreover have "string_ok (drop n s)"
    using l le s by (simp add: string_ok_def) (metis append_eq_conv_conj append_take_drop_id)
  ultimately show ?thesis by (rule that)
qed

lemma escape_len_cases:
  assumes "escape_len s = Some n"
  obtains e s' where "s = e # s'" "e \<noteq> CHR ''u''" "n = 1" "simple_escape e \<noteq> None"
  | s' where "s = CHR ''u'' # s'" "n = 5" "hex4 s' \<noteq> None"
proof -
  obtain e s' where s: "s = e # s'" using assms by (cases s) (auto simp: escape_len_def)
  show ?thesis
  proof (cases "e = CHR ''u''")
    case True
    with assms s have n: "n = 5" and h: "4 \<le> length s'" "list_all (\<lambda>h. hex_digit h \<noteq> None) (take 4 s')"
      by (auto simp: escape_len_def split: if_splits)
    then obtain a b c d t where "s' = a # b # c # d # t"
      by (auto simp: Suc_le_length_iff numeral_eq_Suc)
    with h have "hex4 s' \<noteq> None" by (auto simp: hex4_def)
    with True s n show ?thesis by (intro that(2)) auto
  next
    case False
    with assms s have "n = 1" "simple_escape e \<noteq> None"
      by (auto simp: escape_len_def simple_escape_def split: if_splits)
    with False s show ?thesis by (intro that(1)) auto
  qed
qed

lemma getu4_escape:
  assumes "string_ok s" "getu4 s = Some r"
  shows "string_ok (drop 6 s)"
proof -
  from assms(2) obtain s' where s: "s = CHR 0x5C # CHR ''u'' # s'"
    by (auto simp: getu4_def split: list.splits if_splits)
  with assms(1) obtain n where n: "escape_len (CHR ''u'' # s') = Some n" "string_ok (drop n (CHR ''u'' # s'))"
    by (metis string_ok_escape)
  have "n = 5" using n(1) by (cases rule: escape_len_cases) auto
  with n(2) s show ?thesis by (simp add: numeral_eq_Suc)
qed

abbreviation high :: "char \<Rightarrow> bool" where
  "high x \<equiv> 0x80 \<le> byte x"

lemma decode_rune_2_high: "list_all high (take (snd (decode_rune_2 b s) - 1) s)"
  by (cases "(b, s)" rule: decode_rune_2.cases) (auto simp: utf8_cont_def)

lemma decode_rune_3_high: "list_all high (take (snd (decode_rune_3 b s) - 1) s)"
  by (cases "(b, s)" rule: decode_rune_3.cases) (auto simp: utf8_cont_def split: if_splits)

lemma decode_rune_4_high: "list_all high (take (snd (decode_rune_4 b s) - 1) s)"
  by (cases "(b, s)" rule: decode_rune_4.cases) (auto simp: utf8_cont_def split: if_splits)

lemma decode_rune_high: "high c \<Longrightarrow> list_all high (take (snd (decode_rune (c # s))) (c # s))"
  using decode_rune_2_high [of "byte c" s] decode_rune_3_high [of "byte c" s]
    decode_rune_4_high [of "byte c" s]
  by (simp add: decode_rune.simps take_Cons')

lemma high_not_special: "high c \<Longrightarrow> c \<noteq> CHR 0x5C \<and> c \<noteq> CHR 0x22 \<and> \<not> byte c < 0x20"
  by auto

lemma string_ok_drop_high: "list_all high t \<Longrightarrow> string_ok (t @ s) \<Longrightarrow> string_ok s"
proof (induction t)
  case (Cons a t)
  then show ?case using high_not_special [of a] by (simp add: string_ok_plain)
qed simp

lemma unquote_u_ok:
  assumes "hex4 s \<noteq> None" "string_ok (drop 4 s)"
  obtains r n where "unquote_u s = Some (r, n)" "string_ok (drop n s)"
proof -
  obtain x where x: "hex4 s = Some x" using assms(1) by blast
  show ?thesis
  proof (cases "unquote_u s = Some (RuneError, 4) \<or> unquote_u s = Some (x, 4)")
    case True
    with assms(2) show ?thesis using that by blast
  next
    case False
    with x obtain r2 d where "getu4 (drop 4 s) = Some r2" "unquote_u s = Some (d, 10)"
      by (auto simp: unquote_u_def split: option.splits if_splits)
    moreover from this(1) have "string_ok (drop 6 (drop 4 s))" by (rule getu4_escape [OF assms(2)])
    ultimately show ?thesis using that by simp
  qed
qed

lemma unquote_string_ok: "string_ok s \<Longrightarrow> unquote s \<noteq> None"
proof (induction "length s" arbitrary: s rule: less_induct)
  case less
  show ?case
  proof (cases s)
    case (Cons c t)
    consider (esc) "c = CHR 0x5C" | (plain) "c \<noteq> CHR 0x5C" "byte c < 0x80" | (high) "high c"
      by fastforce
    then show ?thesis
    proof cases
      case esc
      with less.prems Cons obtain n where n: "escape_len t = Some n" "string_ok (drop n t)"
        by (metis string_ok_escape)
      from n(1) show ?thesis
      proof (cases rule: escape_len_cases)
        case (1 e t')
        then have "unquote t' \<noteq> None" using less.hyps [of t'] n(2) Cons by simp
        with 1 esc Cons show ?thesis by (auto simp: unquote.simps(2))
      next
        case (2 t')
        with n(2) have "string_ok (drop 4 t')" by (simp add: numeral_eq_Suc)
        then obtain r m where u: "unquote_u t' = Some (r, m)" "string_ok (drop m t')"
          using unquote_u_ok [OF 2(3)] by blast
        then have "unquote (drop m t') \<noteq> None" using less.hyps [of "drop m t'"] 2 Cons by simp
        with 2 esc Cons u show ?thesis by (auto simp: unquote.simps(2))
      qed
    next
      case plain
      with less.prems Cons have "c \<noteq> CHR 0x22" "\<not> byte c < 0x20" "string_ok t"
        by (simp_all add: string_ok_plain)
      moreover from this(3) have "unquote t \<noteq> None" using less.hyps [of t] Cons by simp
      ultimately show ?thesis using plain Cons by (auto simp: unquote_plain)
    next
      case high
      let ?n = "snd (decode_rune (c # t))"
      have "string_ok (drop ?n (c # t))"
        using string_ok_drop_high [OF decode_rune_high [OF high], of t "drop ?n (c # t)"] less.prems Cons
        by simp
      moreover have "length (drop ?n (c # t)) < length s"
        using Cons decode_rune_size_pos [of "c # t"] by simp
      ultimately have "unquote (drop ?n (c # t)) \<noteq> None" by (intro less.hyps)
      with high Cons show ?thesis by (simp add: unquote_multibyte)
    qed
  qed simp
qed

section \<open>Decoding into Go types\<close>

definition unquoted :: "bytes \<Rightarrow> bytes" where
  "unquoted raw = (case unquote raw of Some s \<Rightarrow> s | None \<Rightarrow> [])"

text \<open>The members of an object, keys decoded and values raw; the items of an array.\<close>

fun members_list :: "members \<Rightarrow> (bytes \<times> jval) list" where
  "members_list MNil = []"
| "members_list (MCons a k b c v d ms) = (unquoted k, v) # members_list ms"

fun items_list :: "items \<Rightarrow> jval list" where
  "items_list INil = []"
| "items_list (ICons a v b is) = v # items_list is"

datatype unmarshal_error = SyntaxError | UnmarshalTypeError

definition json_null :: jval where
  "json_null = JScalar ''null''"

text \<open>
  \<open>json.Unmarshal(raw, &s)\<close> for a zero \<open>s\<close> of type \<open>string\<close>, of type \<open>map[string]RawMessage\<close>
  (\<open>None\<close> is the nil map a \<open>null\<close> leaves) and of type \<open>[]RawMessage\<close>.  A map keeps the last value
  of a key; as the order of a Go map is arbitrary, the model lists it in the order of the text.
\<close>

definition unmarshal_string :: "bytes \<Rightarrow> unmarshal_error + bytes" where
  "unmarshal_string raw =
     (case json_parse raw of
        None \<Rightarrow> Inl SyntaxError
      | Some v \<Rightarrow>
          if v = json_null then Inr []
          else (case v of JString r \<Rightarrow> Inr (unquoted r) | _ \<Rightarrow> Inl UnmarshalTypeError))"

type_synonym raw_map = "(bytes \<times> bytes) list"

definition object_map :: "members \<Rightarrow> raw_map" where
  "object_map ms = foldl (\<lambda>m (k, v). AList.update k (render v) m) [] (members_list ms)"

definition unmarshal_map :: "bytes \<Rightarrow> unmarshal_error + raw_map option" where
  "unmarshal_map raw =
     (case json_parse raw of
        None \<Rightarrow> Inl SyntaxError
      | Some v \<Rightarrow>
          if v = json_null then Inr None
          else (case v of JObject w ms \<Rightarrow> Inr (Some (object_map ms)) | _ \<Rightarrow> Inl UnmarshalTypeError))"

definition unmarshal_list :: "bytes \<Rightarrow> unmarshal_error + bytes list option" where
  "unmarshal_list raw =
     (case json_parse raw of
        None \<Rightarrow> Inl SyntaxError
      | Some v \<Rightarrow>
          if v = json_null then Inr None
          else (case v of JArray w is \<Rightarrow> Inr (Some (map render (items_list is)))
                | _ \<Rightarrow> Inl UnmarshalTypeError))"

lemma wf_members_list: "wf_members ms \<Longrightarrow> (k, v) \<in> set (members_list ms) \<Longrightarrow> wf_json v"
  by (induction ms rule: members_list.induct) auto

lemma jdepth_members_list: "(k, v) \<in> set (members_list ms) \<Longrightarrow> jdepth v \<le> jdepth_members ms"
  by (induction ms rule: members_list.induct) auto

lemma foldl_update_distinct:
  "distinct (map fst m) \<Longrightarrow> distinct (map fst (foldl (\<lambda>m (k, v). AList.update k (f v) m) m kvs))"
  by (induction kvs arbitrary: m) (auto simp: distinct_update)

lemma object_map_distinct: "distinct (map fst (object_map ms))"
  by (simp add: object_map_def foldl_update_distinct)

lemma foldl_update_map_of:
  "map_of (foldl (\<lambda>m (k, v). AList.update k (f v) m) m kvs) =
     map_of m ++ map_of (rev (map (\<lambda>(k, v). (k, f v)) kvs))"
  by (induction kvs arbitrary: m) (auto simp: update_conv' map_add_assoc)

lemma map_of_object_map:
  "map_of (object_map ms) = map_of (rev (map (\<lambda>(k, v). (k, render v)) (members_list ms)))"
  by (simp add: object_map_def foldl_update_map_of)

text \<open>A subtree read on its own parses to itself.\<close>

lemma json_parse_member:
  assumes "json_parse raw = Some (JObject w ms)" "(k, v) \<in> set (members_list ms)"
  shows "json_parse (render v) = Some v"
proof (rule json_parse_render)
  from assms(1) have "wf_members ms" "Suc (jdepth_members ms) \<le> maxNestingDepth"
    by (auto simp: json_parse_iff)
  then show "wf_json v" "jdepth v \<le> maxNestingDepth"
    using wf_members_list [OF _ assms(2)] jdepth_members_list [OF assms(2)] by auto
qed

text \<open>An integer literal into a Go \<open>int\<close>.\<close>

definition digits_value :: "bytes \<Rightarrow> int" where
  "digits_value ds = foldl (\<lambda>n d. n * 10 + (int (byte d) - 48)) 0 ds"

definition int_of_token :: "bytes \<Rightarrow> int option" where
  "int_of_token t =
     (let (neg, ds) = (case strings_CutPrefix t ''-'' of Some r \<Rightarrow> (True, r) | None \<Rightarrow> (False, t)) in
      if ds \<noteq> [] \<and> list_all json_digit ds then
        (let n = (if neg then - digits_value ds else digits_value ds) in
         if - (2 ^ 63) \<le> n \<and> n < 2 ^ 63 then Some n else None)
      else None)"

section \<open>Texts for examples\<close>

text \<open>A JSON text written with a tilde for every double quote.\<close>

definition json_text :: "bytes \<Rightarrow> bytes" where
  "json_text s = map (\<lambda>c. if c = CHR ''~'' then CHR 0x22 else c) s"

section \<open>Decoded strings are valid UTF-8\<close>

lemma RuneError_bytes:
  "char_of (239 :: nat) = CHR 0xEF" "char_of (191 :: nat) = CHR 0xBF" "char_of (189 :: nat) = CHR 0xBD"
  using char_of_byte [of "CHR 0xEF"] char_of_byte [of "CHR 0xBF"] char_of_byte [of "CHR 0xBD"]
  by (simp_all del: char_of_byte char_of_char)

lemma encode_RuneError: "encode_rune RuneError = [CHR 0xEF, CHR 0xBF, CHR 0xBD]"
  by (simp add: encode_rune_def RuneError_def valid_rune_def RuneError_bytes)

lemma encode_invalid: "\<not> valid_rune r \<Longrightarrow> encode_rune r = encode_rune RuneError"
  unfolding encode_RuneError by (auto simp: encode_rune_def valid_rune_def)

lemma unquote_Some_cases:
  assumes "unquote (c # s) = Some u"
  obtains (rune) r s' u' where "length s' \<le> length s" "unquote s' = Some u'" "u = encode_rune r @ u'"
    "valid_rune r"
proof (cases "high c")
  case True
  let ?n = "snd (decode_rune (c # s))"
  have "0 < ?n" using decode_rune_size_pos [of "c # s"] by simp
  then have "length (drop ?n (c # s)) \<le> length s" by simp
  with True assms that [of "drop ?n (c # s)"] show ?thesis by (auto simp: unquote_multibyte)
next
  case low: False
  have ascii: "encode_rune (byte x) = [x] \<and> valid_rune (byte x)" if "byte x < 0x80" for x
    using that by (simp add: encode_rune_def valid_rune_def)
  show ?thesis
  proof (cases "c = CHR 0x5C")
    case True
    then obtain e t where s: "s = e # t" using assms by (cases s) (auto simp: unquote.simps(2))
    show ?thesis
    proof (cases "e = CHR ''u''")
      case u: True
      then obtain r n u' where "unquote_u t = Some (r, n)" "unquote (drop n t) = Some u'" "u = encode_rune r @ u'"
        using assms True s by (auto simp: unquote.simps(2) split: option.splits)
      moreover have "\<exists>r'. encode_rune r = encode_rune r' \<and> valid_rune r'"
      proof (cases "valid_rune r")
        case False
        then have "encode_rune r = encode_rune RuneError" by (rule encode_invalid)
        then show ?thesis using valid_RuneError by blast
      qed blast
      ultimately show ?thesis using s that [of "drop n t"] by fastforce
    next
      case False
      then obtain x u' where x: "simple_escape e = Some x" "unquote t = Some u'" "u = x # u'"
        using assms True s by (auto simp: unquote.simps(2) split: option.splits)
      then have "byte x < 0x80" by (auto simp: simple_escape_def split: if_splits)
      with x s that [of t u' "byte x"] ascii show ?thesis by simp
    qed
  next
    case False
    with low assms obtain u' where "unquote s = Some u'" "u = c # u'"
      by (auto simp: unquote.simps(2) split: if_splits)
    with low that [of s u' "byte c"] ascii [of c] show ?thesis by simp
  qed
qed

lemma unquote_valid: "unquote s = Some u \<Longrightarrow> utf8_Valid u"
proof (induction "length s" arbitrary: s u rule: less_induct)
  case less
  show ?case
  proof (cases s)
    case Nil
    with less.prems show ?thesis by simp
  next
    case (Cons c t)
    from less.prems obtain r s' u' where p: "length s' \<le> length t" "unquote s' = Some u'"
      "u = encode_rune r @ u'" "valid_rune r"
      unfolding Cons by (rule unquote_Some_cases)
    then have "utf8_Valid u'" using less.hyps [of s' u'] Cons by simp
    with p show ?thesis by (simp add: utf8_Valid_encode_rune)
  qed
qed

lemma unquoted_valid: "utf8_Valid (unquoted r)"
  by (auto simp: unquoted_def unquote_valid split: option.splits)

lemma unmarshal_string_valid: "unmarshal_string raw = Inr s \<Longrightarrow> utf8_Valid s"
  by (auto simp: unmarshal_string_def unquoted_valid split: option.splits jval.splits if_splits)

end
