(* ===== verification/CaseFold.thy ===== *)
theory CaseFold
  imports Utf8
begin

text \<open>
  The key comparison of \<open>pkg/mcpspec/params.go\<close>: \<open>foldRune\<close>, \<open>foldKey\<close> and \<open>EqualFoldKey\<close>,
  over the simple case-folding orbits of Go's \<open>unicode.SimpleFold\<close>.
\<close>

section \<open>The orbits of unicode.SimpleFold\<close>

text \<open>
  \<open>fold_specials\<close> lists the orbits of three and four runes, \<open>fold_pairs\<close> the two-rune orbits as
  ranges \<open>(lo, hi, stride, delta)\<close>: each of \<open>lo, lo + stride, .., hi\<close> is paired with the rune
  \<open>delta\<close> above it.  ASCII has its own rule, as it has its own table in the Go package.
\<close>

definition fold_specials :: "rune list list" where
  "fold_specials =
     [
      [75, 107, 8490], [83, 115, 383],
      [181, 924, 956], [197, 229, 8491], [452, 453, 454], [455, 456, 457], [458, 459, 460],
      [497, 498, 499], [837, 921, 953, 8126], [914, 946, 976], [917, 949, 1013],
      [920, 952, 977, 1012], [922, 954, 1008], [928, 960, 982], [929, 961, 1009],
      [931, 962, 963], [934, 966, 981], [937, 969, 8486], [1042, 1074, 7296],
      [1044, 1076, 7297], [1054, 1086, 7298], [1057, 1089, 7299], [1058, 1090, 7300, 7301],
      [1066, 1098, 7302], [1122, 1123, 7303], [7304, 42570, 42571], [7776, 7777, 7835]]"

definition fold_pairs :: "(nat \<times> nat \<times> nat \<times> nat) list" where
  "fold_pairs =
     [
      (192, 196, 1, 32), (198, 214, 1, 32), (216, 222, 1, 32), (223, 223, 1, 7615),
      (255, 255, 1, 121), (256, 302, 2, 1), (306, 310, 2, 1), (313, 327, 2, 1),
      (330, 374, 2, 1), (377, 381, 2, 1), (384, 384, 1, 195), (385, 385, 1, 210),
      (386, 388, 2, 1), (390, 390, 1, 206), (391, 391, 1, 1), (393, 394, 1, 205),
      (395, 395, 1, 1), (398, 398, 1, 79), (399, 399, 1, 202), (400, 400, 1, 203),
      (401, 401, 1, 1), (403, 403, 1, 205), (404, 404, 1, 207), (405, 405, 1, 97),
      (406, 406, 1, 211), (407, 407, 1, 209), (408, 408, 1, 1), (410, 410, 1, 163),
      (412, 412, 1, 211), (413, 413, 1, 213), (414, 414, 1, 130), (415, 415, 1, 214),
      (416, 420, 2, 1), (422, 422, 1, 218), (423, 423, 1, 1), (425, 425, 1, 218),
      (428, 428, 1, 1), (430, 430, 1, 218), (431, 431, 1, 1), (433, 434, 1, 217),
      (435, 437, 2, 1), (439, 439, 1, 219), (440, 440, 1, 1), (444, 444, 1, 1),
      (447, 447, 1, 56), (461, 475, 2, 1), (478, 494, 2, 1), (500, 500, 1, 1), (504, 542, 2, 1),
      (546, 562, 2, 1), (570, 570, 1, 10795), (571, 571, 1, 1), (574, 574, 1, 10792),
      (575, 576, 1, 10815), (577, 577, 1, 1), (580, 580, 1, 69), (581, 581, 1, 71),
      (582, 590, 2, 1), (592, 592, 1, 10783), (593, 593, 1, 10780), (594, 594, 1, 10782),
      (604, 604, 1, 42319), (609, 609, 1, 42315), (613, 613, 1, 42280), (614, 614, 1, 42308),
      (618, 618, 1, 42308), (619, 619, 1, 10743), (620, 620, 1, 42305), (625, 625, 1, 10749),
      (637, 637, 1, 10727), (642, 642, 1, 42307), (647, 647, 1, 42282), (669, 669, 1, 42261),
      (670, 670, 1, 42258), (880, 882, 2, 1), (886, 886, 1, 1), (891, 893, 1, 130),
      (895, 895, 1, 116), (902, 902, 1, 38), (904, 906, 1, 37), (908, 908, 1, 64),
      (910, 911, 1, 63), (913, 915, 2, 32), (916, 918, 2, 32), (919, 919, 1, 32),
      (923, 925, 2, 32), (926, 927, 1, 32), (932, 933, 1, 32), (935, 936, 1, 32),
      (938, 939, 1, 32), (975, 975, 1, 8), (984, 1006, 2, 1), (1010, 1010, 1, 7),
      (1015, 1015, 1, 1), (1018, 1018, 1, 1), (1024, 1039, 1, 80), (1040, 1041, 1, 32),
      (1043, 1045, 2, 32), (1046, 1053, 1, 32), (1055, 1056, 1, 32), (1059, 1065, 1, 32),
      (1067, 1071, 1, 32), (1120, 1120, 1, 1), (1124, 1152, 2, 1), (1162, 1214, 2, 1),
      (1216, 1216, 1, 15), (1217, 1229, 2, 1), (1232, 1326, 2, 1), (1329, 1366, 1, 48),
      (4256, 4293, 1, 7264), (4295, 4295, 1, 7264), (4301, 4301, 1, 7264),
      (4304, 4346, 1, 3008), (4349, 4351, 1, 3008), (5024, 5103, 1, 38864), (5104, 5109, 1, 8),
      (7545, 7545, 1, 35332), (7549, 7549, 1, 3814), (7566, 7566, 1, 35384), (7680, 7774, 2, 1),
      (7778, 7828, 2, 1), (7840, 7934, 2, 1), (7936, 7943, 1, 8), (7952, 7957, 1, 8),
      (7968, 7975, 1, 8), (7984, 7991, 1, 8), (8000, 8005, 1, 8), (8017, 8023, 2, 8),
      (8032, 8039, 1, 8), (8048, 8049, 1, 74), (8050, 8053, 1, 86), (8054, 8055, 1, 100),
      (8056, 8057, 1, 128), (8058, 8059, 1, 112), (8060, 8061, 1, 126), (8064, 8071, 1, 8),
      (8080, 8087, 1, 8), (8096, 8103, 1, 8), (8112, 8113, 1, 8), (8115, 8115, 1, 9),
      (8131, 8131, 1, 9), (8144, 8145, 1, 8), (8160, 8161, 1, 8), (8165, 8165, 1, 7),
      (8179, 8179, 1, 9), (8498, 8498, 1, 28), (8544, 8559, 1, 16), (8579, 8579, 1, 1),
      (9398, 9423, 1, 26), (11264, 11311, 1, 48), (11360, 11360, 1, 1), (11367, 11371, 2, 1),
      (11378, 11378, 1, 1), (11381, 11381, 1, 1), (11392, 11490, 2, 1), (11499, 11501, 2, 1),
      (11506, 11506, 1, 1), (42560, 42568, 2, 1), (42572, 42604, 2, 1), (42624, 42650, 2, 1),
      (42786, 42798, 2, 1), (42802, 42862, 2, 1), (42873, 42875, 2, 1), (42878, 42886, 2, 1),
      (42891, 42891, 1, 1), (42896, 42898, 2, 1), (42900, 42900, 1, 48), (42902, 42920, 2, 1),
      (42931, 42931, 1, 928), (42932, 42946, 2, 1), (42951, 42953, 2, 1), (42960, 42960, 1, 1),
      (42966, 42968, 2, 1), (42997, 42997, 1, 1), (65313, 65338, 1, 32), (66560, 66599, 1, 40),
      (66736, 66771, 1, 40), (66928, 66938, 1, 39), (66940, 66954, 1, 39),
      (66956, 66962, 1, 39), (66964, 66965, 1, 39), (68736, 68786, 1, 64),
      (71840, 71871, 1, 32), (93760, 93791, 1, 32), (125184, 125217, 1, 34)]"

definition ascii_fold_orbit :: "rune \<Rightarrow> rune list" where
  "ascii_fold_orbit r =
     (if r = 75 then [107, 8490] else if r = 107 then [8490, 75]
      else if r = 83 then [115, 383] else if r = 115 then [383, 83]
      else if 65 \<le> r \<and> r \<le> 90 then [r + 32]
      else if 97 \<le> r \<and> r \<le> 122 then [r - 32]
      else [])"

definition in_fold_range :: "rune \<Rightarrow> nat \<Rightarrow> nat \<Rightarrow> nat \<Rightarrow> bool" where
  "in_fold_range r lo hi stride = (lo \<le> r \<and> r \<le> hi \<and> (r - lo) mod stride = 0)"

text \<open>
  The runes the loop \<open>for f := SimpleFold(r); f != r; f = SimpleFold(f)\<close> visits: the other members
  of the rune's orbit.
\<close>

definition simple_fold_orbit :: "rune \<Rightarrow> rune list" where
  "simple_fold_orbit r =
     (if r < 128 then ascii_fold_orbit r
      else
        (case find (\<lambda>orb. r \<in> set orb) fold_specials of
           Some orb \<Rightarrow> removeAll r orb
         | None \<Rightarrow>
             (case find (\<lambda>(lo, hi, stride, delta). in_fold_range r lo hi stride) fold_pairs of
                Some (lo, hi, stride, delta) \<Rightarrow> [r + delta]
              | None \<Rightarrow>
                  (case find (\<lambda>(lo, hi, stride, delta).
                           in_fold_range r (lo + delta) (hi + delta) stride) fold_pairs of
                     Some (lo, hi, stride, delta) \<Rightarrow> [r - delta]
                   | None \<Rightarrow> []))))"

section \<open>The code\<close>

definition caseMapExceptions :: "rune \<Rightarrow> rune option" where
  "caseMapExceptions r =
     (if r = 0x130 then Some 73 else if r = 0x131 then Some 73 else None)"

definition foldRune :: "rune \<Rightarrow> rune" where
  "foldRune r =
     (case caseMapExceptions r of
        Some c \<Rightarrow> c
      | None \<Rightarrow> foldl (\<lambda>lowest f. if f < lowest then f else lowest) r (simple_fold_orbit r))"

definition foldKey :: "bytes \<Rightarrow> bytes" where
  "foldKey s = concat (map (\<lambda>r. encode_rune (foldRune r)) (runes s))"

function EqualFoldKey :: "bytes \<Rightarrow> bytes \<Rightarrow> bool" where
  "EqualFoldKey [] b = (b = [])"
| "EqualFoldKey (c # a) b =
     (let (ra, na) = decode_rune (c # a); (rb, size) = decode_rune b in
      if size = 0 then False
      else if foldRune ra \<noteq> foldRune rb then False
      else EqualFoldKey (drop na (c # a)) (drop size b))"
  by pat_completeness auto
termination
proof (relation "measure (\<lambda>(a, b). length a)")
  fix c a b x ra na y rb size
  assume "x = decode_rune (c # a)" "(ra, na) = x"
  then have "0 < na" using decode_rune_size_pos [of "c # a"] by (metis list.distinct(1) snd_conv)
  then show "((drop na (c # a), drop size b), (c # a, b)) \<in> measure (\<lambda>(a, b). length a)" by simp
qed simp

declare EqualFoldKey.simps(2) [simp del]

section \<open>The two formulations agree\<close>

lemma foldl_min_le: "foldl (\<lambda>lowest f. if f < lowest then f else lowest) r xs \<le> (r :: nat)"
  by (induction xs arbitrary: r) (auto intro: order_trans less_imp_le)

lemma foldl_min_in:
  "foldl (\<lambda>lowest f. if f < lowest then f else lowest) r xs \<in> insert (r :: nat) (set xs)"
  by (induction xs arbitrary: r) auto

lemma fold_tables_valid:
  "list_all (list_all (\<lambda>r. r < 0xD800)) fold_specials"
  "list_all (\<lambda>(lo, hi, stride, delta). hi + delta < 0xD800 \<or> 0xDFFF < lo) fold_pairs"
  by (simp_all add: fold_specials_def fold_pairs_def)

lemma ascii_fold_orbit_valid: "f \<in> set (ascii_fold_orbit r) \<Longrightarrow> f < 0xD800"
  by (auto simp: ascii_fold_orbit_def split: if_splits)

lemma simple_fold_orbit_cases:
  assumes "f \<in> set (simple_fold_orbit r)" "f < r" "128 \<le> r"
  shows "(\<exists>orb \<in> set fold_specials. f \<in> set orb) \<or>
    (\<exists>(lo, hi, stride, delta) \<in> set fold_pairs. f = r - delta \<and> lo + delta \<le> r \<and> r \<le> hi + delta)"
proof (cases "find (\<lambda>orb. r \<in> set orb) fold_specials")
  case (Some orb)
  with assms show ?thesis by (auto simp: simple_fold_orbit_def dest: find_SomeD)
next
  case None
  note specials = None
  show ?thesis
  proof (cases "find (\<lambda>(lo, hi, stride, delta). in_fold_range r lo hi stride) fold_pairs")
    case (Some x)
    with assms specials show ?thesis by (cases x) (auto simp: simple_fold_orbit_def)
  next
    case None
    show ?thesis
    proof (cases "find (\<lambda>(lo, hi, stride, delta).
        in_fold_range r (lo + delta) (hi + delta) stride) fold_pairs")
      case (Some x)
      obtain lo hi stride delta where x: "x = (lo, hi, stride, delta)" by (cases x)
      from find_SomeD [OF Some] have "x \<in> set fold_pairs" "lo + delta \<le> r" "r \<le> hi + delta"
        by (auto simp: x in_fold_range_def)
      moreover have "f = r - delta" using assms specials None Some by (simp add: simple_fold_orbit_def x)
      ultimately show ?thesis unfolding x by blast
    next
      case n3: None
      with assms specials None show ?thesis by (simp add: simple_fold_orbit_def)
    qed
  qed
qed

lemma simple_fold_orbit_valid:
  assumes "valid_rune r" "f \<in> set (simple_fold_orbit r)" "f < r"
  shows "valid_rune f"
proof -
  have "f < 0xD800 \<or> 0xDFFF < f"
  proof (cases "r < 128")
    case True
    with assms show ?thesis by simp
  next
    case False
    then have "128 \<le> r" by simp
    from simple_fold_orbit_cases [OF assms(2,3) this] show ?thesis
    proof
      assume "\<exists>orb \<in> set fold_specials. f \<in> set orb"
      with fold_tables_valid(1) show ?thesis by (auto simp: list_all_iff)
    next
      assume "\<exists>(lo, hi, stride, delta) \<in> set fold_pairs.
        f = r - delta \<and> lo + delta \<le> r \<and> r \<le> hi + delta"
      then obtain lo hi stride delta where e: "(lo, hi, stride, delta) \<in> set fold_pairs"
        and d: "f = r - delta" "lo + delta \<le> r" "r \<le> hi + delta" by blast
      from e fold_tables_valid(2) have "hi + delta < 0xD800 \<or> 0xDFFF < lo"
        by (auto simp: list_all_iff)
      with d show ?thesis by linarith
    qed
  qed
  with assms show ?thesis by (auto simp: valid_rune_def)
qed

lemma foldRune_valid: "valid_rune r \<Longrightarrow> valid_rune (foldRune r)"
proof -
  assume v: "valid_rune r"
  let ?m = "foldl (\<lambda>lowest f. if f < lowest then f else lowest) r (simple_fold_orbit r)"
  have "?m = r \<or> ?m \<in> set (simple_fold_orbit r) \<and> ?m < r"
    using foldl_min_in [of r "simple_fold_orbit r"] foldl_min_le [of r "simple_fold_orbit r"] by auto
  with v simple_fold_orbit_valid [OF v] have "valid_rune ?m" by auto
  then show ?thesis
    by (auto simp: foldRune_def caseMapExceptions_def split: option.splits)
      (simp_all add: valid_rune_def)
qed

lemma foldKey_encode: "foldKey s = encode_runes (map foldRune (runes s))"
  by (simp add: foldKey_def encode_runes_def comp_def)

lemma foldKey_eq: "foldKey a = foldKey b \<longleftrightarrow> map foldRune (runes a) = map foldRune (runes b)"
  using runes_valid [of a] runes_valid [of b]
  by (auto simp: foldKey_encode foldRune_valid list_all_iff intro!: encode_runes_inject [THEN iffD1])

lemma EqualFoldKey_runes:
  "EqualFoldKey a b \<longleftrightarrow> map foldRune (runes a) = map foldRune (runes b)"
proof (induction a b rule: EqualFoldKey.induct)
  case (1 b)
  show ?case by (cases b) (auto simp: runes_Cons)
next
  case (2 c a b)
  show ?case
  proof (cases "b = []")
    case True
    then show ?thesis by (simp add: EqualFoldKey.simps(2) runes_Cons)
  next
    case False
    have "0 < snd (decode_rune b)" using decode_rune_size_pos [OF False] .
    with 2 False show ?thesis
      by (cases "decode_rune (c # a)"; cases "decode_rune b")
        (auto simp: EqualFoldKey.simps(2) runes_Cons Let_def)
  qed
qed

text \<open>
  The pairwise comparison the gateway uses when it reads one key and the one-pass canonical
  form it uses when it checks a whole object are the same relation, on all byte strings.
\<close>

theorem EqualFoldKey_foldKey: "EqualFoldKey a b \<longleftrightarrow> foldKey a = foldKey b"
  by (simp add: EqualFoldKey_runes foldKey_eq)

lemma EqualFoldKey_refl [simp]: "EqualFoldKey a a"
  by (simp add: EqualFoldKey_runes)

lemma EqualFoldKey_sym: "EqualFoldKey a b \<longleftrightarrow> EqualFoldKey b a"
  by (auto simp: EqualFoldKey_runes)

lemma EqualFoldKey_trans: "EqualFoldKey a b \<Longrightarrow> EqualFoldKey b c \<Longrightarrow> EqualFoldKey a c"
  by (simp add: EqualFoldKey_runes)

section \<open>On ASCII keys it is case-insensitive equality\<close>

definition ascii_upper :: "nat \<Rightarrow> nat" where
  "ascii_upper b = (if 97 \<le> b \<and> b \<le> 122 then b - 32 else b)"

lemma foldRune_ascii: "r < 128 \<Longrightarrow> foldRune r = ascii_upper r"
  by (auto simp: foldRune_def caseMapExceptions_def simple_fold_orbit_def ascii_fold_orbit_def
      ascii_upper_def)

lemma EqualFoldKey_ascii:
  assumes "ascii a" "ascii b"
  shows "EqualFoldKey a b \<longleftrightarrow> map (ascii_upper \<circ> byte) a = map (ascii_upper \<circ> byte) b"
proof -
  have m: "map (foldRune \<circ> byte) s = map (ascii_upper \<circ> byte) s" if "ascii s" for s
    using that by (induction s) (auto simp: foldRune_ascii)
  show ?thesis
    using assms by (simp only: EqualFoldKey_runes runes_ascii map_map m)
qed

lemma distinct_foldKey_ascii:
  "list_all ascii ks \<Longrightarrow> distinct (map foldKey ks) \<longleftrightarrow> distinct (map (map (ascii_upper \<circ> byte)) ks)"
proof (induction ks)
  case (Cons k ks)
  have "foldKey k = foldKey j \<longleftrightarrow> map (ascii_upper \<circ> byte) k = map (ascii_upper \<circ> byte) j"
    if "j \<in> set ks" for j
    using Cons.prems that EqualFoldKey_ascii [of k j]
    by (simp add: foldKey_eq EqualFoldKey_runes list_all_iff)
  then have "foldKey k \<in> foldKey ` set ks \<longleftrightarrow>
      map (ascii_upper \<circ> byte) k \<in> map (ascii_upper \<circ> byte) ` set ks"
    by blast
  with Cons show ?case by (simp add: comp_def)
qed simp

end
