(* ===== verification/Mcpspec.thy ===== *)
theory Mcpspec
  imports GoPrelude
begin

text \<open>
  The constants of the MCP revision the gateway speaks (\<open>pkg/mcpspec/mcpspec.go\<close>) and the two
  functions over them.  \<open>mcp_defs\<close> unfolds the names.
\<close>

named_theorems mcp_defs "the constants of the MCP specification"

definition ProtocolVersion :: bytes where [mcp_defs]:
  "ProtocolVersion = ''2026-07-28''"

definition LegacyProtocolVersion :: bytes where [mcp_defs]:
  "LegacyProtocolVersion = ''2025-11-25''"

definition SupportedProtocolVersions :: "bytes list" where [mcp_defs]:
  "SupportedProtocolVersions = [ProtocolVersion]"

fun version_listed :: "bytes \<Rightarrow> bytes list \<Rightarrow> bool" where
  "version_listed v [] = False"
| "version_listed v (s # ss) = (if v = s then True else version_listed v ss)"

definition IsSupportedProtocolVersion :: "bytes \<Rightarrow> bool" where
  "IsSupportedProtocolVersion v = version_listed v SupportedProtocolVersions"

section \<open>Error codes\<close>

definition ErrHeaderMismatch :: int where [mcp_defs]: "ErrHeaderMismatch = -32020"
definition ErrMissingRequiredClientCapability :: int where [mcp_defs]:
  "ErrMissingRequiredClientCapability = -32021"
definition ErrUnsupportedProtocolVersion :: int where [mcp_defs]: "ErrUnsupportedProtocolVersion = -32022"

section \<open>Keys of \<open>_meta\<close>\<close>

definition MetaProtocolVersion :: bytes where [mcp_defs]:
  "MetaProtocolVersion = ''io.modelcontextprotocol/protocolVersion''"
definition MetaClientInfo :: bytes where [mcp_defs]:
  "MetaClientInfo = ''io.modelcontextprotocol/clientInfo''"
definition MetaClientCapabilities :: bytes where [mcp_defs]:
  "MetaClientCapabilities = ''io.modelcontextprotocol/clientCapabilities''"
definition MetaLogLevel :: bytes where [mcp_defs]:
  "MetaLogLevel = ''io.modelcontextprotocol/logLevel''"
definition MetaSubscriptionID :: bytes where [mcp_defs]:
  "MetaSubscriptionID = ''io.modelcontextprotocol/subscriptionId''"
definition MetaProgressToken :: bytes where [mcp_defs]:
  "MetaProgressToken = ''progressToken''"
definition MetaServerInfo :: bytes where [mcp_defs]:
  "MetaServerInfo = ''io.modelcontextprotocol/serverInfo''"

section \<open>Results\<close>

definition ResultTypeComplete :: bytes where [mcp_defs]: "ResultTypeComplete = ''complete''"
definition ResultTypeInputRequired :: bytes where [mcp_defs]: "ResultTypeInputRequired = ''input_required''"
definition CacheScopePrivate :: bytes where [mcp_defs]: "CacheScopePrivate = ''private''"
definition CacheScopePublic :: bytes where [mcp_defs]: "CacheScopePublic = ''public''"

section \<open>Methods\<close>

definition MethodDiscover :: bytes where [mcp_defs]: "MethodDiscover = ''server/discover''"
definition MethodListen :: bytes where [mcp_defs]: "MethodListen = ''subscriptions/listen''"
definition MethodToolsCall :: bytes where [mcp_defs]: "MethodToolsCall = ''tools/call''"
definition MethodPromptsGet :: bytes where [mcp_defs]: "MethodPromptsGet = ''prompts/get''"
definition MethodResourcesRead :: bytes where [mcp_defs]: "MethodResourcesRead = ''resources/read''"
definition MethodToolsList :: bytes where [mcp_defs]: "MethodToolsList = ''tools/list''"
definition MethodPromptsList :: bytes where [mcp_defs]: "MethodPromptsList = ''prompts/list''"
definition MethodResourcesList :: bytes where [mcp_defs]: "MethodResourcesList = ''resources/list''"
definition MethodResourcesTemplatesList :: bytes where [mcp_defs]:
  "MethodResourcesTemplatesList = ''resources/templates/list''"
definition MethodInitialize :: bytes where [mcp_defs]: "MethodInitialize = ''initialize''"
definition MethodPing :: bytes where [mcp_defs]: "MethodPing = ''ping''"
definition MethodLoggingSetLevel :: bytes where [mcp_defs]: "MethodLoggingSetLevel = ''logging/setLevel''"
definition NotifInitialized :: bytes where [mcp_defs]: "NotifInitialized = ''notifications/initialized''"
definition NotifCancelled :: bytes where [mcp_defs]: "NotifCancelled = ''notifications/cancelled''"
definition NotifProgress :: bytes where [mcp_defs]: "NotifProgress = ''notifications/progress''"
definition NotifMessage :: bytes where [mcp_defs]: "NotifMessage = ''notifications/message''"
definition NotifSubscriptionsAcknowledged :: bytes where [mcp_defs]:
  "NotifSubscriptionsAcknowledged = ''notifications/subscriptions/acknowledged''"
definition NotifToolsListChanged :: bytes where [mcp_defs]:
  "NotifToolsListChanged = ''notifications/tools/list_changed''"
definition NotifPromptsListChanged :: bytes where [mcp_defs]:
  "NotifPromptsListChanged = ''notifications/prompts/list_changed''"
definition NotifResourcesListChanged :: bytes where [mcp_defs]:
  "NotifResourcesListChanged = ''notifications/resources/list_changed''"

definition IsCacheableMethod :: "bytes \<Rightarrow> bool" where
  "IsCacheableMethod method =
     (method \<in> set [MethodDiscover, MethodToolsList, MethodPromptsList, MethodResourcesList,
        MethodResourcesTemplatesList, MethodResourcesRead])"

section \<open>Headers\<close>

definition HeaderProtocolVersion :: bytes where [mcp_defs]: "HeaderProtocolVersion = ''MCP-Protocol-Version''"
definition HeaderMethod :: bytes where [mcp_defs]: "HeaderMethod = ''Mcp-Method''"
definition HeaderName :: bytes where [mcp_defs]: "HeaderName = ''Mcp-Name''"
definition HeaderParamPrefix :: bytes where [mcp_defs]: "HeaderParamPrefix = ''Mcp-Param-''"
definition SchemaHeaderAnnotation :: bytes where [mcp_defs]: "SchemaHeaderAnnotation = ''x-mcp-header''"

section \<open>Which params field names a call\<close>

text \<open>These belong to \<open>params.go\<close>; the subject grammar uses them as well.\<close>

definition MetaField :: bytes where [mcp_defs]: "MetaField = ''_meta''"
definition NameParam :: bytes where [mcp_defs]: "NameParam = ''name''"
definition URIParam :: bytes where [mcp_defs]: "URIParam = ''uri''"

definition NameField :: "bytes \<Rightarrow> bytes" where
  "NameField method =
     (if method = MethodToolsCall \<or> method = MethodPromptsGet then NameParam
      else if method = MethodResourcesRead then URIParam
      else [])"

lemma version_listed_iff [simp]: "version_listed v vs \<longleftrightarrow> v \<in> set vs"
  by (induction vs) auto

lemma NameField_cases:
  "NameField method = [] \<or> NameField method = NameParam \<or> NameField method = URIParam"
  by (simp add: NameField_def)

end
