(* ===== verification/Params.thy ===== *)
theory Params
  imports JsonDecode CaseFold Mcpspec
begin

text \<open>
  Reading a request's params (\<open>pkg/mcpspec/params.go\<close>): the byte scan that refuses an object
  naming a key twice, the decoding of params, and the reads that refuse a key with a sibling
  differing only by case.
\<close>

section \<open>Errors and the decoded params\<close>

datatype params_error =
    ErrParamsNotObject
  | ErrParamsTooDeep
  | AmbiguousKeyError (key: bytes) (other: bytes)
  | ParamNotString bytes
  | ParamNotObject bytes
  | MetaNotString bytes

type_synonym params = raw_map

definition MaxParamsDepth :: nat where
  "MaxParamsDepth = 1000"

section \<open>The scan\<close>

definition smallObjectKeys :: nat where
  "smallObjectKeys = 16"

record scanFrame =
  isObject :: bool
  expectKey :: bool
  small :: "bytes list"
  keys :: "bytes set option"

definition addKey :: "scanFrame \<Rightarrow> bytes \<Rightarrow> params_error + scanFrame" where
  "addKey f k =
     (case keys f of
        Some K \<Rightarrow>
          if k \<in> K then Inl (AmbiguousKeyError k k)
          else Inr (f\<lparr>keys := Some (insert k K)\<rparr>)
      | None \<Rightarrow>
          if k \<in> set (small f) then Inl (AmbiguousKeyError k k)
          else if length (small f) < smallObjectKeys then Inr (f\<lparr>small := small f @ [k]\<rparr>)
          else Inr (f\<lparr>keys := Some (insert k (set (small f))), small := []\<rparr>))"

definition isJSONStructural :: "char \<Rightarrow> bool" where
  "isJSONStructural c =
     (c \<in> set [CHR ''{'', CHR ''}'', CHR ''['', CHR '']'', CHR '','', CHR '':'', CHR 0x22,
        CHR '' '', CHR 0x09, CHR 0x0A, CHR 0x0D])"

text \<open>
  The bytes after the opening quote: the span up to the closing one, what follows it, and whether
  a backslash was met.
\<close>

fun scan_span :: "bytes \<Rightarrow> (bytes \<times> bytes \<times> bool) option" where
  "scan_span [] = None"
| "scan_span [c] = (if c = CHR 0x22 then Some ([], [], False) else None)"
| "scan_span (c # e # s) =
     (if c = CHR 0x5C then map_option (\<lambda>(sp, r, esc). (c # e # sp, r, True)) (scan_span s)
      else if c = CHR 0x22 then Some ([], e # s, False)
      else map_option (\<lambda>(sp, r, esc). (c # sp, r, esc)) (scan_span (e # s)))"

definition scanStringEnd :: "bytes \<Rightarrow> params_error + bytes \<times> bytes \<times> bool" where
  "scanStringEnd s =
     (case scan_span s of
        None \<Rightarrow> Inl ErrParamsNotObject
      | Some (sp, r, escaped) \<Rightarrow> Inr (sp, r, \<not> escaped \<and> utf8_Valid sp))"

definition decodeStringSpan :: "bytes \<Rightarrow> bool \<Rightarrow> params_error + bytes" where
  "decodeStringSpan sp exact =
     (if exact then Inr sp
      else (case unmarshal_string (CHR 0x22 # sp @ [CHR 0x22]) of
              Inl _ \<Rightarrow> Inl ErrParamsNotObject
            | Inr k \<Rightarrow> Inr k))"

lemma scan_span_length: "scan_span s = Some (sp, r, b) \<Longrightarrow> length r < length s"
  by (induction s arbitrary: sp r b rule: scan_span.induct) (fastforce split: if_split_asm)+

lemma scanStringEnd_length: "scanStringEnd s = Inr (sp, r, b) \<Longrightarrow> length r < length s"
  by (auto simp: scanStringEnd_def split: option.splits dest: scan_span_length)

text \<open>
  The loop of \<open>scanUnambiguous\<close>: what is left of the text and the stack of open containers,
  innermost first.
\<close>

definition openFrame :: "bool \<Rightarrow> scanFrame" where
  "openFrame obj = \<lparr>isObject = obj, expectKey = obj, small = [], keys = None\<rparr>"

function scan :: "bytes \<Rightarrow> scanFrame list \<Rightarrow> params_error + unit" where
  "scan [] stack = (if stack \<noteq> [] then Inl ErrParamsNotObject else Inr ())"
| "scan (c # s) stack =
     (if json_ws c then scan s stack
      else if c = CHR ''{'' \<or> c = CHR ''['' then
        if MaxParamsDepth \<le> length stack then Inl ErrParamsTooDeep
        else scan s (openFrame (c = CHR ''{'') # stack)
      else if c = CHR ''}'' \<or> c = CHR '']'' then
        (case stack of [] \<Rightarrow> Inl ErrParamsNotObject | fr # st \<Rightarrow> scan s st)
      else if c = CHR '','' then
        (case stack of
           [] \<Rightarrow> scan s stack
         | fr # st \<Rightarrow> if isObject fr then scan s (fr\<lparr>expectKey := True\<rparr> # st) else scan s stack)
      else if c = CHR '':'' then
        (case stack of [] \<Rightarrow> scan s stack | fr # st \<Rightarrow> scan s (fr\<lparr>expectKey := False\<rparr> # st))
      else if c = CHR 0x22 then
        (case scanStringEnd s of
           Inl e \<Rightarrow> Inl e
         | Inr (sp, r, exact) \<Rightarrow>
             (case stack of
                [] \<Rightarrow> scan r stack
              | fr # st \<Rightarrow>
                  if isObject fr \<and> expectKey fr then
                    (case decodeStringSpan sp exact of
                       Inl e \<Rightarrow> Inl e
                     | Inr k \<Rightarrow>
                         (case addKey fr k of Inl e \<Rightarrow> Inl e | Inr fr2 \<Rightarrow> scan r (fr2 # st)))
                  else scan r stack))
      else scan (dropWhile (\<lambda>b. \<not> isJSONStructural b) s) stack)"
  by pat_completeness auto
termination
  by (relation "measure (\<lambda>(s, stack). length s)")
    (auto simp: less_Suc_eq_le length_dropWhile_le dest: scanStringEnd_length)

declare scan.simps(2) [simp del]

definition scanUnambiguous :: "bytes \<Rightarrow> params_error + unit" where
  "scanUnambiguous raw = scan raw []"

section \<open>Decoding and reading\<close>

fun caseUnique_loop :: "(bytes \<times> bytes) list \<Rightarrow> bytes list \<Rightarrow> params_error + unit" where
  "caseUnique_loop folded [] = Inr ()"
| "caseUnique_loop folded (k # ks) =
     (let canonical = foldKey k in
      case map_of folded canonical of
        Some prior \<Rightarrow> Inl (AmbiguousKeyError (max prior k) (min prior k))
      | None \<Rightarrow> caseUnique_loop ((canonical, k) # folded) ks)"

definition checkCaseUnique :: "params \<Rightarrow> params_error + unit" where
  "checkCaseUnique p = caseUnique_loop [] (map fst p)"

definition DecodeParams :: "bytes \<Rightarrow> params_error + params" where
  "DecodeParams raw =
     (if strings_TrimSpace raw = [] then Inr []
      else (case scanUnambiguous raw of
        Inl e \<Rightarrow> Inl e
      | Inr _ \<Rightarrow>
          (case unmarshal_map raw of
             Inl _ \<Rightarrow> Inl ErrParamsNotObject
           | Inr None \<Rightarrow> Inr []
           | Inr (Some p) \<Rightarrow> (case checkCaseUnique p of Inl e \<Rightarrow> Inl e | Inr _ \<Rightarrow> Inr p))))"

fun unambiguous_loop :: "bytes \<Rightarrow> bytes list \<Rightarrow> params_error + unit" where
  "unambiguous_loop k [] = Inr ()"
| "unambiguous_loop k (o1 # os) =
     (if o1 \<noteq> k \<and> EqualFoldKey o1 k then Inl (AmbiguousKeyError (max o1 k) (min o1 k))
      else unambiguous_loop k os)"

definition unambiguous :: "params \<Rightarrow> bytes \<Rightarrow> params_error + unit" where
  "unambiguous p k = unambiguous_loop k (map fst p)"

text \<open>\<open>Params.Raw\<close>; \<open>None\<close> is the false of its presence result.\<close>

definition Raw :: "params \<Rightarrow> bytes \<Rightarrow> params_error + bytes option" where
  "Raw p k = (case unambiguous p k of Inl e \<Rightarrow> Inl e | Inr _ \<Rightarrow> Inr (map_of p k))"

definition params_String :: "params \<Rightarrow> bytes \<Rightarrow> params_error + bytes" where
  "params_String p k =
     (case Raw p k of
        Inl e \<Rightarrow> Inl e
      | Inr None \<Rightarrow> Inr []
      | Inr (Some raw) \<Rightarrow>
          (case unmarshal_string raw of Inl _ \<Rightarrow> Inl (ParamNotString k) | Inr s \<Rightarrow> Inr s))"

definition Object :: "params \<Rightarrow> bytes \<Rightarrow> params_error + params" where
  "Object p k =
     (case Raw p k of
        Inl e \<Rightarrow> Inl e
      | Inr None \<Rightarrow> Inr []
      | Inr (Some raw) \<Rightarrow>
          (case unmarshal_map raw of
             Inl _ \<Rightarrow> Inl (ParamNotObject k)
           | Inr None \<Rightarrow> Inr []
           | Inr (Some obj) \<Rightarrow> Inr obj))"

text \<open>\<open>Params.Name\<close>: \<open>None\<close> for the methods that carry no name.\<close>

definition params_Name :: "params \<Rightarrow> bytes \<Rightarrow> params_error + bytes option" where
  "params_Name p method =
     (let field = NameField method in
      if field = [] then Inr None
      else (case params_String p field of Inl e \<Rightarrow> Inl e | Inr s \<Rightarrow> Inr (Some s)))"

definition metaKeysRead :: "bytes list" where
  "metaKeysRead = [MetaProtocolVersion, MetaProgressToken]"

fun unambiguous_all :: "params \<Rightarrow> bytes list \<Rightarrow> params_error + unit" where
  "unambiguous_all p [] = Inr ()"
| "unambiguous_all p (k # ks) =
     (case unambiguous p k of Inl e \<Rightarrow> Inl e | Inr _ \<Rightarrow> unambiguous_all p ks)"

definition CheckReadableMeta :: "params \<Rightarrow> params_error + unit" where
  "CheckReadableMeta p =
     (case Object p MetaField of Inl e \<Rightarrow> Inl e | Inr meta \<Rightarrow> unambiguous_all meta metaKeysRead)"

definition params_ProtocolVersion :: "params \<Rightarrow> params_error + bytes" where
  "params_ProtocolVersion p =
     (case Object p MetaField of
        Inl e \<Rightarrow> Inl e
      | Inr meta \<Rightarrow>
          (case params_String meta MetaProtocolVersion of
             Inl (AmbiguousKeyError a b) \<Rightarrow> Inl (AmbiguousKeyError a b)
           | Inl _ \<Rightarrow> Inl (MetaNotString MetaProtocolVersion)
           | Inr ver \<Rightarrow> Inr ver))"

section \<open>Frames\<close>

definition frame_keys :: "scanFrame \<Rightarrow> bytes set" where
  "frame_keys f = (case keys f of Some K \<Rightarrow> K | None \<Rightarrow> set (small f))"

lemma frame_keys_simps [simp]:
  "frame_keys (openFrame b) = {}"
  "frame_keys (f\<lparr>expectKey := e\<rparr>) = frame_keys f"
  by (simp_all add: frame_keys_def openFrame_def split: option.split)

lemma openFrame_simps [simp]:
  "isObject (openFrame b) = b" "expectKey (openFrame b) = b"
  by (simp_all add: openFrame_def)

text \<open>A frame is a set of keys, however it stores them.\<close>

lemma addKey_dup: "k \<in> frame_keys f \<Longrightarrow> addKey f k = Inl (AmbiguousKeyError k k)"
  by (auto simp: addKey_def frame_keys_def split: option.splits)

lemma addKey_new:
  assumes "k \<notin> frame_keys f"
  obtains f' where "addKey f k = Inr f'" "frame_keys f' = insert k (frame_keys f)"
    "isObject f' = isObject f" "expectKey f' = expectKey f"
proof (cases "addKey f k")
  case (Inl e)
  with assms show ?thesis by (auto simp: addKey_def frame_keys_def split: option.splits if_splits)
next
  case (Inr f')
  with assms show ?thesis
    by (intro that [of f']) (auto simp: addKey_def frame_keys_def split: option.splits if_splits)
qed

section \<open>Strings\<close>

lemma scan_span_Cons:
  "scan_span (c # s) =
     (if c = CHR 0x5C then
        (case s of [] \<Rightarrow> None | e # s' \<Rightarrow> map_option (\<lambda>(sp, r, esc). (c # e # sp, r, True)) (scan_span s'))
      else if c = CHR 0x22 then Some ([], s, False)
      else map_option (\<lambda>(sp, r, esc). (c # sp, r, esc)) (scan_span s))"
  by (cases s) auto

lemma scan_span_plain:
  "list_all (\<lambda>c. c \<noteq> CHR 0x5C \<and> c \<noteq> CHR 0x22) ds \<Longrightarrow>
     scan_span (ds @ s) = map_option (\<lambda>(sp, r, esc). (ds @ sp, r, esc)) (scan_span s)"
  by (induction ds; cases "scan_span s") (auto simp: scan_span_Cons)

lemma hex_plain: "hex_digit h \<noteq> None \<Longrightarrow> h \<noteq> CHR 0x5C \<and> h \<noteq> CHR 0x22"
  by (auto simp: hex_digit_def)

lemma hex4_plain: "hex4 s \<noteq> None \<Longrightarrow> list_all (\<lambda>c. c \<noteq> CHR 0x5C \<and> c \<noteq> CHR 0x22) (take 4 s)"
  by (auto simp: hex4_def numeral_eq_Suc hex_plain split: list.splits option.splits)

lemma lex_string_scan_span:
  "lex_string s = Some (raw, r) \<Longrightarrow>
     \<exists>esc. scan_span s = Some (raw, r, esc) \<and> (\<not> esc \<longrightarrow> CHR 0x5C \<notin> set raw)"
proof (induction s arbitrary: raw r rule: lex_string.induct)
  case (2 c s)
  from "2.prems" show ?case
  proof (cases rule: lex_string_cases)
    case (escape n raw')
    then obtain esc where ih: "scan_span (drop n s) = Some (raw', r, esc)"
      using "2.IH"(1) by fastforce
    have "scan_span (tl s) = Some (tl (take n s) @ raw', r, esc) \<or> scan_span (tl s) = Some (tl (take n s) @ raw', r, False)"
      using escape(2)
    proof (cases rule: escape_len_cases)
      case (1 e s')
      with ih show ?thesis by simp
    next
      case (2 s')
      have "scan_span (take 4 s' @ drop 4 s') = Some (take 4 s' @ raw', r, esc)"
        using ih 2 by (simp only: scan_span_plain [OF hex4_plain [OF 2(3)]]) simp
      with 2 show ?thesis by simp
    qed
    moreover obtain e s' where "s = e # s'" "0 < n" using escape(2) by (cases rule: escape_len_cases) auto
    ultimately show ?thesis using escape by (cases n) (auto simp: scan_span_Cons)
  next
    case (plain raw')
    then obtain esc where "scan_span s = Some (raw', r, esc)" "\<not> esc \<longrightarrow> CHR 0x5C \<notin> set raw'"
      using "2.IH"(2) by fastforce
    with plain show ?thesis by (auto simp: scan_span_Cons)
  qed (auto simp: scan_span_Cons)
qed simp

lemma lex_string_unescaped:
  "lex_string s = Some (raw, r) \<Longrightarrow> CHR 0x5C \<notin> set raw \<Longrightarrow>
     CHR 0x22 \<notin> set raw \<and> list_all (\<lambda>c. 0x20 \<le> byte c) raw"
proof (induction s arbitrary: raw r rule: lex_string.induct)
  case (2 c s)
  from "2.prems"(1) show ?case
  proof (cases rule: lex_string_cases)
    case (plain raw')
    with "2.IH"(2) "2.prems"(2) show ?thesis by fastforce
  qed (use "2.prems"(2) in auto)
qed simp

lemma scanStringEnd_ok:
  assumes "string_ok raw"
  obtains exact where "scanStringEnd (raw @ CHR 0x22 # r) = Inr (raw, r, exact)"
    "decodeStringSpan raw exact = Inr (unquoted raw)"
proof -
  have l: "lex_string (raw @ CHR 0x22 # r) = Some (raw, r)" using assms by (rule string_ok_extend)
  then obtain esc where s: "scan_span (raw @ CHR 0x22 # r) = Some (raw, r, esc)"
    "\<not> esc \<longrightarrow> CHR 0x5C \<notin> set raw"
    using lex_string_scan_span by blast
  show ?thesis
  proof (cases "\<not> esc \<and> utf8_Valid raw")
    case True
    then have "unquote raw = Some raw"
      using s(2) lex_string_unescaped [OF l] by (intro unquote_exact) auto
    with True s(1) show ?thesis
      by (intro that [of True]) (simp_all add: scanStringEnd_def decodeStringSpan_def unquoted_def)
  next
    case False
    have "json_parse (render (JString raw)) = Some (JString raw)"
      using assms by (intro json_parse_render) auto
    then have "decodeStringSpan raw False = Inr (unquoted raw)"
      by (simp add: decodeStringSpan_def unmarshal_string_def json_null_def)
    with False s(1) show ?thesis by (intro that [of False]) (auto simp: scanStringEnd_def)
  qed
qed

section \<open>The scan computes the reference\<close>

text \<open>No object of the value, at any depth, names a key twice.\<close>

fun distinct_keys :: "jval \<Rightarrow> bool"
  and distinct_items :: "items \<Rightarrow> bool"
  and distinct_members :: "members \<Rightarrow> bool" where
  "distinct_keys (JScalar t) = True"
| "distinct_keys (JString r) = True"
| "distinct_keys (JArray w is) = distinct_items is"
| "distinct_keys (JObject w ms) = (distinct (map fst (members_list ms)) \<and> distinct_members ms)"
| "distinct_items INil = True"
| "distinct_items (ICons a v b is) = (distinct_keys v \<and> distinct_items is)"
| "distinct_members MNil = True"
| "distinct_members (MCons a k b c v d ms) = (distinct_keys v \<and> distinct_members ms)"

text \<open>The stack expects a value, not a key.\<close>

definition value_position :: "scanFrame list \<Rightarrow> bool" where
  "value_position st = (case st of [] \<Rightarrow> True | f # _ \<Rightarrow> \<not> (isObject f \<and> expectKey f))"

lemma value_position_simps [simp]:
  "value_position []"
  "value_position (f # st) = (\<not> (isObject f \<and> expectKey f))"
  by (simp_all add: value_position_def)

lemma scan_ws: "all_ws w \<Longrightarrow> scan (w @ r) st = scan r st"
  by (induction w) (simp_all add: all_ws_def scan.simps(2))

lemma scan_punct:
  "scan (CHR ''}'' # s) (f # st) = scan s st"
  "scan (CHR '']'' # s) (f # st) = scan s st"
  "scan (CHR '','' # s) (f # st) = (if isObject f then scan s (f\<lparr>expectKey := True\<rparr> # st) else scan s (f # st))"
  "scan (CHR '':'' # s) (f # st) = scan s (f\<lparr>expectKey := False\<rparr> # st)"
  "scan (CHR ''{'' # s) st = (if MaxParamsDepth \<le> length st then Inl ErrParamsTooDeep
     else scan s (openFrame True # st))"
  "scan (CHR ''['' # s) st = (if MaxParamsDepth \<le> length st then Inl ErrParamsTooDeep
     else scan s (openFrame False # st))"
  by (simp_all add: scan.simps(2) json_ws_def)

lemma scan_string_value:
  "string_ok raw \<Longrightarrow> value_position st \<Longrightarrow> scan (CHR 0x22 # raw @ CHR 0x22 # r) st = scan r st"
  by (erule scanStringEnd_ok [of raw r])
    (auto simp: scan.simps(2) json_ws_def value_position_def split: list.splits)

lemma scan_string_key:
  "string_ok raw \<Longrightarrow> isObject f \<Longrightarrow> expectKey f \<Longrightarrow>
     scan (CHR 0x22 # raw @ CHR 0x22 # r) (f # st) =
       (case addKey f (unquoted raw) of Inl e \<Rightarrow> Inl e | Inr f' \<Rightarrow> scan r (f' # st))"
  by (erule scanStringEnd_ok [of raw r]) (auto simp: scan.simps(2) json_ws_def)

lemma scalar_ok_plain: "scalar_ok t \<Longrightarrow> list_all (\<lambda>b. \<not> isJSONStructural b) t"
  by (erule scalar_ok_all) (auto simp: json_digit_def isJSONStructural_def)

lemma scan_scalar:
  assumes "scalar_ok t" "head_ok isJSONStructural r"
  shows "scan (t @ r) st = scan r st"
proof -
  obtain c t' where t: "t = c # t'" using assms(1) by (rule scalar_ok_head)
  have "list_all (\<lambda>b. \<not> isJSONStructural b) t" using assms(1) by (rule scalar_ok_plain)
  with t have c: "\<not> isJSONStructural c" "list_all (\<lambda>b. \<not> isJSONStructural b) t'" by auto
  have "dropWhile (\<lambda>b. \<not> isJSONStructural b) (t' @ r) = r"
    using c(2) assms(2) by (intro dropWhile_stop) auto
  with c(1) t show ?thesis by (auto simp: scan.simps(2) isJSONStructural_def json_ws_def)
qed

text \<open>
  \<open>outcome P a b\<close>: the scan goes from \<open>a\<close> on to \<open>b\<close> when \<open>P\<close> holds and stops with an error
  when it does not.
\<close>

definition outcome :: "bool \<Rightarrow> params_error + unit \<Rightarrow> params_error + unit \<Rightarrow> bool" where
  "outcome P a b = (if P then a = b else (\<exists>e. a = Inl e))"

lemma outcome_refl [simp]: "outcome True a a"
  by (simp add: outcome_def)

lemma outcome_eq: "a = b \<Longrightarrow> outcome P b c \<Longrightarrow> outcome P a c"
  by simp

lemma outcome_seq: "outcome P a b \<Longrightarrow> outcome Q b c \<Longrightarrow> outcome (P \<and> Q) a c"
  by (cases P; cases Q) (auto simp: outcome_def)

lemma outcome_ok: "outcome P a (Inr ()) \<Longrightarrow> a = Inr () \<longleftrightarrow> P"
  by (cases P) (auto simp: outcome_def)

lemma outcome_error: "\<not> P \<Longrightarrow> outcome P (Inl e) b"
  by (simp add: outcome_def)

lemma structural_head [simp]:
  "isJSONStructural (CHR '','')" "isJSONStructural (CHR '']'')" "isJSONStructural (CHR ''}'')"
  by (simp_all add: isJSONStructural_def)

lemma structural_ws: "all_ws w \<Longrightarrow> head_ok isJSONStructural r \<Longrightarrow> head_ok isJSONStructural (w @ r)"
  by (cases w) (auto simp: all_ws_def json_ws_def isJSONStructural_def)

lemma scan_member_key:
  assumes "all_ws a" "string_ok k" "all_ws b" "all_ws c" "isObject f" "expectKey f"
  obtains f' where "isObject f'" "\<not> expectKey f'" "frame_keys f' = insert (unquoted k) (frame_keys f)"
    "outcome (unquoted k \<notin> frame_keys f)
       (scan (a @ CHR 0x22 # k @ CHR 0x22 # b @ CHR '':'' # c @ r) (f # st)) (scan r (f' # st))"
proof (cases "unquoted k \<in> frame_keys f")
  case True
  then have "scan (a @ CHR 0x22 # k @ CHR 0x22 # b @ CHR '':'' # c @ r) (f # st) =
      Inl (AmbiguousKeyError (unquoted k) (unquoted k))"
    using assms by (simp add: scan_ws scan_string_key addKey_dup)
  then show ?thesis using True assms(5)
    by (intro that [of "f\<lparr>expectKey := False, keys := Some (insert (unquoted k) (frame_keys f))\<rparr>"])
      (auto simp: outcome_def frame_keys_def)
next
  case False
  then obtain f' where f': "addKey f (unquoted k) = Inr f'" "frame_keys f' = insert (unquoted k) (frame_keys f)"
    "isObject f' = isObject f" by (rule addKey_new)
  then have "scan (a @ CHR 0x22 # k @ CHR 0x22 # b @ CHR '':'' # c @ r) (f # st) =
      scan r (f'\<lparr>expectKey := False\<rparr> # st)"
    using assms by (simp add: scan_ws scan_string_key scan_punct)
  then show ?thesis using False assms(5) f'
    by (intro that [of "f'\<lparr>expectKey := False\<rparr>"]) (auto simp: outcome_def)
qed

lemma scan_reference:
  "wf_json v \<Longrightarrow> value_position st \<Longrightarrow> head_ok isJSONStructural r \<Longrightarrow> length st \<le> MaxParamsDepth \<Longrightarrow>
     outcome (distinct_keys v \<and> length st + jdepth v \<le> MaxParamsDepth)
       (scan (render v @ r) st) (scan r st)"
  "wf_items is \<Longrightarrow> \<not> isObject f \<Longrightarrow> length st < MaxParamsDepth \<Longrightarrow> is \<noteq> INil \<Longrightarrow>
     outcome (distinct_items is \<and> Suc (length st) + jdepth_items is \<le> MaxParamsDepth)
       (scan (render_items is @ CHR '']'' # r) (f # st)) (scan r st)"
  "wf_members ms \<Longrightarrow> isObject f \<Longrightarrow> expectKey f \<Longrightarrow> length st < MaxParamsDepth \<Longrightarrow> ms \<noteq> MNil \<Longrightarrow>
     outcome (distinct_members ms \<and> distinct (map fst (members_list ms)) \<and>
         frame_keys f \<inter> fst ` set (members_list ms) = {} \<and>
         Suc (length st) + jdepth_members ms \<le> MaxParamsDepth)
       (scan (render_members ms @ CHR ''}'' # r) (f # st)) (scan r st)"
proof (induction v and "is" and ms arbitrary: st r and f st r and f st r)
  case (JScalar t)
  then show ?case by (simp add: scan_scalar outcome_def)
next
  case (JString t)
  then show ?case by (simp add: scan_string_value outcome_def)
next
  case (JArray w "is")
  show ?case
  proof (cases "MaxParamsDepth \<le> length st")
    case True
    then show ?thesis by (simp add: scan_punct outcome_error)
  next
    case room: False
    show ?thesis
    proof (cases "is = INil")
      case True
      with JArray.prems room show ?thesis by (simp add: scan_punct scan_ws)
    next
      case False
      with JArray.prems room JArray.IH [of "openFrame False" st r] show ?thesis
        by (simp add: scan_punct)
    qed
  qed
next
  case (JObject w ms)
  show ?case
  proof (cases "MaxParamsDepth \<le> length st")
    case True
    then show ?thesis by (simp add: scan_punct outcome_error)
  next
    case room: False
    show ?thesis
    proof (cases "ms = MNil")
      case True
      with JObject.prems room show ?thesis by (simp add: scan_punct scan_ws)
    next
      case False
      with JObject.prems room JObject.IH [of "openFrame True" st r] show ?thesis
        by (simp add: scan_punct conj_ac)
    qed
  qed
next
  case (ICons a v b is')
  define tail where "tail = (if is' = INil then CHR '']'' # r else CHR '','' # render_items is' @ CHR '']'' # r)"
  have eq: "render_items (ICons a v b is') @ CHR '']'' # r = a @ render v @ b @ tail"
    by (simp add: tail_def)
  have "head_ok isJSONStructural (b @ tail)"
    using ICons.prems by (intro structural_ws) (auto simp: tail_def)
  then have v: "outcome (distinct_keys v \<and> length (f # st) + jdepth v \<le> MaxParamsDepth)
      (scan (render v @ b @ tail) (f # st)) (scan (b @ tail) (f # st))"
    using ICons.prems by (intro ICons.IH(1)) auto
  have t: "outcome (distinct_items is' \<and> Suc (length st) + jdepth_items is' \<le> MaxParamsDepth)
      (scan (b @ tail) (f # st)) (scan r st)"
    using ICons.prems ICons.IH(2) [of f st r]
    by (cases "is' = INil") (simp_all add: tail_def scan_ws scan_punct)
  have "((distinct_keys v \<and> length (f # st) + jdepth v \<le> MaxParamsDepth) \<and>
        (distinct_items is' \<and> Suc (length st) + jdepth_items is' \<le> MaxParamsDepth)) \<longleftrightarrow>
      (distinct_items (ICons a v b is') \<and> Suc (length st) + jdepth_items (ICons a v b is') \<le> MaxParamsDepth)"
    by auto
  with outcome_seq [OF v t] ICons.prems show ?case unfolding eq by (simp only: scan_ws wf_items.simps)
next
  case (MCons a k b c v e ms')
  define tail where "tail = (if ms' = MNil then CHR ''}'' # r else CHR '','' # render_members ms' @ CHR ''}'' # r)"
  have eq: "render_members (MCons a k b c v e ms') @ CHR ''}'' # r =
      a @ CHR 0x22 # k @ CHR 0x22 # b @ CHR '':'' # c @ render v @ e @ tail"
    by (simp add: tail_def)
  obtain f' where f': "isObject f'" "\<not> expectKey f'" "frame_keys f' = insert (unquoted k) (frame_keys f)"
    and key: "outcome (unquoted k \<notin> frame_keys f)
       (scan (a @ CHR 0x22 # k @ CHR 0x22 # b @ CHR '':'' # c @ render v @ e @ tail) (f # st))
       (scan (render v @ e @ tail) (f' # st))"
    using MCons.prems scan_member_key [of a k b c f "render v @ e @ tail" st] by auto
  have "head_ok isJSONStructural (e @ tail)"
    using MCons.prems by (intro structural_ws) (auto simp: tail_def)
  then have v: "outcome (distinct_keys v \<and> length (f' # st) + jdepth v \<le> MaxParamsDepth)
      (scan (render v @ e @ tail) (f' # st)) (scan (e @ tail) (f' # st))"
    using MCons.prems f' by (intro MCons.IH(1)) auto
  have t: "outcome (distinct_members ms' \<and> distinct (map fst (members_list ms')) \<and>
         frame_keys f' \<inter> fst ` set (members_list ms') = {} \<and>
         Suc (length st) + jdepth_members ms' \<le> MaxParamsDepth)
      (scan (e @ tail) (f' # st)) (scan r st)"
    using MCons.prems f' MCons.IH(2) [of "f'\<lparr>expectKey := True\<rparr>" st r]
    by (cases "ms' = MNil") (simp_all add: tail_def scan_ws scan_punct)
  have "(unquoted k \<notin> frame_keys f \<and> (distinct_keys v \<and> length (f' # st) + jdepth v \<le> MaxParamsDepth) \<and>
        (distinct_members ms' \<and> distinct (map fst (members_list ms')) \<and>
         frame_keys f' \<inter> fst ` set (members_list ms') = {} \<and>
         Suc (length st) + jdepth_members ms' \<le> MaxParamsDepth)) \<longleftrightarrow>
      (distinct_members (MCons a k b c v e ms') \<and> distinct (map fst (members_list (MCons a k b c v e ms'))) \<and>
         frame_keys f \<inter> fst ` set (members_list (MCons a k b c v e ms')) = {} \<and>
         Suc (length st) + jdepth_members (MCons a k b c v e ms') \<le> MaxParamsDepth)"
    using f'(3) by auto
  with outcome_seq [OF key outcome_seq [OF v t]] show ?case unfolding eq by (simp only:)
qed simp_all

text \<open>On a JSON text the scan is the reference check.\<close>

lemma scanUnambiguous_iff:
  assumes "json_parse raw = Some v"
  shows "scanUnambiguous raw = Inr () \<longleftrightarrow> distinct_keys v \<and> jdepth v \<le> MaxParamsDepth"
proof -
  from assms obtain a b where v: "wf_json v" and w: "all_ws a" "all_ws b" "raw = a @ render v @ b"
    by (auto simp: json_parse_iff)
  have "head_ok isJSONStructural b" using structural_ws [OF w(2), of "[]"] by simp
  with v have "outcome (distinct_keys v \<and> jdepth v \<le> MaxParamsDepth) (scan (render v @ b) []) (scan b [])"
    using scan_reference(1) [of v "[]" b] by simp
  moreover have "scan b [] = Inr ()" using scan_ws [OF w(2), of "[]" "[]"] by simp
  ultimately show ?thesis using w outcome_ok
    by (simp add: scanUnambiguous_def scan_ws)
qed

section \<open>What every backend reads\<close>

text \<open>
  A backend's parser reads a key of an object with some notion \<open>same\<close> of equal keys, and takes
  the first or the last member that matches.
\<close>

definition reader :: "(bytes \<Rightarrow> bytes \<Rightarrow> bool) \<Rightarrow> bool \<Rightarrow> members \<Rightarrow> bytes \<Rightarrow> bytes option" where
  "reader same take_last ms k =
     (case filter (\<lambda>(k', v). same k' k) (members_list ms) of
        [] \<Rightarrow> None
      | kvs \<Rightarrow> Some (render (snd (if take_last then last kvs else hd kvs))))"

lemma unambiguous_loop_ok:
  "unambiguous_loop k ks = Inr () \<longleftrightarrow> (\<forall>o1\<in>set ks. EqualFoldKey o1 k \<longrightarrow> o1 = k)"
  by (induction ks) auto

lemma unambiguous_ok:
  "unambiguous p k = Inr () \<longleftrightarrow> (\<forall>o1\<in>set (map fst p). EqualFoldKey o1 k \<longrightarrow> o1 = k)"
  by (simp add: unambiguous_def unambiguous_loop_ok)

lemma update_keys_image: "fst ` set (AList.update k v m) = insert k (fst ` set m)"
  using dom_update [of k v m] by (simp add: dom_map_of_conv_image_fst)

lemma object_map_keys: "set (map fst (object_map ms)) = fst ` set (members_list ms)"
proof -
  have "fst ` set (foldl (\<lambda>m (k, v). AList.update k (f v) m) m kvs) = fst ` set m \<union> fst ` set kvs"
    for f :: "jval \<Rightarrow> bytes" and m kvs
    by (induction kvs arbitrary: m) (simp_all add: case_prod_beta update_keys_image insert_commute)
  from this [of render "[]" "members_list ms"] show ?thesis by (simp add: object_map_def)
qed

lemma filter_distinct_key:
  "distinct (map fst kvs) \<Longrightarrow>
     filter (\<lambda>(k', v). k' = k) kvs = (case map_of kvs k of None \<Rightarrow> [] | Some v \<Rightarrow> [(k, v)])"
  by (induction kvs) (auto split: option.splits simp: map_of_eq_None_iff rev_image_eqI)

lemma map_of_object_map_distinct:
  assumes "distinct (map fst (members_list ms))"
  shows "map_of (object_map ms) k = map_option render (map_of (members_list ms) k)"
proof -
  have "map_of (rev (map (\<lambda>(k, v). (k, render v)) (members_list ms))) =
      map_of (map (\<lambda>(k, v). (k, render v)) (members_list ms))"
    using assms by (intro map_of_inject_set [THEN iffD2])
      (auto simp: rev_map [symmetric] comp_def case_prod_beta)
  then show ?thesis by (simp add: map_of_object_map map_of_map)
qed

lemma reader_agrees:
  assumes d: "distinct (map fst (members_list ms))"
    and u: "unambiguous (object_map ms) k = Inr ()"
    and same: "\<And>a. same a a" "\<And>a b. same a b \<Longrightarrow> EqualFoldKey a b"
  shows "reader same l ms k = map_of (object_map ms) k"
proof -
  have "filter (\<lambda>(k', v). same k' k) (members_list ms) = filter (\<lambda>(k', v). k' = k) (members_list ms)"
    using u same unfolding unambiguous_ok object_map_keys by (intro filter_cong) auto
  then show ?thesis using d
    by (auto simp: reader_def filter_distinct_key map_of_object_map_distinct split: option.splits)
qed

lemma distinct_keys_member:
  "distinct_members ms \<Longrightarrow> (k, v) \<in> set (members_list ms) \<Longrightarrow> distinct_keys v"
  by (induction ms rule: members_list.induct) auto

lemma json_null_not_object [simp]: "JObject w ms \<noteq> json_null"
  by (simp add: json_null_def)

lemma trim_prefixes_set:
  "set s \<subseteq> set (trim_prefixes n es s) \<union> (\<Union>e\<in>set es. set e)"
proof (induction n arbitrary: s)
  case (Suc n)
  show ?case
  proof (cases "trim_step es s")
    case (Some s')
    then obtain e where "e \<in> set es" "s = e @ s'" using trim_step_Some by blast
    with Some Suc.IH [of s'] show ?thesis by auto
  qed simp
qed simp

lemma trimmed_bytes:
  assumes "strings_TrimSpace s = []" "c \<in> set s"
  shows "\<exists>r\<in>set unicode_spaces. c \<in> set (encode_rune r)"
proof -
  let ?es = "map encode_rune unicode_spaces"
  have "set s \<subseteq> set (strings_TrimLeftSpace s) \<union> (\<Union>e\<in>set ?es. set e)"
    unfolding strings_TrimLeftSpace_def by (rule trim_prefixes_set)
  moreover have "set (rev (strings_TrimLeftSpace s)) \<subseteq>
      set (rev (strings_TrimSpace s)) \<union> (\<Union>e\<in>set (map (rev \<circ> encode_rune) unicode_spaces). set e)"
    unfolding strings_TrimSpace_def strings_TrimRightSpace_def rev_rev_ident by (rule trim_prefixes_set)
  ultimately show ?thesis using assms by auto
qed

lemma brace_not_space: "\<forall>r\<in>set unicode_spaces. CHR ''{'' \<notin> set (encode_rune r)"
  by (simp add: unicode_spaces_def encode_rune_def valid_rune_def char_of_def)

lemma json_parse_not_blank:
  assumes "json_parse raw = Some (JObject w ms)"
  shows "strings_TrimSpace raw \<noteq> []"
proof
  assume "strings_TrimSpace raw = []"
  moreover have "CHR ''{'' \<in> set raw" using assms by (auto simp: json_parse_iff)
  ultimately show False using trimmed_bytes brace_not_space by blast
qed

lemma DecodeParams_object:
  assumes "json_parse raw = Some (JObject w ms)"
  shows "DecodeParams raw = Inr p \<longleftrightarrow>
    scanUnambiguous raw = Inr () \<and> p = object_map ms \<and> checkCaseUnique p = Inr ()"
proof -
  have "strings_TrimSpace raw \<noteq> []" using assms by (rule json_parse_not_blank)
  with assms show ?thesis
    by (auto simp: DecodeParams_def unmarshal_map_def split: sum.splits)
qed

lemma caseUnique_loop_ok:
  "caseUnique_loop folded ks = Inr () \<longleftrightarrow>
     distinct (map foldKey ks) \<and> fst ` set folded \<inter> foldKey ` set ks = {}"
proof (induction folded ks rule: caseUnique_loop.induct)
  case (2 folded k ks)
  show ?case
  proof (cases "map_of folded (foldKey k)")
    case None
    then have "foldKey k \<notin> fst ` set folded" by (simp add: map_of_eq_None_iff)
    with 2 None show ?thesis by (auto simp: Let_def)
  next
    case (Some prior)
    then have "foldKey k \<in> fst ` set folded" by (metis domI dom_map_of_conv_image_fst)
    with Some show ?thesis by (auto simp: Let_def)
  qed
qed simp

lemma checkCaseUnique_ok: "checkCaseUnique p = Inr () \<longleftrightarrow> distinct (map foldKey (map fst p))"
  by (simp add: checkCaseUnique_def caseUnique_loop_ok)

lemma caseUnique_example: "checkCaseUnique [(''name'', u), (''a'', v)] = Inr ()"
proof -
  have "distinct (map foldKey [''name'', ''a''])"
    by (subst distinct_foldKey_ascii) (simp_all add: ascii_upper_def)
  then show ?thesis by (simp add: checkCaseUnique_ok)
qed

text \<open>
  C5.  When params are an object, \<open>DecodeParams\<close> accepts them exactly when no object in them, at
  any depth, names a key twice, they nest no deeper than the limit, and no two keys of the
  outermost object are equal up to case; it then returns the object's members.
\<close>

theorem DecodeParams_accepts:
  "json_parse raw = Some (JObject w ms) \<Longrightarrow>
     DecodeParams raw = Inr p \<longleftrightarrow>
       distinct_keys (JObject w ms) \<and> jdepth (JObject w ms) \<le> MaxParamsDepth \<and>
       (\<forall>i<length p. \<forall>j<length p. i \<noteq> j \<longrightarrow> \<not> EqualFoldKey (fst (p ! i)) (fst (p ! j))) \<and>
       p = object_map ms"
  by (auto simp: DecodeParams_object scanUnambiguous_iff checkCaseUnique_ok distinct_conv_nth
      EqualFoldKey_runes foldKey_eq)

lemma DecodeParams_accepts_witness:
  "\<exists>w ms p. json_parse (json_text ''{~name~: ~x~, ~a~: {~B~: [1]}}'') = Some (JObject w ms) \<and>
     DecodeParams (json_text ''{~name~: ~x~, ~a~: {~B~: [1]}}'') = Inr p \<and>
     distinct_keys (JObject w ms) \<and> length p = 2"
proof -
  have parse: "json_parse (json_text ''{~name~: ~x~, ~a~: {~B~: [1]}}'') =
      Some (JObject [] (MCons [] ''name'' [] '' '' (JString ''x'') [] (MCons '' '' ''a'' [] '' ''
        (JObject [] (MCons [] ''B'' [] '' '' (JArray [] (ICons [] (JScalar ''1'') [] INil)) [] MNil)) [] MNil)))"
    by code_simp
  have "scanUnambiguous (json_text ''{~name~: ~x~, ~a~: {~B~: [1]}}'') = Inr ()"
    by (simp add: scanUnambiguous_iff [OF parse] MaxParamsDepth_def unquoted_def unquote_plain)
  then have "DecodeParams (json_text ''{~name~: ~x~, ~a~: {~B~: [1]}}'') =
      Inr [(''name'', json_text ''~x~''), (''a'', json_text ''{~B~: [1]}'')]"
    by (intro DecodeParams_object [OF parse, THEN iffD2]) (simp add: caseUnique_example
        object_map_def unquoted_def unquote_plain json_text_def)
  note d = this and ok = DecodeParams_accepts [OF parse, THEN iffD1, OF this, THEN conjunct1]
  show ?thesis by (intro exI conjI) (rule parse, rule d, rule ok, simp)
qed

lemma Raw_reader:
  assumes "json_parse raw = Some (JObject w ms)" "DecodeParams raw = Inr p" "Raw p k = Inr x"
    and "\<And>a. same a a" "\<And>a b. same a b \<Longrightarrow> EqualFoldKey a b"
  shows "reader same take_last ms k = x"
proof -
  from assms(1,2) have "distinct_keys (JObject w ms)" and p: "p = object_map ms"
    by (auto simp: DecodeParams_object scanUnambiguous_iff)
  moreover have "unambiguous p k = Inr ()" "x = map_of p k"
    using assms(3) by (auto simp: Raw_def split: sum.splits)
  ultimately show ?thesis using assms(4,5) by (simp add: reader_agrees)
qed

text \<open>
  C2.  The read the authorization check makes of a params key agrees with every backend: if
  \<open>DecodeParams\<close> accepts an object and \<open>Raw\<close> reads \<open>k\<close> from it, then a parser that compares keys
  exactly, or by any relation within case folding, and keeps the first or the last match,
  reads the same value (or the same absence).
\<close>

theorem Raw_is_what_backends_read:
  assumes "json_parse raw = Some (JObject w ms)" "DecodeParams raw = Inr p" "Raw p k = Inr x"
    and "\<And>a. same a a" "\<And>a b. same a b \<Longrightarrow> EqualFoldKey a b"
  shows "reader same take_last ms k = x"
  by (rule Raw_reader [OF assms(1-3)]) (use assms(4,5) in auto)

lemma object_map_member:
  assumes "distinct (map fst (members_list ms))" "map_of (object_map ms) k = Some r"
  obtains v where "(k, v) \<in> set (members_list ms)" "r = render v"
  using assms by (auto simp: map_of_object_map_distinct dest: map_of_SomeD)

lemma Raw_is_what_backends_read_witness:
  "\<exists>w ms. json_parse (json_text ''{~name~: ~x~, ~a~: 1}'') = Some (JObject w ms) \<and>
     reader EqualFoldKey True ms ''name'' = Some (json_text ''~x~'')"
proof -
  have parse: "json_parse (json_text ''{~name~: ~x~, ~a~: 1}'') =
      Some (JObject [] (MCons [] ''name'' [] '' '' (JString ''x'') []
        (MCons '' '' ''a'' [] '' '' (JScalar ''1'') [] MNil)))"
    by code_simp
  have "scanUnambiguous (json_text ''{~name~: ~x~, ~a~: 1}'') = Inr ()"
    by (simp add: scanUnambiguous_iff [OF parse] MaxParamsDepth_def unquoted_def unquote_plain)
  then have d: "DecodeParams (json_text ''{~name~: ~x~, ~a~: 1}'') =
      Inr [(''name'', json_text ''~x~''), (''a'', ''1'')]"
    by (intro DecodeParams_object [OF parse, THEN iffD2]) (simp add: caseUnique_example
        object_map_def unquoted_def unquote_plain json_text_def)
  have "Raw [(''name'', json_text ''~x~''), (''a'', ''1'')] ''name'' = Inr (Some (json_text ''~x~''))"
    by (simp add: Raw_def unambiguous_def EqualFoldKey_ascii ascii_upper_def)
  from Raw_is_what_backends_read [OF parse d this, of EqualFoldKey True] parse
  show ?thesis by (intro exI) auto
qed

text \<open>
  The same holds one level down, for the extension bag \<open>_meta\<close> and for the arguments: a
  successful read of a key of a nested object is what every backend reads there.
\<close>

theorem nested_Raw_is_what_backends_read:
  assumes "json_parse raw = Some (JObject w ms)" "DecodeParams raw = Inr p"
    "map_of p k = Some nested" "json_parse nested = Some (JObject w' ms')"
    "Object p k = Inr q" "Raw q k' = Inr x"
    and "\<And>a. same a a" "\<And>a b. same a b \<Longrightarrow> EqualFoldKey a b"
  shows "reader same take_last ms' k' = x"
proof -
  from assms(1,2) have d: "distinct_keys (JObject w ms)" and p: "p = object_map ms"
    by (auto simp: DecodeParams_object scanUnambiguous_iff)
  then obtain v where v: "(k, v) \<in> set (members_list ms)" "nested = render v"
    using assms(3) by (auto elim: object_map_member)
  then have "v = JObject w' ms'" using json_parse_member [OF assms(1)] assms(4) by simp
  then have d': "distinct (map fst (members_list ms'))"
    using d v(1) distinct_keys_member by fastforce
  have "q = object_map ms'"
    using assms(4,5) by (auto simp: Object_def Raw_def assms(3) unmarshal_map_def split: sum.splits)
  moreover have "unambiguous q k' = Inr ()" "x = map_of q k'"
    using assms(6) by (auto simp: Raw_def split: sum.splits)
  ultimately show ?thesis using d' assms(7,8) by (simp add: reader_agrees)
qed

lemma nested_Raw_is_what_backends_read_witness:
  "\<exists>w ms. json_parse (json_text ''{~progressToken~:7}'') = Some (JObject w ms) \<and>
     reader EqualFoldKey False ms ''progressToken'' = Some ''7''"
proof -
  have outer: "json_parse (json_text ''{~_meta~:{~progressToken~:7}}'') =
      Some (JObject [] (MCons [] ''_meta'' [] [] (JObject [] (MCons [] ''progressToken'' [] []
        (JScalar ''7'') [] MNil)) [] MNil))"
    by code_simp
  have inner: "json_parse (json_text ''{~progressToken~:7}'') =
      Some (JObject [] (MCons [] ''progressToken'' [] [] (JScalar ''7'') [] MNil))"
    by code_simp
  have "scanUnambiguous (json_text ''{~_meta~:{~progressToken~:7}}'') = Inr ()"
    by (simp add: scanUnambiguous_iff [OF outer] MaxParamsDepth_def unquoted_def unquote_plain)
  then have d: "DecodeParams (json_text ''{~_meta~:{~progressToken~:7}}'') =
      Inr [(''_meta'', json_text ''{~progressToken~:7}'')]"
    by (intro DecodeParams_object [OF outer, THEN iffD2]) (simp add: checkCaseUnique_ok
        object_map_def unquoted_def unquote_plain json_text_def)
  have m: "map_of [(''_meta'', json_text ''{~progressToken~:7}'')] ''_meta'' =
      Some (json_text ''{~progressToken~:7}'')" by simp
  have o: "Object [(''_meta'', json_text ''{~progressToken~:7}'')] ''_meta'' =
      Inr [(''progressToken'', ''7'')]"
    by (simp add: Object_def Raw_def unambiguous_def unmarshal_map_def inner
        object_map_def unquoted_def unquote_plain)
  have r: "Raw [(''progressToken'', ''7'')] ''progressToken'' = Inr (Some ''7'')"
    by (simp add: Raw_def unambiguous_def)
  from nested_Raw_is_what_backends_read [OF outer d m inner o r, of EqualFoldKey False] inner
  show ?thesis by (intro exI) auto
qed

lemma unambiguous_all_ok: "unambiguous_all p ks = Inr () \<longleftrightarrow> (\<forall>k\<in>set ks. unambiguous p k = Inr ())"
  by (induction ks) (auto split: sum.splits)

lemma sum_unit: "(\<forall>e. r \<noteq> Inl e) \<longleftrightarrow> r = Inr ()"
  by (cases r) auto

lemma CheckReadableMeta_ok:
  "CheckReadableMeta p = Inr () \<longleftrightarrow>
     (\<exists>meta. Object p MetaField = Inr meta \<and> (\<forall>k\<in>set metaKeysRead. Raw meta k = Inr (map_of meta k)))"
  unfolding CheckReadableMeta_def
  by (cases "Object p MetaField") (auto simp: unambiguous_all_ok Raw_def sum_unit split: sum.splits)

end
