(* ===== verification/JsonEncode.thy ===== *)
theory JsonEncode
  imports JsonDecode
begin

text \<open>
  What \<open>json.Marshal\<close> writes for the values the gateway builds: strings with the HTML-safe
  escaping, integers, and raw messages compacted.  The lemmas show that what is written reads
  back: a written string decodes to its value, and compacting does not change what a string means.
\<close>

section \<open>Integers\<close>

definition digit_char :: "nat \<Rightarrow> char" where
  "digit_char d = char_of (48 + d)"

fun nat_digits :: "nat \<Rightarrow> bytes" where
  "nat_digits n = (if n < 10 then [digit_char n] else nat_digits (n div 10) @ [digit_char (n mod 10)])"

declare nat_digits.simps [simp del]

text \<open>\<open>strconv.Itoa\<close>.\<close>

definition itoa :: "int \<Rightarrow> bytes" where
  "itoa n = (if n < 0 then CHR ''-'' # nat_digits (nat (- n)) else nat_digits (nat n))"

section \<open>Strings\<close>

definition hex_char :: "nat \<Rightarrow> char" where
  "hex_char d = (if d < 10 then char_of (48 + d) else char_of (87 + d))"

text \<open>The escape of an ASCII byte, \<open>None\<close> when it stands for itself.\<close>

definition escape_byte :: "char \<Rightarrow> bytes option" where
  "escape_byte c =
     (if c = CHR 0x22 \<or> c = CHR 0x5C then Some [CHR 0x5C, c]
      else if c = CHR 0x08 then Some [CHR 0x5C, CHR ''b'']
      else if c = CHR 0x0C then Some [CHR 0x5C, CHR ''f'']
      else if c = CHR 0x0A then Some [CHR 0x5C, CHR ''n'']
      else if c = CHR 0x0D then Some [CHR 0x5C, CHR ''r'']
      else if c = CHR 0x09 then Some [CHR 0x5C, CHR ''t'']
      else if byte c < 0x20 \<or> c = CHR ''<'' \<or> c = CHR ''>'' \<or> c = CHR ''&''
      then Some ([CHR 0x5C, CHR ''u'', CHR ''0'', CHR ''0'', hex_char (byte c div 16), hex_char (byte c mod 16)])
      else None)"

text \<open>\<open>appendString\<close>, between the quotes, for a given way to escape the ASCII bytes.\<close>

function escape_with :: "(char \<Rightarrow> bytes option) \<Rightarrow> bytes \<Rightarrow> bytes" where
  "escape_with esc [] = []"
| "escape_with esc (c # s) =
     (if byte c < 0x80 then
        (case esc c of Some e \<Rightarrow> e | None \<Rightarrow> [c]) @ escape_with esc s
      else (let (r, n) = decode_rune (c # s) in
        (if r = RuneError \<and> n = 1 then [CHR 0x5C] @ ''ufffd''
         else if r = 0x2028 then [CHR 0x5C] @ ''u2028''
         else if r = 0x2029 then [CHR 0x5C] @ ''u2029''
         else take n (c # s)) @ escape_with esc (drop n (c # s))))"
  by pat_completeness auto
termination
proof (relation "measure (length \<circ> snd)", goal_cases)
  case (3 esc c s p r n)
  then have "0 < n" using decode_rune_size_pos [of "c # s"] by (metis list.distinct(1) snd_conv)
  then show ?case by (cases n) (auto simp: less_Suc_eq_le)
qed auto

declare escape_with.simps(2) [simp del]

definition escape_string :: "bytes \<Rightarrow> bytes" where
  "escape_string = escape_with escape_byte"

section \<open>Raw messages\<close>

text \<open>\<open>compact\<close> with HTML escaping, on the bytes of a string token and on a value.\<close>

fun html_escape :: "bytes \<Rightarrow> bytes" where
  "html_escape [] = []"
| "html_escape (c # s) =
     (if c = CHR ''<'' \<or> c = CHR ''>'' \<or> c = CHR ''&''
      then CHR 0x5C # ''u00'' @ [hex_char (byte c div 16), hex_char (byte c mod 16)] @ html_escape s
      else (case s of
              x # y # t \<Rightarrow>
                if c = CHR 0xE2 \<and> x = CHR 0x80 \<and> (y = CHR 0xA8 \<or> y = CHR 0xA9)
                then CHR 0x5C # ''u202'' @ [hex_char (byte y mod 16)] @ html_escape t
                else c # html_escape s
            | _ \<Rightarrow> c # html_escape s))"

declare html_escape.simps(2) [simp del]

fun compact :: "jval \<Rightarrow> jval"
  and compact_items :: "items \<Rightarrow> items"
  and compact_members :: "members \<Rightarrow> members" where
  "compact (JScalar t) = JScalar t"
| "compact (JString r) = JString (html_escape r)"
| "compact (JArray w is) = JArray [] (compact_items is)"
| "compact (JObject w ms) = JObject [] (compact_members ms)"
| "compact_items INil = INil"
| "compact_items (ICons a v b is) = ICons [] (compact v) [] (compact_items is)"
| "compact_members MNil = MNil"
| "compact_members (MCons a k b c v d ms) =
     MCons [] (html_escape k) [] [] (compact v) [] (compact_members ms)"

datatype marshal_error = InvalidRawMessage

definition marshal_raw :: "bytes \<Rightarrow> marshal_error + jval" where
  "marshal_raw raw = (case json_parse raw of None \<Rightarrow> Inl InvalidRawMessage | Some v \<Rightarrow> Inr (compact v))"

definition marshal_string :: "bytes \<Rightarrow> jval" where
  "marshal_string s = JString (escape_string s)"

definition marshal_int :: "int \<Rightarrow> jval" where
  "marshal_int n = JScalar (itoa n)"

text \<open>An object of the given fields, without white space.\<close>

fun mk_members :: "(bytes \<times> jval) list \<Rightarrow> members" where
  "mk_members [] = MNil"
| "mk_members ((k, v) # kvs) = MCons [] k [] [] v [] (mk_members kvs)"

definition mk_object :: "(bytes \<times> jval) list \<Rightarrow> jval" where
  "mk_object kvs = JObject [] (mk_members kvs)"

section \<open>Integers read back\<close>

lemma char_of_48: "char_of (48 :: nat) = CHR ''0''"
  using char_of_byte [of "CHR ''0''"] by (simp del: char_of_byte char_of_char)

lemma byte_digit_char [simp]: "d < 10 \<Longrightarrow> byte (digit_char d) = 48 + d"
  by (simp add: digit_char_def)

lemma json_digit_digit_char: "d < 10 \<Longrightarrow> json_digit (digit_char d)"
  by (simp add: json_digit_def)

lemma nat_digits_digits: "list_all json_digit (nat_digits n) \<and> nat_digits n \<noteq> []"
proof (induction n rule: nat_digits.induct)
  case (1 n)
  then show ?case by (subst (1 2) nat_digits.simps) (auto simp: json_digit_digit_char)
qed

lemma nat_digits_head: "0 < n \<Longrightarrow> hd (nat_digits n) \<noteq> CHR ''0''"
proof (induction n rule: nat_digits.induct)
  case (1 n)
  show ?case
  proof (cases "n < 10")
    case True
    then have "byte (digit_char n) \<noteq> 48" using "1.prems" by simp
    then have "digit_char n \<noteq> CHR ''0''" by auto
    with True show ?thesis by (subst nat_digits.simps) simp
  next
    case False
    then have "hd (nat_digits (n div 10)) \<noteq> CHR ''0''" using "1.IH" by simp
    with False nat_digits_digits [of "n div 10"] show ?thesis by (subst nat_digits.simps) simp
  qed
qed

lemma digits_value_append: "digits_value (ds @ [d]) = digits_value ds * 10 + (int (byte d) - 48)"
  by (simp add: digits_value_def)

lemma digits_value_nat_digits: "digits_value (nat_digits n) = int n"
proof (induction n rule: nat_digits.induct)
  case (1 n)
  show ?case
  proof (cases "n < 10")
    case True
    then show ?thesis by (subst nat_digits.simps) (simp add: digits_value_def)
  next
    case False
    then have "digits_value (nat_digits n) = int (n div 10) * 10 + int (n mod 10)"
      using 1 by (subst nat_digits.simps) (simp add: digits_value_append)
    then show ?thesis by (simp add: zdiv_int zmod_int)
  qed
qed

lemma int_of_token_itoa:
  assumes "- (2 ^ 63) \<le> n" "n < 2 ^ 63"
  shows "int_of_token (itoa n) = Some n"
proof (cases "n < 0")
  case True
  then show ?thesis
    using assms nat_digits_digits [of "nat (- n)"]
    by (simp add: int_of_token_def itoa_def Let_def digits_value_nat_digits)
next
  case False
  obtain c ds where c: "nat_digits (nat n) = c # ds" "json_digit c"
    using nat_digits_digits [of "nat n"] by (cases "nat_digits (nat n)") auto
  then have "c \<noteq> CHR ''-''" by (auto simp: json_digit_def)
  with False c have "strings_CutPrefix (itoa n) ''-'' = None" by (simp add: itoa_def)
  then show ?thesis
    using assms False nat_digits_digits [of "nat n"]
    by (simp add: int_of_token_def itoa_def Let_def digits_value_nat_digits)
qed

lemma lex_int_nat_digits: "lex_int (nat_digits n) = Some (nat_digits n, [])"
proof (cases "n = 0")
  case True
  then show ?thesis
    by (subst (1 2) nat_digits.simps) (simp add: lex_int_def digit_char_def char_of_48)
next
  case False
  then have "lex_digits1 (nat_digits n) = Some (nat_digits n, [])"
    using nat_digits_digits by (simp add: lex_digits1_Some)
  moreover obtain c ds where "nat_digits n = c # ds" "c \<noteq> CHR ''0''"
    using nat_digits_head [of n] nat_digits_digits [of n] False by (cases "nat_digits n") auto
  ultimately show ?thesis by (simp add: lex_int_def)
qed

lemma scalar_ok_itoa: "scalar_ok (itoa n)"
proof -
  have d: "list_all json_digit (nat_digits m) \<and> nat_digits m \<noteq> []" for m by (rule nat_digits_digits)
  have num: "lex_number (nat_digits m) = Some (nat_digits m, [])" for m
  proof -
    obtain c ds where c: "nat_digits m = c # ds" "json_digit c" using d [of m] by (cases "nat_digits m") auto
    then have "lex_sign (nat_digits m) = ([], nat_digits m)" by (auto simp: lex_sign_def json_digit_def)
    then show ?thesis by (simp add: lex_number_def lex_int_nat_digits lex_frac_def lex_exp_def)
  qed
  show ?thesis
  proof (cases "n < 0")
    case True
    then have "lex_number (itoa n) = Some (itoa n, [])"
      by (simp add: itoa_def lex_number_def lex_sign_def lex_int_nat_digits lex_frac_def lex_exp_def)
    with True show ?thesis by (simp add: scalar_ok_def lex_scalar_shape itoa_def)
  next
    case False
    obtain c ds where c: "nat_digits (nat n) = c # ds" "json_digit c"
      using d [of "nat n"] by (cases "nat_digits (nat n)") auto
    with False num [of "nat n"] show ?thesis
      by (auto simp: scalar_ok_def lex_scalar_shape itoa_def json_digit_def)
  qed
qed

section \<open>Written strings read back\<close>

lemma hex_digit_hex_char: "d < 16 \<Longrightarrow> hex_digit (hex_char d) = Some d"
  by (auto simp: hex_digit_def hex_char_def Let_def)

lemma hex4_byte:
  "n < 256 \<Longrightarrow> hex4 (CHR ''0'' # CHR ''0'' # hex_char (n div 16) # hex_char (n mod 16) # s) = Some n"
proof -
  assume "n < 256"
  then have "hex_digit (hex_char (n div 16)) = Some (n div 16)" "hex_digit (hex_char (n mod 16)) = Some (n mod 16)"
    by (simp_all add: hex_digit_hex_char)
  moreover have "hex_digit (CHR ''0'') = Some 0" by (simp add: hex_digit_def)
  ultimately show ?thesis by (simp add: hex4_def)
qed

text \<open>
  \<open>writes tok u\<close>: in front of any text, the token is scanned as part of the string and decodes
  to \<open>u\<close>.
\<close>

definition writes :: "bytes \<Rightarrow> bytes \<Rightarrow> bool" where
  "writes tok u = (\<forall>t. unquote (tok @ t) = (case unquote t of None \<Rightarrow> None | Some v \<Rightarrow> Some (u @ v)) \<and>
     (\<forall>raw r. lex_string t = Some (raw, r) \<longrightarrow> lex_string (tok @ t) = Some (tok @ raw, r)))"

lemma writes_Nil: "writes [] []"
  by (simp add: writes_def split: option.split)

lemma writes_append: "writes a u \<Longrightarrow> writes b v \<Longrightarrow> writes (a @ b) (u @ v)"
  by (simp add: writes_def split: option.split)

lemma writes_string_ok: "writes tok u \<Longrightarrow> string_ok tok"
  unfolding writes_def string_ok_def by (drule spec [of _ "[CHR 0x22]"]) simp

lemma writes_unquoted: "writes tok u \<Longrightarrow> unquoted tok = u"
  unfolding writes_def unquoted_def
  by (metis append.right_neutral option.simps(5) unquote.simps(1))

lemma writes_plain:
  assumes "byte c < 0x80" "c \<noteq> CHR 0x5C" "c \<noteq> CHR 0x22" "0x20 \<le> byte c"
  shows "writes [c] [c]"
  using assms by (auto simp: writes_def unquote_plain split: option.split)

lemma writes_high_bytes:
  assumes "list_all high ds" "lex_string t = Some (raw, r)"
  shows "lex_string (ds @ t) = Some (ds @ raw, r)"
  using assms(1)
proof (induction ds)
  case Nil
  with assms(2) show ?case by simp
next
  case (Cons d ds)
  then show ?case using high_not_special [of d] by simp
qed

lemma writes_rune:
  assumes "valid_rune r" "0x80 \<le> r"
  shows "writes (encode_rune r) (encode_rune r)"
proof -
  have high: "list_all high (encode_rune r)"
    using assms by (auto simp: encode_rune_def valid_rune_def split: if_splits)
  obtain c s where c: "encode_rune r = c # s" by (cases "encode_rune r") auto
  have "unquote (encode_rune r @ t) = map_option ((@) (encode_rune r)) (unquote t)" for t
  proof -
    have d: "decode_rune (encode_rune r @ t) = (r, length (encode_rune r))"
      by (rule decode_encode_rune [OF assms(1)])
    have "unquote (encode_rune r @ t) = map_option ((@) (encode_rune (fst (decode_rune (encode_rune r @ t)))))
        (unquote (drop (snd (decode_rune (encode_rune r @ t))) (encode_rune r @ t)))"
      unfolding c append_Cons by (rule unquote_multibyte) (use high c in simp)
    then show ?thesis by (simp add: d)
  qed
  with high show ?thesis by (auto simp: writes_def writes_high_bytes split: option.split)
qed

lemma writes_u:
  assumes "length h = 4" "hex4 h = Some r" "\<not> utf16_IsSurrogate r"
  shows "writes (CHR 0x5C # CHR ''u'' # h) (encode_rune r)"
proof -
  obtain a b c d where h: "h = [a, b, c, d]"
    using assms(1) by (auto simp: numeral_eq_Suc length_Suc_conv)
  have hex: "hex_digit a \<noteq> None" "hex_digit b \<noteq> None" "hex_digit c \<noteq> None" "hex_digit d \<noteq> None"
    using assms(2) by (auto simp: h hex4_def split: option.splits)
  have e: "escape_len (CHR ''u'' # h @ t) = Some 5" for t
    using hex by (auto simp: escape_len_def h)
  have "hex4 (h @ t) = Some r" for t using assms(2) by (simp add: hex4_def h)
  then have u: "unquote_u (h @ t) = Some (r, 4)" for t
    using assms(3) by (simp add: unquote_u_def)
  have "unquote ((CHR 0x5C # CHR ''u'' # h) @ t) = map_option ((@) (encode_rune r)) (unquote t)" for t
    using u [of t] by (simp add: unquote.simps(2) h)
  moreover have "lex_string ((CHR 0x5C # CHR ''u'' # h) @ t) = Some ((CHR 0x5C # CHR ''u'' # h) @ raw, q)"
    if "lex_string t = Some (raw, q)" for t raw q
    using that e [of t] by (simp add: h)
  ultimately show ?thesis by (auto simp: writes_def split: option.split)
qed

lemma writes_escape:
  assumes "e \<in> set [CHR 0x22, CHR 0x5C, CHR ''/'', CHR ''b'', CHR ''f'', CHR ''n'', CHR ''r'', CHR ''t'']"
    "simple_escape e = Some x"
  shows "writes [CHR 0x5C, e] [x]"
proof -
  have "e \<noteq> CHR ''u''" using assms(1) by auto
  then have "unquote ([CHR 0x5C, e] @ t) = (case unquote t of None \<Rightarrow> None | Some v \<Rightarrow> Some ([x] @ v))" for t
    using assms(2) by (simp add: unquote.simps(2) split: option.split)
  moreover have "escape_len (e # t) = Some 1" for t
    using assms(1) by (simp add: escape_len_def)
  ultimately show ?thesis by (simp add: writes_def)
qed

lemma encode_rune_byte: "byte c < 0x80 \<Longrightarrow> encode_rune (byte c) = [c]"
  by (simp add: encode_rune_def)

lemma writes_byte_u:
  assumes "byte c < 0x80"
  shows "writes ([CHR 0x5C, CHR ''u'', CHR ''0'', CHR ''0'', hex_char (byte c div 16), hex_char (byte c mod 16)]) [c]"
proof -
  have "writes (CHR 0x5C # CHR ''u'' # [CHR ''0'', CHR ''0'', hex_char (byte c div 16), hex_char (byte c mod 16)])
      (encode_rune (byte c))"
    using assms hex4_byte [of "byte c" "[]"] by (intro writes_u) (auto simp: utf16_IsSurrogate_def)
  then show ?thesis using assms by (simp add: encode_rune_byte)
qed

lemma writes_escape_byte:
  assumes "byte c < 0x80"
  shows "writes (case escape_byte c of Some e \<Rightarrow> e | None \<Rightarrow> [c]) [c]"
proof (cases "escape_byte c")
  case None
  then have "c \<noteq> CHR 0x22" "c \<noteq> CHR 0x5C" "0x20 \<le> byte c"
    by (auto simp: escape_byte_def split: if_split_asm)
  with None assms show ?thesis by (simp add: writes_plain)
next
  case (Some e)
  show ?thesis
  proof (cases "c \<in> set [CHR 0x22, CHR 0x5C, CHR 0x08, CHR 0x0C, CHR 0x0A, CHR 0x0D, CHR 0x09]")
    case True
    then consider "c = CHR 0x22" | "c = CHR 0x5C" | "c = CHR 0x08" | "c = CHR 0x0C" | "c = CHR 0x0A"
      | "c = CHR 0x0D" | "c = CHR 0x09" by auto
    then show ?thesis by cases (simp_all add: escape_byte_def simple_escape_def writes_escape)
  next
    case False
    with Some have "e = [CHR 0x5C, CHR ''u'', CHR ''0'', CHR ''0'', hex_char (byte c div 16), hex_char (byte c mod 16)]"
      by (auto simp: escape_byte_def split: if_split_asm)
    with assms Some show ?thesis by (simp add: writes_byte_u)
  qed
qed

lemma writes_escape_with:
  assumes "\<And>c. byte c < 0x80 \<Longrightarrow> writes (case esc c of Some e \<Rightarrow> e | None \<Rightarrow> [c]) [c]"
  shows "utf8_Valid s \<Longrightarrow> writes (escape_with esc s) s"
  using assms
proof (induction esc s rule: escape_with.induct)
  case (1 esc)
  show ?case by (simp add: writes_Nil)
next
  case (2 esc c s)
  show ?case
  proof (cases "byte c < 0x80")
    case True
    then have "writes (escape_with esc s) s" using 2 by (simp add: utf8_Valid_ascii_Cons)
    with writes_append [OF "2.prems"(2) [OF True], of "escape_with esc s" s] True
    show ?thesis by (simp add: escape_with.simps(2))
  next
    case False
    obtain r n where d: "decode_rune (c # s) = (r, n)" by fastforce
    with "2.prems"(1) have v: "(r, n) \<noteq> (RuneError, 1)" "utf8_Valid (drop n (c # s))"
      by (auto simp: utf8_Valid_Cons)
    have ih: "writes (escape_with esc (drop n (c # s))) (drop n (c # s))"
      using "2.IH"(2) [OF False d [symmetric] refl] v(2) "2.prems"(2) by simp
    have e: "encode_rune r = take n (c # s)" using encode_decode_rune [OF d v(1)] by simp
    have valid: "valid_rune r" using decode_rune_valid [of "c # s"] d by simp
    have big: "0x80 \<le> r"
    proof (rule ccontr)
      assume "\<not> 0x80 \<le> r"
      then have "take n (c # s) = [char_of r]" using e by (simp add: encode_rune_def)
      moreover have "0 < n" using decode_rune_size_pos [of "c # s"] d by simp
      ultimately have "c = char_of r" by (cases n) auto
      with \<open>\<not> 0x80 \<le> r\<close> False show False by simp
    qed
    have u: "writes ([CHR 0x5C] @ ''u2028'') (encode_rune 0x2028)" "writes ([CHR 0x5C] @ ''u2029'') (encode_rune 0x2029)"
      using writes_u [of "''2028''" "0x2028"] writes_u [of "''2029''" "0x2029"]
      by (simp_all add: hex4_def hex_digit_def utf16_IsSurrogate_def)
    have "writes (if r = RuneError \<and> n = 1 then [CHR 0x5C] @ ''ufffd''
         else if r = 0x2028 then [CHR 0x5C] @ ''u2028''
         else if r = 0x2029 then [CHR 0x5C] @ ''u2029''
         else take n (c # s)) (take n (c # s))"
      using v(1) u writes_rune [OF valid big] by (auto simp: e [symmetric])
    from writes_append [OF this ih] False show ?thesis
      by (simp add: escape_with.simps(2) d)
  qed
qed

lemma writes_escape_string: "utf8_Valid s \<Longrightarrow> writes (escape_string s) s"
  unfolding escape_string_def by (rule writes_escape_with [OF writes_escape_byte])

lemma marshal_string_wf: "utf8_Valid s \<Longrightarrow> wf_json (marshal_string s)"
  by (simp add: marshal_string_def writes_string_ok [OF writes_escape_string])

lemma marshal_string_value: "utf8_Valid s \<Longrightarrow> unquoted (escape_string s) = s"
  by (rule writes_unquoted [OF writes_escape_string])

section \<open>Compacting keeps what strings mean\<close>

definition special_byte :: "char \<Rightarrow> bool" where
  "special_byte c = (c = CHR ''<'' \<or> c = CHR ''>'' \<or> c = CHR ''&'' \<or> c = CHR 0xE2)"

lemma html_escape_plain: "\<not> special_byte c \<Longrightarrow> html_escape (c # s) = c # html_escape s"
  by (auto simp: html_escape.simps(2) special_byte_def split: list.split)

lemma html_escape_plains: "list_all (\<lambda>c. \<not> special_byte c) ds \<Longrightarrow> html_escape (ds @ s) = ds @ html_escape s"
  by (induction ds) (simp_all add: html_escape_plain)

lemma html_escape_cases:
  obtains (plain) "html_escape (c # s) = c # html_escape s"
  | (html) "c = CHR ''<'' \<or> c = CHR ''>'' \<or> c = CHR ''&''"
      "html_escape (c # s) = [CHR 0x5C, CHR ''u'', CHR ''0'', CHR ''0'', hex_char (byte c div 16),
         hex_char (byte c mod 16)] @ html_escape s"
  | (sep) y t where "s = CHR 0x80 # y # t" "c = CHR 0xE2" "y = CHR 0xA8 \<or> y = CHR 0xA9"
      "html_escape (c # s) = (CHR 0x5C # ''u202'' @ [hex_char (byte y mod 16)]) @ html_escape t"
proof (cases "c = CHR ''<'' \<or> c = CHR ''>'' \<or> c = CHR ''&''")
  case True
  then show ?thesis by (intro html) (simp_all add: html_escape.simps(2))
next
  case False
  show ?thesis
  proof (cases "\<exists>y t. s = CHR 0x80 # y # t \<and> c = CHR 0xE2 \<and> (y = CHR 0xA8 \<or> y = CHR 0xA9)")
    case True
    then obtain y t where "s = CHR 0x80 # y # t" "c = CHR 0xE2" "y = CHR 0xA8 \<or> y = CHR 0xA9" by blast
    then show ?thesis by (intro sep [of y t]) (simp_all add: html_escape.simps(2))
  next
    case no: False
    have "html_escape (c # s) = c # html_escape s"
    proof (cases s)
      case Nil
      with False show ?thesis by (simp add: html_escape.simps(2))
    next
      case (Cons x u)
      with False no show ?thesis by (cases u) (auto simp: html_escape.simps(2))
    qed
    then show ?thesis by (rule plain)
  qed
qed

lemma html_escape_high_prefix:
  "html_escape s = ds @ q \<Longrightarrow> list_all high ds \<Longrightarrow> \<exists>q'. s = ds @ q'"
proof (induction ds arbitrary: s)
  case (Cons d ds)
  then obtain x t where s: "s = x # t" by (cases s) auto
  show ?case
  proof (cases rule: html_escape_cases [of x t])
    case plain
    then have "d = x" "html_escape t = ds @ q" using Cons.prems(1) s by auto
    with Cons.IH [of t] Cons.prems(2) s show ?thesis by auto
  qed (use Cons.prems s in auto)
qed simp

lemma decode_rune_html_escape:
  assumes "high c" "decode_rune (c # s) = (RuneError, 1)"
  shows "decode_rune (c # html_escape s) = (RuneError, 1)"
proof (rule ccontr)
  assume n: "decode_rune (c # html_escape s) \<noteq> (RuneError, 1)"
  obtain r n where d: "decode_rune (c # html_escape s) = (r, n)" by fastforce
  with n have e: "encode_rune r = take n (c # html_escape s)" using encode_decode_rune by fastforce
  have v: "valid_rune r" using decode_rune_valid [of "c # html_escape s"] d by simp
  obtain ds where ds: "encode_rune r = c # ds"
    using e decode_rune_size_pos [of "c # html_escape s"] d by (cases n) auto
  have "list_all high (c # ds)"
    using decode_rune_high [OF assms(1), of "html_escape s"] d e ds by simp
  moreover have "c # html_escape s = encode_rune r @ drop n (c # html_escape s)" using e by simp
  then have "html_escape s = ds @ drop n (c # html_escape s)" using ds by simp
  ultimately obtain q' where "s = ds @ q'"
    using html_escape_high_prefix [of s ds "drop n (c # html_escape s)"] by auto
  then have "c # s = encode_rune r @ q'" using ds by simp
  then have "decode_rune (c # s) = (r, length (encode_rune r))" using decode_encode_rune [OF v] by simp
  with assms(2) have "r = RuneError" "length (encode_rune r) = 1" by auto
  then show False by (simp add: encode_RuneError)
qed

lemma rune_div_mod: "r = r div 4096 * 4096 + r div 64 mod 64 * 64 + r mod (64 :: nat)"
proof -
  have "r div 4096 = r div 64 div 64" by (simp add: div_mult2_eq [symmetric])
  moreover have "r = r div 64 * 64 + r mod 64" "r div 64 = r div 64 div 64 * 64 + r div 64 mod 64"
    by (simp_all only: div_mult_mod_eq)
  ultimately show ?thesis by linarith
qed

lemma special_byte_code: "special_byte c \<Longrightarrow> byte c \<in> {38, 60, 62, 226}"
  by (auto simp: special_byte_def)

lemma html_escape_rune:
  assumes "valid_rune r" "0x80 \<le> r" "r \<noteq> 0x2028" "r \<noteq> 0x2029"
  shows "html_escape (encode_rune r @ t) = encode_rune r @ html_escape t"
proof -
  have cont: "\<not> special_byte (char_of (0x80 + x mod 64))" for x :: nat
  proof -
    have "x mod 64 < 64" by simp
    then have "byte (char_of (0x80 + x mod 64)) = 0x80 + x mod 64" by simp
    with \<open>x mod 64 < 64\<close> special_byte_code [of "char_of (0x80 + x mod 64)"] show ?thesis by auto
  qed
  consider (two) "r < 0x800" | (three) "0x800 \<le> r" "r < 0x10000" | (four) "0x10000 \<le> r" by linarith
  then show ?thesis
  proof cases
    case two
    then have "byte (char_of (0xC0 + r div 64)) = 0xC0 + r div 64" "r div 64 < 0x20" by simp_all
    then have "\<not> special_byte (char_of (0xC0 + r div 64))"
      using special_byte_code [of "char_of (0xC0 + r div 64)"] by auto
    with two assms(2) cont [of r] show ?thesis by (simp add: encode_rune_def html_escape_plain)
  next
    case four
    with assms(1) have "r div 262144 \<le> 4" by (auto simp: valid_rune_def)
    then have "byte (char_of (0xF0 + r div 262144)) = 0xF0 + r div 262144" by simp
    then have "\<not> special_byte (char_of (0xF0 + r div 262144))"
      using special_byte_code [of "char_of (0xF0 + r div 262144)"] by auto
    with four assms(1) cont show ?thesis by (simp add: encode_rune_def html_escape_plain)
  next
    case three
    define a b d where "a = char_of (0xE0 + r div 4096)" and "b = char_of (0x80 + r div 64 mod 64)"
      and "d = char_of (0x80 + r mod 64)"
    have "byte a = 0xE0 + r div 4096" "byte b = 0x80 + r div 64 mod 64" "byte d = 0x80 + r mod 64"
      using three by (simp_all add: a_def b_def d_def)
    have enc: "encode_rune r = [a, b, d]"
      using three assms(1) by (simp add: encode_rune_def a_def b_def d_def)
    have p: "\<not> special_byte b" "\<not> special_byte d" using cont by (simp_all add: b_def d_def)
    show ?thesis
    proof (cases rule: html_escape_cases [of a "b # d # t"])
      case plain
      with p enc show ?thesis by (simp add: html_escape_plain)
    next
      case html
      then have "byte a < 0x80" by auto
      with \<open>byte a = _\<close> show ?thesis by simp
    next
      case (sep y t')
      then have "byte a = 0xE2" "byte b = 0x80" "byte d = 0xA8 \<or> byte d = 0xA9" by auto
      then have "r div 4096 = 2" "r div 64 mod 64 = 0" "r mod 64 = 0x28 \<or> r mod 64 = 0x29"
        using \<open>byte a = 0xE0 + _\<close> \<open>byte b = 0x80 + _\<close> \<open>byte d = 0x80 + _\<close> by auto
      moreover have "r = r div 4096 * 4096 + r div 64 mod 64 * 64 + r mod 64"
        by (rule rune_div_mod)
      ultimately show ?thesis using assms(3,4) by auto
    qed
  qed
qed

text \<open>The code unit escaping writes is never the low half of a surrogate pair.\<close>

lemma hex_not_special: "hex_digit h \<noteq> None \<Longrightarrow> \<not> special_byte h"
  by (auto simp: hex_digit_def special_byte_def)

lemma hex4_shape:
  assumes "hex4 s \<noteq> None"
  obtains ds t where "s = ds @ t" "length ds = 4" "list_all (\<lambda>c. \<not> special_byte c) ds"
    "\<And>t'. hex4 (ds @ t') = hex4 s"
proof -
  from assms obtain a b c d t where s: "s = a # b # c # d # t"
    and h: "hex_digit a \<noteq> None" "hex_digit b \<noteq> None" "hex_digit c \<noteq> None" "hex_digit d \<noteq> None"
    by (auto simp: hex4_def split: list.splits option.splits)
  then show ?thesis
    by (intro that [of "[a, b, c, d]" t]) (auto simp: hex_not_special hex4_def)
qed

lemma getu4_html_escape:
  assumes "string_ok t"
  shows "getu4 (html_escape t) = getu4 t \<or>
    (getu4 t = None \<and> (\<exists>r2. getu4 (html_escape t) = Some r2 \<and> \<not> utf16_IsSurrogate r2))"
proof (cases t)
  case Nil
  then show ?thesis by simp
next
  case (Cons c s)
  show ?thesis
  proof (cases rule: html_escape_cases [of c s])
    case plain
    show ?thesis
    proof (cases "c = CHR 0x5C")
      case False
      with plain Cons show ?thesis by (auto simp: getu4_def split: list.splits)
    next
      case True
      with assms Cons obtain n where n: "escape_len s = Some n" by (metis string_ok_escape)
      from n show ?thesis
      proof (cases rule: escape_len_cases)
        case (1 e s')
        have ne: "e \<noteq> CHR ''<''" "e \<noteq> CHR ''>''" "e \<noteq> CHR ''&''" "e \<noteq> CHR 0xE2"
          using 1 by (auto simp: simple_escape_def)
        then have "html_escape s = e # html_escape s'"
          using 1 by (simp add: html_escape_plain special_byte_def)
        with 1 plain True Cons show ?thesis by (simp add: getu4_def)
      next
        case (2 s')
        then obtain ds u where ds: "s' = ds @ u" "list_all (\<lambda>c. \<not> special_byte c) ds"
          "\<And>t'. hex4 (ds @ t') = hex4 s'"
          using hex4_shape by metis
        have "html_escape s = CHR ''u'' # ds @ html_escape u"
          using 2(1) ds(1,2) by (simp add: html_escape_plain html_escape_plains special_byte_def)
        then have "getu4 (html_escape t) = hex4 s'"
          using plain True Cons ds(3) [of "html_escape u"] by (simp add: getu4_def)
        moreover have "getu4 t = hex4 s'" using 2(1) True Cons by (simp add: getu4_def)
        ultimately show ?thesis by simp
      qed
    qed
  next
    case html
    then have "byte c < 0x80" by auto
    then have "getu4 (html_escape t) = Some (byte c)"
      using html Cons hex4_byte [of "byte c" "html_escape s"] by (simp add: getu4_def)
    moreover have "getu4 t = None" using html Cons by (auto simp: getu4_def split: list.splits)
    ultimately show ?thesis using \<open>byte c < 0x80\<close> by (auto simp: utf16_IsSurrogate_def)
  next
    case (sep y u)
    have two_zero: "hex_digit (CHR ''2'') = Some 2" "hex_digit (CHR ''0'') = Some 0" by (simp_all add: hex_digit_def)
    have "byte y mod 16 < 16" by simp
    then have "hex4 (CHR ''2'' # CHR ''0'' # CHR ''2'' # hex_char (byte y mod 16) # html_escape u) = Some (0x2020 + byte y mod 16)"
      by (simp add: hex4_def hex_digit_hex_char two_zero)
    then have "getu4 (html_escape t) = Some (0x2020 + byte y mod 16)"
      using sep Cons by (simp add: getu4_def)
    moreover have "getu4 t = None" using sep Cons by (auto simp: getu4_def split: list.splits)
    moreover have "\<not> utf16_IsSurrogate (0x2020 + byte y mod 16)"
      using \<open>byte y mod 16 < 16\<close> by (auto simp: utf16_IsSurrogate_def)
    ultimately show ?thesis by blast
  qed
qed

lemma writes_unquote: "writes tok u \<Longrightarrow> unquote (tok @ t) = (case unquote t of None \<Rightarrow> None | Some v \<Rightarrow> Some (u @ v))"
  by (simp add: writes_def)

lemma writes_ok: "writes tok u \<Longrightarrow> string_ok t \<Longrightarrow> string_ok (tok @ t)"
  by (simp add: writes_def string_ok_def)

lemma unquote_u_html_escape:
  assumes "hex4 s \<noteq> None" "string_ok (drop 4 s)" "length ds = 4" "s = ds @ t" "\<And>t'. hex4 (ds @ t') = hex4 s"
  shows "unquote_u (ds @ html_escape t) = unquote_u s"
proof -
  have d: "drop 4 s = t" "drop 4 (ds @ html_escape t) = html_escape t" using assms(3,4) by simp_all
  have h: "hex4 (ds @ html_escape t) = hex4 s" by (rule assms(5))
  have "string_ok t" using assms(2) d(1) by simp
  from getu4_html_escape [OF this] show ?thesis
  proof
    assume g: "getu4 (html_escape t) = getu4 t"
    show ?thesis unfolding unquote_u_def h d g by (rule refl)
  next
    assume "getu4 t = None \<and> (\<exists>r2. getu4 (html_escape t) = Some r2 \<and> \<not> utf16_IsSurrogate r2)"
    then obtain r2 where "getu4 t = None" "getu4 (html_escape t) = Some r2" "\<not> utf16_IsSurrogate r2" by blast
    moreover from this(3) have "utf16_DecodeRune r r2 = None" for r
      by (auto simp: utf16_DecodeRune_def utf16_IsSurrogate_def)
    ultimately show ?thesis unfolding unquote_u_def h d by (simp split: option.split)
  qed
qed

lemma html_escape_getu4_drop:
  assumes "string_ok t" "getu4 t = Some r"
  shows "drop 6 (html_escape t) = html_escape (drop 6 t)"
proof -
  from assms(2) obtain s where t: "t = CHR 0x5C # CHR ''u'' # s" "hex4 s \<noteq> None"
    by (auto simp: getu4_def split: list.splits if_splits)
  then obtain ds u where "s = ds @ u" "length ds = 4" "list_all (\<lambda>c. \<not> special_byte c) ds"
    using hex4_shape by metis
  with t show ?thesis
    by (simp add: html_escape_plain html_escape_plains special_byte_def numeral_eq_Suc length_Suc_conv) force
qed

lemma separator_bytes:
  "encode_rune 0x2028 = [CHR 0xE2, CHR 0x80, CHR 0xA8]" "encode_rune 0x2029 = [CHR 0xE2, CHR 0x80, CHR 0xA9]"
proof -
  have "char_of (226 :: nat) = CHR 0xE2" "char_of (128 :: nat) = CHR 0x80" "char_of (168 :: nat) = CHR 0xA8"
    "char_of (169 :: nat) = CHR 0xA9"
    using char_of_byte [of "CHR 0xE2"] char_of_byte [of "CHR 0x80"] char_of_byte [of "CHR 0xA8"]
      char_of_byte [of "CHR 0xA9"]
    by (simp_all del: char_of_byte char_of_char)
  then show "encode_rune 0x2028 = [CHR 0xE2, CHR 0x80, CHR 0xA8]"
    "encode_rune 0x2029 = [CHR 0xE2, CHR 0x80, CHR 0xA9]"
    by (simp_all add: encode_rune_def valid_rune_def)
qed

lemma html_escape_separator:
  assumes "r = 0x2028 \<or> r = 0x2029"
  shows "\<exists>tok. writes tok (encode_rune r) \<and> html_escape (encode_rune r @ t) = tok @ html_escape t"
proof -
  have h: "hex_char 8 = CHR ''8''" "hex_char 9 = CHR ''9''"
    using char_of_byte [of "CHR ''8''"] char_of_byte [of "CHR ''9''"]
    by (simp_all add: hex_char_def del: char_of_byte char_of_char)
  have "writes (CHR 0x5C # CHR ''u'' # ''2028'') (encode_rune 0x2028)"
    "writes (CHR 0x5C # CHR ''u'' # ''2029'') (encode_rune 0x2029)"
    using writes_u [of "''2028''" "0x2028"] writes_u [of "''2029''" "0x2029"]
    by (simp_all add: hex4_def hex_digit_def utf16_IsSurrogate_def)
  moreover have "html_escape (encode_rune 0x2028 @ t) = (CHR 0x5C # CHR ''u'' # ''2028'') @ html_escape t"
    "html_escape (encode_rune 0x2029 @ t) = (CHR 0x5C # CHR ''u'' # ''2029'') @ html_escape t"
    by (simp_all add: separator_bytes html_escape.simps(2) h)
  ultimately show ?thesis using assms by metis
qed

lemma html_escape_ok:
  "string_ok s \<Longrightarrow> string_ok (html_escape s) \<and> unquote (html_escape s) = unquote s"
proof (induction "length s" arbitrary: s rule: less_induct)
  case less
  show ?case
  proof (cases s)
    case (Cons c t)
    note IH = less.hyps
    consider (esc) "c = CHR 0x5C" | (plain) "c \<noteq> CHR 0x5C" "byte c < 0x80" | (high) "high c"
      by fastforce
    then show ?thesis
    proof cases
      case esc
      with less.prems Cons obtain n where n: "escape_len t = Some n" "string_ok (drop n t)"
        by (metis string_ok_escape)
      from n(1) show ?thesis
      proof (cases rule: escape_len_cases)
        case (1 e t')
        then have ih: "string_ok (html_escape t')" "unquote (html_escape t') = unquote t'"
          using IH [of t'] n(2) Cons by simp_all
        have e: "\<not> special_byte e" "\<not> special_byte c" using 1(4) esc by (auto simp: simple_escape_def special_byte_def)
        obtain x where x: "simple_escape e = Some x" using 1(4) by blast
        have "escape_len (e # w) = Some 1" for w using n(1) 1 by (auto simp: escape_len_def split: if_splits)
        then have "string_ok (c # e # html_escape t')" using ih(1) esc by (simp add: string_ok_def)
        then show ?thesis using e 1 Cons esc ih x
          by (simp add: html_escape_plain unquote.simps(2))
      next
        case (2 t')
        with n(2) have ok: "string_ok (drop 4 t')" by (simp add: numeral_eq_Suc)
        obtain ds u where ds: "t' = ds @ u" "length ds = 4" "list_all (\<lambda>c. \<not> special_byte c) ds"
          "\<And>x. hex4 (ds @ x) = hex4 t'" using hex4_shape [OF 2(3)] by metis
        have hs: "html_escape s = c # CHR ''u'' # ds @ html_escape u"
          using Cons 2(1) ds(1,3) esc by (simp add: html_escape_plain html_escape_plains special_byte_def)
        have u: "unquote_u (ds @ html_escape u) = unquote_u t'"
          by (rule unquote_u_html_escape [OF 2(3) ok ds(2,1,4)])
        have ihu: "string_ok (html_escape u)" using IH [of u] ok ds(1,2) Cons 2 by simp
        have el: "escape_len (CHR ''u'' # ds @ w) = Some 5" for w
        proof -
          have "hex4 (ds @ w) \<noteq> None" using ds(4) 2(3) by simp
          then obtain a b c' d where "ds = [a, b, c', d]" "hex_digit a \<noteq> None" "hex_digit b \<noteq> None"
            "hex_digit c' \<noteq> None" "hex_digit d \<noteq> None"
            using ds(2) by (auto simp: hex4_def numeral_eq_Suc length_Suc_conv split: option.splits)
          then show ?thesis by (simp add: escape_len_def)
        qed
        have "string_ok (html_escape s)"
          using ihu el [of "html_escape u @ [CHR 0x22]"] ds(2) esc unfolding hs by (simp add: string_ok_def)
        moreover obtain r m where rm: "unquote_u t' = Some (r, m)" "string_ok (drop m t')"
          using unquote_u_ok [OF 2(3) ok] by blast
        have "unquote (drop m (ds @ html_escape u)) = unquote (drop m t')"
        proof (cases "m = 4")
          case True
          then show ?thesis using IH [of u] ok ds(1,2) Cons 2 by simp
        next
          case False
          with rm(1) have m: "m = 10" "getu4 u \<noteq> None"
            using ds(1,2) by (auto simp: unquote_u_def split: option.splits if_splits)
          have "string_ok u" using ok ds(1,2) by simp
          with m(2) have "drop 6 (html_escape u) = html_escape (drop 6 u)" using html_escape_getu4_drop by blast
          moreover have "string_ok (drop 6 u)" using rm(2) m(1) ds(1,2) by simp
          ultimately show ?thesis using IH [of "drop 6 u"] m(1) ds(1,2) Cons 2 by simp
        qed
        ultimately show ?thesis using u rm(1) esc Cons 2 unfolding hs by (simp add: unquote.simps(2))
      qed
    next
      case plain
      with less.prems Cons have c: "c \<noteq> CHR 0x22" "\<not> byte c < 0x20" and ok: "string_ok t"
        by (simp_all add: string_ok_plain)
      have ih: "string_ok (html_escape t)" "unquote (html_escape t) = unquote t" using IH [of t] ok Cons by simp_all
      have w: "writes [c] [c]" using plain c by (simp add: writes_plain)
      show ?thesis
      proof (cases rule: html_escape_cases [of c t])
        case p: plain
        with writes_ok [OF w ih(1)] writes_unquote [OF w, of "html_escape t"] writes_unquote [OF w, of t] ih(2) Cons
        show ?thesis by simp
      next
        case html
        from writes_ok [OF writes_byte_u ih(1)] writes_unquote [OF writes_byte_u, of c "html_escape t"]
          writes_unquote [OF w, of t] ih(2) plain(2) html(2) Cons
        show ?thesis by simp
      next
        case (sep y u)
        with plain(2) show ?thesis by auto
      qed
    next
      case high
      obtain r n where d: "decode_rune (c # t) = (r, n)" by fastforce
      have rest: "string_ok (drop n s)"
        using string_ok_drop_high [OF decode_rune_high [OF high], of t "drop n s"] d less.prems Cons by simp
      have pos: "0 < n" using decode_rune_size_pos [of "c # t"] d by simp
      then have ih: "string_ok (html_escape (drop n s))" "unquote (html_escape (drop n s)) = unquote (drop n s)"
        using IH [OF _ rest] Cons by simp_all
      show ?thesis
      proof (cases "(r, n) = (RuneError, 1)")
        case True
        have hs: "html_escape s = c # html_escape t"
        proof (cases rule: html_escape_cases [of c t])
          case plain
          with Cons show ?thesis by simp
        next
          case html
          with high show ?thesis by auto
        next
          case (sep y u)
          then have "decode_rune (c # t) \<noteq> (RuneError, 1)"
            by (auto simp: decode_rune.simps utf8_cont_def)
          with True d show ?thesis by simp
        qed
        have "decode_rune (c # html_escape t) = (RuneError, 1)"
          using decode_rune_html_escape [OF high] True d by simp
        then have "unquote (html_escape s) = unquote s"
          using high ih(2) True d Cons hs by (simp add: unquote_multibyte)
        moreover have "string_ok (html_escape s)"
          using ih(1) True Cons hs high high_not_special [OF high] by (simp add: string_ok_plain)
        ultimately show ?thesis by blast
      next
        case False
        have e: "encode_rune r = take n s" using encode_decode_rune [OF d False] Cons by simp
        have v: "valid_rune r" using decode_rune_valid [of "c # t"] d by simp
        have s: "s = encode_rune r @ drop n s" using e by simp
        have big: "0x80 \<le> r"
        proof (rule ccontr)
          assume "\<not> 0x80 \<le> r"
          then have "take n s = [char_of r]" using e by (simp add: encode_rune_def)
          then have "c = char_of r" using Cons pos by (cases n) auto
          with \<open>\<not> 0x80 \<le> r\<close> high show False by simp
        qed
        note w = writes_rune [OF v big]
        obtain tok where tok: "writes tok (encode_rune r)" "html_escape s = tok @ html_escape (drop n s)"
        proof (cases "r = 0x2028 \<or> r = 0x2029")
          case True
          then show ?thesis using html_escape_separator [of r "drop n s"] s that by metis
        next
          case False
          then show ?thesis using html_escape_rune [OF v big, of "drop n s"] s w that by metis
        qed
        have "unquote s = (case unquote (drop n s) of None \<Rightarrow> None | Some x \<Rightarrow> Some (encode_rune r @ x))"
          using writes_unquote [OF w, of "drop n s"] s by simp
        then show ?thesis
          using writes_ok [OF tok(1) ih(1)] writes_unquote [OF tok(1), of "html_escape (drop n s)"] tok(2) ih(2)
          by simp
      qed
    qed
  qed (use less.prems in simp)
qed

lemma html_escape_unquoted: "string_ok s \<Longrightarrow> unquoted (html_escape s) = unquoted s"
  by (simp add: unquoted_def html_escape_ok)

lemma compact_wf:
  "wf_json v \<Longrightarrow> wf_json (compact v)"
  "wf_items is \<Longrightarrow> wf_items (compact_items is)"
  "wf_members ms \<Longrightarrow> wf_members (compact_members ms)"
  by (induction v and "is" and ms) (simp_all add: html_escape_ok)

lemma compact_depth [simp]:
  "jdepth (compact v) = jdepth v"
  "jdepth_items (compact_items is) = jdepth_items is"
  "jdepth_members (compact_members ms) = jdepth_members ms"
  by (induction v and "is" and ms) simp_all

lemma members_list_compact:
  "wf_members ms \<Longrightarrow> members_list (compact_members ms) = map (\<lambda>(k, v). (k, compact v)) (members_list ms)"
  by (induction ms rule: members_list.induct) (simp_all add: html_escape_unquoted)

section \<open>Built objects\<close>

lemma mk_members_wf:
  "list_all (\<lambda>(k, v). string_ok k \<and> wf_json v) kvs \<Longrightarrow> wf_members (mk_members kvs)"
  by (induction kvs rule: mk_members.induct) simp_all

lemma mk_members_list: "members_list (mk_members kvs) = map (\<lambda>(k, v). (unquoted k, v)) kvs"
  by (induction kvs rule: mk_members.induct) simp_all

lemma mk_members_depth: "jdepth_members (mk_members kvs) = foldr (\<lambda>(k, v) d. max (jdepth v) d) kvs 0"
  by (induction kvs rule: mk_members.induct) simp_all

lemma json_parse_mk_object:
  assumes "list_all (\<lambda>(k, v). string_ok k \<and> wf_json v \<and> jdepth v < maxNestingDepth) kvs"
  shows "json_parse (render (mk_object kvs)) = Some (mk_object kvs)"
proof (rule json_parse_render)
  have "list_all (\<lambda>(k, v). string_ok k \<and> wf_json v) kvs" using assms by (auto simp: list_all_iff)
  then show "wf_json (mk_object kvs)" by (simp add: mk_object_def mk_members_wf)
  have "foldr (\<lambda>(k, v) d. max (jdepth v) d) kvs 0 < maxNestingDepth"
    using assms by (induction kvs) (auto simp: maxNestingDepth_def)
  then show "jdepth (mk_object kvs) \<le> maxNestingDepth" by (simp add: mk_object_def mk_members_depth)
qed

end
