(* ===== verification/Jsonrpc.thy ===== *)
theory Jsonrpc
  imports JsonEncode CaseFold Mcpspec
begin

text \<open>
  The JSON-RPC envelope (\<open>pkg/jsonrpc\<close>).  Params, result and ids stay raw bytes; \<open>None\<close> is a nil
  \<open>json.RawMessage\<close>.  \<open>Decode\<close> follows \<open>json.Unmarshal\<close> into a struct: members are taken in
  order, a name matches a field exactly or else up to folding, a second \<open>error\<close> object is merged
  into the first.
\<close>

section \<open>Messages\<close>

definition CodeParseError :: int where "CodeParseError = -32700"
definition CodeInvalidRequest :: int where "CodeInvalidRequest = -32600"
definition CodeMethodNotFound :: int where "CodeMethodNotFound = -32601"
definition CodeInvalidParams :: int where "CodeInvalidParams = -32602"
definition CodeInternalError :: int where "CodeInternalError = -32603"

record rpc_error =
  err_code :: int
  err_message :: bytes
  err_data :: "bytes option"

record message =
  JSONRPC :: bytes
  ID :: "bytes option"
  Method :: bytes
  msg_params :: "bytes option"
  Result :: "bytes option"
  Error :: "rpc_error option"

datatype kind = KindInvalid | KindRequest | KindNotification | KindResponse

definition HasID :: "message \<Rightarrow> bool" where
  "HasID m = (case ID m of None \<Rightarrow> False | Some i \<Rightarrow> 0 < length i)"

definition Kind :: "message \<Rightarrow> kind" where
  "Kind m =
     (if Method m \<noteq> [] \<and> HasID m then KindRequest
      else if Method m \<noteq> [] then KindNotification
      else if Result m \<noteq> None \<or> Error m \<noteq> None then KindResponse
      else KindInvalid)"

definition IDKey :: "message \<Rightarrow> bytes" where
  "IDKey m = strings_TrimSpace (case ID m of None \<Rightarrow> [] | Some i \<Rightarrow> i)"

definition zero_message :: message where
  "zero_message = \<lparr>JSONRPC = [], ID = None, Method = [], msg_params = None, Result = None, Error = None\<rparr>"

section \<open>Decoding\<close>

text \<open>How \<open>encoding/json\<close> folds a member name that matches no field exactly.\<close>

definition json_foldName :: "bytes \<Rightarrow> bytes" where
  "json_foldName s =
     concat (map (\<lambda>r. encode_rune (foldl (\<lambda>lowest f. if f < lowest then f else lowest) r
       (simple_fold_orbit r))) (runes s))"

definition field_of :: "bytes list \<Rightarrow> bytes \<Rightarrow> bytes option" where
  "field_of names k =
     (if k \<in> set names then Some k else find (\<lambda>n. json_foldName n = json_foldName k) names)"

definition into_string :: "bytes \<Rightarrow> jval \<Rightarrow> unmarshal_error + bytes" where
  "into_string old v =
     (if v = json_null then Inr old
      else (case v of JString r \<Rightarrow> Inr (unquoted r) | _ \<Rightarrow> Inl UnmarshalTypeError))"

definition into_int :: "int \<Rightarrow> jval \<Rightarrow> unmarshal_error + int" where
  "into_int old v =
     (if v = json_null then Inr old
      else (case v of
              JScalar t \<Rightarrow> (case int_of_token t of Some n \<Rightarrow> Inr n | None \<Rightarrow> Inl UnmarshalTypeError)
            | _ \<Rightarrow> Inl UnmarshalTypeError))"

fun decode_error_members :: "rpc_error \<Rightarrow> (bytes \<times> jval) list \<Rightarrow> unmarshal_error + rpc_error" where
  "decode_error_members e [] = Inr e"
| "decode_error_members e ((k, v) # kvs) =
     (case field_of [''code'', ''message'', ''data''] k of
        None \<Rightarrow> decode_error_members e kvs
      | Some f \<Rightarrow>
          if f = ''code'' then
            (case into_int (err_code e) v of
               Inl x \<Rightarrow> Inl x | Inr n \<Rightarrow> decode_error_members (e\<lparr>err_code := n\<rparr>) kvs)
          else if f = ''message'' then
            (case into_string (err_message e) v of
               Inl x \<Rightarrow> Inl x | Inr s \<Rightarrow> decode_error_members (e\<lparr>err_message := s\<rparr>) kvs)
          else decode_error_members (e\<lparr>err_data := Some (render v)\<rparr>) kvs)"

definition into_error :: "rpc_error option \<Rightarrow> jval \<Rightarrow> unmarshal_error + rpc_error option" where
  "into_error old v =
     (if v = json_null then Inr None
      else (case v of
              JObject w ms \<Rightarrow>
                map_sum id Some (decode_error_members
                  (case old of Some e \<Rightarrow> e | None \<Rightarrow> \<lparr>err_code = 0, err_message = [], err_data = None\<rparr>)
                  (members_list ms))
            | _ \<Rightarrow> Inl UnmarshalTypeError))"

definition message_fields :: "bytes list" where
  "message_fields = [''jsonrpc'', ''id'', ''method'', ''params'', ''result'', ''error'']"

fun decode_members :: "message \<Rightarrow> (bytes \<times> jval) list \<Rightarrow> unmarshal_error + message" where
  "decode_members m [] = Inr m"
| "decode_members m ((k, v) # kvs) =
     (case field_of message_fields k of
        None \<Rightarrow> decode_members m kvs
      | Some f \<Rightarrow>
          if f = ''jsonrpc'' then
            (case into_string (JSONRPC m) v of
               Inl x \<Rightarrow> Inl x | Inr s \<Rightarrow> decode_members (m\<lparr>JSONRPC := s\<rparr>) kvs)
          else if f = ''id'' then decode_members (m\<lparr>ID := Some (render v)\<rparr>) kvs
          else if f = ''method'' then
            (case into_string (Method m) v of
               Inl x \<Rightarrow> Inl x | Inr s \<Rightarrow> decode_members (m\<lparr>Method := s\<rparr>) kvs)
          else if f = ''params'' then decode_members (m\<lparr>msg_params := Some (render v)\<rparr>) kvs
          else if f = ''result'' then decode_members (m\<lparr>Result := Some (render v)\<rparr>) kvs
          else
            (case into_error (Error m) v of
               Inl x \<Rightarrow> Inl x | Inr e \<Rightarrow> decode_members (m\<lparr>Error := e\<rparr>) kvs))"

definition unmarshal_message :: "bytes \<Rightarrow> unmarshal_error + message" where
  "unmarshal_message data =
     (case json_parse data of
        None \<Rightarrow> Inl SyntaxError
      | Some v \<Rightarrow>
          if v = json_null then Inr zero_message
          else (case v of
                  JObject w ms \<Rightarrow> decode_members zero_message (members_list ms)
                | _ \<Rightarrow> Inl UnmarshalTypeError))"

datatype decode_error = DecodeFailed unmarshal_error | UnsupportedVersion bytes | NoMessageKind

definition Decode :: "bytes \<Rightarrow> decode_error + message" where
  "Decode data =
     (case unmarshal_message data of
        Inl e \<Rightarrow> Inl (DecodeFailed e)
      | Inr m \<Rightarrow>
          if JSONRPC m \<noteq> ''2.0'' then Inl (UnsupportedVersion (JSONRPC m))
          else if Kind m = KindInvalid then Inl NoMessageKind
          else Inr m)"

section \<open>Building messages\<close>

text \<open>\<open>marshaled\<close> stands for what \<open>json.Marshal\<close> gave for the argument, \<open>None\<close> for a nil one.\<close>

definition NewNotification :: "bytes \<Rightarrow> bytes option \<Rightarrow> message" where
  "NewNotification method params =
     zero_message\<lparr>JSONRPC := ''2.0'', Method := method, msg_params := params\<rparr>"

definition NewResponse :: "bytes option \<Rightarrow> bytes option \<Rightarrow> message" where
  "NewResponse i result =
     zero_message\<lparr>JSONRPC := ''2.0'', ID := i,
       Result := Some (case result of None \<Rightarrow> ''{}'' | Some r \<Rightarrow> r)\<rparr>"

definition NewErrorResponse :: "bytes option \<Rightarrow> int \<Rightarrow> bytes \<Rightarrow> bytes option \<Rightarrow> message" where
  "NewErrorResponse i code msg marshaled =
     zero_message\<lparr>JSONRPC := ''2.0'', ID := Some (case i of None \<Rightarrow> ''null'' | Some r \<Rightarrow> r),
       Error := Some \<lparr>err_code = code, err_message = msg, err_data = marshaled\<rparr>\<rparr>"

definition NewRequest :: "bytes \<Rightarrow> bytes \<Rightarrow> bytes option \<Rightarrow> message" where
  "NewRequest i method params =
     zero_message\<lparr>JSONRPC := ''2.0'', ID := Some (render (marshal_string i)), Method := method,
       msg_params := params\<rparr>"

section \<open>Encoding\<close>

text \<open>A raw field is left out when empty (\<open>omitempty\<close>) and compacted otherwise.\<close>

definition raw_field :: "bytes \<Rightarrow> bytes option \<Rightarrow> marshal_error + (bytes \<times> jval) list" where
  "raw_field k r =
     (case r of
        None \<Rightarrow> Inr []
      | Some raw \<Rightarrow>
          if raw = [] then Inr []
          else (case marshal_raw raw of Inl e \<Rightarrow> Inl e | Inr v \<Rightarrow> Inr [(k, v)]))"

definition error_field :: "rpc_error option \<Rightarrow> marshal_error + (bytes \<times> jval) list" where
  "error_field e0 =
     (case e0 of
        None \<Rightarrow> Inr []
      | Some e \<Rightarrow>
          bind_err (raw_field ''data'' (err_data e)) (\<lambda>d.
          Inr [(''error'', mk_object ([(''code'', marshal_int (err_code e)),
            (''message'', marshal_string (err_message e))] @ d))]))"

definition message_fields_of :: "message \<Rightarrow> marshal_error + (bytes \<times> jval) list" where
  "message_fields_of m =
     bind_err (raw_field ''id'' (ID m)) (\<lambda>i.
     bind_err (raw_field ''params'' (msg_params m)) (\<lambda>p.
     bind_err (raw_field ''result'' (Result m)) (\<lambda>r.
     bind_err (error_field (Error m)) (\<lambda>e.
     Inr ([(''jsonrpc'', marshal_string ''2.0'')] @ i @
       (if Method m = [] then [] else [(''method'', marshal_string (Method m))]) @ p @ r @ e)))))"

definition Encode :: "message \<Rightarrow> marshal_error + bytes" where
  "Encode m = bind_err (message_fields_of m) (\<lambda>kvs. Inr (render (mk_object kvs)))"

section \<open>What a decoded message holds\<close>

text \<open>The raw fields of a decoded message are well-formed JSON values of their own.\<close>

definition raw_ok :: "bytes option \<Rightarrow> bool" where
  "raw_ok r = (case r of None \<Rightarrow> True | Some s \<Rightarrow> s \<noteq> [] \<and> json_parse s \<noteq> None)"

definition message_ok :: "message \<Rightarrow> bool" where
  "message_ok m = (raw_ok (ID m) \<and> raw_ok (msg_params m) \<and> raw_ok (Result m))"

lemma decode_members_ok:
  "decode_members m kvs = Inr m' \<Longrightarrow> message_ok m \<Longrightarrow>
     list_all (\<lambda>(k, v). json_parse (render v) = Some v \<and> render v \<noteq> []) kvs \<Longrightarrow> message_ok m'"
proof (induction m kvs rule: decode_members.induct)
  case (2 m k v kvs)
  have v: "raw_ok (Some (render v))" using "2.prems"(3) by (simp add: raw_ok_def)
  show ?case
  proof (cases "field_of message_fields k")
    case None
    with 2 show ?thesis by simp
  next
    case (Some f)
    with 2 v show ?thesis
      by (auto simp: message_ok_def split: if_split_asm sum.split_asm)
  qed
qed simp

lemma Decode_Inr:
  "Decode data = Inr m \<longleftrightarrow>
     unmarshal_message data = Inr m \<and> JSONRPC m = ''2.0'' \<and> Kind m \<noteq> KindInvalid"
  by (auto simp: Decode_def split: sum.splits if_splits)

lemma unmarshal_message_ok: "unmarshal_message data = Inr m \<Longrightarrow> message_ok m"
proof -
  assume u: "unmarshal_message data = Inr m"
  have z: "message_ok zero_message" by (simp add: message_ok_def zero_message_def raw_ok_def)
  show ?thesis
  proof (cases "json_parse data = Some json_null")
    case True
    with u z show ?thesis by (simp add: unmarshal_message_def)
  next
    case False
    with u obtain w ms where p: "json_parse data = Some (JObject w ms)"
      and d: "decode_members zero_message (members_list ms) = Inr m"
      by (auto simp: unmarshal_message_def split: option.splits jval.splits if_splits)
    show ?thesis
    proof (rule decode_members_ok [OF d z], unfold list_all_iff, clarify)
      fix k v
      assume "(k, v) \<in> set (members_list ms)"
      then have "json_parse (render v) = Some v" using json_parse_member [OF p] by blast
      moreover from this have "wf_json v" by (simp add: json_parse_iff)
      ultimately show "json_parse (render v) = Some v \<and> render v \<noteq> []"
        using render_length by fastforce
    qed
  qed
qed

text \<open>
  C38.  A message \<open>Decode\<close> accepts has version 2.0, exactly one of the three shapes, and raw
  fields (id, params, result) each a complete JSON value that parses on its own.
\<close>

theorem Decode_sound:
  "Decode data = Inr m \<Longrightarrow>
     JSONRPC m = ''2.0'' \<and> Kind m \<in> {KindRequest, KindNotification, KindResponse} \<and>
     (Kind m = KindRequest \<longleftrightarrow> Method m \<noteq> [] \<and> ID m \<noteq> None) \<and>
     raw_ok (ID m) \<and> raw_ok (msg_params m) \<and> raw_ok (Result m)"
proof -
  assume "Decode data = Inr m"
  then have u: "unmarshal_message data = Inr m" "JSONRPC m = ''2.0''" "Kind m \<noteq> KindInvalid"
    by (simp_all add: Decode_Inr)
  then have ok: "raw_ok (ID m)" "raw_ok (msg_params m)" "raw_ok (Result m)"
    using unmarshal_message_ok unfolding message_ok_def by blast+
  then have "HasID m \<longleftrightarrow> ID m \<noteq> None" by (auto simp: HasID_def raw_ok_def split: option.splits)
  then have "Kind m = KindRequest \<longleftrightarrow> Method m \<noteq> [] \<and> ID m \<noteq> None" by (auto simp: Kind_def)
  moreover have "Kind m \<in> {KindRequest, KindNotification, KindResponse}" using u(3) by (cases "Kind m") auto
  ultimately show ?thesis using u(2) ok by blast
qed

lemma Decode_sound_witness:
  "\<exists>m. Decode (json_text ''{~jsonrpc~:~2.0~,~id~:1,~method~:~ping~}'') = Inr m \<and>
     Kind m = KindRequest \<and> ID m = Some ''1''"
proof -
  let ?data = "json_text ''{~jsonrpc~:~2.0~,~id~:1,~method~:~ping~}''"
  have parse: "json_parse ?data = Some (JObject [] (MCons [] ''jsonrpc'' [] [] (JString ''2.0'') []
      (MCons [] ''id'' [] [] (JScalar ''1'') [] (MCons [] ''method'' [] [] (JString ''ping'') [] MNil))))"
    by code_simp
  have d: "Decode ?data = Inr (zero_message\<lparr>JSONRPC := ''2.0'', ID := Some ''1'', Method := ''ping''\<rparr>)"
    unfolding Decode_def unmarshal_message_def parse
    by (simp add: json_null_def unquoted_def unquote_plain field_of_def message_fields_def into_string_def
        zero_message_def Kind_def HasID_def)
  have "Kind (zero_message\<lparr>JSONRPC := ''2.0'', ID := Some ''1'', Method := ''ping''\<rparr>) = KindRequest"
    using Decode_sound [OF d] by simp
  with d show ?thesis by (intro exI conjI) (assumption, assumption, simp)
qed

section \<open>Encoding and decoding\<close>

text \<open>A raw field as the encoder writes it: the same value without white space.\<close>

definition compact_raw :: "bytes option \<Rightarrow> bytes option" where
  "compact_raw r =
     (case r of None \<Rightarrow> None | Some raw \<Rightarrow> map_option (\<lambda>v. render (compact v)) (json_parse raw))"

definition canonical_error :: "rpc_error \<Rightarrow> rpc_error" where
  "canonical_error e = e\<lparr>err_data := compact_raw (err_data e)\<rparr>"

definition canonical :: "message \<Rightarrow> message" where
  "canonical m = m\<lparr>JSONRPC := ''2.0'', ID := compact_raw (ID m), msg_params := compact_raw (msg_params m),
     Result := compact_raw (Result m), Error := map_option canonical_error (Error m)\<rparr>"

text \<open>A raw field that encodes and stays within the decoder's nesting limit below \<open>n\<close> levels.\<close>

definition raw_fits :: "nat \<Rightarrow> bytes option \<Rightarrow> bool" where
  "raw_fits n r =
     (case r of
        None \<Rightarrow> True
      | Some raw \<Rightarrow> raw \<noteq> [] \<and> (case json_parse raw of None \<Rightarrow> False | Some v \<Rightarrow> jdepth v + n \<le> maxNestingDepth))"

definition error_fits :: "rpc_error option \<Rightarrow> bool" where
  "error_fits e0 =
     (case e0 of
        None \<Rightarrow> True
      | Some e \<Rightarrow> raw_fits 2 (err_data e) \<and> utf8_Valid (err_message e) \<and>
          - (2 ^ 63) \<le> err_code e \<and> err_code e < 2 ^ 63)"

definition message_fits :: "message \<Rightarrow> bool" where
  "message_fits m =
     (raw_fits 1 (ID m) \<and> raw_fits 1 (msg_params m) \<and> raw_fits 1 (Result m) \<and> error_fits (Error m) \<and>
      utf8_Valid (Method m))"

lemma raw_field_fits:
  assumes "raw_fits n r"
  obtains (absent) "r = None" "raw_field k r = Inr []" "compact_raw r = None"
  | (present) v where "raw_field k r = Inr [(k, v)]" "compact_raw r = Some (render v)" "wf_json v"
      "jdepth v + n \<le> maxNestingDepth"
proof (cases r)
  case None
  then show ?thesis by (intro absent) (simp_all add: raw_field_def compact_raw_def)
next
  case (Some raw)
  with assms obtain v where v: "json_parse raw = Some v" "jdepth v + n \<le> maxNestingDepth" "raw \<noteq> []"
    by (auto simp: raw_fits_def split: option.splits)
  then have "wf_json v" by (simp add: json_parse_iff)
  with v Some show ?thesis
    by (intro present [of "compact v"]) (simp_all add: raw_field_def marshal_raw_def compact_raw_def compact_wf)
qed

lemma ascii_key:
  assumes "list_all (\<lambda>c. 0x20 \<le> byte c \<and> byte c < 0x80 \<and> c \<noteq> CHR 0x5C \<and> c \<noteq> CHR 0x22) k"
  shows "string_ok k \<and> unquoted k = k"
proof -
  have "writes k k" using assms
  proof (induction k)
    case Nil
    show ?case by (rule writes_Nil)
  next
    case (Cons c k)
    then have "writes ([c] @ k) ([c] @ k)" by (intro writes_append writes_plain) auto
    then show ?case by simp
  qed
  then show ?thesis using writes_string_ok writes_unquoted by blast
qed

lemma field_keys:
  "string_ok ''jsonrpc'' \<and> unquoted ''jsonrpc'' = ''jsonrpc''" "string_ok ''id'' \<and> unquoted ''id'' = ''id''"
  "string_ok ''method'' \<and> unquoted ''method'' = ''method''" "string_ok ''params'' \<and> unquoted ''params'' = ''params''"
  "string_ok ''result'' \<and> unquoted ''result'' = ''result''" "string_ok ''error'' \<and> unquoted ''error'' = ''error''"
  "string_ok ''code'' \<and> unquoted ''code'' = ''code''" "string_ok ''message'' \<and> unquoted ''message'' = ''message''"
  "string_ok ''data'' \<and> unquoted ''data'' = ''data''"
  by (rule ascii_key; simp)+

lemma field_of_exact: "k \<in> set names \<Longrightarrow> field_of names k = Some k"
  by (simp add: field_of_def)

lemma into_string_marshal [simp]: "utf8_Valid s \<Longrightarrow> into_string old (marshal_string s) = Inr s"
  by (simp add: into_string_def marshal_string_def json_null_def marshal_string_value)

lemma itoa_not_null: "marshal_int n \<noteq> json_null"
proof -
  have "itoa n \<noteq> ''null''"
  proof
    assume "itoa n = ''null''"
    moreover have "list_all (\<lambda>c. json_digit c \<or> c = CHR ''-'') (itoa n)"
      using nat_digits_digits by (auto simp: itoa_def list_all_iff)
    ultimately show False by (simp add: json_digit_def)
  qed
  then show ?thesis by (simp add: marshal_int_def json_null_def)
qed

lemma into_int_marshal [simp]:
  "- (2 ^ 63) \<le> n \<Longrightarrow> n < 2 ^ 63 \<Longrightarrow> into_int old (marshal_int n) = Inr n"
  using itoa_not_null [of n] int_of_token_itoa [of n] by (simp add: into_int_def marshal_int_def)

lemma marshal_depth [simp]: "jdepth (marshal_string s) = 0" "jdepth (marshal_int n) = 0"
  by (simp_all add: marshal_string_def marshal_int_def)

lemma marshal_int_wf [simp]: "wf_json (marshal_int n)"
  by (simp add: marshal_int_def scalar_ok_itoa)

lemma mk_object_not_null [simp]: "mk_object kvs \<noteq> json_null"
  by (simp add: mk_object_def json_null_def)

lemma error_field_fits:
  assumes "error_fits e0"
  obtains (absent) "e0 = None" "error_field e0 = Inr []"
  | (present) v e where "e0 = Some e" "error_field e0 = Inr [(''error'', v)]" "wf_json v" "jdepth v < maxNestingDepth"
      "into_error None v = Inr (Some (canonical_error e))"
proof (cases e0)
  case None
  then show ?thesis by (intro absent) (simp_all add: error_field_def)
next
  case (Some e)
  with assms have fits: "raw_fits 2 (err_data e)" and e: "utf8_Valid (err_message e)"
    "- (2 ^ 63) \<le> err_code e" "err_code e < 2 ^ 63"
    by (auto simp: error_fits_def)
  have k: "field_of [''code'', ''message'', ''data''] ''code'' = Some ''code''"
    "field_of [''code'', ''message'', ''data''] ''message'' = Some ''message''"
    "field_of [''code'', ''message'', ''data''] ''data'' = Some ''data''"
    by (simp_all add: field_of_exact)
  show ?thesis
  proof (cases rule: raw_field_fits [OF fits, of "''data''"])
    case 1
    with Some e show ?thesis
      by (intro present [of e "mk_object [(''code'', marshal_int (err_code e)), (''message'', marshal_string (err_message e))]"])
        (simp_all add: error_field_def mk_object_def into_error_def json_null_def field_keys k
          marshal_string_wf canonical_error_def maxNestingDepth_def)
  next
    case (2 v)
    with Some e show ?thesis
      by (intro present [of e "mk_object [(''code'', marshal_int (err_code e)),
            (''message'', marshal_string (err_message e)), (''data'', v)]"])
        (simp_all add: error_field_def mk_object_def into_error_def json_null_def field_keys k
          marshal_string_wf canonical_error_def)
  qed
qed

text \<open>Each encoded field sets its own field of the message, in front of whatever follows.\<close>

lemma field_names:
  "field_of message_fields ''jsonrpc'' = Some ''jsonrpc''" "field_of message_fields ''id'' = Some ''id''"
  "field_of message_fields ''method'' = Some ''method''" "field_of message_fields ''params'' = Some ''params''"
  "field_of message_fields ''result'' = Some ''result''" "field_of message_fields ''error'' = Some ''error''"
  by (simp_all add: field_of_exact message_fields_def)

definition decoded_fields :: "(bytes \<times> jval) list \<Rightarrow> (bytes \<times> jval) list" where
  "decoded_fields kvs = map (\<lambda>(k, v). (unquoted k, v)) kvs"

definition fields_ok :: "(bytes \<times> jval) list \<Rightarrow> bool" where
  "fields_ok kvs = list_all (\<lambda>(k, v). string_ok k \<and> wf_json v \<and> jdepth v < maxNestingDepth) kvs"

lemma fields_simps [simp]:
  "decoded_fields [] = []"
  "decoded_fields ((k, v) # kvs) = (unquoted k, v) # decoded_fields kvs"
  "decoded_fields (a @ b) = decoded_fields a @ decoded_fields b"
  "fields_ok []"
  "fields_ok ((k, v) # kvs) \<longleftrightarrow> string_ok k \<and> wf_json v \<and> jdepth v < maxNestingDepth \<and> fields_ok kvs"
  "fields_ok (a @ b) \<longleftrightarrow> fields_ok a \<and> fields_ok b"
  by (simp_all add: decoded_fields_def fields_ok_def)

lemma update_same:
  "ID m = i \<Longrightarrow> m\<lparr>ID := i\<rparr> = m" "msg_params m = p \<Longrightarrow> m\<lparr>msg_params := p\<rparr> = m"
  "Result m = r \<Longrightarrow> m\<lparr>Result := r\<rparr> = m" "Method m = s \<Longrightarrow> m\<lparr>Method := s\<rparr> = m"
  "Error m = e \<Longrightarrow> m\<lparr>Error := e\<rparr> = m"
  by (cases m; simp)+

lemma id_field:
  assumes "raw_fits 1 r"
  obtains kvs where "raw_field ''id'' r = Inr kvs" "fields_ok kvs"
    "\<And>m rest. ID m = None \<Longrightarrow> decode_members m (decoded_fields kvs @ rest) = decode_members (m\<lparr>ID := compact_raw r\<rparr>) rest"
proof (cases rule: raw_field_fits [OF assms, of "''id''"])
  case 1
  then show ?thesis by (intro that [of "[]"]) (simp_all add: update_same)
next
  case (2 v)
  then show ?thesis
    by (intro that [of "[(''id'', v)]"]) (simp_all add: field_keys field_names)
qed

lemma params_field:
  assumes "raw_fits 1 r"
  obtains kvs where "raw_field ''params'' r = Inr kvs" "fields_ok kvs"
    "\<And>m rest. msg_params m = None \<Longrightarrow>
       decode_members m (decoded_fields kvs @ rest) = decode_members (m\<lparr>msg_params := compact_raw r\<rparr>) rest"
proof (cases rule: raw_field_fits [OF assms, of "''params''"])
  case 1
  then show ?thesis by (intro that [of "[]"]) (simp_all add: update_same)
next
  case (2 v)
  then show ?thesis
    by (intro that [of "[(''params'', v)]"]) (simp_all add: field_keys field_names)
qed

lemma result_field:
  assumes "raw_fits 1 r"
  obtains kvs where "raw_field ''result'' r = Inr kvs" "fields_ok kvs"
    "\<And>m rest. Result m = None \<Longrightarrow>
       decode_members m (decoded_fields kvs @ rest) = decode_members (m\<lparr>Result := compact_raw r\<rparr>) rest"
proof (cases rule: raw_field_fits [OF assms, of "''result''"])
  case 1
  then show ?thesis by (intro that [of "[]"]) (simp_all add: update_same)
next
  case (2 v)
  then show ?thesis
    by (intro that [of "[(''result'', v)]"]) (simp_all add: field_keys field_names)
qed

lemma error_member:
  assumes "error_fits e0"
  obtains kvs where "error_field e0 = Inr kvs" "fields_ok kvs"
    "\<And>m. Error m = None \<Longrightarrow>
       decode_members m (decoded_fields kvs) = Inr (m\<lparr>Error := map_option canonical_error e0\<rparr>)"
proof (cases rule: error_field_fits [OF assms])
  case 1
  then show ?thesis by (intro that [of "[]"]) simp_all
next
  case (2 v e)
  then show ?thesis
    by (intro that [of "[(''error'', v)]"]) (simp_all add: field_keys field_names)
qed

lemma method_field:
  assumes "utf8_Valid method"
  shows "fields_ok (if method = [] then [] else [(''method'', marshal_string method)])"
    and "Method m = [] \<Longrightarrow> decode_members m (decoded_fields (if method = [] then [] else [(''method'', marshal_string method)]) @ rest) =
      decode_members (m\<lparr>Method := method\<rparr>) rest"
  using assms by (simp_all add: field_keys field_names marshal_string_wf maxNestingDepth_def update_same)

lemma fields_parse: "fields_ok kvs \<Longrightarrow> json_parse (render (mk_object kvs)) = Some (mk_object kvs)"
  unfolding fields_ok_def by (rule json_parse_mk_object)

lemma unmarshal_mk_object:
  "fields_ok kvs \<Longrightarrow> unmarshal_message (render (mk_object kvs)) = decode_members zero_message (decoded_fields kvs)"
  unfolding unmarshal_message_def fields_parse
  by (simp add: mk_object_def mk_members_list decoded_fields_def json_null_def)

lemma Encode_fields:
  assumes "message_fits m"
  obtains kvs where "message_fields_of m = Inr kvs" "fields_ok kvs"
    "unmarshal_message (render (mk_object kvs)) = Inr (canonical m)"
proof -
  from assms have fits: "raw_fits 1 (ID m)" "raw_fits 1 (msg_params m)" "raw_fits 1 (Result m)"
    "error_fits (Error m)" "utf8_Valid (Method m)"
    by (auto simp: message_fits_def)
  obtain i where i: "raw_field ''id'' (ID m) = Inr i" "fields_ok i"
    "\<And>m' rest. ID m' = None \<Longrightarrow> decode_members m' (decoded_fields i @ rest) = decode_members (m'\<lparr>ID := compact_raw (ID m)\<rparr>) rest"
    using id_field [OF fits(1)] by metis
  obtain p where p: "raw_field ''params'' (msg_params m) = Inr p" "fields_ok p"
    "\<And>m' rest. msg_params m' = None \<Longrightarrow>
       decode_members m' (decoded_fields p @ rest) = decode_members (m'\<lparr>msg_params := compact_raw (msg_params m)\<rparr>) rest"
    using params_field [OF fits(2)] by metis
  obtain r where r: "raw_field ''result'' (Result m) = Inr r" "fields_ok r"
    "\<And>m' rest. Result m' = None \<Longrightarrow>
       decode_members m' (decoded_fields r @ rest) = decode_members (m'\<lparr>Result := compact_raw (Result m)\<rparr>) rest"
    using result_field [OF fits(3)] by metis
  obtain e where e: "error_field (Error m) = Inr e" "fields_ok e"
    "\<And>m'. Error m' = None \<Longrightarrow> decode_members m' (decoded_fields e) = Inr (m'\<lparr>Error := map_option canonical_error (Error m)\<rparr>)"
    using error_member [OF fits(4)] by metis
  let ?meth = "if Method m = [] then [] else [(''method'', marshal_string (Method m))]"
  let ?kvs = "(''jsonrpc'', marshal_string ''2.0'') # i @ ?meth @ p @ r @ e"
  have v: "utf8_Valid ''2.0''" by (rule utf8_Valid_ascii) simp
  then have ok: "fields_ok ?kvs"
    using i(2) p(2) r(2) e(2) method_field(1) [OF fits(5)]
    by (simp add: field_keys marshal_string_wf maxNestingDepth_def del: if_split)
  have enc: "message_fields_of m = Inr ?kvs"
    using i(1) p(1) r(1) e(1) by (simp add: message_fields_of_def del: if_split)
  have "decode_members zero_message (decoded_fields ?kvs) =
      decode_members (zero_message\<lparr>JSONRPC := ''2.0''\<rparr>) (decoded_fields i @ decoded_fields ?meth @ decoded_fields p @ decoded_fields r @ decoded_fields e)"
    using v by (simp add: field_keys field_names del: if_split)
  also have "\<dots> = Inr (canonical m)"
    by (simp add: i(3) p(3) r(3) e(3) method_field(2) [OF fits(5)] zero_message_def canonical_def del: if_split)
  finally have "unmarshal_message (render (mk_object ?kvs)) = Inr (canonical m)"
    unfolding unmarshal_mk_object [OF ok] .
  with enc ok show ?thesis by (rule that)
qed

lemma Encode_unmarshal:
  assumes "message_fits m"
  obtains data where "Encode m = Inr data" "unmarshal_message data = Inr (canonical m)"
  by (rule Encode_fields [OF assms]) (auto intro: that simp: Encode_def)

lemma compact_raw_None: "raw_fits n r \<Longrightarrow> compact_raw r = None \<longleftrightarrow> r = None"
  by (auto simp: raw_fits_def compact_raw_def split: option.splits)

lemma compact_raw_nonempty: "raw_fits n r \<Longrightarrow> compact_raw r \<noteq> Some []"
proof
  assume f: "raw_fits n r" and c: "compact_raw r = Some []"
  from c obtain raw v where v: "json_parse raw = Some v" "render (compact v) = []"
    by (auto simp: compact_raw_def split: option.splits)
  then have "wf_json (compact v)" by (simp add: json_parse_iff compact_wf)
  from render_length [OF this] v(2) show False by simp
qed

lemma Kind_canonical: "message_fits m \<Longrightarrow> Kind (canonical m) = Kind m"
  using compact_raw_None [of 1 "ID m"] compact_raw_nonempty [of 1 "ID m"] compact_raw_None [of 1 "Result m"]
  by (auto simp: Kind_def HasID_def canonical_def message_fits_def raw_fits_def split: option.splits)

lemma Decode_Encode_canonical:
  assumes "message_fits m" "Kind m \<noteq> KindInvalid" "Encode m = Inr data"
  shows "Decode data = Inr (canonical m)"
proof -
  obtain data' where "Encode m = Inr data'" "unmarshal_message data' = Inr (canonical m)"
    by (rule Encode_unmarshal [OF assms(1)])
  with assms show ?thesis by (simp add: Decode_Inr Kind_canonical) (simp add: canonical_def)
qed

text \<open>
  C35.  Encoding and decoding are inverse up to white space in the raw fields: every message of
  one of the three shapes whose raw fields are JSON values within the nesting limit encodes, and
  what it encodes to decodes to the same message with its raw fields compacted.
\<close>

theorem Decode_Encode:
  assumes "message_fits m" "Kind m \<noteq> KindInvalid"
  shows "\<exists>data. Encode m = Inr data \<and> Decode data = Inr (canonical m)"
  using Encode_unmarshal [OF assms(1)] Decode_Encode_canonical [OF assms] by metis

lemma Decode_Encode_witness:
  "\<exists>data. Encode (NewNotification ''ping'' (Some ''[1]'')) = Inr data \<and>
     Decode data = Inr (NewNotification ''ping'' (Some ''[1]''))"
proof -
  let ?m = "NewNotification ''ping'' (Some ''[1]'')"
  have p: "json_parse ''[1]'' = Some (JArray [] (ICons [] (JScalar ''1'') [] INil))" by code_simp
  have "utf8_Valid ''ping''" by (rule utf8_Valid_ascii) simp
  then have "message_fits ?m"
    by (simp add: message_fits_def NewNotification_def zero_message_def raw_fits_def error_fits_def p maxNestingDepth_def)
  moreover have "Kind ?m \<noteq> KindInvalid" by (simp add: Kind_def NewNotification_def zero_message_def HasID_def)
  moreover have "canonical ?m = ?m"
    by (simp add: canonical_def NewNotification_def zero_message_def compact_raw_def p)
  ultimately show ?thesis using Decode_Encode by metis
qed

end
