(* ===== verification/Subject.thy ===== *)
theory Subject
  imports Utf8 Mcpspec
begin

text \<open>
  The subject grammar (\<open>pkg/wire/subject.go\<close>): the tokens NATS permissions are written against.
  \<open>isPrint\<close> stands for \<open>unicode.IsPrint\<close>.
\<close>

section \<open>Tokens\<close>

definition DefaultPrefix :: bytes where "DefaultPrefix = ''mcp.v1''"
definition NameUnset :: bytes where "NameUnset = ''_''"
definition UserUnattributed :: bytes where "UserUnattributed = ''_''"

text \<open>The class \<open>[A-Za-z0-9_-]\<close> of \<open>tokenRe\<close>.\<close>

definition token_char :: "char \<Rightarrow> bool" where
  "token_char c =
     (let b = byte c in
      (65 \<le> b \<and> b \<le> 90) \<or> (97 \<le> b \<and> b \<le> 122) \<or> (48 \<le> b \<and> b \<le> 57) \<or> b = 95 \<or> b = 45)"

definition TokenSafe :: "bytes \<Rightarrow> bool" where
  "TokenSafe s = (s \<noteq> [] \<and> list_all token_char s)"

datatype token_error =
    EmptyToken bytes bytes
  | WildcardToken bytes bytes
  | UnusableToken bytes bytes bytes bytes

fun token_run_loop :: "bytes \<Rightarrow> bytes \<Rightarrow> (bytes \<Rightarrow> bool) \<Rightarrow> bytes \<Rightarrow> bytes list \<Rightarrow> token_error + unit" where
  "token_run_loop what s safe alphabet [] = Inr ()"
| "token_run_loop what s safe alphabet (tok # toks) =
     (if tok = [] then Inl (EmptyToken what s)
      else if strings_ContainsAny tok ''*>'' then Inl (WildcardToken what s)
      else if \<not> safe tok then Inl (UnusableToken what s tok alphabet)
      else token_run_loop what s safe alphabet toks)"

definition validateTokenRun :: "bytes \<Rightarrow> bytes \<Rightarrow> (bytes \<Rightarrow> bool) \<Rightarrow> bytes \<Rightarrow> token_error + unit" where
  "validateTokenRun what s safe alphabet =
     token_run_loop what s safe alphabet (strings_Split s (CHR ''.''))"

definition wireTokenSafe :: "(rune \<Rightarrow> bool) \<Rightarrow> bytes \<Rightarrow> bool" where
  "wireTokenSafe isPrint tok =
     (if \<not> utf8_Valid tok then False
      else \<not> list_ex (\<lambda>r. unicode_IsSpace r \<or> \<not> isPrint r) (runes tok))"

definition ValidateSubjectPrefix :: "(rune \<Rightarrow> bool) \<Rightarrow> bytes \<Rightarrow> token_error + unit" where
  "ValidateSubjectPrefix isPrint s = validateTokenRun ''subject prefix'' s (wireTokenSafe isPrint) ''''"

definition ValidateQueueGroup :: "(rune \<Rightarrow> bool) \<Rightarrow> bytes \<Rightarrow> token_error + unit" where
  "ValidateQueueGroup isPrint s = validateTokenRun ''queue group'' s (wireTokenSafe isPrint) ''''"

definition ValidateInboxPrefix :: "bytes \<Rightarrow> token_error + unit" where
  "ValidateInboxPrefix s = validateTokenRun ''inbox prefix'' s TokenSafe ''A-Za-z0-9_-''"

definition NameToken :: "bytes \<Rightarrow> bytes" where
  "NameToken name =
     (if name = NameUnset then NameUnset
      else if TokenSafe name then name
      else NameUnset)"

definition SubjectNameToken :: "bytes \<Rightarrow> bytes \<Rightarrow> bytes" where
  "SubjectNameToken method name =
     (let field = NameField method in
      if field = [] \<or> field = URIParam then NameUnset else NameToken name)"

section \<open>Building and parsing\<close>

datatype subject_error =
    UnsafeTenant bytes
  | UnsafeUser bytes
  | UnsafeServer bytes
  | EmptyMethod
  | UnsafeMethodSegment bytes bytes
  | WrongHead bytes bytes
  | TooFewTokens bytes
  | InvalidToken bytes bytes
  | UserWithoutTenant bytes

definition default_prefix :: "bytes \<Rightarrow> bytes" where
  "default_prefix pfx = (if pfx = [] then DefaultPrefix else pfx)"

definition default_user :: "bytes \<Rightarrow> bytes" where
  "default_user user = (if user = [] then UserUnattributed else user)"

definition BuildSubject ::
  "bytes \<Rightarrow> bytes \<Rightarrow> bytes \<Rightarrow> bytes \<Rightarrow> bytes \<Rightarrow> bytes \<Rightarrow> subject_error + bytes" where
  "BuildSubject pfx0 tenant user0 server method name =
     (let pfx = default_prefix pfx0; user = default_user user0 in
      if \<not> TokenSafe tenant then Inl (UnsafeTenant tenant)
      else if \<not> TokenSafe user then Inl (UnsafeUser user)
      else if \<not> TokenSafe server then Inl (UnsafeServer server)
      else (let segs = strings_Split method (CHR ''/'') in
        if segs = [] \<or> method = [] then Inl EmptyMethod
        else (case find (\<lambda>seg. \<not> TokenSafe seg) segs of
                Some seg \<Rightarrow> Inl (UnsafeMethodSegment method seg)
              | None \<Rightarrow>
                  Inr (pfx @ ''.req.'' @ tenant @ ''.'' @ user @ ''.'' @ server @ ''.'' @
                    strings_Join segs ''.'' @ ''.'' @ SubjectNameToken method name))))"

record ParsedSubject =
  Tenant :: bytes
  User :: bytes
  Server :: bytes
  subj_Method :: bytes
  Name :: bytes

definition ParseSubject :: "bytes \<Rightarrow> bytes \<Rightarrow> subject_error + ParsedSubject" where
  "ParseSubject subject pfx0 =
     (let pfx = default_prefix pfx0; head = pfx @ ''.req.'' in
      case strings_CutPrefix subject head of
        None \<Rightarrow> Inl (WrongHead subject head)
      | Some rest \<Rightarrow>
          (let toks = strings_Split rest (CHR ''.'') in
           if length toks < 5 then Inl (TooFewTokens subject)
           else (case find (\<lambda>tok. \<not> TokenSafe tok) toks of
                   Some tok \<Rightarrow> Inl (InvalidToken subject tok)
                 | None \<Rightarrow>
                     Inr \<lparr>Tenant = toks ! 0, User = toks ! 1, Server = toks ! 2,
                       subj_Method = strings_Join (butlast (drop 3 toks)) ''/'', Name = last toks\<rparr>)))"

definition EndpointSubject :: "bytes \<Rightarrow> bytes \<Rightarrow> bytes \<Rightarrow> bytes \<Rightarrow> subject_error + bytes" where
  "EndpointSubject pfx0 tenant user server =
     (let pfx = default_prefix pfx0 in
      if \<not> TokenSafe server then Inl (UnsafeServer server)
      else if tenant = [] \<and> user \<noteq> [] then Inl (UserWithoutTenant user)
      else if tenant \<noteq> [] \<and> \<not> TokenSafe tenant then Inl (UnsafeTenant tenant)
      else if user \<noteq> [] \<and> \<not> TokenSafe user then Inl (UnsafeUser user)
      else Inr (pfx @ ''.req.'' @ (if tenant = [] then ''*'' else tenant) @ ''.'' @
             (if user = [] then ''*'' else user) @ ''.'' @ server @ ''.>''))"

section \<open>Facts about tokens\<close>

lemma TokenSafe_no_sep: "TokenSafe s \<Longrightarrow> CHR ''.'' \<notin> set s \<and> CHR ''/'' \<notin> set s"
  by (auto simp: TokenSafe_def list_all_iff token_char_def)

lemma TokenSafe_no_wildcard: "TokenSafe s \<Longrightarrow> s \<noteq> ''*'' \<and> s \<noteq> ''>'' \<and> s \<noteq> []"
  by (auto simp: TokenSafe_def token_char_def)

lemma NameUnset_safe [simp]: "TokenSafe NameUnset"
  by (simp add: TokenSafe_def NameUnset_def token_char_def)

lemma NameToken_safe: "TokenSafe (NameToken name)"
  by (simp add: NameToken_def)

lemma SubjectNameToken_safe: "TokenSafe (SubjectNameToken method name)"
  by (simp add: SubjectNameToken_def Let_def NameToken_safe)

lemma token_run_loop_ok:
  "token_run_loop what s safe alphabet toks = Inr () \<longleftrightarrow>
     (\<forall>tok\<in>set toks. tok \<noteq> [] \<and> \<not> strings_ContainsAny tok ''*>'' \<and> safe tok)"
  by (induction toks) auto

lemma strings_Split_append:
  "strings_Split (s @ sep # t) sep = strings_Split s sep @ strings_Split t sep"
proof (induction s)
  case (Cons c s)
  then show ?case by (cases "strings_Split s sep") (auto split: list.splits)
qed simp

lemma Join_sep_free:
  "ts \<noteq> [] \<Longrightarrow> list_all TokenSafe ts \<Longrightarrow> strings_Split (strings_Join ts ''.'') (CHR ''.'') = ts"
  by (rule strings_Split_Join) (auto simp: list_all_iff TokenSafe_no_sep)

lemma find_unsafe_None: "find (\<lambda>t. \<not> TokenSafe t) ts = None \<longleftrightarrow> list_all TokenSafe ts"
  by (induction ts) auto

text \<open>What \<open>BuildSubject\<close> returns, by tokens.\<close>

lemma BuildSubject_Inr:
  assumes "BuildSubject pfx tenant user server method name = Inr s"
  obtains segs where "segs = strings_Split method (CHR ''/'')" "segs \<noteq> []" "list_all TokenSafe segs"
    "TokenSafe tenant" "TokenSafe (default_user user)" "TokenSafe server"
    "s = default_prefix pfx @ ''.req.'' @
       strings_Join (tenant # default_user user # server # segs @ [SubjectNameToken method name]) ''.''"
proof (rule that [OF refl])
  let ?segs = "strings_Split method (CHR ''/'')"
  show "?segs \<noteq> []" by simp
  from assms show "list_all TokenSafe ?segs" "TokenSafe tenant" "TokenSafe (default_user user)"
    "TokenSafe server"
    by (auto simp: BuildSubject_def Let_def find_unsafe_None [symmetric] split: if_splits option.splits)
  have "strings_Join (?segs @ [SubjectNameToken method name]) ''.'' =
      strings_Join ?segs ''.'' @ ''.'' @ SubjectNameToken method name"
    by (simp add: strings_Join_append)
  then show "s = default_prefix pfx @ ''.req.'' @
       strings_Join (tenant # default_user user # server # ?segs @ [SubjectNameToken method name]) ''.''"
    using assms by (auto simp: BuildSubject_def Let_def strings_Join_Cons split: if_splits option.splits)
qed

lemma ParseSubject_tokens:
  assumes "list_all TokenSafe toks" "5 \<le> length toks"
  shows "ParseSubject (default_prefix pfx @ ''.req.'' @ strings_Join toks ''.'') pfx =
    Inr \<lparr>Tenant = toks ! 0, User = toks ! 1, Server = toks ! 2,
      subj_Method = strings_Join (butlast (drop 3 toks)) ''/'', Name = last toks\<rparr>"
proof -
  have "toks \<noteq> []" using assms(2) by auto
  then have "strings_Split (strings_Join toks ''.'') (CHR ''.'') = toks"
    using assms(1) by (rule Join_sep_free)
  moreover have "strings_CutPrefix (default_prefix pfx @ ''.req.'' @ strings_Join toks ''.'')
      (default_prefix pfx @ ''.req.'') = Some (strings_Join toks ''.'')"
    by (simp add: strings_CutPrefix_Some)
  ultimately show ?thesis
    using assms by (simp add: ParseSubject_def Let_def find_unsafe_None [THEN iffD2])
qed

lemma toks_shape:
  assumes "5 \<le> length toks"
  obtains a b c ms n where "toks = a # b # c # ms @ [n]" "ms \<noteq> []"
proof -
  from assms obtain a b c r where r: "toks = a # b # c # r" "2 \<le> length r"
    by (auto simp: Suc_le_length_iff numeral_eq_Suc)
  then have "r = butlast r @ [last r]" "butlast r \<noteq> []"
    by (cases r rule: rev_cases; auto)+
  with r that show ?thesis by metis
qed

section \<open>The round trip\<close>

lemma Parse_Build:
  assumes "BuildSubject pfx tenant user server method name = Inr s"
  shows "ParseSubject s pfx = Inr \<lparr>Tenant = tenant, User = default_user user, Server = server,
    subj_Method = method, Name = SubjectNameToken method name\<rparr>"
proof -
  obtain segs where b: "segs = strings_Split method (CHR ''/'')" "segs \<noteq> []" "list_all TokenSafe segs"
    "TokenSafe tenant" "TokenSafe (default_user user)" "TokenSafe server" and s:
    "s = default_prefix pfx @ ''.req.'' @
       strings_Join (tenant # default_user user # server # segs @ [SubjectNameToken method name]) ''.''"
    by (rule BuildSubject_Inr [OF assms])
  have "strings_Join segs ''/'' = method" using b(1) by (simp add: strings_Join_Split)
  then show ?thesis
    unfolding s using b by (subst ParseSubject_tokens) (auto simp: SubjectNameToken_safe butlast_append Suc_le_eq)
qed

text \<open>
  A subject a client builds parses back, under the same prefix, to the tenant, user, server
  and method it was built from and to the name token of \<open>SubjectNameToken\<close>.
\<close>

theorem ParseSubject_BuildSubject:
  assumes "BuildSubject pfx tenant user server method name = Inr s"
  shows "ParseSubject s pfx = Inr \<lparr>Tenant = tenant, User = default_user user, Server = server,
    subj_Method = method, Name = SubjectNameToken method name\<rparr>"
  by (rule Parse_Build [OF assms])

lemma ParseSubject_BuildSubject_witness:
  "ParseSubject ''mcp.v1.req.acme._.gh.tools.call.get_issue'' '''' =
     Inr \<lparr>Tenant = ''acme'', User = ''_'', Server = ''gh'', subj_Method = ''tools/call'', Name = ''get_issue''\<rparr>"
proof -
  have b: "BuildSubject '''' ''acme'' '''' ''gh'' ''tools/call'' ''get_issue'' =
      Inr ''mcp.v1.req.acme._.gh.tools.call.get_issue''"
    by code_simp
  have "SubjectNameToken ''tools/call'' ''get_issue'' = ''get_issue''" "default_user '''' = ''_''"
    by code_simp+
  with ParseSubject_BuildSubject [OF b] show ?thesis by simp
qed

lemma Parse_parts:
  assumes "ParseSubject s pfx = Inr p"
  shows "s = default_prefix pfx @ ''.req.'' @ Tenant p @ ''.'' @ User p @ ''.'' @ Server p @ ''.'' @
      strings_Join (strings_Split (subj_Method p) (CHR ''/'')) ''.'' @ ''.'' @ Name p \<and>
    list_all TokenSafe (Tenant p # User p # Server p # Name p # strings_Split (subj_Method p) (CHR ''/''))"
proof -
  from assms obtain rest where rest: "s = default_prefix pfx @ ''.req.'' @ rest"
    by (auto simp: ParseSubject_def Let_def strings_CutPrefix_Some split: option.splits)
  define toks where "toks = strings_Split rest (CHR ''.'')"
  from assms rest have len: "5 \<le> length toks" and safe: "list_all TokenSafe toks" and p:
    "p = \<lparr>Tenant = toks ! 0, User = toks ! 1, Server = toks ! 2,
      subj_Method = strings_Join (butlast (drop 3 toks)) ''/'', Name = last toks\<rparr>"
    by (auto simp: ParseSubject_def Let_def strings_CutPrefix_append [of "default_prefix pfx @ ''.req.''", simplified]
        toks_def find_unsafe_None split: if_splits option.splits)
  from len obtain a b c ms n where t: "toks = a # b # c # ms @ [n]" "ms \<noteq> []"
    by (rule toks_shape)
  have m: "strings_Split (strings_Join ms ''/'') (CHR ''/'') = ms"
    using safe t by (intro strings_Split_Join) (auto simp: list_all_iff TokenSafe_no_sep)
  have "rest = strings_Join toks ''.''" by (simp add: toks_def strings_Join_Split)
  then have "rest = a @ ''.'' @ b @ ''.'' @ c @ ''.'' @ strings_Join ms ''.'' @ ''.'' @ n"
    using t by (simp add: strings_Join_Cons strings_Join_append)
  with rest m t safe p show ?thesis by (auto simp: butlast_append)
qed

text \<open>
  Nothing but a built subject parses: if \<open>ParseSubject\<close> succeeds, the subject is the one
  string of its parts, every token of it is safe, and the method has no empty segment.
\<close>

theorem ParseSubject_sound:
  assumes "ParseSubject s pfx = Inr p"
  shows "s = default_prefix pfx @ ''.req.'' @ Tenant p @ ''.'' @ User p @ ''.'' @ Server p @ ''.'' @
      strings_Join (strings_Split (subj_Method p) (CHR ''/'')) ''.'' @ ''.'' @ Name p \<and>
    list_all TokenSafe (Tenant p # User p # Server p # Name p # strings_Split (subj_Method p) (CHR ''/''))"
  using Parse_parts [OF assms] .

lemma ParseSubject_sound_witness:
  "''mcp.v1.req.a.b.c.ping._'' = ''mcp.v1.req.'' @ ''a.b.c.'' @ ''ping'' @ ''._''
   \<and> (\<exists>p. ParseSubject ''mcp.v1.req.a.b.c.ping._'' '''' = Inr p \<and> list_all TokenSafe [Tenant p, User p, Server p])"
proof -
  have b: "ParseSubject ''mcp.v1.req.a.b.c.ping._'' '''' =
      Inr \<lparr>Tenant = ''a'', User = ''b'', Server = ''c'', subj_Method = ''ping'', Name = ''_''\<rparr>"
    by code_simp
  with ParseSubject_sound [OF b] show ?thesis by simp
qed

section \<open>Which subjects an endpoint receives\<close>

text \<open>How NATS matches a subject against a pattern, token by token.\<close>

fun match_tokens :: "bytes list \<Rightarrow> bytes list \<Rightarrow> bool" where
  "match_tokens [] ts = (ts = [])"
| "match_tokens (p # ps) [] = False"
| "match_tokens (p # ps) (t # ts) =
     (if p = ''>'' \<and> ps = [] then True
      else (p = ''*'' \<or> p = t) \<and> match_tokens ps ts)"

definition subject_matches :: "bytes \<Rightarrow> bytes \<Rightarrow> bool" where
  "subject_matches pat s = match_tokens (strings_Split pat (CHR ''.'')) (strings_Split s (CHR ''.''))"

lemma match_tokens_common: "ps \<noteq> [] \<Longrightarrow> match_tokens (cs @ ps) (cs @ ts) = match_tokens ps ts"
  by (induction cs) auto

lemma split_tokens:
  "TokenSafe t \<Longrightarrow> strings_Split (t @ CHR ''.'' # s) (CHR ''.'') = t # strings_Split s (CHR ''.'')"
  by (simp add: strings_Split_append_sep TokenSafe_no_sep)

lemma split_token: "TokenSafe t \<Longrightarrow> strings_Split t (CHR ''.'') = [t]"
  by (simp add: strings_Split_plain TokenSafe_no_sep)

text \<open>The tokens of the pattern against those of the subject.\<close>

lemma endpoint_matches:
  assumes "EndpointSubject pfx tenant user server = Inr pat"
    and "BuildSubject pfx t u s method name = Inr subj"
  shows "subject_matches pat subj \<longleftrightarrow>
    server = s \<and> (tenant = [] \<or> tenant = t) \<and> (user = [] \<or> user = default_user u)"
proof -
  obtain segs where b: "segs \<noteq> []" "list_all TokenSafe segs"
    "TokenSafe t" "TokenSafe (default_user u)" "TokenSafe s" and subj:
    "subj = default_prefix pfx @ ''.req.'' @
       strings_Join (t # default_user u # s # segs @ [SubjectNameToken method name]) ''.''"
    by (rule BuildSubject_Inr [OF assms(2)])
  let ?toks = "t # default_user u # s # segs @ [SubjectNameToken method name]"
  let ?common = "strings_Split (default_prefix pfx @ ''.req'') (CHR ''.'')"
  have "strings_Split (strings_Join ?toks ''.'') (CHR ''.'') = ?toks"
    using b by (intro Join_sep_free) (auto simp: SubjectNameToken_safe)
  then have ts: "strings_Split subj (CHR ''.'') = ?common @ ?toks"
    using strings_Split_append [of "default_prefix pfx @ ''.req''" "CHR ''.''" "strings_Join ?toks ''.''"] subj
    by simp
  from assms(1) have pat: "pat = default_prefix pfx @ ''.req.'' @ (if tenant = [] then ''*'' else tenant) @ ''.'' @
      (if user = [] then ''*'' else user) @ ''.'' @ server @ ''.>''"
    and safe: "TokenSafe server" "tenant \<noteq> [] \<Longrightarrow> TokenSafe tenant" "user \<noteq> [] \<Longrightarrow> TokenSafe user"
    by (auto simp: EndpointSubject_def Let_def split: if_splits)
  let ?tail = "(if tenant = [] then ''*'' else tenant) @ CHR ''.'' # (if user = [] then ''*'' else user) @
      CHR ''.'' # server @ CHR ''.'' # ''>''"
  have "strings_Split ?tail (CHR ''.'') =
      [if tenant = [] then ''*'' else tenant, if user = [] then ''*'' else user, server, ''>'']"
    using safe by (auto simp: split_tokens)
  then have ps: "strings_Split pat (CHR ''.'') = ?common @
      [if tenant = [] then ''*'' else tenant, if user = [] then ''*'' else user, server, ''>'']"
    using strings_Split_append [of "default_prefix pfx @ ''.req''" "CHR ''.''" ?tail] pat by simp
  obtain x xs where x: "segs @ [SubjectNameToken method name] = x # xs" by (cases segs) auto
  have "server \<noteq> ''*''" "tenant \<noteq> ''*''" "user \<noteq> ''*''"
    using safe TokenSafe_no_wildcard by fastforce+
  then show ?thesis
    unfolding subject_matches_def ts ps match_tokens_common [OF list.distinct(2)] x by auto
qed

text \<open>
  C22.  An endpoint bound for (tenant, user, server) receives, of all the subjects clients build
  under the prefix, exactly those of its server, of its tenant (any if unset) and of its user
  (any if unset): no other caller's request reaches it and none of its own is missed.
\<close>

theorem EndpointSubject_scope:
  assumes "EndpointSubject pfx tenant user server = Inr pat"
    and "BuildSubject pfx t u s method name = Inr subj"
  shows "subject_matches pat subj \<longleftrightarrow>
    server = s \<and> (tenant = [] \<or> tenant = t) \<and> (user = [] \<or> user = default_user u)"
  by (rule endpoint_matches [OF assms])

lemma EndpointSubject_scope_witness:
  "subject_matches ''mcp.v1.req.acme.*.gh.>'' ''mcp.v1.req.acme.bob.gh.ping._'' \<and>
   \<not> subject_matches ''mcp.v1.req.acme.*.gh.>'' ''mcp.v1.req.evil.bob.gh.ping._''"
proof -
  have e: "EndpointSubject '''' ''acme'' '''' ''gh'' = Inr ''mcp.v1.req.acme.*.gh.>''" by code_simp
  have b: "BuildSubject '''' ''acme'' ''bob'' ''gh'' ''ping'' '''' = Inr ''mcp.v1.req.acme.bob.gh.ping._''"
    "BuildSubject '''' ''evil'' ''bob'' ''gh'' ''ping'' '''' = Inr ''mcp.v1.req.evil.bob.gh.ping._''"
    by code_simp+
  from EndpointSubject_scope [OF e b(1)] EndpointSubject_scope [OF e b(2)] show ?thesis by simp
qed

end
