(* ===== verification/Frame.thy ===== *)
theory Frame
  imports Jsonrpc Subject
begin

text \<open>
  The frames of a reply stream and the constants of the wire binding (\<open>pkg/wire/frame.go\<close>).
  \<open>overhead\<close> is \<open>frameOverhead\<close>: what the NATS library charges for the headers of a frame, of
  which the kind, the error code and description and the claim id are all that varies.
\<close>

definition WireVersion :: bytes where "WireVersion = ''1''"
definition HeaderWire :: bytes where "HeaderWire = ''Mcp-Wire''"
definition HeaderFrame :: bytes where "HeaderFrame = ''Mcp-Frame''"
definition HeaderClaim :: bytes where "HeaderClaim = ''Mcp-Claim''"
definition HeaderAcceptClaim :: bytes where "HeaderAcceptClaim = ''Mcp-Accept-Claim''"
definition claimMaxBody :: nat where "claimMaxBody = 64 * 1024 * 1024"

datatype FrameKind = FrameMsg | FrameEnd | FrameErr | FrameKA

fun frame_kind_value :: "FrameKind \<Rightarrow> bytes" where
  "frame_kind_value FrameMsg = ''msg''"
| "frame_kind_value FrameEnd = ''end''"
| "frame_kind_value FrameErr = ''err''"
| "frame_kind_value FrameKA = ''ka''"

definition frame_Terminal :: "FrameKind \<Rightarrow> bool" where
  "frame_Terminal k = (k = FrameEnd \<or> k = FrameErr)"

definition ErrCodeStreamLost :: int where "ErrCodeStreamLost = -32010"
definition ErrCodeNoGateway :: int where "ErrCodeNoGateway = -32011"
definition ErrCodePayloadTooLarge :: int where "ErrCodePayloadTooLarge = -32012"
definition ErrCodePermissionDenied :: int where "ErrCodePermissionDenied = -32013"
definition ErrCodeCredentialUnavailable :: int where "ErrCodeCredentialUnavailable = -32014"

text \<open>A frame as published: its kind, its body, and the headers beside the kind.\<close>

record wire_frame =
  f_kind :: FrameKind
  f_body :: bytes
  f_error :: "(int \<times> bytes) option"
  f_claim :: "bytes option"

type_synonym overhead = "FrameKind \<Rightarrow> (int \<times> bytes) option \<Rightarrow> bytes option \<Rightarrow> nat"

definition frameOverhead :: "overhead \<Rightarrow> wire_frame \<Rightarrow> nat" where
  "frameOverhead ov f = ov (f_kind f) (f_error f) (f_claim f)"

definition endOverhead :: "overhead \<Rightarrow> nat" where
  "endOverhead ov = ov FrameEnd None None"

definition msgOverhead :: "overhead \<Rightarrow> nat" where
  "msgOverhead ov = ov FrameMsg None None"

definition errOverhead :: "overhead \<Rightarrow> int \<Rightarrow> bytes \<Rightarrow> nat" where
  "errOverhead ov code message = ov FrameErr (Some (code, message)) None"

definition msg_frame :: "bytes \<Rightarrow> wire_frame" where
  "msg_frame body = \<lparr>f_kind = FrameMsg, f_body = body, f_error = None, f_claim = None\<rparr>"

definition ka_frame :: wire_frame where
  "ka_frame = \<lparr>f_kind = FrameKA, f_body = [], f_error = None, f_claim = None\<rparr>"

definition end_frame :: "bytes \<Rightarrow> wire_frame" where
  "end_frame body = \<lparr>f_kind = FrameEnd, f_body = body, f_error = None, f_claim = None\<rparr>"

definition claim_frame :: "bytes \<Rightarrow> wire_frame" where
  "claim_frame cid = \<lparr>f_kind = FrameEnd, f_body = [], f_error = None, f_claim = Some cid\<rparr>"

definition err_frame :: "int \<Rightarrow> bytes \<Rightarrow> bytes \<Rightarrow> wire_frame" where
  "err_frame code message body =
     \<lparr>f_kind = FrameErr, f_body = body, f_error = Some (code, message), f_claim = None\<rparr>"

definition terminal :: "wire_frame \<Rightarrow> bool" where
  "terminal f = frame_Terminal (f_kind f)"

lemma terminal_frames [simp]:
  "\<not> terminal (msg_frame b)" "\<not> terminal ka_frame" "terminal (end_frame b)" "terminal (claim_frame i)"
  "terminal (err_frame c m b)"
  by (simp_all add: terminal_def frame_Terminal_def msg_frame_def ka_frame_def end_frame_def claim_frame_def
      err_frame_def)

text \<open>NATS refuses a message whose body and headers together exceed \<open>max_payload\<close>.\<close>

definition fits :: "overhead \<Rightarrow> nat \<Rightarrow> wire_frame \<Rightarrow> bool" where
  "fits ov limit f = (length (f_body f) + frameOverhead ov f \<le> limit)"

end
