(* ===== verification/StreamWriter.thy ===== *)
theory StreamWriter
  imports Frame
begin

text \<open>
  The reply stream of one request (\<open>streamWriter\<close> and the end of \<open>dispatch\<close> in
  \<open>pkg/wire/server.go\<close>).  Several goroutines write to it: the handler, the notifications a backend
  sends, the keepalive ticker, and \<open>dispatch\<close> itself once the handler is back.  Each is a task;
  one step of a task is what it does while it holds the lock, or between two acquisitions.
\<close>

section \<open>Error frames\<close>

text \<open>The \<open>data any\<close> of an error: nil, or what \<open>json.Marshal\<close> made of it (nothing if it failed).\<close>

datatype go_data = NilData | Data "bytes option"

definition data_raw :: "go_data \<Rightarrow> bytes option" where
  "data_raw d = (case d of NilData \<Rightarrow> None | Data r \<Rightarrow> r)"

definition noted_message :: "bytes \<Rightarrow> bytes" where
  "noted_message message = message @ '' [error data omitted: does not fit NATS max_payload]''"

definition shed_message :: "nat \<Rightarrow> nat \<Rightarrow> bytes" where
  "shed_message oversize limit =
     ''error detail dropped: '' @ itoa (int oversize) @
     '' byte error response does not fit NATS max_payload '' @ itoa (int limit)"

definition fitErrFrame ::
  "overhead \<Rightarrow> nat \<Rightarrow> bytes option \<Rightarrow> int \<Rightarrow> bytes \<Rightarrow> go_data \<Rightarrow> bytes \<Rightarrow> bytes \<times> bytes" where
  "fitErrFrame ov limit i code message d body =
     (let fit = (\<lambda>b m. length b + errOverhead ov code m \<le> limit) in
      if fit body message then (body, message)
      else
        (let noted = noted_message message;
             first = (if d \<noteq> NilData then
                        (case Encode (NewErrorResponse i code noted None) of
                           Inr b \<Rightarrow> if fit b noted then Some (b, noted) else None
                         | Inl _ \<Rightarrow> None)
                      else None) in
         case first of
           Some r \<Rightarrow> r
         | None \<Rightarrow>
             (let shed = shed_message (length body) limit in
              case Encode (NewErrorResponse i code shed None) of
                Inr b \<Rightarrow> (b, shed)
              | Inl _ \<Rightarrow> (body, message))))"

definition default_message :: "bytes \<Rightarrow> bytes" where
  "default_message m = (if m = [] then ''backend reported an error with no description'' else m)"

definition canned_body :: bytes where
  "canned_body = json_text
     ''{~jsonrpc~:~2.0~,~id~:null,~error~:{~code~:-32603,~message~:~error encoding failed~}}''"

text \<open>\<open>errWithID\<close> once the stream is claimed: the frame it hands to \<open>micro\<close>.\<close>

definition errWithID_frame :: "overhead \<Rightarrow> nat \<Rightarrow> bytes option \<Rightarrow> int \<Rightarrow> bytes \<Rightarrow> go_data \<Rightarrow> wire_frame" where
  "errWithID_frame ov limit i code message0 d =
     (let message = default_message message0 in
      case Encode (NewErrorResponse i code message (data_raw d)) of
        Inr body \<Rightarrow> (case fitErrFrame ov limit i code message d body of (b, m) \<Rightarrow> err_frame code m b)
      | Inl _ \<Rightarrow>
          (case fitErrFrame ov limit None CodeInternalError ''error encoding failed'' NilData canned_body of
             (b, m) \<Rightarrow> err_frame CodeInternalError m b))"

section \<open>The writer and its tasks\<close>

record wenv =
  ovh :: overhead
  maxPayload :: nat
  req_id :: "bytes option"
  has_claims :: bool
  acceptClaim :: bool

record writer =
  w_done :: bool
  w_out :: "wire_frame list"
  w_parked :: "bytes list"

datatype cause = NoCause | ClientCancelled | Draining

datatype task =
    MsgTask bytes
  | KATask
  | EndTask "bytes option"
  | ErrTask int bytes go_data
  | FinalTask cause "bytes option"
  | ParkedTask bytes
  | DeleteTask bytes
  | RespondTask wire_frame
  | DoneTask

text \<open>What the outside answers during one step: does the connection take a publish, what does \<open>Put\<close> return,
  does a \<open>Delete\<close> work.\<close>

record answer =
  publish_ok :: bool
  put_result :: "bytes option"
  delete_ok :: bool

text \<open>A publish fails when the connection does not take it, and when the frame exceeds \<open>max_payload\<close>.\<close>

definition publish :: "wenv \<Rightarrow> answer \<Rightarrow> wire_frame \<Rightarrow> writer \<Rightarrow> writer" where
  "publish env ans f w =
     (if publish_ok ans \<and> fits (ovh env) (maxPayload env) f then w\<lparr>w_out := w_out w @ [f]\<rparr> else w)"

text \<open>\<open>claim\<close>: sets \<open>done\<close> and reports whether it was the caller who did.\<close>

definition claim :: "writer \<Rightarrow> bool \<times> writer" where
  "claim w = (if w_done w then (False, w) else (True, w\<lparr>w_done := True\<rparr>))"

definition body_of :: "bytes option \<Rightarrow> bytes" where
  "body_of b = (case b of None \<Rightarrow> [] | Some s \<Rightarrow> s)"

definition size_data :: "nat \<Rightarrow> nat \<Rightarrow> go_data" where
  "size_data n limit =
     Data (Some (render (mk_object [(''limit'', marshal_int (int limit)), (''size'', marshal_int (int n))])))"

definition oversize_message :: "wenv \<Rightarrow> nat \<Rightarrow> bytes" where
  "oversize_message env n =
     ''response '' @ itoa (int n) @ '' bytes (+'' @ itoa (int (endOverhead (ovh env))) @
     '' frame headers) exceeds NATS max_payload '' @ itoa (int (maxPayload env))"

definition oversize_err :: "wenv \<Rightarrow> nat \<Rightarrow> task" where
  "oversize_err env n = ErrTask ErrCodePayloadTooLarge (oversize_message env n) (size_data n (maxPayload env))"

fun exec_task :: "wenv \<Rightarrow> answer \<Rightarrow> writer \<Rightarrow> task \<Rightarrow> writer \<times> task" where
  "exec_task env ans w (MsgTask body) =
     (if w_done w then (w, DoneTask)
      else if maxPayload env < length body + msgOverhead (ovh env) then (w, DoneTask)
      else (publish env ans (msg_frame body) w, DoneTask))"
| "exec_task env ans w KATask =
     (if w_done w then (w, DoneTask) else (publish env ans ka_frame w, DoneTask))"
| "exec_task env ans w (EndTask b) =
     (let body = body_of b in
      if maxPayload env < length body + endOverhead (ovh env) then
        if has_claims env \<and> acceptClaim env \<and> length body \<le> claimMaxBody then
          (case put_result ans of
             Some cid \<Rightarrow> (w\<lparr>w_parked := cid # w_parked w\<rparr>, ParkedTask cid)
           | None \<Rightarrow> (w, oversize_err env (length body)))
        else (w, oversize_err env (length body))
      else (case claim w of
              (False, w') \<Rightarrow> (w', DoneTask)
            | (True, w') \<Rightarrow> (w', RespondTask (end_frame body))))"
| "exec_task env ans w (ErrTask code message d) =
     (case claim w of
        (False, w') \<Rightarrow> (w', DoneTask)
      | (True, w') \<Rightarrow>
          (w', RespondTask (errWithID_frame (ovh env) (maxPayload env) (req_id env) code message d)))"
| "exec_task env ans w (FinalTask cause herr) =
     (if w_done w then (w, DoneTask)
      else (case cause of
        ClientCancelled \<Rightarrow> (w, EndTask None)
      | Draining \<Rightarrow> (w, ErrTask ErrCodeStreamLost ''gateway draining, re-issue the request'' NilData)
      | NoCause \<Rightarrow>
          (case herr of
             Some e \<Rightarrow> (w, ErrTask CodeInternalError e NilData)
           | None \<Rightarrow> (w, ErrTask CodeInternalError ''handler returned no response'' NilData))))"
| "exec_task env ans w (ParkedTask cid) =
     (case claim w of
        (False, w') \<Rightarrow> (w', DeleteTask cid)
      | (True, w') \<Rightarrow> (w', RespondTask (claim_frame cid)))"
| "exec_task env ans w (DeleteTask cid) =
     (if delete_ok ans then (w\<lparr>w_parked := removeAll cid (w_parked w)\<rparr>, DoneTask) else (w, DoneTask))"
| "exec_task env ans w (RespondTask f) = (publish env ans f w, DoneTask)"
| "exec_task env ans w DoneTask = (w, DoneTask)"

text \<open>One step of the \<open>n\<close>-th goroutine, and every state the goroutines can reach.\<close>

definition fresh_writer :: writer where
  "fresh_writer = \<lparr>w_done = False, w_out = [], w_parked = []\<rparr>"

definition initial_task :: "task \<Rightarrow> bool" where
  "initial_task t = (case t of ParkedTask _ \<Rightarrow> False | DeleteTask _ \<Rightarrow> False | RespondTask _ \<Rightarrow> False
     | DoneTask \<Rightarrow> False | _ \<Rightarrow> True)"

inductive sys_step ::
  "wenv \<Rightarrow> (answer \<Rightarrow> bool) \<Rightarrow> writer \<times> task list \<Rightarrow> writer \<times> task list \<Rightarrow> bool"
  for env good where
  step: "n < length ts \<Longrightarrow> ts ! n \<noteq> DoneTask \<Longrightarrow> good ans \<Longrightarrow> exec_task env ans w (ts ! n) = (w', t') \<Longrightarrow>
     sys_step env good (w, ts) (w', ts[n := t'])"

inductive sys_reach ::
  "wenv \<Rightarrow> (answer \<Rightarrow> bool) \<Rightarrow> task list \<Rightarrow> writer \<times> task list \<Rightarrow> bool"
  for env good init where
  start: "sys_reach env good init (fresh_writer, init)"
| more: "sys_reach env good init s \<Longrightarrow> sys_step env good s s' \<Longrightarrow> sys_reach env good init s'"

inductive_cases sys_stepE: "sys_step env good (w, ts) s'"

section \<open>Exactly one terminal frame\<close>

definition responding :: "task \<Rightarrow> bool" where
  "responding t = (case t of RespondTask _ \<Rightarrow> True | _ \<Rightarrow> False)"

definition task_ok :: "task \<Rightarrow> bool" where
  "task_ok t = (case t of RespondTask f \<Rightarrow> terminal f | _ \<Rightarrow> True)"

lemma responding_simps [simp]:
  "responding (RespondTask f)" "\<not> responding (MsgTask b)" "\<not> responding KATask" "\<not> responding (EndTask e)"
  "\<not> responding (ErrTask c m d)" "\<not> responding (FinalTask cs h)" "\<not> responding (ParkedTask i)"
  "\<not> responding (DeleteTask i)" "\<not> responding DoneTask"
  by (simp_all add: responding_def)

definition pending :: "task list \<Rightarrow> nat" where
  "pending ts = length (filter responding ts)"

text \<open>
  The invariant: notifications first, then at most one terminal frame, published or about to be,
  and one at most of these exists once the stream is claimed and none before.
\<close>

definition stream_inv :: "writer \<times> task list \<Rightarrow> bool" where
  "stream_inv s = (case s of (w, ts) \<Rightarrow>
     (\<exists>ms es. w_out w = ms @ es \<and> list_all (\<lambda>f. \<not> terminal f) ms \<and> list_all terminal es \<and>
        length es + pending ts \<le> 1 \<and> (\<not> w_done w \<longrightarrow> length es + pending ts = 0)) \<and>
     list_all task_ok ts)"

lemma filter_length_update:
  "n < length ts \<Longrightarrow> length (filter P (ts[n := t])) + (if P (ts ! n) then 1 else 0) =
     length (filter P ts) + (if P t then 1 else 0)"
proof (induction ts arbitrary: n)
  case (Cons a ts)
  then show ?case by (cases n) auto
qed simp

lemma pending_update:
  "n < length ts \<Longrightarrow> pending (ts[n := t]) + (if responding (ts ! n) then 1 else 0) =
     pending ts + (if responding t then 1 else 0)"
  unfolding pending_def by (rule filter_length_update)

lemma err_frame_terminal: "terminal (errWithID_frame ov limit i code m d)"
  by (simp add: errWithID_frame_def Let_def split: sum.split prod.split)

lemma oversize_err_simps [simp]: "\<not> responding (oversize_err env n)" "task_ok (oversize_err env n)"
  by (simp_all add: oversize_err_def task_ok_def)

text \<open>What one step may do to the published frames, seen from the invariant.\<close>

lemma exec_task_cases:
  assumes "exec_task env ans w t = (w', t')"
  obtains (quiet) "w_out w' = w_out w" "w_done w' = w_done w" "responding t = False" "responding t' = False" "task_ok t'"
  | (emit) f where "\<not> w_done w" "w_out w' = w_out w @ [f]" "\<not> terminal f" "w_done w' = w_done w"
      "responding t = False" "t' = DoneTask"
  | (claimed) f where "\<not> w_done w" "w_done w'" "w_out w' = w_out w" "t' = RespondTask f" "terminal f"
      "responding t = False"
  | (respond) f where "t = RespondTask f" "w_out w' = w_out w @ [f] \<or> w_out w' = w_out w" "w_done w' = w_done w"
      "t' = DoneTask"
proof (cases t)
  case (MsgTask b)
  with assms show ?thesis
    by (auto simp: publish_def task_ok_def split: if_splits intro: quiet emit)
next
  case KATask
  with assms show ?thesis
    by (auto simp: publish_def task_ok_def split: if_splits intro: quiet emit)
next
  case (EndTask b)
  with assms show ?thesis
    by (auto simp: claim_def Let_def task_ok_def oversize_err_def split: if_splits option.splits intro: quiet claimed)
next
  case (ErrTask c m d)
  with assms show ?thesis
    by (auto simp: claim_def task_ok_def err_frame_terminal split: if_splits intro: quiet claimed)
next
  case (FinalTask cs h)
  with assms show ?thesis
    by (auto simp: task_ok_def split: if_splits cause.splits option.splits intro: quiet)
next
  case (ParkedTask i)
  with assms show ?thesis
    by (auto simp: claim_def task_ok_def split: if_splits intro: quiet claimed)
next
  case (DeleteTask i)
  with assms show ?thesis
    by (auto simp: task_ok_def split: if_splits intro: quiet)
next
  case (RespondTask f)
  with assms show ?thesis by (auto simp: publish_def split: if_splits intro: respond)
next
  case DoneTask
  with assms show ?thesis by (auto simp: task_ok_def intro: quiet)
qed

lemma list_all_update: "list_all P ts \<Longrightarrow> P t \<Longrightarrow> list_all P (ts[n := t])"
  by (auto simp: list_all_iff dest: set_update_subset_insert [THEN subsetD])

lemma stream_inv_step:
  assumes "stream_inv s" "sys_step env good s s'"
  shows "stream_inv s'"
  using assms(2)
proof (cases rule: sys_step.cases)
  case (step n ts ans w w' t')
  from assms(1) step obtain ms es where out: "w_out w = ms @ es" and ms: "list_all (\<lambda>f. \<not> terminal f) ms"
    and es: "list_all terminal es" and le: "length es + pending ts \<le> 1"
    and fresh: "\<not> w_done w \<Longrightarrow> length es + pending ts = 0" and ok: "list_all task_ok ts"
    by (auto simp: stream_inv_def)
  note upd = pending_update [OF step(3), of t']
  from step(6) show ?thesis
  proof (cases rule: exec_task_cases)
    case quiet
    then have "pending (ts[n := t']) = pending ts" using upd by simp
    with quiet out ms es le fresh ok step(2) show ?thesis
      unfolding stream_inv_def by (auto intro!: list_all_update)
  next
    case (emit f)
    then have "pending (ts[n := t']) = pending ts" using upd by simp
    moreover have "es = []" using fresh emit(1) by simp
    ultimately have "w_out w' = (ms @ [f]) @ [] \<and> list_all (\<lambda>f. \<not> terminal f) (ms @ [f]) \<and> list_all terminal [] \<and>
        length [] + pending (ts[n := t']) \<le> 1 \<and> (\<not> w_done w' \<longrightarrow> length ([] :: wire_frame list) + pending (ts[n := t']) = 0)"
      using emit out ms le fresh by simp
    moreover have "list_all task_ok (ts[n := t'])" using ok emit(6) by (simp add: list_all_update task_ok_def)
    ultimately show ?thesis unfolding stream_inv_def step(2) by blast
  next
    case (claimed f)
    then have "pending (ts[n := t']) = Suc (pending ts)" using upd by simp
    moreover have "es = []" "pending ts = 0" using fresh claimed(1) by simp_all
    moreover have "list_all task_ok (ts[n := t'])" using ok claimed by (simp add: list_all_update task_ok_def)
    ultimately show ?thesis unfolding stream_inv_def step(2) using out ms claimed by auto
  next
    case (respond f)
    then have p: "Suc (pending (ts[n := t'])) = pending ts" using upd by simp
    then have "length es = 0" "pending (ts[n := t']) = 0" using le by linarith+
    then have e: "es = []" "pending (ts[n := t']) = 0" by simp_all
    have "task_ok (RespondTask f)" using ok step(3) respond(1) by (metis list_all_length)
    then have f: "terminal f" by (simp add: task_ok_def)
    have closed: "w_done w" using fresh p by force
    have "list_all task_ok (ts[n := t'])" using ok respond by (simp add: list_all_update task_ok_def)
    moreover obtain es' where "w_out w' = ms @ es'" "list_all terminal es'" "length es' \<le> 1"
      using respond(2) out e f by auto
    ultimately show ?thesis unfolding stream_inv_def step(2) using ms e(2) closed respond(3) by auto
  qed
qed

lemma stream_inv_start: "list_all initial_task init \<Longrightarrow> stream_inv (fresh_writer, init)"
proof -
  assume i: "list_all initial_task init"
  then have "pending init = 0"
    by (auto simp: pending_def list_all_iff initial_task_def filter_empty_conv responding_def split: task.splits)
  moreover have "list_all task_ok init"
    using i by (auto simp: list_all_iff initial_task_def task_ok_def split: task.splits)
  ultimately show ?thesis by (simp add: stream_inv_def fresh_writer_def)
qed

lemma stream_inv_reach:
  "sys_reach env good init s \<Longrightarrow> list_all initial_task init \<Longrightarrow> stream_inv s"
  by (induction rule: sys_reach.induct) (auto intro: stream_inv_start stream_inv_step)

text \<open>
  C6.  Whatever the goroutines of a request do and however their steps interleave, its reply
  stream is a run of non-terminal frames followed by at most one terminal frame: nothing is ever
  published behind the terminal frame and no second one goes out.
\<close>

theorem nothing_after_terminal:
  assumes "sys_reach env good init (w, ts)" "list_all initial_task init"
  shows "\<exists>ms es. w_out w = ms @ es \<and> list_all (\<lambda>f. \<not> terminal f) ms \<and> list_all terminal es \<and> length es \<le> 1"
proof -
  from stream_inv_reach [OF assms] obtain ms es where "w_out w = ms @ es" "list_all (\<lambda>f. \<not> terminal f) ms"
    "list_all terminal es" "length es + pending ts \<le> 1"
    by (auto simp: stream_inv_def)
  moreover from this(4) have "length es \<le> 1" by linarith
  ultimately show ?thesis by blast
qed

lemma nothing_after_terminal_witness:
  "\<exists>ms es. [msg_frame ''a'', end_frame ''r''] = ms @ es \<and> list_all (\<lambda>f. \<not> terminal f) ms \<and>
     list_all terminal es \<and> length es \<le> 1"
proof -
  let ?env = "\<lparr>ovh = (\<lambda>_ _ _. 0), maxPayload = 10, req_id = None, has_claims = False, acceptClaim = False\<rparr>"
  let ?ans = "\<lparr>publish_ok = True, put_result = None, delete_ok = True\<rparr>"
  let ?w1 = "\<lparr>w_done = False, w_out = [msg_frame ''a''], w_parked = []\<rparr>"
  let ?w2 = "\<lparr>w_done = True, w_out = [msg_frame ''a''], w_parked = []\<rparr>"
  let ?w3 = "\<lparr>w_done = True, w_out = [msg_frame ''a'', end_frame ''r''], w_parked = []\<rparr>"
  have s1: "sys_step ?env publish_ok (fresh_writer, [MsgTask ''a'', EndTask (Some ''r'')]) (?w1, [DoneTask, EndTask (Some ''r'')])"
    using sys_step.step [of 0 "[MsgTask ''a'', EndTask (Some ''r'')]" publish_ok ?ans ?env fresh_writer ?w1 DoneTask]
    by (simp add: fresh_writer_def publish_def msgOverhead_def fits_def frameOverhead_def msg_frame_def)
  have s2: "sys_step ?env publish_ok (?w1, [DoneTask, EndTask (Some ''r'')]) (?w2, [DoneTask, RespondTask (end_frame ''r'')])"
    using sys_step.step [of 1 "[DoneTask, EndTask (Some ''r'')]" publish_ok ?ans ?env ?w1 ?w2 "RespondTask (end_frame ''r'')"]
    by (simp add: claim_def body_of_def endOverhead_def)
  have s3: "sys_step ?env publish_ok (?w2, [DoneTask, RespondTask (end_frame ''r'')]) (?w3, [DoneTask, DoneTask])"
    using sys_step.step [of 1 "[DoneTask, RespondTask (end_frame ''r'')]" publish_ok ?ans ?env ?w2 ?w3 DoneTask]
    by (simp add: publish_def fits_def frameOverhead_def end_frame_def)
  have "sys_reach ?env publish_ok [MsgTask ''a'', EndTask (Some ''r'')] (?w3, [DoneTask, DoneTask])"
    by (rule sys_reach.more [OF sys_reach.more [OF sys_reach.more [OF sys_reach.start s1] s2] s3])
  from nothing_after_terminal [OF this] show ?thesis by (simp add: initial_task_def)
qed

section \<open>Which frames a task can answer with\<close>

text \<open>A task that will end the stream if nothing else has.\<close>

definition ending :: "task \<Rightarrow> bool" where
  "ending t = (case t of EndTask _ \<Rightarrow> True | ErrTask _ _ _ \<Rightarrow> True | FinalTask _ _ \<Rightarrow> True | ParkedTask _ \<Rightarrow> True
     | _ \<Rightarrow> False)"

lemma ending_simps [simp]:
  "ending (EndTask b)" "ending (ErrTask c m d)" "ending (FinalTask cs h)" "ending (ParkedTask i)"
  "\<not> ending (MsgTask b')" "\<not> ending KATask" "\<not> ending (DeleteTask i)" "\<not> ending (RespondTask f)" "\<not> ending DoneTask"
  "ending (oversize_err env n)"
  by (simp_all add: ending_def oversize_err_def)

text \<open>
  The frames that can carry a response: the response itself if it fits, else a reference to where it was
  parked or the error that names its size.
\<close>

definition err_answer :: "wenv \<Rightarrow> int \<Rightarrow> bytes \<Rightarrow> go_data \<Rightarrow> wire_frame" where
  "err_answer env code message d = errWithID_frame (ovh env) (maxPayload env) (req_id env) code message d"

definition end_answer :: "wenv \<Rightarrow> bytes \<Rightarrow> wire_frame \<Rightarrow> bool" where
  "end_answer env body f \<longleftrightarrow>
     (if length body + endOverhead (ovh env) \<le> maxPayload env then f = end_frame body
      else f = err_answer env ErrCodePayloadTooLarge (oversize_message env (length body)) (size_data (length body) (maxPayload env)) \<or>
        has_claims env \<and> acceptClaim env \<and> length body \<le> claimMaxBody \<and> (\<exists>cid. f = claim_frame cid))"

text \<open>What \<open>dispatch\<close> answers when its handler did not.\<close>

definition final_answer :: "wenv \<Rightarrow> cause \<Rightarrow> bytes option \<Rightarrow> wire_frame \<Rightarrow> bool" where
  "final_answer env c herr f \<longleftrightarrow>
     (case c of
        ClientCancelled \<Rightarrow> end_answer env [] f
      | Draining \<Rightarrow> f = err_answer env ErrCodeStreamLost ''gateway draining, re-issue the request'' NilData
      | NoCause \<Rightarrow> f = err_answer env CodeInternalError
          (case herr of Some e \<Rightarrow> e | None \<Rightarrow> ''handler returned no response'') NilData)"

fun answers :: "wenv \<Rightarrow> task \<Rightarrow> wire_frame \<Rightarrow> bool" where
  "answers env (EndTask b) f = end_answer env (body_of b) f"
| "answers env (ErrTask code message d) f = (f = err_answer env code message d)"
| "answers env (FinalTask c herr) f = final_answer env c herr f"
| "answers env (ParkedTask cid) f = (f = claim_frame cid)"
| "answers env (RespondTask g) f = (f = g)"
| "answers env _ f = False"

lemma exec_answers:
  assumes "exec_task env ans w t = (w', t')" "answers env t' f"
  shows "answers env t f"
  using assms
  by (cases t) (auto simp: claim_def Let_def oversize_err_def end_answer_def final_answer_def err_answer_def body_of_def
      split: if_splits option.splits cause.splits)

text \<open>How a task that may still end the stream goes on: it has claimed it, or may still.\<close>

lemma exec_ending:
  assumes "exec_task env ans w t = (w', t')" "ending t" "\<not> w_done w"
  shows "w_out w' = w_out w \<and> (w_done w' \<and> (\<exists>f. t' = RespondTask f) \<or> \<not> w_done w' \<and> ending t')"
  using assms by (cases t) (auto simp: claim_def Let_def oversize_err_def split: if_splits option.splits cause.splits)

lemma answers_terminal: "answers env t f \<Longrightarrow> ending t \<Longrightarrow> terminal f"
  by (cases t) (auto simp: end_answer_def final_answer_def err_answer_def err_frame_terminal split: if_splits cause.splits)

section \<open>When an answer fits\<close>

text \<open>The error that is left when all detail is shed: its code, a fixed text and the id.\<close>

definition shed_frame :: "nat \<Rightarrow> bytes option \<Rightarrow> wire_frame \<Rightarrow> bool" where
  "shed_frame limit i f \<longleftrightarrow>
     (\<exists>code n b. Encode (NewErrorResponse i code (shed_message n limit) None) = Inr b \<and> f = err_frame code (shed_message n limit) b)"

lemma Encode_error_again:
  assumes "Encode (NewErrorResponse i code m d) = Inr b"
  shows "\<exists>b'. Encode (NewErrorResponse i code' m' None) = Inr b'"
  using assms
  by (auto simp: Encode_def message_fields_of_def NewErrorResponse_def zero_message_def error_field_def raw_field_def bind_err_Inr
      split: option.splits if_splits sum.splits)

lemma fits_err_frame [simp]: "fits ov limit (err_frame code m b) \<longleftrightarrow> length b + errOverhead ov code m \<le> limit"
  by (simp add: fits_def frameOverhead_def err_frame_def errOverhead_def)

lemma fitErrFrame_fits:
  assumes "Encode (NewErrorResponse i code m0 d0) = Inr b0" "fitErrFrame ov limit i code m d body = (b, m')"
  shows "fits ov limit (err_frame code m' b) \<or> shed_frame limit i (err_frame code m' b)"
proof -
  obtain sb where "Encode (NewErrorResponse i code (shed_message (length body) limit) None) = Inr sb"
    using Encode_error_again [OF assms(1)] by blast
  with assms(2) show ?thesis
    by (auto simp: fitErrFrame_def Let_def shed_frame_def split: if_splits sum.splits)
qed

text \<open>An error fails to fit only after all that can be shed is, and the id, which is kept, is too long.\<close>

lemma errWithID_fits:
  "fits ov limit (errWithID_frame ov limit i code m d) \<or> shed_frame limit i (errWithID_frame ov limit i code m d) \<or>
     shed_frame limit None (errWithID_frame ov limit i code m d)"
proof (cases "Encode (NewErrorResponse i code (default_message m) (data_raw d))")
  case (Inr body)
  obtain b m' where f: "fitErrFrame ov limit i code (default_message m) d body = (b, m')" by fastforce
  with fitErrFrame_fits [OF Inr f] Inr show ?thesis by (auto simp: errWithID_frame_def)
next
  case (Inl e)
  let ?c = "''error encoding failed''"
  obtain b m' where f: "fitErrFrame ov limit None CodeInternalError ?c NilData canned_body = (b, m')" by fastforce
  have "marshal_raw ''null'' = Inr (compact json_null)" by code_simp
  then obtain b0 where "Encode (NewErrorResponse None CodeInternalError [] None) = Inr b0"
    by (simp add: Encode_def message_fields_of_def NewErrorResponse_def zero_message_def error_field_def raw_field_def bind_err_def)
  from fitErrFrame_fits [OF this f] f Inl show ?thesis by (auto simp: errWithID_frame_def)
qed

lemma answer_fits:
  assumes "answers env t f" "ending t" "\<not> fits (ovh env) (maxPayload env) f"
  shows "shed_frame (maxPayload env) (req_id env) f \<or> shed_frame (maxPayload env) None f \<or> (\<exists>cid. f = claim_frame cid)"
proof -
  have "fits (ovh env) (maxPayload env) (end_frame b)" if "length b + endOverhead (ovh env) \<le> maxPayload env" for b
    using that by (simp add: fits_def frameOverhead_def end_frame_def endOverhead_def)
  with assms have "(\<exists>cid. f = claim_frame cid) \<or> (\<exists>code m d. f = err_answer env code m d)"
    by (cases t; simp add: end_answer_def final_answer_def split: if_splits cause.splits; blast)
  with assms(3) errWithID_fits show ?thesis unfolding err_answer_def by blast
qed

section \<open>Progress\<close>

text \<open>How many steps a task can still take.\<close>

fun task_rank :: "task \<Rightarrow> nat" where
  "task_rank (MsgTask b) = 1"
| "task_rank KATask = 1"
| "task_rank (EndTask b) = 3"
| "task_rank (ErrTask c m d) = 2"
| "task_rank (FinalTask cs h) = 4"
| "task_rank (ParkedTask i) = 2"
| "task_rank (DeleteTask i) = 1"
| "task_rank (RespondTask f) = 1"
| "task_rank DoneTask = 0"

lemma exec_task_rank:
  "exec_task env ans w t = (w', t') \<Longrightarrow> t \<noteq> DoneTask \<Longrightarrow> task_rank t' < task_rank t"
  by (cases t) (auto simp: claim_def Let_def oversize_err_def split: if_splits option.splits cause.splits)

definition total_rank :: "writer \<times> task list \<Rightarrow> nat" where
  "total_rank s = sum_list (map task_rank (snd s))"

lemma sum_list_update_less:
  "n < length ts \<Longrightarrow> f t < (f (ts ! n) :: nat) \<Longrightarrow> sum_list (map f (ts[n := t])) < sum_list (map f ts)"
proof (induction ts arbitrary: n)
  case (Cons a ts)
  then show ?case by (cases n) auto
qed simp

lemma sys_step_rank: "sys_step env good s s' \<Longrightarrow> total_rank s' < total_rank s"
  by (erule sys_step.cases) (auto simp: total_rank_def exec_task_rank intro!: sum_list_update_less)

lemma exec_steps: "\<exists>w' t'. exec_task env ans w t = (w', t')"
  by (cases "exec_task env ans w t") auto

definition ex_wenv :: wenv where
  "ex_wenv = \<lparr>ovh = (\<lambda>_ _ _. 40), maxPayload = 1024, req_id = Some ''7'', has_claims = False, acceptClaim = False\<rparr>"

section \<open>Error frames keep the request id\<close>

lemma itoa_ascii: "ascii (itoa n)"
proof -
  have "list_all json_digit (nat_digits m)" for m using nat_digits_digits by blast
  then have "list_all (\<lambda>c. byte c < 0x80) (nat_digits m)" for m
    by (rule list.pred_mono_strong) (auto simp: json_digit_def)
  then show ?thesis by (simp add: itoa_def ascii_def)
qed

lemma message_valid:
  "utf8_Valid m \<Longrightarrow> utf8_Valid (default_message m)"
  "utf8_Valid m \<Longrightarrow> utf8_Valid (noted_message m)"
  "utf8_Valid (shed_message n l)"
proof -
  have lit: "utf8_Valid ''backend reported an error with no description''"
    "utf8_Valid '' [error data omitted: does not fit NATS max_payload]''"
    by (rule utf8_Valid_ascii, simp)+
  show "utf8_Valid (default_message m)" if "utf8_Valid m"
    using that lit(1) by (simp add: default_message_def)
  show "utf8_Valid (noted_message m)" if "utf8_Valid m"
    unfolding noted_message_def using that lit(2) by (rule utf8_Valid_append)
  show "utf8_Valid (shed_message n l)"
    by (rule utf8_Valid_ascii) (simp add: shed_message_def itoa_ascii ascii_append)
qed

definition response_id :: "bytes option \<Rightarrow> bytes option" where
  "response_id i = compact_raw (Some (case i of None \<Rightarrow> ''null'' | Some r \<Rightarrow> r))"

text \<open>The body of an error frame tells the id, and the code and message its headers tell.\<close>

definition err_body_ok :: "bytes option \<Rightarrow> int \<Rightarrow> bytes \<Rightarrow> bytes \<Rightarrow> bool" where
  "err_body_ok i code message body =
     (\<exists>m d. Decode body = Inr m \<and> Kind m = KindResponse \<and> ID m = response_id i \<and>
        Error m = Some \<lparr>err_code = code, err_message = message, err_data = d\<rparr>)"

definition err_inputs :: "bytes option \<Rightarrow> int \<Rightarrow> bool" where
  "err_inputs i code = (raw_fits 1 i \<and> - (2 ^ 63) \<le> code \<and> code < 2 ^ 63)"

lemma null_parses: "json_parse ''null'' = Some json_null"
  by code_simp

lemma error_response_fits:
  assumes "err_inputs i code" "utf8_Valid message" "raw_fits 2 r"
  shows "message_fits (NewErrorResponse i code message r)"
proof -
  have "raw_fits 1 (Some (case i of None \<Rightarrow> ''null'' | Some x \<Rightarrow> x))"
    using assms(1) by (auto simp: err_inputs_def raw_fits_def null_parses json_null_def maxNestingDepth_def
        split: option.splits)
  moreover have "raw_fits n None" for n by (simp add: raw_fits_def)
  ultimately show ?thesis
    using assms by (simp add: message_fits_def NewErrorResponse_def zero_message_def error_fits_def err_inputs_def)
qed

lemma error_response_encodes:
  assumes "err_inputs i code" "utf8_Valid message" "raw_fits 2 r"
  obtains body where "Encode (NewErrorResponse i code message r) = Inr body" "err_body_ok i code message body"
proof -
  let ?m = "NewErrorResponse i code message r"
  have f: "message_fits ?m" by (rule error_response_fits [OF assms])
  have k: "Kind ?m = KindResponse" by (simp add: Kind_def NewErrorResponse_def zero_message_def)
  then have "Kind ?m \<noteq> KindInvalid" by simp
  then obtain body where b: "Encode ?m = Inr body" "Decode body = Inr (canonical ?m)"
    using Encode_unmarshal [OF f] Decode_Encode_canonical [OF f] by metis
  moreover have "Kind (canonical ?m) = KindResponse" using Kind_canonical [OF f] k by simp
  ultimately have "err_body_ok i code message body"
    by (auto simp: err_body_ok_def response_id_def canonical_def NewErrorResponse_def zero_message_def canonical_error_def)
  with b(1) show ?thesis by (rule that)
qed

lemma fitErrFrame_ok:
  assumes "err_inputs i code" "utf8_Valid message" "err_body_ok i code message body"
    and "fitErrFrame ov limit i code message d body = (b, m)"
  shows "err_body_ok i code m b"
proof -
  have none: "raw_fits 2 None" by (simp add: raw_fits_def)
  obtain nb where nb: "Encode (NewErrorResponse i code (noted_message message) None) = Inr nb"
    "err_body_ok i code (noted_message message) nb"
    by (rule error_response_encodes [OF assms(1) message_valid(2) [OF assms(2)] none])
  obtain sb where sb: "Encode (NewErrorResponse i code (shed_message (length body) limit) None) = Inr sb"
    "err_body_ok i code (shed_message (length body) limit) sb"
    by (rule error_response_encodes [OF assms(1) message_valid(3) none])
  show ?thesis
    using assms(3,4) nb sb by (auto simp: fitErrFrame_def Let_def split: if_splits)
qed

text \<open>
  An error frame never loses the request's id, whatever has to be shed to make it fit: the
  body decodes to an error response with that id, and its code and message are the ones the frame
  repeats in its headers.
\<close>

theorem err_frame_keeps_id:
  assumes "err_inputs i code" "utf8_Valid message" "raw_fits 2 (data_raw d)"
  shows "\<exists>m. f_error (errWithID_frame ov limit i code message d) = Some (code, m) \<and>
    err_body_ok i code m (f_body (errWithID_frame ov limit i code message d))"
proof -
  obtain body where b: "Encode (NewErrorResponse i code (default_message message) (data_raw d)) = Inr body"
    "err_body_ok i code (default_message message) body"
    by (rule error_response_encodes [OF assms(1) message_valid(1) [OF assms(2)] assms(3)])
  obtain fb m where f: "fitErrFrame ov limit i code (default_message message) d body = (fb, m)" by fastforce
  then have "err_body_ok i code m fb"
    by (rule fitErrFrame_ok [OF assms(1) message_valid(1) [OF assms(2)] b(2)])
  with b(1) f show ?thesis by (simp add: errWithID_frame_def err_frame_def)
qed

lemma err_frame_keeps_id_witness:
  "\<exists>m. f_error (errWithID_frame (\<lambda>_ _ _. 100) 50 (Some ''7'') (- 32603) ''boom'' NilData) = Some (- 32603, m) \<and>
     err_body_ok (Some ''7'') (- 32603) m (f_body (errWithID_frame (\<lambda>_ _ _. 100) 50 (Some ''7'') (- 32603) ''boom'' NilData))"
proof (rule err_frame_keeps_id)
  have "json_parse ''7'' = Some (JScalar ''7'')" by code_simp
  then show "err_inputs (Some ''7'') (- 32603)" by (simp add: err_inputs_def raw_fits_def maxNestingDepth_def)
  show "utf8_Valid ''boom''" by (rule utf8_Valid_ascii) simp
  show "raw_fits 2 (data_raw NilData)" by (simp add: raw_fits_def data_raw_def)
qed

text \<open>What is published fits.\<close>

lemma exec_task_out:
  "exec_task env ans w t = (w', t') \<Longrightarrow> w_out w' = w_out w \<or> (\<exists>f. w_out w' = w_out w @ [f] \<and> fits (ovh env) (maxPayload env) f)"
  by (cases t) (auto simp: publish_def claim_def Let_def split: if_splits option.splits cause.splits)

lemma published_fits: "sys_reach env good init (w, ts) \<Longrightarrow> list_all (fits (ovh env) (maxPayload env)) (w_out w)"
proof (induction "(w, ts)" arbitrary: w ts rule: sys_reach.induct)
  case (more s)
  obtain w0 ts0 where s: "s = (w0, ts0)" by fastforce
  with more.hyps(3) obtain n ans t' where "exec_task env ans w0 (ts0 ! n) = (w, t')" by (auto elim: sys_stepE)
  from exec_task_out [OF this] more.hyps(2) [OF s] show ?case by auto
qed (simp add: fresh_writer_def)

end
