(* ===== verification/Integrity.thy ===== *)
theory Integrity
  imports Params Jsonrpc Subject HeaderValue
begin

text \<open>
  The integrity check (\<open>pkg/proxy/integrity.go\<close>): the subject NATS enforced, the headers and the
  body must agree before the body is forwarded.
\<close>

section \<open>The check\<close>

text \<open>\<open>hdr\<close> is \<open>Header.Get\<close> of the request: the value of a header, empty when absent.\<close>

record Inbound =
  in_msg :: message
  in_subject :: ParsedSubject
  hdr :: "bytes \<Rightarrow> bytes"

datatype mismatch_reason =
    HeaderMethodDiffers bytes bytes
  | SubjectMethodDiffers bytes bytes
  | NameRequired bytes
  | NameHeaderMalformed
  | NameHeaderDiffers bytes bytes
  | SubjectNameDiffers bytes bytes
  | VersionHeaderMalformed
  | VersionHeaderDiffers bytes bytes
  | ParamsAmbiguous params_error

datatype check_message =
    NotARequest
  | Mismatch mismatch_reason
  | ParamsInvalid params_error
  | VersionUnsupported (requested: bytes)

record CheckError =
  check_code :: int
  check_msg :: check_message
  check_data :: "(bytes list \<times> bytes) option"

definition mismatch :: "mismatch_reason \<Rightarrow> CheckError" where
  "mismatch r = \<lparr>check_code = ErrHeaderMismatch, check_msg = Mismatch r, check_data = None\<rparr>"

definition badParams :: "params_error \<Rightarrow> CheckError" where
  "badParams e =
     (case e of
        AmbiguousKeyError a b \<Rightarrow> mismatch (ParamsAmbiguous e)
      | _ \<Rightarrow> \<lparr>check_code = CodeInvalidRequest, check_msg = ParamsInvalid e, check_data = None\<rparr>)"

definition raw_bytes :: "bytes option \<Rightarrow> bytes" where
  "raw_bytes r = (case r of None \<Rightarrow> [] | Some s \<Rightarrow> s)"

definition check_kind :: "Inbound \<Rightarrow> CheckError + unit" where
  "check_kind i =
     (if Kind (in_msg i) \<noteq> KindRequest
      then Inl \<lparr>check_code = CodeInvalidRequest, check_msg = NotARequest, check_data = None\<rparr>
      else Inr ())"

definition check_method :: "Inbound \<Rightarrow> CheckError + unit" where
  "check_method i =
     (let hm = hdr i HeaderMethod; bm = Method (in_msg i) in
      if hm \<noteq> bm then Inl (mismatch (HeaderMethodDiffers hm bm))
      else if subj_Method (in_subject i) \<noteq> bm
      then Inl (mismatch (SubjectMethodDiffers (subj_Method (in_subject i)) bm))
      else Inr ())"

definition check_params :: "Inbound \<Rightarrow> CheckError + params" where
  "check_params i =
     (case DecodeParams (raw_bytes (msg_params (in_msg i))) of
        Inl e \<Rightarrow> Inl (badParams e)
      | Inr p \<Rightarrow> (case CheckReadableMeta p of Inl e \<Rightarrow> Inl (badParams e) | Inr _ \<Rightarrow> Inr p))"

definition check_name :: "Inbound \<Rightarrow> params \<Rightarrow> CheckError + bytes" where
  "check_name i p =
     (case params_Name p (Method (in_msg i)) of
        Inl e \<Rightarrow> Inl (badParams e)
      | Inr None \<Rightarrow> Inr []
      | Inr (Some bodyName) \<Rightarrow>
          if bodyName = [] then Inl (mismatch (NameRequired (Method (in_msg i))))
          else (case DecodeHeaderValue (hdr i HeaderName) of
                  Inl _ \<Rightarrow> Inl (mismatch NameHeaderMalformed)
                | Inr hn \<Rightarrow>
                    if hn \<noteq> bodyName then Inl (mismatch (NameHeaderDiffers hn bodyName))
                    else Inr bodyName))"

definition check_token :: "Inbound \<Rightarrow> bytes \<Rightarrow> CheckError + unit" where
  "check_token i bodyName =
     (let wantToken = SubjectNameToken (Method (in_msg i)) bodyName in
      if Name (in_subject i) \<noteq> wantToken
      then Inl (mismatch (SubjectNameDiffers (Name (in_subject i)) wantToken))
      else Inr ())"

definition check_version :: "Inbound \<Rightarrow> params \<Rightarrow> CheckError + unit" where
  "check_version i p =
     (case params_ProtocolVersion p of
        Inl e \<Rightarrow> Inl (badParams e)
      | Inr bodyVer \<Rightarrow>
          (case DecodeHeaderValue (hdr i HeaderProtocolVersion) of
             Inl _ \<Rightarrow> Inl (mismatch VersionHeaderMalformed)
           | Inr hv \<Rightarrow>
               if hv \<noteq> bodyVer then Inl (mismatch (VersionHeaderDiffers hv bodyVer))
               else if \<not> IsSupportedProtocolVersion bodyVer
               then Inl \<lparr>check_code = ErrUnsupportedProtocolVersion, check_msg = VersionUnsupported bodyVer,
                      check_data = Some (SupportedProtocolVersions, bodyVer)\<rparr>
               else Inr ()))"

definition Check :: "Inbound \<Rightarrow> CheckError + bytes" where
  "Check i =
     bind_err (check_kind i) (\<lambda>_.
     bind_err (check_method i) (\<lambda>_.
     bind_err (check_params i) (\<lambda>p.
     bind_err (check_name i p) (\<lambda>bodyName.
     bind_err (check_token i bodyName) (\<lambda>_.
     bind_err (check_version i p) (\<lambda>_. Inr bodyName))))))"

section \<open>What acceptance means\<close>

lemma check_kind_Inr: "check_kind i = Inr u \<longleftrightarrow> Kind (in_msg i) = KindRequest"
  by (simp add: check_kind_def)

lemma check_method_Inr:
  "check_method i = Inr u \<longleftrightarrow>
     hdr i HeaderMethod = Method (in_msg i) \<and> subj_Method (in_subject i) = Method (in_msg i)"
  by (simp add: check_method_def Let_def)

lemma check_params_Inr:
  "check_params i = Inr p \<longleftrightarrow>
     DecodeParams (raw_bytes (msg_params (in_msg i))) = Inr p \<and> CheckReadableMeta p = Inr ()"
  by (auto simp: check_params_def split: sum.splits)

lemma check_name_Inr:
  "check_name i p = Inr n \<longleftrightarrow>
     (params_Name p (Method (in_msg i)) = Inr None \<and> n = []) \<or>
     (params_Name p (Method (in_msg i)) = Inr (Some n) \<and> n \<noteq> [] \<and> DecodeHeaderValue (hdr i HeaderName) = Inr n)"
  by (auto simp: check_name_def split: sum.splits option.splits if_splits)

lemma check_token_Inr:
  "check_token i n = Inr u \<longleftrightarrow> Name (in_subject i) = SubjectNameToken (Method (in_msg i)) n"
  by (simp add: check_token_def Let_def)

lemma check_version_Inr:
  "check_version i p = Inr u \<longleftrightarrow>
     (\<exists>ver. params_ProtocolVersion p = Inr ver \<and> DecodeHeaderValue (hdr i HeaderProtocolVersion) = Inr ver \<and>
        IsSupportedProtocolVersion ver)"
  by (auto simp: check_version_def split: sum.splits if_splits)

lemmas check_Inr = check_kind_Inr check_method_Inr check_params_Inr check_name_Inr check_token_Inr
  check_version_Inr

lemma Check_Inr:
  "Check i = Inr n \<longleftrightarrow>
     Kind (in_msg i) = KindRequest \<and>
     hdr i HeaderMethod = Method (in_msg i) \<and> subj_Method (in_subject i) = Method (in_msg i) \<and>
     (\<exists>p. DecodeParams (raw_bytes (msg_params (in_msg i))) = Inr p \<and> CheckReadableMeta p = Inr () \<and>
       ((params_Name p (Method (in_msg i)) = Inr None \<and> n = []) \<or>
        (params_Name p (Method (in_msg i)) = Inr (Some n) \<and> n \<noteq> [] \<and>
         DecodeHeaderValue (hdr i HeaderName) = Inr n)) \<and>
       Name (in_subject i) = SubjectNameToken (Method (in_msg i)) n \<and>
       (\<exists>ver. params_ProtocolVersion p = Inr ver \<and>
          DecodeHeaderValue (hdr i HeaderProtocolVersion) = Inr ver \<and> IsSupportedProtocolVersion ver))"
  unfolding Check_def bind_err_Inr check_Inr by blast

lemma params_Name_Inr:
  "params_Name p method = Inr (Some n) \<longleftrightarrow> NameField method \<noteq> [] \<and> params_String p (NameField method) = Inr n"
  by (auto simp: params_Name_def Let_def split: sum.splits)

lemma params_Name_None: "params_Name p method = Inr None \<longleftrightarrow> NameField method = []"
  by (auto simp: params_Name_def Let_def split: sum.splits)

lemma params_String_Inr:
  assumes "params_String p k = Inr n" "n \<noteq> []"
  obtains raw where "Raw p k = Inr (Some raw)" "unmarshal_string raw = Inr n"
  using assms by (auto simp: params_String_def split: sum.splits option.splits)

lemma DecodeParams_nonempty:
  assumes "DecodeParams raw = Inr p" "p \<noteq> []"
  obtains w ms where "json_parse raw = Some (JObject w ms)"
  using assms
  by (auto simp: DecodeParams_def unmarshal_map_def split: if_splits sum.splits option.splits jval.splits)

lemma params_String_valid: "params_String p k = Inr s \<Longrightarrow> utf8_Valid s"
  by (auto simp: params_String_def dest: unmarshal_string_valid split: sum.splits option.splits)

lemma params_Name_valid: "params_Name p method = Inr (Some n) \<Longrightarrow> utf8_Valid n"
  by (auto simp: params_Name_Inr params_String_valid)

lemma params_ProtocolVersion_valid: "params_ProtocolVersion p = Inr v \<Longrightarrow> utf8_Valid v"
  by (auto simp: params_ProtocolVersion_def dest: params_String_valid split: sum.splits params_error.splits)

lemma Check_authorized:
  assumes "Check i = Inr name" "NameField (Method (in_msg i)) \<noteq> []"
    and "\<And>a. same a a" "\<And>a b. same a b \<Longrightarrow> EqualFoldKey a b"
  shows "subj_Method (in_subject i) = Method (in_msg i) \<and>
    Name (in_subject i) = SubjectNameToken (Method (in_msg i)) name \<and>
    (\<exists>w ms raw. json_parse (raw_bytes (msg_params (in_msg i))) = Some (JObject w ms) \<and>
       reader same take_last ms (NameField (Method (in_msg i))) = Some raw \<and>
       unmarshal_string raw = Inr name)"
proof -
  from assms(1,2) obtain p where p: "DecodeParams (raw_bytes (msg_params (in_msg i))) = Inr p"
    and n: "params_String p (NameField (Method (in_msg i))) = Inr name" "name \<noteq> []"
    and s: "subj_Method (in_subject i) = Method (in_msg i)"
      "Name (in_subject i) = SubjectNameToken (Method (in_msg i)) name"
    unfolding Check_Inr params_Name_None params_Name_Inr by blast
  obtain raw where raw: "Raw p (NameField (Method (in_msg i))) = Inr (Some raw)" "unmarshal_string raw = Inr name"
    using n by (rule params_String_Inr)
  then have "p \<noteq> []" by (auto simp: Raw_def split: sum.splits)
  with p obtain w ms where ms: "json_parse (raw_bytes (msg_params (in_msg i))) = Some (JObject w ms)"
    by (rule DecodeParams_nonempty)
  have "reader same take_last ms (NameField (Method (in_msg i))) = Some raw"
    by (rule Raw_reader [OF ms p raw(1)]) (use assms(3,4) in auto)
  with s ms raw(2) show ?thesis by blast
qed

text \<open>
  What is executed is what was authorized.  If \<open>Check\<close> accepts a request of a named method
  and returns \<open>name\<close>, then the subject's method is the body's, the subject's last token is the
  token of \<open>name\<close>, and every backend, whatever its notion of equal keys and whichever of several
  matches it takes, reads the string \<open>name\<close> from the name field of the very bytes forwarded.
\<close>

theorem Check_authorizes_what_runs:
  assumes "Check i = Inr name" "NameField (Method (in_msg i)) \<noteq> []"
    and "\<And>a. same a a" "\<And>a b. same a b \<Longrightarrow> EqualFoldKey a b"
  shows "subj_Method (in_subject i) = Method (in_msg i) \<and>
    Name (in_subject i) = SubjectNameToken (Method (in_msg i)) name \<and>
    (\<exists>w ms raw. json_parse (raw_bytes (msg_params (in_msg i))) = Some (JObject w ms) \<and>
       reader same take_last ms (NameField (Method (in_msg i))) = Some raw \<and>
       unmarshal_string raw = Inr name)"
  using Check_authorized [OF assms(1,2), of same take_last] assms(3,4) by blast

text \<open>
  C14.  No caller can dodge a per-tool grant: when \<open>Check\<close> accepts a request of a method named by
  \<open>params.name\<close> whose subject token is \<open>_\<close>, the name it returns is not token-safe (or is itself
  \<open>_\<close>); and when the token is anything else, the name is that token.
\<close>

theorem Check_no_grant_dodge:
  assumes "Check i = Inr name" "NameField (Method (in_msg i)) = NameParam"
  shows "if Name (in_subject i) = NameUnset then \<not> TokenSafe name \<or> name = NameUnset
    else name = Name (in_subject i)"
proof -
  have "NameParam \<noteq> URIParam" "NameParam \<noteq> []" by (simp_all add: mcp_defs)
  then have "Name (in_subject i) = NameToken name"
    using assms unfolding Check_Inr by (auto simp: SubjectNameToken_def Let_def)
  then show ?thesis by (auto simp: NameToken_def)
qed

text \<open>
  An honest client is never refused: a request whose headers are the encodings of what its
  body says, published on the subject \<open>BuildSubject\<close> gives, passes.
\<close>

theorem Check_accepts_honest:
  assumes "Kind (in_msg i) = KindRequest" "method = Method (in_msg i)"
    and "DecodeParams (raw_bytes (msg_params (in_msg i))) = Inr p" "CheckReadableMeta p = Inr ()"
    and "params_Name p method = Inr nm" "nm \<noteq> Some []"
    and "params_ProtocolVersion p = Inr ver" "IsSupportedProtocolVersion ver"
    and "BuildSubject pfx tenant user server method (raw_bytes nm) = Inr subj"
    and "ParseSubject subj pfx = Inr (in_subject i)"
    and "hdr i HeaderMethod = method" "hdr i HeaderName = EncodeHeaderValue (raw_bytes nm)"
    and "hdr i HeaderProtocolVersion = EncodeHeaderValue ver"
  shows "Check i = Inr (raw_bytes nm)"
proof -
  have "in_subject i = \<lparr>Tenant = tenant, User = default_user user, Server = server,
      subj_Method = method, Name = SubjectNameToken method (raw_bytes nm)\<rparr>"
    using Parse_Build [OF assms(9)] assms(10) by simp
  moreover have "DecodeHeaderValue (EncodeHeaderValue ver) = Inr ver"
    using params_ProtocolVersion_valid [OF assms(7)] by (simp add: DecodeHeaderValue_Encode)
  moreover have "DecodeHeaderValue (hdr i HeaderName) = Inr n" if "nm = Some n" for n
    using params_Name_valid that assms(5,12)
    by (simp add: DecodeHeaderValue_Encode raw_bytes_def)
  ultimately show ?thesis
    unfolding Check_Inr using assms by (cases nm) (auto simp: raw_bytes_def)
qed

section \<open>An example request\<close>

definition ex_params :: bytes where
  "ex_params = json_text
     ''{~name~:~get_issue~,~_meta~:{~io.modelcontextprotocol/protocolVersion~:~2026-07-28~}}''"

definition ex_meta :: bytes where
  "ex_meta = json_text ''{~io.modelcontextprotocol/protocolVersion~:~2026-07-28~}''"

definition ex_inbound :: Inbound where
  "ex_inbound = \<lparr>
     in_msg = zero_message\<lparr>JSONRPC := ''2.0'', ID := Some ''1'', Method := ''tools/call'',
       msg_params := Some ex_params\<rparr>,
     in_subject = \<lparr>Tenant = ''acme'', User = ''_'', Server = ''gh'', subj_Method = ''tools/call'',
       Name = ''get_issue''\<rparr>,
     hdr = (\<lambda>h. if h = HeaderMethod then ''tools/call''
       else if h = HeaderName then ''get_issue''
       else if h = HeaderProtocolVersion then ''2026-07-28'' else [])\<rparr>"

lemma ex_params_parse: "json_parse ex_params =
  Some (JObject [] (MCons [] ''name'' [] [] (JString ''get_issue'') [] (MCons [] ''_meta'' [] []
    (JObject [] (MCons [] ''io.modelcontextprotocol/protocolVersion'' [] [] (JString ''2026-07-28'') [] MNil))
    [] MNil)))"
  by code_simp

lemma ex_meta_parse: "json_parse ex_meta =
  Some (JObject [] (MCons [] ''io.modelcontextprotocol/protocolVersion'' [] [] (JString ''2026-07-28'') [] MNil))"
  by code_simp

lemma ex_unquoted:
  "unquoted ''name'' = ''name''" "unquoted ''_meta'' = ''_meta''" "unquoted ''get_issue'' = ''get_issue''"
  "unquoted ''2026-07-28'' = ''2026-07-28''"
  "unquoted ''io.modelcontextprotocol/protocolVersion'' = ''io.modelcontextprotocol/protocolVersion''"
  by (simp_all add: unquoted_def unquote_plain)

lemma ex_DecodeParams: "DecodeParams ex_params = Inr [(''name'', json_text ''~get_issue~''), (''_meta'', ex_meta)]"
proof (rule DecodeParams_object [OF ex_params_parse, THEN iffD2], intro conjI)
  show "scanUnambiguous ex_params = Inr ()"
    by (simp add: scanUnambiguous_iff [OF ex_params_parse] MaxParamsDepth_def ex_unquoted)
  show "[(''name'', json_text ''~get_issue~''), (''_meta'', ex_meta)] = object_map
      (MCons [] ''name'' [] [] (JString ''get_issue'') [] (MCons [] ''_meta'' [] []
        (JObject [] (MCons [] ''io.modelcontextprotocol/protocolVersion'' [] [] (JString ''2026-07-28'') [] MNil)) [] MNil))"
    by (simp add: object_map_def ex_unquoted json_text_def ex_meta_def)
  have "distinct (map foldKey [''name'', ''_meta''])"
    by (subst distinct_foldKey_ascii) (simp_all add: ascii_upper_def)
  then show "checkCaseUnique [(''name'', json_text ''~get_issue~''), (''_meta'', ex_meta)] = Inr ()"
    by (simp add: checkCaseUnique_ok)
qed

abbreviation ex_p :: params where
  "ex_p \<equiv> [(''name'', json_text ''~get_issue~''), (''_meta'', ex_meta)]"

lemma ex_Object: "Object ex_p MetaField =
    Inr [(''io.modelcontextprotocol/protocolVersion'', json_text ''~2026-07-28~'')]"
  by (simp add: Object_def Raw_def unambiguous_def MetaField_def EqualFoldKey_ascii ascii_upper_def
      unmarshal_map_def ex_meta_parse object_map_def ex_unquoted json_text_def)

lemma ex_readable: "CheckReadableMeta ex_p = Inr ()"
  by (simp add: CheckReadableMeta_def ex_Object unambiguous_def metaKeysRead_def MetaProtocolVersion_def
      MetaProgressToken_def EqualFoldKey_ascii ascii_upper_def)

lemma ex_strings:
  "json_parse (json_text ''~get_issue~'') = Some (JString ''get_issue'')"
  "json_parse (json_text ''~2026-07-28~'') = Some (JString ''2026-07-28'')"
  by code_simp+

lemma ex_Name: "params_Name ex_p ''tools/call'' = Inr (Some ''get_issue'')"
proof -
  have "Raw ex_p ''name'' = Inr (Some (json_text ''~get_issue~''))"
    by (simp add: Raw_def unambiguous_def EqualFoldKey_ascii ascii_upper_def)
  then show ?thesis
    by (simp add: params_Name_def NameField_def mcp_defs params_String_def unmarshal_string_def
        ex_strings ex_unquoted json_null_def)
qed

lemma ex_version: "params_ProtocolVersion ex_p = Inr ''2026-07-28''"
  unfolding params_ProtocolVersion_def ex_Object
  by (simp add: params_String_def Raw_def unambiguous_def MetaProtocolVersion_def unmarshal_string_def
      ex_strings ex_unquoted json_null_def)

lemma ex_header_plain: "\<not> needsHeaderEncoding ''get_issue''" "\<not> needsHeaderEncoding ''2026-07-28''"
  by (simp_all add: needsHeaderEncoding_def TrimSpace_visible strings_HasPrefix_def sentinelPrefix_def
      runes_ascii)

lemma ex_Check: "Check ex_inbound = Inr ''get_issue''"
proof -
  have "DecodeHeaderValue ''get_issue'' = Inr ''get_issue''" "DecodeHeaderValue ''2026-07-28'' = Inr ''2026-07-28''"
    by (simp_all add: DecodeHeaderValue_def sentinelPrefix_def)
  then show ?thesis
    unfolding Check_Inr
    by (simp add: ex_inbound_def Kind_def HasID_def zero_message_def raw_bytes_def ex_DecodeParams ex_readable
        ex_Name ex_version IsSupportedProtocolVersion_def SupportedProtocolVersions_def ProtocolVersion_def
        HeaderMethod_def HeaderName_def HeaderProtocolVersion_def SubjectNameToken_def NameField_def NameToken_def
        MethodToolsCall_def NameParam_def URIParam_def NameUnset_def TokenSafe_def token_char_def Let_def)
qed

lemma Check_authorizes_what_runs_witness:
  "\<exists>w ms raw. json_parse ex_params = Some (JObject w ms) \<and>
     reader EqualFoldKey False ms ''name'' = Some raw \<and> unmarshal_string raw = Inr ''get_issue''"
proof -
  have m: "NameField (Method (in_msg ex_inbound)) = ''name''"
    by (simp add: ex_inbound_def NameField_def mcp_defs)
  then have "NameField (Method (in_msg ex_inbound)) \<noteq> []" by simp
  from Check_authorizes_what_runs [OF ex_Check this, of EqualFoldKey False]
  show ?thesis unfolding m by (auto simp: ex_inbound_def raw_bytes_def)
qed

lemma Check_no_grant_dodge_witness: "''get_issue'' = Name (in_subject ex_inbound)"
proof -
  have "NameField (Method (in_msg ex_inbound)) = NameParam"
    by (simp add: ex_inbound_def NameField_def MethodToolsCall_def)
  from Check_no_grant_dodge [OF ex_Check this] show ?thesis
    by (simp add: ex_inbound_def NameUnset_def)
qed

lemma Check_accepts_honest_witness: "Check ex_inbound = Inr (raw_bytes (Some ''get_issue''))"
proof (rule Check_accepts_honest)
  show "Kind (in_msg ex_inbound) = KindRequest"
    by (simp add: ex_inbound_def Kind_def HasID_def zero_message_def)
  show "''tools/call'' = Method (in_msg ex_inbound)" by (simp add: ex_inbound_def)
  show "DecodeParams (raw_bytes (msg_params (in_msg ex_inbound))) = Inr ex_p"
    by (simp add: ex_inbound_def raw_bytes_def ex_DecodeParams)
  show "CheckReadableMeta ex_p = Inr ()" by (rule ex_readable)
  show "params_Name ex_p ''tools/call'' = Inr (Some ''get_issue'')" by (rule ex_Name)
  show "Some ''get_issue'' \<noteq> Some []" by simp
  show "params_ProtocolVersion ex_p = Inr ''2026-07-28''" by (rule ex_version)
  show "IsSupportedProtocolVersion ''2026-07-28''"
    by (simp add: IsSupportedProtocolVersion_def SupportedProtocolVersions_def ProtocolVersion_def)
  show "BuildSubject '''' ''acme'' '''' ''gh'' ''tools/call'' (raw_bytes (Some ''get_issue'')) =
      Inr ''mcp.v1.req.acme._.gh.tools.call.get_issue''" by code_simp
  show "ParseSubject ''mcp.v1.req.acme._.gh.tools.call.get_issue'' '''' = Inr (in_subject ex_inbound)"
    unfolding ex_inbound_def by code_simp
  show "hdr ex_inbound HeaderMethod = ''tools/call''" by (simp add: ex_inbound_def)
  show "hdr ex_inbound HeaderName = EncodeHeaderValue (raw_bytes (Some ''get_issue''))"
    by (simp add: ex_inbound_def raw_bytes_def HeaderName_def HeaderMethod_def EncodeHeaderValue_def ex_header_plain)
  show "hdr ex_inbound HeaderProtocolVersion = EncodeHeaderValue ''2026-07-28''"
    by (simp add: ex_inbound_def HeaderProtocolVersion_def HeaderName_def HeaderMethod_def EncodeHeaderValue_def
        ex_header_plain)
qed

end
