(* ===== verification/Services.thy ===== *)
theory Services
  imports Subject "HOL-Library.AList"
begin

text \<open>
  The set of micro services a wire server runs (\<open>Serve\<close>, \<open>SetServers\<close>, \<open>stopLocked\<close> and
  \<open>stopAllServices\<close> in \<open>pkg/wire/server.go\<close>).  The map \<open>svcs\<close> is an association list; nothing
  below depends on its order, which stands for the order a Go range happens to take.  Whether
  \<open>micro.AddService\<close> and \<open>Service.Stop\<close> succeed is up to the NATS library: the parameters \<open>add\<close> and
  \<open>stop\<close> say it for each server name of one call.
\<close>

section \<open>Configuration\<close>

definition DefaultKeepAlive :: int where "DefaultKeepAlive = 15 * 1000000000"

definition DefaultQueueGroup :: "bytes \<Rightarrow> bytes \<Rightarrow> bytes" where
  "DefaultQueueGroup tenant user =
     (if tenant \<noteq> [] \<and> user \<noteq> [] then ''mcpgw.'' @ tenant @ ''.'' @ user
      else if tenant \<noteq> [] then ''mcpgw.'' @ tenant
      else ''mcpgw'')"

record ServerConfig =
  cfg_Prefix :: bytes
  cfg_QueueGroup :: bytes
  cfg_Tenant :: bytes
  cfg_User :: bytes
  cfg_Servers :: "bytes list"
  cfg_Name :: bytes
  cfg_Version :: bytes
  cfg_KeepAlive :: int

text \<open>What a micro service was added with.\<close>

record service =
  sv_name :: bytes
  sv_version :: bytes
  sv_subject :: bytes
  sv_queue :: bytes

type_synonym services = "(bytes \<times> service) list"

record wire_server =
  ws_prefix :: bytes
  ws_queueGroup :: bytes
  ws_tenant :: bytes
  ws_user :: bytes
  ws_name :: bytes
  ws_version :: bytes
  ws_keepAlive :: int
  ws_svcs :: services

section \<open>Stopping\<close>

text \<open>Returns the names that would not stop beside the services that are left.\<close>

fun stopLocked :: "(bytes \<Rightarrow> bool) \<Rightarrow> bytes list \<Rightarrow> services \<Rightarrow> bytes list \<times> services" where
  "stopLocked stop [] svcs = ([], svcs)"
| "stopLocked stop (n # ns) svcs =
     (case map_of svcs n of
        None \<Rightarrow> stopLocked stop ns svcs
      | Some svc \<Rightarrow>
          if \<not> stop n then (case stopLocked stop ns svcs of (errs, rest) \<Rightarrow> (n # errs, rest))
          else stopLocked stop ns (AList.delete n svcs))"

definition stopAllServices :: "(bytes \<Rightarrow> bool) \<Rightarrow> services \<Rightarrow> bytes list \<times> services" where
  "stopAllServices stop svcs = (filter (\<lambda>n. \<not> stop n) (map fst svcs), [])"

lemma stopLocked_map_of:
  "map_of (snd (stopLocked stop ns svcs)) n = (if n \<in> set ns \<and> stop n then None else map_of svcs n)"
  by (induction stop ns svcs rule: stopLocked.induct)
    (auto simp: delete_conv' split: option.splits prod.splits)

lemma stopLocked_errs:
  "set (fst (stopLocked stop ns svcs)) = {n \<in> set ns. map_of svcs n \<noteq> None \<and> \<not> stop n}"
  by (induction stop ns svcs rule: stopLocked.induct)
    (auto simp: delete_conv' split: option.splits prod.splits if_splits)

lemma stopLocked_distinct: "distinct (map fst svcs) \<Longrightarrow> distinct (map fst (snd (stopLocked stop ns svcs)))"
  by (induction stop ns svcs rule: stopLocked.induct) (auto simp: distinct_delete split: option.splits prod.splits)

section \<open>Adding and reconciling\<close>

datatype serve_error =
    EndpointRefused subject_error
  | AddServiceFailed bytes
  | BadPrefix token_error
  | UserScopeWithoutTenant bytes bytes

definition new_service :: "wire_server \<Rightarrow> bytes \<Rightarrow> bytes \<Rightarrow> service" where
  "new_service s name subject =
     \<lparr>sv_name = ws_name s @ ''-'' @ name, sv_version = ws_version s, sv_subject = subject,
      sv_queue = ws_queueGroup s\<rparr>"

text \<open>The first loop of \<open>SetServers\<close>: the services so far and the names this call added.\<close>

fun add_servers ::
  "wire_server \<Rightarrow> (bytes \<Rightarrow> bool) \<Rightarrow> bytes list \<Rightarrow> services \<Rightarrow> bytes list \<Rightarrow>
     serve_error option \<times> services \<times> bytes list" where
  "add_servers s add [] svcs added = (None, svcs, added)"
| "add_servers s add (name # names) svcs added =
     (if map_of svcs name \<noteq> None then add_servers s add names svcs added
      else (case EndpointSubject (ws_prefix s) (ws_tenant s) (ws_user s) name of
              Inl e \<Rightarrow> (Some (EndpointRefused e), svcs, added)
            | Inr subject \<Rightarrow>
                if \<not> add name then (Some (AddServiceFailed name), svcs, added)
                else add_servers s add names ((name, new_service s name subject) # svcs) (added @ [name])))"

text \<open>
  \<open>Inl\<close> is the error that is returned, with the names the rollback could not stop; \<open>Inr\<close> has the
  removed servers that would not stop, which are logged only.
\<close>

definition SetServers ::
  "(bytes \<Rightarrow> bool) \<Rightarrow> (bytes \<Rightarrow> bool) \<Rightarrow> wire_server \<Rightarrow> bytes list \<Rightarrow>
     (serve_error \<times> bytes list + bytes list) \<times> wire_server" where
  "SetServers add stop s names =
     (case add_servers s add names (ws_svcs s) [] of
        (Some e, svcs, added) \<Rightarrow>
          (case stopLocked stop added svcs of (errs, rest) \<Rightarrow> (Inl (e, errs), s\<lparr>ws_svcs := rest\<rparr>))
      | (None, svcs, added) \<Rightarrow>
          (let stale = filter (\<lambda>n. n \<notin> set names) (map fst svcs) in
           case stopLocked stop stale svcs of (errs, rest) \<Rightarrow> (Inr errs, s\<lparr>ws_svcs := rest\<rparr>)))"

definition Serve ::
  "(rune \<Rightarrow> bool) \<Rightarrow> (bytes \<Rightarrow> bool) \<Rightarrow> (bytes \<Rightarrow> bool) \<Rightarrow> ServerConfig \<Rightarrow> serve_error + wire_server" where
  "Serve isPrint add stop cfg =
     (let queue = (if cfg_QueueGroup cfg = [] then DefaultQueueGroup (cfg_Tenant cfg) (cfg_User cfg)
                   else cfg_QueueGroup cfg);
          name = (if cfg_Name cfg = [] then ''natsmcp-gateway'' else cfg_Name cfg);
          version = (if cfg_Version cfg = [] then ''0.0.1'' else cfg_Version cfg);
          keepAlive = (if cfg_KeepAlive cfg \<le> 0 then DefaultKeepAlive else cfg_KeepAlive cfg);
          checked = (if cfg_Prefix cfg = [] then Inr DefaultPrefix
                     else (case ValidateSubjectPrefix isPrint (cfg_Prefix cfg) of
                             Inl e \<Rightarrow> Inl (BadPrefix e) | Inr _ \<Rightarrow> Inr (cfg_Prefix cfg)))
      in bind_err checked (\<lambda>prefix.
        if cfg_Tenant cfg = [] \<and> cfg_User cfg \<noteq> []
        then Inl (UserScopeWithoutTenant (cfg_Tenant cfg) (cfg_User cfg))
        else (let s = \<lparr>ws_prefix = prefix, ws_queueGroup = queue, ws_tenant = cfg_Tenant cfg,
                       ws_user = cfg_User cfg, ws_name = name, ws_version = version,
                       ws_keepAlive = keepAlive, ws_svcs = []\<rparr> in
              case SetServers add stop s (cfg_Servers cfg) of
                (Inl (e, _), s') \<Rightarrow> Inl e
              | (Inr _, s') \<Rightarrow> Inr s')))"

section \<open>What a call leaves running\<close>

text \<open>The service the server would bind for a name.\<close>

definition bound_service :: "wire_server \<Rightarrow> bytes \<Rightarrow> service option" where
  "bound_service s name =
     (case EndpointSubject (ws_prefix s) (ws_tenant s) (ws_user s) name of
        Inl _ \<Rightarrow> None | Inr subject \<Rightarrow> Some (new_service s name subject))"

text \<open>The invariant: one entry per name, bound where the server's scope puts it.\<close>

definition services_ok :: "wire_server \<Rightarrow> bool" where
  "services_ok s \<longleftrightarrow> distinct (map fst (ws_svcs s)) \<and>
     (\<forall>n svc. map_of (ws_svcs s) n = Some svc \<longrightarrow> bound_service s n = Some svc)"

definition fresh_for :: "wire_server \<Rightarrow> bytes list \<Rightarrow> services \<Rightarrow> services \<Rightarrow> bool" where
  "fresh_for s names svcs new \<longleftrightarrow> distinct (map fst new) \<and>
     (\<forall>(n, svc)\<in>set new. map_of svcs n = None \<and> n \<in> set names \<and> bound_service s n = Some svc)"

lemma add_servers_spec:
  "add_servers s add names svcs added = (res, svcs', added') \<Longrightarrow>
     \<exists>new. svcs' = new @ svcs \<and> added' = added @ rev (map fst new) \<and> fresh_for s names svcs new \<and>
       (res = None \<longrightarrow> set names \<subseteq> dom (map_of svcs'))"
proof (induction names arbitrary: svcs added)
  case Nil
  then show ?case by (auto simp: fresh_for_def)
next
  case (Cons name names)
  show ?case
  proof (cases "map_of svcs name")
    case (Some old)
    with Cons.prems have "add_servers s add names svcs added = (res, svcs', added')" by simp
    from Cons.IH [OF this] obtain new where new: "svcs' = new @ svcs" "added' = added @ rev (map fst new)"
      "fresh_for s names svcs new" "res = None \<longrightarrow> set names \<subseteq> dom (map_of svcs')"
      by blast
    moreover have "name \<in> dom (map_of svcs')" using Some new(1) by (auto simp: map_add_dom_app_simps dom_map_add)
    ultimately show ?thesis by (intro exI [of _ new]) (auto simp: fresh_for_def)
  next
    case None
    show ?thesis
    proof (cases "\<exists>subject. EndpointSubject (ws_prefix s) (ws_tenant s) (ws_user s) name = Inr subject \<and> add name")
      case True
      then obtain subject where sub: "EndpointSubject (ws_prefix s) (ws_tenant s) (ws_user s) name = Inr subject" "add name"
        by blast
      let ?e = "(name, new_service s name subject)"
      have "add_servers s add names (?e # svcs) (added @ [name]) = (res, svcs', added')"
        using Cons.prems None sub by simp
      from Cons.IH [OF this] obtain new where new: "svcs' = new @ ?e # svcs"
        "added' = (added @ [name]) @ rev (map fst new)" "fresh_for s names (?e # svcs) new"
        "res = None \<longrightarrow> set names \<subseteq> dom (map_of svcs')"
        by blast
      have "fresh_for s (name # names) svcs (new @ [?e])"
        using new(3) None sub by (fastforce simp: fresh_for_def bound_service_def split: if_splits)
      with new show ?thesis by (intro exI [of _ "new @ [?e]"]) auto
    next
      case False
      with Cons.prems None have "res \<noteq> None" "svcs' = svcs" "added' = added"
        by (auto split: sum.splits if_splits)
      then show ?thesis by (intro exI [of _ "[]"]) (auto simp: fresh_for_def)
    qed
  qed
qed

lemma fresh_map_of:
  assumes "fresh_for s names svcs new"
  shows "map_of (new @ svcs) n = (if n \<in> set (map fst new) then bound_service s n else map_of svcs n)"
proof (cases "n \<in> set (map fst new)")
  case True
  then obtain svc where m: "(n, svc) \<in> set new" by auto
  then have "map_of new n = Some svc" using assms by (simp add: fresh_for_def)
  moreover have "bound_service s n = Some svc" using m assms by (auto simp: fresh_for_def)
  ultimately show ?thesis using True by simp
next
  case False
  then have "map_of new n = None" by (simp add: map_of_eq_None_iff)
  with False show ?thesis by (simp add: map_add_def)
qed

lemma fresh_name:
  "fresh_for s names svcs new \<Longrightarrow> n \<in> set (map fst new) \<Longrightarrow> map_of svcs n = None \<and> n \<in> set names \<and> bound_service s n \<noteq> None"
  by (auto simp: fresh_for_def)

text \<open>The effect of a call on the map of services, which is all a client can see of it.\<close>

lemma SetServers_ok:
  assumes "SetServers add stop s names = (Inr errs, s')"
  shows "map_of (ws_svcs s') n =
      (if n \<in> set names then (case map_of (ws_svcs s) n of None \<Rightarrow> bound_service s n | Some svc \<Rightarrow> Some svc)
       else if stop n then None else map_of (ws_svcs s) n)"
    and "n \<in> set names \<Longrightarrow> map_of (ws_svcs s') n \<noteq> None"
    and "set errs = {n. n \<notin> set names \<and> map_of (ws_svcs s) n \<noteq> None \<and> \<not> stop n}"
    and "\<exists>svcs. s' = s\<lparr>ws_svcs := svcs\<rparr>"
proof -
  obtain svcs added where a: "add_servers s add names (ws_svcs s) [] = (None, svcs, added)"
    using assms by (auto simp: SetServers_def split: prod.splits option.splits)
  let ?stale = "filter (\<lambda>n. n \<notin> set names) (map fst svcs)"
  from a assms have s': "s' = s\<lparr>ws_svcs := snd (stopLocked stop ?stale svcs)\<rparr>" "errs = fst (stopLocked stop ?stale svcs)"
    by (auto simp: SetServers_def Let_def split: prod.splits)
  obtain new where new: "svcs = new @ ws_svcs s" "fresh_for s names (ws_svcs s) new" "set names \<subseteq> dom (map_of svcs)"
    using add_servers_spec [OF a] by auto
  have m: "map_of svcs k = (if k \<in> set (map fst new) then bound_service s k else map_of (ws_svcs s) k)" for k
    unfolding new(1) by (rule fresh_map_of [OF new(2)])
  have st: "k \<in> set ?stale \<longleftrightarrow> k \<notin> set names \<and> map_of svcs k \<noteq> None" for k
    by (auto simp: map_of_eq_None_iff)
  have old: "k \<notin> set names \<Longrightarrow> map_of svcs k = map_of (ws_svcs s) k" for k
    using m [of k] fresh_name [OF new(2), of k] by auto
  show "set errs = {n. n \<notin> set names \<and> map_of (ws_svcs s) n \<noteq> None \<and> \<not> stop n}"
    unfolding s' stopLocked_errs using old st by auto
  have dec: "map_of (ws_svcs s') k =
      (if k \<notin> set names \<and> stop k then None else map_of svcs k)" for k
    using st [of k] by (simp add: s' stopLocked_map_of)
  show "map_of (ws_svcs s') n =
      (if n \<in> set names then (case map_of (ws_svcs s) n of None \<Rightarrow> bound_service s n | Some svc \<Rightarrow> Some svc)
       else if stop n then None else map_of (ws_svcs s) n)"
  proof (cases "n \<in> set names")
    case True
    then have "map_of svcs n \<noteq> None" using new(3) by auto
    with True show ?thesis using m [of n] fresh_name [OF new(2), of n] dec [of n] by (auto split: if_splits)
  next
    case False
    then show ?thesis using old [OF False] dec [of n] by simp
  qed
  show "n \<in> set names \<Longrightarrow> map_of (ws_svcs s') n \<noteq> None" using new(3) dec [of n] by auto
  show "\<exists>svcs. s' = s\<lparr>ws_svcs := svcs\<rparr>" using s' by blast
qed

lemma SetServers_failed:
  assumes "SetServers add stop s names = (Inl (e, errs), s')"
  shows "map_of (ws_svcs s') n =
      (if n \<in> set errs then bound_service s n else map_of (ws_svcs s) n)"
    and "set errs \<subseteq> {n \<in> set names. map_of (ws_svcs s) n = None \<and> \<not> stop n}"
    and "n \<in> set errs \<Longrightarrow> bound_service s n \<noteq> None"
    and "\<exists>svcs. s' = s\<lparr>ws_svcs := svcs\<rparr>"
proof -
  obtain svcs added where a: "add_servers s add names (ws_svcs s) [] = (Some e, svcs, added)"
    using assms by (auto simp: SetServers_def Let_def split: prod.splits option.splits)
  from a assms have s': "s' = s\<lparr>ws_svcs := snd (stopLocked stop added svcs)\<rparr>" "errs = fst (stopLocked stop added svcs)"
    by (auto simp: SetServers_def split: prod.splits)
  obtain new where new: "svcs = new @ ws_svcs s" "fresh_for s names (ws_svcs s) new" "added = rev (map fst new)"
    using add_servers_spec [OF a] by auto
  have m: "map_of svcs k = (if k \<in> set (map fst new) then bound_service s k else map_of (ws_svcs s) k)" for k
    unfolding new(1) by (rule fresh_map_of [OF new(2)])
  have ad: "k \<in> set added \<longleftrightarrow> k \<in> set (map fst new)" for k using new(3) by simp
  have e: "k \<in> set errs \<longleftrightarrow> k \<in> set added \<and> \<not> stop k" for k
    using m [of k] ad fresh_name [OF new(2), of k] by (auto simp: s' stopLocked_errs)
  show "set errs \<subseteq> {n \<in> set names. map_of (ws_svcs s) n = None \<and> \<not> stop n}"
    using e ad fresh_name [OF new(2)] by auto
  show "n \<in> set errs \<Longrightarrow> bound_service s n \<noteq> None"
    using e ad fresh_name [OF new(2), of n] by auto
  show "map_of (ws_svcs s') n = (if n \<in> set errs then bound_service s n else map_of (ws_svcs s) n)"
    using m [of n] ad [of n] e [of n] fresh_name [OF new(2), of n] by (auto simp: s' stopLocked_map_of)
  show "\<exists>svcs. s' = s\<lparr>ws_svcs := svcs\<rparr>" using s' by blast
qed

lemma services_ok_scope:
  assumes "services_ok s" "map_of (ws_svcs s) n = Some svc" "BuildSubject (ws_prefix s) t u x method name = Inr subj"
  shows "subject_matches (sv_subject svc) subj \<longleftrightarrow>
    n = x \<and> (ws_tenant s = [] \<or> ws_tenant s = t) \<and> (ws_user s = [] \<or> ws_user s = default_user u)"
proof -
  from assms(1,2) have "bound_service s n = Some svc" by (auto simp: services_ok_def)
  then obtain pat where "EndpointSubject (ws_prefix s) (ws_tenant s) (ws_user s) n = Inr pat" "sv_subject svc = pat"
    by (auto simp: bound_service_def new_service_def split: sum.splits)
  with endpoint_matches [OF _ assms(3)] show ?thesis by metis
qed

lemma add_servers_keys:
  assumes "add_servers s add names (ws_svcs s) [] = (res, svcs, added)" "distinct (map fst (ws_svcs s))"
  shows "distinct (map fst svcs)"
proof -
  obtain new where "svcs = new @ ws_svcs s" "fresh_for s names (ws_svcs s) new"
    using add_servers_spec [OF assms(1)] by auto
  moreover from this have "set (map fst new) \<inter> set (map fst (ws_svcs s)) = {}"
    using fresh_name [of s names "ws_svcs s" new] by (auto simp: map_of_eq_None_iff)
  ultimately show ?thesis using assms(2) by (simp add: fresh_for_def)
qed

lemma SetServers_keys:
  assumes "distinct (map fst (ws_svcs s))" "SetServers add stop s names = (r, s')"
  shows "distinct (map fst (ws_svcs s'))"
proof -
  obtain res svcs added where a: "add_servers s add names (ws_svcs s) [] = (res, svcs, added)"
    by (cases "add_servers s add names (ws_svcs s) []") auto
  note d = stopLocked_distinct [OF add_servers_keys [OF a assms(1)], of stop]
  show ?thesis
  proof (cases res)
    case None
    let ?st = "stopLocked stop (filter (\<lambda>n. n \<notin> set names) (map fst svcs)) svcs"
    from None a assms(2) have "ws_svcs s' = snd ?st" by (auto simp: SetServers_def Let_def split: prod.splits)
    with d show ?thesis by simp
  next
    case (Some e)
    with a assms(2) have "ws_svcs s' = snd (stopLocked stop added svcs)"
      by (auto simp: SetServers_def split: prod.splits)
    with d show ?thesis by simp
  qed
qed

lemma bound_service_same [simp]: "bound_service (s\<lparr>ws_svcs := svcs\<rparr>) n = bound_service s n"
  by (simp add: bound_service_def new_service_def split: sum.split)

lemma SetServers_keeps_ok:
  assumes "services_ok s" "SetServers add stop s names = (r, s')"
  shows "services_ok s'"
proof -
  have d: "distinct (map fst (ws_svcs s'))"
    using SetServers_keys [OF _ assms(2)] assms(1) by (simp add: services_ok_def)
  have old: "map_of (ws_svcs s) n = Some svc \<Longrightarrow> bound_service s n = Some svc" for n svc
    using assms(1) by (simp add: services_ok_def)
  obtain svcs where s': "s' = s\<lparr>ws_svcs := svcs\<rparr>"
    using SetServers_ok(4) SetServers_failed(4) assms(2) by (cases r) (metis surj_pair)+
  have "bound_service s n = Some svc" if m: "map_of (ws_svcs s') n = Some svc" for n svc
  proof (cases r)
    case (Inl e)
    then obtain err errs where "SetServers add stop s names = (Inl (err, errs), s')"
      using assms(2) by (cases e) auto
    from SetServers_failed(1) [OF this, of n] m old [of n svc] show ?thesis by (simp split: if_splits)
  next
    case (Inr errs)
    with assms(2) have "SetServers add stop s names = (Inr errs, s')" by simp
    from SetServers_ok(1) [OF this, of n] m old [of n svc] show ?thesis by (simp split: if_splits option.splits)
  qed
  with d s' show ?thesis by (simp add: services_ok_def)
qed

section \<open>The properties of the set\<close>


definition ex_server :: wire_server where
  "ex_server = \<lparr>ws_prefix = ''mcp.v1'', ws_queueGroup = ''mcpgw'', ws_tenant = [], ws_user = [], ws_name = ''g'',
     ws_version = ''1'', ws_keepAlive = 1, ws_svcs = []\<rparr>"


text \<open>
  A \<open>SetServers\<close> that fails leaves the previous configuration serving: every service it found
  is still there, unchanged, and the only others are services it added that would not stop, all of
  which the returned error names.
\<close>

theorem SetServers_rolls_back:
  assumes "services_ok s" "SetServers add stop s names = (Inl (e, errs), s')"
  shows "services_ok s' \<and> map_of (ws_svcs s) \<subseteq>\<^sub>m map_of (ws_svcs s') \<and>
    dom (map_of (ws_svcs s')) = dom (map_of (ws_svcs s)) \<union> set errs \<and>
    set errs \<subseteq> {n \<in> set names. n \<notin> dom (map_of (ws_svcs s)) \<and> \<not> stop n}"
proof -
  have ok: "services_ok s'" by (rule SetServers_keeps_ok [OF assms])
  note f = SetServers_failed(1) [OF assms(2)]
  have errs: "set errs \<subseteq> {n \<in> set names. map_of (ws_svcs s) n = None \<and> \<not> stop n}"
    by (rule SetServers_failed(2) [OF assms(2)])
  moreover have "bound_service s n \<noteq> None" if "n \<in> set errs" for n
    using SetServers_failed(3) [OF assms(2) that] .
  ultimately show ?thesis using ok f by (auto simp: map_le_def)
qed

lemma SetServers_rolls_back_witness:
  "map_of (ws_svcs ex_server) \<subseteq>\<^sub>m map_of (ws_svcs (snd (SetServers (\<lambda>_. True) (\<lambda>_. True) ex_server [''gh'', ''*''])))"
proof -
  obtain e errs s' where s': "SetServers (\<lambda>_. True) (\<lambda>_. True) ex_server [''gh'', ''*''] = (Inl (e, errs), s')"
    by (simp add: SetServers_def ex_server_def EndpointSubject_def Let_def TokenSafe_def token_char_def)
  have "services_ok ex_server" by (simp add: services_ok_def ex_server_def)
  from SetServers_rolls_back [OF this s'] s' show ?thesis by simp
qed

end
