(* ===== verification/Drain.thy ===== *)
theory Drain
  imports Main
begin

text \<open>
  The drain of a wire server (\<open>beginRequest\<close> and \<open>Shutdown\<close> in \<open>pkg/wire/server.go\<close>).  Requests
  keep arriving while \<open>Shutdown\<close> runs, so the two are interleaved: a step is one critical section
  of one of them, or one handler returning.  \<open>running\<close> counts the handlers between their
  \<open>beginRequest\<close> and their \<open>wg.Done\<close>; the program itself only has the counter \<open>wg\<close>.
\<close>

section \<open>States and steps\<close>

text \<open>Where \<open>Shutdown\<close> is: the services stopped, \<open>draining\<close> set, the base context cancelled and
  the waiter started, and the two ways it returns.\<close>

datatype shutdown_at = NotCalled | ServicesStopped | DrainingSet | Waiting | ReportedClean | ReportedTimeout

record drain =
  draining :: bool
  wg :: nat
  cancelled :: bool
  at :: shutdown_at
  running :: nat
  refused :: nat

definition idle_drain :: drain where
  "idle_drain = \<lparr>draining = False, wg = 0, cancelled = False, at = NotCalled, running = 0, refused = 0\<rparr>"

definition beginRequest :: "drain \<Rightarrow> bool \<times> drain" where
  "beginRequest s = (if draining s then (False, s) else (True, s\<lparr>wg := wg s + 1\<rparr>))"

text \<open>What \<open>dispatch\<close> does with the answer: run the handler, or \<open>refuseDrained\<close>.\<close>

definition arrive :: "drain \<Rightarrow> drain" where
  "arrive s = (case beginRequest s of
     (True, s') \<Rightarrow> s'\<lparr>running := running s' + 1\<rparr>
   | (False, s') \<Rightarrow> s'\<lparr>refused := refused s' + 1\<rparr>)"

definition handler_done :: "drain \<Rightarrow> drain" where
  "handler_done s = s\<lparr>wg := wg s - 1, running := running s - 1\<rparr>"

text \<open>The next thing \<open>Shutdown\<close> does; \<open>expired\<close> says the deadline has passed.  \<open>None\<close> is blocked.\<close>

definition shutdown_next :: "bool \<Rightarrow> drain \<Rightarrow> drain option" where
  "shutdown_next expired s =
     (case at s of
        NotCalled \<Rightarrow> Some (s\<lparr>at := ServicesStopped\<rparr>)
      | ServicesStopped \<Rightarrow> Some (s\<lparr>draining := True, at := DrainingSet\<rparr>)
      | DrainingSet \<Rightarrow> Some (s\<lparr>cancelled := True, at := Waiting\<rparr>)
      | Waiting \<Rightarrow>
          if expired then Some (s\<lparr>at := ReportedTimeout\<rparr>)
          else if wg s = 0 then Some (s\<lparr>at := ReportedClean\<rparr>)
          else None
      | ReportedClean \<Rightarrow> None
      | ReportedTimeout \<Rightarrow> None)"

inductive drain_step :: "drain \<Rightarrow> drain \<Rightarrow> bool" where
  arrives: "drain_step s (arrive s)"
| finishes: "0 < running s \<Longrightarrow> drain_step s (handler_done s)"
| shuts: "shutdown_next expired s = Some s' \<Longrightarrow> drain_step s s'"

inductive drain_reach :: "drain \<Rightarrow> drain \<Rightarrow> bool" for s where
  refl: "drain_reach s s"
| step: "drain_reach s s' \<Longrightarrow> drain_step s' s'' \<Longrightarrow> drain_reach s s''"

inductive_cases drain_stepE: "drain_step s s'"

section \<open>The invariant\<close>

definition drain_inv :: "drain \<Rightarrow> bool" where
  "drain_inv s \<longleftrightarrow> wg s = running s \<and>
     (draining s \<longleftrightarrow> at s \<notin> {NotCalled, ServicesStopped}) \<and>
     (cancelled s \<longleftrightarrow> at s \<in> {Waiting, ReportedClean, ReportedTimeout}) \<and>
     (at s = ReportedClean \<longrightarrow> running s = 0)"

lemma drain_inv_idle: "drain_inv idle_drain"
  by (simp add: drain_inv_def idle_drain_def)

lemma arrive_inv: "drain_inv s \<Longrightarrow> drain_inv (arrive s)"
  by (auto simp: drain_inv_def arrive_def beginRequest_def)

lemma handler_done_inv: "drain_inv s \<Longrightarrow> drain_inv (handler_done s)"
  by (auto simp: drain_inv_def handler_done_def)

lemma shutdown_next_inv: "drain_inv s \<Longrightarrow> shutdown_next expired s = Some s' \<Longrightarrow> drain_inv s'"
  by (auto simp: drain_inv_def shutdown_next_def split: shutdown_at.splits if_splits)

lemma drain_step_inv: "drain_step s s' \<Longrightarrow> drain_inv s \<Longrightarrow> drain_inv s'"
  by (erule drain_stepE) (auto intro: arrive_inv handler_done_inv shutdown_next_inv)

lemma drain_reach_inv: "drain_reach s s' \<Longrightarrow> drain_inv s \<Longrightarrow> drain_inv s'"
  by (induction rule: drain_reach.induct) (auto intro: drain_step_inv)

text \<open>Once draining, no step starts a handler and no step undoes the drain.\<close>

lemma drain_step_mono:
  "drain_step s s' \<Longrightarrow> draining s \<Longrightarrow> draining s' \<and> running s' \<le> running s"
  by (erule drain_stepE)
    (auto simp: arrive_def beginRequest_def handler_done_def shutdown_next_def split: shutdown_at.splits if_splits)

lemma drain_reach_mono: "drain_reach s s' \<Longrightarrow> draining s \<Longrightarrow> draining s' \<and> running s' \<le> running s"
proof (induction rule: drain_reach.induct)
  case (step s' s'')
  then show ?case using drain_step_mono le_trans by blast
qed simp

text \<open>
  The drain's invariant: in every interleaving the wait group counts the running handlers, a
  request that arrives once \<open>draining\<close> is set is refused rather than started, and when \<open>Shutdown\<close>
  has reported a clean drain no handler is running then or ever after.
\<close>

theorem clean_drain_is_clean:
  assumes "drain_reach idle_drain s" "drain_reach s s'"
  shows "wg s = running s \<and> (draining s \<longrightarrow> running s' \<le> running s) \<and>
    (at s = ReportedClean \<longrightarrow> running s' = 0)"
proof -
  have "drain_inv s" using drain_reach_inv [OF assms(1) drain_inv_idle] .
  moreover have "draining s \<longrightarrow> running s' \<le> running s" using drain_reach_mono [OF assms(2)] by blast
  ultimately show ?thesis by (auto simp: drain_inv_def)
qed

definition after_drain :: drain where
  "after_drain = \<lparr>draining = True, wg = 0, cancelled = True, at = ReportedClean, running = 0, refused = 0\<rparr>"

lemma clean_drain_is_clean_witness:
  "running (arrive after_drain) = 0 \<and> refused (arrive after_drain) = 1"
proof -
  let ?s = "\<lambda>d c a. \<lparr>draining = d, wg = 0, cancelled = c, at = a, running = 0, refused = 0\<rparr>"
  have "drain_reach idle_drain (?s False False NotCalled)"
    by (simp add: idle_drain_def drain_reach.refl)
  then have "drain_reach idle_drain (?s False False ServicesStopped)"
    by (rule drain_reach.step) (auto intro!: drain_step.shuts [of False] simp: shutdown_next_def)
  then have "drain_reach idle_drain (?s True False DrainingSet)"
    by (rule drain_reach.step) (auto intro!: drain_step.shuts [of False] simp: shutdown_next_def)
  then have "drain_reach idle_drain (?s True True Waiting)"
    by (rule drain_reach.step) (auto intro!: drain_step.shuts [of False] simp: shutdown_next_def)
  then have r: "drain_reach idle_drain after_drain"
    unfolding after_drain_def
    by (rule drain_reach.step) (auto intro!: drain_step.shuts [of False] simp: shutdown_next_def)
  have "drain_reach after_drain (arrive after_drain)"
    by (rule drain_reach.step [OF drain_reach.refl drain_step.arrives])
  from clean_drain_is_clean [OF r this] show ?thesis
    by (simp add: after_drain_def arrive_def beginRequest_def)
qed

section \<open>A drain ends\<close>

text \<open>Running the shutdown against \<open>n\<close> handlers that return one after the other.\<close>

fun drain_run :: "nat \<Rightarrow> drain \<Rightarrow> drain" where
  "drain_run 0 s = s"
| "drain_run (Suc n) s = drain_run n (handler_done s)"

lemma drain_run_fields:
  "wg (drain_run n s) = wg s - n \<and> running (drain_run n s) = running s - n \<and> at (drain_run n s) = at s"
  by (induction n arbitrary: s) (auto simp: handler_done_def)

lemma drain_run_reach: "n \<le> running s \<Longrightarrow> drain_reach r s \<Longrightarrow> drain_reach r (drain_run n s)"
proof (induction n arbitrary: s)
  case (Suc n)
  then have "0 < running s" by simp
  then have "drain_reach r (handler_done s)"
    by (rule drain_reach.step [OF Suc.prems(2) drain_step.finishes])
  with Suc show ?case by (simp add: handler_done_def)
qed simp

text \<open>
  A shutdown that waits can always end: from any reachable state in which it waits, once the
  handlers then running have returned it reports a clean drain, however many requests were refused
  meanwhile.
\<close>

theorem drain_completes:
  assumes "drain_reach idle_drain s" "at s = Waiting"
  shows "\<exists>s'. drain_reach s (drain_run (running s) s) \<and>
    shutdown_next False (drain_run (running s) s) = Some s' \<and> at s' = ReportedClean"
proof -
  have "wg s = running s" using drain_reach_inv [OF assms(1) drain_inv_idle] by (simp add: drain_inv_def)
  moreover have "drain_reach s (drain_run (running s) s)" by (rule drain_run_reach [OF order_refl drain_reach.refl])
  ultimately show ?thesis using assms(2) drain_run_fields [of "running s" s] by (simp add: shutdown_next_def)
qed

definition waiting_drain :: drain where
  "waiting_drain = \<lparr>draining = True, wg = 1, cancelled = True, at = Waiting, running = 1, refused = 0\<rparr>"

lemma drain_completes_witness:
  "\<exists>s'. shutdown_next False (drain_run 1 waiting_drain) = Some s' \<and> at s' = ReportedClean"
proof -
  let ?s = "\<lambda>d c a. \<lparr>draining = d, wg = 1, cancelled = c, at = a, running = 1, refused = 0\<rparr>"
  have "arrive idle_drain = ?s False False NotCalled"
    by (simp add: arrive_def beginRequest_def idle_drain_def)
  then have "drain_reach idle_drain (?s False False NotCalled)"
    using drain_reach.step [OF drain_reach.refl drain_step.arrives, of idle_drain] by simp
  then have "drain_reach idle_drain (?s False False ServicesStopped)"
    by (rule drain_reach.step) (auto intro!: drain_step.shuts [of False] simp: shutdown_next_def)
  then have "drain_reach idle_drain (?s True False DrainingSet)"
    by (rule drain_reach.step) (auto intro!: drain_step.shuts [of False] simp: shutdown_next_def)
  then have "drain_reach idle_drain waiting_drain"
    unfolding waiting_drain_def
    by (rule drain_reach.step) (auto intro!: drain_step.shuts [of False] simp: shutdown_next_def)
  from drain_completes [OF this] show ?thesis by (auto simp: waiting_drain_def)
qed

end
