(* ===== verification/Dispatch.thy ===== *)
theory Dispatch
  imports StreamWriter Integrity Services Drain
begin

text \<open>
  What the gateway does with one NATS request (\<open>dispatch\<close>, \<open>usableReplySubject\<close>,
  \<open>warnUnusableReply\<close> and \<open>refuseDrained\<close> in \<open>pkg/wire/server.go\<close>): which replies it will answer
  to, what it checks before the handler runs, and the tasks that then write the reply stream of
  \<open>StreamWriter\<close>.
\<close>

section \<open>Reply subjects\<close>

definition ctlSuffix :: bytes where "ctlSuffix = ''.ctl''"

definition usableReplySubject :: "bytes \<Rightarrow> bytes \<Rightarrow> bool" where
  "usableReplySubject reply pfx =
     (if reply = [] \<or> strings_HasPrefix reply ''$'' then False
      else if reply = pfx \<or> strings_HasPrefix reply (pfx @ ''.'') then False
      else list_all (\<lambda>tok. \<not> (tok = [] \<or> strings_ContainsAny tok [CHR ''*'', CHR ''>'', CHR '' '', CHR 0x09, CHR 0x0D, CHR 0x0A]))
             (strings_Split reply (CHR ''.'')))"

text \<open>A subject without wildcards matches itself only.\<close>

definition literal_token :: "bytes \<Rightarrow> bool" where
  "literal_token t \<longleftrightarrow> t \<noteq> ''*'' \<and> t \<noteq> ''>''"

lemma match_literal: "list_all literal_token ps \<Longrightarrow> match_tokens ps ts \<longleftrightarrow> ps = ts"
  by (induction ps ts rule: match_tokens.induct) (auto simp: literal_token_def)

lemma match_literal_prefix:
  "list_all literal_token ps \<Longrightarrow> match_tokens (ps @ qs) ts \<Longrightarrow> \<exists>us. ts = ps @ us \<and> match_tokens qs us"
proof (induction ps arbitrary: ts)
  case (Cons p ps)
  then obtain us where "ts = p # us" "match_tokens (ps @ qs) us"
    by (cases ts) (auto simp: literal_token_def split: if_splits)
  moreover from this Cons obtain vs where "us = ps @ vs" "match_tokens qs vs" by auto
  ultimately show ?case by simp
qed simp

lemma usable_tokens:
  assumes "usableReplySubject reply pfx"
  shows "list_all literal_token (strings_Split reply (CHR ''.''))" "reply \<noteq> pfx"
    "\<not> strings_HasPrefix reply (pfx @ ''.'')" "\<not> strings_HasPrefix reply ''$''" "reply \<noteq> []"
    "list_all (\<lambda>t. t \<noteq> []) (strings_Split reply (CHR ''.''))"
  using assms
  by (auto simp: usableReplySubject_def list_all_iff literal_token_def strings_ContainsAny_def split: if_splits)

lemma valid_prefix_tokens:
  assumes "ValidateSubjectPrefix isPrint pfx = Inr ()"
  shows "list_all literal_token (strings_Split pfx (CHR ''.''))" "pfx \<noteq> []"
proof -
  from assms have ok: "\<forall>tok\<in>set (strings_Split pfx (CHR ''.'')). tok \<noteq> [] \<and> \<not> strings_ContainsAny tok ''*>''"
    by (simp add: ValidateSubjectPrefix_def validateTokenRun_def token_run_loop_ok)
  then show "list_all literal_token (strings_Split pfx (CHR ''.''))"
    by (auto simp: list_all_iff literal_token_def strings_ContainsAny_def)
  show "pfx \<noteq> []" using ok by auto
qed

text \<open>Whatever an endpoint receives lies strictly below the prefix.\<close>

lemma endpoint_below_prefix:
  assumes "ValidateSubjectPrefix isPrint pfx = Inr ()" "EndpointSubject pfx tenant user server = Inr pat"
    and "subject_matches pat s"
  obtains t us where "us \<noteq> []" "strings_Split s (CHR ''.'') = strings_Split pfx (CHR ''.'') @ t # us"
proof -
  have p: "default_prefix pfx = pfx"
    using valid_prefix_tokens(2) [OF assms(1)] by (simp add: default_prefix_def)
  with assms(2) obtain tail where "pat = pfx @ CHR ''.'' # ''req'' @ CHR ''.'' # tail"
    by (auto simp: EndpointSubject_def Let_def split: if_splits)
  then have "strings_Split pat (CHR ''.'') =
      strings_Split pfx (CHR ''.'') @ ''req'' # strings_Split tail (CHR ''.'')"
    by (simp add: strings_Split_append)
  with assms(3) match_literal_prefix [OF valid_prefix_tokens(1) [OF assms(1)]] obtain us where
    us: "strings_Split s (CHR ''.'') = strings_Split pfx (CHR ''.'') @ us"
    "match_tokens (''req'' # strings_Split tail (CHR ''.'')) us"
    by (auto simp: subject_matches_def)
  then obtain v vs where "us = v # vs" "match_tokens (strings_Split tail (CHR ''.'')) vs"
    by (cases us) (auto split: if_splits)
  moreover from this(2) have "vs \<noteq> []" by (cases "strings_Split tail (CHR ''.'')") auto
  ultimately show ?thesis using us(1) that by metis
qed

lemma split_below:
  assumes "strings_Split s (CHR ''.'') = strings_Split pfx (CHR ''.'') @ us" "us \<noteq> []"
  shows "strings_HasPrefix s (pfx @ ''.'')"
proof -
  have "s = strings_Join (strings_Split pfx (CHR ''.'') @ us) ''.''"
    using assms(1) by (metis strings_Join_Split)
  also have "\<dots> = pfx @ ''.'' @ strings_Join us ''.''"
    using assms(2) by (simp add: strings_Join_append strings_Join_Split)
  finally show ?thesis by (auto simp: strings_HasPrefix_iff)
qed

text \<open>
  The gateway never acts on a reply subject that would turn its own rights against others: a
  reply it accepts, and the control subject it subscribes to, are literal subjects that match only
  themselves, the reply is outside the \<open>$\<close> namespace, and no endpoint of any gateway under this
  prefix receives what is published to either.
\<close>

theorem usable_reply_is_private:
  assumes "usableReplySubject reply pfx" "ValidateSubjectPrefix isPrint pfx = Inr ()"
    and "EndpointSubject pfx tenant user server = Inr pat"
  shows "(subject_matches reply s \<longleftrightarrow> s = reply) \<and>
    (subject_matches (reply @ ctlSuffix) s \<longleftrightarrow> s = reply @ ctlSuffix) \<and>
    \<not> strings_HasPrefix reply ''$'' \<and>
    \<not> subject_matches pat reply \<and> \<not> subject_matches pat (reply @ ctlSuffix)"
proof -
  note u = usable_tokens [OF assms(1)]
  have ctl: "strings_Split (reply @ ctlSuffix) (CHR ''.'') = strings_Split reply (CHR ''.'') @ [''ctl'']"
    using strings_Split_append [of reply "CHR ''.''" "''ctl''"] by (simp add: ctlSuffix_def strings_Split_plain)
  have lit: "list_all literal_token (strings_Split (reply @ ctlSuffix) (CHR ''.''))"
    using u(1) by (simp add: ctl literal_token_def)
  have eq: "strings_Split a (CHR ''.'') = strings_Split b (CHR ''.'') \<longleftrightarrow> a = b" for a b
    by (metis strings_Join_Split)
  have below: False if "strings_Split reply (CHR ''.'') = strings_Split pfx (CHR ''.'') @ t # us" for t us
    using split_below [OF that] u(3) by simp
  have no: "\<not> subject_matches pat reply"
    using endpoint_below_prefix [OF assms(2,3), of reply] below by metis
  have "\<not> subject_matches pat (reply @ ctlSuffix)"
  proof
    assume "subject_matches pat (reply @ ctlSuffix)"
    then obtain t us where "us \<noteq> []" "strings_Split reply (CHR ''.'') @ [''ctl''] = strings_Split pfx (CHR ''.'') @ t # us"
      using endpoint_below_prefix [OF assms(2,3)] ctl by metis
    then show False using below by (cases us rule: rev_cases) (auto simp del: append_assoc simp: append_assoc [symmetric])
  qed
  with no show ?thesis
    using u(1,4) lit by (simp add: subject_matches_def match_literal eq eq_commute [of reply] eq_commute [of "reply @ ctlSuffix"])
qed

lemma usable_reply_is_private_witness:
  "\<not> subject_matches ''mcp.v1.req.*.*.gh.>'' ''_INBOX.a.b'' \<and> \<not> subject_matches (''_INBOX.a.b'' @ ctlSuffix) ''_INBOX.a.b''"
proof -
  have "usableReplySubject ''_INBOX.a.b'' ''mcp.v1''" by code_simp
  moreover have "ValidateSubjectPrefix (\<lambda>_. True) ''mcp.v1'' = Inr ()"
    by (simp add: ValidateSubjectPrefix_def validateTokenRun_def wireTokenSafe_def utf8_Valid_ascii_Cons runes_ascii_Cons
        unicode_IsSpace_def unicode_spaces_def strings_ContainsAny_def)
  moreover have "EndpointSubject ''mcp.v1'' '''' '''' ''gh'' = Inr ''mcp.v1.req.*.*.gh.>''" by code_simp
  ultimately show ?thesis using usable_reply_is_private [of "''_INBOX.a.b''" "''mcp.v1''" "\<lambda>_. True" "''''" "''''" "''gh''" _ "''_INBOX.a.b''"]
    by (simp add: ctlSuffix_def)
qed

section \<open>Logging refusals\<close>

text \<open>The throttle fields of \<open>Server\<close>; times in nanoseconds, \<open>None\<close> is the zero time.\<close>

definition refusalLogInterval :: int where "refusalLogInterval = 1000000000"

record throttle =
  refusedAt :: "int option"
  refusedSuppressed :: nat

text \<open>\<open>warnUnusableReply\<close> at time \<open>now\<close>: the suppressed count of the line it logs, if it logs one.\<close>

definition warnUnusableReply :: "int \<Rightarrow> throttle \<Rightarrow> nat option \<times> throttle" where
  "warnUnusableReply now th =
     (if (case refusedAt th of None \<Rightarrow> False | Some t \<Rightarrow> now - t < refusalLogInterval)
      then (None, th\<lparr>refusedSuppressed := refusedSuppressed th + 1\<rparr>)
      else (Some (refusedSuppressed th), \<lparr>refusedAt = Some now, refusedSuppressed = 0\<rparr>))"

text \<open>The lines (time and count) a sequence of refusals logs.\<close>

fun warn_lines :: "int list \<Rightarrow> throttle \<Rightarrow> (int \<times> nat) list \<times> throttle" where
  "warn_lines [] th = ([], th)"
| "warn_lines (now # nows) th =
     (case warnUnusableReply now th of
        (None, th') \<Rightarrow> warn_lines nows th'
      | (Some n, th') \<Rightarrow> (case warn_lines nows th' of (ls, th'') \<Rightarrow> ((now, n) # ls, th'')))"

fun spaced :: "int option \<Rightarrow> (int \<times> nat) list \<Rightarrow> bool" where
  "spaced prev [] = True"
| "spaced prev ((t, n) # ls) =
     ((case prev of None \<Rightarrow> True | Some t0 \<Rightarrow> t0 + refusalLogInterval \<le> t) \<and> spaced (Some t) ls)"

text \<open>
  Refusals are neither invisible nor able to fill the log: two lines are at least one
  interval apart, and the lines together with the counts they carry and the count still held
  account for every refusal.
\<close>

theorem refusals_accounted:
  "(case warn_lines nows th of (ls, th') \<Rightarrow>
      spaced (refusedAt th) ls \<and>
      length nows + refusedSuppressed th = (\<Sum>(t, n)\<leftarrow>ls. 1 + n) + refusedSuppressed th')"
proof (induction nows arbitrary: th)
  case (Cons now nows)
  show ?case
  proof (cases "fst (warnUnusableReply now th)")
    case None
    then have "warnUnusableReply now th = (None, th\<lparr>refusedSuppressed := refusedSuppressed th + 1\<rparr>)"
      by (simp add: warnUnusableReply_def split: if_splits)
    with Cons.IH [of "th\<lparr>refusedSuppressed := refusedSuppressed th + 1\<rparr>"] show ?thesis
      by (simp split: prod.splits)
  next
    case (Some n)
    then have w: "warnUnusableReply now th = (Some (refusedSuppressed th), \<lparr>refusedAt = Some now, refusedSuppressed = 0\<rparr>)"
      and late: "case refusedAt th of None \<Rightarrow> True | Some t \<Rightarrow> t + refusalLogInterval \<le> now"
      by (auto simp: warnUnusableReply_def split: if_splits option.splits)
    with Cons.IH [of "\<lparr>refusedAt = Some now, refusedSuppressed = 0\<rparr>"] show ?thesis
      by (simp split: prod.splits)
  qed
qed simp

section \<open>One request\<close>

record wire_request =
  rq_Subject :: bytes
  rq_Reply :: bytes
  rq_Header :: "bytes \<Rightarrow> bytes"
  rq_Data :: bytes

datatype dispatch_error =
    SubjectRefused subject_error
  | WrongWireVersion bytes
  | BadEnvelope decode_error

text \<open>
  What \<open>dispatch\<close> decides before the handler: stay silent, answer an error with a null id, or run
  the handler on the request (with the control subject it subscribes to).
\<close>

datatype dispatch_plan =
    Silent
  | Rejected int dispatch_error
  | RunHandler Inbound bytes

definition dispatch_check :: "bytes \<Rightarrow> wire_request \<Rightarrow> dispatch_plan" where
  "dispatch_check pfx rq =
     (if \<not> usableReplySubject (rq_Reply rq) pfx then Silent
      else (case ParseSubject (rq_Subject rq) pfx of
        Inl e \<Rightarrow> Rejected CodeInvalidRequest (SubjectRefused e)
      | Inr parsed \<Rightarrow>
          (let v = rq_Header rq HeaderWire in
           if v \<noteq> WireVersion then Rejected CodeInvalidRequest (WrongWireVersion v)
           else (case Decode (rq_Data rq) of
             Inl e \<Rightarrow> Rejected CodeParseError (BadEnvelope e)
           | Inr msg \<Rightarrow>
               RunHandler \<lparr>in_msg = msg, in_subject = parsed, hdr = rq_Header rq\<rparr> (rq_Reply rq @ ctlSuffix)))))"

text \<open>The writer's environment, and the tasks that write the stream.  \<open>say\<close> is the text of an
  error (\<open>err.Error()\<close>); \<open>handler\<close> are the calls the handler makes, \<open>kas\<close> the keepalive ticks.\<close>

definition dispatch_env :: "wenv \<Rightarrow> wire_request \<Rightarrow> dispatch_plan \<Rightarrow> wenv" where
  "dispatch_env env rq plan =
     (case plan of
        RunHandler i ctl \<Rightarrow>
          env\<lparr>req_id := ID (in_msg i), acceptClaim := rq_Header rq HeaderAcceptClaim = ''1''\<rparr>
      | _ \<Rightarrow> env\<lparr>req_id := None\<rparr>)"

definition dispatch_tasks ::
  "(dispatch_error \<Rightarrow> bytes) \<Rightarrow> dispatch_plan \<Rightarrow> task list \<Rightarrow> nat \<Rightarrow> cause \<Rightarrow> bytes option \<Rightarrow> task list" where
  "dispatch_tasks say plan handler kas cause herr =
     (case plan of
        Silent \<Rightarrow> []
      | Rejected code e \<Rightarrow> [ErrTask code (say e) NilData]
      | RunHandler i ctl \<Rightarrow> handler @ replicate kas KATask @ [FinalTask cause herr])"

definition refuseDrained_env :: "wenv \<Rightarrow> wire_request \<Rightarrow> wenv" where
  "refuseDrained_env env rq =
     env\<lparr>req_id := (case Decode (rq_Data rq) of Inl _ \<Rightarrow> None | Inr m \<Rightarrow> ID m), has_claims := False, acceptClaim := False\<rparr>"

definition refuseDrained :: "bytes \<Rightarrow> wire_request \<Rightarrow> task list" where
  "refuseDrained pfx rq =
     (if \<not> usableReplySubject (rq_Reply rq) pfx then []
      else [ErrTask ErrCodeStreamLost ''gateway draining, re-issue the request'' NilData])"

text \<open>\<open>dispatch\<close> in a given state of the drain: the environment and the tasks of the request.\<close>

definition dispatch ::
  "drain \<Rightarrow> (dispatch_error \<Rightarrow> bytes) \<Rightarrow> bytes \<Rightarrow> wenv \<Rightarrow> wire_request \<Rightarrow> task list \<Rightarrow> nat \<Rightarrow> cause \<Rightarrow> bytes option \<Rightarrow>
     wenv \<times> task list" where
  "dispatch dr say pfx env rq handler kas cause herr =
     (if \<not> fst (beginRequest dr) then (refuseDrained_env env rq, refuseDrained pfx rq)
      else (let plan = dispatch_check pfx rq in
            (dispatch_env env rq plan, dispatch_tasks say plan handler kas cause herr)))"

section \<open>Every request is answered\<close>

text \<open>
  The order of \<open>dispatch\<close>: its last goroutine is the one that runs the handler, and it looks whether the
  stream has ended only once the handler is back, that is when none of the handler's answers is under way;
  notifications of the backend and keepalives may be.
\<close>

definition beside :: "task \<Rightarrow> bool" where
  "beside t \<longleftrightarrow> t = DoneTask \<or> t = KATask \<or> (\<exists>b. t = MsgTask b)"

inductive dispatch_step ::
  "wenv \<Rightarrow> (answer \<Rightarrow> bool) \<Rightarrow> writer \<times> task list \<Rightarrow> writer \<times> task list \<Rightarrow> bool"
  for env good where
  step: "n < length ts \<Longrightarrow> ts ! n \<noteq> DoneTask \<Longrightarrow> (n + 1 = length ts \<Longrightarrow> list_all beside (take n ts)) \<Longrightarrow> good ans \<Longrightarrow>
     exec_task env ans w (ts ! n) = (w', t') \<Longrightarrow> dispatch_step env good (w, ts) (w', ts[n := t'])"

inductive dispatch_reach ::
  "wenv \<Rightarrow> (answer \<Rightarrow> bool) \<Rightarrow> task list \<Rightarrow> writer \<times> task list \<Rightarrow> bool"
  for env good init where
  start: "dispatch_reach env good init (fresh_writer, init)"
| more: "dispatch_reach env good init s \<Longrightarrow> dispatch_step env good s s' \<Longrightarrow> dispatch_reach env good init s'"

inductive_cases dispatch_stepE: "dispatch_step env good (w, ts) s'"

lemma dispatch_step_sys: "dispatch_step env good s s' \<Longrightarrow> sys_step env good s s'"
  by (auto elim!: dispatch_step.cases intro: sys_step.step)

text \<open>The calls of a handler: notifications, and at most one answer.\<close>

definition handler_shape :: "task list \<Rightarrow> bool" where
  "handler_shape h \<longleftrightarrow>
     (\<exists>bs es. h = map MsgTask bs @ es \<and> length es \<le> 1 \<and>
        (\<forall>t\<in>set es. (\<exists>b. t = EndTask b) \<or> (\<exists>code m d. t = ErrTask code m d)))"

text \<open>Whose answer it is: the handler's, or if it gave none the one that \<open>dispatch\<close> adds.\<close>

definition answer_task :: "task list \<Rightarrow> cause \<Rightarrow> bytes option \<Rightarrow> task" where
  "answer_task h c herr = (case filter ending h of [] \<Rightarrow> FinalTask c herr | t # _ \<Rightarrow> t)"

definition terminals :: "writer \<Rightarrow> wire_frame list" where
  "terminals w = filter terminal (w_out w)"

text \<open>
  The task in slot \<open>a\<close> is going to answer in the way of \<open>A\<close>, is about to publish its answer, or has
  published it; no other task does.
\<close>

definition run_inv :: "wenv \<Rightarrow> task \<Rightarrow> nat \<Rightarrow> writer \<times> task list \<Rightarrow> bool" where
  "run_inv env A a s \<longleftrightarrow> (case s of (w, ts) \<Rightarrow>
     a < length ts \<and>
     (\<forall>m<length ts. m \<noteq> a \<longrightarrow> beside (ts ! m) \<or> m + 1 = length ts \<and> (\<exists>c h. ts ! m = FinalTask c h)) \<and>
     ((ending (ts ! a) \<and> \<not> w_done w \<and> (\<forall>f. answers env (ts ! a) f \<longrightarrow> answers env A f) \<and> terminals w = []) \<or>
      (\<exists>f. ts ! a = RespondTask f \<and> w_done w \<and> answers env A f \<and> terminals w = []) \<or>
      (\<exists>f. ts ! a = DoneTask \<and> w_done w \<and> answers env A f \<and>
         terminals w = (if fits (ovh env) (maxPayload env) f then [f] else []))))"

lemma beside_exec:
  assumes "exec_task env ans w t = (w', t')" "beside t"
  shows "beside t'" "w_done w' = w_done w" "terminals w' = terminals w"
  using assms by (auto simp: beside_def publish_def terminals_def split: if_splits)

lemma final_exec: "exec_task env ans w (FinalTask c h) = (w', t') \<Longrightarrow> w_done w \<Longrightarrow> w' = w \<and> t' = DoneTask"
  by simp

lemma beside_simps [simp]: "beside DoneTask" "beside KATask" "beside (MsgTask b)"
  by (simp_all add: beside_def)

lemma not_beside [simp]: "\<not> beside (RespondTask f)" "\<not> beside (FinalTask c h)" "ending t \<Longrightarrow> \<not> beside t"
  by (auto simp: beside_def)

lemma run_inv_other:
  assumes "run_inv env A a (w, ts)" "n < length ts" "n \<noteq> a" "exec_task env ans w (ts ! n) = (w', t')"
    and "n + 1 = length ts \<Longrightarrow> list_all beside (take n ts)"
  shows "run_inv env A a (w', ts[n := t'])"
proof -
  have same: "beside t' \<and> w_done w' = w_done w \<and> terminals w' = terminals w"
  proof (cases "beside (ts ! n)")
    case True
    with beside_exec assms(4) show ?thesis by blast
  next
    case False
    with assms(1-3) obtain c h where f: "n + 1 = length ts" "ts ! n = FinalTask c h" by (auto simp: run_inv_def)
    have "a < length ts" using assms(1) by (simp add: run_inv_def)
    with assms(3) f(1) have "a < n" by linarith
    then have "beside (ts ! a)" using assms(2,5) f(1) by (auto simp: list_all_length dest: spec [of _ a])
    then have "w_done w" using assms(1) by (auto simp: run_inv_def)
    with final_exec assms(4) f(2) show ?thesis by (auto simp: beside_def)
  qed
  with assms(1-3) show ?thesis by (auto simp: run_inv_def nth_list_update)
qed

lemma run_inv_own:
  assumes "run_inv env A a (w, ts)" "ts ! a \<noteq> DoneTask" "exec_task env ans w (ts ! a) = (w', t')" "publish_ok ans" "ending A"
  shows "run_inv env A a (w', ts[a := t'])"
proof -
  have a: "a < length ts" using assms(1) by (simp add: run_inv_def)
  from assms(1,2) consider (ahead) "ending (ts ! a)" "\<not> w_done w" "\<And>f. answers env (ts ! a) f \<Longrightarrow> answers env A f" "terminals w = []"
    | (respond) f where "ts ! a = RespondTask f" "w_done w" "answers env A f" "terminals w = []"
    by (auto simp: run_inv_def)
  then show ?thesis
  proof cases
    case ahead
    from exec_ending [OF assms(3) ahead(1,2)] have t: "terminals w' = []"
      and "w_done w' \<and> (\<exists>f. t' = RespondTask f) \<or> \<not> w_done w' \<and> ending t'"
      using ahead(4) by (simp_all add: terminals_def)
    moreover have "answers env A f" if "answers env t' f" for f
      using ahead(3) exec_answers [OF assms(3) that] by blast
    ultimately show ?thesis using assms(1) a by (auto simp: run_inv_def nth_list_update)
  next
    case (respond f)
    have "terminal f" by (rule answers_terminal [OF respond(3) assms(5)])
    with respond assms(3,4) have "t' = DoneTask" "w_done w'"
      "terminals w' = (if fits (ovh env) (maxPayload env) f then [f] else [])"
      by (auto simp: publish_def terminals_def)
    with assms(1) a respond(3) show ?thesis by (auto simp: run_inv_def nth_list_update)
  qed
qed

lemma run_inv_step:
  assumes "dispatch_step env publish_ok s s'" "run_inv env A a s" "ending A"
  shows "run_inv env A a s'"
  using assms(1)
proof cases
  case (step n ts ans w w' t')
  with run_inv_own [of env A a w ts ans w' t'] run_inv_other [of env A a w ts n ans w' t'] assms(2,3)
  show ?thesis by (cases "n = a") auto
qed

lemma run_inv_reach:
  "dispatch_reach env publish_ok init s \<Longrightarrow> run_inv env A a (fresh_writer, init) \<Longrightarrow> ending A \<Longrightarrow> run_inv env A a s"
  by (induction rule: dispatch_reach.induct) (auto intro: run_inv_step)

text \<open>An unfinished run can go on, and every step brings it closer to its end.\<close>

lemma dispatch_progress:
  assumes "\<not> list_all (\<lambda>t. t = DoneTask) ts"
  shows "\<exists>s'. dispatch_step env publish_ok (w, ts) s'"
proof -
  let ?P = "\<lambda>n. n < length ts \<and> ts ! n \<noteq> DoneTask"
  from assms have "\<exists>n. ?P n" by (auto simp: list_all_length)
  then have n: "?P (LEAST n. ?P n)" by (rule LeastI_ex)
  have before: "\<not> ?P m" if "m < (LEAST n. ?P n)" for m using that by (rule not_less_Least)
  define k where "k = (LEAST n. ?P n)"
  have all: "list_all beside (take k ts)"
    using n before unfolding k_def [symmetric] by (auto simp: list_all_length beside_def)
  let ?ans = "\<lparr>publish_ok = True, put_result = None, delete_ok = True\<rparr>"
  obtain w' t' where "exec_task env ?ans w (ts ! k) = (w', t')" using exec_steps by blast
  with n all have "dispatch_step env publish_ok (w, ts) (w', ts[k := t'])"
    unfolding k_def [symmetric] by (intro dispatch_step.step [of k ts publish_ok ?ans]) auto
  then show ?thesis by blast
qed

lemma dispatch_step_rank: "dispatch_step env good s s' \<Longrightarrow> total_rank s' < total_rank s"
  by (rule sys_step_rank [OF dispatch_step_sys])

text \<open>The one answer of the tasks that \<open>dispatch\<close> starts for a handler.\<close>

lemma run_inv_handler:
  assumes "handler_shape h"
  shows "\<exists>a. run_inv env (answer_task h c herr) a (fresh_writer, h @ replicate kas KATask @ [FinalTask c herr])"
    and "ending (answer_task h c herr)"
proof -
  obtain bs es where h: "h = map MsgTask bs @ es" "length es \<le> 1"
    and es: "\<forall>t\<in>set es. (\<exists>b. t = EndTask b) \<or> (\<exists>code m d. t = ErrTask code m d)"
    using assms by (auto simp: handler_shape_def)
  let ?k = "replicate kas KATask" and ?f = "[FinalTask c herr]"
  have msgs: "filter ending (map MsgTask bs) = []" by (simp add: filter_empty_conv)
  have "(\<exists>a. run_inv env (answer_task h c herr) a (fresh_writer, h @ ?k @ ?f)) \<and> ending (answer_task h c herr)"
  proof (cases es)
    case Nil
    with h msgs have A: "answer_task h c herr = FinalTask c herr" by (simp add: answer_task_def)
    have "beside ((map MsgTask bs @ ?k @ ?f) ! m)" if "m < length bs + kas" for m
      using that by (auto simp: nth_append beside_def)
    moreover have "(map MsgTask bs @ ?k @ ?f) ! (length bs + kas) = FinalTask c herr" by (simp add: nth_append)
    ultimately have "run_inv env (FinalTask c herr) (length bs + kas) (fresh_writer, h @ ?k @ ?f)"
      using h(1) Nil by (auto simp: run_inv_def fresh_writer_def terminals_def less_Suc_eq)
    then show ?thesis unfolding A by auto
  next
    case (Cons e es')
    with h(2) have e: "es = [e]" by simp
    with es have ee: "ending e" by auto
    with h(1) e msgs have A: "answer_task h c herr = e" by (simp add: answer_task_def)
    have "beside ((map MsgTask bs @ e # ?k @ ?f) ! m) \<or> m = length bs + kas + 1 \<and> (map MsgTask bs @ e # ?k @ ?f) ! m = FinalTask c herr"
      if "m < length bs + kas + 2" "m \<noteq> length bs" for m
    proof (cases "m < length bs")
      case False
      with that(2) obtain q where q: "m = length bs + Suc q" by (metis less_iff_Suc_add linorder_neqE_nat add_Suc_right)
      with that(1) show ?thesis by (cases "q < kas") (auto simp: nth_append beside_def)
    qed (simp add: nth_append beside_def)
    then have "run_inv env e (length bs) (fresh_writer, h @ ?k @ ?f)"
      using h(1) e ee by (auto simp: run_inv_def fresh_writer_def terminals_def nth_append)
    then show ?thesis using A ee by auto
  qed
  then show "\<exists>a. run_inv env (answer_task h c herr) a (fresh_writer, h @ ?k @ ?f)" "ending (answer_task h c herr)" by blast+
qed

lemma answered_by:
  assumes "dispatch_reach env publish_ok init (w, ts)" "run_inv env A a (fresh_writer, init)" "ending A"
    and "list_all (\<lambda>t. t = DoneTask) ts"
  shows "\<exists>f. answers env A f \<and> filter terminal (w_out w) = (if fits (ovh env) (maxPayload env) f then [f] else [])"
proof -
  have i: "run_inv env A a (w, ts)" by (rule run_inv_reach [OF assms(1-3)])
  then have "ts ! a = DoneTask" using assms(4) by (simp add: run_inv_def list_all_length)
  with i show ?thesis by (auto simp: run_inv_def terminals_def)
qed

text \<open>
  One request from its start to its last frame, when it is served: the answer of the handler, or the one
  that \<open>dispatch\<close> adds, is published once if it fits, and nothing else ends the stream.
\<close>

lemma dispatch_run:
  assumes "dispatch_check pfx rq = RunHandler i ctl" "fst (beginRequest dr)" "handler_shape handler"
    and "dispatch dr say pfx env rq handler kas c herr = (env', init)" "dispatch_reach env' publish_ok init (w, ts)"
    and "list_all (\<lambda>t. t = DoneTask) ts"
  obtains f where "answers env' (answer_task handler c herr) f" "ending (answer_task handler c herr)"
    "filter terminal (w_out w) = (if fits (ovh env') (maxPayload env') f then [f] else [])"
proof -
  have init: "init = handler @ replicate kas KATask @ [FinalTask c herr]"
    using assms(1,2,4) by (auto simp: dispatch_def Let_def dispatch_tasks_def)
  obtain a where "run_inv env' (answer_task handler c herr) a (fresh_writer, init)"
    using run_inv_handler(1) [OF assms(3)] unfolding init by blast
  from answered_by [OF assms(5) this run_inv_handler(2) [OF assms(3)] assms(6)] run_inv_handler(2) [OF assms(3)]
  show ?thesis using that by blast
qed

text \<open>
  A request that is refused before the handler, or because the gateway drains, is told so; one whose
  reply subject is unusable is told nothing.
\<close>

lemma refused_run:
  assumes "dispatch dr say pfx env rq handler kas c herr = (env', init)" "dispatch_reach env' publish_ok init (w, ts)"
    and "list_all (\<lambda>t. t = DoneTask) ts" "init = [ErrTask code m NilData]"
  shows "filter terminal (w_out w) =
    (if fits (ovh env') (maxPayload env') (err_answer env' code m NilData) then [err_answer env' code m NilData] else [])"
proof -
  have "run_inv env' (ErrTask code m NilData) 0 (fresh_writer, init)"
    by (simp add: assms(4) run_inv_def fresh_writer_def terminals_def)
  from answered_by [OF assms(2) this _ assms(3)] show ?thesis by auto
qed

lemma silent_run:
  assumes "dispatch dr say pfx env rq handler kas c herr = (env', init)" "dispatch_reach env' publish_ok init (w, ts)"
    and "\<not> usableReplySubject (rq_Reply rq) pfx"
  shows "w = fresh_writer"
proof -
  have init: "init = []"
    using assms(1,3) by (auto simp: dispatch_def Let_def dispatch_tasks_def dispatch_check_def refuseDrained_def split: if_splits)
  have "s = (fresh_writer, [])" if "dispatch_reach env' publish_ok [] s" for s
    using that by (induction rule: dispatch_reach.induct) (auto elim: dispatch_step.cases)
  with assms(2) init show ?thesis by blast
qed

end
