(* ===== verification/Cancel.thy ===== *)
theory Cancel
  imports Jsonrpc
begin

text \<open>
  Cancellation over the control subject (\<open>isCancellation\<close>, \<open>sameRequestID\<close> and \<open>decodeID\<close> in
  \<open>pkg/wire/server.go\<close>): which message on \<open>{reply}.ctl\<close> ends a running request.
\<close>

section \<open>Ids by value\<close>

datatype request_id = IdString bytes | IdNumber bytes

datatype id_error = BadJson | NotAnID

definition id_of_value :: "jval \<Rightarrow> id_error + request_id" where
  "id_of_value v =
     (case v of
        JString r \<Rightarrow> Inr (IdString (unquoted r))
      | JScalar t \<Rightarrow> if t \<in> set [''null'', ''true'', ''false''] then Inl NotAnID else Inr (IdNumber t)
      | _ \<Rightarrow> Inl NotAnID)"

text \<open>\<open>json.Decoder.Decode\<close> takes the first value of its input and looks no further.\<close>

definition decodeID :: "bytes \<Rightarrow> id_error + request_id" where
  "decodeID raw =
     (case parse_value (2 * length raw + 2) maxNestingDepth (dropWhile json_ws raw) of
        None \<Rightarrow> Inl BadJson
      | Some (v, rest) \<Rightarrow> id_of_value v)"

definition sameRequestID :: "bytes \<Rightarrow> bytes \<Rightarrow> bool" where
  "sameRequestID a b =
     (case decodeID a of
        Inl _ \<Rightarrow> False
      | Inr da \<Rightarrow> (case decodeID b of Inl _ \<Rightarrow> False | Inr db \<Rightarrow> da = db))"

section \<open>Cancellations\<close>

text \<open>The \<open>requestId\<close> member of the params, as \<open>json.Unmarshal\<close> finds it in a struct with that one
  field; \<open>[]\<close> is the field left nil.\<close>

fun request_id_member :: "bytes \<Rightarrow> (bytes \<times> jval) list \<Rightarrow> bytes" where
  "request_id_member old [] = old"
| "request_id_member old ((k, v) # kvs) =
     (if field_of [''requestId''] k = None then request_id_member old kvs
      else request_id_member (render v) kvs)"

definition cancel_params :: "bytes \<Rightarrow> unmarshal_error + bytes" where
  "cancel_params raw =
     (case json_parse raw of
        None \<Rightarrow> Inl SyntaxError
      | Some v \<Rightarrow>
          if v = json_null then Inr []
          else (case v of
                  JObject w ms \<Rightarrow> Inr (request_id_member [] (members_list ms))
                | _ \<Rightarrow> Inl UnmarshalTypeError))"

definition isCancellation :: "bytes \<Rightarrow> bytes \<Rightarrow> bool" where
  "isCancellation data i =
     (if length i = 0 then False
      else if \<not> strings_Contains data NotifCancelled then False
      else (case Decode data of
              Inl _ \<Rightarrow> False
            | Inr m \<Rightarrow>
                if Kind m \<noteq> KindNotification \<or> Method m \<noteq> NotifCancelled then False
                else (case cancel_params (case msg_params m of None \<Rightarrow> [] | Some p \<Rightarrow> p) of
                        Inl _ \<Rightarrow> False
                      | Inr r \<Rightarrow> if length r = 0 then False else sameRequestID r i)))"

section \<open>Ids of whole values\<close>

lemma decodeID_json_parse:
  assumes "json_parse raw = Some v"
  shows "decodeID raw = id_of_value v"
  using assms by (auto simp: decodeID_def json_parse_def split: option.splits if_splits)

lemma id_of_value_compact: "wf_json v \<Longrightarrow> id_of_value (compact v) = id_of_value v"
  by (cases v) (simp_all add: id_of_value_def html_escape_unquoted)

lemma decodeID_compact:
  assumes "wf_json v" "jdepth v \<le> maxNestingDepth"
  shows "decodeID (render (compact v)) = decodeID (render v)"
proof -
  have "json_parse (render (compact v)) = Some (compact v)" "json_parse (render v) = Some v"
    using assms by (simp_all add: json_parse_render compact_wf)
  with assms(1) show ?thesis by (simp add: decodeID_json_parse id_of_value_compact)
qed

lemma request_id_member_compact:
  assumes "wf_members ms"
  obtains (absent) "request_id_member old (members_list ms) = old"
      "request_id_member old' (members_list (compact_members ms)) = old'"
  | (present) k v where "(k, v) \<in> set (members_list ms)" "request_id_member old (members_list ms) = render v"
      "request_id_member old' (members_list (compact_members ms)) = render (compact v)"
proof -
  have "(request_id_member old kvs = old \<and> request_id_member old' (map (\<lambda>(k, v). (k, compact v)) kvs) = old') \<or>
      (\<exists>k v. (k, v) \<in> set kvs \<and> request_id_member old kvs = render v \<and>
         request_id_member old' (map (\<lambda>(k, v). (k, compact v)) kvs) = render (compact v))" for kvs
  proof (induction kvs arbitrary: old old')
    case (Cons kv kvs)
    obtain k v where kv: "kv = (k, v)" by fastforce
    show ?case
    proof (cases "field_of [''requestId''] k = None")
      case True
      with Cons.IH [of old old'] kv show ?thesis by auto
    next
      case False
      with Cons.IH [of "render v" "render (compact v)"] kv show ?thesis by auto
    qed
  qed simp
  with assms that show ?thesis by (metis members_list_compact)
qed

text \<open>The params a re-encoded cancellation carries name the same request.\<close>

lemma cancel_params_compact:
  assumes "raw_fits 1 (Some raw)" "cancel_params raw = Inr r" "r \<noteq> []" "compact_raw (Some raw) = Some raw'"
  obtains r' where "cancel_params raw' = Inr r'" "r' \<noteq> []" "decodeID r' = decodeID r"
proof -
  obtain v where v: "json_parse raw = Some v" "v \<noteq> json_null" "jdepth v < maxNestingDepth"
    using assms(1,2,3) by (auto simp: cancel_params_def raw_fits_def split: option.splits if_splits)
  then obtain w ms where ms: "v = JObject w ms" "r = request_id_member [] (members_list ms)"
    using assms(2) by (auto simp: cancel_params_def split: jval.splits)
  have wf: "wf_json v" using v(1) by (simp add: json_parse_iff)
  have raw': "raw' = render (compact v)" using assms(4) v(1) by (simp add: compact_raw_def)
  have p': "json_parse raw' = Some (compact v)"
    unfolding raw' using wf v(3) by (intro json_parse_render) (simp_all add: compact_wf)
  have c: "cancel_params raw' = Inr (request_id_member [] (members_list (compact_members ms)))"
    using p' ms(1) by (simp add: cancel_params_def json_null_def)
  from wf ms(1) have "wf_members ms" by simp
  then show ?thesis
  proof (cases rule: request_id_member_compact [of ms "[]" "[]"])
    case absent
    with ms(2) assms(3) show ?thesis by simp
  next
    case (present k u)
    have u: "wf_json u" "jdepth u \<le> maxNestingDepth"
      using wf_members_list [OF \<open>wf_members ms\<close> present(1)] jdepth_members_list [OF present(1)] v(3) ms(1) by auto
    have "render (compact u) \<noteq> []" using compact_wf(1) [OF u(1)] render_head by (metis list.distinct(1))
    moreover have "decodeID (render (compact u)) = decodeID r"
      using decodeID_compact [OF u] present(2) ms(2) by simp
    ultimately show ?thesis using that c present(3) by simp
  qed
qed

section \<open>The method name in the encoded text\<close>

lemma render_mk_members: "(k, v) \<in> set kvs \<Longrightarrow> \<exists>l r. render_members (mk_members kvs) = l @ render v @ r"
proof (induction kvs rule: mk_members.induct)
  case (2 k' v' kvs)
  show ?case
  proof (cases "(k, v) = (k', v')")
    case True
    then have "render_members (mk_members ((k', v') # kvs)) = (CHR 0x22 # k' @ CHR 0x22 # CHR '':'' # []) @ render v @
        (if mk_members kvs = MNil then [] else CHR '','' # render_members (mk_members kvs))"
      by simp
    then show ?thesis by blast
  next
    case False
    with "2" obtain l r where lr: "render_members (mk_members kvs) = l @ render v @ r" by auto
    then have "mk_members kvs \<noteq> MNil" using False "2.prems" by (cases kvs) auto
    then have "render_members (mk_members ((k', v') # kvs)) =
        (CHR 0x22 # k' @ CHR 0x22 # CHR '':'' # render v' @ CHR '','' # l) @ render v @ r"
      using lr by simp
    then show ?thesis by blast
  qed
qed simp

lemma Encode_contains_method:
  assumes "Encode m = Inr data" "Method m = NotifCancelled"
  shows "strings_Contains data NotifCancelled"
proof -
  from assms(1) obtain kvs where kvs: "message_fields_of m = Inr kvs" "data = render (mk_object kvs)"
    by (auto simp: Encode_def bind_err_Inr)
  have "(''method'', marshal_string NotifCancelled) \<in> set kvs"
    using kvs(1) assms(2) by (auto simp: message_fields_of_def bind_err_Inr NotifCancelled_def)
  then obtain l r where "render_members (mk_members kvs) = l @ render (marshal_string NotifCancelled) @ r"
    using render_mk_members by blast
  moreover have "render (marshal_string NotifCancelled) = CHR 0x22 # NotifCancelled @ [CHR 0x22]" by code_simp
  ultimately have "data = (CHR ''{'' # l @ [CHR 0x22]) @ NotifCancelled @ (CHR 0x22 # r @ ''}'')"
    using kvs(2) by (simp add: mk_object_def)
  then show ?thesis unfolding strings_Contains_iff by blast
qed

section \<open>Which request a cancellation ends\<close>

lemma isCancellation_iff:
  "isCancellation data i \<longleftrightarrow> i \<noteq> [] \<and> strings_Contains data NotifCancelled \<and>
     (\<exists>m r. Decode data = Inr m \<and> Kind m = KindNotification \<and> Method m = NotifCancelled \<and>
        cancel_params (case msg_params m of None \<Rightarrow> [] | Some p \<Rightarrow> p) = Inr r \<and> r \<noteq> [] \<and> sameRequestID r i)"
  by (auto simp: isCancellation_def split: sum.splits)

lemma sameRequestID_iff: "sameRequestID a b \<longleftrightarrow> (\<exists>x. decodeID a = Inr x \<and> decodeID b = Inr x)"
  by (auto simp: sameRequestID_def split: sum.splits)

text \<open>
  A cancellation is not lost to re-encoding.  The notification a client builds for the
  request id \<open>r\<close> is encoded with every \<open><\<close>, \<open>>\<close> and \<open>&\<close> escaped, while the request went out
  verbatim: the encoded notification still cancels exactly the requests whose id has the value of
  \<open>r\<close>, in particular \<open>r\<close> itself when it is a string or a number.
\<close>

theorem cancellation_survives_encoding:
  assumes "raw_fits 1 (Some params)" "cancel_params params = Inr r" "r \<noteq> []"
    and "Encode (NewNotification NotifCancelled (Some params)) = Inr data" "i \<noteq> []"
  shows "isCancellation data i \<longleftrightarrow> sameRequestID r i"
proof -
  let ?m = "NewNotification NotifCancelled (Some params)"
  have "utf8_Valid NotifCancelled" by (rule utf8_Valid_ascii) (simp add: NotifCancelled_def)
  then have fits: "message_fits ?m"
    using assms(1) by (simp add: message_fits_def NewNotification_def zero_message_def error_fits_def raw_fits_def [of _ None])
  have m: "Method ?m = NotifCancelled" "Kind ?m = KindNotification"
    by (simp_all add: NewNotification_def zero_message_def Kind_def HasID_def NotifCancelled_def)
  then have d: "Decode data = Inr (canonical ?m)"
    by (intro Decode_Encode_canonical [OF fits _ assms(4)]) simp
  obtain raw' where raw': "compact_raw (Some params) = Some raw'"
    using assms(1) by (auto simp: raw_fits_def compact_raw_def split: option.splits)
  obtain r' where r': "cancel_params raw' = Inr r'" "r' \<noteq> []" "decodeID r' = decodeID r"
    by (rule cancel_params_compact [OF assms(1-3) raw'])
  have "msg_params (canonical ?m) = Some raw'" "Method (canonical ?m) = NotifCancelled"
    using raw' by (simp_all add: canonical_def NewNotification_def zero_message_def)
  then have "isCancellation data i \<longleftrightarrow> sameRequestID r' i"
    using Encode_contains_method [OF assms(4) m(1)] d assms(5) r'(1,2) Kind_canonical [OF fits] m(2)
    by (simp add: isCancellation_iff)
  then show ?thesis using r'(3) by (simp add: sameRequestID_iff)
qed

lemma cancellation_survives_encoding_witness:
  "\<exists>data. Encode (NewNotification NotifCancelled (Some (json_text ''{~requestId~:~a<b~}''))) = Inr data \<and>
     isCancellation data (json_text ''~a<b~'') \<and> \<not> isCancellation data ''7''"
proof -
  let ?p = "json_text ''{~requestId~:~a<b~}''"
  have p: "json_parse ?p = Some (JObject [] (MCons [] ''requestId'' [] [] (JString ''a<b'') [] MNil))" by code_simp
  then have f: "raw_fits 1 (Some ?p)" by (simp add: raw_fits_def json_text_def maxNestingDepth_def)
  have u: "unquoted ''requestId'' = ''requestId''" by code_simp
  have "field_of [''requestId''] ''requestId'' = Some ''requestId''" by (simp add: field_of_def)
  then have c: "cancel_params ?p = Inr (json_text ''~a<b~'')"
    using p by (simp add: cancel_params_def json_null_def u json_text_def)
  have "json_parse (json_text ''~a<b~'') = Some (JString ''a<b'')" "json_parse ''7'' = Some (JScalar ''7'')"
    by code_simp+
  then have ids: "decodeID (json_text ''~a<b~'') = Inr (IdString (unquoted ''a<b''))" "decodeID ''7'' = Inr (IdNumber ''7'')"
    by (simp_all add: decodeID_json_parse id_of_value_def)
  have "utf8_Valid NotifCancelled" by (rule utf8_Valid_ascii) (simp add: NotifCancelled_def)
  with f have "message_fits (NewNotification NotifCancelled (Some ?p))"
    by (simp add: message_fits_def NewNotification_def zero_message_def error_fits_def raw_fits_def [of _ None])
  then obtain data where data: "Encode (NewNotification NotifCancelled (Some ?p)) = Inr data"
    using Encode_unmarshal by metis
  have ne: "json_text ''~a<b~'' \<noteq> []" by (simp add: json_text_def)
  have "isCancellation data (json_text ''~a<b~'')" "\<not> isCancellation data ''7''"
    using cancellation_survives_encoding [OF f c ne data] ids ne by (simp_all add: sameRequestID_iff)
  with data show ?thesis by blast
qed

text \<open>
  A message on a control subject ends no request but the one it names: it is then a
  \<open>notifications/cancelled\<close> and the request's id is a string or a number, and two requests it would
  both end have the same id by value.  No message ends a request whose id is \<open>null\<close>.
\<close>

theorem cancellation_names_one_request:
  assumes "isCancellation data i"
  shows "(\<exists>x. decodeID i = Inr x) \<and> (isCancellation data j \<longrightarrow> decodeID j = decodeID i) \<and>
    i \<noteq> ''null'' \<and> (\<exists>m. Decode data = Inr m \<and> Kind m = KindNotification \<and> Method m = NotifCancelled)"
proof -
  have "json_parse ''null'' = Some (JScalar ''null'')" by code_simp
  then have "decodeID ''null'' = Inl NotAnID" by (simp add: decodeID_json_parse id_of_value_def)
  then show ?thesis using assms by (auto simp: isCancellation_iff sameRequestID_iff)
qed

lemma cancellation_names_one_request_witness:
  "\<exists>data. isCancellation data ''7'' \<and> \<not> isCancellation data ''8''"
proof -
  let ?p = "json_text ''{~requestId~:7}''"
  have p: "json_parse ?p = Some (JObject [] (MCons [] ''requestId'' [] [] (JScalar ''7'') [] MNil))" by code_simp
  then have f: "raw_fits 1 (Some ?p)" by (simp add: raw_fits_def json_text_def maxNestingDepth_def)
  have "field_of [''requestId''] ''requestId'' = Some ''requestId''" "unquoted ''requestId'' = ''requestId''"
    by (simp add: field_of_def) code_simp
  then have r: "cancel_params ?p = Inr ''7''"
    using p by (simp add: cancel_params_def json_null_def)
  have j: "json_parse ''7'' = Some (JScalar ''7'')" "json_parse ''8'' = Some (JScalar ''8'')" by code_simp+
  then have ids: "decodeID ''7'' = Inr (IdNumber ''7'')" "decodeID ''8'' = Inr (IdNumber ''8'')"
    by (simp_all add: decodeID_json_parse id_of_value_def)
  have v: "utf8_Valid NotifCancelled" by (rule utf8_Valid_ascii) (simp add: NotifCancelled_def)
  let ?m = "NewNotification NotifCancelled (Some ?p)"
  have fits: "message_fits ?m"
    using f v by (simp add: message_fits_def NewNotification_def zero_message_def error_fits_def raw_fits_def [of _ None])
  have m: "Method ?m = NotifCancelled" "Kind ?m = KindNotification"
    by (simp_all add: NewNotification_def zero_message_def Kind_def HasID_def NotifCancelled_def)
  obtain data where data: "Encode ?m = Inr data" using Encode_unmarshal [OF fits] by metis
  have "Decode data = Inr (canonical ?m)" using Decode_Encode_canonical [OF fits _ data] m(2) by simp
  moreover have "compact_raw (Some ?p) = Some ?p" by (simp add: compact_raw_def p) code_simp
  then have "msg_params (canonical ?m) = Some ?p" "Method (canonical ?m) = NotifCancelled" "Kind (canonical ?m) = KindNotification"
    using Kind_canonical [OF fits] m by (simp_all add: canonical_def NewNotification_def zero_message_def)
  ultimately have c: "isCancellation data ''7''"
    using Encode_contains_method [OF data m(1)] r ids by (simp add: isCancellation_iff sameRequestID_iff)
  moreover have "\<not> isCancellation data ''8''"
    using cancellation_names_one_request [OF c, of "''8''"] ids by auto
  ultimately show ?thesis by blast
qed

end
