(* ===== verification/ClaimStore.thy ===== *)
theory ClaimStore
  imports Subject Frame
begin

text \<open>
  The claim store (\<open>pkg/wire/claim.go\<close>): bodies too large for a NATS message are parked in a
  per-tenant object store bucket.  The JetStream client is not part of the repository; the record
  \<open>jetstream\<close> holds the operations \<open>ObjectClaims\<close> calls, over a state of the store of any type.
\<close>

section \<open>Limits\<close>

definition claimBucketPrefix :: bytes where "claimBucketPrefix = ''MCP_CLAIMS_''"
definition claimEagerDeleteCooldown :: int where "claimEagerDeleteCooldown = 60 * 1000000000"
definition DefaultClaimMaxAge :: int where "DefaultClaimMaxAge = 5 * 60 * 1000000000"
definition DefaultClaimMaxBytes :: int where "DefaultClaimMaxBytes = 2 ^ 30"

definition FilledClaimLimits :: "int \<Rightarrow> int \<Rightarrow> int \<times> int" where
  "FilledClaimLimits maxAge maxBytes =
     (if maxAge \<le> 0 then DefaultClaimMaxAge else maxAge, if maxBytes \<le> 0 then DefaultClaimMaxBytes else maxBytes)"

section \<open>The object store\<close>

datatype js_error = ErrBucketNotFound | ErrStreamNotFound | ErrNoStreamResponse | ErrNoResponders | OtherError bytes

text \<open>
  \<open>js_get\<close> gives the size the object declares, if its info can be read, and its content, or the
  failure of reading it.  \<open>js_put\<close> gets the chunk size that was set, if one was.
\<close>

record 's jetstream =
  js_maxPayload :: int
  js_create :: "bytes \<Rightarrow> int \<times> int \<Rightarrow> 's \<Rightarrow> (js_error + unit) \<times> 's"
  js_open :: "bytes \<Rightarrow> 's \<Rightarrow> js_error + unit"
  js_put :: "bytes \<Rightarrow> bytes \<Rightarrow> int option \<Rightarrow> bytes \<Rightarrow> 's \<Rightarrow> (js_error + unit) \<times> 's"
  js_get :: "bytes \<Rightarrow> bytes \<Rightarrow> 's \<Rightarrow> js_error + nat option \<times> (js_error + bytes)"
  js_delete :: "bytes \<Rightarrow> bytes \<Rightarrow> 's \<Rightarrow> (js_error + unit) \<times> 's"

record claims =
  cl_MaxAge :: int
  cl_MaxBytes :: int
  cl_buckets :: "bytes set"
  cl_retryAt :: int

datatype claim_error =
    NoRandomness
  | TenantNotSafe bytes
  | BucketFailed js_error
  | PutFailed js_error
  | RebuildFailed js_error claim_error
  | InvalidReference bytes bytes
  | OpenFailed js_error
  | FetchFailed js_error
  | ClaimTooLarge
  | DeleteFailed js_error

definition bucketMissing :: "js_error \<Rightarrow> bool" where
  "bucketMissing e \<longleftrightarrow> e \<in> set [ErrBucketNotFound, ErrStreamNotFound, ErrNoStreamResponse, ErrNoResponders]"

definition recreateBucket ::
  "'s jetstream \<Rightarrow> bytes \<Rightarrow> claims \<times> 's \<Rightarrow> (claim_error + unit) \<times> claims \<times> 's" where
  "recreateBucket js tenant cs =
     (case cs of (cl, s) \<Rightarrow>
      if \<not> TokenSafe tenant then (Inl (TenantNotSafe tenant), cl, s)
      else (case js_create js (claimBucketPrefix @ tenant) (FilledClaimLimits (cl_MaxAge cl) (cl_MaxBytes cl)) s of
              (Inl e, s') \<Rightarrow> (Inl (BucketFailed e), cl, s')
            | (Inr _, s') \<Rightarrow> (Inr (), cl\<lparr>cl_buckets := insert tenant (cl_buckets cl)\<rparr>, s')))"

definition open_bucket ::
  "'s jetstream \<Rightarrow> bytes \<Rightarrow> claims \<times> 's \<Rightarrow> (claim_error + unit) \<times> claims \<times> 's" where
  "open_bucket js tenant cs =
     (if tenant \<in> cl_buckets (fst cs) then (Inr (), cs) else recreateBucket js tenant cs)"

text \<open>\<open>hex.EncodeToString\<close>.\<close>

definition hex_lower :: "nat \<Rightarrow> char" where
  "hex_lower n = (if n < 10 then char_of (48 + n) else char_of (87 + n))"

definition hex_EncodeToString :: "bytes \<Rightarrow> bytes" where
  "hex_EncodeToString s = concat (map (\<lambda>c. [hex_lower (byte c div 16), hex_lower (byte c mod 16)]) s)"

definition chunk_size :: "int \<Rightarrow> int option" where
  "chunk_size lim =
     (if 0 < lim \<and> lim < 128 * 1024 then
        (let chunk = lim - 1024 in Some (if chunk < 1024 then lim else chunk))
      else None)"

definition Put ::
  "'s jetstream \<Rightarrow> bytes option \<Rightarrow> bytes \<Rightarrow> bytes \<Rightarrow> claims \<times> 's \<Rightarrow> (claim_error + bytes) \<times> claims \<times> 's" where
  "Put js rand tenant body cs =
     (case rand of
        None \<Rightarrow> (Inl NoRandomness, cs)
      | Some r \<Rightarrow>
          (let i = hex_EncodeToString r; chunk = chunk_size (js_maxPayload js); b = claimBucketPrefix @ tenant in
           case open_bucket js tenant cs of
             (Inl e, cs1) \<Rightarrow> (Inl e, cs1)
           | (Inr _, cl1, s1) \<Rightarrow>
               (case js_put js b i chunk body s1 of
                  (Inr _, s2) \<Rightarrow> (Inr i, cl1, s2)
                | (Inl e, s2) \<Rightarrow>
                    if \<not> bucketMissing e then (Inl (PutFailed e), cl1, s2)
                    else (case recreateBucket js tenant (cl1, s2) of
                            (Inl re, cs3) \<Rightarrow> (Inl (RebuildFailed e re), cs3)
                          | (Inr _, cl3, s3) \<Rightarrow>
                              (case js_put js b i chunk body s3 of
                                 (Inl e', s4) \<Rightarrow> (Inl (PutFailed e'), cl3, s4)
                               | (Inr _, s4) \<Rightarrow> (Inr i, cl3, s4))))))"

text \<open>
  The cleanup after a fetch at time \<open>now\<close>; \<open>alive\<close> says that the caller's context has not ended.
\<close>

definition eager_delete ::
  "'s jetstream \<Rightarrow> int \<Rightarrow> bool \<Rightarrow> bytes \<Rightarrow> bytes \<Rightarrow> claims \<times> 's \<Rightarrow> claims \<times> 's" where
  "eager_delete js now alive b i cs =
     (case cs of (cl, s) \<Rightarrow>
      if cl_retryAt cl \<le> now then
        (case js_delete js b i s of
           (Inr _, s') \<Rightarrow> (cl\<lparr>cl_retryAt := 0\<rparr>, s')
         | (Inl _, s') \<Rightarrow>
             (if alive then cl\<lparr>cl_retryAt := now + claimEagerDeleteCooldown\<rparr> else cl, s'))
      else (cl, s))"

definition Fetch ::
  "'s jetstream \<Rightarrow> int \<Rightarrow> bool \<Rightarrow> bytes \<Rightarrow> bytes \<Rightarrow> claims \<times> 's \<Rightarrow> (claim_error + bytes) \<times> claims \<times> 's" where
  "Fetch js now alive tenant i cs =
     (let b = claimBucketPrefix @ tenant; s = snd cs in
      if \<not> TokenSafe tenant \<or> \<not> TokenSafe i then (Inl (InvalidReference tenant i), cs)
      else (case js_open js b s of
        Inl e \<Rightarrow> (Inl (OpenFailed e), cs)
      | Inr _ \<Rightarrow>
          (case js_get js b i s of
             Inl e \<Rightarrow> (Inl (FetchFailed e), cs)
           | Inr (declared, content) \<Rightarrow>
               if (case declared of Some n \<Rightarrow> claimMaxBody < n | None \<Rightarrow> False) then (Inl ClaimTooLarge, cs)
               else (case content of
                       Inl e \<Rightarrow> (Inl (FetchFailed e), cs)
                     | Inr full \<Rightarrow>
                         (let body = take (claimMaxBody + 1) full in
                          if claimMaxBody < length body then (Inl ClaimTooLarge, cs)
                          else (Inr body, eager_delete js now alive b i cs))))))"

definition claim_Delete ::
  "'s jetstream \<Rightarrow> bytes \<Rightarrow> bytes \<Rightarrow> claims \<times> 's \<Rightarrow> (claim_error + unit) \<times> claims \<times> 's" where
  "claim_Delete js tenant i cs =
     (let b = claimBucketPrefix @ tenant in
      if \<not> TokenSafe tenant \<or> \<not> TokenSafe i then (Inl (InvalidReference tenant i), cs)
      else (case js_open js b (snd cs) of
        Inl e \<Rightarrow> (Inl (OpenFailed e), cs)
      | Inr _ \<Rightarrow>
          (case js_delete js b i (snd cs) of
             (Inl e, s') \<Rightarrow> (Inl (DeleteFailed e), fst cs, s')
           | (Inr _, s') \<Rightarrow> (Inr (), fst cs, s'))))"

section \<open>What a caller can hold\<close>

text \<open>
  How much of a claim a process holds is its own decision: whatever the object store says the
  object's size is and however large it really is, a fetched body is the whole object and at most
  \<open>claimMaxBody\<close> bytes long.
\<close>

theorem Fetch_bounded:
  assumes "Fetch js now alive tenant i cs = (Inr body, cs')"
  shows "length body \<le> claimMaxBody \<and>
    (\<exists>declared. js_get js (claimBucketPrefix @ tenant) i (snd cs) = Inr (declared, Inr body))"
  using assms by (auto simp: Fetch_def Let_def min_def split: if_splits sum.splits option.splits)

section \<open>Parking and fetching\<close>

lemma hex_lower_safe: "n < 16 \<Longrightarrow> token_char (hex_lower n)"
  by (auto simp: hex_lower_def token_char_def Let_def)

lemma hex_safe: "s \<noteq> [] \<Longrightarrow> TokenSafe (hex_EncodeToString s)"
  by (auto simp: TokenSafe_def hex_EncodeToString_def list_all_iff intro!: hex_lower_safe less_mult_imp_div_less)

text \<open>What \<open>ObjectClaims\<close> relies on: an object that was put is there until it is deleted, and a
  bucket that holds one opens.\<close>

definition js_keeps :: "'s jetstream \<Rightarrow> bool" where
  "js_keeps js \<longleftrightarrow> (\<forall>b i chunk body s s'. js_put js b i chunk body s = (Inr (), s') \<longrightarrow>
     js_open js b s' = Inr () \<and> js_get js b i s' = Inr (Some (length body), Inr body))"

lemma Put_puts:
  assumes "Put js rand tenant body cs = (Inr i, cl', s')" "tenant \<in> cl_buckets (fst cs) \<longrightarrow> TokenSafe tenant"
  obtains r s where "rand = Some r" "i = hex_EncodeToString r" "TokenSafe tenant"
    "js_put js (claimBucketPrefix @ tenant) i (chunk_size (js_maxPayload js)) body s = (Inr (), s')"
  using assms
  by (auto simp: Put_def Let_def open_bucket_def recreateBucket_def split: option.splits sum.splits prod.splits if_splits)

text \<open>
  A body that was parked comes back unchanged: when the store keeps what was put, a body
  within \<open>claimMaxBody\<close> for which \<open>Put\<close> returned an id is what \<open>Fetch\<close> returns for that tenant and
  id, on the first attempt as after a bucket had to be rebuilt.
\<close>

theorem Fetch_Put:
  assumes "js_keeps js" "Put js (Some r) tenant body cs = (Inr i, cl', s')" "r \<noteq> []" "length body \<le> claimMaxBody"
    and "tenant \<in> cl_buckets (fst cs) \<longrightarrow> TokenSafe tenant"
  shows "fst (Fetch js now alive tenant i (cl', s')) = Inr body"
proof -
  obtain s where i: "i = hex_EncodeToString r" and t: "TokenSafe tenant"
    and p: "js_put js (claimBucketPrefix @ tenant) i (chunk_size (js_maxPayload js)) body s = (Inr (), s')"
    using Put_puts [OF assms(2,5)] by auto
  have "js_open js (claimBucketPrefix @ tenant) s' = Inr ()"
    "js_get js (claimBucketPrefix @ tenant) i s' = Inr (Some (length body), Inr body)"
    using assms(1) p by (auto simp: js_keeps_def)
  then show ?thesis
    using t hex_safe [OF assms(3)] i assms(4) by (simp add: Fetch_def Let_def)
qed

text \<open>A store for the examples: the objects of all buckets in one map.\<close>

definition map_js :: "(bytes \<times> bytes \<Rightarrow> bytes option) jetstream" where
  "map_js = \<lparr>js_maxPayload = 1048576, js_create = (\<lambda>_ _ s. (Inr (), s)), js_open = (\<lambda>_ _. Inr ()),
     js_put = (\<lambda>b i _ body s. (Inr (), s((b, i) \<mapsto> body))),
     js_get = (\<lambda>b i s. case s (b, i) of None \<Rightarrow> Inl ErrBucketNotFound | Some body \<Rightarrow> Inr (Some (length body), Inr body)),
     js_delete = (\<lambda>b i s. (Inr (), s((b, i) := None)))\<rparr>"

definition no_claims :: claims where
  "no_claims = \<lparr>cl_MaxAge = 0, cl_MaxBytes = 0, cl_buckets = {}, cl_retryAt = 0\<rparr>"

lemma Fetch_Put_witness:
  "\<exists>i cl' s'. Put map_js (Some ''r'') ''acme'' ''body'' (no_claims, \<lambda>_. None) = (Inr i, cl', s') \<and>
     fst (Fetch map_js 0 True ''acme'' i (cl', s')) = Inr ''body''"
proof -
  have k: "js_keeps map_js" by (simp add: js_keeps_def map_js_def)
  have "TokenSafe ''acme''" by code_simp
  then obtain i cl' s' where p: "Put map_js (Some ''r'') ''acme'' ''body'' (no_claims, \<lambda>_. None) = (Inr i, cl', s')"
    by (simp add: Put_def Let_def open_bucket_def recreateBucket_def map_js_def no_claims_def)
  have "fst (Fetch map_js 0 True ''acme'' i (cl', s')) = Inr ''body''"
    by (rule Fetch_Put [OF k p]) (simp_all add: no_claims_def claimMaxBody_def)
  with p show ?thesis by blast
qed

lemma Fetch_bounded_witness:
  "length ''body'' \<le> claimMaxBody"
proof -
  have "TokenSafe ''acme''" "TokenSafe ''x''" by code_simp+
  then have "Fetch map_js 0 True ''acme'' ''x'' (no_claims, [(claimBucketPrefix @ ''acme'', ''x'') \<mapsto> ''body'']) =
      (Inr ''body'', eager_delete map_js 0 True (claimBucketPrefix @ ''acme'') ''x''
         (no_claims, [(claimBucketPrefix @ ''acme'', ''x'') \<mapsto> ''body'']))"
    by (simp add: Fetch_def Let_def map_js_def claimMaxBody_def)
  from Fetch_bounded [OF this] show ?thesis by blast
qed

end
