(* ===== verification/WireClient.thy ===== *)
theory WireClient
  imports Frame HeaderValue
begin

text \<open>
  The client side of the wire (\<open>pkg/wire/client.go\<close>): the request \<open>Do\<close> publishes, the registry that
  turns a permission violation into the failure of the streams it concerns, and \<open>pump\<close>, which turns
  the reply subscription into frames.  The texts of failures are constructors of \<open>failure\<close>.
\<close>

section \<open>Clients\<close>

definition DefaultInactivity :: int where "DefaultInactivity = 60 * 1000000000"

record ClientConfig =
  cc_Prefix :: bytes
  cc_Tenant :: bytes
  cc_User :: bytes
  cc_Inactivity :: int
  cc_Claims :: bool

record client =
  c_prefix :: bytes
  c_tenant :: bytes
  c_user :: bytes
  c_inactivity :: int
  c_claims :: bool

datatype client_error = BadClientPrefix token_error | InvalidTenant bytes | InvalidUser bytes

definition NewClient :: "(rune \<Rightarrow> bool) \<Rightarrow> ClientConfig \<Rightarrow> client_error + client" where
  "NewClient isPrint cfg =
     (case (if cc_Prefix cfg = [] then Inr () else ValidateSubjectPrefix isPrint (cc_Prefix cfg)) of
        Inl e \<Rightarrow> Inl (BadClientPrefix e)
      | Inr _ \<Rightarrow>
          (if cc_Tenant cfg = [] \<or> \<not> TokenSafe (cc_Tenant cfg) then Inl (InvalidTenant (cc_Tenant cfg))
           else (let user = (if cc_User cfg = [] then UserUnattributed else cc_User cfg) in
             if \<not> TokenSafe user then Inl (InvalidUser (cc_User cfg))
             else Inr \<lparr>c_prefix = (if cc_Prefix cfg = [] then DefaultPrefix else cc_Prefix cfg),
                    c_tenant = cc_Tenant cfg, c_user = user,
                    c_inactivity = (if cc_Inactivity cfg \<le> 0 then DefaultInactivity else cc_Inactivity cfg),
                    c_claims = cc_Claims cfg\<rparr>)))"

section \<open>Permission violations\<close>

text \<open>The operation and the subject in the server's prose; an empty subject when it is not there.\<close>

definition parseViolation :: "bytes \<Rightarrow> bytes \<times> bytes" where
  "parseViolation s =
     (let op = (if strings_Contains s ''Publish to'' then ''publish to''
                else if strings_Contains s ''Subscription to'' then ''subscribe to''
                else ''access to'') in
      case cut_at_byte (CHR 0x22) s of
        None \<Rightarrow> (op, [])
      | Some (pre, post) \<Rightarrow>
          (case cut_at_byte (CHR 0x22) post of
             None \<Rightarrow> (op, [])
           | Some (subject, post') \<Rightarrow> (op, subject)))"

text \<open>\<open>viol\<close>: the streams (numbered) that depend on each subject.\<close>

type_synonym violations = "bytes \<rightharpoonup> nat set"

definition register :: "nat \<Rightarrow> bytes list \<Rightarrow> violations \<Rightarrow> violations" where
  "register r watched viol =
     foldl (\<lambda>v s. v(s \<mapsto> insert r (case v s of None \<Rightarrow> {} | Some regs \<Rightarrow> regs))) viol watched"

definition unregister_one :: "nat \<Rightarrow> bytes \<Rightarrow> violations \<Rightarrow> violations" where
  "unregister_one r s viol =
     (case viol s of
        None \<Rightarrow> viol
      | Some regs \<Rightarrow> if regs - {r} = {} then viol(s := None) else viol(s \<mapsto> regs - {r}))"

definition unregister :: "nat \<Rightarrow> bytes list \<Rightarrow> violations \<Rightarrow> violations" where
  "unregister r watched viol = foldl (\<lambda>v s. unregister_one r s v) viol watched"

text \<open>The streams that a violation cancels, with the operation to name, and what is left.\<close>

definition failViolated :: "bytes \<Rightarrow> violations \<Rightarrow> (nat set \<times> bytes \<times> bytes) \<times> violations" where
  "failViolated err viol =
     (case parseViolation err of (op, subject) \<Rightarrow>
        if subject = [] then (({}, op, subject), viol)
        else (((case viol subject of None \<Rightarrow> {} | Some regs \<Rightarrow> regs), op, subject), viol(subject := None)))"

section \<open>The registry keeps no dead streams\<close>

text \<open>The events on a registry: a stream starts to watch its subjects, ends, or a violation comes in.\<close>

datatype viol_event = Watch nat "bytes list" | Unwatch nat | Violation bytes

record watchers =
  watching :: "(nat \<times> bytes list) list"
  viol :: violations

definition watch_step :: "viol_event \<Rightarrow> watchers \<Rightarrow> watchers" where
  "watch_step e w =
     (case e of
        Watch r ss \<Rightarrow>
          if r \<in> fst ` set (watching w) then w
          else w\<lparr>watching := (r, ss) # watching w, viol := register r ss (viol w)\<rparr>
      | Unwatch r \<Rightarrow>
          (case map_of (watching w) r of
             None \<Rightarrow> w
           | Some ss \<Rightarrow> w\<lparr>watching := filter (\<lambda>(q, _). q \<noteq> r) (watching w), viol := unregister r ss (viol w)\<rparr>)
      | Violation err \<Rightarrow> w\<lparr>viol := snd (failViolated err (viol w))\<rparr>)"

definition watch_inv :: "watchers \<Rightarrow> bool" where
  "watch_inv w \<longleftrightarrow> distinct (map fst (watching w)) \<and>
     (\<forall>s regs. viol w s = Some regs \<longrightarrow> regs \<noteq> {} \<and>
        (\<forall>r\<in>regs. \<exists>ss. (r, ss) \<in> set (watching w) \<and> s \<in> set ss))"

lemma register_apply:
  "register r ss v s =
     (if s \<in> set ss then Some (insert r (case v s of None \<Rightarrow> {} | Some regs \<Rightarrow> regs)) else v s)"
proof (induction ss arbitrary: v)
  case (Cons a ss)
  have "register r (a # ss) v = register r ss (v(a \<mapsto> insert r (case v a of None \<Rightarrow> {} | Some regs \<Rightarrow> regs)))"
    by (simp add: register_def)
  with Cons.IH show ?case by (simp split: option.split)
qed (simp add: register_def)

lemma unregister_one_apply:
  "unregister_one r a v s = (if s = a then (case v a of None \<Rightarrow> None | Some regs \<Rightarrow> if regs - {r} = {} then None else Some (regs - {r}))
     else v s)"
  by (auto simp: unregister_one_def split: option.splits)

lemma unregister_Some:
  "unregister r ss v s = Some regs \<Longrightarrow> \<exists>old. v s = Some old \<and> regs \<subseteq> old \<and> (s \<in> set ss \<longrightarrow> r \<notin> regs) \<and> (old \<noteq> {} \<longrightarrow> regs \<noteq> {})"
proof (induction ss arbitrary: v)
  case (Cons a ss)
  have "unregister r ss (unregister_one r a v) s = Some regs" using Cons.prems by (simp add: unregister_def)
  from Cons.IH [OF this] show ?case by (auto simp: unregister_one_apply split: if_splits option.splits)
qed (simp add: unregister_def)

lemma watch_step_inv:
  assumes "watch_inv w"
  shows "watch_inv (watch_step e w)"
proof (cases e)
  case (Watch r ss)
  show ?thesis
  proof (cases "r \<in> fst ` set (watching w)")
    case True
    with assms Watch show ?thesis by (simp add: watch_step_def)
  next
    case False
    let ?w = "w\<lparr>watching := (r, ss) # watching w, viol := register r ss (viol w)\<rparr>"
    have "regs \<noteq> {} \<and> (\<forall>q\<in>regs. \<exists>ts. (q, ts) \<in> set (watching ?w) \<and> s \<in> set ts)" if "register r ss (viol w) s = Some regs" for s regs
    proof (cases "s \<in> set ss")
      case True
      then have "regs = insert r (case viol w s of None \<Rightarrow> {} | Some regs \<Rightarrow> regs)"
        using that by (simp add: register_apply)
      with True assms show ?thesis by (fastforce simp: watch_inv_def split: option.splits)
    next
      case False
      then have "viol w s = Some regs" using that by (simp add: register_apply)
      with assms show ?thesis by (fastforce simp: watch_inv_def)
    qed
    with assms False Watch show ?thesis by (simp add: watch_step_def watch_inv_def)
  qed
next
  case (Unwatch r)
  show ?thesis
  proof (cases "map_of (watching w) r")
    case None
    with assms Unwatch show ?thesis by (simp add: watch_step_def)
  next
    case (Some ss)
    have d: "distinct (map fst (watching w))" using assms by (simp add: watch_inv_def)
    then have ss: "(r, ts) \<in> set (watching w) \<Longrightarrow> ts = ss" for ts using Some by (metis map_of_is_SomeI option.inject)
    have "regs \<noteq> {} \<and> (\<forall>q\<in>regs. \<exists>ts. (q, ts) \<in> set (filter (\<lambda>(q, _). q \<noteq> r) (watching w)) \<and> s \<in> set ts)"
      if un: "unregister r ss (viol w) s = Some regs" for s regs
    proof -
      obtain old where old: "viol w s = Some old" "regs \<subseteq> old" "s \<in> set ss \<longrightarrow> r \<notin> regs" "old \<noteq> {} \<longrightarrow> regs \<noteq> {}"
        using unregister_Some [OF un] by blast
      then have "old \<noteq> {}" "\<forall>q\<in>old. \<exists>ts. (q, ts) \<in> set (watching w) \<and> s \<in> set ts"
        using assms by (auto simp: watch_inv_def)
      with old ss show ?thesis by fastforce
    qed
    moreover have "distinct (map fst (filter (\<lambda>(q, _). q \<noteq> r) (watching w)))" using d by (rule distinct_map_filter)
    ultimately show ?thesis using Unwatch Some by (simp add: watch_step_def watch_inv_def)
  qed
next
  case (Violation err)
  with assms show ?thesis
    by (auto simp: watch_step_def watch_inv_def failViolated_def split: prod.splits)
qed

lemma watch_fold_inv: "watch_inv w \<Longrightarrow> watch_inv (foldl (\<lambda>w e. watch_step e w) w es)"
  by (induction es arbitrary: w) (simp_all add: watch_step_inv)

definition no_watchers :: watchers where
  "no_watchers = \<lparr>watching = [], viol = Map.empty\<rparr>"

text \<open>
  The violation registry neither fails the wrong stream nor leaks: after any sequence of
  streams starting, ending and violations coming in, the streams a violation of a subject cancels are
  live and watch that subject, and when no stream is live the registry is empty.
\<close>

theorem violations_hit_watchers:
  assumes "w = foldl (\<lambda>w e. watch_step e w) no_watchers es"
    and "failViolated err (viol w) = ((hit, op, subject), rest)"
  shows "(\<forall>r\<in>hit. \<exists>ss. (r, ss) \<in> set (watching w) \<and> subject \<in> set ss) \<and>
    (watching w = [] \<longrightarrow> viol w = Map.empty)"
proof -
  have "watch_inv no_watchers" by (simp add: watch_inv_def no_watchers_def)
  then have inv: "watch_inv w" unfolding assms(1) by (rule watch_fold_inv)
  have "\<forall>r\<in>hit. \<exists>ss. (r, ss) \<in> set (watching w) \<and> subject \<in> set ss"
    using assms(2) inv by (auto simp: failViolated_def watch_inv_def split: prod.splits if_splits option.splits)
  moreover have "viol w s = None" if "watching w = []" for s
    using inv that by (cases "viol w s") (auto simp: watch_inv_def)
  ultimately show ?thesis by auto
qed

lemma violations_hit_watchers_witness:
  "\<exists>w. w = foldl (\<lambda>w e. watch_step e w) no_watchers [Watch 7 [''mcp.v1.x'', ''_INBOX.a''], Unwatch 7] \<and> viol w = Map.empty"
proof -
  let ?w = "foldl (\<lambda>w e. watch_step e w) no_watchers [Watch 7 [''mcp.v1.x'', ''_INBOX.a''], Unwatch 7]"
  obtain hit op subject rest where "failViolated [] (viol ?w) = ((hit, op, subject), rest)"
    by (metis surj_pair)
  from violations_hit_watchers [OF refl this] have "watching ?w = [] \<longrightarrow> viol ?w = Map.empty" by blast
  moreover have "watching ?w = []" by (simp add: watch_step_def no_watchers_def)
  ultimately show ?thesis by blast
qed

section \<open>Requests\<close>

definition pendingMsgsLimit :: nat where "pendingMsgsLimit = 4096"
definition pendingBytesLimit :: nat where "pendingBytesLimit = 64 * 1024 * 1024"

record request =
  rq_Server :: bytes
  rq_Method :: bytes
  rq_Name :: bytes
  rq_ProtocolVersion :: bytes
  rq_Body :: bytes

definition request_headers :: "client \<Rightarrow> request \<Rightarrow> (bytes \<times> bytes) list" where
  "request_headers c req =
     [(HeaderWire, WireVersion), (HeaderMethod, rq_Method req),
      (HeaderProtocolVersion, EncodeHeaderValue (rq_ProtocolVersion req))] @
     (if rq_Name req \<noteq> [] then [(HeaderName, EncodeHeaderValue (rq_Name req))] else []) @
     (if c_claims c then [(HeaderAcceptClaim, ''1'')] else [])"

datatype do_error = DoSubject subject_error | DoTooLarge nat nat nat

text \<open>The message \<open>Do\<close> publishes, once it is sized; \<open>hsize\<close> is \<open>frameOverhead\<close> of its headers.\<close>

record published =
  pm_subject :: bytes
  pm_header :: "(bytes \<times> bytes) list"
  pm_data :: bytes

definition Do_message ::
  "((bytes \<times> bytes) list \<Rightarrow> nat) \<Rightarrow> nat \<Rightarrow> client \<Rightarrow> request \<Rightarrow> do_error + published" where
  "Do_message hsize limit c req =
     (case BuildSubject (c_prefix c) (c_tenant c) (c_user c) (rq_Server req) (rq_Method req) (rq_Name req) of
        Inl e \<Rightarrow> Inl (DoSubject e)
      | Inr subject \<Rightarrow>
          (let h = request_headers c req in
           if limit < length (rq_Body req) + hsize h then Inl (DoTooLarge (length (rq_Body req)) (hsize h) limit)
           else Inr \<lparr>pm_subject = subject, pm_header = h, pm_data = rq_Body req\<rparr>))"

definition Cancel_message :: "nat \<Rightarrow> bytes \<Rightarrow> bytes \<Rightarrow> do_error + published" where
  "Cancel_message limit reply notification =
     (if limit < length notification then Inl (DoTooLarge (length notification) 0 limit)
      else Inr \<lparr>pm_subject = reply @ ''.ctl'', pm_header = [], pm_data = notification\<rparr>)"

text \<open>\<open>nats.Header.Get\<close>: the value of a header, empty when it is not there.\<close>

definition Header_Get :: "(bytes \<times> bytes) list \<Rightarrow> bytes \<Rightarrow> bytes" where
  "Header_Get h k = (case map_of h k of None \<Rightarrow> [] | Some v \<Rightarrow> v)"

section \<open>The reply stream\<close>

datatype failure =
    StreamInactive int
  | NoGateway
  | Overflowed
  | SubscriptionFailed
  | ClaimNotAccepted
  | ClaimFetchFailed
  | UnknownFrameKind bytes
  | Denied bytes bytes

record client_frame =
  cf_kind :: FrameKind
  cf_body :: bytes
  cf_err :: "(int \<times> failure) option"

text \<open>What \<open>NextMsgWithContext\<close> can come back with; \<open>Abandoned\<close> is the end of the context, with the
  permission failure that caused it, if one did.\<close>

datatype sub_event =
    Reply "(bytes \<times> bytes) list" bytes
  | Abandoned "(bytes \<times> bytes) option"
  | DeadlineExceeded
  | ErrNoRespondersEvent
  | ErrSlowConsumer
  | OtherSubError

definition parse_kind :: "bytes \<Rightarrow> FrameKind option" where
  "parse_kind s = find (\<lambda>k. frame_kind_value k = s) [FrameKA, FrameMsg, FrameEnd, FrameErr]"

definition fail_frame :: "int \<Rightarrow> failure \<Rightarrow> client_frame" where
  "fail_frame code f = \<lparr>cf_kind = FrameErr, cf_body = [], cf_err = Some (code, f)\<rparr>"

text \<open>One turn of the loop: the frame it delivers, if any, and whether it is the last turn.\<close>

definition pump_turn :: "client \<Rightarrow> (bytes \<Rightarrow> bytes option) \<Rightarrow> sub_event \<Rightarrow> client_frame option \<times> bool" where
  "pump_turn c fetch e =
     (case e of
        Abandoned None \<Rightarrow> (None, True)
      | Abandoned (Some (op, subject)) \<Rightarrow> (Some (fail_frame ErrCodePermissionDenied (Denied op subject)), True)
      | DeadlineExceeded \<Rightarrow> (Some (fail_frame ErrCodeStreamLost (StreamInactive (c_inactivity c))), True)
      | ErrNoRespondersEvent \<Rightarrow> (Some (fail_frame ErrCodeNoGateway NoGateway), True)
      | ErrSlowConsumer \<Rightarrow> (Some (fail_frame ErrCodeStreamLost Overflowed), True)
      | OtherSubError \<Rightarrow> (Some (fail_frame ErrCodeStreamLost SubscriptionFailed), True)
      | Reply h data \<Rightarrow>
          (case parse_kind (Header_Get h HeaderFrame) of
             Some FrameKA \<Rightarrow> (None, False)
           | Some FrameMsg \<Rightarrow> (Some \<lparr>cf_kind = FrameMsg, cf_body = data, cf_err = None\<rparr>, False)
           | Some k \<Rightarrow>
               (let i = Header_Get h HeaderClaim in
                if i \<noteq> [] \<and> k = FrameEnd then
                  (if \<not> c_claims c then (Some (fail_frame ErrCodeStreamLost ClaimNotAccepted), True)
                   else (case fetch i of
                           None \<Rightarrow> (Some (fail_frame ErrCodeStreamLost ClaimFetchFailed), True)
                         | Some body \<Rightarrow> (Some \<lparr>cf_kind = FrameEnd, cf_body = body, cf_err = None\<rparr>, True)))
                else (Some \<lparr>cf_kind = k, cf_body = data, cf_err = None\<rparr>, True))
           | None \<Rightarrow> (Some (fail_frame ErrCodeStreamLost (UnknownFrameKind (Header_Get h HeaderFrame))), True)))"

text \<open>
  The loop over what the subscription brings.  \<open>taken\<close> says, per event, whether the consumer took the
  frame (\<open>deliver\<close> gives up when the context ends).  The result is what was delivered and whether
  the loop has returned.
\<close>

fun pump :: "client \<Rightarrow> (bytes \<Rightarrow> bytes option) \<Rightarrow> (sub_event \<times> bool) list \<Rightarrow> client_frame list \<times> bool" where
  "pump c fetch [] = ([], False)"
| "pump c fetch ((e, taken) # es) =
     (case pump_turn c fetch e of
        (None, True) \<Rightarrow> ([], True)
      | (None, False) \<Rightarrow> pump c fetch es
      | (Some f, ends) \<Rightarrow>
          if \<not> taken then ([], True)
          else if ends then ([f], True)
          else (case pump c fetch es of (fs, d) \<Rightarrow> (f # fs, d)))"

lemma pump_turn_kinds:
  "pump_turn c fetch e = (Some f, ends) \<Longrightarrow> ends = frame_Terminal (cf_kind f) \<and> cf_kind f \<noteq> FrameKA"
  by (auto simp: pump_turn_def fail_frame_def frame_Terminal_def Let_def
      split: sub_event.splits option.splits FrameKind.splits if_splits)

text \<open>
  A consumer sees exactly one code path: whatever the subscription brings, the frames delivered
  are notifications followed by at most one terminal frame and never a keepalive; and when the loop
  returns with every frame taken and the caller still there, the terminal frame has been delivered.
\<close>

theorem pump_one_terminal:
  assumes "pump c fetch es = (fs, returned)"
  shows "(\<exists>ms ts. fs = ms @ ts \<and> list_all (\<lambda>f. cf_kind f = FrameMsg) ms \<and>
      list_all (\<lambda>f. frame_Terminal (cf_kind f)) ts \<and> length ts \<le> 1 \<and> (ts \<noteq> [] \<longrightarrow> returned)) \<and>
    (returned \<and> list_all (\<lambda>(e, taken). taken \<and> e \<noteq> Abandoned None) es \<longrightarrow>
      (\<exists>f. fs \<noteq> [] \<and> f = last fs \<and> frame_Terminal (cf_kind f)))"
  using assms
proof (induction es arbitrary: fs)
  case (Cons et es)
  obtain e taken where et: "et = (e, taken)" by fastforce
  obtain r ends where turn: "pump_turn c fetch e = (r, ends)" by fastforce
  show ?case
  proof (cases r)
    case None
    show ?thesis
    proof (cases ends)
      case True
      with None turn have "e = Abandoned None"
        by (auto simp: pump_turn_def Let_def split: sub_event.splits option.splits FrameKind.splits if_splits prod.splits)
      with None True turn et Cons.prems show ?thesis by auto
    next
      case False
      with None turn et Cons show ?thesis by auto
    qed
  next
    case (Some f)
    note k = pump_turn_kinds [OF turn [unfolded Some]]
    obtain gs d where gs: "pump c fetch es = (gs, d)" by fastforce
    show ?thesis
    proof (cases "taken \<and> \<not> ends")
      case True
      then have fs: "fs = f # gs" "returned = d" using Some turn et gs Cons.prems by auto
      have "cf_kind f = FrameMsg" using k True by (cases "cf_kind f") (auto simp: frame_Terminal_def)
      moreover from Cons.IH [of gs] gs fs(2) obtain ms ts where "gs = ms @ ts" "list_all (\<lambda>f. cf_kind f = FrameMsg) ms"
        "list_all (\<lambda>f. frame_Terminal (cf_kind f)) ts" "length ts \<le> 1" "ts \<noteq> [] \<longrightarrow> returned"
        by blast
      ultimately have "fs = (f # ms) @ ts" "list_all (\<lambda>f. cf_kind f = FrameMsg) (f # ms)"
        using fs by simp_all
      then show ?thesis
        using Cons.IH [of gs] gs fs et \<open>length ts \<le> 1\<close> \<open>list_all (\<lambda>f. frame_Terminal (cf_kind f)) ts\<close>
          \<open>ts \<noteq> [] \<longrightarrow> returned\<close>
        by (intro conjI exI [of _ "f # ms"] exI [of _ ts]) auto
    next
      case False
      then have "(fs = [] \<and> \<not> taken \<or> fs = [f] \<and> ends) \<and> returned"
        using Some turn et Cons.prems by (cases taken; cases ends) simp_all
      with k et show ?thesis
        by (intro conjI exI [of _ "[]"] exI [of _ fs]) auto
    qed
  qed
qed simp

lemma pump_one_terminal_witness:
  "list_all (\<lambda>(e, taken). taken \<and> e \<noteq> Abandoned None) [(Reply [(HeaderFrame, ''msg'')] ''n'', True), (DeadlineExceeded, True)] \<and>
   frame_Terminal (cf_kind (last (fst (pump \<lparr>c_prefix = [], c_tenant = ''t'', c_user = ''_'', c_inactivity = 1, c_claims = False\<rparr>
     (\<lambda>_. None) [(Reply [(HeaderFrame, ''msg'')] ''n'', True), (DeadlineExceeded, True)]))))"
proof -
  let ?c = "\<lparr>c_prefix = [], c_tenant = ''t'', c_user = ''_'', c_inactivity = 1, c_claims = False\<rparr>"
  let ?es = "[(Reply [(HeaderFrame, ''msg'')] ''n'', True), (DeadlineExceeded, True)]"
  obtain fs where "pump ?c (\<lambda>_. None) ?es = (fs, True)"
    by (simp add: pump_turn_def Header_Get_def parse_kind_def)
  from pump_one_terminal [OF this] this show ?thesis by auto
qed

section \<open>What the consumer of a served stream sees\<close>

text \<open>The NATS message a frame travels as, and the frame a consumer gets for it.\<close>

definition frame_headers :: "wire_frame \<Rightarrow> (bytes \<times> bytes) list" where
  "frame_headers f =
     (HeaderFrame, frame_kind_value (f_kind f)) # (case f_claim f of None \<Rightarrow> [] | Some i \<Rightarrow> [(HeaderClaim, i)])"

definition served :: "wire_frame list \<Rightarrow> (sub_event \<times> bool) list" where
  "served fs = map (\<lambda>f. (Reply (frame_headers f) (f_body f), True)) fs"

definition surfaced :: "(bytes \<Rightarrow> bytes option) \<Rightarrow> wire_frame \<Rightarrow> client_frame" where
  "surfaced fetch f =
     \<lparr>cf_kind = f_kind f,
      cf_body = (case f_claim f of None \<Rightarrow> f_body f | Some i \<Rightarrow> (case fetch i of None \<Rightarrow> [] | Some b \<Rightarrow> b)),
      cf_err = None\<rparr>"

text \<open>A claim rides on end frames only, and the client can fetch it.\<close>

definition fetchable :: "client \<Rightarrow> (bytes \<Rightarrow> bytes option) \<Rightarrow> wire_frame \<Rightarrow> bool" where
  "fetchable c fetch f =
     (case f_claim f of None \<Rightarrow> True
      | Some i \<Rightarrow> f_kind f = FrameEnd \<and> i \<noteq> [] \<and> c_claims c \<and> fetch i \<noteq> None)"

lemma parse_kind_value [simp]:
  "parse_kind ''ka'' = Some FrameKA" "parse_kind ''msg'' = Some FrameMsg" "parse_kind ''end'' = Some FrameEnd"
  "parse_kind ''err'' = Some FrameErr"
  by (simp_all add: parse_kind_def)

lemma frame_headers_get [simp]:
  "Header_Get (frame_headers f) HeaderFrame = frame_kind_value (f_kind f)"
  "Header_Get (frame_headers f) HeaderClaim = (case f_claim f of None \<Rightarrow> [] | Some i \<Rightarrow> i)"
  by (auto simp: Header_Get_def frame_headers_def HeaderFrame_def HeaderClaim_def split: option.splits)

lemma pump_turn_served:
  assumes "fetchable c fetch f"
  shows "pump_turn c fetch (Reply (frame_headers f) (f_body f)) =
    (if f_kind f = FrameKA then None else Some (surfaced fetch f), terminal f)"
  using assms
  by (cases "f_kind f"; cases "f_claim f")
    (auto simp: pump_turn_def surfaced_def terminal_def frame_Terminal_def fetchable_def Let_def)

text \<open>
  The stream a client consumes is the stream the gateway wrote: of the frames a conforming
  gateway publishes, the consumer gets each notification and the terminal frame, in order, with
  their bodies, a parked response in place of its claim, and nothing for the keepalives.
\<close>

theorem pump_delivers_stream:
  assumes "list_all (\<lambda>f. \<not> terminal f) ms" "terminal e" "list_all (fetchable c fetch) (ms @ [e])"
  shows "pump c fetch (served (ms @ [e])) =
    (map (surfaced fetch) (filter (\<lambda>f. f_kind f \<noteq> FrameKA) ms @ [e]), True)"
  using assms
proof (induction ms)
  case Nil
  then have "f_kind e \<noteq> FrameKA" by (auto simp: terminal_def frame_Terminal_def)
  with Nil show ?case by (simp add: served_def pump_turn_served)
next
  case (Cons f ms)
  then have "pump c fetch (served (ms @ [e])) =
      (map (surfaced fetch) (filter (\<lambda>f. f_kind f \<noteq> FrameKA) ms @ [e]), True)"
    by simp
  with Cons.prems show ?case by (simp add: served_def pump_turn_served)
qed

lemma pump_delivers_stream_witness:
  "pump \<lparr>c_prefix = [], c_tenant = ''t'', c_user = ''_'', c_inactivity = 1, c_claims = True\<rparr> (\<lambda>_. Some ''big'')
     (served ([ka_frame, msg_frame ''n''] @ [claim_frame ''id''])) =
   ([\<lparr>cf_kind = FrameMsg, cf_body = ''n'', cf_err = None\<rparr>, \<lparr>cf_kind = FrameEnd, cf_body = ''big'', cf_err = None\<rparr>], True)"
  by (subst pump_delivers_stream)
    (simp_all add: fetchable_def msg_frame_def ka_frame_def claim_frame_def surfaced_def terminal_def frame_Terminal_def)

end
