(* ===== verification/JsonMap.thy ===== *)
theory JsonMap
  imports JsonEncode Mcpspec
begin

text \<open>
  Editing JSON objects in place: \<open>marshalNoEscape\<close> (\<open>pkg/backend/http.go\<close>), which is \<open>json.Marshal\<close>
  of a \<open>map[string]json.RawMessage\<close> without HTML escaping, and the helpers of
  \<open>pkg/backend/mux.go\<close> that set one field of an object and leave the rest alone.
\<close>

section \<open>Marshalling without escaping\<close>

text \<open>The value without its white space; nothing else is touched.\<close>

fun strip :: "jval \<Rightarrow> jval"
  and strip_items :: "items \<Rightarrow> items"
  and strip_members :: "members \<Rightarrow> members" where
  "strip (JScalar t) = JScalar t"
| "strip (JString r) = JString r"
| "strip (JArray w is) = JArray [] (strip_items is)"
| "strip (JObject w ms) = JObject [] (strip_members ms)"
| "strip_items INil = INil"
| "strip_items (ICons a v b is) = ICons [] (strip v) [] (strip_items is)"
| "strip_members MNil = MNil"
| "strip_members (MCons a k b c v d ms) = MCons [] k [] [] (strip v) [] (strip_members ms)"

lemma strip_wf:
  "wf_json v \<Longrightarrow> wf_json (strip v)"
  "wf_items is \<Longrightarrow> wf_items (strip_items is)"
  "wf_members ms \<Longrightarrow> wf_members (strip_members ms)"
  by (induction v and "is" and ms) simp_all

lemma strip_depth [simp]:
  "jdepth (strip v) = jdepth v"
  "jdepth_items (strip_items is) = jdepth_items is"
  "jdepth_members (strip_members ms) = jdepth_members ms"
  by (induction v and "is" and ms) simp_all

lemma strip_strip [simp]:
  "strip (strip v) = strip v"
  "strip_items (strip_items is) = strip_items is"
  "strip_members (strip_members ms) = strip_members ms"
  by (induction v and "is" and ms) simp_all

lemma strip_object [simp]: "strip v = JObject w ms \<Longrightarrow> \<exists>w' ms'. v = JObject w' ms'"
  by (cases v) auto

lemma members_list_strip: "members_list (strip_members ms) = map (\<lambda>(k, v). (k, strip v)) (members_list ms)"
  by (induction ms rule: members_list.induct) simp_all

definition escape_plain_byte :: "char \<Rightarrow> bytes option" where
  "escape_plain_byte c = (if c = CHR ''<'' \<or> c = CHR ''>'' \<or> c = CHR ''&'' then None else escape_byte c)"

definition escape_plain :: "bytes \<Rightarrow> bytes" where
  "escape_plain = escape_with escape_plain_byte"

lemma writes_escape_plain: "utf8_Valid s \<Longrightarrow> writes (escape_plain s) s"
  unfolding escape_plain_def
proof (rule writes_escape_with)
  fix c
  assume "byte c < 0x80"
  then show "writes (case escape_plain_byte c of Some e \<Rightarrow> e | None \<Rightarrow> [c]) [c]"
    using writes_escape_byte [of c] by (auto simp: escape_plain_byte_def writes_plain)
qed

text \<open>The values of a map, parsed and stripped, with the keys in the order \<open>json.Marshal\<close> sorts them.\<close>

fun strip_values :: "raw_map \<Rightarrow> marshal_error + (bytes \<times> jval) list" where
  "strip_values [] = Inr []"
| "strip_values ((k, raw) # m) =
     (case json_parse raw of
        None \<Rightarrow> Inl InvalidRawMessage
      | Some v \<Rightarrow> bind_err (strip_values m) (\<lambda>kvs. Inr ((escape_plain k, strip v) # kvs)))"

definition marshalNoEscape :: "raw_map \<Rightarrow> marshal_error + bytes" where
  "marshalNoEscape m = bind_err (strip_values (sort_key fst m)) (\<lambda>kvs. Inr (render (mk_object kvs)))"

definition strip_raw :: "bytes \<Rightarrow> bytes" where
  "strip_raw raw = (case json_parse raw of None \<Rightarrow> raw | Some v \<Rightarrow> render (strip v))"

text \<open>Maps whose keys are valid strings and whose values nest below \<open>n\<close> more levels.\<close>

definition map_fits :: "nat \<Rightarrow> raw_map \<Rightarrow> bool" where
  "map_fits n m \<longleftrightarrow> distinct (map fst m) \<and>
     (\<forall>(k, raw)\<in>set m. utf8_Valid k \<and> (\<exists>v. json_parse raw = Some v \<and> jdepth v + n \<le> maxNestingDepth))"

lemma strip_values_ok:
  assumes "\<forall>(k, raw)\<in>set m. utf8_Valid k \<and> (\<exists>v. json_parse raw = Some v \<and> jdepth v + n \<le> maxNestingDepth)" "0 < n"
  obtains kvs where "strip_values m = Inr kvs"
    "list_all (\<lambda>(k, v). string_ok k \<and> wf_json v \<and> jdepth v + n \<le> maxNestingDepth) kvs"
    "map (\<lambda>(k, v). (unquoted k, render v)) kvs = map (\<lambda>(k, raw). (k, strip_raw raw)) m"
    "map snd kvs = map (\<lambda>(k, raw). strip (the (json_parse raw))) m"
proof -
  have "\<exists>kvs. strip_values m = Inr kvs \<and>
      list_all (\<lambda>(k, v). string_ok k \<and> wf_json v \<and> jdepth v + n \<le> maxNestingDepth) kvs \<and>
      map (\<lambda>(k, v). (unquoted k, render v)) kvs = map (\<lambda>(k, raw). (k, strip_raw raw)) m \<and>
      map snd kvs = map (\<lambda>(k, raw). strip (the (json_parse raw))) m"
    using assms(1)
  proof (induction m)
    case (Cons kr m)
    obtain k raw where kr: "kr = (k, raw)" by fastforce
    with Cons obtain kvs v where "strip_values m = Inr kvs"
      "list_all (\<lambda>(k, v). string_ok k \<and> wf_json v \<and> jdepth v + n \<le> maxNestingDepth) kvs"
      "map (\<lambda>(k, v). (unquoted k, render v)) kvs = map (\<lambda>(k, raw). (k, strip_raw raw)) m"
      "map snd kvs = map (\<lambda>(k, raw). strip (the (json_parse raw))) m"
      "json_parse raw = Some v" "utf8_Valid k" "jdepth v + n \<le> maxNestingDepth"
      by fastforce
    moreover from this(5) have "wf_json (strip v)" by (simp add: json_parse_iff strip_wf)
    ultimately show ?case
      using kr writes_string_ok [OF writes_escape_plain] writes_unquoted [OF writes_escape_plain]
      by (simp add: strip_raw_def)
  qed simp
  with that show ?thesis by blast
qed

lemma members_list_mk: "members_list (mk_members kvs) = map (\<lambda>(k, v). (unquoted k, v)) kvs"
  by (induction kvs rule: mk_members.induct) simp_all

lemma map_of_map_values: "map_of (map (\<lambda>(k, x). (k, f x)) m) k = map_option f (map_of m k)"
  by (induction m) auto

lemma map_fst_values: "map fst (map (\<lambda>(k, x). (k, f x)) m) = map fst m"
  by auto

lemma map_of_rev: "distinct (map fst m) \<Longrightarrow> map_of (rev m) = map_of m"
  by (rule map_of_eqI) (auto simp: rev_map [symmetric] simp flip: map_of_inject_set)

lemma map_of_sort_key: "distinct (map fst m) \<Longrightarrow> map_of (sort_key fst m) = map_of m"
proof -
  assume d: "distinct (map fst m)"
  have "distinct (map fst (sort_key fst m))"
    using d by (metis distinct_map distinct_sort set_sort)
  with d show ?thesis by (intro map_of_inject_set [THEN iffD2]) simp_all
qed

lemma mk_members_strip: "list_all (\<lambda>(k, v). strip v = v) kvs \<Longrightarrow> strip_members (mk_members kvs) = mk_members kvs"
  by (induction kvs rule: mk_members.induct) simp_all

lemma mk_members_depth_le:
  "list_all (\<lambda>(k, v). jdepth v + n \<le> lim) kvs \<Longrightarrow> n \<le> lim \<Longrightarrow> jdepth_members (mk_members kvs) + n \<le> lim"
  by (induction kvs rule: mk_members.induct) (auto simp: max_def)

text \<open>What was marshalled unmarshals to the same keys with the same values, white space aside.\<close>

lemma unmarshal_marshal:
  assumes "map_fits n m" "0 < n" "n \<le> maxNestingDepth"
  shows "\<exists>raw ms. marshalNoEscape m = Inr raw \<and> raw = render (JObject [] ms) \<and>
    json_parse raw = Some (JObject [] ms) \<and> jdepth (JObject [] ms) + n \<le> Suc maxNestingDepth \<and>
    strip (JObject [] ms) = JObject [] ms \<and>
    (\<forall>k. map_of (object_map ms) k = map_option strip_raw (map_of m k))"
proof -
  let ?m = "sort_key fst m"
  have d: "distinct (map fst m)" using assms(1) by (simp add: map_fits_def)
  have "\<forall>(k, raw)\<in>set ?m. utf8_Valid k \<and> (\<exists>v. json_parse raw = Some v \<and> jdepth v + n \<le> maxNestingDepth)"
    using assms(1) by (simp add: map_fits_def)
  then obtain kvs where kvs: "strip_values ?m = Inr kvs"
    "list_all (\<lambda>(k, v). string_ok k \<and> wf_json v \<and> jdepth v + n \<le> maxNestingDepth) kvs"
    "map (\<lambda>(k, v). (unquoted k, render v)) kvs = map (\<lambda>(k, raw). (k, strip_raw raw)) ?m"
    "map snd kvs = map (\<lambda>(k, raw). strip (the (json_parse raw))) ?m"
    by (rule strip_values_ok [OF _ assms(2)])
  have "list_all (\<lambda>(k, v). string_ok k \<and> wf_json v \<and> jdepth v < maxNestingDepth) kvs"
    using kvs(2) assms(2) by (auto simp: list_all_iff)
  then have p: "json_parse (render (mk_object kvs)) = Some (mk_object kvs)" by (rule json_parse_mk_object)
  have "list_all (\<lambda>(k, v). jdepth v + n \<le> maxNestingDepth) kvs" using kvs(2) by (auto simp: list_all_iff)
  then have depth: "jdepth (mk_object kvs) + n \<le> Suc maxNestingDepth"
    using mk_members_depth_le [OF _ assms(3)] by (simp add: mk_object_def)
  have "set (map snd kvs) \<subseteq> range strip" unfolding kvs(4) by auto
  then have "strip u = u" if "(k, u) \<in> set kvs" for k u using that by force
  then have st: "strip (mk_object kvs) = mk_object kvs"
    using mk_members_strip [of kvs] by (auto simp: mk_object_def list_all_iff)
  have ml: "map (\<lambda>(k, v). (k, render v)) (members_list (mk_members kvs)) = map (\<lambda>(k, raw). (k, strip_raw raw)) ?m"
    unfolding members_list_mk kvs(3) [symmetric] by auto
  have dm: "distinct (map fst ?m)" using d by (metis distinct_map distinct_sort set_sort)
  have ds: "distinct (map fst (map (\<lambda>(k, raw). (k, strip_raw raw)) ?m))" by (simp only: map_fst_values dm)
  have "map_of (object_map (mk_members kvs)) k = map_option strip_raw (map_of m k)" for k
    by (simp only: map_of_object_map ml map_of_rev [OF ds] map_of_map_values map_of_sort_key [OF d])
  with kvs(1) p depth st show ?thesis
    by (intro exI [of _ "render (mk_object kvs)"] exI [of _ "mk_members kvs"])
      (simp add: marshalNoEscape_def mk_object_def)
qed

section \<open>Editing helpers\<close>

text \<open>\<open>decodeObject\<close>: nil params and \<open>null\<close> are the empty object.\<close>

definition decodeObject :: "bytes \<Rightarrow> raw_map option" where
  "decodeObject raw =
     (if length raw = 0 then Some []
      else (case unmarshal_map raw of
              Inl _ \<Rightarrow> None
            | Inr None \<Rightarrow> Some []
            | Inr (Some obj) \<Rightarrow> Some obj))"

definition raw_at :: "raw_map \<Rightarrow> bytes \<Rightarrow> bytes" where
  "raw_at obj k = (case map_of obj k of None \<Rightarrow> [] | Some raw \<Rightarrow> raw)"

definition setObjectField :: "bytes \<Rightarrow> bytes \<Rightarrow> bytes \<Rightarrow> bytes option" where
  "setObjectField params key val =
     (case decodeObject params of
        None \<Rightarrow> None
      | Some obj \<Rightarrow>
          (case marshalNoEscape (AList.update key val obj) of Inl _ \<Rightarrow> None | Inr out \<Rightarrow> Some out))"

definition metaField :: "bytes \<Rightarrow> bytes \<Rightarrow> bytes option" where
  "metaField params key =
     (case decodeObject params of
        None \<Rightarrow> None
      | Some obj \<Rightarrow>
          (case decodeObject (raw_at obj ''_meta'') of None \<Rightarrow> None | Some meta \<Rightarrow> map_of meta key))"

definition setMetaField :: "bytes \<Rightarrow> bytes \<Rightarrow> bytes \<Rightarrow> bytes option" where
  "setMetaField params key val =
     (case decodeObject params of
        None \<Rightarrow> None
      | Some obj \<Rightarrow>
          (case decodeObject (raw_at obj ''_meta'') of
             None \<Rightarrow> None
           | Some meta \<Rightarrow>
               (case marshalNoEscape (AList.update key val meta) of
                  Inl _ \<Rightarrow> None
                | Inr metaRaw \<Rightarrow>
                    (case marshalNoEscape (AList.update ''_meta'' metaRaw obj) of
                       Inl _ \<Rightarrow> None | Inr out \<Rightarrow> Some out))))"

text \<open>The original token and the rewritten params, if the params carry a token.\<close>

definition rewriteProgressToken :: "bytes \<Rightarrow> bytes \<Rightarrow> (bytes \<times> bytes) option" where
  "rewriteProgressToken params quotedToken =
     (case decodeObject params of
        None \<Rightarrow> None
      | Some obj \<Rightarrow>
          (case decodeObject (raw_at obj ''_meta'') of
             None \<Rightarrow> None
           | Some meta \<Rightarrow>
               (case map_of meta MetaProgressToken of
                  None \<Rightarrow> None
                | Some orig \<Rightarrow>
                    (case marshalNoEscape (AList.update MetaProgressToken quotedToken meta) of
                       Inl _ \<Rightarrow> None
                     | Inr metaRaw \<Rightarrow>
                         (case marshalNoEscape (AList.update ''_meta'' metaRaw obj) of
                            Inl _ \<Rightarrow> None
                          | Inr out \<Rightarrow> Some (orig, out))))))"

section \<open>What an edit changes\<close>

definition value_fits :: "nat \<Rightarrow> bytes \<Rightarrow> bool" where
  "value_fits n raw \<longleftrightarrow> (\<exists>v. json_parse raw = Some v \<and> jdepth v + n \<le> maxNestingDepth)"

lemma map_fits_iff:
  "map_fits n m \<longleftrightarrow> distinct (map fst m) \<and> (\<forall>k raw. map_of m k = Some raw \<longrightarrow> utf8_Valid k \<and> value_fits n raw)"
proof -
  have "(k, raw) \<in> set m \<longleftrightarrow> map_of m k = Some raw" if "distinct (map fst m)" for k raw
    using that by (metis map_of_SomeD map_of_is_SomeI)
  then show ?thesis by (auto simp: map_fits_def value_fits_def)
qed

lemma map_fits_update: "map_fits n m \<Longrightarrow> utf8_Valid k \<Longrightarrow> value_fits n raw \<Longrightarrow> map_fits n (AList.update k raw m)"
  unfolding map_fits_iff by (auto simp: distinct_update update_conv')

lemma members_list_keys: "(k, v) \<in> set (members_list ms) \<Longrightarrow> utf8_Valid k"
  by (induction ms rule: members_list.induct) (auto simp: unquoted_valid)

lemma object_map_fits:
  assumes "json_parse raw = Some (JObject w ms)" "jdepth (JObject w ms) + n \<le> maxNestingDepth"
  shows "map_fits (Suc n) (object_map ms)"
  unfolding map_fits_iff
proof (intro conjI allI impI)
  show "distinct (map fst (object_map ms))" by (rule object_map_distinct)
  fix k r
  assume "map_of (object_map ms) k = Some r"
  then obtain v where v: "(k, v) \<in> set (members_list ms)" "r = render v"
    unfolding map_of_object_map by (auto dest!: map_of_SomeD)
  show "utf8_Valid k" by (rule members_list_keys [OF v(1)])
  have "jdepth v + Suc n \<le> maxNestingDepth" using jdepth_members_list [OF v(1)] assms(2) by simp
  with v json_parse_member [OF assms(1) v(1)] show "value_fits (Suc n) r" by (auto simp: value_fits_def)
qed

lemma decodeObject_fits:
  assumes "decodeObject raw = Some obj" "\<And>v. json_parse raw = Some v \<Longrightarrow> jdepth v + n \<le> maxNestingDepth"
  shows "map_fits (Suc n) obj"
proof (cases "obj = []")
  case True
  then show ?thesis by (simp add: map_fits_def)
next
  case False
  with assms(1) obtain w ms where "json_parse raw = Some (JObject w ms)" "obj = object_map ms"
    by (auto simp: decodeObject_def unmarshal_map_def split: if_splits option.splits sum.splits jval.splits)
  with object_map_fits assms(2) show ?thesis by metis
qed

lemma decodeObject_fits_top: "decodeObject raw = Some obj \<Longrightarrow> map_fits 1 obj"
  using decodeObject_fits [of raw obj 0] by (simp add: json_parse_iff)

lemma decodeObject_fits_meta:
  assumes "decodeObject params = Some obj" "decodeObject (raw_at obj k) = Some meta"
  shows "map_fits 2 meta"
proof -
  have "jdepth v + 1 \<le> maxNestingDepth" if p: "json_parse (raw_at obj k) = Some v" for v
  proof (cases "map_of obj k")
    case None
    then show ?thesis using p by (simp add: raw_at_def json_parse_def maxNestingDepth_def)
  next
    case (Some r)
    then have "value_fits 1 r" using decodeObject_fits_top [OF assms(1)] unfolding map_fits_iff by blast
    then show ?thesis using Some p by (simp add: raw_at_def value_fits_def)
  qed
  from decodeObject_fits [OF assms(2) this] show ?thesis by (simp add: numeral_eq_Suc)
qed

lemma decodeObject_parsed:
  "json_parse raw = Some (JObject w ms) \<Longrightarrow> decodeObject raw = Some (object_map ms)"
  by (cases "raw = []") (auto simp: decodeObject_def unmarshal_map_def json_null_def json_parse_def)

text \<open>The nested edit all three helpers of the mux make.\<close>

lemma nested_edit:
  assumes "decodeObject params = Some obj" "decodeObject (raw_at obj ''_meta'') = Some meta"
    and "utf8_Valid key" "value_fits 2 val"
  shows "\<exists>metaRaw out. marshalNoEscape (AList.update key val meta) = Inr metaRaw \<and>
    marshalNoEscape (AList.update ''_meta'' metaRaw obj) = Inr out \<and>
    (\<forall>k. metaField out k = (if k = key then Some (strip_raw val) else map_option strip_raw (metaField params k))) \<and>
    (\<forall>k. k \<noteq> ''_meta'' \<longrightarrow> map_of (the (decodeObject out)) k = map_option strip_raw (map_of obj k))"
proof -
  have two: "(0 :: nat) < 2" "(2 :: nat) \<le> maxNestingDepth" "(0 :: nat) < 1" "(1 :: nat) \<le> maxNestingDepth"
    by (simp_all add: maxNestingDepth_def)
  have "map_fits 2 (AList.update key val meta)"
    by (rule map_fits_update [OF decodeObject_fits_meta [OF assms(1,2)] assms(3,4)])
  from unmarshal_marshal [OF this two(1,2)] obtain metaRaw ms1 where
    m1: "marshalNoEscape (AList.update key val meta) = Inr metaRaw" "metaRaw = render (JObject [] ms1)"
    "json_parse metaRaw = Some (JObject [] ms1)" "jdepth (JObject [] ms1) + 2 \<le> Suc maxNestingDepth"
    "strip (JObject [] ms1) = JObject [] ms1"
    "\<forall>k. map_of (object_map ms1) k = map_option strip_raw (map_of (AList.update key val meta) k)"
    by blast
  have "value_fits 1 metaRaw" using m1(3,4) by (simp add: value_fits_def)
  moreover have "utf8_Valid ''_meta''" by (rule utf8_Valid_ascii) simp
  ultimately have "map_fits 1 (AList.update ''_meta'' metaRaw obj)"
    using map_fits_update decodeObject_fits_top [OF assms(1)] by blast
  from unmarshal_marshal [OF this two(3,4)] obtain out ms2 where
    m2: "marshalNoEscape (AList.update ''_meta'' metaRaw obj) = Inr out" "json_parse out = Some (JObject [] ms2)"
    "\<forall>k. map_of (object_map ms2) k = map_option strip_raw (map_of (AList.update ''_meta'' metaRaw obj) k)"
    by blast
  have d2: "decodeObject out = Some (object_map ms2)" using m2(2) decodeObject_parsed by simp
  have "strip_raw metaRaw = metaRaw" unfolding strip_raw_def m1(3) by (simp only: option.case m1(5) m1(2))
  then have "raw_at (object_map ms2) ''_meta'' = metaRaw" using m2(3) by (simp add: raw_at_def update_conv')
  then have d1: "decodeObject (raw_at (object_map ms2) ''_meta'') = Some (object_map ms1)"
    using m1(3) decodeObject_parsed by simp
  have "metaField out k = (if k = key then Some (strip_raw val) else map_option strip_raw (metaField params k))" for k
    using d1 d2 m1(6) assms(1,2) by (simp add: metaField_def update_conv')
  moreover have "map_of (the (decodeObject out)) k = map_option strip_raw (map_of obj k)" if "k \<noteq> ''_meta''" for k
    using d2 m2(3) that by (simp add: update_conv')
  ultimately show ?thesis using m1(1) m2(1) by (intro exI [of _ metaRaw] exI [of _ out]) simp
qed

text \<open>
  Rewriting the \<open>_meta\<close> of a document changes what it says and nothing else: after
  \<open>setMetaField\<close> the field reads back as the value that was set, and every other field of \<open>_meta\<close>
  and of the document has the value it had, white space aside.
\<close>

theorem setMetaField_edits:
  assumes "decodeObject params = Some obj" "decodeObject (raw_at obj ''_meta'') = Some meta"
    and "utf8_Valid key" "value_fits 2 val"
  shows "\<exists>out. setMetaField params key val = Some out \<and>
    (\<forall>k. metaField out k = (if k = key then Some (strip_raw val) else map_option strip_raw (metaField params k))) \<and>
    (\<forall>k. k \<noteq> ''_meta'' \<longrightarrow> map_of (the (decodeObject out)) k = map_option strip_raw (map_of obj k))"
proof -
  obtain metaRaw out where "marshalNoEscape (AList.update key val meta) = Inr metaRaw"
    "marshalNoEscape (AList.update ''_meta'' metaRaw obj) = Inr out"
    "\<forall>k. metaField out k = (if k = key then Some (strip_raw val) else map_option strip_raw (metaField params k))"
    "\<forall>k. k \<noteq> ''_meta'' \<longrightarrow> map_of (the (decodeObject out)) k = map_option strip_raw (map_of obj k)"
    using nested_edit [OF assms] by blast
  with assms(1,2) show ?thesis by (intro exI [of _ out]) (simp add: setMetaField_def)
qed

lemma setMetaField_edits_witness:
  "\<exists>out. setMetaField (json_text ''{~a~: 1, ~_meta~: {~k~: 2}}'') ''k'' ''3'' = Some out \<and> metaField out ''k'' = Some ''3''"
proof -
  have p: "json_parse (json_text ''{~a~: 1, ~_meta~: {~k~: 2}}'') =
      Some (JObject [] (MCons [] ''a'' [] '' '' (JScalar ''1'') [] (MCons '' '' ''_meta'' [] '' ''
        (JObject [] (MCons [] ''k'' [] '' '' (JScalar ''2'') [] MNil)) [] MNil)))"
    by code_simp
  have p2: "json_parse (json_text ''{~k~: 2}'') = Some (JObject [] (MCons [] ''k'' [] '' '' (JScalar ''2'') [] MNil))"
    by code_simp
  have u: "unquoted ''a'' = ''a''" "unquoted ''_meta'' = ''_meta''" "unquoted ''k'' = ''k''"
    by (simp_all add: unquoted_def unquote_plain)
  have d: "decodeObject (json_text ''{~a~: 1, ~_meta~: {~k~: 2}}'') = Some [(''a'', ''1''), (''_meta'', json_text ''{~k~: 2}'')]"
    unfolding decodeObject_parsed [OF p] by (simp add: object_map_def u json_text_def)
  have "raw_at [(''a'', ''1''), (''_meta'', json_text ''{~k~: 2}'')] ''_meta'' = json_text ''{~k~: 2}''"
    by (simp add: raw_at_def)
  then have e: "decodeObject (raw_at [(''a'', ''1''), (''_meta'', json_text ''{~k~: 2}'')] ''_meta'') = Some [(''k'', ''2'')]"
    using decodeObject_parsed [OF p2] by (simp add: object_map_def u)
  have v: "utf8_Valid ''k''" by (rule utf8_Valid_ascii) simp
  have j: "json_parse ''3'' = Some (JScalar ''3'')" by code_simp
  then have "value_fits 2 ''3''" "strip_raw ''3'' = ''3''"
    by (simp_all add: value_fits_def maxNestingDepth_def strip_raw_def)
  then show ?thesis using setMetaField_edits [OF d e v, of "''3''"] by auto
qed

end
