(* ===== verification/Mux.thy ===== *)
theory Mux
  imports Jsonrpc JsonMap
begin

text \<open>
  The multiplexer of one backend connection (\<open>pkg/backend/mux.go\<close>): many callers share a
  connection, each under an id and a progress token of the mux's own, and what the backend sends is
  routed back by them.  A step is one critical section of \<open>Call\<close> or one turn of \<open>readLoop\<close>.
\<close>

section \<open>State\<close>

datatype call_result = Returned message | WriteFailed | CallerGone | ConnDead

text \<open>
  A call as \<open>Call\<close> and the read loop see it: what the caller asked with, the request that was
  written, the buffered response, the notifications handed to it, and how \<open>Call\<close> returned.
\<close>

record mux_call =
  mc_method :: bytes
  mc_origID :: "bytes option"
  mc_origToken :: "bytes option"
  mc_out :: message
  mc_resp :: "message option"
  mc_notes :: "message list"
  mc_result :: "call_result option"

text \<open>
  \<open>m_table\<close> lists every call so far, which also is the counter \<open>seq\<close>; \<open>m_written\<close> and \<open>m_read\<close> are
  the messages that went over the connection.
\<close>

record mux =
  m_calls :: "bytes \<rightharpoonup> nat"
  m_tokens :: "bytes \<rightharpoonup> nat"
  m_table :: "mux_call list"
  m_dead :: bool
  m_written :: "message list"
  m_read :: "message list"

definition new_mux :: mux where
  "new_mux = \<lparr>m_calls = Map.empty, m_tokens = Map.empty, m_table = [], m_dead = False, m_written = [], m_read = []\<rparr>"

text \<open>The counter is an unsigned 64-bit integer.\<close>

definition call_number :: "nat \<Rightarrow> nat" where
  "call_number i = (i + 1) mod 2 ^ 64"

definition mux_id :: "nat \<Rightarrow> bytes" where
  "mux_id n = CHR 0x22 # CHR ''g'' # nat_digits n @ [CHR 0x22]"

definition mux_token :: "nat \<Rightarrow> bytes" where
  "mux_token n = ''gt'' @ nat_digits n"

definition quoted_token :: "nat \<Rightarrow> bytes" where
  "quoted_token n = CHR 0x22 # mux_token n @ [CHR 0x22]"

section \<open>Calls\<close>

text \<open>A nil \<open>RawMessage\<close> and an empty one read alike.\<close>

definition raw_or_empty :: "bytes option \<Rightarrow> bytes" where
  "raw_or_empty r = (case r of None \<Rightarrow> [] | Some s \<Rightarrow> s)"

definition outgoing :: "message \<Rightarrow> nat \<Rightarrow> message \<times> bytes option" where
  "outgoing msg n =
     (let out = zero_message\<lparr>JSONRPC := ''2.0'', ID := Some (mux_id n), Method := Method msg, msg_params := msg_params msg\<rparr> in
      case rewriteProgressToken (raw_or_empty (msg_params msg)) (quoted_token n) of
        None \<Rightarrow> (out, None)
      | Some (tok, params) \<Rightarrow> (out\<lparr>msg_params := Some params\<rparr>, Some tok))"

text \<open>The start of \<open>Call\<close>, up to and including the write when it succeeds (\<open>write_ok\<close>).\<close>

definition begin_call :: "message \<Rightarrow> bool \<Rightarrow> mux \<Rightarrow> mux" where
  "begin_call msg write_ok s =
     (let i = length (m_table s); n = call_number i in
      case outgoing msg n of (out, tok) \<Rightarrow>
        (let c = \<lparr>mc_method = Method msg, mc_origID = ID msg, mc_origToken = tok, mc_out = out, mc_resp = None,
                  mc_notes = [], mc_result = None\<rparr> in
         if m_dead s then s\<lparr>m_table := m_table s @ [c\<lparr>mc_result := Some ConnDead\<rparr>]\<rparr>
         else if \<not> write_ok then s\<lparr>m_table := m_table s @ [c\<lparr>mc_result := Some WriteFailed\<rparr>]\<rparr>
         else s\<lparr>m_table := m_table s @ [c], m_calls := (m_calls s)(mux_id n \<mapsto> i),
                m_tokens := (if tok \<noteq> None then (m_tokens s)(mux_token n \<mapsto> i) else m_tokens s),
                m_written := m_written s @ [out]\<rparr>))"

definition set_call :: "nat \<Rightarrow> (mux_call \<Rightarrow> mux_call) \<Rightarrow> mux \<Rightarrow> mux" where
  "set_call i f s = s\<lparr>m_table := (m_table s)[i := f (m_table s ! i)]\<rparr>"

definition unregister_call :: "nat \<Rightarrow> mux \<Rightarrow> mux" where
  "unregister_call i s =
     s\<lparr>m_calls := (m_calls s)(mux_id (call_number i) := None),
       m_tokens := (m_tokens s)(mux_token (call_number i) := None)\<rparr>"

definition finish_call :: "nat \<Rightarrow> call_result \<Rightarrow> mux \<Rightarrow> mux" where
  "finish_call i r s = set_call i (\<lambda>c. c\<lparr>mc_result := Some r\<rparr>) (unregister_call i s)"

definition answer_of :: "mux_call \<Rightarrow> message \<Rightarrow> message" where
  "answer_of c resp = resp\<lparr>ID := mc_origID c\<rparr>"

definition cancel_message :: "nat \<Rightarrow> message" where
  "cancel_message n =
     NewNotification NotifCancelled (Some (render (mk_object [(''requestId'', JString (CHR ''g'' # nat_digits n))])))"

text \<open>The three arms of the select: a response that already landed wins over the other two.\<close>

definition take_response :: "nat \<Rightarrow> mux \<Rightarrow> mux option" where
  "take_response i s =
     (case mc_resp (m_table s ! i) of
        None \<Rightarrow> None
      | Some resp \<Rightarrow> Some (finish_call i (Returned (answer_of (m_table s ! i) resp)) s))"

definition caller_gone :: "nat \<Rightarrow> mux \<Rightarrow> mux" where
  "caller_gone i s =
     (case take_response i s of
        Some s' \<Rightarrow> s'
      | None \<Rightarrow>
          (let s' = finish_call i CallerGone s in
           s'\<lparr>m_written := m_written s' @ [cancel_message (call_number i)]\<rparr>))"

definition conn_died :: "nat \<Rightarrow> mux \<Rightarrow> mux" where
  "conn_died i s = (case take_response i s of Some s' \<Rightarrow> s' | None \<Rightarrow> finish_call i ConnDead s)"

section \<open>The read loop\<close>

text \<open>The caller's id goes back into the closure of a listen request.\<close>

definition restored_response :: "mux_call \<Rightarrow> message \<Rightarrow> message" where
  "restored_response c msg =
     (if mc_method c = MethodListen then
        (case metaField (raw_or_empty (Result msg)) MetaSubscriptionID of
           None \<Rightarrow> msg
         | Some _ \<Rightarrow>
             (case setMetaField (raw_or_empty (Result msg)) MetaSubscriptionID (raw_or_empty (mc_origID c)) of
                None \<Rightarrow> msg
              | Some result \<Rightarrow> msg\<lparr>Result := Some result\<rparr>))
      else msg)"

definition routeResponse :: "message \<Rightarrow> mux \<Rightarrow> mux" where
  "routeResponse msg s =
     (case m_calls s (IDKey msg) of
        None \<Rightarrow> s
      | Some i \<Rightarrow>
          set_call i (\<lambda>c. if mc_resp c = None then c\<lparr>mc_resp := Some (restored_response c msg)\<rparr> else c) s)"

text \<open>The \<open>progressToken\<close> of a params document, as \<open>json.Unmarshal\<close> finds it in a struct.\<close>

fun struct_member :: "bytes \<Rightarrow> bytes \<Rightarrow> (bytes \<times> jval) list \<Rightarrow> bytes" where
  "struct_member name old [] = old"
| "struct_member name old ((k, v) # kvs) =
     (if field_of [name] k = None then struct_member name old kvs else struct_member name (render v) kvs)"

definition progress_token :: "bytes \<Rightarrow> bytes" where
  "progress_token params =
     (case json_parse params of
        Some (JObject w ms) \<Rightarrow>
          (case unmarshal_string (struct_member ''progressToken'' [] (members_list ms)) of Inr t \<Rightarrow> t | Inl _ \<Rightarrow> [])
      | _ \<Rightarrow> [])"

definition notify :: "nat \<Rightarrow> message \<Rightarrow> mux \<Rightarrow> mux" where
  "notify i msg = set_call i (\<lambda>c. c\<lparr>mc_notes := mc_notes c @ [msg]\<rparr>)"

definition with_params :: "message \<Rightarrow> bytes option \<Rightarrow> message" where
  "with_params msg p = (case p of None \<Rightarrow> msg | Some params \<Rightarrow> msg\<lparr>msg_params := Some params\<rparr>)"

definition routeNotification :: "message \<Rightarrow> mux \<Rightarrow> mux" where
  "routeNotification msg s =
     (let params = raw_or_empty (msg_params msg) in
      if Method msg = NotifProgress then
        (case m_tokens s (progress_token params) of
           None \<Rightarrow> s
         | Some i \<Rightarrow>
             notify i (with_params msg (setObjectField params ''progressToken'' (raw_or_empty (mc_origToken (m_table s ! i))))) s)
      else
        (case metaField params MetaSubscriptionID of
           None \<Rightarrow> s
         | Some subID \<Rightarrow>
             (case m_calls s subID of
                None \<Rightarrow> s
              | Some i \<Rightarrow>
                  notify i (with_params msg (setMetaField params MetaSubscriptionID (raw_or_empty (mc_origID (m_table s ! i))))) s)))"

definition MsgServerInitiatedUnsupported :: bytes where
  "MsgServerInitiatedUnsupported = ''server-initiated requests are not supported by this gateway''"

definition read_message :: "message \<Rightarrow> mux \<Rightarrow> mux" where
  "read_message msg s0 =
     (let s = s0\<lparr>m_read := m_read s0 @ [msg]\<rparr> in
      case Kind msg of
        KindResponse \<Rightarrow> routeResponse msg s
      | KindNotification \<Rightarrow> routeNotification msg s
      | KindRequest \<Rightarrow>
          s\<lparr>m_written := m_written s @ [NewErrorResponse (ID msg) CodeMethodNotFound MsgServerInitiatedUnsupported None]\<rparr>
      | KindInvalid \<Rightarrow> s)"

definition read_failed :: "mux \<Rightarrow> mux" where
  "read_failed s = s\<lparr>m_dead := True\<rparr>"

section \<open>Steps\<close>

definition in_flight :: "mux \<Rightarrow> nat \<Rightarrow> bool" where
  "in_flight s i \<longleftrightarrow> i < length (m_table s) \<and> mc_result (m_table s ! i) = None"

inductive mux_step :: "mux \<Rightarrow> mux \<Rightarrow> bool" where
  begins: "Kind msg = KindRequest \<Longrightarrow> mux_step s (begin_call msg write_ok s)"
| returns: "in_flight s i \<Longrightarrow> take_response i s = Some s' \<Longrightarrow> mux_step s s'"
| gone: "in_flight s i \<Longrightarrow> mux_step s (caller_gone i s)"
| dies: "in_flight s i \<Longrightarrow> m_dead s \<Longrightarrow> mux_step s (conn_died i s)"
| reads: "\<not> m_dead s \<Longrightarrow> mux_step s (read_message msg s)"
| fails: "mux_step s (read_failed s)"

inductive mux_reach :: "mux \<Rightarrow> bool" where
  start: "mux_reach new_mux"
| more: "mux_reach s \<Longrightarrow> mux_step s s' \<Longrightarrow> mux_reach s'"

inductive_cases mux_stepE: "mux_step s s'"

section \<open>The invariant\<close>

definition response_for :: "nat \<Rightarrow> mux_call \<Rightarrow> message \<Rightarrow> message \<Rightarrow> bool" where
  "response_for i c m r \<longleftrightarrow> Kind m = KindResponse \<and> IDKey m = mux_id (call_number i) \<and> r = restored_response c m"

text \<open>A notification handed to a call is one that named its token or its subscription.\<close>

definition note_for :: "nat \<Rightarrow> mux_call \<Rightarrow> message \<Rightarrow> message \<Rightarrow> bool" where
  "note_for i c m n \<longleftrightarrow>
     (if Method m = NotifProgress
      then mc_origToken c \<noteq> None \<and> progress_token (raw_or_empty (msg_params m)) = mux_token (call_number i) \<and>
        n = with_params m (setObjectField (raw_or_empty (msg_params m)) ''progressToken'' (raw_or_empty (mc_origToken c)))
      else metaField (raw_or_empty (msg_params m)) MetaSubscriptionID = Some (mux_id (call_number i)) \<and>
        n = with_params m (setMetaField (raw_or_empty (msg_params m)) MetaSubscriptionID (raw_or_empty (mc_origID c))))"

definition call_ok :: "message list \<Rightarrow> nat \<Rightarrow> mux_call \<Rightarrow> bool" where
  "call_ok reads i c \<longleftrightarrow>
     ID (mc_out c) = Some (mux_id (call_number i)) \<and>
     (\<forall>r. mc_resp c = Some r \<longrightarrow> (\<exists>m\<in>set reads. response_for i c m r)) \<and>
     (\<forall>r. mc_result c = Some (Returned r) \<longrightarrow> (\<exists>m\<in>set reads. \<exists>r0. response_for i c m r0 \<and> r = answer_of c r0)) \<and>
     (\<forall>n\<in>set (mc_notes c). \<exists>m\<in>set reads. note_for i c m n)"

definition mux_inv :: "mux \<Rightarrow> bool" where
  "mux_inv s \<longleftrightarrow>
     (\<forall>k i. m_calls s k = Some i \<longrightarrow> in_flight s i \<and> k = mux_id (call_number i)) \<and>
     (\<forall>k i. m_tokens s k = Some i \<longrightarrow>
        in_flight s i \<and> k = mux_token (call_number i) \<and> mc_origToken (m_table s ! i) \<noteq> None) \<and>
     (\<forall>i<length (m_table s). call_ok (m_read s) i (m_table s ! i))"

lemma restored_response_fields [simp]:
  "restored_response (c\<lparr>mc_resp := x\<rparr>) = restored_response c"
  "restored_response (c\<lparr>mc_notes := y\<rparr>) = restored_response c"
  "restored_response (c\<lparr>mc_result := z\<rparr>) = restored_response c"
  by (simp_all add: restored_response_def fun_eq_iff split: option.split)

lemma call_ok_fields [simp]:
  "response_for i (c\<lparr>mc_resp := x\<rparr>) = response_for i c" "response_for i (c\<lparr>mc_notes := y\<rparr>) = response_for i c"
  "response_for i (c\<lparr>mc_result := z\<rparr>) = response_for i c"
  "note_for i (c\<lparr>mc_resp := x\<rparr>) = note_for i c" "note_for i (c\<lparr>mc_notes := y\<rparr>) = note_for i c"
  "note_for i (c\<lparr>mc_result := z\<rparr>) = note_for i c"
  "answer_of (c\<lparr>mc_resp := x\<rparr>) = answer_of c" "answer_of (c\<lparr>mc_notes := y\<rparr>) = answer_of c"
  "answer_of (c\<lparr>mc_result := z\<rparr>) = answer_of c"
  by (simp_all add: response_for_def note_for_def answer_of_def fun_eq_iff)

lemma call_ok_mono: "call_ok reads i c \<Longrightarrow> set reads \<subseteq> set reads' \<Longrightarrow> call_ok reads' i c"
  unfolding call_ok_def by blast

text \<open>Changing one call that stays as it is for the maps, or one that leaves them.\<close>

lemma set_call_inv:
  assumes "mux_inv s" "i < length (m_table s)" "call_ok (m_read s) i (f (m_table s ! i))"
    and "mc_result (f (m_table s ! i)) = mc_result (m_table s ! i)" "mc_origToken (f (m_table s ! i)) = mc_origToken (m_table s ! i)"
  shows "mux_inv (set_call i f s)"
  using assms unfolding mux_inv_def set_call_def in_flight_def by (auto simp: nth_list_update)

lemma finish_call_inv:
  assumes "mux_inv s" "i < length (m_table s)" "call_ok (m_read s) i ((m_table s ! i)\<lparr>mc_result := Some r\<rparr>)"
  shows "mux_inv (finish_call i r s)"
proof -
  have "j \<noteq> i" if "m_calls s k = Some j" "k \<noteq> mux_id (call_number i)" for k j
    using that assms(1) by (auto simp: mux_inv_def)
  moreover have "j \<noteq> i" if "m_tokens s k = Some j" "k \<noteq> mux_token (call_number i)" for k j
    using that assms(1) by (auto simp: mux_inv_def)
  ultimately show ?thesis
    using assms unfolding mux_inv_def finish_call_def set_call_def unregister_call_def in_flight_def
    by (auto simp: nth_list_update split: if_splits)
qed

lemma finish_quiet:
  assumes "mux_inv s" "in_flight s i" "\<And>m. r \<noteq> Returned m"
  shows "mux_inv (finish_call i r s)"
proof (rule finish_call_inv [OF assms(1)])
  show i: "i < length (m_table s)" using assms(2) by (simp add: in_flight_def)
  have "call_ok (m_read s) i (m_table s ! i)" using assms(1) i by (simp add: mux_inv_def)
  then show "call_ok (m_read s) i ((m_table s ! i)\<lparr>mc_result := Some r\<rparr>)"
    using assms(3) by (simp add: call_ok_def)
qed

lemma take_response_inv:
  assumes "mux_inv s" "in_flight s i" "take_response i s = Some s'"
  shows "mux_inv s'"
proof -
  obtain r where r: "mc_resp (m_table s ! i) = Some r"
    "s' = finish_call i (Returned (answer_of (m_table s ! i) r)) s"
    using assms(3) by (auto simp: take_response_def split: option.splits)
  have i: "i < length (m_table s)" using assms(2) by (simp add: in_flight_def)
  then have "call_ok (m_read s) i (m_table s ! i)" using assms(1) by (simp add: mux_inv_def)
  then have "call_ok (m_read s) i ((m_table s ! i)\<lparr>mc_result := Some (Returned (answer_of (m_table s ! i) r))\<rparr>)"
    using r(1) by (auto simp: call_ok_def)
  with assms(1) i show ?thesis unfolding r(2) by (rule finish_call_inv)
qed

lemma begin_call_inv:
  assumes "mux_inv s"
  shows "mux_inv (begin_call msg write_ok s)"
proof -
  obtain out tok where o: "outgoing msg (call_number (length (m_table s))) = (out, tok)" by fastforce
  then have "ID out = Some (mux_id (call_number (length (m_table s))))"
    by (auto simp: outgoing_def Let_def split: option.splits)
  then show ?thesis
    using assms o unfolding mux_inv_def begin_call_def in_flight_def Let_def
    by (auto simp: nth_append call_ok_def less_Suc_eq split: if_splits)
qed

lemma read_append_inv: "mux_inv s \<Longrightarrow> mux_inv (s\<lparr>m_read := m_read s @ [m]\<rparr>)"
  unfolding mux_inv_def in_flight_def by (auto intro: call_ok_mono)

lemma written_inv: "mux_inv s \<Longrightarrow> mux_inv (s\<lparr>m_written := w\<rparr>)"
  unfolding mux_inv_def in_flight_def by simp

lemma routeResponse_inv:
  assumes "mux_inv s" "msg \<in> set (m_read s)" "Kind msg = KindResponse"
  shows "mux_inv (routeResponse msg s)"
proof (cases "m_calls s (IDKey msg)")
  case (Some i)
  then have i: "i < length (m_table s)" "IDKey msg = mux_id (call_number i)"
    using assms(1) by (auto simp: mux_inv_def in_flight_def)
  then have "call_ok (m_read s) i (m_table s ! i)" using assms(1) by (simp add: mux_inv_def)
  then have "call_ok (m_read s) i ((m_table s ! i)\<lparr>mc_resp := Some (restored_response (m_table s ! i) msg)\<rparr>)"
    using i(2) assms(2,3) by (auto simp: call_ok_def response_for_def intro!: bexI [of _ msg])
  with Some i(1) assms(1) \<open>call_ok (m_read s) i (m_table s ! i)\<close> show ?thesis
    by (auto simp: routeResponse_def intro!: set_call_inv)
qed (simp add: routeResponse_def assms(1))

lemma notify_inv:
  assumes "mux_inv s" "i < length (m_table s)" "msg \<in> set (m_read s)" "note_for i (m_table s ! i) msg n"
  shows "mux_inv (notify i n s)"
proof -
  have "call_ok (m_read s) i (m_table s ! i)" using assms(1,2) by (simp add: mux_inv_def)
  then have "call_ok (m_read s) i ((m_table s ! i)\<lparr>mc_notes := mc_notes (m_table s ! i) @ [n]\<rparr>)"
    using assms(3,4) by (auto simp: call_ok_def)
  with assms(1,2) show ?thesis unfolding notify_def by (intro set_call_inv) auto
qed

lemma routeNotification_inv:
  assumes "mux_inv s" "msg \<in> set (m_read s)"
  shows "mux_inv (routeNotification msg s)"
proof -
  have calls: "\<And>k i. m_calls s k = Some i \<Longrightarrow> i < length (m_table s) \<and> k = mux_id (call_number i)"
    and toks: "\<And>k i. m_tokens s k = Some i \<Longrightarrow> i < length (m_table s) \<and> k = mux_token (call_number i) \<and> mc_origToken (m_table s ! i) \<noteq> None"
    using assms(1) by (auto simp: mux_inv_def in_flight_def)
  show ?thesis
  proof (cases "Method msg = NotifProgress")
    case True
    show ?thesis
    proof (cases "m_tokens s (progress_token (raw_or_empty (msg_params msg)))")
      case (Some i)
      note t = toks [OF Some]
      show ?thesis
        using True Some t by (simp add: routeNotification_def Let_def)
          (rule notify_inv [OF assms(1) _ assms(2)], simp_all add: note_for_def)
    qed (use True assms(1) in \<open>simp add: routeNotification_def Let_def\<close>)
  next
    case False
    show ?thesis
    proof (cases "metaField (raw_or_empty (msg_params msg)) MetaSubscriptionID")
      case (Some subID)
      show ?thesis
      proof (cases "m_calls s subID")
        case (Some i)
        note c = calls [OF Some]
        with Some False \<open>metaField _ _ = Some subID\<close> show ?thesis
          by (simp add: routeNotification_def Let_def)
            (rule notify_inv [OF assms(1) _ assms(2)], simp_all add: note_for_def)
      qed (use False Some assms(1) in \<open>simp add: routeNotification_def Let_def\<close>)
    qed (use False assms(1) in \<open>simp add: routeNotification_def Let_def\<close>)
  qed
qed

lemma read_message_inv: "mux_inv s \<Longrightarrow> mux_inv (read_message msg s)"
  using read_append_inv [of s msg]
  by (auto simp: read_message_def Let_def intro!: routeResponse_inv routeNotification_inv written_inv split: kind.split)

lemma or_else_inv:
  assumes "mux_inv s" "in_flight s i" "mux_inv t"
  shows "mux_inv (case take_response i s of Some s' \<Rightarrow> s' | None \<Rightarrow> t)"
  using assms take_response_inv by (cases "take_response i s") auto

lemma mux_step_inv:
  assumes "mux_step s s'" "mux_inv s"
  shows "mux_inv s'"
  using assms(1)
proof (cases rule: mux_step.cases)
  case (gone i)
  then show ?thesis
    unfolding caller_gone_def Let_def
    by (auto intro!: or_else_inv assms(2) written_inv finish_quiet)
next
  case (dies i)
  then show ?thesis
    unfolding conn_died_def by (auto intro!: or_else_inv assms(2) finish_quiet)
next
  case fails
  with assms(2) show ?thesis by (simp add: read_failed_def mux_inv_def in_flight_def)
qed (use assms(2) in \<open>auto intro: begin_call_inv take_response_inv read_message_inv\<close>)

lemma mux_reach_inv: "mux_reach s \<Longrightarrow> mux_inv s"
proof (induction rule: mux_reach.induct)
  case start
  show ?case by (simp add: mux_inv_def new_mux_def)
next
  case (more s s')
  then show ?case using mux_step_inv by blast
qed

section \<open>Who gets what\<close>

lemma nat_digits_inject: "nat_digits m = nat_digits n \<longleftrightarrow> m = n"
  by (metis digits_value_nat_digits of_nat_eq_iff)

lemma call_number_inject: "i < 2 ^ 64 - 1 \<Longrightarrow> j < 2 ^ 64 - 1 \<Longrightarrow> call_number i = call_number j \<longleftrightarrow> i = j"
  by (simp add: call_number_def)

lemma mux_id_inject: "mux_id m = mux_id n \<longleftrightarrow> m = n"
  by (simp add: mux_id_def nat_digits_inject)

lemma mux_token_inject: "mux_token m = mux_token n \<longleftrightarrow> m = n"
  by (simp add: mux_token_def nat_digits_inject)

text \<open>
  C3.  Callers that share a connection never get each other's answers.  In every interleaving, a
  response \<open>Call\<close> returns is one the backend gave to the request written for that very call, with
  the caller's own id restored and its result or error untouched (for a listen closure, up to the
  subscription id); and no two calls were written under the same id.
\<close>

theorem mux_correlates:
  assumes "mux_reach s" "length (m_table s) < 2 ^ 64" "i < length (m_table s)"
    and "mc_result (m_table s ! i) = Some (Returned r)"
  shows "ID r = mc_origID (m_table s ! i) \<and>
    (\<exists>m\<in>set (m_read s). Kind m = KindResponse \<and> Some (IDKey m) = ID (mc_out (m_table s ! i)) \<and>
       Error r = Error m \<and> (mc_method (m_table s ! i) = MethodListen \<or> Result r = Result m)) \<and>
    (\<forall>j<length (m_table s). ID (mc_out (m_table s ! j)) = ID (mc_out (m_table s ! i)) \<longrightarrow> j = i)"
proof -
  let ?c = "m_table s ! i"
  have ok: "call_ok (m_read s) j (m_table s ! j)" if "j < length (m_table s)" for j
    using mux_reach_inv [OF assms(1)] that by (simp add: mux_inv_def)
  obtain m r0 where m: "m \<in> set (m_read s)" "response_for i ?c m r0" "r = answer_of ?c r0"
    using ok [OF assms(3)] assms(4) by (auto simp: call_ok_def)
  have "ID (mc_out ?c) = Some (mux_id (call_number i))" using ok [OF assms(3)] by (simp add: call_ok_def)
  then have "Kind m = KindResponse \<and> Some (IDKey m) = ID (mc_out ?c) \<and> Error r = Error m \<and>
      (mc_method ?c = MethodListen \<or> Result r = Result m)"
    using m(2,3) by (auto simp: response_for_def answer_of_def restored_response_def split: option.splits)
  moreover have "j = i" if "j < length (m_table s)" "ID (mc_out (m_table s ! j)) = ID (mc_out ?c)" for j
  proof -
    have "mux_id (call_number j) = mux_id (call_number i)"
      using that(2) ok [OF that(1)] ok [OF assms(3)] by (simp add: call_ok_def)
    then show ?thesis using that(1) assms(2,3) by (simp add: mux_id_inject call_number_inject)
  qed
  ultimately show ?thesis using m(1,3) by (auto simp: answer_of_def)
qed

text \<open>
  A notification reaches only the caller it is about.  Whatever is handed to a call came from
  the backend naming that call's progress token or subscription, and names no other call's.
\<close>

theorem mux_attributes:
  assumes "mux_reach s" "length (m_table s) < 2 ^ 64" "i < length (m_table s)" "n \<in> set (mc_notes (m_table s ! i))"
  shows "\<exists>m\<in>set (m_read s). note_for i (m_table s ! i) m n \<and>
    (\<forall>j n'. j < length (m_table s) \<and> note_for j (m_table s ! j) m n' \<longrightarrow> j = i)"
proof -
  have "call_ok (m_read s) i (m_table s ! i)"
    using mux_reach_inv [OF assms(1)] assms(3) by (simp add: mux_inv_def)
  then obtain m where m: "m \<in> set (m_read s)" "note_for i (m_table s ! i) m n"
    using assms(4) by (auto simp: call_ok_def)
  moreover have "j = i" if "j < length (m_table s)" "note_for j (m_table s ! j) m n'" for j n'
  proof -
    have "call_number j = call_number i"
      using m(2) that(2) by (auto simp: note_for_def mux_id_inject mux_token_inject split: if_splits)
    then show ?thesis using that(1) assms(2,3) by (simp add: call_number_inject)
  qed
  ultimately show ?thesis by blast
qed

text \<open>
  A response that has landed is never lost: when the connection dies or the caller gives up
  with the response already routed, the call still returns it; and when the connection dies every
  call in flight returns.
\<close>

theorem landed_response_wins:
  assumes "in_flight s i" "mc_resp (m_table s ! i) = Some resp"
  shows "mc_result (m_table (conn_died i s) ! i) = Some (Returned (answer_of (m_table s ! i) resp)) \<and>
    mc_result (m_table (caller_gone i s) ! i) = Some (Returned (answer_of (m_table s ! i) resp)) \<and>
    m_written (caller_gone i s) = m_written s"
  using assms
  by (simp add: conn_died_def caller_gone_def take_response_def finish_call_def set_call_def unregister_call_def
      in_flight_def)

definition ex_call :: message where
  "ex_call = zero_message\<lparr>JSONRPC := ''2.0'', ID := Some ''7'', Method := ''ping''\<rparr>"

definition ex_reply :: message where
  "ex_reply = zero_message\<lparr>JSONRPC := ''2.0'', ID := Some (mux_id 1), Result := Some ''{}''\<rparr>"

definition ex_mux :: mux where
  "ex_mux = read_message ex_reply (begin_call ex_call True new_mux)"

lemma ex_mux_facts:
  "mux_reach ex_mux" "in_flight ex_mux 0" "mc_resp (m_table ex_mux ! 0) = Some ex_reply"
  "length (m_table ex_mux) = 1" "mc_origID (m_table ex_mux ! 0) = Some ''7''" "m_read ex_mux = [ex_reply]"
proof -
  have k: "Kind ex_call = KindRequest" "Kind ex_reply = KindResponse"
    by (simp_all add: ex_call_def ex_reply_def Kind_def HasID_def zero_message_def)
  have "call_number 0 = 1" by (simp add: call_number_def)
  moreover have "rewriteProgressToken [] t = None" for t
    by (simp add: rewriteProgressToken_def decodeObject_def raw_at_def)
  ultimately have b: "begin_call ex_call True new_mux = new_mux\<lparr>m_table := [\<lparr>mc_method = ''ping'', mc_origID = Some ''7'',
      mc_origToken = None, mc_out = zero_message\<lparr>JSONRPC := ''2.0'', ID := Some (mux_id 1), Method := ''ping''\<rparr>,
      mc_resp = None, mc_notes = [], mc_result = None\<rparr>], m_calls := [mux_id 1 \<mapsto> 0],
      m_written := [zero_message\<lparr>JSONRPC := ''2.0'', ID := Some (mux_id 1), Method := ''ping''\<rparr>]\<rparr>"
    by (simp add: begin_call_def new_mux_def outgoing_def ex_call_def zero_message_def raw_or_empty_def)
  have "nat_digits 1 = ''1''" by code_simp
  then have "IDKey ex_reply = mux_id 1"
    by (simp add: IDKey_def ex_reply_def mux_id_def TrimSpace_visible)
  then have e: "ex_mux = (begin_call ex_call True new_mux)\<lparr>m_read := [ex_reply],
      m_table := [(m_table (begin_call ex_call True new_mux) ! 0)\<lparr>mc_resp := Some ex_reply\<rparr>]\<rparr>"
    unfolding ex_mux_def b by (simp add: read_message_def k routeResponse_def set_call_def restored_response_def
        MethodListen_def new_mux_def)
  have "mux_reach (begin_call ex_call True new_mux)"
    by (rule mux_reach.more [OF mux_reach.start mux_step.begins [OF k(1)]])
  then show "mux_reach ex_mux" unfolding ex_mux_def
    by (rule mux_reach.more [OF _ mux_step.reads]) (unfold b, simp add: new_mux_def)
  show "in_flight ex_mux 0" "mc_resp (m_table ex_mux ! 0) = Some ex_reply" "length (m_table ex_mux) = 1"
    "mc_origID (m_table ex_mux ! 0) = Some ''7''" "m_read ex_mux = [ex_reply]"
    unfolding e b by (simp_all add: in_flight_def new_mux_def)
qed

lemma landed_response_wins_witness:
  "mc_result (m_table (conn_died 0 ex_mux) ! 0) = Some (Returned (ex_reply\<lparr>ID := Some ''7''\<rparr>))"
  using landed_response_wins [OF ex_mux_facts(2,3)] by (simp add: answer_of_def ex_mux_facts)

lemma mux_correlates_witness:
  "\<exists>s r. mux_reach s \<and> mc_result (m_table s ! 0) = Some (Returned r) \<and> ID r = Some ''7'' \<and> m_read s = [ex_reply]"
proof -
  let ?s = "finish_call 0 (Returned (answer_of (m_table ex_mux ! 0) ex_reply)) ex_mux"
  have "take_response 0 ex_mux = Some ?s" by (simp add: take_response_def ex_mux_facts)
  then have r: "mux_reach ?s" by (rule mux_reach.more [OF ex_mux_facts(1) mux_step.returns [OF ex_mux_facts(2)]])
  have f: "length (m_table ?s) = 1" "mc_result (m_table ?s ! 0) = Some (Returned (answer_of (m_table ex_mux ! 0) ex_reply))"
    "m_read ?s = [ex_reply]" "mc_origID (m_table ?s ! 0) = Some ''7''"
    using ex_mux_facts by (simp_all add: finish_call_def set_call_def unregister_call_def in_flight_def)
  have "ID (answer_of (m_table ex_mux ! 0) ex_reply) = Some ''7''"
    using mux_correlates [OF r _ _ f(2)] f(1,4) by simp
  with r f show ?thesis by blast
qed

definition ex_note :: message where
  "ex_note = zero_message\<lparr>JSONRPC := ''2.0'', Method := ''notifications/x'',
     msg_params := Some (json_text ''{~_meta~:{~io.modelcontextprotocol/subscriptionId~:~g1~}}'')\<rparr>"

lemma ex_note_subscription: "metaField (raw_or_empty (msg_params ex_note)) MetaSubscriptionID = Some (mux_id 1)"
proof -
  have p: "json_parse (json_text ''{~_meta~:{~io.modelcontextprotocol/subscriptionId~:~g1~}}'') =
      Some (JObject [] (MCons [] ''_meta'' [] [] (JObject [] (MCons [] ''io.modelcontextprotocol/subscriptionId'' [] []
        (JString ''g1'') [] MNil)) [] MNil))"
    "json_parse (json_text ''{~io.modelcontextprotocol/subscriptionId~:~g1~}'') =
      Some (JObject [] (MCons [] ''io.modelcontextprotocol/subscriptionId'' [] [] (JString ''g1'') [] MNil))"
    by code_simp+
  have u: "unquoted ''_meta'' = ''_meta''"
    "unquoted ''io.modelcontextprotocol/subscriptionId'' = ''io.modelcontextprotocol/subscriptionId''"
    by (simp_all add: unquoted_def unquote_plain)
  have "raw_at [(''_meta'', json_text ''{~io.modelcontextprotocol/subscriptionId~:~g1~}'')] ''_meta'' =
      json_text ''{~io.modelcontextprotocol/subscriptionId~:~g1~}''"
    by (simp add: raw_at_def)
  moreover have "nat_digits 1 = ''1''" by code_simp
  ultimately show ?thesis
    using decodeObject_parsed [OF p(1)] decodeObject_parsed [OF p(2)]
    by (simp add: metaField_def ex_note_def raw_or_empty_def object_map_def u json_text_def MetaSubscriptionID_def mux_id_def)
qed

lemma mux_attributes_witness:
  "\<exists>s m n. mux_reach s \<and> mc_notes (m_table s ! 0) = [n] \<and> m \<in> set (m_read s) \<and> note_for 0 (m_table s ! 0) m n"
proof -
  let ?s = "read_message ex_note (begin_call ex_call True new_mux)"
  have k: "Kind ex_call = KindRequest" "Kind ex_note = KindNotification" "Method ex_note \<noteq> NotifProgress"
    by (simp_all add: ex_call_def ex_note_def Kind_def HasID_def zero_message_def NotifProgress_def)
  have r0: "mux_reach (begin_call ex_call True new_mux)"
    by (rule mux_reach.more [OF mux_reach.start mux_step.begins [OF k(1)]])
  have f: "m_calls (begin_call ex_call True new_mux) (mux_id 1) = Some 0" "m_dead (begin_call ex_call True new_mux) = False"
    "length (m_table (begin_call ex_call True new_mux)) = 1" "mc_notes (m_table (begin_call ex_call True new_mux) ! 0) = []"
    by (auto simp: begin_call_def new_mux_def Let_def call_number_def split: prod.split)
  have r: "mux_reach ?s" by (rule mux_reach.more [OF r0 mux_step.reads]) (simp add: f)
  have n: "length (m_table ?s) = 1" "\<exists>n. mc_notes (m_table ?s ! 0) = [n]"
    using f by (simp_all add: read_message_def k routeNotification_def Let_def ex_note_subscription notify_def set_call_def)
  then obtain n where "mc_notes (m_table ?s ! 0) = [n]" by blast
  with mux_attributes [OF r, of 0 n] r n(1) show ?thesis by auto
qed

end
