(* ===== verification/Pool.thy ===== *)
theory Pool
  imports GoPrelude
begin

text \<open>
  The pool of backend connections (\<open>pkg/backend/pool.go\<close>).  Every critical section of \<open>Get\<close>,
  \<open>runSpawn\<close>, the reaper, \<open>EvictServer\<close> and \<open>Shutdown\<close> is a function on the pool's state, and a step
  is one of them; times are nanoseconds and an argument of the step.  Entries and spawns live in
  lists that only grow, so that a \<open>Get\<close> which waits keeps a valid reference, as a Go pointer is.
\<close>

section \<open>Configuration\<close>

record Key =
  k_Server :: bytes
  k_Tenant :: bytes
  k_CredSet :: bytes
  k_CredVersion :: int

record PoolConfig =
  MaxConcurrent :: int
  MaxProcsPerTenant :: int
  IdleTTL :: int
  MaxLifetime :: int
  BreakerThreshold :: int
  BreakerCooldown :: int
  SpawnTimeout :: int

definition second :: int where "second = 1000000000"

definition Filled :: "PoolConfig \<Rightarrow> PoolConfig" where
  "Filled c =
     \<lparr>MaxConcurrent = (if MaxConcurrent c \<le> 0 then 32 else MaxConcurrent c),
      MaxProcsPerTenant = (if MaxProcsPerTenant c \<le> 0 then 16 else MaxProcsPerTenant c),
      IdleTTL = (if IdleTTL c \<le> 0 then 5 * 60 * second else IdleTTL c),
      MaxLifetime = (if MaxLifetime c \<le> 0 then 3600 * second else MaxLifetime c),
      BreakerThreshold = (if BreakerThreshold c \<le> 0 then 3 else BreakerThreshold c),
      BreakerCooldown = (if BreakerCooldown c \<le> 0 then 30 * second else BreakerCooldown c),
      SpawnTimeout = (if SpawnTimeout c \<le> 0 then 60 * second else SpawnTimeout c)\<rparr>"

definition credExpirySkew :: int where "credExpirySkew = 30 * second"

section \<open>State\<close>

text \<open>\<open>e_dead\<close> is \<open>mux.Dead()\<close>; \<open>e_closed\<close> records that the pool has called \<open>mux.Close()\<close>.\<close>

record entry =
  e_key :: Key
  e_born :: int
  e_deadline :: int
  e_defined :: "int option"
  e_lastUsed :: int
  e_inflight :: nat
  e_waiters :: nat
  e_sem :: nat
  e_dead :: bool
  e_closed :: bool

definition busyLocked :: "entry \<Rightarrow> bool" where
  "busyLocked e \<longleftrightarrow> 0 < e_inflight e \<or> 0 < e_waiters e"

datatype pool_error =
    PoolClosed
  | CircuitOpen
  | TenantAtCap
  | FactoryFailed
  | ConnectFailed
  | EntryRetired

datatype spawn_phase =
    Resolving
  | Connecting
  | Ended "pool_error + nat"
  | Signalled "pool_error + nat"

record spawn =
  sp_key :: Key
  sp_phase :: spawn_phase
  sp_built :: "int option"
  sp_stale :: bool

record breaker =
  br_fails :: int
  br_openUntil :: int

text \<open>
  The connections that \<open>Connect\<close> returned: one is held by the mux of an entry, which closes it when it is
  closed itself, or the pool has called its \<open>Close\<close>.
\<close>

datatype connection = Unclaimed | HeldBy nat | ConnClosed

record pool =
  p_cfg :: PoolConfig
  p_conns :: "connection list"
  p_ents :: "entry list"
  p_entries :: "Key \<rightharpoonup> nat"
  p_orphans :: "nat list"
  p_spawns :: "spawn list"
  p_spawning :: "Key \<rightharpoonup> nat"
  p_pending :: "bytes \<Rightarrow> nat"
  p_broken :: "Key \<rightharpoonup> breaker"
  p_closed :: bool

definition NewPool :: "PoolConfig \<Rightarrow> pool" where
  "NewPool cfg =
     \<lparr>p_cfg = Filled cfg, p_conns = [], p_ents = [], p_entries = Map.empty, p_orphans = [], p_spawns = [],
      p_spawning = Map.empty, p_pending = (\<lambda>_. 0), p_broken = Map.empty, p_closed = False\<rparr>"

text \<open>The entry of the map is looked up by its own key, as an entry is only ever stored under it.\<close>

definition mapped :: "pool \<Rightarrow> nat \<Rightarrow> bool" where
  "mapped s i \<longleftrightarrow> p_entries s (e_key (p_ents s ! i)) = Some i"

definition upd_ent :: "nat \<Rightarrow> (entry \<Rightarrow> entry) \<Rightarrow> pool \<Rightarrow> pool" where
  "upd_ent i f s = s\<lparr>p_ents := (p_ents s)[i := f (p_ents s ! i)]\<rparr>"

definition upd_spawn :: "nat \<Rightarrow> (spawn \<Rightarrow> spawn) \<Rightarrow> pool \<Rightarrow> pool" where
  "upd_spawn j f s = s\<lparr>p_spawns := (p_spawns s)[j := f (p_spawns s ! j)]\<rparr>"

text \<open>Close the entries of a list and take them out of the map.\<close>

definition close_all :: "nat list \<Rightarrow> pool \<Rightarrow> pool" where
  "close_all is s =
     s\<lparr>p_ents := map (\<lambda>i. if i \<in> set is then (p_ents s ! i)\<lparr>e_closed := True\<rparr> else p_ents s ! i) [0..<length (p_ents s)],
       p_entries := (\<lambda>k. case p_entries s k of None \<Rightarrow> None | Some i \<Rightarrow> if i \<in> set is then None else Some i)\<rparr>"

section \<open>Get\<close>

text \<open>A dead entry or one past its deadline is replaced; a busy one is kept as an orphan.\<close>

definition drop_stale :: "int \<Rightarrow> Key \<Rightarrow> pool \<Rightarrow> pool" where
  "drop_stale now key s =
     (case p_entries s key of
        None \<Rightarrow> s
      | Some i \<Rightarrow>
          (let e = p_ents s ! i in
           if e_dead e \<or> e_deadline e < now then
             (if e_dead e \<or> \<not> busyLocked e then close_all [i] s
              else s\<lparr>p_orphans := p_orphans s @ [i], p_entries := (p_entries s)(key := None)\<rparr>)
           else s))"

definition superseded :: "Key \<Rightarrow> entry \<Rightarrow> bool" where
  "superseded key e \<longleftrightarrow>
     k_Server (e_key e) = k_Server key \<and> k_Tenant (e_key e) = k_Tenant key \<and> k_CredSet (e_key e) = k_CredSet key \<and>
     k_CredVersion (e_key e) < k_CredVersion key \<and> \<not> busyLocked e"

definition retireSupersededLocked :: "Key \<Rightarrow> pool \<Rightarrow> pool" where
  "retireSupersededLocked key s =
     close_all (filter (\<lambda>i. mapped s i \<and> superseded key (p_ents s ! i)) [0..<length (p_ents s)]) s"

definition live_of :: "bytes \<Rightarrow> entry \<Rightarrow> bool" where
  "live_of tenant e \<longleftrightarrow> k_Tenant (e_key e) = tenant \<and> \<not> e_dead e"

definition tenantCountLocked :: "bytes \<Rightarrow> pool \<Rightarrow> nat" where
  "tenantCountLocked tenant s =
     length (filter (\<lambda>i. mapped s i \<and> live_of tenant (p_ents s ! i)) [0..<length (p_ents s)]) +
     length (filter (\<lambda>i. live_of tenant (p_ents s ! i)) (p_orphans s)) + p_pending s tenant"

definition start_spawn :: "Key \<Rightarrow> pool \<Rightarrow> pool" where
  "start_spawn key s =
     s\<lparr>p_pending := (p_pending s)(k_Tenant key := p_pending s (k_Tenant key) + 1),
       p_spawns := p_spawns s @ [\<lparr>sp_key = key, sp_phase = Resolving, sp_built = None, sp_stale = False\<rparr>],
       p_spawning := (p_spawning s)(key \<mapsto> length (p_spawns s))\<rparr>"

datatype get_outcome = Refused pool_error | WaitSpawn nat | Queued nat

definition queue_on :: "int \<Rightarrow> nat \<Rightarrow> pool \<Rightarrow> pool" where
  "queue_on now i s = upd_ent i (\<lambda>e. e\<lparr>e_lastUsed := now, e_waiters := e_waiters e + 1\<rparr>) s"

definition get_lookup :: "int \<Rightarrow> Key \<Rightarrow> pool \<Rightarrow> get_outcome \<times> pool" where
  "get_lookup now key s0 =
     (if p_closed s0 then (Refused PoolClosed, s0)
      else (let s1 = drop_stale now key s0 in
        case p_entries s1 key of
          Some i \<Rightarrow> (Queued i, queue_on now i s1)
        | None \<Rightarrow>
            (let s = retireSupersededLocked key s1 in
             if (case p_broken s key of None \<Rightarrow> False | Some br \<Rightarrow> now < br_openUntil br) then (Refused CircuitOpen, s)
             else (case p_spawning s key of
               Some j \<Rightarrow> (WaitSpawn j, s)
             | None \<Rightarrow>
                 if MaxProcsPerTenant (p_cfg s) \<le> int (tenantCountLocked (k_Tenant key) s) then (Refused TenantAtCap, s)
                 else (WaitSpawn (length (p_spawns s)), start_spawn key s)))))"

text \<open>A \<open>Get\<close> wakes up after the spawn it waited for: \<open>Inr i\<close> is the entry the spawn gave.\<close>

definition get_joined :: "int \<Rightarrow> Key \<Rightarrow> pool_error + nat \<Rightarrow> pool \<Rightarrow> get_outcome \<times> pool" where
  "get_joined now key r s =
     (case r of
        Inl e \<Rightarrow> (Refused e, s)
      | Inr i \<Rightarrow> if p_entries s key \<noteq> Some i then (Refused EntryRetired, s) else (Queued i, queue_on now i s))"

text \<open>It gets a slot of the semaphore, or its context ends first.\<close>

definition get_slot :: "nat \<Rightarrow> pool \<Rightarrow> pool option" where
  "get_slot i s =
     (if int (e_sem (p_ents s ! i)) < MaxConcurrent (p_cfg s)
      then Some (upd_ent i (\<lambda>e. e\<lparr>e_sem := e_sem e + 1\<rparr>) s) else None)"

definition get_left :: "nat \<Rightarrow> pool \<Rightarrow> pool" where
  "get_left i s = upd_ent i (\<lambda>e. e\<lparr>e_waiters := e_waiters e - 1\<rparr>) s"

definition get_granted :: "int \<Rightarrow> Key \<Rightarrow> nat \<Rightarrow> pool \<Rightarrow> pool_error option \<times> pool" where
  "get_granted now key i s =
     (let e = p_ents s ! i; s1 = upd_ent i (\<lambda>e. e\<lparr>e_waiters := e_waiters e - 1\<rparr>) s in
      if p_entries s key \<noteq> Some i \<or> e_dead e \<or> e_deadline e < now
      then (Some EntryRetired, upd_ent i (\<lambda>e. e\<lparr>e_sem := e_sem e - 1\<rparr>) s1)
      else (None, upd_ent i (\<lambda>e. e\<lparr>e_inflight := e_inflight e + 1\<rparr>) s1))"

definition release :: "int \<Rightarrow> nat \<Rightarrow> pool \<Rightarrow> pool" where
  "release now i s =
     upd_ent i (\<lambda>e. e\<lparr>e_sem := e_sem e - 1, e_inflight := e_inflight e - 1, e_lastUsed := now\<rparr>) s"

section \<open>Spawning\<close>

definition releasePendingLocked :: "bytes \<Rightarrow> pool \<Rightarrow> pool" where
  "releasePendingLocked tenant s = s\<lparr>p_pending := (p_pending s)(tenant := p_pending s tenant - 1)\<rparr>"

definition end_spawn :: "nat \<Rightarrow> pool_error + nat \<Rightarrow> pool \<Rightarrow> pool" where
  "end_spawn j r s = upd_spawn j (\<lambda>sp. sp\<lparr>sp_phase := Ended r\<rparr>) s"

definition factory_done :: "int \<Rightarrow> bool \<Rightarrow> nat \<Rightarrow> pool \<Rightarrow> pool" where
  "factory_done now ok j s =
     (if ok then upd_spawn j (\<lambda>sp. sp\<lparr>sp_built := Some now, sp_phase := Connecting\<rparr>) s
      else end_spawn j (Inl FactoryFailed) (releasePendingLocked (k_Tenant (sp_key (p_spawns s ! j))) s))"

definition recordFailure :: "int \<Rightarrow> Key \<Rightarrow> pool \<Rightarrow> pool" where
  "recordFailure now key s =
     (let br = (case p_broken s key of None \<Rightarrow> \<lparr>br_fails = 0, br_openUntil = 0\<rparr> | Some br \<Rightarrow> br);
          fails = br_fails br + 1;
          until = (if BreakerThreshold (p_cfg s) \<le> fails then now + BreakerCooldown (p_cfg s) else br_openUntil br)
      in s\<lparr>p_broken := (p_broken s)(key \<mapsto> \<lparr>br_fails = fails, br_openUntil = until\<rparr>)\<rparr>)"

text \<open>\<open>expires\<close> is the expiry of the credentials the backend was built with, if they expire.\<close>

definition entry_deadline :: "PoolConfig \<Rightarrow> int \<Rightarrow> int option \<Rightarrow> int" where
  "entry_deadline cfg born expires =
     (let deadline = born + MaxLifetime cfg in
      case expires of
        None \<Rightarrow> deadline
      | Some t \<Rightarrow>
          (let d = (if t - credExpirySkew < born then t else t - credExpirySkew) in
           if d < deadline then d else deadline))"

definition new_entry :: "PoolConfig \<Rightarrow> Key \<Rightarrow> int \<Rightarrow> int option \<Rightarrow> int option \<Rightarrow> entry" where
  "new_entry cfg key born built expires =
     \<lparr>e_key = key, e_born = born, e_deadline = entry_deadline cfg born expires, e_defined = built, e_lastUsed = born,
      e_inflight = 0, e_waiters = 0, e_sem = 0, e_dead = False, e_closed = False\<rparr>"

definition opened :: "pool \<Rightarrow> pool" where
  "opened s = s\<lparr>p_conns := p_conns s @ [Unclaimed]\<rparr>"

definition close_conn :: "nat \<Rightarrow> pool \<Rightarrow> pool" where
  "close_conn n s = s\<lparr>p_conns := (p_conns s)[n := ConnClosed]\<rparr>"

text \<open>\<open>NewMux\<close> over connection \<open>n\<close>, in a new entry.\<close>

definition add_entry :: "nat \<Rightarrow> entry \<Rightarrow> pool \<Rightarrow> pool" where
  "add_entry n e s =
     s\<lparr>p_conns := (p_conns s)[n := HeldBy (length (p_ents s))], p_ents := p_ents s @ [e],
       p_entries := (p_entries s)(e_key e \<mapsto> length (p_ents s))\<rparr>"

definition connect_done :: "int \<Rightarrow> bool \<Rightarrow> int option \<Rightarrow> nat \<Rightarrow> pool \<Rightarrow> pool" where
  "connect_done now ok expires j s =
     (let sp = p_spawns s ! j; key = sp_key sp in
      if \<not> ok then end_spawn j (Inl ConnectFailed) (releasePendingLocked (k_Tenant key) (recordFailure now key s))
      else (let n = length (p_conns s); s1 = releasePendingLocked (k_Tenant key) (opened s) in
        if p_closed s \<or> sp_stale sp then end_spawn j (Inl (if p_closed s then PoolClosed else EntryRetired)) (close_conn n s1)
        else (let s2 = s1\<lparr>p_broken := (p_broken s1)(key := None)\<rparr>;
                  installed = end_spawn j (Inr (length (p_ents s)))
                    (add_entry n (new_entry (p_cfg s) key now (sp_built sp) expires) s2) in
          case p_entries s key of
            Some i \<Rightarrow> if \<not> e_dead (p_ents s ! i) then end_spawn j (Inr i) (close_conn n s2) else installed
          | None \<Rightarrow> installed)))"

text \<open>\<open>runSpawn\<close> unmaps the finished spawn and wakes whoever waits for it.\<close>

definition spawn_signals :: "nat \<Rightarrow> pool_error + nat \<Rightarrow> pool \<Rightarrow> pool" where
  "spawn_signals j r s =
     (let key = sp_key (p_spawns s ! j) in
      upd_spawn j (\<lambda>sp. sp\<lparr>sp_phase := Signalled r\<rparr>)
        (if p_spawning s key = Some j then s\<lparr>p_spawning := (p_spawning s)(key := None)\<rparr> else s))"

section \<open>Reaping, evicting, shutting down\<close>

definition reap :: "int \<Rightarrow> pool \<Rightarrow> pool" where
  "reap now s =
     (let due = (\<lambda>e. e_dead e \<or> (\<not> busyLocked e \<and> IdleTTL (p_cfg s) < now - e_lastUsed e) \<or> (\<not> busyLocked e \<and> e_deadline e < now));
          drained = (\<lambda>e. e_dead e \<or> \<not> busyLocked e);
          victims = filter (\<lambda>i. mapped s i \<and> due (p_ents s ! i)) [0..<length (p_ents s)] @
            filter (\<lambda>i. drained (p_ents s ! i)) (p_orphans s)
      in (close_all victims s)\<lparr>p_orphans := filter (\<lambda>i. \<not> drained (p_ents s ! i)) (p_orphans s)\<rparr>)"

text \<open>\<open>since = None\<close> is the zero time, which every definition is after.\<close>

definition definedAfter :: "int option \<Rightarrow> entry \<Rightarrow> bool" where
  "definedAfter since e =
     (case since of
        None \<Rightarrow> True
      | Some t \<Rightarrow> (case e_defined e of None \<Rightarrow> t < e_born e | Some d \<Rightarrow> t < d))"

definition evictServer :: "bytes \<Rightarrow> int option \<Rightarrow> pool \<Rightarrow> pool" where
  "evictServer server since s =
     (let hit = (\<lambda>e. k_Server (e_key e) = server \<and> definedAfter since e);
          victims = filter (\<lambda>i. mapped s i \<and> hit (p_ents s ! i)) [0..<length (p_ents s)] @
            filter (\<lambda>i. hit (p_ents s ! i)) (p_orphans s)
      in (close_all victims s)
           \<lparr>p_orphans := filter (\<lambda>i. \<not> hit (p_ents s ! i)) (p_orphans s),
            p_broken := (\<lambda>k. if k_Server k = server then None else p_broken s k),
            p_spawns := map (\<lambda>j. let sp = p_spawns s ! j in
                if p_spawning s (sp_key sp) = Some j \<and> k_Server (sp_key sp) = server \<and>
                   (case sp_built sp of None \<Rightarrow> True | Some b \<Rightarrow> (case since of None \<Rightarrow> True | Some t \<Rightarrow> t < b))
                then sp\<lparr>sp_stale := True\<rparr> else sp) [0..<length (p_spawns s)]\<rparr>)"

definition Shutdown :: "pool \<Rightarrow> pool" where
  "Shutdown s =
     (close_all (filter (mapped s) [0..<length (p_ents s)] @ p_orphans s) s)\<lparr>p_closed := True, p_orphans := []\<rparr>"

definition mux_dies :: "nat \<Rightarrow> pool \<Rightarrow> pool" where
  "mux_dies i s = upd_ent i (\<lambda>e. e\<lparr>e_dead := True\<rparr>) s"

section \<open>Steps\<close>

inductive pool_step :: "pool \<Rightarrow> pool \<Rightarrow> bool" where
  lookup: "pool_step s (snd (get_lookup now key s))"
| joined: "j < length (p_spawns s) \<Longrightarrow> sp_phase (p_spawns s ! j) = Signalled r \<Longrightarrow>
    pool_step s (snd (get_joined now (sp_key (p_spawns s ! j)) r s))"
| slot: "i < length (p_ents s) \<Longrightarrow> get_slot i s = Some s' \<Longrightarrow> pool_step s s'"
| left: "i < length (p_ents s) \<Longrightarrow> pool_step s (get_left i s)"
| granted: "i < length (p_ents s) \<Longrightarrow> pool_step s (snd (get_granted now key i s))"
| released: "i < length (p_ents s) \<Longrightarrow> pool_step s (release now i s)"
| resolved: "j < length (p_spawns s) \<Longrightarrow> sp_phase (p_spawns s ! j) = Resolving \<Longrightarrow> pool_step s (factory_done now ok j s)"
| connected: "j < length (p_spawns s) \<Longrightarrow> sp_phase (p_spawns s ! j) = Connecting \<Longrightarrow>
    pool_step s (connect_done now ok expires j s)"
| signals: "j < length (p_spawns s) \<Longrightarrow> sp_phase (p_spawns s ! j) = Ended r \<Longrightarrow> pool_step s (spawn_signals j r s)"
| reaps: "pool_step s (reap now s)"
| evicts: "pool_step s (evictServer server since s)"
| shuts: "pool_step s (Shutdown s)"
| dies: "i < length (p_ents s) \<Longrightarrow> pool_step s (mux_dies i s)"

inductive pool_reach :: "PoolConfig \<Rightarrow> pool \<Rightarrow> bool" for cfg where
  start: "pool_reach cfg (NewPool cfg)"
| more: "pool_reach cfg s \<Longrightarrow> pool_step s s' \<Longrightarrow> pool_reach cfg s'"

end
