(* ===== verification/PoolInv.thy ===== *)
theory PoolInv
  imports Pool
begin

text \<open>
  The invariants of the backend pool: the map and the spawns agree, no tenant exceeds its cap, and no
  connection the pool ever opened is lost track of.
\<close>

section \<open>The invariant\<close>

definition in_progress :: "spawn \<Rightarrow> bool" where
  "in_progress sp \<longleftrightarrow> sp_phase sp = Resolving \<or> sp_phase sp = Connecting"

definition unsignalled :: "spawn \<Rightarrow> bool" where
  "unsignalled sp \<longleftrightarrow> (case sp_phase sp of Signalled r \<Rightarrow> False | _ \<Rightarrow> True)"

definition spawn_result :: "spawn \<Rightarrow> (pool_error + nat) option" where
  "spawn_result sp = (case sp_phase sp of Ended r \<Rightarrow> Some r | Signalled r \<Rightarrow> Some r | _ \<Rightarrow> None)"

definition map_inv :: "pool \<Rightarrow> bool" where
  "map_inv s \<longleftrightarrow>
     (\<forall>k i. p_entries s k = Some i \<longrightarrow> i < length (p_ents s) \<and> e_key (p_ents s ! i) = k) \<and>
     (\<forall>i\<in>set (p_orphans s). i < length (p_ents s) \<and> \<not> mapped s i) \<and>
     (p_closed s \<longrightarrow> p_entries s = Map.empty \<and> p_orphans s = [])"

definition spawn_inv :: "pool \<Rightarrow> bool" where
  "spawn_inv s \<longleftrightarrow>
     (\<forall>k j. p_spawning s k = Some j \<longrightarrow> j < length (p_spawns s) \<and> sp_key (p_spawns s ! j) = k \<and> unsignalled (p_spawns s ! j)) \<and>
     (\<forall>j<length (p_spawns s). unsignalled (p_spawns s ! j) \<longrightarrow> p_spawning s (sp_key (p_spawns s ! j)) = Some j) \<and>
     (\<forall>j<length (p_spawns s). in_progress (p_spawns s ! j) \<longrightarrow> p_entries s (sp_key (p_spawns s ! j)) = None) \<and>
     (\<forall>j<length (p_spawns s). \<forall>i. spawn_result (p_spawns s ! j) = Some (Inr i) \<longrightarrow>
        i < length (p_ents s) \<and> e_key (p_ents s ! i) = sp_key (p_spawns s ! j)) \<and>
     (\<forall>t. p_pending s t = length (filter (\<lambda>sp. in_progress sp \<and> k_Tenant (sp_key sp) = t) (p_spawns s)))"

text \<open>Every connection is reachable by the pool, or closed, or dead.\<close>

definition accounted :: "pool \<Rightarrow> bool" where
  "accounted s \<longleftrightarrow> (\<forall>i<length (p_ents s). mapped s i \<or> i \<in> set (p_orphans s) \<or> e_closed (p_ents s ! i) \<or> e_dead (p_ents s ! i))"

definition under_cap :: "pool \<Rightarrow> bool" where
  "under_cap s \<longleftrightarrow> (\<forall>t. int (tenantCountLocked t s) \<le> MaxProcsPerTenant (p_cfg s))"

definition pool_inv :: "pool \<Rightarrow> bool" where
  "pool_inv s \<longleftrightarrow> map_inv s \<and> spawn_inv s \<and> accounted s \<and> under_cap s"

lemma in_progress_phases [simp]:
  "sp_phase sp = Resolving \<Longrightarrow> in_progress sp" "sp_phase sp = Connecting \<Longrightarrow> in_progress sp"
  "sp_phase sp = Ended r \<Longrightarrow> \<not> in_progress sp" "sp_phase sp = Signalled r \<Longrightarrow> \<not> in_progress sp"
  by (simp_all add: in_progress_def)

lemma unsignalled_phases [simp]:
  "sp_phase sp = Resolving \<Longrightarrow> unsignalled sp" "sp_phase sp = Connecting \<Longrightarrow> unsignalled sp"
  "sp_phase sp = Ended r \<Longrightarrow> unsignalled sp" "sp_phase sp = Signalled r \<Longrightarrow> \<not> unsignalled sp"
  by (simp_all add: unsignalled_def)

section \<open>Counting\<close>

lemma filter_length_mono: "(\<And>x. x \<in> set xs \<Longrightarrow> P x \<Longrightarrow> Q x) \<Longrightarrow> length (filter P xs) \<le> length (filter Q xs)"
  by (induction xs) auto

lemma filter_length_less:
  "(\<And>x. x \<in> set xs \<Longrightarrow> P x \<Longrightarrow> Q x) \<Longrightarrow> y \<in> set xs \<Longrightarrow> Q y \<Longrightarrow> \<not> P y \<Longrightarrow> length (filter P xs) < length (filter Q xs)"
proof (induction xs)
  case (Cons x xs)
  have "length (filter P xs) \<le> length (filter Q xs)" using Cons.prems(1) by (intro filter_length_mono) auto
  with Cons show ?case by (cases "y = x") auto
qed simp

lemma filter_update_length:
  "j < length xs \<Longrightarrow> length (filter P (xs[j := x])) + (if P (xs ! j) then 1 else 0) = length (filter P xs) + (if P x then 1 else 0)"
proof (induction xs arbitrary: j)
  case (Cons a xs)
  then show ?case by (cases j) auto
qed simp

lemma nth_update: "xs[j := x] ! i = (if i = j \<and> j < length xs then x else xs ! i)"
  by (cases "j < length xs") (auto simp: nth_list_update list_update_beyond)

section \<open>Changes to one entry\<close>

lemma upd_ent_nth: "p_ents (upd_ent i f s) ! j = (if j = i \<and> i < length (p_ents s) then f (p_ents s ! i) else p_ents s ! j)"
  by (cases "i < length (p_ents s)") (auto simp: upd_ent_def nth_list_update list_update_beyond)

text \<open>An update that keeps the key and the closed mark and does not revive a dead connection.\<close>

definition gentle :: "(entry \<Rightarrow> entry) \<Rightarrow> bool" where
  "gentle f \<longleftrightarrow> (\<forall>e. e_key (f e) = e_key e \<and> e_closed (f e) = e_closed e \<and> (e_dead e \<longrightarrow> e_dead (f e)))"

lemma upd_ent_fields [simp]:
  "p_entries (upd_ent i f s) = p_entries s" "p_orphans (upd_ent i f s) = p_orphans s" "p_spawns (upd_ent i f s) = p_spawns s"
  "p_spawning (upd_ent i f s) = p_spawning s" "p_pending (upd_ent i f s) = p_pending s" "p_cfg (upd_ent i f s) = p_cfg s"
  "p_closed (upd_ent i f s) = p_closed s" "p_broken (upd_ent i f s) = p_broken s" "length (p_ents (upd_ent i f s)) = length (p_ents s)"
  by (simp_all add: upd_ent_def)

lemma upd_ent_keys: "gentle f \<Longrightarrow> e_key (p_ents (upd_ent i f s) ! j) = e_key (p_ents s ! j)"
  by (simp add: upd_ent_nth gentle_def)

lemma upd_ent_mapped: "gentle f \<Longrightarrow> mapped (upd_ent i f s) j = mapped s j"
  by (simp add: mapped_def upd_ent_keys)

lemma upd_ent_live: "gentle f \<Longrightarrow> live_of t (p_ents (upd_ent i f s) ! j) \<Longrightarrow> live_of t (p_ents s ! j)"
  by (auto simp: live_of_def upd_ent_nth gentle_def split: if_splits)

lemma upd_ent_inv:
  assumes "gentle f" "pool_inv s"
  shows "pool_inv (upd_ent i f s)"
proof -
  have "tenantCountLocked t (upd_ent i f s) \<le> tenantCountLocked t s" for t
    unfolding tenantCountLocked_def upd_ent_fields
    by (intro add_mono filter_length_mono order_refl) (auto simp: upd_ent_mapped [OF assms(1)] dest: upd_ent_live [OF assms(1)])
  then have "under_cap (upd_ent i f s)" using assms(2) unfolding pool_inv_def under_cap_def upd_ent_fields
    by (meson of_nat_mono order_trans)
  moreover have "accounted (upd_ent i f s)"
    using assms by (auto simp: pool_inv_def accounted_def upd_ent_mapped upd_ent_nth gentle_def)
  ultimately show ?thesis
    using assms by (simp add: pool_inv_def map_inv_def spawn_inv_def upd_ent_keys upd_ent_mapped)
qed

section \<open>Closing\<close>

lemma close_all_nth: "i < length (p_ents s) \<Longrightarrow>
    p_ents (close_all vs s) ! i = (if i \<in> set vs then (p_ents s ! i)\<lparr>e_closed := True\<rparr> else p_ents s ! i)"
  by (simp add: close_all_def)

lemma close_all_fields [simp]:
  "p_orphans (close_all vs s) = p_orphans s" "p_spawns (close_all vs s) = p_spawns s" "p_spawning (close_all vs s) = p_spawning s"
  "p_pending (close_all vs s) = p_pending s" "p_cfg (close_all vs s) = p_cfg s" "p_closed (close_all vs s) = p_closed s"
  "p_broken (close_all vs s) = p_broken s" "length (p_ents (close_all vs s)) = length (p_ents s)"
  by (simp_all add: close_all_def)

lemma close_all_entries:
  "p_entries (close_all vs s) k = Some i \<longleftrightarrow> p_entries s k = Some i \<and> i \<notin> set vs"
  by (auto simp: close_all_def split: option.splits)

lemma close_all_empty [simp]: "p_entries s = Map.empty \<Longrightarrow> p_entries (close_all vs s) = Map.empty"
  by (simp add: close_all_def)

lemma close_all_keys: "i < length (p_ents s) \<Longrightarrow> e_key (p_ents (close_all vs s) ! i) = e_key (p_ents s ! i)"
  by (simp add: close_all_nth)

lemma close_all_live: "i < length (p_ents s) \<Longrightarrow> live_of t (p_ents (close_all vs s) ! i) = live_of t (p_ents s ! i)"
  by (simp add: close_all_nth live_of_def)

lemma close_all_mapped: "i < length (p_ents s) \<Longrightarrow> mapped (close_all vs s) i \<longleftrightarrow> mapped s i \<and> i \<notin> set vs"
  by (simp add: mapped_def close_all_keys close_all_entries)

text \<open>Closing some entries and forgetting orphans that are among them.\<close>

lemma close_inv:
  assumes "pool_inv s" "\<And>i. i \<in> set (p_orphans s) \<Longrightarrow> P i \<or> i \<in> set vs"
  shows "pool_inv ((close_all vs s)\<lparr>p_orphans := filter P (p_orphans s)\<rparr>)" (is "pool_inv ?t")
proof -
  have inv: "map_inv s" "spawn_inv s" "accounted s" "under_cap s" using assms(1) by (simp_all add: pool_inv_def)
  have mp: "mapped ?t i \<longleftrightarrow> mapped s i \<and> i \<notin> set vs" if "i < length (p_ents s)" for i
    using close_all_mapped [OF that] by (simp add: mapped_def)
  have lt: "i < length (p_ents s)" if "i \<in> set (p_orphans s)" for i using inv(1) that by (simp add: map_inv_def)
  have "map_inv ?t"
    using inv(1) lt mp by (auto simp: map_inv_def close_all_entries close_all_keys)
  moreover have "spawn_inv ?t"
  proof -
    have "p_entries (close_all vs s) k = None" if "p_entries s k = None" for k
      using that by (simp add: close_all_def)
    then show ?thesis using inv(2) by (simp add: spawn_inv_def close_all_keys)
  qed
  moreover have "accounted ?t"
    unfolding accounted_def
  proof (intro allI impI)
    fix i
    assume "i < length (p_ents ?t)"
    then have i: "i < length (p_ents s)" by simp
    with inv(3) consider "mapped s i" | "i \<in> set (p_orphans s)" | "e_closed (p_ents s ! i)" | "e_dead (p_ents s ! i)"
      by (auto simp: accounted_def)
    then show "mapped ?t i \<or> i \<in> set (p_orphans ?t) \<or> e_closed (p_ents ?t ! i) \<or> e_dead (p_ents ?t ! i)"
      using i mp [OF i] assms(2) [of i] by cases (auto simp: close_all_nth)
  qed
  moreover have "under_cap ?t"
  proof -
    have "tenantCountLocked t ?t \<le> tenantCountLocked t s" for t
    proof -
      have "length (filter (\<lambda>i. live_of t (p_ents ?t ! i)) (filter P (p_orphans s))) \<le>
          length (filter (\<lambda>i. live_of t (p_ents s ! i)) (p_orphans s))"
        using lt by (auto simp: close_all_live intro!: filter_length_mono cong: filter_cong)
      moreover have "length (filter (\<lambda>i. mapped ?t i \<and> live_of t (p_ents ?t ! i)) [0..<length (p_ents s)]) \<le>
          length (filter (\<lambda>i. mapped s i \<and> live_of t (p_ents s ! i)) [0..<length (p_ents s)])"
        using mp by (intro filter_length_mono) (auto simp: close_all_live)
      ultimately show ?thesis by (simp add: tenantCountLocked_def)
    qed
    then show ?thesis using inv(4) by (simp add: under_cap_def) (meson of_nat_mono order_trans)
  qed
  ultimately show ?thesis by (simp add: pool_inv_def)
qed

lemma close_all_inv: "pool_inv s \<Longrightarrow> pool_inv (close_all vs s)"
  using close_inv [of s "\<lambda>_. True" vs] by (simp add: close_all_def)

section \<open>The steps keep the invariant\<close>

text \<open>Only the entries, the spawns and their maps matter.\<close>

lemma inv_broken: "pool_inv (s\<lparr>p_broken := b\<rparr>) = pool_inv s"
  by (simp add: pool_inv_def map_inv_def spawn_inv_def accounted_def under_cap_def tenantCountLocked_def mapped_def)

lemma inv_conns: "pool_inv (s\<lparr>p_conns := c\<rparr>) = pool_inv s"
  by (simp add: pool_inv_def map_inv_def spawn_inv_def accounted_def under_cap_def tenantCountLocked_def mapped_def)

lemmas conn_defs = opened_def close_conn_def add_entry_def

lemma drop_stale_inv:
  assumes "pool_inv s"
  shows "pool_inv (drop_stale now key s)"
proof (cases "p_entries s key")
  case (Some i)
  let ?e = "p_ents s ! i"
  let ?t = "s\<lparr>p_orphans := p_orphans s @ [i], p_entries := (p_entries s)(key := None)\<rparr>"
  have inv: "map_inv s" "spawn_inv s" "accounted s" "under_cap s" using assms by (simp_all add: pool_inv_def)
  have i: "i < length (p_ents s)" "e_key ?e = key" using inv(1) Some by (auto simp: map_inv_def)
  have mp: "mapped ?t j \<longleftrightarrow> mapped s j \<and> j \<noteq> i" if "j < length (p_ents s)" for j
    using i Some by (auto simp: mapped_def)
  have "pool_inv ?t" if busy: "\<not> e_dead ?e"
  proof -
    have "map_inv ?t" using inv(1) Some i mp by (auto simp: map_inv_def)
    moreover have "spawn_inv ?t" using inv(2) by (simp add: spawn_inv_def)
    moreover have "accounted ?t" using inv(3) mp by (auto simp: accounted_def)
    moreover have "under_cap ?t"
    proof -
      have "tenantCountLocked t ?t \<le> tenantCountLocked t s" for t
      proof (cases "live_of t ?e")
        case True
        have "length (filter (\<lambda>j. mapped ?t j \<and> live_of t (p_ents s ! j)) [0..<length (p_ents s)]) <
            length (filter (\<lambda>j. mapped s j \<and> live_of t (p_ents s ! j)) [0..<length (p_ents s)])"
          using True i Some mp by (intro filter_length_less [of _ _ _ i]) (auto simp: mapped_def)
        with True show ?thesis by (simp add: tenantCountLocked_def)
      next
        case False
        have "length (filter (\<lambda>j. mapped ?t j \<and> live_of t (p_ents s ! j)) [0..<length (p_ents s)]) \<le>
            length (filter (\<lambda>j. mapped s j \<and> live_of t (p_ents s ! j)) [0..<length (p_ents s)])"
          using mp by (intro filter_length_mono) auto
        with False show ?thesis by (simp add: tenantCountLocked_def)
      qed
      then show ?thesis using inv(4) by (simp add: under_cap_def) (meson of_nat_mono order_trans)
    qed
    ultimately show ?thesis by (simp add: pool_inv_def)
  qed
  with Some close_all_inv [OF assms] assms show ?thesis by (auto simp: drop_stale_def Let_def)
qed (simp add: drop_stale_def assms)

lemma queue_on_inv: "pool_inv s \<Longrightarrow> pool_inv (queue_on now i s)"
  unfolding queue_on_def by (rule upd_ent_inv) (simp_all add: gentle_def)

lemma retire_inv: "pool_inv s \<Longrightarrow> pool_inv (retireSupersededLocked key s)"
  unfolding retireSupersededLocked_def by (rule close_all_inv)

lemma pending_eq:
  "spawn_inv s \<Longrightarrow> p_pending s t = length (filter (\<lambda>sp. in_progress sp \<and> k_Tenant (sp_key sp) = t) (p_spawns s))"
  by (simp add: spawn_inv_def)

lemma start_spawn_inv:
  assumes "pool_inv s" "p_entries s key = None" "p_spawning s key = None"
    and "int (tenantCountLocked (k_Tenant key) s) < MaxProcsPerTenant (p_cfg s)"
  shows "pool_inv (start_spawn key s)"
proof -
  have inv: "map_inv s" "spawn_inv s" "accounted s" "under_cap s" using assms(1) by (simp_all add: pool_inv_def)
  let ?t = "start_spawn key s"
  have "map_inv ?t" "accounted ?t" using inv(1,3) by (simp_all add: map_inv_def accounted_def start_spawn_def mapped_def)
  moreover have "tenantCountLocked t ?t = tenantCountLocked t s + (if t = k_Tenant key then 1 else 0)" for t
    by (simp add: tenantCountLocked_def start_spawn_def mapped_def)
  then have "under_cap ?t" using inv(4) assms(4) by (auto simp: under_cap_def start_spawn_def)
  moreover have "spawn_inv ?t"
  proof -
    have "sp_key (p_spawns s ! j) \<noteq> key" if "j < length (p_spawns s)" "unsignalled (p_spawns s ! j)" for j
      using that inv(2) assms(3) by (auto simp: spawn_inv_def)
    then show ?thesis
      using inv(2) assms(2,3)
      by (auto simp: spawn_inv_def start_spawn_def nth_append less_Suc_eq spawn_result_def split: if_splits)
  qed
  ultimately show ?thesis by (simp add: pool_inv_def)
qed

lemma get_lookup_inv:
  assumes "pool_inv s"
  shows "pool_inv (snd (get_lookup now key s))"
proof -
  let ?s1 = "drop_stale now key s"
  let ?s = "retireSupersededLocked key ?s1"
  have s1: "pool_inv ?s1" by (rule drop_stale_inv [OF assms])
  then have s: "pool_inv ?s" by (rule retire_inv)
  have "p_entries ?s key = None" if "p_entries ?s1 key = None"
    using that by (simp add: retireSupersededLocked_def close_all_def)
  then show ?thesis
    using assms s1 s
    by (auto simp: get_lookup_def Let_def intro!: queue_on_inv start_spawn_inv split: option.splits)
qed

text \<open>A spawn that moves on within the same key.\<close>

lemma end_spawn_inv:
  assumes "pool_inv s" "j < length (p_spawns s)" "in_progress (p_spawns s ! j)"
    and "\<And>i. r = Inr i \<Longrightarrow> i < length (p_ents s) \<and> e_key (p_ents s ! i) = sp_key (p_spawns s ! j)"
  shows "pool_inv (end_spawn j r (releasePendingLocked (k_Tenant (sp_key (p_spawns s ! j))) s))" (is "pool_inv ?t")
proof -
  have inv: "map_inv s" "spawn_inv s" "accounted s" "under_cap s" using assms(1) by (simp_all add: pool_inv_def)
  have "map_inv ?t" "accounted ?t"
    using inv(1,3) by (simp_all add: map_inv_def accounted_def end_spawn_def upd_spawn_def releasePendingLocked_def mapped_def)
  moreover have "tenantCountLocked t ?t \<le> tenantCountLocked t s" for t
    by (simp add: tenantCountLocked_def end_spawn_def upd_spawn_def releasePendingLocked_def mapped_def)
  then have "under_cap ?t" using inv(4)
    by (simp add: under_cap_def end_spawn_def upd_spawn_def releasePendingLocked_def) (meson of_nat_mono order_trans)
  moreover have "spawn_inv ?t"
  proof -
    let ?sp = "(p_spawns s ! j)\<lparr>sp_phase := Ended r\<rparr>"
    have pend: "p_pending ?t t = length (filter (\<lambda>sp. in_progress sp \<and> k_Tenant (sp_key sp) = t) (p_spawns ?t))" for t
      using filter_update_length [OF assms(2), of "\<lambda>sp. in_progress sp \<and> k_Tenant (sp_key sp) = t" ?sp]
        pending_eq [OF inv(2), of t] assms(3)
      by (auto simp: end_spawn_def upd_spawn_def releasePendingLocked_def split: if_splits)
    have un: "unsignalled (p_spawns s ! j)" using assms(3) by (auto simp: in_progress_def)
    then show ?thesis
      using inv(2) assms(2,4) pend
      by (auto simp: spawn_inv_def end_spawn_def upd_spawn_def releasePendingLocked_def nth_list_update spawn_result_def
          split: if_splits)
  qed
  ultimately show ?thesis by (simp add: pool_inv_def)
qed

lemma factory_done_inv:
  assumes "pool_inv s" "j < length (p_spawns s)" "sp_phase (p_spawns s ! j) = Resolving"
  shows "pool_inv (factory_done now ok j s)"
proof (cases ok)
  case False
  with end_spawn_inv [OF assms(1,2), of "Inl FactoryFailed"] assms(3) show ?thesis by (simp add: factory_done_def)
next
  case True
  have inv: "map_inv s" "spawn_inv s" "accounted s" "under_cap s" using assms(1) by (simp_all add: pool_inv_def)
  let ?sp = "(p_spawns s ! j)\<lparr>sp_built := Some now, sp_phase := Connecting\<rparr>"
  have pend: "p_pending s t = length (filter (\<lambda>sp. in_progress sp \<and> k_Tenant (sp_key sp) = t) ((p_spawns s)[j := ?sp]))" for t
    using filter_update_length [OF assms(2), of "\<lambda>sp. in_progress sp \<and> k_Tenant (sp_key sp) = t" ?sp]
      pending_eq [OF inv(2), of t] assms(3) by (simp split: if_splits)
  have "spawn_inv (upd_spawn j (\<lambda>sp. sp\<lparr>sp_built := Some now, sp_phase := Connecting\<rparr>) s)"
    using inv(2) assms(2,3) pend
    by (auto simp: spawn_inv_def upd_spawn_def nth_list_update spawn_result_def split: if_splits)
  with True inv show ?thesis
    by (simp add: factory_done_def pool_inv_def map_inv_def accounted_def under_cap_def upd_spawn_def mapped_def tenantCountLocked_def)
qed

lemma spawn_inv_unsignalled:
  "spawn_inv s \<Longrightarrow> i < length (p_spawns s) \<Longrightarrow> unsignalled (p_spawns s ! i) \<Longrightarrow> p_spawning s (sp_key (p_spawns s ! i)) = Some i"
  by (simp add: spawn_inv_def)

lemma spawn_inv_result:
  "spawn_inv s \<Longrightarrow> i < length (p_spawns s) \<Longrightarrow> spawn_result (p_spawns s ! i) = Some (Inr x) \<Longrightarrow>
    x < length (p_ents s) \<and> e_key (p_ents s ! x) = sp_key (p_spawns s ! i)"
  by (simp add: spawn_inv_def)

lemma progress_alone:
  assumes "spawn_inv s" "j < length (p_spawns s)" "in_progress (p_spawns s ! j)"
  shows "p_entries s (sp_key (p_spawns s ! j)) = None" "0 < p_pending s (k_Tenant (sp_key (p_spawns s ! j)))"
    "\<And>i. i < length (p_spawns s) \<Longrightarrow> unsignalled (p_spawns s ! i) \<Longrightarrow> sp_key (p_spawns s ! i) = sp_key (p_spawns s ! j) \<Longrightarrow> i = j"
proof -
  show "p_entries s (sp_key (p_spawns s ! j)) = None" using assms by (simp add: spawn_inv_def)
  have "p_spawns s ! j \<in> set (filter (\<lambda>sp. in_progress sp \<and> k_Tenant (sp_key sp) = k_Tenant (sp_key (p_spawns s ! j))) (p_spawns s))"
    using assms(2,3) by simp
  then have "filter (\<lambda>sp. in_progress sp \<and> k_Tenant (sp_key sp) = k_Tenant (sp_key (p_spawns s ! j))) (p_spawns s) \<noteq> []"
    using assms(2,3) by (auto simp: filter_empty_conv intro!: bexI [of _ "p_spawns s ! j"])
  then show "0 < p_pending s (k_Tenant (sp_key (p_spawns s ! j)))" by (simp add: pending_eq [OF assms(1)])
  have un: "unsignalled (p_spawns s ! j)" using assms(3) by (auto simp: in_progress_def)
  show "i = j" if "i < length (p_spawns s)" "unsignalled (p_spawns s ! i)" "sp_key (p_spawns s ! i) = sp_key (p_spawns s ! j)" for i
  proof -
    have "p_spawning s (sp_key (p_spawns s ! j)) = Some i"
      using spawn_inv_unsignalled [OF assms(1) that(1,2)] unfolding that(3) .
    with spawn_inv_unsignalled [OF assms(1,2) un] show ?thesis by simp
  qed
qed

definition install :: "nat \<Rightarrow> entry \<Rightarrow> pool \<Rightarrow> pool" where
  "install j e s =
     end_spawn j (Inr (length (p_ents s)))
       ((releasePendingLocked (k_Tenant (e_key e)) s)
          \<lparr>p_ents := p_ents s @ [e], p_entries := (p_entries s)(e_key e \<mapsto> length (p_ents s))\<rparr>)"

lemma install_inv:
  assumes "pool_inv s" "j < length (p_spawns s)" "in_progress (p_spawns s ! j)"
    and "e_key e = sp_key (p_spawns s ! j)" "\<not> p_closed s"
  shows "pool_inv (install j e s)" (is "pool_inv ?t")
proof -
  have inv: "map_inv s" "spawn_inv s" "accounted s" "under_cap s" using assms(1) by (simp_all add: pool_inv_def)
  note alone = progress_alone [OF inv(2) assms(2,3), folded assms(4)]
  let ?n = "length (p_ents s)"
  have t: "p_ents ?t = p_ents s @ [e]" "p_entries ?t = (p_entries s)(e_key e \<mapsto> ?n)" "p_orphans ?t = p_orphans s"
    "p_spawning ?t = p_spawning s" "p_closed ?t = p_closed s" "p_cfg ?t = p_cfg s"
    "p_pending ?t = (p_pending s)(k_Tenant (e_key e) := p_pending s (k_Tenant (e_key e)) - 1)"
    "p_spawns ?t = (p_spawns s)[j := (p_spawns s ! j)\<lparr>sp_phase := Ended (Inr ?n)\<rparr>]"
    by (simp_all add: install_def end_spawn_def upd_spawn_def releasePendingLocked_def)
  have mp: "mapped ?t i \<longleftrightarrow> mapped s i" if "i < ?n" for i
    using that alone(1) by (auto simp: mapped_def t nth_append)
  have mn: "mapped ?t ?n" by (simp add: mapped_def t)
  have "map_inv ?t"
    using inv(1) assms(5) mp by (auto simp: map_inv_def t nth_append less_Suc_eq)
  moreover have "accounted ?t"
    using inv(3) mp mn by (auto simp: accounted_def t nth_append less_Suc_eq)
  moreover have "under_cap ?t"
  proof -
    have "tenantCountLocked x ?t \<le> tenantCountLocked x s" for x
    proof -
      have "filter (\<lambda>i. mapped ?t i \<and> live_of x (p_ents ?t ! i)) [0..<?n] = filter (\<lambda>i. mapped s i \<and> live_of x (p_ents s ! i)) [0..<?n]"
        using mp by (intro filter_cong) (auto simp: t nth_append)
      moreover have "filter (\<lambda>i. live_of x (p_ents ?t ! i)) (p_orphans s) = filter (\<lambda>i. live_of x (p_ents s ! i)) (p_orphans s)"
        using inv(1) by (intro filter_cong) (auto simp: t nth_append map_inv_def)
      moreover have "\<not> live_of x (p_ents ?t ! ?n)" if "k_Tenant (e_key e) \<noteq> x" using that by (simp add: live_of_def t)
      moreover have "length (p_ents ?t) = Suc ?n" by (simp add: t)
      moreover have "p_pending ?t x = p_pending s x - (if k_Tenant (e_key e) = x then 1 else 0)" by (simp add: t)
      ultimately show ?thesis
        using alone(2) mn by (cases "k_Tenant (e_key e) = x") (simp_all add: tenantCountLocked_def t(3))
    qed
    then show ?thesis using inv(4) by (simp add: under_cap_def t) (meson of_nat_mono order_trans)
  qed
  moreover have "spawn_inv ?t"
  proof -
    let ?sp = "(p_spawns s ! j)\<lparr>sp_phase := Ended (Inr ?n)\<rparr>"
    have pend: "p_pending ?t x = length (filter (\<lambda>sp. in_progress sp \<and> k_Tenant (sp_key sp) = x) (p_spawns ?t))" for x
      using filter_update_length [OF assms(2), of "\<lambda>sp. in_progress sp \<and> k_Tenant (sp_key sp) = x" ?sp]
        pending_eq [OF inv(2), of x] assms(3,4)
      by (auto simp: t split: if_splits)
    have un: "unsignalled (p_spawns s ! j)" using assms(3) by (auto simp: in_progress_def)
    have other: "sp_key (p_spawns s ! i) \<noteq> e_key e" if "i < length (p_spawns s)" "i \<noteq> j" "in_progress (p_spawns s ! i)" for i
      using alone(3) [OF that(1)] that(2,3) by (auto simp: in_progress_def)
    have "\<forall>k i. p_spawning ?t k = Some i \<longrightarrow> i < length (p_spawns ?t) \<and> sp_key (p_spawns ?t ! i) = k \<and> unsignalled (p_spawns ?t ! i)"
      using inv(2) by (auto simp: spawn_inv_def t nth_update)
    moreover have "\<forall>i<length (p_spawns ?t). unsignalled (p_spawns ?t ! i) \<longrightarrow> p_spawning ?t (sp_key (p_spawns ?t ! i)) = Some i"
      using inv(2) un assms(2) by (auto simp: spawn_inv_def t nth_update)
    moreover have "\<forall>i<length (p_spawns ?t). in_progress (p_spawns ?t ! i) \<longrightarrow> p_entries ?t (sp_key (p_spawns ?t ! i)) = None"
      using inv(2) other by (auto simp: spawn_inv_def t nth_update)
    moreover have "\<forall>i<length (p_spawns ?t). \<forall>x. spawn_result (p_spawns ?t ! i) = Some (Inr x) \<longrightarrow>
        x < length (p_ents ?t) \<and> e_key (p_ents ?t ! x) = sp_key (p_spawns ?t ! i)"
    proof (intro allI impI)
      fix i x
      assume i: "i < length (p_spawns ?t)" and r: "spawn_result (p_spawns ?t ! i) = Some (Inr x)"
      show "x < length (p_ents ?t) \<and> e_key (p_ents ?t ! x) = sp_key (p_spawns ?t ! i)"
      proof (cases "i = j")
        case True
        with r have "x = ?n" using assms(2) by (simp add: t spawn_result_def)
        with True assms(2,4) show ?thesis by (simp add: t)
      next
        case False
        with spawn_inv_result [OF inv(2), of i x] i r show ?thesis by (simp add: t nth_append)
      qed
    qed
    ultimately show ?thesis unfolding spawn_inv_def using pend by blast
  qed
  ultimately show ?thesis by (simp add: pool_inv_def)
qed

lemma connect_done_install:
  assumes "spawn_inv s" "j < length (p_spawns s)" "in_progress (p_spawns s ! j)" "ok" "\<not> p_closed s" "\<not> sp_stale (p_spawns s ! j)"
  shows "\<exists>e b c. connect_done now ok expires j s = (install j e s)\<lparr>p_broken := b, p_conns := c\<rparr> \<and> e_key e = sp_key (p_spawns s ! j)"
proof -
  let ?key = "sp_key (p_spawns s ! j)"
  let ?e = "new_entry (p_cfg s) ?key now (sp_built (p_spawns s ! j)) expires"
  have "e_key ?e = ?key" by (simp add: new_entry_def)
  moreover have "connect_done now ok expires j s =
      (install j ?e s)\<lparr>p_broken := (p_broken s)(?key := None), p_conns := p_conns s @ [HeldBy (length (p_ents s))]\<rparr>"
    using progress_alone(1) [OF assms(1-3)] assms(4-6)
    by (simp add: connect_done_def Let_def install_def end_spawn_def upd_spawn_def releasePendingLocked_def new_entry_def
        conn_defs)
  ultimately show ?thesis by blast
qed

lemma connect_done_inv:
  assumes "pool_inv s" "j < length (p_spawns s)" "sp_phase (p_spawns s ! j) = Connecting"
  shows "pool_inv (connect_done now ok expires j s)"
proof -
  have p: "in_progress (p_spawns s ! j)" using assms(3) by simp
  have si: "spawn_inv s" using assms(1) by (simp add: pool_inv_def)
  consider (failed) "\<not> ok" | (unwanted) "ok" "p_closed s \<or> sp_stale (p_spawns s ! j)" | (installed) "ok" "\<not> p_closed s" "\<not> sp_stale (p_spawns s ! j)"
    by blast
  then show ?thesis
  proof cases
    case failed
    have "pool_inv (recordFailure now (sp_key (p_spawns s ! j)) s)" using assms(1) by (simp add: recordFailure_def Let_def inv_broken)
    from end_spawn_inv [OF this, of j "Inl ConnectFailed"] failed assms(2) p show ?thesis
      by (simp add: connect_done_def Let_def recordFailure_def)
  next
    case unwanted
    let ?e = "if p_closed s then PoolClosed else EntryRetired"
    have "connect_done now ok expires j s = (end_spawn j (Inl ?e) (releasePendingLocked (k_Tenant (sp_key (p_spawns s ! j))) s))
        \<lparr>p_conns := p_conns s @ [ConnClosed]\<rparr>"
      using unwanted by (auto simp: connect_done_def Let_def conn_defs end_spawn_def upd_spawn_def releasePendingLocked_def)
    with end_spawn_inv [OF assms(1,2) p, of "Inl ?e"] show ?thesis by (simp add: inv_conns)
  next
    case installed
    from connect_done_install [OF si assms(2) p installed] obtain e b c where
      "connect_done now ok expires j s = (install j e s)\<lparr>p_broken := b, p_conns := c\<rparr>" "e_key e = sp_key (p_spawns s ! j)" by blast
    with install_inv [OF assms(1,2) p] installed(2) show ?thesis by (simp add: inv_broken inv_conns)
  qed
qed

lemma spawn_signals_inv:
  assumes "pool_inv s" "j < length (p_spawns s)" "sp_phase (p_spawns s ! j) = Ended r"
  shows "pool_inv (spawn_signals j r s)" (is "pool_inv ?t")
proof -
  have inv: "map_inv s" "spawn_inv s" "accounted s" "under_cap s" using assms(1) by (simp_all add: pool_inv_def)
  let ?sp = "(p_spawns s ! j)\<lparr>sp_phase := Signalled r\<rparr>"
  let ?key = "sp_key (p_spawns s ! j)"
  have sj: "p_spawning s ?key = Some j" using inv(2) assms(2,3) by (simp add: spawn_inv_def)
  have t: "?t = s\<lparr>p_spawning := (p_spawning s)(?key := None), p_spawns := (p_spawns s)[j := ?sp]\<rparr>"
    using sj by (simp add: spawn_signals_def Let_def upd_spawn_def)
  have pend: "p_pending s x = length (filter (\<lambda>sp. in_progress sp \<and> k_Tenant (sp_key sp) = x) ((p_spawns s)[j := ?sp]))" for x
    using filter_update_length [OF assms(2), of "\<lambda>sp. in_progress sp \<and> k_Tenant (sp_key sp) = x" ?sp]
      pending_eq [OF inv(2), of x] assms(3) by (simp split: if_splits)
  have other: "sp_key (p_spawns s ! i) \<noteq> ?key" if "i < length (p_spawns s)" "i \<noteq> j" "unsignalled (p_spawns s ! i)" for i
  proof
    assume k: "sp_key (p_spawns s ! i) = ?key"
    have "p_spawning s (sp_key (p_spawns s ! i)) = Some i" using inv(2) that by (simp add: spawn_inv_def)
    with k sj that(2) show False by simp
  qed
  have sps: "p_spawns ?t = (p_spawns s)[j := ?sp]" "p_spawning ?t = (p_spawning s)(?key := None)" "p_ents ?t = p_ents s"
    "p_entries ?t = p_entries s" "p_pending ?t = p_pending s"
    by (simp_all add: t)
  have "\<forall>k i. p_spawning ?t k = Some i \<longrightarrow> i < length (p_spawns ?t) \<and> sp_key (p_spawns ?t ! i) = k \<and> unsignalled (p_spawns ?t ! i)"
  proof (intro allI impI)
    fix k i
    assume "p_spawning ?t k = Some i"
    then have k: "k \<noteq> ?key" "p_spawning s k = Some i" by (simp_all add: sps split: if_splits)
    have "i < length (p_spawns s)" "sp_key (p_spawns s ! i) = k" "unsignalled (p_spawns s ! i)"
      using inv(2) k(2) by (simp_all add: spawn_inv_def)
    with k(1) show "i < length (p_spawns ?t) \<and> sp_key (p_spawns ?t ! i) = k \<and> unsignalled (p_spawns ?t ! i)"
      by (cases "i = j") (simp_all add: sps)
  qed
  moreover have "\<forall>i<length (p_spawns ?t). unsignalled (p_spawns ?t ! i) \<longrightarrow> p_spawning ?t (sp_key (p_spawns ?t ! i)) = Some i"
    using spawn_inv_unsignalled [OF inv(2)] other by (auto simp: sps nth_update)
  moreover have "\<forall>i<length (p_spawns ?t). in_progress (p_spawns ?t ! i) \<longrightarrow> p_entries ?t (sp_key (p_spawns ?t ! i)) = None"
    using inv(2) by (auto simp: spawn_inv_def sps nth_update)
  moreover have "\<forall>i<length (p_spawns ?t). \<forall>x. spawn_result (p_spawns ?t ! i) = Some (Inr x) \<longrightarrow>
      x < length (p_ents ?t) \<and> e_key (p_ents ?t ! x) = sp_key (p_spawns ?t ! i)"
  proof (intro allI impI)
    fix i x
    assume i: "i < length (p_spawns ?t)" and r: "spawn_result (p_spawns ?t ! i) = Some (Inr x)"
    have "spawn_result (p_spawns s ! i) = Some (Inr x)"
      using r assms(2,3) by (cases "i = j") (simp_all add: sps spawn_result_def)
    with spawn_inv_result [OF inv(2)] i show "x < length (p_ents ?t) \<and> e_key (p_ents ?t ! x) = sp_key (p_spawns ?t ! i)"
      using assms(2) by (cases "i = j") (simp_all add: sps)
  qed
  ultimately have "spawn_inv ?t" unfolding spawn_inv_def using pend by (simp add: sps)
  with inv t show ?thesis
    by (simp add: pool_inv_def map_inv_def accounted_def under_cap_def mapped_def tenantCountLocked_def)
qed

lemma reap_inv: "pool_inv s \<Longrightarrow> pool_inv (reap now s)"
  unfolding reap_def Let_def by (rule close_inv) auto

lemma inv_stale:
  assumes "pool_inv s" "length sps = length (p_spawns s)"
    "\<And>j. j < length (p_spawns s) \<Longrightarrow> sp_key (sps ! j) = sp_key (p_spawns s ! j) \<and> sp_phase (sps ! j) = sp_phase (p_spawns s ! j)"
  shows "pool_inv (s\<lparr>p_spawns := sps\<rparr>)"
proof -
  have pr: "in_progress (sps ! j) = in_progress (p_spawns s ! j)" "unsignalled (sps ! j) = unsignalled (p_spawns s ! j)"
    "spawn_result (sps ! j) = spawn_result (p_spawns s ! j)" if "j < length (p_spawns s)" for j
    using assms(3) [OF that] by (simp_all add: in_progress_def unsignalled_def spawn_result_def)
  have "map (\<lambda>sp. (in_progress sp, sp_key sp)) sps = map (\<lambda>sp. (in_progress sp, sp_key sp)) (p_spawns s)"
    using assms(2,3) pr by (intro nth_equalityI) auto
  then have "length (filter (\<lambda>x. fst x \<and> k_Tenant (snd x) = t) (map (\<lambda>sp. (in_progress sp, sp_key sp)) sps)) =
      length (filter (\<lambda>x. fst x \<and> k_Tenant (snd x) = t) (map (\<lambda>sp. (in_progress sp, sp_key sp)) (p_spawns s)))" for t
    by simp
  then have "length (filter (\<lambda>sp. in_progress sp \<and> k_Tenant (sp_key sp) = t) sps) =
      length (filter (\<lambda>sp. in_progress sp \<and> k_Tenant (sp_key sp) = t) (p_spawns s))" for t
    by (simp add: filter_map comp_def)
  moreover have "spawn_inv s" using assms(1) by (simp add: pool_inv_def)
  ultimately have "spawn_inv (s\<lparr>p_spawns := sps\<rparr>)"
    using assms(2,3) pr by (simp add: spawn_inv_def)
  then show ?thesis
    using assms(1) by (simp add: pool_inv_def map_inv_def accounted_def under_cap_def mapped_def tenantCountLocked_def)
qed

lemma evictServer_inv:
  assumes "pool_inv s"
  shows "pool_inv (evictServer server since s)"
proof -
  let ?hit = "\<lambda>e. k_Server (e_key e) = server \<and> definedAfter since e"
  let ?vs = "filter (\<lambda>i. mapped s i \<and> ?hit (p_ents s ! i)) [0..<length (p_ents s)] @ filter (\<lambda>i. ?hit (p_ents s ! i)) (p_orphans s)"
  let ?t = "(close_all ?vs s)\<lparr>p_orphans := filter (\<lambda>i. \<not> ?hit (p_ents s ! i)) (p_orphans s)\<rparr>"
  have "pool_inv ?t" by (rule close_inv [OF assms]) auto
  then have t: "pool_inv (?t\<lparr>p_broken := b\<rparr>)" for b by (simp add: inv_broken)
  let ?sps = "map (\<lambda>j. let sp = p_spawns s ! j in
      if p_spawning s (sp_key sp) = Some j \<and> k_Server (sp_key sp) = server \<and>
         (case sp_built sp of None \<Rightarrow> True | Some b \<Rightarrow> (case since of None \<Rightarrow> True | Some t \<Rightarrow> t < b))
      then sp\<lparr>sp_stale := True\<rparr> else sp) [0..<length (p_spawns s)]"
  have "evictServer server since s = (?t\<lparr>p_broken := \<lambda>k. if k_Server k = server then None else p_broken s k\<rparr>)\<lparr>p_spawns := ?sps\<rparr>"
    by (simp add: evictServer_def Let_def)
  moreover have "pool_inv \<dots>" by (rule inv_stale [OF t]) (simp_all add: Let_def)
  ultimately show ?thesis by simp
qed

lemma inv_closed:
  assumes "pool_inv s" "p_entries s = Map.empty" "p_orphans s = []"
  shows "pool_inv (s\<lparr>p_closed := True\<rparr>)"
proof -
  have "map_inv (s\<lparr>p_closed := True\<rparr>)" using assms(2,3) by (simp add: map_inv_def)
  moreover have "spawn_inv (s\<lparr>p_closed := True\<rparr>) = spawn_inv s" by (simp add: spawn_inv_def)
  moreover have "accounted (s\<lparr>p_closed := True\<rparr>) = accounted s" by (simp add: accounted_def mapped_def)
  moreover have "under_cap (s\<lparr>p_closed := True\<rparr>) = under_cap s"
    by (simp add: under_cap_def tenantCountLocked_def mapped_def)
  ultimately show ?thesis using assms(1) by (simp add: pool_inv_def)
qed

lemma Shutdown_inv:
  assumes "pool_inv s"
  shows "pool_inv (Shutdown s)"
proof -
  let ?vs = "filter (mapped s) [0..<length (p_ents s)] @ p_orphans s"
  have c: "pool_inv ((close_all ?vs s)\<lparr>p_orphans := filter (\<lambda>_. False) (p_orphans s)\<rparr>)"
    by (rule close_inv [OF assms]) auto
  have mi: "map_inv s" using assms by (simp add: pool_inv_def)
  have "p_entries (close_all ?vs s) k = None" for k
  proof (rule ccontr)
    assume "p_entries (close_all ?vs s) k \<noteq> None"
    then obtain i where i: "p_entries s k = Some i" "i \<notin> set ?vs" by (auto simp: close_all_entries)
    with mi have "i < length (p_ents s)" "mapped s i" by (auto simp: map_inv_def mapped_def)
    with i(2) show False by simp
  qed
  then have e: "p_entries (close_all ?vs s) = Map.empty" by auto
  let ?t = "(close_all ?vs s)\<lparr>p_orphans := []\<rparr>"
  have "pool_inv ?t" using c by simp
  moreover have "p_entries ?t = Map.empty" "p_orphans ?t = []" using e by simp_all
  ultimately have "pool_inv (?t\<lparr>p_closed := True\<rparr>)" by (rule inv_closed)
  moreover have "Shutdown s = ?t\<lparr>p_closed := True\<rparr>" by (simp add: Shutdown_def)
  ultimately show ?thesis by simp
qed

lemma pool_step_inv:
  assumes "pool_step s s'" "pool_inv s"
  shows "pool_inv s'"
  using assms(1)
proof (cases rule: pool_step.cases)
  case (lookup now key)
  then show ?thesis using get_lookup_inv [OF assms(2)] by simp
next
  case (joined j r now)
  then show ?thesis using assms(2) queue_on_inv by (auto simp: get_joined_def split: sum.splits)
next
  case (slot i)
  then show ?thesis using assms(2) by (auto simp: get_slot_def gentle_def split: if_splits intro!: upd_ent_inv)
next
  case (left i)
  then show ?thesis using assms(2) by (auto simp: get_left_def gentle_def intro!: upd_ent_inv)
next
  case (granted i now key)
  then show ?thesis using assms(2) by (auto simp: get_granted_def Let_def gentle_def intro!: upd_ent_inv)
next
  case (released i now)
  then show ?thesis using assms(2) by (auto simp: release_def gentle_def intro!: upd_ent_inv)
next
  case (dies i)
  then show ?thesis using assms(2) by (auto simp: mux_dies_def gentle_def intro!: upd_ent_inv)
qed (use assms(2) in \<open>auto intro: factory_done_inv connect_done_inv spawn_signals_inv reap_inv evictServer_inv Shutdown_inv\<close>)

lemma NewPool_inv: "pool_inv (NewPool cfg)"
  by (simp add: pool_inv_def map_inv_def spawn_inv_def accounted_def under_cap_def NewPool_def tenantCountLocked_def Filled_def)

lemma pool_reach_inv: "pool_reach cfg s \<Longrightarrow> pool_inv s"
proof (induction rule: pool_reach.induct)
  case start
  show ?case by (rule NewPool_inv)
next
  case (more s s')
  then show ?case using pool_step_inv by blast
qed

end
