(* ===== verification/PoolSafety.thy ===== *)
theory PoolSafety
  imports PoolInv
begin

text \<open>
  What the pool promises its callers: the tenant cap in every interleaving, backends that belong to
  the key that asked, live work that only an eviction or a shutdown ends, and nothing left running
  after a shutdown.
\<close>

section \<open>The tenant cap\<close>

definition open_live :: "bytes \<Rightarrow> entry \<Rightarrow> bool" where
  "open_live t e \<longleftrightarrow> live_of t e \<and> \<not> e_closed e"

definition starting :: "bytes \<Rightarrow> spawn \<Rightarrow> bool" where
  "starting t sp \<longleftrightarrow> in_progress sp \<and> k_Tenant (sp_key sp) = t"

lemma open_live_counted:
  assumes "accounted s"
  shows "length (filter (open_live t) (p_ents s)) \<le>
    length (filter (\<lambda>i. mapped s i \<and> live_of t (p_ents s ! i)) [0..<length (p_ents s)]) +
    length (filter (\<lambda>i. live_of t (p_ents s ! i)) (p_orphans s))"
proof -
  let ?n = "length (p_ents s)"
  let ?A = "{i. i < ?n \<and> open_live t (p_ents s ! i)}"
  let ?ms = "filter (\<lambda>i. mapped s i \<and> live_of t (p_ents s ! i)) [0..<?n]"
  let ?os = "filter (\<lambda>i. live_of t (p_ents s ! i)) (p_orphans s)"
  have "?A \<subseteq> set ?ms \<union> set ?os"
    using assms by (auto simp: accounted_def open_live_def live_of_def)
  then have "card ?A \<le> card (set ?ms \<union> set ?os)" by (intro card_mono) auto
  also have "\<dots> \<le> card (set ?ms) + card (set ?os)" by (rule card_Un_le)
  also have "\<dots> \<le> length ?ms + length ?os" by (intro add_mono card_length)
  finally show ?thesis by (simp add: length_filter_conv_card)
qed

lemma cfg_simps [simp]:
  "p_cfg (drop_stale now key s) = p_cfg s" "p_cfg (retireSupersededLocked key s) = p_cfg s" "p_cfg (start_spawn key s) = p_cfg s"
  "p_cfg (queue_on now i s) = p_cfg s" "p_cfg (get_left i s) = p_cfg s" "p_cfg (release now i s) = p_cfg s"
  "p_cfg (releasePendingLocked t s) = p_cfg s" "p_cfg (end_spawn j r s) = p_cfg s" "p_cfg (upd_spawn j f s) = p_cfg s"
  "p_cfg (recordFailure now key s) = p_cfg s" "p_cfg (spawn_signals j r s) = p_cfg s" "p_cfg (reap now s) = p_cfg s"
  "p_cfg (evictServer server since s) = p_cfg s" "p_cfg (Shutdown s) = p_cfg s" "p_cfg (mux_dies i s) = p_cfg s"
  by (simp_all add: drop_stale_def retireSupersededLocked_def start_spawn_def queue_on_def get_left_def release_def
      releasePendingLocked_def end_spawn_def upd_spawn_def recordFailure_def spawn_signals_def reap_def evictServer_def
      Shutdown_def mux_dies_def Let_def split: option.split)

lemma cfg_get_lookup [simp]: "p_cfg (snd (get_lookup now key s)) = p_cfg s"
  by (simp add: get_lookup_def Let_def split: option.split)

lemma cfg_get_joined [simp]: "p_cfg (snd (get_joined now key r s)) = p_cfg s"
  by (simp add: get_joined_def split: sum.split)

lemma cfg_get_granted [simp]: "p_cfg (snd (get_granted now key i s)) = p_cfg s"
  by (simp add: get_granted_def Let_def)

lemma cfg_get_slot: "get_slot i s = Some s' \<Longrightarrow> p_cfg s' = p_cfg s"
  by (auto simp: get_slot_def split: if_splits)

lemma cfg_factory_done [simp]: "p_cfg (factory_done now ok j s) = p_cfg s"
  by (simp add: factory_done_def)

lemma cfg_connect_done [simp]: "p_cfg (connect_done now ok expires j s) = p_cfg s"
  by (simp add: connect_done_def Let_def conn_defs split: option.split)

lemma p_cfg_step: "pool_step s s' \<Longrightarrow> p_cfg s' = p_cfg s"
  by (erule pool_step.cases) (simp_all add: cfg_get_slot)

lemma p_cfg_reach: "pool_reach cfg s \<Longrightarrow> p_cfg s = Filled cfg"
  by (induction rule: pool_reach.induct) (simp_all add: NewPool_def p_cfg_step)

text \<open>
  C31. Whatever requests, deaths, reaps, evictions and shutdowns interleave, the backends of a tenant
  that are alive and not closed, together with the ones still starting, never outnumber the tenant's
  cap.
\<close>

theorem tenant_cap:
  assumes "pool_reach cfg s"
  shows "int (length (filter (open_live t) (p_ents s)) + length (filter (starting t) (p_spawns s))) \<le> MaxProcsPerTenant (Filled cfg)"
proof -
  have inv: "pool_inv s" by (rule pool_reach_inv [OF assms])
  then have "length (filter (starting t) (p_spawns s)) = p_pending s t"
    by (simp add: pool_inv_def pending_eq starting_def [abs_def])
  with open_live_counted [of s t] inv
  have "length (filter (open_live t) (p_ents s)) + length (filter (starting t) (p_spawns s)) \<le> tenantCountLocked t s"
    by (simp add: pool_inv_def tenantCountLocked_def)
  also have "int \<dots> \<le> MaxProcsPerTenant (Filled cfg)"
    using inv p_cfg_reach [OF assms] by (simp add: pool_inv_def under_cap_def)
  finally show ?thesis by simp
qed


section \<open>A closed connection is out of reach\<close>

definition unclosed :: "pool \<Rightarrow> bool" where
  "unclosed s \<longleftrightarrow> (\<forall>i<length (p_ents s). e_closed (p_ents s ! i) \<longrightarrow> \<not> mapped s i \<and> i \<notin> set (p_orphans s))"

lemma unclosed_same:
  "unclosed s \<Longrightarrow> p_ents s' = p_ents s \<Longrightarrow> p_entries s' = p_entries s \<Longrightarrow> p_orphans s' = p_orphans s \<Longrightarrow> unclosed s'"
  by (simp add: unclosed_def mapped_def)

lemma unclosed_upd_ent: "unclosed s \<Longrightarrow> gentle f \<Longrightarrow> unclosed (upd_ent i f s)"
  by (auto simp: unclosed_def upd_ent_mapped upd_ent_nth gentle_def split: if_splits)

lemma unclosed_close:
  assumes "unclosed s" "\<And>i. i \<in> set os \<Longrightarrow> i \<in> set (p_orphans s) \<and> i \<notin> set vs"
  shows "unclosed ((close_all vs s)\<lparr>p_orphans := os\<rparr>)" (is "unclosed ?t")
  unfolding unclosed_def
proof (intro allI impI)
  fix i
  assume i: "i < length (p_ents ?t)" "e_closed (p_ents ?t ! i)"
  have mp: "mapped ?t i \<longleftrightarrow> mapped s i \<and> i \<notin> set vs" using i(1) close_all_mapped [of i s vs] by (simp add: mapped_def)
  show "\<not> mapped ?t i \<and> i \<notin> set (p_orphans ?t)"
  proof (cases "i \<in> set vs")
    case True
    with mp assms(2) show ?thesis by auto
  next
    case False
    with i have "e_closed (p_ents s ! i)" "i < length (p_ents s)" by (simp_all add: close_all_nth)
    with assms(1) mp assms(2) show ?thesis by (auto simp: unclosed_def)
  qed
qed

lemma unclosed_close_all:
  "unclosed s \<Longrightarrow> (\<And>i. i \<in> set vs \<Longrightarrow> i \<notin> set (p_orphans s)) \<Longrightarrow> unclosed (close_all vs s)"
  using unclosed_close [of s "p_orphans s" vs] by (auto simp: close_all_def)

lemma map_inv_disjoint: "map_inv s \<Longrightarrow> mapped s i \<Longrightarrow> i \<notin> set (p_orphans s)"
  by (auto simp: map_inv_def)

lemma map_inv_entry: "map_inv s \<Longrightarrow> p_entries s key = Some i \<Longrightarrow> i < length (p_ents s) \<and> e_key (p_ents s ! i) = key \<and> mapped s i"
  by (auto simp: map_inv_def mapped_def)

lemma unclosed_drop_stale:
  assumes "map_inv s" "unclosed s"
  shows "unclosed (drop_stale now key s)"
proof (cases "p_entries s key")
  case (Some i)
  note i = map_inv_entry [OF assms(1) Some]
  have nc: "\<not> e_closed (p_ents s ! i)" using assms(2) i by (auto simp: unclosed_def)
  have "unclosed (close_all [i] s)" by (rule unclosed_close_all [OF assms(2)]) (use i map_inv_disjoint [OF assms(1)] in auto)
  moreover have "unclosed (s\<lparr>p_orphans := p_orphans s @ [i], p_entries := (p_entries s)(key := None)\<rparr>)"
    using assms(2) nc by (auto simp: unclosed_def mapped_def)
  ultimately show ?thesis using Some assms(2) by (simp add: drop_stale_def Let_def)
qed (simp add: drop_stale_def assms(2))

lemma unclosed_retire: "map_inv s \<Longrightarrow> unclosed s \<Longrightarrow> unclosed (retireSupersededLocked key s)"
  unfolding retireSupersededLocked_def by (rule unclosed_close_all) (auto dest: map_inv_disjoint)

lemma unclosed_get_lookup:
  assumes "pool_inv s" "unclosed s"
  shows "unclosed (snd (get_lookup now key s))"
proof -
  have s1: "map_inv (drop_stale now key s)" "unclosed (drop_stale now key s)"
    using drop_stale_inv [OF assms(1)] unclosed_drop_stale assms by (simp_all add: pool_inv_def)
  have s2: "unclosed (retireSupersededLocked key (drop_stale now key s))" by (rule unclosed_retire [OF s1])
  have s3: "unclosed (start_spawn key (retireSupersededLocked key (drop_stale now key s)))"
    by (rule unclosed_same [OF s2]) (simp_all add: start_spawn_def)
  have s4: "unclosed (queue_on now i (drop_stale now key s))" for i
    unfolding queue_on_def by (rule unclosed_upd_ent [OF s1(2)]) (simp add: gentle_def)
  from assms(2) s1 s2 s3 s4 show ?thesis by (simp add: get_lookup_def Let_def split: option.split)
qed

lemma unclosed_connect_done:
  assumes "pool_inv s" "unclosed s" "j < length (p_spawns s)" "sp_phase (p_spawns s ! j) = Connecting"
  shows "unclosed (connect_done now ok expires j s)"
proof -
  have p: "in_progress (p_spawns s ! j)" using assms(4) by simp
  have si: "spawn_inv s" "map_inv s" using assms(1) by (simp_all add: pool_inv_def)
  show ?thesis
  proof (cases "ok \<and> \<not> p_closed s \<and> \<not> sp_stale (p_spawns s ! j)")
    case True
    let ?n = "length (p_ents s)"
    note none = progress_alone(1) [OF si(1) assms(3) p]
    let ?e = "new_entry (p_cfg s) (sp_key (p_spawns s ! j)) now (sp_built (p_spawns s ! j)) expires"
    let ?t = "connect_done now ok expires j s"
    have t: "p_ents ?t = p_ents s @ [?e]" "p_entries ?t = (p_entries s)(sp_key (p_spawns s ! j) \<mapsto> ?n)" "p_orphans ?t = p_orphans s"
      using True none by (simp_all add: connect_done_def Let_def conn_defs new_entry_def end_spawn_def upd_spawn_def releasePendingLocked_def)
    show ?thesis
      unfolding unclosed_def
    proof (intro allI impI)
      fix i
      assume i: "i < length (p_ents ?t)" "e_closed (p_ents ?t ! i)"
      have "i \<noteq> ?n" using i(2) by (auto simp: t new_entry_def)
      with i have lt: "i < ?n" "e_closed (p_ents s ! i)" by (auto simp: t nth_append less_Suc_eq)
      with assms(2) have "\<not> mapped s i" "i \<notin> set (p_orphans s)" by (simp_all add: unclosed_def)
      with lt show "\<not> mapped ?t i \<and> i \<notin> set (p_orphans ?t)" by (simp add: t mapped_def nth_append)
    qed
  next
    case False
    then show ?thesis
      by (intro unclosed_same [OF assms(2)])
        (auto simp: connect_done_def Let_def conn_defs end_spawn_def upd_spawn_def releasePendingLocked_def recordFailure_def)
  qed
qed

lemma unclosed_step:
  assumes "pool_step s s'" "pool_inv s" "unclosed s"
  shows "unclosed s'"
  using assms(1)
proof (cases rule: pool_step.cases)
  case (lookup now key)
  then show ?thesis using unclosed_get_lookup [OF assms(2,3)] by simp
next
  case (joined j r now)
  then show ?thesis using unclosed_upd_ent [OF assms(3)] assms(3)
    by (simp add: get_joined_def queue_on_def gentle_def split: sum.split)
next
  case (slot i)
  then show ?thesis using unclosed_upd_ent [OF assms(3)] by (auto simp: get_slot_def gentle_def split: if_splits)
next
  case (left i)
  then show ?thesis using unclosed_upd_ent [OF assms(3)] by (simp add: get_left_def gentle_def)
next
  case (granted i now key)
  have "unclosed (upd_ent i (\<lambda>e. e\<lparr>e_waiters := e_waiters e - 1\<rparr>) s)"
    by (rule unclosed_upd_ent [OF assms(3)]) (simp add: gentle_def)
  with granted show ?thesis by (auto simp: get_granted_def Let_def gentle_def intro!: unclosed_upd_ent)
next
  case (released i now)
  then show ?thesis using unclosed_upd_ent [OF assms(3)] by (simp add: release_def gentle_def)
next
  case (resolved j now ok)
  then show ?thesis
    by (intro unclosed_same [OF assms(3)]) (simp_all add: factory_done_def end_spawn_def upd_spawn_def releasePendingLocked_def)
next
  case (connected j now ok expires)
  then show ?thesis using unclosed_connect_done [OF assms(2,3)] by simp
next
  case (signals j r)
  then show ?thesis by (intro unclosed_same [OF assms(3)]) (simp_all add: spawn_signals_def upd_spawn_def Let_def)
next
  case (reaps now)
  have "map_inv s" using assms(2) by (simp add: pool_inv_def)
  then show ?thesis
    unfolding reaps reap_def Let_def using map_inv_disjoint by (intro unclosed_close [OF assms(3)]) auto
next
  case (evicts server since)
  have mi: "map_inv s" using assms(2) by (simp add: pool_inv_def)
  let ?hit = "\<lambda>e. k_Server (e_key e) = server \<and> definedAfter since e"
  let ?vs = "filter (\<lambda>i. mapped s i \<and> ?hit (p_ents s ! i)) [0..<length (p_ents s)] @ filter (\<lambda>i. ?hit (p_ents s ! i)) (p_orphans s)"
  have "unclosed ((close_all ?vs s)\<lparr>p_orphans := filter (\<lambda>i. \<not> ?hit (p_ents s ! i)) (p_orphans s)\<rparr>)"
    using map_inv_disjoint [OF mi] by (intro unclosed_close [OF assms(3)]) auto
  then show ?thesis
    unfolding evicts by (rule unclosed_same) (simp_all add: evictServer_def Let_def)
next
  case shuts
  let ?vs = "filter (mapped s) [0..<length (p_ents s)] @ p_orphans s"
  have "unclosed ((close_all ?vs s)\<lparr>p_orphans := []\<rparr>)" by (rule unclosed_close [OF assms(3)]) simp
  then show ?thesis unfolding shuts by (rule unclosed_same) (simp_all add: Shutdown_def)
next
  case (dies i)
  then show ?thesis using unclosed_upd_ent [OF assms(3)] by (simp add: mux_dies_def gentle_def)
qed

lemma unclosed_reach: "pool_reach cfg s \<Longrightarrow> unclosed s"
proof (induction rule: pool_reach.induct)
  case start
  show ?case by (simp add: unclosed_def NewPool_def)
next
  case (more s s')
  then show ?case using unclosed_step pool_reach_inv by blast
qed

section \<open>A run\<close>

definition demo_cfg :: PoolConfig where
  "demo_cfg = \<lparr>MaxConcurrent = 2, MaxProcsPerTenant = 1, IdleTTL = 0, MaxLifetime = 0, BreakerThreshold = 0,
     BreakerCooldown = 0, SpawnTimeout = 0\<rparr>"

definition demo_key :: Key where
  "demo_key = \<lparr>k_Server = ''fs'', k_Tenant = ''acme'', k_CredSet = '''', k_CredVersion = 0\<rparr>"

definition demo_installed :: pool where
  "demo_installed = connect_done 2 True None 0 (factory_done 1 True 0 (start_spawn demo_key (NewPool demo_cfg)))"

definition demo_queued :: pool where
  "demo_queued = queue_on 3 0 (spawn_signals 0 (Inr 0) demo_installed)"

definition demo_slotted :: pool where
  "demo_slotted = upd_ent 0 (\<lambda>e. e\<lparr>e_sem := e_sem e + 1\<rparr>) demo_queued"

definition demo_busy :: pool where
  "demo_busy = snd (get_granted 4 demo_key 0 demo_slotted)"

lemmas demo_defs = demo_cfg_def demo_key_def demo_installed_def demo_queued_def demo_slotted_def demo_busy_def

lemmas pool_defs = conn_defs NewPool_def Filled_def second_def start_spawn_def factory_done_def connect_done_def entry_deadline_def new_entry_def
  spawn_signals_def end_spawn_def upd_spawn_def upd_ent_def queue_on_def releasePendingLocked_def get_granted_def

lemma demo_lookup: "snd (get_lookup 0 demo_key (NewPool demo_cfg)) = start_spawn demo_key (NewPool demo_cfg)"
  by (simp add: get_lookup_def drop_stale_def retireSupersededLocked_def close_all_def tenantCountLocked_def demo_cfg_def pool_defs)

lemma demo_installed: "p_ents demo_installed = [new_entry (Filled demo_cfg) demo_key 2 (Some 1) None]"
  "p_entries demo_installed = [demo_key \<mapsto> 0]"
  "p_spawns demo_installed = [\<lparr>sp_key = demo_key, sp_phase = Ended (Inr 0), sp_built = Some 1, sp_stale = False\<rparr>]"
  by (simp_all add: demo_installed_def pool_defs)

lemma demo_reach: "pool_reach demo_cfg demo_queued" "pool_reach demo_cfg demo_slotted" "pool_reach demo_cfg demo_busy"
proof -
  have 1: "pool_reach demo_cfg (start_spawn demo_key (NewPool demo_cfg))"
    using pool_reach.more [OF pool_reach.start pool_step.lookup [of _ 0 demo_key], of demo_cfg] by (simp only: demo_lookup)
  have 2: "pool_reach demo_cfg (factory_done 1 True 0 (start_spawn demo_key (NewPool demo_cfg)))"
    by (rule pool_reach.more [OF 1 pool_step.resolved]) (simp_all add: pool_defs)
  have 3: "pool_reach demo_cfg demo_installed"
    unfolding demo_installed_def by (rule pool_reach.more [OF 2 pool_step.connected]) (simp_all add: pool_defs)
  have 4: "pool_reach demo_cfg (spawn_signals 0 (Inr 0) demo_installed)"
    by (rule pool_reach.more [OF 3 pool_step.signals]) (simp_all add: demo_installed)
  have 5: "demo_queued = snd (get_joined 3 (sp_key (p_spawns (spawn_signals 0 (Inr 0) demo_installed) ! 0)) (Inr 0)
      (spawn_signals 0 (Inr 0) demo_installed))"
    by (simp add: demo_queued_def get_joined_def spawn_signals_def upd_spawn_def demo_installed)
  show q: "pool_reach demo_cfg demo_queued"
    unfolding 5 by (rule pool_reach.more [OF 4 pool_step.joined]) (simp_all add: spawn_signals_def upd_spawn_def demo_installed Let_def)
  have ents: "length (p_ents demo_queued) = 1" "e_sem (p_ents demo_queued ! 0) = 0"
    by (simp_all add: demo_queued_def queue_on_def upd_ent_def spawn_signals_def upd_spawn_def demo_installed Let_def new_entry_def)
  have "p_cfg demo_queued = Filled demo_cfg" by (rule p_cfg_reach [OF q])
  with ents have "get_slot 0 demo_queued = Some demo_slotted"
    by (simp add: get_slot_def demo_slotted_def Filled_def demo_cfg_def)
  with ents show s: "pool_reach demo_cfg demo_slotted"
    by (intro pool_reach.more [OF q pool_step.slot [of 0]]) simp_all
  show "pool_reach demo_cfg demo_busy"
    unfolding demo_busy_def by (rule pool_reach.more [OF s pool_step.granted]) (simp add: demo_slotted_def ents)
qed

section \<open>What a caller is given\<close>

lemma granted_entry:
  assumes "pool_inv s" "unclosed s" "get_granted now key i s = (None, s')"
  shows "i < length (p_ents s) \<and> e_key (p_ents s ! i) = key \<and> \<not> e_dead (p_ents s ! i) \<and> \<not> e_closed (p_ents s ! i) \<and>
    now \<le> e_deadline (p_ents s ! i)"
proof -
  have m: "p_entries s key = Some i" "\<not> e_dead (p_ents s ! i)" "now \<le> e_deadline (p_ents s ! i)"
    using assms(3) by (auto simp: get_granted_def Let_def split: if_splits)
  have "map_inv s" using assms(1) by (simp add: pool_inv_def)
  note e = map_inv_entry [OF this m(1)]
  with assms(2) have "\<not> e_closed (p_ents s ! i)" by (auto simp: unclosed_def)
  with e m show ?thesis by simp
qed

text \<open>
  C20. A request that the pool lets through runs on a backend of its own key (server, tenant,
  credential set and generation) that is alive, that the pool has not closed and whose deadline has
  not passed, however long the request waited for a slot and whatever happened meanwhile.
\<close>

theorem granted_backend_is_ours:
  assumes "pool_reach cfg s" "get_granted now key i s = (None, s')"
  shows "i < length (p_ents s) \<and> e_key (p_ents s ! i) = key \<and> \<not> e_dead (p_ents s ! i) \<and> \<not> e_closed (p_ents s ! i) \<and>
    now \<le> e_deadline (p_ents s ! i)"
  by (rule granted_entry [OF pool_reach_inv [OF assms(1)] unclosed_reach [OF assms(1)] assms(2)])

lemma demo_granted: "get_granted 4 demo_key 0 demo_slotted = (None, demo_busy)"
proof -
  have "fst (get_granted 4 demo_key 0 demo_slotted) = None"
    by (simp add: get_granted_def demo_slotted_def demo_queued_def queue_on_def upd_ent_def spawn_signals_def upd_spawn_def
        demo_installed Let_def new_entry_def entry_deadline_def Filled_def demo_cfg_def second_def)
  then show ?thesis unfolding demo_busy_def by (metis prod.collapse)
qed

lemma granted_backend_is_ours_witness: "e_key (p_ents demo_slotted ! 0) = demo_key \<and> \<not> e_closed (p_ents demo_slotted ! 0)"
  using granted_backend_is_ours [OF demo_reach(2) demo_granted] by simp

section \<open>Live work\<close>

lemma close_all_closed: "i < length (p_ents s) \<Longrightarrow> e_closed (p_ents (close_all vs s) ! i) \<longleftrightarrow> e_closed (p_ents s ! i) \<or> i \<in> set vs"
  by (simp add: close_all_nth)

lemma upd_ent_closed: "gentle f \<Longrightarrow> e_closed (p_ents (upd_ent i f s) ! j) = e_closed (p_ents s ! j)"
  by (simp add: upd_ent_nth gentle_def)

definition at_work :: "entry \<Rightarrow> bool" where
  "at_work e \<longleftrightarrow> busyLocked e \<and> \<not> e_dead e"

lemma drop_stale_closed:
  assumes "map_inv s" "i < length (p_ents s)" "at_work (p_ents s ! i)"
  shows "p_ents (drop_stale now key s) ! i = p_ents s ! i"
  using assms by (auto simp: drop_stale_def Let_def close_all_nth at_work_def split: option.split)

lemma drop_stale_length [simp]: "length (p_ents (drop_stale now key s)) = length (p_ents s)"
  by (simp add: drop_stale_def Let_def split: option.split)

lemma retire_closed:
  assumes "i < length (p_ents s)" "at_work (p_ents s ! i)"
  shows "p_ents (retireSupersededLocked key s) ! i = p_ents s ! i"
  using assms by (auto simp: retireSupersededLocked_def close_all_nth at_work_def superseded_def)

lemma queue_on_closed: "e_closed (p_ents (queue_on now i s) ! j) = e_closed (p_ents s ! j)"
  unfolding queue_on_def by (rule upd_ent_closed) (simp add: gentle_def)

lemma get_lookup_closed:
  assumes "map_inv s" "i < length (p_ents s)" "at_work (p_ents s ! i)"
  shows "e_closed (p_ents (snd (get_lookup now key s)) ! i) = e_closed (p_ents s ! i)"
proof -
  have d: "p_ents (drop_stale now key s) ! i = p_ents s ! i" by (rule drop_stale_closed [OF assms])
  have "p_ents (retireSupersededLocked key (drop_stale now key s)) ! i = p_ents s ! i"
    using retire_closed [of i "drop_stale now key s" key] assms(2,3) d by simp
  with d show ?thesis by (simp add: get_lookup_def Let_def start_spawn_def queue_on_closed split: option.split)
qed

text \<open>
  A backend that is alive and has calls running on it or waiting for it is never closed by a
  lookup, by a credential rotation or by the reaper: when a step closes it, that step is the eviction
  of its own server, for a definition older than the reload, or the shutdown of the pool.
\<close>

theorem live_work_survives:
  assumes "pool_reach cfg s" "pool_step s s'" "i < length (p_ents s)"
    and "busyLocked (p_ents s ! i)" "\<not> e_dead (p_ents s ! i)" "\<not> e_closed (p_ents s ! i)" "e_closed (p_ents s' ! i)"
  shows "s' = Shutdown s \<or> (\<exists>since. s' = evictServer (k_Server (e_key (p_ents s ! i))) since s \<and> definedAfter since (p_ents s ! i))"
proof -
  have mi: "map_inv s" using pool_reach_inv [OF assms(1)] by (simp add: pool_inv_def)
  have w: "at_work (p_ents s ! i)" using assms(4,5) by (simp add: at_work_def)
  show ?thesis
    using assms(2)
  proof (cases rule: pool_step.cases)
    case (lookup now key)
    with get_lookup_closed [OF mi assms(3) w] assms(6,7) show ?thesis by simp
  next
    case (joined j r now)
    with assms(6,7) show ?thesis by (simp add: get_joined_def queue_on_closed split: sum.splits if_splits)
  next
    case (slot j)
    with assms(6,7) show ?thesis by (auto simp: get_slot_def upd_ent_closed gentle_def split: if_splits)
  next
    case (left j)
    with assms(6,7) show ?thesis by (simp add: get_left_def upd_ent_closed gentle_def)
  next
    case (granted j now key)
    with assms(6,7) show ?thesis by (simp add: get_granted_def Let_def upd_ent_closed gentle_def split: if_splits)
  next
    case (released j now)
    with assms(6,7) show ?thesis by (simp add: release_def upd_ent_closed gentle_def)
  next
    case (resolved j now ok)
    with assms(6,7) show ?thesis
      by (simp add: factory_done_def end_spawn_def upd_spawn_def releasePendingLocked_def split: if_splits)
  next
    case (connected j now ok expires)
    with assms(3,6,7) show ?thesis
      by (auto simp: connect_done_def Let_def conn_defs end_spawn_def upd_spawn_def releasePendingLocked_def recordFailure_def nth_append
          split: if_splits option.splits)
  next
    case (signals j r)
    with assms(6,7) show ?thesis by (simp add: spawn_signals_def upd_spawn_def Let_def split: if_splits)
  next
    case (reaps now)
    with assms(3-7) show ?thesis by (auto simp: reap_def Let_def close_all_closed)
  next
    case (evicts server since)
    with assms(3,6,7) show ?thesis by (auto simp: evictServer_def Let_def close_all_closed)
  next
    case shuts
    then show ?thesis by simp
  next
    case (dies j)
    with assms(6,7) show ?thesis by (simp add: mux_dies_def upd_ent_closed gentle_def)
  qed
qed

lemma demo_busy_entry:
  "length (p_ents demo_busy) = 1" "e_key (p_ents demo_busy ! 0) = demo_key" "e_inflight (p_ents demo_busy ! 0) = 1"
  "e_dead (p_ents demo_busy ! 0) = False" "e_closed (p_ents demo_busy ! 0) = False" "p_entries demo_busy demo_key = Some 0"
  by (simp_all add: demo_busy_def get_granted_def demo_slotted_def demo_queued_def queue_on_def upd_ent_def spawn_signals_def
      upd_spawn_def demo_installed Let_def new_entry_def entry_deadline_def Filled_def demo_cfg_def second_def)

lemma live_work_survives_witness:
  "evictServer ''fs'' None demo_busy = Shutdown demo_busy \<or>
   (\<exists>since. evictServer ''fs'' None demo_busy = evictServer (k_Server (e_key (p_ents demo_busy ! 0))) since demo_busy \<and>
      definedAfter since (p_ents demo_busy ! 0))"
proof (rule live_work_survives [OF demo_reach(3) pool_step.evicts])
  have "mapped demo_busy 0" using demo_busy_entry by (simp add: mapped_def)
  with demo_busy_entry show "e_closed (p_ents (evictServer ''fs'' None demo_busy) ! 0)"
    by (simp add: evictServer_def Let_def close_all_closed definedAfter_def demo_key_def)
qed (simp_all add: demo_busy_entry busyLocked_def)

lemma tenant_cap_witness:
  "int (length (filter (open_live ''acme'') (p_ents demo_busy)) + length (filter (starting ''acme'') (p_spawns demo_busy))) \<le> 1"
  using tenant_cap [OF demo_reach(3), of "''acme''"] by (simp add: Filled_def demo_cfg_def)

section \<open>No connection is lost\<close>

text \<open>
  A connection that \<open>Connect\<close> returned is closed again or held by an entry before the critical section
  that got it ends, and every entry holds one.
\<close>

definition conn_inv :: "pool \<Rightarrow> bool" where
  "conn_inv s \<longleftrightarrow>
     (\<forall>c\<in>set (p_conns s). c = ConnClosed \<or> (\<exists>i<length (p_ents s). c = HeldBy i)) \<and>
     (\<forall>i<length (p_ents s). HeldBy i \<in> set (p_conns s))"

lemma conn_inv_same: "conn_inv s \<Longrightarrow> p_conns t = p_conns s \<Longrightarrow> length (p_ents t) = length (p_ents s) \<Longrightarrow> conn_inv t"
  by (simp add: conn_inv_def)

lemma upd_ent_conns [simp]: "p_conns (upd_ent i f s) = p_conns s"
  by (simp add: upd_ent_def)

lemma close_all_conns [simp]: "p_conns (close_all vs s) = p_conns s"
  by (simp add: close_all_def)

lemma get_lookup_conns:
  "p_conns (snd (get_lookup now key s)) = p_conns s \<and> length (p_ents (snd (get_lookup now key s))) = length (p_ents s)"
  by (simp add: get_lookup_def Let_def start_spawn_def queue_on_def retireSupersededLocked_def drop_stale_def split: option.split)

lemma conn_inv_connect_done:
  assumes "conn_inv s"
  shows "conn_inv (connect_done now ok expires j s)"
proof -
  have held: "conn_inv t"
    if "p_conns t = p_conns s @ [HeldBy (length (p_ents s))]" "length (p_ents t) = Suc (length (p_ents s))" for t
    using assms that unfolding conn_inv_def by (auto simp: less_Suc_eq)
  have gone: "conn_inv t" if "p_conns t = p_conns s @ [ConnClosed]" "length (p_ents t) = length (p_ents s)" for t
    using assms that unfolding conn_inv_def by auto
  show ?thesis
  proof (cases ok)
    case False
    then show ?thesis
      by (intro conn_inv_same [OF assms])
        (simp_all add: connect_done_def Let_def end_spawn_def upd_spawn_def releasePendingLocked_def recordFailure_def)
  next
    case True
    let ?key = "sp_key (p_spawns s ! j)"
    let ?t = "connect_done now ok expires j s"
    show ?thesis
    proof (cases "p_closed s \<or> sp_stale (p_spawns s ! j) \<or> (\<exists>i. p_entries s ?key = Some i \<and> \<not> e_dead (p_ents s ! i))")
      case True
      with \<open>ok\<close> show ?thesis
        by (intro gone) (auto simp: connect_done_def Let_def conn_defs end_spawn_def upd_spawn_def releasePendingLocked_def)
    next
      case False
      with \<open>ok\<close> show ?thesis
        by (intro held) (auto simp: connect_done_def Let_def conn_defs end_spawn_def upd_spawn_def releasePendingLocked_def
            split: option.split)
    qed
  qed
qed

lemma conn_inv_step: "pool_step s s' \<Longrightarrow> conn_inv s \<Longrightarrow> conn_inv s'"
proof (induction rule: pool_step.induct)
  case (lookup s now key)
  with get_lookup_conns show ?case by (blast intro: conn_inv_same)
next
  case (connected j s now ok expires)
  then show ?case by (simp add: conn_inv_connect_done)
qed (auto elim!: conn_inv_same simp: get_joined_def queue_on_def get_slot_def get_left_def get_granted_def release_def factory_done_def
    end_spawn_def upd_spawn_def releasePendingLocked_def spawn_signals_def reap_def evictServer_def Shutdown_def mux_dies_def Let_def
    split: sum.splits if_splits)

lemma conn_inv_reach: "pool_reach cfg s \<Longrightarrow> conn_inv s"
  by (induction rule: pool_reach.induct) (simp add: conn_inv_def NewPool_def, blast intro: conn_inv_step)

text \<open>
  C37. No connection is lost.  In every reachable state, each connection that any \<open>Connect\<close> ever returned
  has been closed by the pool, because nobody wanted it any more when it came up, or is held by an entry;
  and each entry is in the map, waits as an orphan for the reaper, or is closed or dead.  So once the pool
  is shut down every connection it ever opened is closed or dead, those of spawns that finish after the
  shutdown or after an eviction included.
\<close>

theorem shutdown_closes_everything:
  assumes "pool_reach cfg s"
  shows "(\<forall>n<length (p_conns s). p_conns s ! n = ConnClosed \<or> (\<exists>i<length (p_ents s). p_conns s ! n = HeldBy i)) \<and>
    (\<forall>i<length (p_ents s). e_closed (p_ents s ! i) \<or> e_dead (p_ents s ! i) \<or>
      (\<not> p_closed s \<and> (p_entries s (e_key (p_ents s ! i)) = Some i \<or> i \<in> set (p_orphans s))))"
proof -
  have "map_inv s" "accounted s" using pool_reach_inv [OF assms] by (simp_all add: pool_inv_def)
  moreover have "conn_inv s" by (rule conn_inv_reach [OF assms])
  ultimately show ?thesis by (auto simp: accounted_def map_inv_def mapped_def conn_inv_def dest: nth_mem)
qed

text \<open>A backend that comes up after the shutdown.\<close>

definition demo_late :: pool where
  "demo_late = connect_done 3 True None 0 (Shutdown (factory_done 1 True 0 (start_spawn demo_key (NewPool demo_cfg))))"

lemma demo_late: "pool_reach demo_cfg demo_late" "p_ents demo_late = []" "length (p_conns demo_late) = 1"
proof -
  have 1: "pool_reach demo_cfg (start_spawn demo_key (NewPool demo_cfg))"
    using pool_reach.more [OF pool_reach.start pool_step.lookup [of _ 0 demo_key], of demo_cfg] by (simp only: demo_lookup)
  have 2: "pool_reach demo_cfg (factory_done 1 True 0 (start_spawn demo_key (NewPool demo_cfg)))"
    by (rule pool_reach.more [OF 1 pool_step.resolved]) (simp_all add: pool_defs)
  show "pool_reach demo_cfg demo_late"
    unfolding demo_late_def
    by (rule pool_reach.more [OF pool_reach.more [OF 2 pool_step.shuts] pool_step.connected])
      (simp_all add: pool_defs Shutdown_def close_all_def)
  show "p_ents demo_late = []" "length (p_conns demo_late) = 1"
    by (simp_all add: demo_late_def pool_defs Shutdown_def close_all_def)
qed

lemma shutdown_closes_everything_witness:
  "e_closed (p_ents (Shutdown demo_busy) ! 0) \<and> p_conns demo_late ! 0 = ConnClosed"
proof -
  have l: "0 < length (p_ents (Shutdown demo_busy))" using demo_busy_entry(1) by (simp add: Shutdown_def)
  have "\<not> e_dead (p_ents (Shutdown demo_busy) ! 0)" "p_closed (Shutdown demo_busy)"
    using demo_busy_entry by (simp_all add: Shutdown_def close_all_nth)
  moreover have "e_closed (p_ents (Shutdown demo_busy) ! 0) \<or> e_dead (p_ents (Shutdown demo_busy) ! 0) \<or> \<not> p_closed (Shutdown demo_busy)"
    using shutdown_closes_everything [OF pool_reach.more [OF demo_reach(3) pool_step.shuts]] l by blast
  moreover have "p_conns demo_late ! 0 = ConnClosed"
    using shutdown_closes_everything [OF demo_late(1)] demo_late(2,3) by simp
  ultimately show ?thesis by blast
qed

section \<open>A branch that is never taken\<close>

text \<open>
  \<open>spawnEntry\<close> looks for a live entry that an overlapping spawn installed first.  As a finished spawn
  is only unmapped after its entry is in the map, and \<open>Get\<close> looks there first, there is never one.
\<close>

lemma no_overlapping_entry:
  assumes "pool_reach cfg s" "j < length (p_spawns s)" "sp_phase (p_spawns s ! j) = Connecting"
  shows "p_entries s (sp_key (p_spawns s ! j)) = None"
  using progress_alone(1) [of s j] pool_reach_inv [OF assms(1)] assms(2,3) by (simp add: pool_inv_def)

end
