(* ===== verification/CredCache.thy ===== *)
theory CredCache
  imports GoPrelude "HOL-Library.Word"
begin

text \<open>
  Credentials and their cache (\<open>pkg/backend/cred\<close>: \<open>cred.go\<close> and \<open>cached.go\<close>).  An entry of the cache
  has a lock, so that what the code does between two points where it releases the lock is a function on
  the entry, and the calls, the background refresh and \<open>Invalidate\<close> interleave as steps.  Durations and
  times are nanoseconds; \<open>None\<close> is the zero time.
\<close>

section \<open>Credentials\<close>

record Credentials =
  Headers :: "bytes \<rightharpoonup> bytes"
  Env :: "bytes \<rightharpoonup> bytes"
  ExpiresAt :: "int option"

definition no_credentials :: Credentials where
  "no_credentials = \<lparr>Headers = Map.empty, Env = Map.empty, ExpiresAt = None\<rparr>"

text \<open>\<open>now.Before(t)\<close> and \<open>now.After(t)\<close> for a time that may be zero.\<close>

definition time_before :: "int \<Rightarrow> int option \<Rightarrow> bool" where
  "time_before now t = (case t of None \<Rightarrow> False | Some x \<Rightarrow> now < x)"

definition time_after :: "int \<Rightarrow> int option \<Rightarrow> bool" where
  "time_after now t = (case t of None \<Rightarrow> True | Some x \<Rightarrow> x < now)"

section \<open>Backoff\<close>

definition failBackoffBase :: "64 word" where "failBackoffBase = 1000000000"
definition failBackoffCap :: "64 word" where "failBackoffCap = 30000000000"

text \<open>\<open>failBackoffBase << (fails - 1)\<close> is a shift of an \<open>int64\<close>, which drops the high bits.\<close>

definition failBackoff :: "nat \<Rightarrow> 64 word" where
  "failBackoff fails =
     (let d = push_bit (fails - 1) failBackoffBase in
      if sint failBackoffCap < sint d \<or> sint d \<le> 0 then failBackoffCap else d)"

definition backoff :: "nat \<Rightarrow> int" where
  "backoff fails = sint (failBackoff fails)"

section \<open>Entries\<close>

record 'e cacheEntry =
  ce_creds :: "Credentials option"
  ce_gen :: nat
  ce_refreshAt :: "int option"
  ce_refreshing :: bool
  ce_gone :: "Credentials option"
  ce_epoch :: nat
  ce_jitter :: int
  ce_fails :: nat
  ce_futile :: nat
  ce_invalidateAt :: "int option"
  ce_lastErr :: "'e option"
  ce_retryAt :: "int option"

definition new_cacheEntry :: "int \<Rightarrow> 'e cacheEntry" where
  "new_cacheEntry jitter =
     \<lparr>ce_creds = None, ce_gen = 0, ce_refreshAt = None, ce_refreshing = False, ce_gone = None, ce_epoch = 0,
      ce_jitter = jitter, ce_fails = 0, ce_futile = 0, ce_invalidateAt = None, ce_lastErr = None, ce_retryAt = None\<rparr>"

text \<open>\<open>Invalidate\<close> leaves the material it dropped in \<open>gone\<close>.\<close>

definition ce_material :: "'e cacheEntry \<Rightarrow> Credentials option" where
  "ce_material e = (case ce_creds e of Some c \<Rightarrow> Some c | None \<Rightarrow> ce_gone e)"

definition same_material :: "Credentials \<Rightarrow> Credentials \<Rightarrow> bool" where
  "same_material a b \<longleftrightarrow> Headers a = Headers b \<and> Env a = Env b"

definition refresh_at :: "int \<Rightarrow> int \<Rightarrow> int \<Rightarrow> int \<Rightarrow> Credentials option \<Rightarrow> int" where
  "refresh_at skew jitter now expires prev =
     (let ttl = expires - now; lead = (if ttl div 2 < skew + jitter then ttl div 2 else skew + jitter) in
      case prev of
        None \<Rightarrow> expires - lead
      | Some p \<Rightarrow> (if (case ExpiresAt p of None \<Rightarrow> False | Some t \<Rightarrow> expires \<le> t) then now + skew else expires - lead))"

text \<open>The result carries the entry and the value of \<open>globalGen\<close>; \<open>None\<close> is the error for expired material.\<close>

definition store :: "int \<Rightarrow> int \<Rightarrow> Credentials option \<Rightarrow> nat \<Rightarrow> 'e cacheEntry \<Rightarrow> ('e cacheEntry \<times> nat) option" where
  "store skew now fetched counter e =
     (let creds = (case fetched of None \<Rightarrow> no_credentials | Some c \<Rightarrow> c) in
      if (case ExpiresAt creds of None \<Rightarrow> False | Some t \<Rightarrow> t \<le> now) then None
      else (let prev = ce_creds e;
                moved = (case ce_material e of None \<Rightarrow> True | Some m \<Rightarrow> \<not> same_material m creds);
                e1 = (if moved then e\<lparr>ce_gen := counter + 1\<rparr> else e);
                e2 = (if moved then e1\<lparr>ce_futile := 0, ce_invalidateAt := None\<rparr>
                      else if prev = None \<and> ce_gone e \<noteq> None
                      then e1\<lparr>ce_futile := ce_futile e + 1, ce_invalidateAt := Some (now + backoff (ce_futile e + 1))\<rparr>
                      else e1);
                e3 = e2\<lparr>ce_creds := Some creds, ce_gone := None, ce_epoch := ce_epoch e + 1,
                        ce_fails := 0, ce_lastErr := None, ce_retryAt := None\<rparr>;
                e4 = (case ExpiresAt creds of
                        None \<Rightarrow> e3
                      | Some t \<Rightarrow> e3\<lparr>ce_refreshAt := Some (refresh_at skew (ce_jitter e) now t prev)\<rparr>)
            in Some (e4, if moved then counter + 1 else counter)))"

definition record_failure :: "int \<Rightarrow> 'e \<Rightarrow> 'e cacheEntry \<Rightarrow> 'e cacheEntry" where
  "record_failure now err e =
     e\<lparr>ce_fails := ce_fails e + 1, ce_lastErr := Some err, ce_retryAt := Some (now + backoff (ce_fails e + 1))\<rparr>"

section \<open>Resolving\<close>

definition still_valid :: "int \<Rightarrow> Credentials \<Rightarrow> bool" where
  "still_valid now c \<longleftrightarrow> ExpiresAt c = None \<or> time_before now (ExpiresAt c)"

datatype 'e resolve_step =
    Serve Credentials nat bool
  | WaitRefresh
  | Backoff "'e option"
  | Fetch

text \<open>One turn of \<open>ResolveGen\<close>; the flag of \<open>Serve\<close> says that a background refresh is started.\<close>

definition ResolveGen_turn :: "int \<Rightarrow> 'e cacheEntry \<Rightarrow> 'e resolve_step \<times> 'e cacheEntry" where
  "ResolveGen_turn now e =
     (let absent = (if ce_refreshing e then (WaitRefresh, e)
                    else if time_before now (ce_retryAt e) then (Backoff (ce_lastErr e), e)
                    else (Fetch, e)) in
      case ce_creds e of
        None \<Rightarrow> absent
      | Some c \<Rightarrow>
          if still_valid now c then
            (let launch = (ExpiresAt c \<noteq> None \<and> time_after now (ce_refreshAt e) \<and> \<not> ce_refreshing e \<and> time_after now (ce_retryAt e))
             in (Serve c (ce_gen e) launch, if launch then e\<lparr>ce_refreshing := True\<rparr> else e))
          else absent)"

text \<open>
  The answer of the source to a foreground resolve; \<open>now\<close> is the time the turn began, \<open>expired\<close> the
  error of \<open>store\<close>, and a caller that is gone leaves no trace.
\<close>

definition fetched :: "int \<Rightarrow> int \<Rightarrow> 'e \<Rightarrow> bool \<Rightarrow> 'e + Credentials option \<Rightarrow> nat \<Rightarrow> 'e cacheEntry \<Rightarrow>
    ('e + Credentials \<times> nat) \<times> 'e cacheEntry \<times> nat" where
  "fetched skew now expired caller_gone answer counter e =
     (let failed = (\<lambda>err. (Inl err, if caller_gone then e else record_failure now err e, counter)) in
      case answer of
        Inl err \<Rightarrow> failed err
      | Inr c \<Rightarrow>
          (case store skew now c counter e of
             None \<Rightarrow> failed expired
           | Some (e', counter') \<Rightarrow>
               (Inr (case ce_creds e' of None \<Rightarrow> no_credentials | Some cr \<Rightarrow> cr, ce_gen e'), e', counter')))"

definition refreshed :: "int \<Rightarrow> int \<Rightarrow> 'e \<Rightarrow> nat \<Rightarrow> 'e + Credentials option \<Rightarrow> nat \<Rightarrow> 'e cacheEntry \<Rightarrow> 'e cacheEntry \<times> nat" where
  "refreshed skew now expired startEpoch answer counter e0 =
     (let e = e0\<lparr>ce_refreshing := False\<rparr> in
      if ce_epoch e \<noteq> startEpoch then (e, counter)
      else (case answer of
              Inl err \<Rightarrow> (record_failure now err e, counter)
            | Inr c \<Rightarrow>
                (case store skew now c counter e of
                   None \<Rightarrow> (record_failure now expired e, counter)
                 | Some r \<Rightarrow> r)))"

definition Invalidate :: "int \<Rightarrow> 'e cacheEntry \<Rightarrow> 'e cacheEntry" where
  "Invalidate now e =
     (if time_before now (ce_invalidateAt e) then e
      else if ce_creds e = None
      then e\<lparr>ce_fails := 0, ce_lastErr := None, ce_retryAt := None, ce_futile := ce_futile e + 1,
             ce_invalidateAt := Some (now + backoff (ce_futile e + 1)), ce_epoch := ce_epoch e + 1\<rparr>
      else e\<lparr>ce_gone := ce_creds e, ce_creds := None, ce_fails := 0, ce_lastErr := None, ce_retryAt := None,
             ce_epoch := ce_epoch e + 1\<rparr>)"

section \<open>The table of entries\<close>

definition sweepEvery :: int where "sweepEvery = 5 * 60 * 1000000000"
definition idleEvict :: int where "idleEvict = 30 * 60 * 1000000000"
definition DefaultSkew :: int where "DefaultSkew = 30 * 1000000000"

type_synonym cacheKey = "bytes \<times> bytes \<times> bytes"

record 'e resolver =
  r_skew :: int
  r_entries :: "cacheKey \<rightharpoonup> 'e cacheEntry \<times> int"
  r_lastSweep :: "int option"

definition Cached :: "int \<Rightarrow> 'e resolver" where
  "Cached skew = \<lparr>r_skew = (if skew \<le> 0 then DefaultSkew else skew), r_entries = Map.empty, r_lastSweep = None\<rparr>"

text \<open>An entry is stored with its \<open>lastUsed\<close>; \<open>jitter\<close> is what \<open>rand.N\<close> gives.\<close>

definition cache_entry :: "int \<Rightarrow> int \<Rightarrow> cacheKey \<Rightarrow> 'e resolver \<Rightarrow> 'e cacheEntry \<times> 'e resolver" where
  "cache_entry now jitter k r =
     (let due = (case r_lastSweep r of None \<Rightarrow> True | Some t \<Rightarrow> sweepEvery < now - t);
          r1 = (if due
                then r\<lparr>r_lastSweep := Some now,
                       r_entries := (\<lambda>key. case r_entries r key of
                          None \<Rightarrow> None
                        | Some (e, used) \<Rightarrow> if key \<noteq> k \<and> idleEvict < now - used then None else Some (e, used))\<rparr>
                else r);
          e = (case r_entries r1 k of None \<Rightarrow> new_cacheEntry jitter | Some (e, used) \<Rightarrow> e)
      in (e, r1\<lparr>r_entries := (r_entries r1)(k \<mapsto> (e, now))\<rparr>))"

section \<open>The backoff doubles up to its cap\<close>

lemma sint_shifted: "sint (push_bit k (1000000000 :: 64 word)) = signed_take_bit 63 (1000000000 * 2 ^ k)"
proof -
  have w: "push_bit k (1000000000 :: 64 word) = word_of_int (1000000000 * 2 ^ k)"
    by (simp add: push_bit_eq_mult)
  have "sint (word_of_int x :: 64 word) = signed_take_bit 63 x" for x
    by (simp add: signed_of_int)
  with w show ?thesis by (simp only:)
qed

lemma small_shift:
  assumes "k \<le> 33"
  shows "sint (push_bit k (1000000000 :: 64 word)) = 1000000000 * 2 ^ k"
proof -
  have "(2::int) ^ k \<le> 2 ^ 33" using assms by (intro power_increasing) auto
  then have "(1000000000 :: int) * 2 ^ k < 2 ^ 63" by simp
  moreover have "0 \<le> (1000000000 :: int) * 2 ^ k" by simp
  ultimately show ?thesis unfolding sint_shifted by (intro signed_take_bit_int_eq_self) linarith+
qed

lemma wrapped_shift:
  assumes "33 < k"
  shows "sint (push_bit k (1000000000 :: 64 word)) \<le> 0 \<or> 30000000000 < sint (push_bit k (1000000000 :: 64 word))"
proof -
  obtain j where k: "k = 34 + j" using assms less_eqE [of 34 k] by auto
  let ?x = "(1000000000 :: int) * 2 ^ k"
  have "(2::int) ^ 43 dvd ?x" unfolding k by (simp add: power_add)
  then have "(2::int) ^ 43 dvd (?x + 2 ^ 63) mod 2 ^ 64 - 2 ^ 63"
    by (intro dvd_diff dvd_mod dvd_add) (simp_all add: le_imp_power_dvd)
  then have "(2::int) ^ 43 dvd signed_take_bit 63 ?x"
    by (simp add: signed_take_bit_eq_take_bit_shift take_bit_eq_mod)
  then show ?thesis unfolding sint_shifted using zdvd_imp_le [of "2 ^ 43" "signed_take_bit 63 ?x"] by fastforce
qed

lemma backoff_eq:
  assumes "1 \<le> n"
  shows "backoff n = min (1000000000 * 2 ^ (n - 1)) 30000000000"
proof -
  have cap: "sint failBackoffCap = 30000000000" by (simp add: failBackoffCap_def)
  let ?d = "push_bit (n - 1) (1000000000 :: 64 word)"
  have b: "backoff n = (if 30000000000 < sint ?d \<or> sint ?d \<le> 0 then 30000000000 else sint ?d)"
    using cap by (simp add: backoff_def failBackoff_def Let_def failBackoffBase_def)
  show ?thesis
  proof (cases "n - 1 \<le> 33")
    case True
    then show ?thesis unfolding b by (simp add: small_shift min_def)
  next
    case False
    have "(2::int) ^ 34 \<le> 2 ^ (n - 1)" using False by (intro power_increasing) auto
    then have "30000000000 < (1000000000 :: int) * 2 ^ (n - 1)" by simp
    with wrapped_shift [of "n - 1"] False show ?thesis unfolding b by (auto simp: min_def)
  qed
qed

section \<open>Interleavings on one key\<close>

text \<open>
  \<open>c_fg\<close> is the foreground resolve that holds the entry's lock, with the time its turn began;
  \<open>c_rf\<close> the background refresh, with the epoch it was launched at; \<open>c_served\<close> lists what callers
  were given, newest first.  Other keys move \<open>globalGen\<close> as well.
\<close>

record 'e cached =
  c_entry :: "'e cacheEntry"
  c_counter :: nat
  c_fg :: "int option"
  c_rf :: "nat option"
  c_served :: "(Credentials \<times> nat) list"

definition start_cached :: "int \<Rightarrow> nat \<Rightarrow> 'e cached" where
  "start_cached jitter n =
     \<lparr>c_entry = new_cacheEntry jitter, c_counter = n, c_fg = None, c_rf = None, c_served = []\<rparr>"

inductive cached_step :: "int \<Rightarrow> 'e \<Rightarrow> 'e cached \<Rightarrow> 'e cached \<Rightarrow> bool" for skew expired where
  served: "c_fg s = None \<Longrightarrow> ResolveGen_turn now (c_entry s) = (Serve c g launch, e') \<Longrightarrow>
    cached_step skew expired s (s\<lparr>c_entry := e', c_served := (c, g) # c_served s,
      c_rf := (if launch then Some (ce_epoch (c_entry s)) else c_rf s)\<rparr>)"
| fetch: "c_fg s = None \<Longrightarrow> ResolveGen_turn now (c_entry s) = (Fetch, e') \<Longrightarrow>
    cached_step skew expired s (s\<lparr>c_entry := e', c_fg := Some now\<rparr>)"
| answered: "c_fg s = Some now \<Longrightarrow> fetched skew now expired gone answer (c_counter s) (c_entry s) = (r, e', n) \<Longrightarrow>
    cached_step skew expired s (s\<lparr>c_entry := e', c_counter := n, c_fg := None,
      c_served := (case r of Inl err \<Rightarrow> c_served s | Inr cg \<Rightarrow> cg # c_served s)\<rparr>)"
| refresh_answered: "c_fg s = None \<Longrightarrow> c_rf s = Some epoch \<Longrightarrow>
    refreshed skew now expired epoch answer (c_counter s) (c_entry s) = (e', n) \<Longrightarrow>
    cached_step skew expired s (s\<lparr>c_entry := e', c_counter := n, c_rf := None\<rparr>)"
| invalidated: "c_fg s = None \<Longrightarrow> cached_step skew expired s (s\<lparr>c_entry := Invalidate now (c_entry s)\<rparr>)"
| others: "c_counter s \<le> n \<Longrightarrow> cached_step skew expired s (s\<lparr>c_counter := n\<rparr>)"

inductive cached_reach :: "int \<Rightarrow> 'e \<Rightarrow> 'e cached \<Rightarrow> bool" for skew expired where
  start: "cached_reach skew expired (start_cached jitter n)"
| more: "cached_reach skew expired s \<Longrightarrow> cached_step skew expired s s' \<Longrightarrow> cached_reach skew expired s'"

section \<open>The invariant\<close>

lemma same_material_refl [simp]: "same_material c c" by (simp add: same_material_def)

lemma same_material_sym: "same_material a b \<Longrightarrow> same_material b a" by (simp add: same_material_def)

lemma same_material_trans: "same_material a b \<Longrightarrow> same_material b c \<Longrightarrow> same_material a c" by (simp add: same_material_def)

text \<open>What the callers hold is no newer than the entry, and agrees with it where the generations agree.\<close>

definition served_ok :: "'e cacheEntry \<Rightarrow> (Credentials \<times> nat) list \<Rightarrow> bool" where
  "served_ok e xs \<longleftrightarrow>
     (\<forall>x\<in>set xs. snd x \<le> ce_gen e \<and> (snd x = ce_gen e \<longrightarrow> (\<exists>m. ce_material e = Some m \<and> same_material m (fst x)))) \<and>
     sorted_wrt (\<lambda>a b. snd b \<le> snd a) xs \<and>
     (\<forall>a\<in>set xs. \<forall>b\<in>set xs. snd a = snd b \<longrightarrow> same_material (fst a) (fst b))"

definition flight_ok :: "'e cached \<Rightarrow> bool" where
  "flight_ok s \<longleftrightarrow> (ce_refreshing (c_entry s) \<longleftrightarrow> c_rf s \<noteq> None) \<and> (c_fg s \<noteq> None \<longrightarrow> c_rf s = None)"

definition cached_inv :: "'e cached \<Rightarrow> bool" where
  "cached_inv s \<longleftrightarrow> flight_ok s \<and> ce_gen (c_entry s) \<le> c_counter s \<and> served_ok (c_entry s) (c_served s)"

lemma served_ok_same:
  "served_ok e xs \<Longrightarrow> ce_gen e' = ce_gen e \<Longrightarrow> ce_material e' = ce_material e \<Longrightarrow> served_ok e' xs"
  by (simp add: served_ok_def)

lemma served_ok_Cons:
  assumes "served_ok e xs" "ce_material e = Some m" "same_material m c"
  shows "served_ok e ((c, ce_gen e) # xs)"
proof -
  have "same_material c (fst b)" if b: "b \<in> set xs" "snd b = ce_gen e" for b
  proof -
    have "same_material m (fst b)" using assms(1,2) b by (auto simp: served_ok_def)
    with assms(3) show ?thesis by (simp add: same_material_def)
  qed
  then show ?thesis
    using assms by (auto simp: served_ok_def intro: same_material_sym)
qed

text \<open>\<open>store\<close> keeps the generation exactly when the material is the same, and never reuses one.\<close>

lemma store_Some:
  assumes "store skew now ans counter e = Some (e', counter')"
  obtains c where "ce_creds e' = Some c" "still_valid now c" "ce_refreshing e' = ce_refreshing e"
    "ce_gen e' = counter + 1 \<and> counter' = counter + 1 \<or>
     ce_gen e' = ce_gen e \<and> counter' = counter \<and> (\<exists>m. ce_material e = Some m \<and> same_material m c)"
proof -
  define c where "c = (case ans of None \<Rightarrow> no_credentials | Some c \<Rightarrow> c)"
  have "ce_creds e' = Some c"
    using assms by (auto simp: store_def Let_def c_def [symmetric] split: option.splits if_splits)
  moreover have "still_valid now c"
    using assms by (auto simp: store_def Let_def c_def [symmetric] still_valid_def time_before_def split: option.splits if_splits)
  moreover have "ce_refreshing e' = ce_refreshing e"
    using assms by (auto simp: store_def Let_def c_def [symmetric] split: option.splits if_splits)
  moreover have "ce_gen e' = counter + 1 \<and> counter' = counter + 1 \<or>
     ce_gen e' = ce_gen e \<and> counter' = counter \<and> (\<exists>m. ce_material e = Some m \<and> same_material m c)"
    using assms by (auto simp: store_def Let_def c_def [symmetric] split: option.splits if_splits)
  ultimately show thesis by (rule that)
qed

lemma material_creds [simp]: "ce_creds e = Some c \<Longrightarrow> ce_material e = Some c"
  by (simp add: ce_material_def)

lemma store_served_ok:
  assumes "store skew now ans counter e = Some (e', counter')" "ce_gen e \<le> counter" "served_ok e xs"
  shows "served_ok e' xs \<and> ce_gen e' \<le> counter'"
proof -
  obtain c where c: "ce_creds e' = Some c"
    and g: "ce_gen e' = counter + 1 \<and> counter' = counter + 1 \<or>
     ce_gen e' = ce_gen e \<and> counter' = counter \<and> (\<exists>m. ce_material e = Some m \<and> same_material m c)"
    by (rule store_Some [OF assms(1)])
  from g show ?thesis
  proof
    assume "ce_gen e' = counter + 1 \<and> counter' = counter + 1"
    with assms(2,3) show ?thesis by (fastforce simp: served_ok_def)
  next
    assume "ce_gen e' = ce_gen e \<and> counter' = counter \<and> (\<exists>m. ce_material e = Some m \<and> same_material m c)"
    then obtain m where m: "ce_gen e' = ce_gen e" "counter' = counter" "ce_material e = Some m" "same_material m c" by blast
    have "served_ok e' xs"
      unfolding served_ok_def
    proof (intro conjI ballI impI)
      fix x
      assume x: "x \<in> set xs"
      with assms(3) m(1) show "snd x \<le> ce_gen e'" by (simp add: served_ok_def)
      assume "snd x = ce_gen e'"
      with assms(3) x m(1,3) have "same_material m (fst x)" by (simp add: served_ok_def)
      with m(4) c show "\<exists>m. ce_material e' = Some m \<and> same_material m (fst x)" by (simp add: same_material_def)
    qed (use assms(3) in \<open>simp_all add: served_ok_def\<close>)
    with m assms(2) show ?thesis by simp
  qed
qed

lemma turn_keeps:
  assumes "ResolveGen_turn now e = (r, e')"
  shows "ce_gen e' = ce_gen e" "ce_material e' = ce_material e" "ce_epoch e' = ce_epoch e"
    "r = Serve c g launch \<Longrightarrow> ce_creds e = Some c \<and> g = ce_gen e \<and> still_valid now c \<and>
       ce_refreshing e' = (ce_refreshing e \<or> launch) \<and> (launch \<longrightarrow> \<not> ce_refreshing e)"
    "r = Fetch \<Longrightarrow> e' = e \<and> \<not> ce_refreshing e"
  using assms
  by (auto simp: ResolveGen_turn_def Let_def ce_material_def split: option.splits if_splits)

lemma record_failure_keeps [simp]:
  "ce_gen (record_failure now err e) = ce_gen e" "ce_material (record_failure now err e) = ce_material e"
  "ce_refreshing (record_failure now err e) = ce_refreshing e" "ce_creds (record_failure now err e) = ce_creds e"
  by (simp_all add: record_failure_def ce_material_def split: option.split)

lemma refreshing_off [simp]:
  "ce_gen (e\<lparr>ce_refreshing := b\<rparr>) = ce_gen e" "ce_material (e\<lparr>ce_refreshing := b\<rparr>) = ce_material e"
  by (simp_all add: ce_material_def split: option.split)

lemma Invalidate_keeps:
  "ce_gen (Invalidate now e) = ce_gen e" "ce_material (Invalidate now e) = ce_material e"
  "ce_refreshing (Invalidate now e) = ce_refreshing e"
  by (auto simp: Invalidate_def ce_material_def split: option.splits)

lemma fetched_keeps:
  assumes "fetched skew now expired gone answer counter e = (r, e', n)" "ce_gen e \<le> counter" "served_ok e xs"
  shows "served_ok e' (case r of Inl err \<Rightarrow> xs | Inr cg \<Rightarrow> cg # xs) \<and> ce_gen e' \<le> n \<and> ce_refreshing e' = ce_refreshing e"
proof (cases "\<exists>c e1 n1. answer = Inr c \<and> store skew now c counter e = Some (e1, n1)")
  case True
  then obtain c e1 n1 where c: "answer = Inr c" "store skew now c counter e = Some (e1, n1)" by blast
  obtain cr where cr: "ce_creds e1 = Some cr" "ce_refreshing e1 = ce_refreshing e" by (rule store_Some [OF c(2)])
  have "r = Inr (cr, ce_gen e1)" "e' = e1" "n = n1" using assms(1) c cr by (auto simp: fetched_def Let_def)
  with store_served_ok [OF c(2) assms(2,3)] cr served_ok_Cons [of e1 xs cr cr] show ?thesis by simp
next
  case False
  then obtain err where "r = Inl err" "e' = (if gone then e else record_failure now err e)" "n = counter"
    using assms(1) by (cases answer) (auto simp: fetched_def Let_def split: option.splits)
  with assms(2,3) show ?thesis by (auto intro: served_ok_same)
qed

lemma refreshed_keeps:
  assumes "refreshed skew now expired epoch answer counter e = (e', n)" "ce_gen e \<le> counter" "served_ok e xs"
  shows "served_ok e' xs \<and> ce_gen e' \<le> n \<and> \<not> ce_refreshing e'"
proof (cases "\<exists>c. answer = Inr c \<and> ce_epoch e = epoch \<and> store skew now c counter (e\<lparr>ce_refreshing := False\<rparr>) = Some (e', n)")
  case True
  then obtain c where c: "store skew now c counter (e\<lparr>ce_refreshing := False\<rparr>) = Some (e', n)" by blast
  have "served_ok (e\<lparr>ce_refreshing := False\<rparr>) xs" by (rule served_ok_same [OF assms(3)]) simp_all
  with store_served_ok [OF c] assms(2) show ?thesis using store_Some [OF c] by (metis refreshing_off(1) cacheEntry.select_convs(4) cacheEntry.surjective cacheEntry.update_convs(4))
next
  case False
  then have "e' = e\<lparr>ce_refreshing := False\<rparr> \<or> (\<exists>err. e' = record_failure now err (e\<lparr>ce_refreshing := False\<rparr>))" "n = counter"
    using assms(1) by (auto simp: refreshed_def Let_def split: sum.splits option.splits if_splits)
  with assms(2,3) show ?thesis by (auto intro: served_ok_same)
qed

lemma cached_step_inv:
  assumes "cached_step skew expired s s'" "cached_inv s"
  shows "cached_inv s'"
  using assms(1)
proof cases
  case (served now c g launch e')
  note k = turn_keeps [OF served(3)]
  have "served_ok (c_entry s) ((c, ce_gen (c_entry s)) # c_served s)"
    using assms(2) k(4) [OF refl] by (intro served_ok_Cons [of _ _ c]) (simp_all add: cached_inv_def)
  then have "served_ok e' ((c, g) # c_served s)" using k by (auto intro: served_ok_same)
  with served assms(2) k show ?thesis by (auto simp: cached_inv_def flight_ok_def)
next
  case (fetch now e')
  note k = turn_keeps(5) [OF fetch(3) refl]
  with fetch assms(2) show ?thesis by (simp add: cached_inv_def flight_ok_def)
next
  case (answered now gone answer r e' n)
  with fetched_keeps [OF answered(3)] assms(2) show ?thesis by (auto simp: cached_inv_def flight_ok_def)
next
  case (refresh_answered epoch now answer e' n)
  have "served_ok e' (c_served s) \<and> ce_gen e' \<le> n \<and> \<not> ce_refreshing e'"
    using assms(2) by (intro refreshed_keeps [OF refresh_answered(4)]) (simp_all add: cached_inv_def)
  with refresh_answered assms(2) show ?thesis by (simp add: cached_inv_def flight_ok_def)
next
  case (invalidated now)
  have "served_ok (Invalidate now (c_entry s)) (c_served s)"
    by (rule served_ok_same [of "c_entry s"]) (use assms(2) in \<open>simp_all add: cached_inv_def Invalidate_keeps\<close>)
  with invalidated assms(2) show ?thesis by (simp add: cached_inv_def flight_ok_def Invalidate_keeps)
next
  case (others n)
  with assms(2) show ?thesis by (simp add: cached_inv_def flight_ok_def)
qed

lemma cached_reach_inv: "cached_reach skew expired s \<Longrightarrow> cached_inv s"
proof (induction rule: cached_reach.induct)
  case (start jitter n)
  show ?case by (simp add: cached_inv_def flight_ok_def served_ok_def start_cached_def new_cacheEntry_def)
next
  case (more s s')
  show ?case by (rule cached_step_inv [OF more(2,3)])
qed

section \<open>What the cache promises\<close>

text \<open>
  A generation identifies the material it was issued for: in every interleaving of requests,
  refreshes and rejections, two requests that were given the same generation were given the same
  headers and environment, and a later request never gets an older generation.
\<close>

theorem generation_identifies_material:
  assumes "cached_reach skew expired s"
  shows "(\<forall>a\<in>set (c_served s). \<forall>b\<in>set (c_served s). snd a = snd b \<longrightarrow> same_material (fst a) (fst b)) \<and>
    sorted_wrt (\<lambda>a b. snd b \<le> snd a) (c_served s)"
  using cached_reach_inv [OF assms] by (simp add: cached_inv_def served_ok_def)

text \<open>
  There is one conversation with the credential source per key: a foreground resolve and a
  background refresh are never in flight together, whatever the callers do.
\<close>

theorem one_conversation:
  assumes "cached_reach skew expired s"
  shows "c_fg s = None \<or> c_rf s = None"
  using cached_reach_inv [OF assms] by (auto simp: cached_inv_def flight_ok_def)

text \<open>
  Credentials that have expired are never given out: what a turn serves from the cache is valid at
  that time, and so is what a resolve gives.
\<close>

theorem serves_only_valid:
  assumes "ResolveGen_turn now e = (Serve c g launch, e')" "fetched skew now expired gone answer counter e2 = (Inr (c2, g2), e3, n)"
  shows "still_valid now c \<and> still_valid now c2"
proof -
  obtain ans e1 n1 where s: "store skew now ans counter e2 = Some (e1, n1)"
    and c2: "c2 = (case ce_creds e1 of None \<Rightarrow> no_credentials | Some cr \<Rightarrow> cr)"
    using assms(2) by (auto simp: fetched_def Let_def split: sum.splits option.splits if_splits)
  have "still_valid now c2" using store_Some [OF s] c2 by (metis option.simps(5))
  with turn_keeps(4) [OF assms(1) refl] show ?thesis by simp
qed

text \<open>
  A source that fails is left alone: after the failure number \<open>n + 1\<close> in a row no request resolves
  again before the backoff of \<open>2^n\<close> seconds, at most 30, has passed, although the code computes it
  with a shift that drops bits.
\<close>

theorem failing_source_left_alone:
  assumes "fetched skew t expired False (Inl err) counter e = (r, e', n)" "now < t + min (1000000000 * 2 ^ ce_fails e) 30000000000"
  shows "fst (ResolveGen_turn now e') \<noteq> Fetch"
proof -
  have "ce_retryAt e' = Some (t + backoff (ce_fails e + 1))"
    using assms(1) by (auto simp: fetched_def Let_def record_failure_def)
  with assms(2) have "time_before now (ce_retryAt e')" by (simp add: time_before_def backoff_eq)
  then show ?thesis by (simp add: ResolveGen_turn_def Let_def split: option.split)
qed

section \<open>A run\<close>

text \<open>A resolve, a rejection, a refetch of the same material and one of new material.\<close>

definition demo_cred :: "bytes \<Rightarrow> Credentials" where
  "demo_cred v = \<lparr>Headers = [''Authorization'' \<mapsto> v], Env = Map.empty, ExpiresAt = Some 1000\<rparr>"

definition demo_first :: "bytes cached" where
  "demo_first = (case fetched 10 0 ''expired'' False (Inr (Some (demo_cred ''a''))) 0 (new_cacheEntry 0) of
     (r, e, n) \<Rightarrow> \<lparr>c_entry = e, c_counter = n, c_fg = None, c_rf = None, c_served = [(demo_cred ''a'', 1)]\<rparr>)"

lemma demo_fetched: "fetched 10 0 ''expired'' False (Inr (Some (demo_cred ''a''))) 0 (new_cacheEntry 0) =
    (Inr (demo_cred ''a'', 1), c_entry demo_first, 1)"
  by (simp add: demo_first_def fetched_def store_def Let_def demo_cred_def new_cacheEntry_def ce_material_def)

lemma demo_first_eq: "c_counter demo_first = 1" "c_fg demo_first = None" "c_rf demo_first = None"
  "c_served demo_first = [(demo_cred ''a'', 1)]" "ce_creds (c_entry demo_first) = Some (demo_cred ''a'')"
  "ce_gen (c_entry demo_first) = 1" "ce_refreshAt (c_entry demo_first) = Some 990" "ce_refreshing (c_entry demo_first) = False"
  "ce_retryAt (c_entry demo_first) = None"
  by (simp_all add: demo_first_def fetched_def store_def Let_def demo_cred_def new_cacheEntry_def ce_material_def refresh_at_def)

lemma demo_first_reach: "cached_reach 10 ''expired'' demo_first"
proof -
  let ?s0 = "start_cached 0 0 :: bytes cached"
  have "ResolveGen_turn 0 (c_entry ?s0) = (Fetch, c_entry ?s0)"
    by (simp add: start_cached_def new_cacheEntry_def ResolveGen_turn_def time_before_def)
  then have "cached_step 10 ''expired'' ?s0 (?s0\<lparr>c_entry := c_entry ?s0, c_fg := Some 0\<rparr>)"
    by (rule cached_step.fetch [rotated]) (simp add: start_cached_def)
  then have 1: "cached_reach 10 ''expired'' (?s0\<lparr>c_fg := Some 0\<rparr>)"
    using cached_reach.more [OF cached_reach.start [of 10 "''expired''" 0 0]] by simp
  have "cached_step 10 ''expired'' (?s0\<lparr>c_fg := Some 0\<rparr>) (?s0\<lparr>c_fg := Some 0, c_entry := c_entry demo_first, c_counter := 1,
      c_fg := None, c_served := [(demo_cred ''a'', 1)]\<rparr>)"
    using cached_step.answered [of "?s0\<lparr>c_fg := Some 0\<rparr>" 0 10 "''expired''" False "Inr (Some (demo_cred ''a''))", OF _ ]
      demo_fetched by (simp add: start_cached_def)
  then have 2: "cached_reach 10 ''expired'' (?s0\<lparr>c_fg := Some 0, c_entry := c_entry demo_first, c_counter := 1,
      c_fg := None, c_served := [(demo_cred ''a'', 1)]\<rparr>)"
    by (rule cached_reach.more [OF 1])
  have "?s0\<lparr>c_fg := Some 0, c_entry := c_entry demo_first, c_counter := 1, c_fg := None, c_served := [(demo_cred ''a'', 1)]\<rparr> =
      demo_first"
    by (rule cached.equality) (simp_all add: start_cached_def demo_first_eq)
  with 2 show ?thesis by simp
qed

definition demo_serving :: "bytes cached" where
  "demo_serving = demo_first\<lparr>c_entry := (c_entry demo_first)\<lparr>ce_refreshing := True\<rparr>,
     c_served := [(demo_cred ''a'', 1), (demo_cred ''a'', 1)], c_rf := Some (ce_epoch (c_entry demo_first))\<rparr>"

lemma demo_turn: "ResolveGen_turn 995 (c_entry demo_first) = (Serve (demo_cred ''a'') 1 True, (c_entry demo_first)\<lparr>ce_refreshing := True\<rparr>)"
  by (simp add: ResolveGen_turn_def demo_first_eq still_valid_def time_before_def time_after_def Let_def)
    (simp add: demo_cred_def)

lemma demo_serving_reach: "cached_reach 10 ''expired'' demo_serving"
  using cached_reach.more [OF demo_first_reach cached_step.served [OF demo_first_eq(2) demo_turn]]
  by (simp add: demo_serving_def demo_first_eq)

lemma generation_identifies_material_witness: "same_material (fst (c_served demo_serving ! 0)) (fst (c_served demo_serving ! 1))"
  using generation_identifies_material [OF demo_serving_reach] by (simp add: demo_serving_def demo_first_eq)

lemma one_conversation_witness: "c_rf demo_serving \<noteq> None \<and> c_fg demo_serving = None"
  using one_conversation [OF demo_serving_reach] by (simp add: demo_serving_def demo_first_eq)

lemma serves_only_valid_witness: "still_valid 995 (demo_cred ''a'')"
proof -
  have "fetched 10 995 ''expired'' False (Inr (Some (demo_cred ''a''))) 0 (new_cacheEntry 0) =
    (Inr (demo_cred ''a'', 1), fst (snd (fetched 10 995 ''expired'' False (Inr (Some (demo_cred ''a''))) 0 (new_cacheEntry 0))), 1)"
    by (simp add: fetched_def store_def Let_def demo_cred_def new_cacheEntry_def ce_material_def)
  from serves_only_valid [OF demo_turn this] show ?thesis by simp
qed

lemma failing_source_left_alone_witness:
  "fst (ResolveGen_turn 999999999 (record_failure 0 ''down'' (new_cacheEntry 0))) \<noteq> Fetch"
proof -
  have "fetched 10 0 ''expired'' False (Inl ''down'') 0 (new_cacheEntry 0) =
      (Inl ''down'', record_failure 0 ''down'' (new_cacheEntry 0), 0)"
    by (simp add: fetched_def Let_def)
  from failing_source_left_alone [OF this, of 999999999] show ?thesis by (simp add: new_cacheEntry_def)
qed

end
