(* ===== verification/CredSources.thy ===== *)
theory CredSources
  imports CredCache Jsonrpc Subject
begin

text \<open>
  The sources of credentials (\<open>cred.go\<close>, \<open>static.go\<close>, \<open>file.go\<close> and \<open>nats.go\<close> of
  \<open>pkg/backend/cred\<close>): the interchange document, path placeholders, terminal failures and what the
  caller is told.  \<open>time.Parse\<close>, the file system and the responder on NATS are parameters; a time is
  \<open>None\<close> when it is Go's zero time.
\<close>

section \<open>Failures\<close>

datatype cred_error =
    CredParse unmarshal_error
  | CredExpiry bytes
  | CredRead bytes
  | CredRequest bytes
  | CredRefused bytes bytes
  | AlreadyExpired int
  | CredTerminal cred_error
  | CredFrom bytes cred_error

text \<open>\<open>CredFrom\<close> is an error wrapped with where it came from; \<open>errors.As\<close> looks through it.\<close>

fun IsTerminal :: "cred_error \<Rightarrow> bool" where
  "IsTerminal (CredTerminal e) = True"
| "IsTerminal (CredFrom s e) = IsTerminal e"
| "IsTerminal _ = False"

definition CallerMessage :: "cred_error \<Rightarrow> bytes \<Rightarrow> bytes" where
  "CallerMessage err ref =
     (if IsTerminal err
      then ''backend credentials unavailable, do not retry (gateway ref '' @ ref @ '')''
      else ''backend credentials temporarily unavailable, retry later (gateway ref '' @ ref @ '')'')"

section \<open>The interchange document\<close>

text \<open>\<open>map[string]string\<close>: a \<open>null\<close> document is the nil map, a \<open>null\<close> value the empty string.\<close>

fun decode_entries :: "(bytes \<times> jval) list \<Rightarrow> (bytes \<rightharpoonup> bytes) \<Rightarrow> (bytes \<rightharpoonup> bytes) option" where
  "decode_entries [] m = Some m"
| "decode_entries ((k, v) # kvs) m =
     (if v = json_null then decode_entries kvs (m(k \<mapsto> []))
      else (case v of JString s \<Rightarrow> decode_entries kvs (m(k \<mapsto> unquoted s)) | _ \<Rightarrow> None))"

definition decode_string_map :: "jval \<Rightarrow> (bytes \<rightharpoonup> bytes) \<Rightarrow> (bytes \<rightharpoonup> bytes) option" where
  "decode_string_map v m =
     (if v = json_null then Some Map.empty
      else (case v of JObject w ms \<Rightarrow> decode_entries (members_list ms) m | _ \<Rightarrow> None))"

definition credJSON_fields :: "bytes list" where
  "credJSON_fields = [''headers'', ''env'', ''expiresAt'']"

record credJSON =
  cj_headers :: "bytes \<rightharpoonup> bytes"
  cj_env :: "bytes \<rightharpoonup> bytes"
  cj_expiresAt :: bytes

fun decode_cred_members :: "(bytes \<times> jval) list \<Rightarrow> credJSON \<Rightarrow> credJSON option" where
  "decode_cred_members [] c = Some c"
| "decode_cred_members ((k, v) # kvs) c =
     (case field_of credJSON_fields k of
        None \<Rightarrow> decode_cred_members kvs c
      | Some f \<Rightarrow>
          if f = ''headers'' then
            (case decode_string_map v (cj_headers c) of None \<Rightarrow> None | Some m \<Rightarrow> decode_cred_members kvs (c\<lparr>cj_headers := m\<rparr>))
          else if f = ''env'' then
            (case decode_string_map v (cj_env c) of None \<Rightarrow> None | Some m \<Rightarrow> decode_cred_members kvs (c\<lparr>cj_env := m\<rparr>))
          else if v = json_null then decode_cred_members kvs c
          else (case v of JString s \<Rightarrow> decode_cred_members kvs (c\<lparr>cj_expiresAt := unquoted s\<rparr>) | _ \<Rightarrow> None))"

definition decodeCredentials :: "(bytes \<Rightarrow> int option option) \<Rightarrow> bytes \<Rightarrow> cred_error + Credentials" where
  "decodeCredentials parse_time data =
     (let raw = (case json_parse data of
                   None \<Rightarrow> Inl SyntaxError
                 | Some v \<Rightarrow>
                     (let zero = \<lparr>cj_headers = Map.empty, cj_env = Map.empty, cj_expiresAt = []\<rparr> in
                      if v = json_null then Inr zero
                      else (case v of
                              JObject w ms \<Rightarrow>
                                (case decode_cred_members (members_list ms) zero of
                                   None \<Rightarrow> Inl UnmarshalTypeError | Some c \<Rightarrow> Inr c)
                            | _ \<Rightarrow> Inl UnmarshalTypeError)))
      in case raw of
           Inl e \<Rightarrow> Inl (CredParse e)
         | Inr c \<Rightarrow>
             if cj_expiresAt c \<noteq> [] then
               (case parse_time (cj_expiresAt c) of
                  None \<Rightarrow> Inl (CredExpiry (cj_expiresAt c))
                | Some t \<Rightarrow> Inr \<lparr>Headers = cj_headers c, Env = cj_env c, ExpiresAt = t\<rparr>)
             else Inr \<lparr>Headers = cj_headers c, Env = cj_env c, ExpiresAt = None\<rparr>)"

section \<open>Placeholders\<close>

text \<open>\<open>strings.NewReplacer\<close> scans once from the left and does not look at what it put in.\<close>

function expandPath :: "bytes \<Rightarrow> bytes \<Rightarrow> bytes \<Rightarrow> bytes \<Rightarrow> bytes" where
  "expandPath path tenant user server =
     (case strings_CutPrefix path ''{tenant}'' of
        Some r \<Rightarrow> tenant @ expandPath r tenant user server
      | None \<Rightarrow>
     (case strings_CutPrefix path ''{user}'' of
        Some r \<Rightarrow> user @ expandPath r tenant user server
      | None \<Rightarrow>
     (case strings_CutPrefix path ''{server}'' of
        Some r \<Rightarrow> server @ expandPath r tenant user server
      | None \<Rightarrow> (case path of [] \<Rightarrow> [] | c # r \<Rightarrow> c # expandPath r tenant user server))))"
  by pat_completeness auto
termination
  by (relation "measure (\<lambda>(path, _). length path)") (auto simp: strings_CutPrefix_Some)

declare expandPath.simps [simp del]

section \<open>Sources\<close>

definition Static :: "(bytes \<rightharpoonup> bytes) \<Rightarrow> (bytes \<rightharpoonup> bytes) \<Rightarrow> cred_error + Credentials" where
  "Static headers env = Inr \<lparr>Headers = headers, Env = env, ExpiresAt = None\<rparr>"

definition File_Resolve ::
  "(bytes \<Rightarrow> bytes option) \<Rightarrow> (bytes \<Rightarrow> int option option) \<Rightarrow> bytes \<Rightarrow> int \<Rightarrow> int \<Rightarrow> bytes \<Rightarrow> bytes \<Rightarrow> bytes \<Rightarrow> cred_error + Credentials" where
  "File_Resolve read_file parse_time tpl ttl now tenant user server =
     (let path = expandPath tpl tenant user server in
      case read_file path of
        None \<Rightarrow> Inl (CredRead path)
      | Some data \<Rightarrow>
          (case decodeCredentials parse_time data of
             Inl e \<Rightarrow> Inl (CredFrom path e)
           | Inr c \<Rightarrow>
               if ExpiresAt c = None then Inr (c\<lparr>ExpiresAt := Some (now + (if ttl \<le> 0 then 60 * 1000000000 else ttl))\<rparr>)
               else Inr c))"

text \<open>The responder gives a \<open>Nats-Service-Error\<close> header (empty when it has none) and a body.\<close>

definition NATS_Resolve ::
  "(bytes \<Rightarrow> (bytes \<times> bytes) option) \<Rightarrow> (bytes \<Rightarrow> int option option) \<Rightarrow> bytes \<Rightarrow> bytes \<Rightarrow> bytes \<Rightarrow> bytes \<Rightarrow> cred_error + Credentials" where
  "NATS_Resolve responder parse_time pfx0 tenant user server =
     (let pfx = (if pfx0 = [] then DefaultPrefix @ ''.cred'' else pfx0);
          subject = pfx @ ''.'' @ tenant @ ''.'' @ user @ ''.'' @ server
      in case responder subject of
           None \<Rightarrow> Inl (CredRequest subject)
         | Some (svcErr, data) \<Rightarrow>
             if svcErr \<noteq> [] then Inl (CredTerminal (CredRefused subject svcErr))
             else (case decodeCredentials parse_time data of
                     Inl e \<Rightarrow> Inl (CredFrom subject e)
                   | Inr c \<Rightarrow> Inr c))"

section \<open>Placeholders cannot leave their segment\<close>

lemma expandPath_tenant [simp]: "expandPath (''{tenant}'' @ r) t u s = t @ expandPath r t u s"
  by (subst expandPath.simps) simp

lemma expandPath_user [simp]: "expandPath (''{user}'' @ r) t u s = u @ expandPath r t u s"
  by (subst expandPath.simps) simp

lemma expandPath_server [simp]: "expandPath (''{server}'' @ r) t u s = s @ expandPath r t u s"
  by (subst expandPath.simps) simp

lemma expandPath_Nil [simp]: "expandPath [] t u s = []"
  by (subst expandPath.simps) simp

definition no_placeholder :: "bytes \<Rightarrow> bool" where
  "no_placeholder p \<longleftrightarrow> \<not> strings_HasPrefix p ''{tenant}'' \<and> \<not> strings_HasPrefix p ''{user}'' \<and> \<not> strings_HasPrefix p ''{server}''"

lemma expandPath_plain: "no_placeholder (c # r) \<Longrightarrow> expandPath (c # r) t u s = c # expandPath r t u s"
  by (subst expandPath.simps) (auto simp: no_placeholder_def strings_HasPrefix_def split: option.split)

lemma strings_Split_glue:
  "sep \<notin> set a \<Longrightarrow> strings_Split (a @ s) sep = (a @ hd (strings_Split s sep)) # tl (strings_Split s sep)"
  by (induction a) (auto split: list.splits)

lemma strings_Split_hd_prefix: "\<exists>rest. s = hd (strings_Split s sep) @ rest"
proof (induction s)
  case (Cons c s)
  then obtain rest where "s = hd (strings_Split s sep) @ rest" by blast
  then show ?case by (cases "strings_Split s sep") auto
qed simp

lemma no_placeholder_prefix: "no_placeholder (p @ q) \<Longrightarrow> no_placeholder p"
  by (auto simp: no_placeholder_def strings_HasPrefix_def strings_CutPrefix_Some split: option.splits)

lemma expandPath_induct [case_names empty tenant user server plain]:
  assumes "P []" "\<And>r. P r \<Longrightarrow> P (''{tenant}'' @ r)" "\<And>r. P r \<Longrightarrow> P (''{user}'' @ r)" "\<And>r. P r \<Longrightarrow> P (''{server}'' @ r)"
    "\<And>c r. no_placeholder (c # r) \<Longrightarrow> P r \<Longrightarrow> P (c # r)"
  shows "P p"
proof (induction p rule: length_induct)
  case (1 p)
  consider r where "p = ''{tenant}'' @ r" | r where "p = ''{user}'' @ r" | r where "p = ''{server}'' @ r" | "no_placeholder p"
    by (auto simp: no_placeholder_def strings_HasPrefix_def strings_CutPrefix_Some split: option.splits)
  then show ?case
  proof cases
    case 4
    with 1 assms(1,5) show ?thesis by (cases p) auto
  qed (use 1 assms in auto)
qed

lemma TokenSafe_chars: "TokenSafe t \<Longrightarrow> CHR ''/'' \<notin> set t"
  by (auto simp: TokenSafe_def list_all_iff token_char_def)

lemma expandPath_segments:
  assumes "TokenSafe t" "TokenSafe u" "TokenSafe s"
  shows "strings_Split (expandPath p t u s) (CHR ''/'') = map (\<lambda>seg. expandPath seg t u s) (strings_Split p (CHR ''/''))"
proof (induction p rule: expandPath_induct)
  case (tenant r)
  have "strings_Split (''{tenant}'' @ r) (CHR ''/'') = (''{tenant}'' @ hd (strings_Split r (CHR ''/''))) # tl (strings_Split r (CHR ''/''))"
    by (rule strings_Split_glue) simp
  with tenant show ?case
    using strings_Split_glue [OF TokenSafe_chars [OF assms(1)], of "expandPath r t u s"]
    by (cases "strings_Split r (CHR ''/'')") (auto simp del: append.simps)
next
  case (user r)
  have "strings_Split (''{user}'' @ r) (CHR ''/'') = (''{user}'' @ hd (strings_Split r (CHR ''/''))) # tl (strings_Split r (CHR ''/''))"
    by (rule strings_Split_glue) simp
  with user show ?case
    using strings_Split_glue [OF TokenSafe_chars [OF assms(2)], of "expandPath r t u s"]
    by (cases "strings_Split r (CHR ''/'')") (auto simp del: append.simps)
next
  case (server r)
  have "strings_Split (''{server}'' @ r) (CHR ''/'') = (''{server}'' @ hd (strings_Split r (CHR ''/''))) # tl (strings_Split r (CHR ''/''))"
    by (rule strings_Split_glue) simp
  with server show ?case
    using strings_Split_glue [OF TokenSafe_chars [OF assms(3)], of "expandPath r t u s"]
    by (cases "strings_Split r (CHR ''/'')") (auto simp del: append.simps)
next
  case (plain c r)
  show ?case
  proof (cases "c = CHR ''/''")
    case True
    with plain show ?thesis by (simp add: expandPath_plain)
  next
    case False
    obtain a as where s: "strings_Split r (CHR ''/'') = a # as" by (cases "strings_Split r (CHR ''/'')") auto
    obtain rest where "r = a @ rest" using strings_Split_hd_prefix [of r "CHR ''/''"] s by auto
    with plain(1) have "no_placeholder (c # a)" using no_placeholder_prefix [of "c # a" rest] by simp
    with False s plain show ?thesis by (simp add: expandPath_plain)
  qed
qed simp

lemma expandPath_changed:
  assumes "TokenSafe t" "TokenSafe u" "TokenSafe s"
  shows "expandPath p t u s = p \<or> (\<exists>c\<in>set (expandPath p t u s). token_char c)"
proof (induction p rule: expandPath_induct)
  case (plain c r)
  then show ?case by (auto simp: expandPath_plain)
qed (use assms in \<open>auto simp: TokenSafe_def neq_Nil_conv simp del: append.simps(2)\<close>)

text \<open>
  Placeholders cannot be used for path traversal: with subject tokens for tenant, user and server
  the expanded path has the segments of the configured one, each expanded on its own, and a segment
  that comes out empty, \<open>.\<close> or \<open>..\<close> was written like that in the configuration.
\<close>

theorem expandPath_stays_put:
  assumes "TokenSafe t" "TokenSafe u" "TokenSafe s"
  shows "strings_Split (expandPath p t u s) (CHR ''/'') = map (\<lambda>seg. expandPath seg t u s) (strings_Split p (CHR ''/'')) \<and>
    (expandPath seg t u s \<in> {[], ''.'', ''..''} \<longrightarrow> expandPath seg t u s = seg)"
  using expandPath_segments [OF assms] expandPath_changed [OF assms, of seg] by (auto simp: token_char_def)

lemma expandPath_stays_put_witness:
  "strings_Split (expandPath ''/run/{tenant}/{user}'' ''acme'' ''bob'' ''fs'') (CHR ''/'') = [[], ''run'', ''acme'', ''bob'']"
proof -
  have "TokenSafe ''acme'' \<and> TokenSafe ''bob'' \<and> TokenSafe ''fs''" by code_simp
  with expandPath_stays_put [of "''acme''" "''bob''" "''fs''" "''/run/{tenant}/{user}''" "[]"]
  have "strings_Split (expandPath ''/run/{tenant}/{user}'' ''acme'' ''bob'' ''fs'') (CHR ''/'') =
      map (\<lambda>seg. expandPath seg ''acme'' ''bob'' ''fs'') [[], ''run'', ''{tenant}'', ''{user}'']" by simp
  also have "\<dots> = [[], ''run'', ''acme'', ''bob'']" by code_simp
  finally show ?thesis .
qed

end
