(* ===== verification/Proxy.thy ===== *)
theory Proxy
  imports Integrity Dispatch CredSources Pool Mux
begin

text \<open>
  The request path (\<open>pkg/proxy/proxy.go\<close>): the integrity check, the credentials, the pool and the
  backend call, composed as \<open>Handler\<close> composes them, and what the whole gateway guarantees about the
  identity a request runs under.  The credential cache, the pool and the connection answer through
  parameters; their own theories say what these answers can be.
\<close>

section \<open>The handler\<close>

text \<open>\<open>CredLookup\<close>: whether a server has a resolver, and whether it resolves per user.\<close>

type_synonym cred_lookup = "bytes \<Rightarrow> bool option"

text \<open>What the handler answers or asks before it has a backend.\<close>

datatype pre_plan =
    Answer int bytes go_data
  | AskPool Key bytes

definition unattributed_message :: "bytes \<Rightarrow> bytes" where
  "unattributed_message server =
     ''backend credentials unavailable, do not retry: server '' @ [CHR 0x22] @ server @ [CHR 0x22] @
     '' resolves credentials per user and this request is unattributed (subject user token '' @
     [CHR 0x22] @ UserUnattributed @ [CHR 0x22] @ '') '' @ [CHR 0xE2, CHR 0x80, CHR 0x94] @
     '' publish under a {user} token minted by per-user NATS auth''"

text \<open>\<open>say\<close> and \<open>details\<close> render a rejection of the check; \<open>resolve tenant user server\<close> is \<open>ResolveGen\<close>.\<close>

definition Handler_pre ::
  "(CheckError \<Rightarrow> bytes) \<Rightarrow> (CheckError \<Rightarrow> go_data) \<Rightarrow> cred_lookup \<Rightarrow> (bytes \<Rightarrow> bytes \<Rightarrow> bytes \<Rightarrow> cred_error + int) \<Rightarrow> bytes \<Rightarrow>
     Inbound \<Rightarrow> pre_plan" where
  "Handler_pre say details creds resolve ref i =
     (case Check i of
        Inl e \<Rightarrow> Answer (check_code e) (say e) (details e)
      | Inr name \<Rightarrow>
          (let server = Server (in_subject i); tenant = Tenant (in_subject i); user = User (in_subject i);
               pk = \<lparr>k_Server = server, k_Tenant = tenant, k_CredSet = [], k_CredVersion = 0\<rparr>
           in case creds server of
                None \<Rightarrow> AskPool pk name
              | Some perUser \<Rightarrow>
                  if perUser \<and> user = UserUnattributed
                  then Answer ErrCodeCredentialUnavailable (unattributed_message server) NilData
                  else (let credUser = (if perUser then user else UserUnattributed) in
                        case resolve tenant credUser server of
                          Inl e \<Rightarrow> Answer ErrCodeCredentialUnavailable (CallerMessage e ref) NilData
                        | Inr gen \<Rightarrow>
                            AskPool (pk\<lparr>k_CredSet := (if perUser then credUser else []), k_CredVersion := gen\<rparr>) name)))"

text \<open>Why the pool gives no backend, as \<open>errors.Is\<close> and \<open>errors.As\<close> see it; \<open>CallCancelled\<close> is a context that ended.\<close>

datatype pool_failure =
    CallCancelled
  | IdentityRequired bytes
  | CredUnavailable bytes
  | OtherFailure bytes

definition pool_failed :: "bytes \<Rightarrow> pool_failure \<Rightarrow> task list" where
  "pool_failed ref f =
     (case f of
        CallCancelled \<Rightarrow> []
      | IdentityRequired err \<Rightarrow>
          [ErrTask ErrCodeCredentialUnavailable (''backend credentials temporarily unavailable, retry later: '' @ err) NilData]
      | CredUnavailable message \<Rightarrow> [ErrTask ErrCodeCredentialUnavailable message NilData]
      | OtherFailure err \<Rightarrow>
          [ErrTask ErrCodeStreamLost (''backend unavailable, re-issue the request (gateway ref '' @ ref @ '')'') NilData])"

definition notify_tasks :: "message list \<Rightarrow> task list" where
  "notify_tasks ns = concat (map (\<lambda>n. case Encode n of Inl e \<Rightarrow> [] | Inr body \<Rightarrow> [MsgTask body]) ns)"

text \<open>\<open>mux.Call\<close> returned; a caller whose context ended gets no frame from the handler.\<close>

definition call_tasks :: "bytes \<Rightarrow> bool \<Rightarrow> call_result \<Rightarrow> task list" where
  "call_tasks ref ctx_ended r =
     (case r of
        Returned resp \<Rightarrow>
          (case Encode resp of
             Inl e \<Rightarrow> [ErrTask CodeInternalError ''response encoding failed'' NilData]
           | Inr body \<Rightarrow> [EndTask (Some body)])
      | _ \<Rightarrow>
          if ctx_ended then []
          else if r = ConnDead
          then [ErrTask ErrCodeStreamLost ''backend connection lost mid-request, re-issue the request'' NilData]
          else [ErrTask ErrCodeStreamLost (''backend call failed, re-issue the request (gateway ref '' @ ref @ '')'') NilData])"

text \<open>The answers of the pool and of the connection.\<close>

record backend_answer =
  ba_pool :: "pool_failure option"
  ba_notes :: "message list"
  ba_result :: call_result
  ba_ctx_ended :: bool

definition Handler ::
  "(CheckError \<Rightarrow> bytes) \<Rightarrow> (CheckError \<Rightarrow> go_data) \<Rightarrow> cred_lookup \<Rightarrow> (bytes \<Rightarrow> bytes \<Rightarrow> bytes \<Rightarrow> cred_error + int) \<Rightarrow> bytes \<Rightarrow>
     (Key \<Rightarrow> message \<Rightarrow> backend_answer) \<Rightarrow> Inbound \<Rightarrow> task list" where
  "Handler say details creds resolve ref backend i =
     (case Handler_pre say details creds resolve ref i of
        Answer code message d \<Rightarrow> [ErrTask code message d]
      | AskPool pk name \<Rightarrow>
          (let a = backend pk (in_msg i) in
           case ba_pool a of
             Some f \<Rightarrow> pool_failed ref f
           | None \<Rightarrow> notify_tasks (ba_notes a) @ call_tasks ref (ba_ctx_ended a) (ba_result a)))"

lemma Handler_shape: "handler_shape (Handler say details creds resolve ref backend i)"
proof -
  have msgs: "\<exists>bs. notify_tasks ns = map MsgTask bs" for ns
  proof (induction ns)
    case (Cons n ns)
    then obtain bs where "notify_tasks ns = map MsgTask bs" by blast
    then show ?case
      by (cases "Encode n") (auto simp: notify_tasks_def intro: exI [of _ bs] exI [of _ "_ # bs"])
  qed (simp add: notify_tasks_def)
  have call: "length (call_tasks ref e r) \<le> 1 \<and> (\<forall>t\<in>set (call_tasks ref e r). (\<exists>b. t = EndTask b) \<or> (\<exists>code m d. t = ErrTask code m d))" for e r
    by (auto simp: call_tasks_def split: call_result.split sum.split)
  have single: "handler_shape ts" if "length ts \<le> 1" "\<forall>t\<in>set ts. (\<exists>b. t = EndTask b) \<or> (\<exists>code m d. t = ErrTask code m d)" for ts
    unfolding handler_shape_def by (rule exI [of _ "[]"], rule exI [of _ ts]) (use that in simp)
  show ?thesis
  proof (cases "Handler_pre say details creds resolve ref i")
    case (Answer code m d)
    then show ?thesis by (intro single) (simp_all add: Handler_def)
  next
    case (AskPool pk name)
    let ?a = "backend pk (in_msg i)"
    show ?thesis
    proof (cases "ba_pool ?a")
      case None
      obtain bs where "notify_tasks (ba_notes ?a) = map MsgTask bs" using msgs by blast
      with None AskPool call [of "ba_ctx_ended ?a" "ba_result ?a"] show ?thesis
        unfolding handler_shape_def Handler_def by (simp add: Let_def) blast
    next
      case (Some e)
      then have "Handler say details creds resolve ref backend i = pool_failed ref e" by (simp add: Handler_def AskPool Let_def)
      then show ?thesis by (simp only:) (rule single; cases e; simp add: pool_failed_def)
    qed
  qed
qed

section \<open>From the subject to the backend\<close>

lemma Handler_pre_AskPool:
  assumes "Handler_pre say details creds resolve ref i = AskPool pk name"
  shows "Check i = Inr name" "k_Server pk = Server (in_subject i)" "k_Tenant pk = Tenant (in_subject i)"
    "k_CredSet pk = (if creds (k_Server pk) = Some True then User (in_subject i) else [])"
    "creds (k_Server pk) = Some True \<Longrightarrow> User (in_subject i) \<noteq> UserUnattributed"
  using assms by (auto simp: Handler_pre_def Let_def split: sum.splits option.splits if_splits)

text \<open>
  C1. From the NATS subject to the backend: when a request that arrived on a subject reaches the pool,
  then the subject, which NATS enforced, has the form prefix, tenant, user, server, method, name; the
  backend is keyed by that tenant and that server and, for a server with per-user credentials, by that
  user, who is not the unattributed one; and every parser a backend may use reads from the forwarded
  body a name whose subject token is the one that was authorized.
\<close>

theorem authorized_end_to_end:
  assumes "dispatch_check pfx rq = RunHandler i ctl" "Handler_pre say details creds resolve ref i = AskPool pk name"
    and "NameField (Method (in_msg i)) \<noteq> []" "\<And>a. same a a" "\<And>a b. same a b \<Longrightarrow> EqualFoldKey a b"
  shows "\<exists>user methods w ms raw.
    rq_Subject rq = default_prefix pfx @ ''.req.'' @ k_Tenant pk @ ''.'' @ user @ ''.'' @ k_Server pk @ ''.'' @
      strings_Join methods ''.'' @ ''.'' @ SubjectNameToken (Method (in_msg i)) name \<and>
    strings_Split (Method (in_msg i)) (CHR ''/'') = methods \<and>
    list_all TokenSafe [k_Tenant pk, user, k_Server pk] \<and>
    k_CredSet pk = (if creds (k_Server pk) = Some True then user else []) \<and>
    (creds (k_Server pk) = Some True \<longrightarrow> user \<noteq> UserUnattributed) \<and>
    Decode (rq_Data rq) = Inr (in_msg i) \<and>
    json_parse (raw_bytes (msg_params (in_msg i))) = Some (JObject w ms) \<and>
    reader same take_last ms (NameField (Method (in_msg i))) = Some raw \<and> unmarshal_string raw = Inr name"
proof -
  note k = Handler_pre_AskPool [OF assms(2)]
  have s: "ParseSubject (rq_Subject rq) pfx = Inr (in_subject i)" "Decode (rq_Data rq) = Inr (in_msg i)"
    using assms(1) by (auto simp: dispatch_check_def Let_def split: if_splits sum.splits)
  note p = Parse_parts [OF s(1)]
  from Check_authorized [OF k(1) assms(3), of same take_last] assms(4,5)
  obtain w ms raw where c: "subj_Method (in_subject i) = Method (in_msg i)"
    "Name (in_subject i) = SubjectNameToken (Method (in_msg i)) name"
    "json_parse (raw_bytes (msg_params (in_msg i))) = Some (JObject w ms)"
    "reader same take_last ms (NameField (Method (in_msg i))) = Some raw" "unmarshal_string raw = Inr name"
    by blast
  show ?thesis
    using p c s(2) k
    by (intro exI [of _ "User (in_subject i)"] exI [of _ "strings_Split (Method (in_msg i)) (CHR ''/'')"]
        exI [of _ w] exI [of _ ms] exI [of _ raw]) (simp add: k(2,3))
qed

text \<open>
  C15. Credentials cannot cross identities: what a request asks the pool for, and what it is answered,
  depends on the credential source only through the credentials of its own tenant and server and of
  its own user, or of no user where the server is not configured per user.
\<close>

theorem credentials_stay_with_identity:
  assumes "resolve1 (Tenant (in_subject i)) (User (in_subject i)) (Server (in_subject i)) =
      resolve2 (Tenant (in_subject i)) (User (in_subject i)) (Server (in_subject i))"
    and "resolve1 (Tenant (in_subject i)) UserUnattributed (Server (in_subject i)) =
      resolve2 (Tenant (in_subject i)) UserUnattributed (Server (in_subject i)) \<or> creds (Server (in_subject i)) = Some True"
  shows "Handler_pre say details creds resolve1 ref i = Handler_pre say details creds resolve2 ref i"
  using assms by (auto simp: Handler_pre_def Let_def split: sum.split option.split)

section \<open>What a request is answered\<close>

text \<open>
  What is owed to a request that was not refused by \<open>dispatch\<close>, whatever the wording: the refusal of the
  check or of the credentials; an error with the code of what went wrong; the response of the backend; and
  if the request was cancelled or cut short, what its cause asks for.
\<close>

definition owed :: "wenv \<Rightarrow> cause \<Rightarrow> bytes option \<Rightarrow> pre_plan \<Rightarrow> (Key \<Rightarrow> backend_answer) \<Rightarrow> wire_frame \<Rightarrow> bool" where
  "owed env c herr pre backend f \<longleftrightarrow>
     (case pre of
        Answer code m d \<Rightarrow> f = err_answer env code m d
      | AskPool pk name \<Rightarrow>
          (case ba_pool (backend pk) of
             Some CallCancelled \<Rightarrow> final_answer env c herr f
           | Some (IdentityRequired e) \<Rightarrow> \<exists>m. f = err_answer env ErrCodeCredentialUnavailable m NilData
           | Some (CredUnavailable m) \<Rightarrow> f = err_answer env ErrCodeCredentialUnavailable m NilData
           | Some (OtherFailure e) \<Rightarrow> \<exists>m. f = err_answer env ErrCodeStreamLost m NilData
           | None \<Rightarrow>
               (case ba_result (backend pk) of
                  Returned resp \<Rightarrow>
                    (case Encode resp of
                       Inr body \<Rightarrow> end_answer env body f
                     | Inl e \<Rightarrow> \<exists>m. f = err_answer env CodeInternalError m NilData)
                | _ \<Rightarrow>
                    if ba_ctx_ended (backend pk) then final_answer env c herr f
                    else \<exists>m. f = err_answer env ErrCodeStreamLost m NilData)))"

lemma notes_not_ending: "filter ending (notify_tasks ns) = []"
  by (induction ns) (auto simp: notify_tasks_def split: sum.split)

lemma Handler_owed:
  assumes "answers env (answer_task (Handler say details creds resolve ref backend i) c herr) f"
  shows "owed env c herr (Handler_pre say details creds resolve ref i) (\<lambda>pk. backend pk (in_msg i)) f"
proof (cases "Handler_pre say details creds resolve ref i")
  case (Answer code m d)
  with assms show ?thesis by (simp add: Handler_def answer_task_def owed_def)
next
  case (AskPool pk name)
  let ?a = "backend pk (in_msg i)"
  show ?thesis
  proof (cases "ba_pool ?a")
    case None
    with AskPool assms have "answers env (answer_task (call_tasks ref (ba_ctx_ended ?a) (ba_result ?a)) c herr) f"
      by (simp add: Handler_def answer_task_def notes_not_ending Let_def)
    with AskPool None show ?thesis
      by (cases "ba_result ?a")
        (auto simp: owed_def call_tasks_def answer_task_def body_of_def split: sum.splits if_splits)
  next
    case (Some e)
    with AskPool assms show ?thesis
      by (cases e) (auto simp: Handler_def owed_def pool_failed_def answer_task_def)
  qed
qed

text \<open>
  C18. Every request that the gateway takes on is answered once, with what it is owed.  Whatever the check,
  the credentials, the pool, the backend and the connection do, and however the goroutines that write its
  stream interleave: a run that is not over can go on and comes closer to its end with every step; when
  it is over, the one frame that ends the stream is the answer that is owed to the request, and it went
  out, alone, if it fits \<open>max_payload\<close>.  It does unless it is a reference to a parked response, or an
  error of which nothing is left but its code and the request's id, which is never shed, so that a
  request whose id fills a message by itself gets no frame at all.
\<close>

theorem gateway_answers_once:
  assumes "dispatch_check pfx rq = RunHandler i ctl" "fst (beginRequest dr)"
    and "dispatch dr text_of pfx env rq (Handler say details creds resolve ref backend i) kas c herr = (env', init)"
    and "dispatch_reach env' publish_ok init (w, ts)"
  shows "if list_all (\<lambda>t. t = DoneTask) ts
    then \<exists>f. owed env' c herr (Handler_pre say details creds resolve ref i) (\<lambda>pk. backend pk (in_msg i)) f \<and>
      filter terminal (w_out w) = (if fits (ovh env') (maxPayload env') f then [f] else []) \<and>
      (fits (ovh env') (maxPayload env') f \<or> (\<exists>cid. f = claim_frame cid) \<or>
        shed_frame (maxPayload env') (ID (in_msg i)) f \<or> shed_frame (maxPayload env') None f)
    else (\<exists>s'. dispatch_step env' publish_ok (w, ts) s') \<and>
      (\<forall>s'. dispatch_step env' publish_ok (w, ts) s' \<longrightarrow> total_rank s' < total_rank (w, ts))"
proof (cases "list_all (\<lambda>t. t = DoneTask) ts")
  case True
  obtain f where f: "answers env' (answer_task (Handler say details creds resolve ref backend i) c herr) f"
    "ending (answer_task (Handler say details creds resolve ref backend i) c herr)"
    "filter terminal (w_out w) = (if fits (ovh env') (maxPayload env') f then [f] else [])"
    by (rule dispatch_run [OF assms(1,2) Handler_shape assms(3,4) True])
  have "req_id env' = ID (in_msg i)"
    using assms(1-3) by (auto simp: dispatch_def Let_def dispatch_env_def)
  with answer_fits [OF f(1,2)] Handler_owed [OF f(1)] f(3) True show ?thesis by auto
qed (use dispatch_progress dispatch_step_rank in simp)

lemma wait_parts: "escape_string ''wait'' = ''wait''" "escape_string ''2.0'' = ''2.0''" "marshal_raw ''1'' = Inr (JScalar ''1'')"
  by code_simp+

lemma wait_code: "itoa ErrCodeCredentialUnavailable = ''-32014''"
proof -
  have "char_of (48 :: nat) = CHR ''0''" "char_of (49 :: nat) = CHR ''1''" "char_of (50 :: nat) = CHR ''2''"
    "char_of (51 :: nat) = CHR ''3''" "char_of (52 :: nat) = CHR ''4''"
    by code_simp+
  then show ?thesis by (simp add: itoa_def ErrCodeCredentialUnavailable_def nat_digits.simps digit_char_def)
qed

lemma wait_encoded:
  "Encode (NewErrorResponse (Some ''1'') ErrCodeCredentialUnavailable ''wait'' None) =
     Inr (json_text ''{~jsonrpc~:~2.0~,~id~:1,~error~:{~code~:-32014,~message~:~wait~}}'')"
  by (simp add: Encode_def message_fields_of_def NewErrorResponse_def zero_message_def raw_field_def error_field_def
      bind_err_def wait_parts wait_code mk_object_def marshal_string_def marshal_int_def json_text_def)

lemma wait_fits: "fits (ovh ex_wenv) (maxPayload ex_wenv)
    (errWithID_frame (ovh ex_wenv) (maxPayload ex_wenv) (Some ''1'') ErrCodeCredentialUnavailable ''wait'' NilData)"
  by (simp add: errWithID_frame_def default_message_def data_raw_def wait_encoded fitErrFrame_def ex_wenv_def errOverhead_def
      json_text_def)

text \<open>Such an id: nothing goes out, as the test \<open>TestErrFrameNeverShedsTheID\<close> pins it.\<close>

lemma long_id_encoded:
  "Encode (NewErrorResponse (Some (json_text ''~iiiiiiiiii~'')) code message None) = Inr b \<Longrightarrow> 12 \<le> length b"
proof -
  have "json_parse (json_text ''~iiiiiiiiii~'') = Some (JString ''iiiiiiiiii'')" by code_simp
  moreover assume "Encode (NewErrorResponse (Some (json_text ''~iiiiiiiiii~'')) code message None) = Inr b"
  ultimately show ?thesis
    by (auto simp: Encode_def message_fields_of_def NewErrorResponse_def zero_message_def raw_field_def marshal_raw_def
        bind_err_Inr mk_object_def json_text_def split: if_splits)
qed

lemma unanswerable_id:
  "\<not> fits (\<lambda>_ _ _. 40) 51 (errWithID_frame (\<lambda>_ _ _. 40) 51 (Some (json_text ''~iiiiiiiiii~'')) code message NilData)"
proof -
  let ?i = "Some (json_text ''~iiiiiiiiii~'')"
  have parse: "marshal_raw (json_text ''~iiiiiiiiii~'') = Inr (JString ''iiiiiiiiii'')" "json_text ''~iiiiiiiiii~'' \<noteq> []" by code_simp+
  obtain b where "Encode (NewErrorResponse ?i code (default_message message) None) = Inr b"
    by (auto simp: Encode_def message_fields_of_def NewErrorResponse_def zero_message_def raw_field_def error_field_def
        bind_err_def parse)
  then show ?thesis
    by (auto simp: errWithID_frame_def fitErrFrame_def Let_def data_raw_def errOverhead_def
        split: sum.splits dest!: long_id_encoded)
qed

section \<open>Examples\<close>

definition ex_body :: bytes where
  "ex_body = json_text ''{~jsonrpc~:~2.0~,~id~:1,~method~:~tools/call~,~params~:'' @ ex_params @ ''}''"

definition ex_wire :: wire_request where
  "ex_wire = \<lparr>rq_Subject = ''mcp.v1.req.acme._.gh.tools.call.get_issue'', rq_Reply = ''_INBOX.a'',
     rq_Header = (\<lambda>h. if h = HeaderWire then WireVersion else hdr ex_inbound h), rq_Data = ex_body\<rparr>"

abbreviation ex_in :: Inbound where
  "ex_in \<equiv> ex_inbound\<lparr>hdr := rq_Header ex_wire\<rparr>"

lemma ex_body_Decode: "Decode ex_body = Inr (in_msg ex_inbound)"
proof -
  have parse: "json_parse ex_body = Some (JObject [] (MCons [] ''jsonrpc'' [] [] (JString ''2.0'') []
      (MCons [] ''id'' [] [] (JScalar ''1'') [] (MCons [] ''method'' [] [] (JString ''tools/call'') []
      (MCons [] ''params'' [] [] (the (json_parse ex_params)) [] MNil)))))"
    by code_simp
  have r: "render (the (json_parse ex_params)) = ex_params" by code_simp
  have n: "the (json_parse ex_params) \<noteq> json_null" by (simp add: ex_params_parse json_null_def)
  show ?thesis
    unfolding Decode_def unmarshal_message_def parse
    by (simp add: json_null_def unquoted_def unquote_plain field_of_def message_fields_def into_string_def
        zero_message_def Kind_def HasID_def ex_inbound_def r n)
qed

lemma ex_dispatch_check: "dispatch_check ''mcp.v1'' ex_wire = RunHandler ex_in ''_INBOX.a.ctl''"
proof -
  have "usableReplySubject ''_INBOX.a'' ''mcp.v1''" by code_simp
  moreover have "ParseSubject ''mcp.v1.req.acme._.gh.tools.call.get_issue'' ''mcp.v1'' = Inr (in_subject ex_inbound)"
    unfolding ex_inbound_def by code_simp
  ultimately show ?thesis
    by (simp add: dispatch_check_def ex_wire_def ex_body_Decode ctlSuffix_def)
qed

lemma ex_in_Check: "Check ex_in = Inr ''get_issue''"
proof -
  have "hdr ex_in h = hdr ex_inbound h" if "h \<in> {HeaderMethod, HeaderName, HeaderProtocolVersion}" for h
    using that by (auto simp: ex_wire_def HeaderWire_def HeaderMethod_def HeaderName_def HeaderProtocolVersion_def)
  with ex_Check show ?thesis unfolding Check_Inr by simp
qed

lemma ex_Handler_pre: "Handler_pre say details (\<lambda>_. None) resolve ref ex_in =
    AskPool \<lparr>k_Server = ''gh'', k_Tenant = ''acme'', k_CredSet = [], k_CredVersion = 0\<rparr> ''get_issue''"
  by (simp add: Handler_pre_def ex_in_Check) (simp add: ex_inbound_def)

lemma authorized_end_to_end_witness:
  "\<exists>user methods. rq_Subject ex_wire =
     ''mcp.v1'' @ ''.req.'' @ ''acme'' @ ''.'' @ user @ ''.'' @ ''gh'' @ ''.'' @ strings_Join methods ''.'' @ ''.'' @ ''get_issue''"
proof -
  have n: "NameField (Method (in_msg ex_in)) \<noteq> []" "SubjectNameToken (Method (in_msg ex_in)) ''get_issue'' = ''get_issue''"
    by (simp_all add: ex_inbound_def NameField_def mcp_defs SubjectNameToken_def NameToken_def TokenSafe_def token_char_def Let_def)
  from authorized_end_to_end [OF ex_dispatch_check ex_Handler_pre n(1), of EqualFoldKey False] n(2)
  show ?thesis by (auto simp: default_prefix_def)
qed

lemma credentials_stay_with_identity_witness:
  "Handler_pre (\<lambda>_. []) (\<lambda>_. NilData) (\<lambda>_. Some False)
     (\<lambda>t u s. if t = ''acme'' \<and> u = ''_'' then Inr 7 else Inl (CredRead ''other'')) ''r'' ex_in =
   Handler_pre (\<lambda>_. []) (\<lambda>_. NilData) (\<lambda>_. Some False) (\<lambda>t u s. Inr 7) ''r'' ex_in"
  by (rule credentials_stay_with_identity) (simp_all add: ex_inbound_def UserUnattributed_def)

lemma gateway_answers_once_witness:
  "\<exists>(w :: writer) f. f = errWithID_frame (ovh ex_wenv) (maxPayload ex_wenv) (Some ''1'') ErrCodeCredentialUnavailable ''wait'' NilData \<and>
     w_out w = [f] \<and> filter terminal (w_out w) = [f]"
proof -
  let ?backend = "\<lambda>k m. \<lparr>ba_pool = Some (CredUnavailable ''wait''), ba_notes = [], ba_result = CallerGone, ba_ctx_ended = False\<rparr>"
  let ?env = "ex_wenv\<lparr>req_id := Some ''1'', acceptClaim := False\<rparr>"
  let ?err = "ErrTask ErrCodeCredentialUnavailable ''wait'' NilData"
  let ?f = "errWithID_frame (ovh ex_wenv) (maxPayload ex_wenv) (Some ''1'') ErrCodeCredentialUnavailable ''wait'' NilData"
  let ?w1 = "\<lparr>w_done = True, w_out = [], w_parked = []\<rparr>"
  let ?w2 = "\<lparr>w_done = True, w_out = [?f], w_parked = []\<rparr>"
  let ?ans = "\<lparr>publish_ok = True, put_result = None, delete_ok = True\<rparr>"
  let ?fin = "FinalTask NoCause None"
  have h: "Handler (\<lambda>_. []) (\<lambda>_. NilData) (\<lambda>_. None) (\<lambda>_ _ _. Inr 0) ''r'' ?backend ex_in = [?err]"
    by (simp add: Handler_def ex_Handler_pre pool_failed_def)
  have ac: "rq_Header ex_wire HeaderAcceptClaim = []" "ID (in_msg ex_in) = Some ''1''"
    by (simp_all add: ex_wire_def ex_inbound_def HeaderWire_def HeaderMethod_def HeaderName_def HeaderProtocolVersion_def
        HeaderAcceptClaim_def)
  have b: "fst (beginRequest idle_drain)" by (simp add: beginRequest_def idle_drain_def)
  have d: "dispatch idle_drain (\<lambda>_. []) ''mcp.v1'' ex_wenv ex_wire
      (Handler (\<lambda>_. []) (\<lambda>_. NilData) (\<lambda>_. None) (\<lambda>_ _ _. Inr 0) ''r'' ?backend ex_in) 0 NoCause None = (?env, [?err, ?fin])"
    unfolding h using b ac by (simp add: dispatch_def ex_dispatch_check dispatch_env_def dispatch_tasks_def)
  note fit = wait_fits
  have s1: "dispatch_step ?env publish_ok (fresh_writer, [?err, ?fin]) (?w1, [RespondTask ?f, ?fin])"
    using dispatch_step.step [of 0 "[?err, ?fin]" publish_ok ?ans ?env fresh_writer ?w1 "RespondTask ?f"]
    by (simp add: fresh_writer_def claim_def)
  have s2: "dispatch_step ?env publish_ok (?w1, [RespondTask ?f, ?fin]) (?w2, [DoneTask, ?fin])"
    using dispatch_step.step [of 0 "[RespondTask ?f, ?fin]" publish_ok ?ans ?env ?w1 ?w2 DoneTask] fit by (simp add: publish_def)
  have s3: "dispatch_step ?env publish_ok (?w2, [DoneTask, ?fin]) (?w2, [DoneTask, DoneTask])"
    using dispatch_step.step [of 1 "[DoneTask, ?fin]" publish_ok ?ans ?env ?w2 ?w2 DoneTask] by simp
  have "dispatch_reach ?env publish_ok [?err, ?fin] (?w2, [DoneTask, DoneTask])"
    by (rule dispatch_reach.more [OF dispatch_reach.more [OF dispatch_reach.more [OF dispatch_reach.start s1] s2] s3])
  from gateway_answers_once [OF ex_dispatch_check b d this] obtain f where
    "owed ?env NoCause None (Handler_pre (\<lambda>_. []) (\<lambda>_. NilData) (\<lambda>_. None) (\<lambda>_ _ _. Inr 0) ''r'' ex_in) (\<lambda>pk. ?backend pk (in_msg ex_in)) f"
    "filter terminal (w_out ?w2) = (if fits (ovh ?env) (maxPayload ?env) f then [f] else [])"
    by auto
  moreover from this(1) have "f = ?f" by (simp add: ex_Handler_pre owed_def err_answer_def)
  ultimately have "filter terminal (w_out ?w2) = [?f]" using fit by simp
  then show ?thesis by (intro exI [of _ ?w2] exI [of _ ?f]) (simp only: writer.simps simp_thms)
qed

end
