(* ===== verification/Expand.thy ===== *)
theory Expand
  imports JsonEncode
begin

text \<open>
  Variable expansion in configurations (\<open>pkg/config/expand.go\<close>).  \<open>expandValue\<close> walks the decoded
  configuration by reflection; \<open>gval\<close> is what reflection shows of a value.  The entries of a map are
  listed in the order of their keys, which is the order the code visits them in.
\<close>

section \<open>One value\<close>

datatype expand_error =
    VarNotSet bytes
  | VarRefused bytes
  | UnterminatedRef
  | EmptyRef
  | VarInKey bytes bytes
  | UndecodedBytes bytes
  | UnreachableType bytes
  | AtPath bytes expand_error

type_synonym lookup = "bytes \<Rightarrow> expand_error + bytes"

definition envLookup :: "(bytes \<rightharpoonup> bytes) \<Rightarrow> lookup" where
  "envLookup env name = (case env name of None \<Rightarrow> Inl (VarNotSet name) | Some v \<Rightarrow> Inr v)"

definition refuseLookup :: lookup where
  "refuseLookup name = Inl (VarRefused name)"

definition map_ok :: "('a \<Rightarrow> 'b) \<Rightarrow> 'e + 'a \<Rightarrow> 'e + 'b" where
  "map_ok f r = (case r of Inl e \<Rightarrow> Inl e | Inr x \<Rightarrow> Inr (f x))"

lemma map_ok_simps [simp]: "map_ok f (Inl e) = Inl e" "map_ok f (Inr x) = Inr (f x)"
  by (simp_all add: map_ok_def)

lemma map_ok_Inr: "map_ok f r = Inr y \<longleftrightarrow> (\<exists>x. r = Inr x \<and> y = f x)"
  by (cases r) auto

lemma cut_at_byte_shorter: "cut_at_byte c s = Some (a, b) \<Longrightarrow> length b < length s"
  by (induction c s arbitrary: a rule: cut_at_byte.induct) (auto split: if_splits option.splits)

text \<open>The loop of \<open>expandString\<close> on what is left of the string.\<close>

function expandString_loop :: "lookup \<Rightarrow> bytes \<Rightarrow> expand_error + bytes" where
  "expandString_loop resolve [] = Inr []"
| "expandString_loop resolve [c] = Inr [c]"
| "expandString_loop resolve (c # d # s) =
     (if c \<noteq> CHR ''$'' then map_ok (Cons c) (expandString_loop resolve (d # s))
      else if d = CHR ''$'' then map_ok (Cons (CHR ''$'')) (expandString_loop resolve s)
      else if d = CHR ''{'' then
        (case cut_at_byte (CHR ''}'') s of
           None \<Rightarrow> Inl UnterminatedRef
         | Some (name, rest) \<Rightarrow>
             if name = [] then Inl EmptyRef
             else (case resolve name of
                     Inl e \<Rightarrow> Inl e
                   | Inr v \<Rightarrow> map_ok (\<lambda>t. v @ t) (expandString_loop resolve rest)))
      else map_ok (Cons (CHR ''$'')) (expandString_loop resolve (d # s)))"
  by pat_completeness auto
termination
  by (relation "measure (\<lambda>(_, s). length s)") (auto dest: cut_at_byte_shorter)

definition expandString :: "lookup \<Rightarrow> bytes \<Rightarrow> expand_error + bytes" where
  "expandString resolve s =
     (if CHR ''$'' \<notin> set s then Inr s else expandString_loop resolve s)"

section \<open>Every value of a document\<close>

datatype gval =
    GString bytes
  | GPointer "gval option"
  | GStruct "(bytes \<times> gval) list"
  | GSlice "gval list"
  | GBytes bytes
  | GMap "(bytes \<times> gval) list"
  | GNumber int
  | GOther

definition joinPath :: "bytes \<Rightarrow> bytes \<Rightarrow> bytes" where
  "joinPath path name = (if path = [] then name else path @ ''.'' @ name)"

text \<open>\<open>fmt.Sprintf("%s[%d]")\<close> and \<open>("%s[%q]")\<close>; keys that need quoting inside \<open>%q\<close> are shown as they are.\<close>

definition index_path :: "bytes \<Rightarrow> nat \<Rightarrow> bytes" where
  "index_path path n = path @ ''['' @ itoa (int n) @ '']''"

definition key_path :: "bytes \<Rightarrow> bytes \<Rightarrow> bytes" where
  "key_path path k = path @ ''['' @ [CHR 0x22] @ k @ [CHR 0x22] @ '']''"

fun expandValue :: "lookup \<Rightarrow> bytes \<Rightarrow> gval \<Rightarrow> expand_error + gval"
  and expandFields :: "lookup \<Rightarrow> bytes \<Rightarrow> (bytes \<times> gval) list \<Rightarrow> expand_error + (bytes \<times> gval) list"
  and expandItems :: "lookup \<Rightarrow> bytes \<Rightarrow> nat \<Rightarrow> gval list \<Rightarrow> expand_error + gval list"
  and expandEntries :: "lookup \<Rightarrow> bytes \<Rightarrow> (bytes \<times> gval) list \<Rightarrow> expand_error + (bytes \<times> gval) list" where
  "expandValue resolve path (GString s) =
     (case expandString resolve s of Inl e \<Rightarrow> Inl (AtPath path e) | Inr t \<Rightarrow> Inr (GString t))"
| "expandValue resolve path (GPointer None) = Inr (GPointer None)"
| "expandValue resolve path (GPointer (Some v)) = map_ok (\<lambda>w. GPointer (Some w)) (expandValue resolve path v)"
| "expandValue resolve path (GStruct fs) = map_ok GStruct (expandFields resolve path fs)"
| "expandValue resolve path (GSlice vs) = map_ok GSlice (expandItems resolve path 0 vs)"
| "expandValue resolve path (GBytes b) = Inl (UndecodedBytes path)"
| "expandValue resolve path (GMap kvs) = map_ok GMap (expandEntries resolve path kvs)"
| "expandValue resolve path (GNumber n) = Inr (GNumber n)"
| "expandValue resolve path GOther = Inl (UnreachableType path)"
| "expandFields resolve path [] = Inr []"
| "expandFields resolve path ((f, v) # fs) =
     (case expandValue resolve (joinPath path f) v of
        Inl e \<Rightarrow> Inl e
      | Inr w \<Rightarrow> map_ok (Cons (f, w)) (expandFields resolve path fs))"
| "expandItems resolve path n [] = Inr []"
| "expandItems resolve path n (v # vs) =
     (case expandValue resolve (index_path path n) v of
        Inl e \<Rightarrow> Inl e
      | Inr w \<Rightarrow> map_ok (Cons w) (expandItems resolve path (n + 1) vs))"
| "expandEntries resolve path [] = Inr []"
| "expandEntries resolve path ((k, v) # kvs) =
     (if strings_Contains k ''${'' then Inl (VarInKey path k)
      else (case expandValue resolve (key_path path k) v of
              Inl e \<Rightarrow> Inl e
            | Inr w \<Rightarrow> map_ok (Cons (k, w)) (expandEntries resolve path kvs)))"

section \<open>What expansion does\<close>

text \<open>How a literal is written in a document.\<close>

definition escape_dollar :: "bytes \<Rightarrow> bytes" where
  "escape_dollar s = concat (map (\<lambda>c. if c = CHR ''$'' then ''$$'' else [c]) s)"

lemma escape_dollar_simps [simp]:
  "escape_dollar [] = []" "escape_dollar (c # s) = (if c = CHR ''$'' then CHR ''$'' # CHR ''$'' # escape_dollar s else c # escape_dollar s)"
  by (simp_all add: escape_dollar_def)

lemma expandString_loop_plain: "c \<noteq> CHR ''$'' \<Longrightarrow> expandString_loop resolve (c # s) = map_ok (Cons c) (expandString_loop resolve s)"
  by (cases s) simp_all

lemma expandString_loop_literal: "expandString_loop resolve (escape_dollar s) = Inr s"
  by (induction s) (simp_all add: expandString_loop_plain)

lemma expandString_literal: "expandString resolve (escape_dollar s) = Inr s"
proof (cases "CHR ''$'' \<in> set (escape_dollar s)")
  case False
  then have "escape_dollar s = s" by (induction s) (auto split: if_splits)
  with False show ?thesis by (simp add: expandString_def)
qed (simp add: expandString_def expandString_loop_literal)

section \<open>Expansion changes strings and nothing else\<close>

primrec skeleton :: "gval \<Rightarrow> gval" where
  "skeleton (GString s) = GString []"
| "skeleton (GPointer v) = GPointer (map_option skeleton v)"
| "skeleton (GStruct fs) = GStruct (map (map_prod id skeleton) fs)"
| "skeleton (GSlice vs) = GSlice (map skeleton vs)"
| "skeleton (GBytes b) = GBytes b"
| "skeleton (GMap kvs) = GMap (map (map_prod id skeleton) kvs)"
| "skeleton (GNumber n) = GNumber n"
| "skeleton GOther = GOther"

fun strings_of :: "gval \<Rightarrow> bytes list"
  and strings_of_pairs :: "(bytes \<times> gval) list \<Rightarrow> bytes list"
  and strings_of_items :: "gval list \<Rightarrow> bytes list" where
  "strings_of (GString s) = [s]"
| "strings_of (GPointer None) = []"
| "strings_of (GPointer (Some v)) = strings_of v"
| "strings_of (GStruct fs) = strings_of_pairs fs"
| "strings_of (GSlice vs) = strings_of_items vs"
| "strings_of (GBytes b) = []"
| "strings_of (GMap kvs) = strings_of_pairs kvs"
| "strings_of (GNumber n) = []"
| "strings_of GOther = []"
| "strings_of_pairs [] = []"
| "strings_of_pairs ((k, v) # kvs) = strings_of v @ strings_of_pairs kvs"
| "strings_of_items [] = []"
| "strings_of_items (v # vs) = strings_of v @ strings_of_items vs"

lemma expand_skeleton:
  "expandValue resolve path v = Inr w \<Longrightarrow> skeleton w = skeleton v \<and> map (expandString resolve) (strings_of v) = map Inr (strings_of w)"
  "expandFields resolve path fs = Inr gs \<Longrightarrow> map (map_prod id skeleton) gs = map (map_prod id skeleton) fs \<and>
     map (expandString resolve) (strings_of_pairs fs) = map Inr (strings_of_pairs gs)"
  "expandItems resolve path n vs = Inr ws \<Longrightarrow> map skeleton ws = map skeleton vs \<and>
     map (expandString resolve) (strings_of_items vs) = map Inr (strings_of_items ws)"
  "expandEntries resolve path kvs = Inr lvs \<Longrightarrow> map (map_prod id skeleton) lvs = map (map_prod id skeleton) kvs \<and>
     map (expandString resolve) (strings_of_pairs kvs) = map Inr (strings_of_pairs lvs)"
proof (induction resolve path v and resolve path fs and resolve path n vs and resolve path kvs
    arbitrary: w and gs and ws and lvs rule: expandValue_expandFields_expandItems_expandEntries.induct)
  case (1 resolve path s)
  then show ?case by (auto split: sum.splits)
qed (auto simp: map_ok_Inr split: sum.splits if_splits)

text \<open>
  Expansion is a function on the strings of the decoded document: it keeps every field, entry, key
  and number, so that the value of a variable cannot add or close anything, each string becomes its own
  expansion, computed once, and a literal written with doubled dollars comes out as written.
\<close>

theorem expansion_is_data:
  assumes "expandValue resolve path v = Inr w"
  shows "skeleton w = skeleton v \<and> map (expandString resolve) (strings_of v) = map Inr (strings_of w) \<and>
    expandString resolve (escape_dollar s) = Inr s"
  using expand_skeleton(1) [OF assms] by (simp add: expandString_literal)

lemma expansion_is_data_witness:
  "expandString (envLookup [''T'' \<mapsto> [CHR 0x22, CHR ''}'']]) ''a${T}'' = Inr [CHR ''a'', CHR 0x22, CHR ''}'']"
proof -
  let ?r = "envLookup [''T'' \<mapsto> [CHR 0x22, CHR ''}'']]"
  have "expandValue ?r [] (GStruct [(''env'', GMap [(''TOKEN'', GString ''a${T}'')])]) =
      Inr (GStruct [(''env'', GMap [(''TOKEN'', GString [CHR ''a'', CHR 0x22, CHR ''}''])])])"
    by (simp add: expandString_def envLookup_def strings_HasPrefix_def)
  from expansion_is_data [OF this] show ?thesis by simp
qed

text \<open>What the fetch path accepts has no reference left in it: every \<open>$\<close> that remains is literal.\<close>

lemma refused_env_independent: "expandString refuseLookup s = Inr t \<Longrightarrow> expandString (envLookup env) s = Inr t"
proof -
  have "expandString_loop refuseLookup s = Inr t \<Longrightarrow> expandString_loop (envLookup env) s = Inr t" for s t
    by (induction "refuseLookup" s arbitrary: t rule: expandString_loop.induct)
      (auto simp: map_ok_Inr refuseLookup_def split: if_splits option.splits)
  then show "expandString refuseLookup s = Inr t \<Longrightarrow> expandString (envLookup env) s = Inr t"
    by (simp add: expandString_def split: if_splits)
qed

end
