(* ===== verification/Config.thy ===== *)
theory Config
  imports Expand CredSources Services "HOL-Library.List_Lexorder" "HOL-Library.Char_ord"
begin

text \<open>
  The gateway's configuration and its validation (\<open>pkg/config/config.go\<close>).  What the code asks of Go's
  library about URLs, durations and IP addresses is a parameter, \<open>golib\<close>.  The servers are listed in the
  order in which a run ranges over the map; a nil map or list is \<open>None\<close> where a comparison sees it.
\<close>

section \<open>The document\<close>

record golib =
  url_Parse :: "bytes \<Rightarrow> (bytes \<times> bytes) option"
  time_ParseDuration :: "bytes \<Rightarrow> int option"
  ip_IsLoopback :: "bytes \<Rightarrow> bool"
  is_print :: "rune \<Rightarrow> bool"

record ClaimCheck =
  cc_MaxAge :: bytes
  cc_MaxBytes :: int

record NATS =
  n_URL :: bytes
  n_CredsFile :: bytes
  n_SubjectPrefix :: bytes
  n_InboxPrefix :: bytes
  n_QueueGroup :: bytes
  n_Tenant :: bytes
  n_User :: bytes

record Auth =
  a_Mode :: bytes
  a_Command :: bytes
  a_Args :: "bytes list"
  a_Env :: "(bytes \<times> bytes) list"
  a_WaitDelay :: bytes
  a_Path :: bytes
  a_TTL :: bytes
  a_TokenURL :: bytes
  a_ClientID :: bytes
  a_ClientSecret :: bytes
  a_Scope :: bytes
  a_Audience :: bytes
  a_SubjectTokenFile :: bytes
  a_SubjectTokenType :: bytes
  a_RefreshTokenFile :: bytes
  a_Subject :: bytes
  a_PerUserOverride :: "bool option"

record Server =
  s_Protocol :: bytes
  s_Transport :: bytes
  s_Command :: bytes
  s_Args :: "bytes list option"
  s_Env :: "(bytes \<times> bytes) list option"
  s_URL :: bytes
  s_Headers :: "(bytes \<times> bytes) list option"
  s_AllowPlaintext :: bool
  s_DiscoverTTLMs :: int
  s_CacheScope :: bytes
  s_Auth :: "Auth option"

record config_pool =
  cp_MaxConcurrent :: int
  cp_MaxProcsPerTenant :: int
  cp_IdleTTL :: bytes
  cp_MaxLifetime :: bytes

record Config =
  c_NATS :: NATS
  c_Servers :: "(bytes \<times> Server) list"
  c_Pool :: config_pool
  c_ClaimCheck :: "ClaimCheck option"

definition AuthStatic :: bytes where [mcp_defs]: "AuthStatic = ''static''"
definition AuthExec :: bytes where [mcp_defs]: "AuthExec = ''exec''"
definition AuthFile :: bytes where [mcp_defs]: "AuthFile = ''file''"
definition AuthOAuthClientCredentials :: bytes where [mcp_defs]: "AuthOAuthClientCredentials = ''oauth-client-credentials''"
definition AuthOAuthTokenExchange :: bytes where [mcp_defs]: "AuthOAuthTokenExchange = ''oauth-token-exchange''"
definition AuthOAuthRefresh :: bytes where [mcp_defs]: "AuthOAuthRefresh = ''oauth-refresh''"
definition AuthNATS :: bytes where [mcp_defs]: "AuthNATS = ''nats''"

section \<open>Credential grain\<close>

definition Dynamic :: "Auth option \<Rightarrow> bool" where
  "Dynamic au = (case au of None \<Rightarrow> False | Some a \<Rightarrow> a_Mode a \<noteq> [] \<and> a_Mode a \<noteq> AuthStatic)"

definition PerUser :: "Auth option \<Rightarrow> bool" where
  "PerUser au =
     (case au of
        None \<Rightarrow> False
      | Some a \<Rightarrow>
          (case a_PerUserOverride a of
             Some b \<Rightarrow> b
           | None \<Rightarrow>
               if a_Mode a = AuthExec \<or> a_Mode a = AuthNATS then True
               else if a_Mode a = AuthFile then strings_Contains (a_Path a) ''{user}''
               else if a_Mode a = AuthOAuthTokenExchange then strings_Contains (a_SubjectTokenFile a) ''{user}''
               else if a_Mode a = AuthOAuthRefresh then strings_Contains (a_RefreshTokenFile a) ''{user}''
               else False))"

section \<open>Validation\<close>

datatype config_error =
    BadDuration bytes bytes
  | NegativeDuration bytes bytes
  | NegativeClaimBytes
  | NegativeMaxConcurrent int
  | NegativeMaxProcs int
  | BadSubjectPrefix token_error
  | BadQueueGroup token_error
  | BadInboxPrefix token_error
  | UserScopeNeedsTenant bytes
  | TenantNotTokenSafe bytes
  | UserNotTokenSafe bytes
  | ServerNotTokenSafe bytes
  | ServerReservedDelimiter bytes
  | UnknownProtocol bytes bytes
  | UnknownCacheScope bytes bytes
  | CacheScopeOnModern bytes
  | StdioNeedsCommand bytes
  | HttpNeedsURL bytes
  | UnknownTransport bytes bytes
  | InvalidURL bytes bytes
  | CleartextURL bytes bytes
  | NotHTTPS bytes bytes
  | AuthRequires bytes bytes
  | UnknownAuthMode bytes bytes
  | PerUserNotTaken bytes bytes
  | WaitDelayNotTaken bytes bytes
  | BadCredSubject bytes token_error

text \<open>Lower case of the ASCII letters; no other letter has one of those in \<open>localhost\<close> as its lower case.\<close>

definition ascii_ToLower :: "bytes \<Rightarrow> bytes" where
  "ascii_ToLower s = map (\<lambda>c. if 65 \<le> byte c \<and> byte c \<le> 90 then char_of (byte c + 32) else c) s"

definition isLoopbackHost :: "golib \<Rightarrow> bytes \<Rightarrow> bool" where
  "isLoopbackHost lib host0 =
     (let host = ascii_ToLower host0 in
      if host = ''localhost'' \<or> strings_HasSuffix host ''.localhost'' then True else ip_IsLoopback lib host)"

definition requireHTTPS :: "golib \<Rightarrow> bytes \<Rightarrow> bytes \<Rightarrow> bytes \<Rightarrow> bool \<Rightarrow> config_error + unit" where
  "requireHTTPS lib server field raw allowPlaintext =
     (case url_Parse lib raw of
        None \<Rightarrow> Inl (InvalidURL server field)
      | Some (scheme, host) \<Rightarrow>
          if scheme = ''https'' then Inr ()
          else if scheme = ''http'' then
            (if allowPlaintext \<or> isLoopbackHost lib host then Inr () else Inl (CleartextURL server field))
          else Inl (NotHTTPS server field))"

definition validateDuration :: "golib \<Rightarrow> bytes \<Rightarrow> bytes \<Rightarrow> config_error + unit" where
  "validateDuration lib what v =
     (case time_ParseDuration lib v of
        None \<Rightarrow> Inl (BadDuration what v)
      | Some d \<Rightarrow> if d < 0 then Inl (NegativeDuration what v) else Inr ())"

definition unless_ok :: "bool \<Rightarrow> 'e \<Rightarrow> 'e + unit" where
  "unless_ok bad e = (if bad then Inl e else Inr ())"

definition map_err :: "('e \<Rightarrow> 'f) \<Rightarrow> 'e + 'a \<Rightarrow> 'f + 'a" where
  "map_err f r = (case r of Inl e \<Rightarrow> Inl (f e) | Inr x \<Rightarrow> Inr x)"

definition checked_if :: "bool \<Rightarrow> 'e + unit \<Rightarrow> 'e + unit" where
  "checked_if b r = (if b then r else Inr ())"

fun in_order :: "('e + unit) list \<Rightarrow> 'e + unit" where
  "in_order [] = Inr ()"
| "in_order (r # rs) = (case r of Inl e \<Rightarrow> Inl e | Inr _ \<Rightarrow> in_order rs)"

definition Auth_validate :: "golib \<Rightarrow> Auth \<Rightarrow> bytes \<Rightarrow> bool \<Rightarrow> config_error + unit" where
  "Auth_validate lib a server allowPlaintext = in_order
     [if a_Mode a \<in> {[], AuthStatic, AuthNATS} then Inr ()
      else if a_Mode a = AuthExec then unless_ok (a_Command a = []) (AuthRequires server (a_Mode a))
      else if a_Mode a = AuthFile then unless_ok (a_Path a = []) (AuthRequires server (a_Mode a))
      else if a_Mode a = AuthOAuthClientCredentials then
        unless_ok (a_TokenURL a = [] \<or> a_ClientID a = [] \<or> a_ClientSecret a = []) (AuthRequires server (a_Mode a))
      else if a_Mode a = AuthOAuthTokenExchange then
        unless_ok (a_TokenURL a = [] \<or> a_SubjectTokenFile a = []) (AuthRequires server (a_Mode a))
      else if a_Mode a = AuthOAuthRefresh then
        unless_ok (a_TokenURL a = [] \<or> a_ClientID a = [] \<or> a_RefreshTokenFile a = []) (AuthRequires server (a_Mode a))
      else Inl (UnknownAuthMode server (a_Mode a)),
      unless_ok (a_PerUserOverride a \<noteq> None \<and> a_Mode a \<notin> {AuthExec, AuthNATS}) (PerUserNotTaken server (a_Mode a)),
      checked_if (a_TTL a \<noteq> []) (validateDuration lib ''auth ttl'' (a_TTL a)),
      checked_if (a_WaitDelay a \<noteq> [])
        (if a_Mode a \<noteq> AuthExec then Inl (WaitDelayNotTaken server (a_Mode a))
         else validateDuration lib ''auth waitDelay'' (a_WaitDelay a)),
      checked_if (a_Subject a \<noteq> []) (map_err (BadCredSubject server) (ValidateSubjectPrefix (is_print lib) (a_Subject a))),
      checked_if (a_TokenURL a \<noteq> []) (requireHTTPS lib server ''auth tokenUrl'' (a_TokenURL a) allowPlaintext)]"

definition validate_server :: "golib \<Rightarrow> bytes \<Rightarrow> Server \<Rightarrow> config_error + unit" where
  "validate_server lib name s = in_order
     [unless_ok (\<not> TokenSafe name) (ServerNotTokenSafe name),
      unless_ok (strings_Contains name ''__'') (ServerReservedDelimiter name),
      unless_ok (s_Protocol s \<notin> {[], LegacyProtocolVersion, ProtocolVersion}) (UnknownProtocol name (s_Protocol s)),
      unless_ok (s_CacheScope s \<notin> {[], CacheScopePrivate, CacheScopePublic}) (UnknownCacheScope name (s_CacheScope s)),
      unless_ok (s_CacheScope s \<noteq> [] \<and> s_Protocol s = ProtocolVersion) (CacheScopeOnModern name),
      if s_Transport s \<in> {[], ''stdio''} then unless_ok (s_Command s = []) (StdioNeedsCommand name)
      else if s_Transport s = ''http'' then
        (if s_URL s = [] then Inl (HttpNeedsURL name)
         else requireHTTPS lib name ''url'' (s_URL s) (s_AllowPlaintext s))
      else Inl (UnknownTransport name (s_Transport s)),
      case s_Auth s of None \<Rightarrow> Inr () | Some a \<Rightarrow> Auth_validate lib a name (s_AllowPlaintext s)]"

definition validate_claimCheck :: "golib \<Rightarrow> ClaimCheck option \<Rightarrow> config_error + unit" where
  "validate_claimCheck lib c =
     (case c of
        None \<Rightarrow> Inr ()
      | Some cc \<Rightarrow> in_order
          [checked_if (cc_MaxAge cc \<noteq> []) (validateDuration lib ''claimCheck.maxAge'' (cc_MaxAge cc)),
           unless_ok (cc_MaxBytes cc < 0) NegativeClaimBytes])"

text \<open>The counts are looked at inside the test on \<open>idleTtl\<close>.\<close>

definition validate_pool :: "golib \<Rightarrow> config_pool \<Rightarrow> config_error + unit" where
  "validate_pool lib p = in_order
     [checked_if (cp_IdleTTL p \<noteq> []) (in_order
        [unless_ok (cp_MaxConcurrent p < 0) (NegativeMaxConcurrent (cp_MaxConcurrent p)),
         unless_ok (cp_MaxProcsPerTenant p < 0) (NegativeMaxProcs (cp_MaxProcsPerTenant p)),
         validateDuration lib ''pool.idleTtl'' (cp_IdleTTL p)]),
      checked_if (cp_MaxLifetime p \<noteq> []) (validateDuration lib ''pool.maxLifetime'' (cp_MaxLifetime p))]"

definition validate_nats :: "golib \<Rightarrow> NATS \<Rightarrow> config_error + unit" where
  "validate_nats lib n = in_order
     [checked_if (n_SubjectPrefix n \<noteq> []) (map_err BadSubjectPrefix (ValidateSubjectPrefix (is_print lib) (n_SubjectPrefix n))),
      checked_if (n_QueueGroup n \<noteq> []) (map_err BadQueueGroup (ValidateQueueGroup (is_print lib) (n_QueueGroup n))),
      checked_if (n_InboxPrefix n \<noteq> []) (map_err BadInboxPrefix (ValidateInboxPrefix (n_InboxPrefix n))),
      unless_ok (n_Tenant n = [] \<and> n_User n \<noteq> []) (UserScopeNeedsTenant (n_User n)),
      unless_ok (n_Tenant n \<noteq> [] \<and> \<not> TokenSafe (n_Tenant n)) (TenantNotTokenSafe (n_Tenant n)),
      unless_ok (n_User n \<noteq> [] \<and> \<not> TokenSafe (n_User n)) (UserNotTokenSafe (n_User n))]"

definition validate :: "golib \<Rightarrow> Config \<Rightarrow> config_error + unit" where
  "validate lib c = in_order
     [validate_claimCheck lib (c_ClaimCheck c), validate_pool lib (c_Pool c), validate_nats lib (c_NATS c),
      in_order (map (\<lambda>(name, s). validate_server lib name s) (c_Servers c))]"

definition ServerNames :: "Config \<Rightarrow> bytes list" where
  "ServerNames c = sort (map fst (c_Servers c))"

section \<open>What an accepted configuration is\<close>

lemma in_order_Inr: "in_order rs = Inr () \<longleftrightarrow> (\<forall>r\<in>set rs. r = Inr ())"
  by (induction rs rule: in_order.induct) (auto split: sum.splits)

declare in_order.simps [simp del]

lemma unless_ok_Inr [simp]: "unless_ok bad e = Inr u \<longleftrightarrow> \<not> bad" by (simp add: unless_ok_def)

lemma checked_if_Inr [simp]: "checked_if b r = Inr u \<longleftrightarrow> (b \<longrightarrow> r = Inr u)"
  by (auto simp: checked_if_def)

lemma map_err_Inr [simp]: "map_err f r = Inr x \<longleftrightarrow> r = Inr x"
  by (auto simp: map_err_def split: sum.split)

text \<open>A URL that credentials may be sent to.\<close>

definition protected_url :: "golib \<Rightarrow> bytes \<Rightarrow> bool" where
  "protected_url lib raw \<longleftrightarrow>
     (\<exists>scheme host. url_Parse lib raw = Some (scheme, host) \<and> (scheme = ''https'' \<or> scheme = ''http'' \<and> isLoopbackHost lib host))"

lemma requireHTTPS_strict: "requireHTTPS lib server field raw False = Inr u \<Longrightarrow> protected_url lib raw"
  by (auto simp: requireHTTPS_def protected_url_def split: option.splits if_splits)

lemma validate_serverD:
  assumes "validate lib c = Inr ()" "(name, s) \<in> set (c_Servers c)"
  shows "validate_server lib name s = Inr ()"
  using assms by (auto simp: validate_def in_order_Inr)

lemma validate_natsD: "validate lib c = Inr () \<Longrightarrow> validate_nats lib (c_NATS c) = Inr ()"
  by (auto simp: validate_def in_order_Inr)


text \<open>
  An accepted configuration can be served: in its scope every server has an endpoint subject, so
  that \<open>SetServers\<close> never refuses one of its names.
\<close>

theorem accepted_config_can_be_served:
  assumes "validate lib c = Inr ()" "(name, s) \<in> set (c_Servers c)"
  shows "\<exists>subject. EndpointSubject (n_SubjectPrefix (c_NATS c)) (n_Tenant (c_NATS c)) (n_User (c_NATS c)) name = Inr subject"
proof -
  have "TokenSafe name" using validate_serverD [OF assms] by (auto simp: validate_server_def in_order_Inr)
  moreover have "n_Tenant (c_NATS c) = [] \<longrightarrow> n_User (c_NATS c) = []" "n_Tenant (c_NATS c) \<noteq> [] \<longrightarrow> TokenSafe (n_Tenant (c_NATS c))"
    "n_User (c_NATS c) \<noteq> [] \<longrightarrow> TokenSafe (n_User (c_NATS c))"
    using validate_natsD [OF assms(1)] by (auto simp: validate_nats_def in_order_Inr)
  ultimately show ?thesis by (auto simp: EndpointSubject_def Let_def)
qed

definition ex_lib :: golib where
  "ex_lib = \<lparr>url_Parse = (\<lambda>u. if u = ''http://localhost:3000'' then Some (''http'', ''localhost'') else None),
     time_ParseDuration = (\<lambda>_. None), ip_IsLoopback = (\<lambda>_. False), is_print = (\<lambda>_. True)\<rparr>"

definition ex_cfg_server :: Server where
  "ex_cfg_server = \<lparr>s_Protocol = [], s_Transport = ''http'', s_Command = [], s_Args = None, s_Env = None, s_URL = ''http://localhost:3000'',
     s_Headers = None, s_AllowPlaintext = False, s_DiscoverTTLMs = 0, s_CacheScope = [], s_Auth = None\<rparr>"

definition ex_cfg :: Config where
  "ex_cfg = \<lparr>c_NATS = \<lparr>n_URL = [], n_CredsFile = [], n_SubjectPrefix = [], n_InboxPrefix = [], n_QueueGroup = [], n_Tenant = ''acme'', n_User = []\<rparr>,
     c_Servers = [(''fs'', ex_cfg_server)],
     c_Pool = \<lparr>cp_MaxConcurrent = -5, cp_MaxProcsPerTenant = 0, cp_IdleTTL = [], cp_MaxLifetime = []\<rparr>, c_ClaimCheck = None\<rparr>"

lemma ex_validate: "validate ex_lib ex_cfg = Inr ()"
  by (simp add: validate_def in_order_Inr validate_claimCheck_def validate_pool_def validate_nats_def validate_server_def
      ex_cfg_def ex_cfg_server_def ex_lib_def requireHTTPS_def isLoopbackHost_def ascii_ToLower_def TokenSafe_def token_char_def
      strings_HasPrefix_def Let_def)


lemma accepted_config_can_be_served_witness: "\<exists>subject. EndpointSubject [] ''acme'' [] ''fs'' = Inr subject"
  using accepted_config_can_be_served [OF ex_validate, of "''fs''" ex_cfg_server] by (simp add: ex_cfg_def)

text \<open>
  C40. The counts of the pool are only checked together with \<open>idleTtl\<close>: without it every count is
  accepted, a negative one that the same document with an \<open>idleTtl\<close> is rejected for included, and the
  pool then runs with its default instead.
\<close>

theorem negative_counts_accepted:
  assumes "cp_IdleTTL p = []" "cp_MaxLifetime p = []" "cp_MaxConcurrent p < 0" "ttl \<noteq> []"
  shows "validate_pool lib p = Inr () \<and>
    validate_pool lib (p\<lparr>cp_IdleTTL := ttl\<rparr>) = Inl (NegativeMaxConcurrent (cp_MaxConcurrent p))"
  using assms by (simp add: validate_pool_def in_order.simps checked_if_def unless_ok_def)

lemma negative_counts_accepted_witness: "validate_pool ex_lib (c_Pool ex_cfg) = Inr ()"
  using negative_counts_accepted [of "c_Pool ex_cfg" "''5m''" ex_lib] by (simp add: ex_cfg_def)

section \<open>Grain and placeholders\<close>

lemma contains_tail: "strings_Contains r p \<Longrightarrow> strings_Contains (a @ r) p"
  by (auto simp: strings_Contains_iff) (metis append.assoc)

lemma expandPath_user_free: "\<not> strings_Contains p ''{user}'' \<Longrightarrow> expandPath p t u s = expandPath p t u' s"
proof (induction p rule: expandPath_induct)
  case (tenant r)
  have "\<not> strings_Contains r ''{user}''" using tenant(2) contains_tail by blast
  with tenant(1) show ?case unfolding expandPath_tenant by simp
next
  case (user r)
  have "strings_Contains (''{user}'' @ r) ''{user}''" unfolding strings_Contains_iff by (intro exI [of _ "[]"] exI [of _ r]) simp
  with user(2) show ?case by blast
next
  case (server r)
  have "\<not> strings_Contains r ''{user}''" using server(2) contains_tail by blast
  with server(1) show ?case unfolding expandPath_server by simp
next
  case (plain c r)
  have "\<not> strings_Contains r ''{user}''" using plain(3) contains_tail [of r _ "[c]"] by auto
  with plain show ?case by (simp add: expandPath_plain)
qed simp

text \<open>The file a mode reads its secret from.\<close>

definition secret_path :: "Auth \<Rightarrow> bytes" where
  "secret_path a =
     (if a_Mode a = AuthFile then a_Path a
      else if a_Mode a = AuthOAuthTokenExchange then a_SubjectTokenFile a
      else if a_Mode a = AuthOAuthRefresh then a_RefreshTokenFile a else [])"

text \<open>
  A shared backend never carries one user's credential: when an accepted server is not per user and
  its mode reads the secret from a file, the file is the same for every user, so that the backend that
  the pool shares within a tenant can only hold what belongs to all of them.
\<close>

theorem shared_grain_is_shared:
  assumes "validate lib c = Inr ()" "(name, s) \<in> set (c_Servers c)" "s_Auth s = Some a" "\<not> PerUser (s_Auth s)"
    and "a_Mode a \<in> {AuthFile, AuthOAuthTokenExchange, AuthOAuthRefresh}"
  shows "expandPath (secret_path a) tenant user1 name = expandPath (secret_path a) tenant user2 name"
proof -
  have "Auth_validate lib a name (s_AllowPlaintext s) = Inr ()"
    using validate_serverD [OF assms(1,2)] assms(3) by (auto simp: validate_server_def in_order_Inr)
  then have "a_PerUserOverride a = None" using assms(5) by (auto simp: Auth_validate_def in_order_Inr mcp_defs)
  with assms(3-5) have "\<not> strings_Contains (secret_path a) ''{user}''"
    by (auto simp: PerUser_def secret_path_def mcp_defs)
  then show ?thesis by (rule expandPath_user_free)
qed

definition ex_auth :: Auth where
  "ex_auth = \<lparr>a_Mode = ''file'', a_Command = [], a_Args = [], a_Env = [], a_WaitDelay = [], a_Path = ''/run/{tenant}/token'', a_TTL = [],
     a_TokenURL = [], a_ClientID = [], a_ClientSecret = [], a_Scope = [], a_Audience = [], a_SubjectTokenFile = [],
     a_SubjectTokenType = [], a_RefreshTokenFile = [], a_Subject = [], a_PerUserOverride = None\<rparr>"

lemma shared_grain_is_shared_witness:
  "expandPath ''/run/{tenant}/token'' ''acme'' ''bob'' ''fs'' = expandPath ''/run/{tenant}/token'' ''acme'' ''eve'' ''fs''"
proof -
  let ?s = "ex_cfg_server\<lparr>s_Auth := Some ex_auth\<rparr>"
  let ?c = "ex_cfg\<lparr>c_Servers := [(''fs'', ?s)]\<rparr>"
  have v: "validate ex_lib ?c = Inr ()"
    using ex_validate
    by (simp add: validate_def in_order_Inr validate_server_def Auth_validate_def ex_cfg_def ex_cfg_server_def ex_auth_def mcp_defs)
  have "\<not> PerUser (Some ex_auth)" by (simp add: PerUser_def ex_auth_def mcp_defs strings_HasPrefix_def)
  moreover have "a_Mode ex_auth = AuthFile" "secret_path ex_auth = ''/run/{tenant}/token''"
    by (simp_all add: ex_auth_def mcp_defs secret_path_def)
  ultimately show ?thesis
    using shared_grain_is_shared [OF v, of "''fs''" ?s ex_auth "''acme''" "''bob''" "''eve''"] by simp
qed

end
