(* ===== verification/Reconcile.thy ===== *)
theory Reconcile
  imports Config PoolSafety
begin

text \<open>
  Applying a revision of the configuration to a running gateway (\<open>pkg/reconcile/reconcile.go\<close>):
  the difference of the server sets, the update of the wire, the publication and the eviction of
  backends.  \<open>Apply\<close> is composed of the models of \<open>SetServers\<close> (theory Services) and of
  \<open>EvictServer\<close> (theory Pool), as the code calls them.
\<close>

section \<open>Revisions as JSON\<close>

text \<open>Definitions are compared, and failed revisions recognised, by what \<open>json.Marshal\<close> makes of them.\<close>

definition js :: "bytes \<Rightarrow> jval" where "js s = JString (escape_string s)"

definition js_bool :: "bool \<Rightarrow> jval" where "js_bool b = JScalar (if b then ''true'' else ''false'')"

fun mk_items :: "jval list \<Rightarrow> items" where
  "mk_items [] = INil"
| "mk_items (v # vs) = ICons [] v [] (mk_items vs)"

definition js_strings :: "bytes list \<Rightarrow> jval" where "js_strings xs = JArray [] (mk_items (map js xs))"

text \<open>The keys of a map are sorted.\<close>

definition js_map :: "(bytes \<times> jval) list \<Rightarrow> jval" where
  "js_map m = mk_object (map (\<lambda>(k, v). (escape_string k, v)) (sort_key fst m))"

definition js_nil :: "('a \<Rightarrow> jval) \<Rightarrow> 'a option \<Rightarrow> jval" where
  "js_nil f x = (case x of None \<Rightarrow> json_null | Some v \<Rightarrow> f v)"

definition js_string_map :: "(bytes \<times> bytes) list \<Rightarrow> jval" where
  "js_string_map m = js_map (map (\<lambda>(k, v). (k, js v)) m)"

definition omitempty :: "bool \<Rightarrow> bytes \<Rightarrow> jval \<Rightarrow> (bytes \<times> jval) list" where
  "omitempty absent name v = (if absent then [] else [(name, v)])"

definition js_auth :: "Auth \<Rightarrow> jval" where
  "js_auth a = mk_object (
     [(''mode'', js (a_Mode a))] @
     omitempty (a_Command a = []) ''command'' (js (a_Command a)) @
     omitempty (a_Args a = []) ''args'' (js_strings (a_Args a)) @
     omitempty (a_Env a = []) ''env'' (js_string_map (a_Env a)) @
     omitempty (a_WaitDelay a = []) ''waitDelay'' (js (a_WaitDelay a)) @
     omitempty (a_Path a = []) ''path'' (js (a_Path a)) @
     omitempty (a_TTL a = []) ''ttl'' (js (a_TTL a)) @
     omitempty (a_TokenURL a = []) ''tokenUrl'' (js (a_TokenURL a)) @
     omitempty (a_ClientID a = []) ''clientId'' (js (a_ClientID a)) @
     omitempty (a_ClientSecret a = []) ''clientSecret'' (js (a_ClientSecret a)) @
     omitempty (a_Scope a = []) ''scope'' (js (a_Scope a)) @
     omitempty (a_Audience a = []) ''audience'' (js (a_Audience a)) @
     omitempty (a_SubjectTokenFile a = []) ''subjectTokenFile'' (js (a_SubjectTokenFile a)) @
     omitempty (a_SubjectTokenType a = []) ''subjectTokenType'' (js (a_SubjectTokenType a)) @
     omitempty (a_RefreshTokenFile a = []) ''refreshTokenFile'' (js (a_RefreshTokenFile a)) @
     omitempty (a_Subject a = []) ''subject'' (js (a_Subject a)) @
     (case a_PerUserOverride a of None \<Rightarrow> [] | Some b \<Rightarrow> [(''perUser'', js_bool b)]))"

definition js_server :: "Server \<Rightarrow> jval" where
  "js_server s = mk_object
     [(''protocol'', js (s_Protocol s)), (''transport'', js (s_Transport s)), (''command'', js (s_Command s)),
      (''args'', js_nil js_strings (s_Args s)), (''env'', js_nil js_string_map (s_Env s)), (''url'', js (s_URL s)),
      (''headers'', js_nil js_string_map (s_Headers s)), (''allowPlaintext'', js_bool (s_AllowPlaintext s)),
      (''discoverTtlMs'', marshal_int (s_DiscoverTTLMs s)), (''cacheScope'', js (s_CacheScope s)),
      (''auth'', js_nil js_auth (s_Auth s))]"

definition js_nats :: "NATS \<Rightarrow> jval" where
  "js_nats n = mk_object
     [(''url'', js (n_URL n)), (''credsFile'', js (n_CredsFile n)), (''subjectPrefix'', js (n_SubjectPrefix n)),
      (''inboxPrefix'', js (n_InboxPrefix n)), (''queueGroup'', js (n_QueueGroup n)), (''tenant'', js (n_Tenant n)),
      (''user'', js (n_User n))]"

definition js_pool :: "config_pool \<Rightarrow> jval" where
  "js_pool p = mk_object
     [(''maxConcurrent'', marshal_int (cp_MaxConcurrent p)), (''maxProcsPerTenant'', marshal_int (cp_MaxProcsPerTenant p)),
      (''idleTtl'', js (cp_IdleTTL p)), (''maxLifetime'', js (cp_MaxLifetime p))]"

definition js_claimCheck :: "ClaimCheck \<Rightarrow> jval" where
  "js_claimCheck c = mk_object [(''maxAge'', js (cc_MaxAge c)), (''maxBytes'', marshal_int (cc_MaxBytes c))]"

definition revisionKey :: "Config \<Rightarrow> bytes" where
  "revisionKey c = render (mk_object
     [(''nats'', js_nats (c_NATS c)), (''servers'', js_map (map (\<lambda>(n, s). (n, js_server s)) (c_Servers c))),
      (''pool'', js_pool (c_Pool c)), (''claimCheck'', js_nil js_claimCheck (c_ClaimCheck c))])"

definition serverEqual :: "Server \<Rightarrow> Server \<Rightarrow> bool" where
  "serverEqual a b \<longleftrightarrow> render (js_server a) = render (js_server b)"

section \<open>The difference\<close>

record Delta =
  Added :: "bytes list"
  Removed :: "bytes list"
  Changed :: "bytes list"

definition Empty :: "Delta \<Rightarrow> bool" where
  "Empty d \<longleftrightarrow> Added d = [] \<and> Removed d = [] \<and> Changed d = []"

definition diffServers :: "Config option \<Rightarrow> Config \<Rightarrow> Delta" where
  "diffServers old new =
     (let olds = (case old of None \<Rightarrow> [] | Some c \<Rightarrow> c_Servers c); news = c_Servers new in
      \<lparr>Added = sort (map fst (filter (\<lambda>(n, s). map_of olds n = None) news)),
       Removed = sort (map fst (filter (\<lambda>(n, s). map_of news n = None) olds)),
       Changed = sort (map fst (filter (\<lambda>(n, s). case map_of olds n of None \<Rightarrow> False | Some q \<Rightarrow> \<not> serverEqual q s) news))\<rparr>)"

section \<open>Apply\<close>

record reconciler =
  rc_cur :: "Config option"
  rc_boot :: "NATS option"
  rc_failed :: "bytes option"

definition New_reconciler :: reconciler where
  "New_reconciler = \<lparr>rc_cur = None, rc_boot = None, rc_failed = None\<rparr>"

record eviction =
  ev_servers :: "bytes list"
  ev_since :: "int option"

definition zero_nats :: NATS where
  "zero_nats = \<lparr>n_URL = [], n_CredsFile = [], n_SubjectPrefix = [], n_InboxPrefix = [], n_QueueGroup = [], n_Tenant = [], n_User = []\<rparr>"

definition empty_config :: Config where
  "empty_config = \<lparr>c_NATS = zero_nats, c_Servers = [],
     c_Pool = \<lparr>cp_MaxConcurrent = 0, cp_MaxProcsPerTenant = 0, cp_IdleTTL = [], cp_MaxLifetime = []\<rparr>, c_ClaimCheck = None\<rparr>"

text \<open>The result is the state and whether a drift of the \<open>nats\<close> block is reported.\<close>

definition warnNATSDrift :: "Config option \<Rightarrow> reconciler \<Rightarrow> bool \<times> reconciler" where
  "warnNATSDrift nxt r =
     (case nxt of
        None \<Rightarrow> (False, r)
      | Some c \<Rightarrow>
          (case rc_boot r of
             None \<Rightarrow> (False, r\<lparr>rc_boot := Some (c_NATS c)\<rparr>)
           | Some b \<Rightarrow> (c_NATS c \<noteq> b, r)))"

definition adopt :: "Config \<Rightarrow> Config option \<Rightarrow> reconciler \<Rightarrow> bool \<times> reconciler" where
  "adopt rv nxt r = warnNATSDrift nxt (r\<lparr>rc_cur := Some rv, rc_failed := None\<rparr>)"

definition failedBefore :: "Config \<Rightarrow> reconciler \<Rightarrow> bool" where
  "failedBefore rv r \<longleftrightarrow> rc_failed r = Some (revisionKey rv)"

text \<open>What one apply decides; \<open>tr_window\<close> says that \<open>rev\<close> was published while the wire was updated.\<close>

record transition_result =
  tr_delta :: Delta
  tr_eviction :: eviction
  tr_error :: "(serve_error \<times> bytes list) option"
  tr_window :: bool

definition no_delta :: Delta where "no_delta = \<lparr>Added = [], Removed = [], Changed = []\<rparr>"

definition transition ::
  "(bytes \<Rightarrow> bool) \<Rightarrow> (bytes \<Rightarrow> bool) \<Rightarrow> int \<Rightarrow> Config option \<Rightarrow> reconciler \<Rightarrow> wire_server \<Rightarrow>
     transition_result \<times> reconciler \<times> wire_server" where
  "transition add stop now nxt r ws =
     (let rv = (case nxt of None \<Rightarrow> empty_config | Some c \<Rightarrow> c); d = diffServers (rc_cur r) rv in
      if Empty d then
        (\<lparr>tr_delta = d, tr_eviction = \<lparr>ev_servers = [], ev_since = None\<rparr>, tr_error = None, tr_window = False\<rparr>,
         snd (adopt rv nxt r), ws)
      else (let publish = \<not> failedBefore rv r in
        case SetServers add stop ws (ServerNames rv) of
          (Inl e, ws') \<Rightarrow>
            (\<lparr>tr_delta = no_delta,
              tr_eviction = (if publish then \<lparr>ev_servers = Changed d @ Added d, ev_since = Some now\<rparr>
                             else \<lparr>ev_servers = [], ev_since = None\<rparr>),
              tr_error = Some e, tr_window = publish\<rparr>,
             r\<lparr>rc_failed := Some (revisionKey rv)\<rparr>, ws')
        | (Inr errs, ws') \<Rightarrow>
            (\<lparr>tr_delta = d, tr_eviction = \<lparr>ev_servers = Removed d @ Changed d, ev_since = None\<rparr>, tr_error = None, tr_window = publish\<rparr>,
             snd (adopt rv nxt r), ws')))"

definition evict :: "eviction \<Rightarrow> pool \<Rightarrow> pool" where
  "evict ev p = fold (\<lambda>name. evictServer name (ev_since ev)) (ev_servers ev) p"

definition Apply ::
  "(bytes \<Rightarrow> bool) \<Rightarrow> (bytes \<Rightarrow> bool) \<Rightarrow> int \<Rightarrow> Config option \<Rightarrow> reconciler \<times> wire_server \<times> pool \<Rightarrow>
     transition_result \<times> reconciler \<times> wire_server \<times> pool" where
  "Apply add stop now nxt st =
     (case st of (r, ws, p) \<Rightarrow>
        (case transition add stop now nxt r ws of (tr, r', ws') \<Rightarrow> (tr, r', ws', evict (tr_eviction tr) p)))"

section \<open>What an eviction does to the pool\<close>

definition in_use :: "pool \<Rightarrow> nat \<Rightarrow> bool" where
  "in_use p i \<longleftrightarrow> mapped p i \<or> i \<in> set (p_orphans p)"

definition hit :: "bytes list \<Rightarrow> int option \<Rightarrow> entry \<Rightarrow> bool" where
  "hit names since e \<longleftrightarrow> k_Server (e_key e) \<in> set names \<and> definedAfter since e"

lemma evictServer_entries:
  assumes "pool_inv p" "i < length (p_ents p)"
  shows "in_use (evictServer name since p) i \<longleftrightarrow> in_use p i \<and> \<not> hit [name] since (p_ents p ! i)"
    "p_ents (evictServer name since p) ! i =
      (if in_use p i \<and> hit [name] since (p_ents p ! i) then (p_ents p ! i)\<lparr>e_closed := True\<rparr> else p_ents p ! i)"
proof -
  let ?h = "\<lambda>e. k_Server (e_key e) = name \<and> definedAfter since e"
  let ?vs = "filter (\<lambda>i. mapped p i \<and> ?h (p_ents p ! i)) [0..<length (p_ents p)] @ filter (\<lambda>i. ?h (p_ents p ! i)) (p_orphans p)"
  have f: "p_ents (evictServer name since p) = p_ents (close_all ?vs p)" "p_entries (evictServer name since p) = p_entries (close_all ?vs p)"
    "p_orphans (evictServer name since p) = filter (\<lambda>i. \<not> ?h (p_ents p ! i)) (p_orphans p)"
    by (simp_all add: evictServer_def Let_def)
  have vs: "i \<in> set ?vs \<longleftrightarrow> in_use p i \<and> hit [name] since (p_ents p ! i)"
    using assms(2) by (auto simp: in_use_def hit_def)
  have "mapped (evictServer name since p) i \<longleftrightarrow> mapped (close_all ?vs p) i" by (simp add: mapped_def f)
  then show "in_use (evictServer name since p) i \<longleftrightarrow> in_use p i \<and> \<not> hit [name] since (p_ents p ! i)"
    using vs close_all_mapped [OF assms(2), of ?vs] by (auto simp: in_use_def f(3) hit_def)
  show "p_ents (evictServer name since p) ! i =
      (if in_use p i \<and> hit [name] since (p_ents p ! i) then (p_ents p ! i)\<lparr>e_closed := True\<rparr> else p_ents p ! i)"
    unfolding f(1) close_all_nth [OF assms(2)] vs by simp
qed

lemma evictServer_lengths [simp]:
  "length (p_ents (evictServer name since p)) = length (p_ents p)" "length (p_spawns (evictServer name since p)) = length (p_spawns p)"
  by (simp_all add: evictServer_def Let_def)

lemma hit_closed [simp]: "hit names since (e\<lparr>e_closed := b\<rparr>) = hit names since e"
  by (simp add: hit_def definedAfter_def split: option.split)

lemma hit_Cons: "hit (n # ns) since e \<longleftrightarrow> hit [n] since e \<or> hit ns since e"
  by (auto simp: hit_def)

lemma evict_entries:
  assumes "pool_inv p" "i < length (p_ents p)"
  shows "in_use (fold (\<lambda>n. evictServer n since) names p) i \<longleftrightarrow> in_use p i \<and> \<not> hit names since (p_ents p ! i)"
    "p_ents (fold (\<lambda>n. evictServer n since) names p) ! i =
      (if in_use p i \<and> hit names since (p_ents p ! i) then (p_ents p ! i)\<lparr>e_closed := True\<rparr> else p_ents p ! i)"
  using assms
proof (induction names arbitrary: p)
  case Nil
  case 1 show ?case by (simp add: hit_def)
  case 2 show ?case by (simp add: hit_def)
next
  case (Cons n ns)
  {
    fix p
    let ?q = "evictServer n since p"
    assume p: "pool_inv p" "i < length (p_ents p)"
    have q: "pool_inv ?q" "i < length (p_ents ?q)" using evictServer_inv [OF p(1)] p(2) by simp_all
    note e = evictServer_entries [OF p, of n since]
    have u: "in_use (fold (\<lambda>n. evictServer n since) (n # ns) p) i \<longleftrightarrow> in_use p i \<and> \<not> hit (n # ns) since (p_ents p ! i)"
      using Cons.IH(1) [OF q] e by (auto simp: hit_Cons [of n ns])
    have "p_ents (fold (\<lambda>n. evictServer n since) (n # ns) p) ! i =
        (if in_use p i \<and> hit (n # ns) since (p_ents p ! i) then (p_ents p ! i)\<lparr>e_closed := True\<rparr> else p_ents p ! i)"
      using Cons.IH(2) [OF q] e by (auto simp: hit_Cons [of n ns])
    note u this
  } note both = this
  case 1 then show ?case using both(1) by blast
  case 2 then show ?case using both(2) by blast
qed

text \<open>A spawn that was started from a definition that is no longer wanted is marked.\<close>

definition late :: "int option \<Rightarrow> spawn \<Rightarrow> bool" where
  "late since sp \<longleftrightarrow> (case sp_built sp of None \<Rightarrow> True | Some b \<Rightarrow> (case since of None \<Rightarrow> True | Some t \<Rightarrow> t < b))"

lemma evictServer_spawns:
  assumes "j < length (p_spawns p)"
  shows "p_spawns (evictServer name since p) ! j =
    (if p_spawning p (sp_key (p_spawns p ! j)) = Some j \<and> k_Server (sp_key (p_spawns p ! j)) = name \<and> late since (p_spawns p ! j)
     then (p_spawns p ! j)\<lparr>sp_stale := True\<rparr> else p_spawns p ! j)"
    "p_spawning (evictServer name since p) = p_spawning p"
  using assms by (simp_all add: evictServer_def Let_def late_def)

lemma evict_spawns:
  assumes "j < length (p_spawns p)"
  shows "p_spawns (fold (\<lambda>n. evictServer n since) names p) ! j =
    (if p_spawning p (sp_key (p_spawns p ! j)) = Some j \<and> k_Server (sp_key (p_spawns p ! j)) \<in> set names \<and> late since (p_spawns p ! j)
     then (p_spawns p ! j)\<lparr>sp_stale := True\<rparr> else p_spawns p ! j)"
  using assms
proof (induction names arbitrary: p)
  case (Cons n ns)
  have "late since ((p_spawns p ! j)\<lparr>sp_stale := True\<rparr>) = late since (p_spawns p ! j)" by (simp add: late_def)
  with Cons.IH [of "evictServer n since p"] Cons.prems evictServer_spawns [OF Cons.prems, of n since] show ?case
    by auto
qed simp

section \<open>The difference, name by name\<close>

definition lookup_server :: "Config option \<Rightarrow> bytes \<Rightarrow> Server option" where
  "lookup_server c n = (case c of None \<Rightarrow> None | Some c \<Rightarrow> map_of (c_Servers c) n)"

text \<open>The server is defined in the old configuration and not, or differently, in the new one.\<close>

definition redefined :: "Config option \<Rightarrow> Config \<Rightarrow> bytes \<Rightarrow> bool" where
  "redefined old new n \<longleftrightarrow>
     (\<exists>a. lookup_server old n = Some a \<and>
        (case lookup_server (Some new) n of None \<Rightarrow> True | Some b \<Rightarrow> \<not> serverEqual a b))"

definition introduced :: "Config option \<Rightarrow> Config \<Rightarrow> bytes \<Rightarrow> bool" where
  "introduced old new n \<longleftrightarrow>
     (\<exists>b. lookup_server (Some new) n = Some b \<and>
        (case lookup_server old n of None \<Rightarrow> True | Some a \<Rightarrow> \<not> serverEqual a b))"

lemma map_of_None_fst: "map_of xs n = None \<longleftrightarrow> n \<notin> fst ` set xs"
  by (rule map_of_eq_None_iff)

lemma diffServers_sets:
  assumes "distinct (map fst (c_Servers new))"
  shows "n \<in> set (Removed (diffServers old new)) \<union> set (Changed (diffServers old new)) \<longleftrightarrow> redefined old new n"
    "n \<in> set (Changed (diffServers old new)) \<union> set (Added (diffServers old new)) \<longleftrightarrow> introduced old new n"
proof -
  define olds where "olds = (case old of None \<Rightarrow> [] | Some c \<Rightarrow> c_Servers c)"
  have o: "lookup_server old n = map_of olds n" by (simp add: lookup_server_def olds_def split: option.split)
  have nw: "lookup_server (Some new) n = map_of (c_Servers new) n" by (simp add: lookup_server_def)
  have mem: "(n, s) \<in> set (c_Servers new) \<longleftrightarrow> map_of (c_Servers new) n = Some s" for s
    using map_of_eq_Some_iff [OF assms] by auto
  have ch: "n \<in> set (Changed (diffServers old new)) \<longleftrightarrow>
      (\<exists>s a. map_of (c_Servers new) n = Some s \<and> map_of olds n = Some a \<and> \<not> serverEqual a s)"
    by (force simp: diffServers_def Let_def olds_def [symmetric] mem [symmetric] split: option.splits)
  have rm: "n \<in> set (Removed (diffServers old new)) \<longleftrightarrow> map_of (c_Servers new) n = None \<and> map_of olds n \<noteq> None"
    by (force simp: diffServers_def Let_def olds_def [symmetric] map_of_eq_None_iff)
  have ad: "n \<in> set (Added (diffServers old new)) \<longleftrightarrow> map_of olds n = None \<and> map_of (c_Servers new) n \<noteq> None"
    by (force simp: diffServers_def Let_def olds_def [symmetric] map_of_eq_None_iff)
  show "n \<in> set (Removed (diffServers old new)) \<union> set (Changed (diffServers old new)) \<longleftrightarrow> redefined old new n"
    using ch rm by (auto simp: redefined_def o nw split: option.splits)
  show "n \<in> set (Changed (diffServers old new)) \<union> set (Added (diffServers old new)) \<longleftrightarrow> introduced old new n"
    using ch ad by (auto simp: introduced_def o nw split: option.splits)
qed

section \<open>Reloading\<close>

lemma Apply_cases:
  assumes "Apply add stop now (Some new) (r, ws, p) = (tr, r', ws', p')"
  obtains (unchanged) "Empty (diffServers (rc_cur r) new)" "tr_error tr = None" "rc_cur r' = Some new" "p' = p" "ws' = ws" "\<not> tr_window tr"
  | (refused) e where "SetServers add stop ws (ServerNames new) = (Inl e, ws')" "tr_error tr = Some e" "rc_cur r' = rc_cur r"
      "rc_failed r' = Some (revisionKey new)" "tr_window tr \<longleftrightarrow> \<not> failedBefore new r"
      "p' = (if tr_window tr then fold (\<lambda>n. evictServer n (Some now))
                (Changed (diffServers (rc_cur r) new) @ Added (diffServers (rc_cur r) new)) p else p)"
  | (applied) errs where "SetServers add stop ws (ServerNames new) = (Inr errs, ws')" "tr_error tr = None" "rc_cur r' = Some new"
      "p' = fold (\<lambda>n. evictServer n None) (Removed (diffServers (rc_cur r) new) @ Changed (diffServers (rc_cur r) new)) p"
proof -
  have ad: "rc_cur (snd (adopt new nxt r)) = Some new" for nxt
    by (simp add: adopt_def warnNATSDrift_def split: option.split)
  show thesis
  proof (cases "Empty (diffServers (rc_cur r) new)")
    case True
    with assms ad show thesis by (intro unchanged) (auto simp: Apply_def transition_def Let_def evict_def)
  next
    case False
    note nonempty = this
    show thesis
    proof (cases "SetServers add stop ws (ServerNames new)")
      case (Pair res ws2)
      show thesis
      proof (cases res)
        case (Inl e)
        with assms nonempty Pair show thesis
          by (intro refused [of e]) (auto simp: Apply_def transition_def Let_def evict_def)
      next
        case (Inr errs)
        with assms nonempty Pair ad show thesis
          by (intro applied [of errs]) (auto simp: Apply_def transition_def Let_def evict_def)
      qed
    qed
  qed
qed

lemma Empty_redefined:
  assumes "distinct (map fst (c_Servers new))" "Empty (diffServers old new)"
  shows "\<not> redefined old new n"
  using diffServers_sets(1) [OF assms(1), of n old] assms(2) by (simp add: Empty_def)

text \<open>
  C26. A reload that succeeds takes effect on the backends: once it is applied, every connection in the
  pool whose server was removed or defined differently is closed and out of the pool's reach, and every
  spawn under way for such a server is marked, so that it is never installed; every other connection is
  exactly as it was.
\<close>

theorem reload_replaces_backends:
  assumes "Apply add stop now (Some new) (r, ws, p) = (tr, r', ws', p')" "tr_error tr = None"
    and "pool_reach cfg p" "distinct (map fst (c_Servers new))"
  shows "rc_cur r' = Some new \<and>
    (\<forall>i<length (p_ents p). in_use p i \<longrightarrow>
       (if redefined (rc_cur r) new (k_Server (e_key (p_ents p ! i)))
        then \<not> in_use p' i \<and> e_closed (p_ents p' ! i) else in_use p' i \<and> p_ents p' ! i = p_ents p ! i)) \<and>
    (\<forall>j<length (p_spawns p). p_spawning p (sp_key (p_spawns p ! j)) = Some j \<longrightarrow>
       redefined (rc_cur r) new (k_Server (sp_key (p_spawns p ! j))) \<longrightarrow> sp_stale (p_spawns p' ! j))"
  using assms(1)
proof (cases rule: Apply_cases)
  case unchanged
  with Empty_redefined [OF assms(4) unchanged(1)] show ?thesis by simp
next
  case (refused e)
  with assms(2) show ?thesis by simp
next
  case (applied errs)
  let ?names = "Removed (diffServers (rc_cur r) new) @ Changed (diffServers (rc_cur r) new)"
  have names: "n \<in> set ?names \<longleftrightarrow> redefined (rc_cur r) new n" for n
    using diffServers_sets(1) [OF assms(4)] by simp
  have h: "hit ?names None e \<longleftrightarrow> redefined (rc_cur r) new (k_Server (e_key e))" for e
    unfolding hit_def names by (simp add: definedAfter_def)
  have "pool_inv p" by (rule pool_reach_inv [OF assms(3)])
  note ents = evict_entries [OF this, of _ None ?names, folded applied(4), unfolded h]
  have sps: "sp_stale (p_spawns p' ! j)" if "j < length (p_spawns p)" "p_spawning p (sp_key (p_spawns p ! j)) = Some j"
    "redefined (rc_cur r) new (k_Server (sp_key (p_spawns p ! j)))" for j
    unfolding applied(4) evict_spawns [OF that(1)] names using that(2,3) by (simp add: late_def split: option.split)
  show ?thesis using ents applied(3) sps by simp
qed


definition ex_old :: reconciler where
  "ex_old = \<lparr>rc_cur = Some ex_cfg, rc_boot = None, rc_failed = None\<rparr>"

lemma reload_replaces_backends_witness:
  "e_closed (p_ents (snd (snd (snd (Apply (\<lambda>_. True) (\<lambda>_. True) 5 (Some empty_config) (ex_old, ex_server, demo_busy))))) ! 0)"
proof -
  have d: "diffServers (Some ex_cfg) empty_config = \<lparr>Added = [], Removed = [''fs''], Changed = []\<rparr>"
    by (simp add: diffServers_def ex_cfg_def empty_config_def)
  obtain tr r' ws' p' where a: "Apply (\<lambda>_. True) (\<lambda>_. True) 5 (Some empty_config) (ex_old, ex_server, demo_busy) = (tr, r', ws', p')"
    by (metis prod_cases4)
  have err: "tr_error tr = None"
  proof -
    have n: "ServerNames empty_config = []" by (simp add: ServerNames_def empty_config_def)
    have s: "SetServers (\<lambda>_. True) (\<lambda>_. True) ex_server [] = (Inr [], ex_server)"
      by (simp add: SetServers_def ex_server_def Let_def)
    from a show ?thesis
      by (auto simp: Apply_def transition_def Let_def ex_old_def d Empty_def n s split: prod.splits)
  qed
  have u: "in_use demo_busy 0" using demo_busy_entry by (simp add: in_use_def mapped_def)
  have "redefined (Some ex_cfg) empty_config ''fs''"
    by (simp add: redefined_def lookup_server_def ex_cfg_def empty_config_def)
  moreover have "rc_cur ex_old = Some ex_cfg" "distinct (map fst (c_Servers empty_config))"
    by (simp_all add: ex_old_def empty_config_def)
  moreover have "k_Server (e_key (p_ents demo_busy ! 0)) = ''fs''" by (simp add: demo_busy_entry demo_key_def)
  ultimately have "e_closed (p_ents p' ! 0)"
    using reload_replaces_backends [OF a err demo_reach(3)] u demo_busy_entry(1) by simp
  then show ?thesis by (simp add: a)
qed


end
