(* ===== verification/XMcpHeader.thy ===== *)
theory XMcpHeader
  imports HeaderValue Params JsonEncode "HOL-Library.Multiset"
begin

text \<open>
  \<open>pkg/backend/xmcpheader.go\<close>: which parameters of a tool are mirrored into \<open>Mcp-Param-*\<close> headers,
  read off the tool's \<open>inputSchema\<close>, and the headers of one call, read off its arguments.
\<close>

section \<open>JSON as Go values\<close>

text \<open>
  What \<open>json.Unmarshal\<close> into \<open>any\<close> yields; a number stays its token (a \<open>json.Number\<close>).  An object is
  a Go map: its keys are distinct, a later member replaces an earlier one.  The order in which Go
  ranges over it is arbitrary, so the theorems below hold for every order of these lists.
\<close>

datatype go_any =
    ANull
  | ABool bool
  | ANumber bytes
  | AString bytes
  | AArray "go_any list"
  | AObject "(bytes \<times> go_any) list"

definition any_map :: "(bytes \<times> go_any) list \<Rightarrow> (bytes \<times> go_any) list" where
  "any_map kvs = foldl (\<lambda>m (k, v). AList.update k v m) [] kvs"

fun any_of :: "jval \<Rightarrow> go_any"
  and any_items :: "items \<Rightarrow> go_any list"
  and any_members :: "members \<Rightarrow> (bytes \<times> go_any) list" where
  "any_of (JScalar t) =
     (if t = ''null'' then ANull else if t = ''true'' then ABool True
      else if t = ''false'' then ABool False else ANumber t)"
| "any_of (JString r) = AString (unquoted r)"
| "any_of (JArray w is) = AArray (any_items is)"
| "any_of (JObject w ms) = AObject (any_map (any_members ms))"
| "any_items INil = []"
| "any_items (ICons a v b is) = any_of v # any_items is"
| "any_members MNil = []"
| "any_members (MCons a k b c v d ms) = (unquoted k, any_of v) # any_members ms"

text \<open>
  The one way a text the scanner accepts can fail to decode: a number \<open>float64\<close> cannot represent.
  \<open>strconv.ParseFloat\<close> stops reading an exponent at five digits and fails from the midpoint above
  the largest double on.
\<close>

definition exponent_value :: "bytes \<Rightarrow> int" where
  "exponent_value ds = foldl (\<lambda>n d. if n < 10000 then n * 10 + (int (byte d) - 48) else n) 0 ds"

definition number_exponent :: "bytes \<Rightarrow> int" where
  "number_exponent e =
     (case e of
        _ # g # ds \<Rightarrow>
          if g = CHR ''-'' then - exponent_value ds
          else if g = CHR ''+'' then exponent_value ds else exponent_value (g # ds)
      | _ \<Rightarrow> 0)"

definition float64_overflows :: "bytes \<Rightarrow> bool" where
  "float64_overflows t =
     (case lex_int (snd (lex_sign t)) of None \<Rightarrow> False | Some (i, s2) \<Rightarrow>
      case lex_frac s2 of None \<Rightarrow> False | Some (f, s3) \<Rightarrow>
        let m = digits_value (i @ tl f);
            x = number_exponent s3 - int (length (tl f));
            lim = 2 ^ 1024 - 2 ^ 970
        in (if 0 \<le> x then lim \<le> m * 10 ^ nat x else lim * 10 ^ nat (- x) \<le> m))"

fun unrepresentable :: "jval \<Rightarrow> bool"
  and unrepresentable_items :: "items \<Rightarrow> bool"
  and unrepresentable_members :: "members \<Rightarrow> bool" where
  "unrepresentable (JScalar t) = (t \<notin> set [''null'', ''true'', ''false''] \<and> float64_overflows t)"
| "unrepresentable (JString r) = False"
| "unrepresentable (JArray w is) = unrepresentable_items is"
| "unrepresentable (JObject w ms) = unrepresentable_members ms"
| "unrepresentable_items INil = False"
| "unrepresentable_items (ICons a v b is) = (unrepresentable v \<or> unrepresentable_items is)"
| "unrepresentable_members MNil = False"
| "unrepresentable_members (MCons a k b c v d ms) = (unrepresentable v \<or> unrepresentable_members ms)"

definition unmarshal_any :: "bytes \<Rightarrow> unmarshal_error + go_any" where
  "unmarshal_any raw =
     (case json_parse raw of
        None \<Rightarrow> Inl SyntaxError
      | Some v \<Rightarrow> if unrepresentable v then Inl UnmarshalTypeError else Inr (any_of v))"

text \<open>\<open>json.Decoder.Decode\<close> with \<open>UseNumber\<close>: the value the text starts with.\<close>

definition decode_any :: "bytes \<Rightarrow> go_any option" where
  "decode_any s =
     map_option (any_of \<circ> fst) (parse_value (2 * length s + 2) maxNestingDepth (dropWhile json_ws s))"

section \<open>The annotations of a tool\<close>

record headerParam =
  hp_name :: bytes
  hp_path :: "bytes list"

datatype annotation_error =
    AnnotationNotString
  | AnnotationEmpty
  | AnnotationNotToken bytes
  | AnnotationUnreachable bytes
  | AnnotationCollides bytes bytes
  | AnnotationOnNumber bytes
  | AnnotationNonPrimitive bytes
  | SchemaUnreadable

definition instanceKeywords :: "bytes list" where
  "instanceKeywords = [''default'', ''const'', ''enum'', ''examples'']"

definition token_chars :: bytes where
  "token_chars = ''!#$%&'' @ [CHR 0x27] @ ''*+-.^_`|~0123456789abcdefghijklmnopqrstuvwxyzABCDEFGHIJKLMNOPQRSTUVWXYZ''"

fun isHTTPToken_loop :: "bytes \<Rightarrow> bool" where
  "isHTTPToken_loop [] = True"
| "isHTTPToken_loop (c # s) = (if c \<notin> set token_chars then False else isHTTPToken_loop s)"

definition isHTTPToken :: "bytes \<Rightarrow> bool" where
  "isHTTPToken s = (if \<not> isHTTPToken_loop s then False else length s > 0)"

text \<open>\<open>typeOf\<close>; \<open>None\<close> is the absent key.\<close>

fun typeOf_union :: "go_any list \<Rightarrow> bytes \<Rightarrow> bytes" where
  "typeOf_union [] single = single"
| "typeOf_union (m # ms) single =
     (case m of
        AString s \<Rightarrow>
          if s = ''null'' then typeOf_union ms single
          else if single \<noteq> [] then [] else typeOf_union ms s
      | _ \<Rightarrow> [])"

definition typeOf :: "go_any option \<Rightarrow> bytes" where
  "typeOf v =
     (case v of
        Some (AString t) \<Rightarrow> t
      | Some (AArray ms) \<Rightarrow> typeOf_union ms []
      | _ \<Rightarrow> [])"

record annotationWalk =
  aw_found :: "headerParam list"
  aw_seen :: "(bytes \<times> bytes) list"

definition record_annotation ::
    "go_any \<Rightarrow> go_any option \<Rightarrow> bytes list \<Rightarrow> bool \<Rightarrow> annotationWalk \<Rightarrow> annotation_error + annotationWalk" where
  "record_annotation raw ty path reachable w =
     (case raw of
        AString name \<Rightarrow>
          if name = [] then Inl AnnotationEmpty
          else if \<not> isHTTPToken name then Inl (AnnotationNotToken name)
          else if \<not> reachable \<or> path = [] then Inl (AnnotationUnreachable name)
          else (case map_of (aw_seen w) (map ascii_lower name) of
                  Some prior \<Rightarrow> Inl (AnnotationCollides name prior)
                | None \<Rightarrow>
                    if typeOf ty \<in> set [''string'', ''integer'', ''boolean''] then
                      Inr \<lparr>aw_found = aw_found w @ [\<lparr>hp_name = name, hp_path = path\<rparr>],
                           aw_seen = AList.update (map ascii_lower name) name (aw_seen w)\<rparr>
                    else if typeOf ty = ''number'' then Inl (AnnotationOnNumber name)
                    else Inl (AnnotationNonPrimitive name))
      | _ \<Rightarrow> Inl AnnotationNotString)"

function (sequential) walk :: "go_any \<Rightarrow> bytes list \<Rightarrow> bool \<Rightarrow> annotationWalk \<Rightarrow> annotation_error + annotationWalk"
  and walk_items :: "go_any list \<Rightarrow> bytes list \<Rightarrow> annotationWalk \<Rightarrow> annotation_error + annotationWalk"
  and walk_members ::
    "(bytes \<times> go_any) list \<Rightarrow> bytes list \<Rightarrow> bool \<Rightarrow> annotationWalk \<Rightarrow> annotation_error + annotationWalk"
  and walk_props ::
    "(bytes \<times> go_any) list \<Rightarrow> bytes list \<Rightarrow> bool \<Rightarrow> annotationWalk \<Rightarrow> annotation_error + annotationWalk" where
  "walk (AObject obj) path reachable w =
     bind_err
       (case map_of obj SchemaHeaderAnnotation of
          Some raw \<Rightarrow> record_annotation raw (map_of obj ''type'') path reachable w
        | None \<Rightarrow> Inr w)
       (\<lambda>w. walk_members obj path reachable w)"
| "walk (AArray arr) path reachable w = walk_items arr path w"
| "walk _ path reachable w = Inr w"
| "walk_items [] path w = Inr w"
| "walk_items (x # xs) path w = bind_err (walk x path False w) (\<lambda>w. walk_items xs path w)"
| "walk_members [] path reachable w = Inr w"
| "walk_members ((k, child) # kvs) path reachable w =
     (if k = SchemaHeaderAnnotation then walk_members kvs path reachable w
      else if k \<in> set instanceKeywords then walk_members kvs path reachable w
      else if k = ''properties'' then
        (case child of
           AObject props \<Rightarrow>
             bind_err (walk_props props path reachable w) (\<lambda>w. walk_members kvs path reachable w)
         | _ \<Rightarrow> walk_members kvs path reachable w)
      else bind_err (walk child path False w) (\<lambda>w. walk_members kvs path reachable w))"
| "walk_props [] path reachable w = Inr w"
| "walk_props ((name, sub) # props) path reachable w =
     bind_err (walk sub (path @ [name]) reachable w) (\<lambda>w. walk_props props path reachable w)"
  by pat_completeness auto
termination
  by (relation "measure (\<lambda>x. case x of
        Inl (Inl (v, _)) \<Rightarrow> size v
      | Inl (Inr (xs, _)) \<Rightarrow> size_list size xs
      | Inr (Inl (kvs, _)) \<Rightarrow> size_list (size_prod (\<lambda>_. 0) size) kvs
      | Inr (Inr (kvs, _)) \<Rightarrow> size_list (size_prod (\<lambda>_. 0) size) kvs)") auto

definition parse_schema :: "go_any \<Rightarrow> annotation_error + headerParam list" where
  "parse_schema root =
     bind_err (walk root [] True \<lparr>aw_found = [], aw_seen = []\<rparr>)
       (\<lambda>w. Inr (sort_key hp_name (aw_found w)))"

definition parseToolAnnotations :: "bytes \<Rightarrow> annotation_error + headerParam list" where
  "parseToolAnnotations schema =
     (if length schema = 0 then Inr []
      else
        (case unmarshal_any schema of
           Inl e \<Rightarrow>
             if strings_Contains schema SchemaHeaderAnnotation then Inl SchemaUnreadable else Inr []
         | Inr root \<Rightarrow> parse_schema root))"

section \<open>The headers of a call\<close>

fun caseUniqueAt :: "(bytes \<times> go_any) list \<Rightarrow> bytes \<Rightarrow> (bytes \<times> bytes) + unit" where
  "caseUniqueAt [] k = Inr ()"
| "caseUniqueAt ((k2, v) # obj) k =
     (if k2 \<noteq> k \<and> EqualFoldKey k2 k then Inl (k, k2) else caseUniqueAt obj k)"

fun valueAtPath :: "go_any \<Rightarrow> bytes list \<Rightarrow> (bytes \<times> bytes) + go_any option" where
  "valueAtPath node [] = (if node = ANull then Inr None else Inr (Some node))"
| "valueAtPath node (k # path) =
     (case node of
        AObject obj \<Rightarrow>
          (case caseUniqueAt obj k of
             Inl e \<Rightarrow> Inl e
           | Inr _ \<Rightarrow>
               (case map_of obj k of
                  None \<Rightarrow> Inr None
                | Some v \<Rightarrow> valueAtPath v path))
      | _ \<Rightarrow> Inr None)"

definition maxSafeInteger :: int where
  "maxSafeInteger = 2 ^ 53 - 1"

definition headerText :: "go_any \<Rightarrow> bytes option" where
  "headerText v =
     (case v of
        AString t \<Rightarrow> Some t
      | ABool b \<Rightarrow> Some (if b then ''true'' else ''false'')
      | ANumber t \<Rightarrow>
          (case int_of_token t of
             None \<Rightarrow> None
           | Some n \<Rightarrow> if n > maxSafeInteger \<or> n < - maxSafeInteger then None else Some (itoa n))
      | _ \<Rightarrow> None)"

text \<open>The headers, and the names of the parameters that are present but cannot be rendered.\<close>

type_synonym header_map = "(bytes \<times> bytes) list"

fun paramHeaders_loop ::
    "go_any \<Rightarrow> headerParam list \<Rightarrow> header_map \<Rightarrow> bytes list \<Rightarrow> header_map \<times> bytes list" where
  "paramHeaders_loop args [] out skipped = (out, skipped)"
| "paramHeaders_loop args (p # ps) out skipped =
     (case valueAtPath args (hp_path p) of
        Inl e \<Rightarrow> paramHeaders_loop args ps out (skipped @ [hp_name p])
      | Inr None \<Rightarrow> paramHeaders_loop args ps out skipped
      | Inr (Some v) \<Rightarrow>
          (case headerText v of
             None \<Rightarrow> paramHeaders_loop args ps out (skipped @ [hp_name p])
           | Some s \<Rightarrow>
               paramHeaders_loop args ps
                 (AList.update (HeaderParamPrefix @ hp_name p) (EncodeHeaderValue s) out) skipped))"

definition paramHeaders :: "headerParam list \<Rightarrow> bytes \<Rightarrow> header_map \<times> bytes list" where
  "paramHeaders ps arguments =
     (if length ps = 0 \<or> length arguments = 0 then ([], [])
      else
        (case decode_any arguments of
           None \<Rightarrow> ([], [])
         | Some args \<Rightarrow> paramHeaders_loop args ps [] []))"

section \<open>The reference: the annotations of a schema\<close>

text \<open>
  Every place where the annotation stands, \<open>None\<close> where it is not legal: the walk records these in
  turn.  The reference does not thread the walk's state.
\<close>

definition site :: "go_any \<Rightarrow> go_any option \<Rightarrow> bytes list \<Rightarrow> bool \<Rightarrow> headerParam option" where
  "site raw ty path reachable =
     (case raw of
        AString name \<Rightarrow>
          if isHTTPToken name \<and> reachable \<and> path \<noteq> [] \<and>
             typeOf ty \<in> set [''string'', ''integer'', ''boolean'']
          then Some \<lparr>hp_name = name, hp_path = path\<rparr> else None
      | _ \<Rightarrow> None)"

definition site_at :: "(bytes \<times> go_any) list \<Rightarrow> bytes list \<Rightarrow> bool \<Rightarrow> headerParam option list" where
  "site_at obj path reachable =
     (case map_of obj SchemaHeaderAnnotation of
        None \<Rightarrow> []
      | Some raw \<Rightarrow> [site raw (map_of obj ''type'') path reachable])"

lemma size_item: "(x :: go_any) \<in> set xs \<Longrightarrow> size x \<le> size_list size xs"
  by (induction xs) auto

lemma size_member: "(k, v) \<in> set m \<Longrightarrow> size v < size_list (size_prod (\<lambda>_. 0) size) m"
  by (induction m) auto

function (sequential) sites :: "go_any \<Rightarrow> bytes list \<Rightarrow> bool \<Rightarrow> headerParam option list"
  and member_sites :: "bytes \<times> go_any \<Rightarrow> bytes list \<Rightarrow> bool \<Rightarrow> headerParam option list" where
  "sites (AObject obj) path reachable =
     site_at obj path reachable @ concat (map (\<lambda>kv. member_sites kv path reachable) obj)"
| "sites (AArray arr) path reachable = concat (map (\<lambda>x. sites x path False) arr)"
| "sites _ path reachable = []"
| "member_sites (k, child) path reachable =
     (if k = SchemaHeaderAnnotation \<or> k \<in> set instanceKeywords then []
      else if k = ''properties'' then
        (case child of
           AObject props \<Rightarrow> concat (map (\<lambda>(name, sub). sites sub (path @ [name]) reachable) props)
         | _ \<Rightarrow> [])
      else sites child path False)"
  by pat_completeness auto
termination
  by (relation "measure (\<lambda>x. case x of
        Inl (v, _) \<Rightarrow> 2 * size v
      | Inr ((k, v), _) \<Rightarrow> Suc (2 * size v))")
    (auto dest!: size_member size_item)

definition lower_name :: "headerParam \<Rightarrow> bytes" where
  "lower_name hp = map ascii_lower (hp_name hp)"

definition annotated :: "go_any \<Rightarrow> headerParam list \<Rightarrow> bool" where
  "annotated root ps =
     (let hs = map the (sites root [] True) in
      None \<notin> set (sites root [] True) \<and> distinct (map lower_name hs) \<and> ps = sort_key hp_name hs)"

text \<open>Recording a list of places.\<close>

fun found_all :: "headerParam option list \<Rightarrow> bytes set \<Rightarrow> headerParam list option" where
  "found_all [] seen = Some []"
| "found_all (None # ss) seen = None"
| "found_all (Some hp # ss) seen =
     (if lower_name hp \<in> seen then None
      else map_option ((#) hp) (found_all ss (insert (lower_name hp) seen)))"

lemma found_all_append:
  "found_all (ss @ ts) seen =
     (case found_all ss seen of None \<Rightarrow> None
      | Some hs \<Rightarrow> map_option ((@) hs) (found_all ts (lower_name ` set hs \<union> seen)))"
proof (induction ss seen rule: found_all.induct)
  case (1 seen)
  then show ?case by (cases "found_all ts seen") auto
next
  have app: "(@) (x # xs) = (\<lambda>ys. x # xs @ ys)" for x :: headerParam and xs by auto
  case (3 hp ss seen)
  then show ?case by (auto split: option.splits simp: option.map_comp comp_def app)
qed simp

lemma found_all_Some:
  "found_all ss seen = Some hs \<longleftrightarrow>
     None \<notin> set ss \<and> hs = map the ss \<and> distinct (map lower_name hs) \<and> lower_name ` set hs \<inter> seen = {}"
proof (induction ss seen arbitrary: hs rule: found_all.induct)
  case (3 hp ss seen)
  show ?case
  proof (cases "lower_name hp \<in> seen")
    case False
    with 3 [OF False] show ?thesis by (auto simp: image_image disjoint_iff) (metis (no_types, lifting) image_eqI)
  qed auto
qed auto

definition walked :: "annotationWalk \<Rightarrow> headerParam option list \<Rightarrow> annotation_error + annotationWalk \<Rightarrow> bool" where
  "walked w ss r =
     (case found_all ss (fst ` set (aw_seen w)) of
        None \<Rightarrow> (\<exists>e. r = Inl e)
      | Some hs \<Rightarrow> (\<exists>w'. r = Inr w' \<and> aw_found w' = aw_found w @ hs \<and>
          fst ` set (aw_seen w') = lower_name ` set hs \<union> fst ` set (aw_seen w)))"

lemma walked_Nil [simp]: "walked w [] (Inr w)"
  by (simp add: walked_def)

lemma walked_bind:
  assumes "walked w ss r" "\<And>w. walked w ts (f w)"
  shows "walked w (ss @ ts) (bind_err r f)"
proof (cases "found_all ss (fst ` set (aw_seen w))")
  case None
  with assms(1) show ?thesis by (auto simp: walked_def found_all_append)
next
  case (Some hs)
  with assms(1) obtain w' where r: "r = Inr w'" "aw_found w' = aw_found w @ hs"
    "fst ` set (aw_seen w') = lower_name ` set hs \<union> fst ` set (aw_seen w)"
    by (auto simp: walked_def)
  from assms(2) [of w'] r Some show ?thesis
    by (cases "found_all ts (lower_name ` set hs \<union> fst ` set (aw_seen w))")
      (auto simp: walked_def found_all_append image_Un Un_assoc Un_left_commute)
qed

lemma update_keys: "fst ` set (AList.update k v m) = insert k (fst ` set m)"
  using dom_update [of k v m] by (simp add: dom_map_of_conv_image_fst)

lemma walked_record: "walked w [site raw ty path reachable] (record_annotation raw ty path reachable w)"
proof (cases raw)
  case (AString name)
  have "map_of (aw_seen w) (map ascii_lower name) = None \<longleftrightarrow> map ascii_lower name \<notin> fst ` set (aw_seen w)"
    by (simp add: map_of_eq_None_iff)
  with AString show ?thesis
    by (auto simp: walked_def record_annotation_def site_def isHTTPToken_def lower_name_def update_keys
        split: option.splits)
qed (simp_all add: walked_def record_annotation_def site_def)

text \<open>The walk records the places of the reference, in the same order.\<close>

lemma walk_walked:
  "walked w (sites node path reachable) (walk node path reachable w)"
  "walked w (concat (map (\<lambda>x. sites x path False) xs)) (walk_items xs path w)"
  "walked w (concat (map (\<lambda>kv. member_sites kv path reachable) kvs)) (walk_members kvs path reachable w)"
  "walked w (concat (map (\<lambda>(name, sub). sites sub (path @ [name]) reachable) props))
     (walk_props props path reachable w)"
proof (induction node path reachable w and xs path w and kvs path reachable w and props path reachable w
    rule: walk_walk_items_walk_members_walk_props.induct)
  case (1 obj path reachable w)
  have "walked w (site_at obj path reachable)
     (case map_of obj SchemaHeaderAnnotation of
          Some raw \<Rightarrow> record_annotation raw (map_of obj ''type'') path reachable w
        | None \<Rightarrow> Inr w)"
    using walked_record by (auto simp: site_at_def split: option.splits)
  from walked_bind [OF this 1] show ?case by simp
next
  case 5
  then show ?case by (auto intro: walked_bind)
next
  case (7 k child kvs path reachable w)
  then show ?case
    by (cases child) (auto intro: walked_bind simp del: walk.simps(1) sites.simps(1) append_assoc)
next
  case 9
  then show ?case by (auto intro: walked_bind)
qed simp_all

lemma parse_schema_iff: "parse_schema root = Inr ps \<longleftrightarrow> annotated root ps"
proof -
  have "walked \<lparr>aw_found = [], aw_seen = []\<rparr> (sites root [] True)
      (walk root [] True \<lparr>aw_found = [], aw_seen = []\<rparr>)"
    by (rule walk_walked)
  moreover have "found_all (sites root [] True) {} = None \<Longrightarrow> \<not> annotated root ps"
    using found_all_Some [of "sites root [] True" "{}" "map the (sites root [] True)"]
    by (auto simp: annotated_def Let_def)
  ultimately show ?thesis
    by (cases "found_all (sites root [] True) {}")
      (auto simp: walked_def parse_schema_def annotated_def Let_def bind_err_Inr found_all_Some)
qed

section \<open>The order in which Go ranges over a schema does not matter\<close>

text \<open>\<open>ranged a b\<close>: \<open>b\<close> is \<open>a\<close> with the members of every object listed in some other order.\<close>

inductive ranged :: "go_any \<Rightarrow> go_any \<Rightarrow> bool" where
  ranged_atom: "(\<nexists>xs. a = AArray xs) \<Longrightarrow> (\<nexists>kvs. a = AObject kvs) \<Longrightarrow> ranged a a"
| ranged_array: "list_all2 ranged xs ys \<Longrightarrow> ranged (AArray xs) (AArray ys)"
| ranged_object:
    "list_all2 (rel_prod (=) ranged) kvs kvs' \<Longrightarrow>
     distinct (map fst kvs) \<Longrightarrow> mset kvs' = mset kvs'' \<Longrightarrow> ranged (AObject kvs) (AObject kvs'')"

inductive_simps ranged_simps [simp]:
  "ranged ANull b" "ranged (ABool c) b" "ranged (ANumber t) b" "ranged (AString s) b"
  "ranged (AArray xs) b" "ranged (AObject kvs) b"

lemma ranged_map_of:
  assumes "list_all2 (rel_prod (=) ranged) kvs kvs'"
    "distinct (map fst kvs)" "mset kvs' = mset kvs''"
  shows "rel_option ranged (map_of kvs k) (map_of kvs'' k)"
proof -
  have keys: "map fst kvs = map fst kvs'" and rel: "rel_option ranged (map_of kvs k) (map_of kvs' k)"
    using assms(1) by (induction kvs kvs') auto
  have "map_of kvs' = map_of kvs''"
  proof (rule map_of_inject_set [THEN iffD2])
    show d: "distinct (map fst kvs')" using assms(2) keys by simp
    have "mset (map fst kvs') = mset (map fst kvs'')" using assms(3) by simp
    from mset_eq_imp_distinct_iff [OF this] d show "distinct (map fst kvs'')" by simp
    show "set kvs' = set kvs''" using assms(3) by (rule mset_eq_setD)
  qed
  with rel show ?thesis by simp
qed

lemma ranged_type: "rel_option ranged v v' \<Longrightarrow> typeOf v' = typeOf v"
proof -
  have union: "list_all2 ranged xs ys \<Longrightarrow> typeOf_union ys s = typeOf_union xs s" for xs ys s
  proof (induction xs ys arbitrary: s rule: list_all2_induct)
    case (Cons x xs y ys)
    from Cons.hyps(1) show ?case by cases (auto simp: Cons.IH split: go_any.splits)
  qed simp
  assume "rel_option ranged v v'"
  then show ?thesis
  proof cases
    case (Some x y)
    then show ?thesis by (cases x) (auto simp: typeOf_def union)
  qed simp
qed

lemma ranged_site:
  "ranged raw raw' \<Longrightarrow> rel_option ranged ty ty' \<Longrightarrow> site raw' ty' path r = site raw ty path r"
  by (cases raw) (auto simp: site_def ranged_type)

lemma ranged_site_at:
  assumes "list_all2 (rel_prod (=) ranged) kvs kvs'"
    "distinct (map fst kvs)" "mset kvs' = mset kvs''"
  shows "site_at kvs'' path r = site_at kvs path r"
  using ranged_map_of [OF assms, of SchemaHeaderAnnotation]
proof cases
  case None
  then show ?thesis by (simp add: site_at_def)
next
  case (Some raw raw')
  with ranged_site [OF Some(3) ranged_map_of [OF assms, of "''type''"]] show ?thesis
    by (simp add: site_at_def)
qed

lemma mset_concat_perm: "mset xs = mset ys \<Longrightarrow> mset (concat (map f xs)) = mset (concat (map f ys))"
proof -
  have "mset (concat (map f zs)) = sum_mset (image_mset (\<lambda>x. mset (f x)) (mset zs))" for zs
    by (induction zs) auto
  then show "mset xs = mset ys \<Longrightarrow> mset (concat (map f xs)) = mset (concat (map f ys))" by simp
qed

lemma mset_concat_rel:
  "list_all2 (\<lambda>x y. mset (f x) = mset (g y)) xs ys \<Longrightarrow>
     mset (concat (map f xs)) = mset (concat (map g ys))"
  by (induction xs ys rule: list_all2_induct) auto

definition prop_sites :: "go_any \<Rightarrow> bytes list \<Rightarrow> bool \<Rightarrow> headerParam option list" where
  "prop_sites child path r =
     (case child of
        AObject props \<Rightarrow> concat (map (\<lambda>(name, sub). sites sub (path @ [name]) r) props)
      | _ \<Rightarrow> [])"

lemma member_sites_eq:
  "member_sites kv path r =
     (if fst kv = SchemaHeaderAnnotation \<or> fst kv \<in> set instanceKeywords then []
      else if fst kv = ''properties'' then prop_sites (snd kv) path r else sites (snd kv) path False)"
  by (cases kv) (simp add: prop_sites_def split: go_any.splits)

definition same_sites :: "go_any \<Rightarrow> go_any \<Rightarrow> bool" where
  "same_sites a b =
     (\<forall>path r. mset (sites b path r) = mset (sites a path r) \<and>
        mset (prop_sites b path r) = mset (prop_sites a path r))"

lemma ranged_sites: "ranged a b \<Longrightarrow> same_sites a b"
proof (induction a b rule: ranged.induct)
  case (ranged_array xs ys)
  have "mset (concat (map (\<lambda>x. sites x path False) xs)) = mset (concat (map (\<lambda>x. sites x path False) ys))" for path
    by (rule mset_concat_rel, rule list_all2_mono [OF ranged_array]) (simp add: same_sites_def)
  then show ?case by (simp add: same_sites_def prop_sites_def)
next
  case (ranged_object kvs kvs' kvs'')
  have rel: "list_all2 (rel_prod (=) (\<lambda>v v'. ranged v v' \<and> same_sites v v')) kvs kvs'"
    using ranged_object(1) by simp
  have members: "mset (concat (map (\<lambda>kv. member_sites kv path r) kvs)) =
      mset (concat (map (\<lambda>kv. member_sites kv path r) kvs''))" for path r
    by (rule trans [OF _ mset_concat_perm [OF ranged_object(3)]], rule mset_concat_rel, rule list_all2_mono [OF rel]) (simp add: member_sites_eq same_sites_def rel_prod_sel)
  have props: "mset (concat (map (\<lambda>(name, sub). sites sub (path @ [name]) r) kvs)) =
      mset (concat (map (\<lambda>(name, sub). sites sub (path @ [name]) r) kvs''))" for path r
    by (rule trans [OF _ mset_concat_perm [OF ranged_object(3)]], rule mset_concat_rel, rule list_all2_mono [OF rel]) (simp add: same_sites_def rel_prod_sel case_prod_beta)
  have "list_all2 (rel_prod (=) ranged) kvs kvs'"
    by (rule list_all2_mono [OF rel]) (auto simp: rel_prod_sel)
  from ranged_site_at [OF this ranged_object(2,3)] members props show ?case
    by (simp add: same_sites_def prop_sites_def)
qed (simp add: same_sites_def)

lemma annotated_ranged:
  assumes "ranged a b"
  shows "annotated b ps \<longleftrightarrow> annotated a ps"
proof -
  let ?a = "sites a [] True" and ?b = "sites b [] True"
  have m: "mset ?b = mset ?a" using ranged_sites [OF assms] unfolding same_sites_def by blast
  then have the: "mset (map the ?b) = mset (map the ?a)" by simp
  have sets: "set ?b = set ?a" using m by (rule mset_eq_setD)
  from the have "mset (map lower_name (map the ?b)) = mset (map lower_name (map the ?a))"
    by (metis mset_map)
  then have dist: "distinct (map lower_name (map the ?b)) \<longleftrightarrow> distinct (map lower_name (map the ?a))"
    by (rule mset_eq_imp_distinct_iff)
  have "sort_key hp_name (map the ?b) = sort_key hp_name (map the ?a)"
    if "distinct (map lower_name (map the ?a))"
  proof -
    have "inj_on hp_name (set (map the ?a))"
      using that by (auto simp: distinct_map inj_on_def lower_name_def)
    moreover have "set (map the ?b) = set (map the ?a)" using sets by simp
    ultimately show ?thesis using the by (intro sort_key_inj_key_eq) auto
  qed
  with sets dist show ?thesis by (auto simp: annotated_def Let_def)
qed

lemma any_map_distinct: "distinct (map fst (any_map kvs))"
proof -
  have "distinct (map fst m) \<Longrightarrow> distinct (map fst (foldl (\<lambda>m (k, v). AList.update k v m) m kvs))" for m
    by (induction kvs arbitrary: m) (auto simp: distinct_update)
  then show ?thesis by (simp add: any_map_def)
qed

lemma update_values: "(k', v') \<in> set (AList.update k v m) \<Longrightarrow> (k', v') \<in> set m \<or> (k', v') = (k, v)"
  by (induction m) (auto split: if_splits)

lemma any_map_values: "(k, v) \<in> set (any_map kvs) \<Longrightarrow> v \<in> snd ` set kvs"
proof -
  have "(k, v) \<in> set (foldl (\<lambda>m (k, v). AList.update k v m) m kvs) \<Longrightarrow> v \<in> snd ` set m \<union> snd ` set kvs" for m
    by (induction kvs arbitrary: m) (force dest: update_values)+
  then show "(k, v) \<in> set (any_map kvs) \<Longrightarrow> v \<in> snd ` set kvs"
    unfolding any_map_def by fastforce
qed

text \<open>What is decoded has a range order, its own.\<close>

lemma ranged_any_of:
  "ranged (any_of v) (any_of v)"
  "list_all2 ranged (any_items is) (any_items is)"
  "\<forall>x \<in> snd ` set (any_members ms). ranged x x"
proof (induction v and "is" and ms)
  case (JObject w ms)
  have "list_all2 (rel_prod (=) ranged) (any_map (any_members ms)) (any_map (any_members ms))"
    using JObject any_map_values by (fastforce simp: list_all2_same)
  then show ?case by (auto intro!: exI simp: any_map_distinct)
qed auto

text \<open>
  Whatever order Go ranges over the objects of a schema in, the walk accepts it exactly when every
  annotation in it stands on a string, integer or boolean property reached through \<open>properties\<close>
  alone, under a header name that is a token and that no other annotation spells up to case; and it
  then yields those annotations, sorted.
\<close>

theorem annotations_are_the_reference:
  assumes "ranged root root'"
  shows "parse_schema root' = Inr ps \<longleftrightarrow> annotated root ps"
  using annotated_ranged [OF assms] by (simp add: parse_schema_iff)

definition ex_prop :: go_any where
  "ex_prop = AObject [(''type'', AString ''string''), (SchemaHeaderAnnotation, AString ''Region'')]"

definition ex_schema :: "bool \<Rightarrow> go_any" where
  "ex_schema flip =
     AObject ((if flip then rev else id)
       [(''type'', AString ''object''), (''properties'', AObject [(''region'', ex_prop)])])"

theorem annotations_are_the_reference_witness:
  "parse_schema (ex_schema True) = Inr [\<lparr>hp_name = ''Region'', hp_path = [''region'']\<rparr>]"
proof -
  have obj: "ranged (AObject kvs) (AObject kvs')"
    if "list_all (\<lambda>(k, v). ranged v v) kvs" "distinct (map fst kvs)" "mset kvs = mset kvs'" for kvs kvs'
    using that by (intro ranged_object [of kvs kvs]) (auto simp: list_all2_same list_all_iff)
  have "ranged ex_prop ex_prop"
    unfolding ex_prop_def by (rule obj) (simp_all add: SchemaHeaderAnnotation_def)
  then have "ranged (ex_schema False) (ex_schema True)"
    unfolding ex_schema_def by (intro obj) (simp_all add: obj del: ranged_simps(6))
  moreover have "annotated (ex_schema False) [\<lparr>hp_name = ''Region'', hp_path = [''region'']\<rparr>]"
    by code_simp
  ultimately show ?thesis by (simp add: annotations_are_the_reference)
qed

section \<open>What a mirrored header says\<close>

text \<open>A backend follows a path through the doc of an object.\<close>

fun read_path :: "(bytes \<Rightarrow> bytes \<Rightarrow> bool) \<Rightarrow> bool \<Rightarrow> bytes \<Rightarrow> bytes list \<Rightarrow> bytes option" where
  "read_path same l doc [] = Some doc"
| "read_path same l doc (k # path) =
     (case json_parse doc of
        Some (JObject w ms) \<Rightarrow>
          (case reader same l ms k of
             None \<Rightarrow> None
           | Some t \<Rightarrow> read_path same l t path)
      | _ \<Rightarrow> None)"

text \<open>A parser's equality of keys: exact, case-folding, or anything between.\<close>

definition reads_keys :: "(bytes \<Rightarrow> bytes \<Rightarrow> bool) \<Rightarrow> bool" where
  "reads_keys same = ((\<forall>a. same a a) \<and> (\<forall>a b. same a b \<longrightarrow> EqualFoldKey a b))"

text \<open>The value a header renders, read off the doc of the parameter.\<close>

definition headed :: "bytes \<Rightarrow> bytes \<Rightarrow> bool" where
  "headed doc s =
     (unmarshal_string doc = Inr s \<and> doc \<noteq> ''null'' \<or> doc = s \<and> s \<in> set [''true'', ''false''] \<or>
      (\<exists>n. int_of_token doc = Some n \<and> \<bar>n\<bar> \<le> maxSafeInteger \<and> s = itoa n))"

lemma decode_any_whole: "json_parse s = Some v \<Longrightarrow> decode_any s = Some (any_of v)"
  by (auto simp: json_parse_def decode_any_def split: option.splits if_splits)

lemma any_members_list: "any_members ms = map (\<lambda>(k, v). (k, any_of v)) (members_list ms)"
  by (induction ms rule: members_list.induct) auto

lemma update_new: "k \<notin> fst ` set m \<Longrightarrow> AList.update k v m = m @ [(k, v)]"
  by (induction m) auto

lemma any_map_id:
  assumes "distinct (map fst kvs)"
  shows "any_map kvs = kvs"
proof -
  have "distinct (map fst (m @ kvs)) \<Longrightarrow> foldl (\<lambda>m (k, v). AList.update k v m) m kvs = m @ kvs" for m
    by (induction kvs arbitrary: m) (auto simp: update_new case_prod_beta)
  from this [of "[]"] assms show ?thesis by (simp add: any_map_def)
qed

lemma caseUniqueAt_ok: "caseUniqueAt obj k = Inr u \<longleftrightarrow> (\<forall>k2\<in>fst ` set obj. EqualFoldKey k2 k \<longrightarrow> k2 = k)"
  by (induction obj k rule: caseUniqueAt.induct) auto

text \<open>One step of a reader and of \<open>valueAtPath\<close>, side by side.\<close>

lemma read_step:
  assumes v: "json_parse doc = Some (JObject w ms)" and d: "distinct (map fst (members_list ms))"
    and u: "caseUniqueAt (any_members ms) k = Inr ()"
    and same: "reads_keys same"
  shows "read_path same l doc (k # path) =
    (case map_of (members_list ms) k of None \<Rightarrow> None | Some v \<Rightarrow> read_path same l (render v) path)"
proof -
  have "unambiguous (object_map ms) k = Inr ()"
    using u unfolding unambiguous_ok caseUniqueAt_ok object_map_keys by (auto simp: any_members_list)
  then have "reader same l ms k = map_of (object_map ms) k"
    by (rule reader_agrees [OF d]) (use same in \<open>auto simp: reads_keys_def\<close>)
  then show ?thesis
    by (simp add: v map_of_object_map_distinct [OF d] split: option.splits)
qed

lemma distinct_keys_at:
  assumes "json_parse doc = Some (JObject w ms)" "distinct_keys (JObject w ms)"
    "map_of (members_list ms) k = Some v"
  shows "json_parse (render v) = Some v" "distinct_keys v"
  using assms map_of_SomeD [OF assms(3)] json_parse_member [OF assms(1)] distinct_keys_member by auto

lemma valueAtPath_read:
  assumes same: "reads_keys same"
  shows "json_parse (render v) = Some v \<Longrightarrow> distinct_keys v \<Longrightarrow> valueAtPath (any_of v) path = Inr (Some x) \<Longrightarrow>
    \<exists>v'. read_path same l (render v) path = Some (render v') \<and> json_parse (render v') = Some v' \<and>
      x = any_of v' \<and> x \<noteq> ANull"
proof (induction path arbitrary: v)
  case Nil
  then show ?case by (auto split: if_splits)
next
  case (Cons k path)
  then obtain w ms where v: "v = JObject w ms" by (cases v) (auto split: if_splits)
  have d: "distinct (map fst (members_list ms))" using Cons.prems v by simp
  then have m: "any_of v = AObject (any_members ms)"
    by (simp add: v any_map_id any_members_list comp_def case_prod_beta)
  with Cons.prems obtain y where u: "caseUniqueAt (any_members ms) k = Inr ()"
    and y: "map_of (any_members ms) k = Some y" "valueAtPath y path = Inr (Some x)"
    by (auto split: sum.splits option.splits)
  then obtain v1 where v1: "map_of (members_list ms) k = Some v1" "y = any_of v1"
    by (auto simp: any_members_list map_of_map)
  from distinct_keys_at [OF _ _ v1(1)] Cons.prems v have "json_parse (render v1) = Some v1" "distinct_keys v1"
    by auto
  from Cons.IH [OF this] y v1(2) obtain v' where "read_path same l (render v1) path = Some (render v')"
    "json_parse (render v') = Some v'" "x = any_of v'" "x \<noteq> ANull" by auto
  with read_step [OF _ d u same] Cons.prems(1) v v1 show ?case by auto
qed

lemma headerText_headed:
  assumes "json_parse (render v) = Some v" "headerText (any_of v) = Some s" "any_of v \<noteq> ANull"
  shows "headed (render v) s"
proof (cases v)
  case (JScalar t)
  with assms show ?thesis
    by (auto simp: headed_def headerText_def split: if_splits option.splits)
next
  case (JString r)
  with assms show ?thesis
    by (simp add: headed_def headerText_def unmarshal_string_def json_null_def)
qed (use assms in \<open>simp_all add: headerText_def\<close>)

lemma paramHeaders_loop_from:
  "(h, x) \<in> set (fst (paramHeaders_loop args ps out skipped)) \<Longrightarrow>
     (h, x) \<in> set out \<or> (\<exists>p\<in>set ps. \<exists>v s. valueAtPath args (hp_path p) = Inr (Some v) \<and>
        headerText v = Some s \<and> h = HeaderParamPrefix @ hp_name p \<and> x = EncodeHeaderValue s)"
proof (induction args ps out skipped rule: paramHeaders_loop.induct)
  case (2 args p ps out skipped)
  then show ?case by (fastforce split: sum.splits option.splits dest: update_values)
qed simp

lemma DecodeParams_Some:
  assumes "DecodeParams body = Inr p" "map_of p k = Some t"
  obtains w ms where "json_parse body = Some (JObject w ms)"
  using assms by (auto simp: DecodeParams_def unmarshal_map_def split: if_splits sum.splits option.splits jval.splits)

text \<open>
  C9. A mirrored header never disagrees with the body it travels with: if the gateway accepted the
  params and derived \<open>Mcp-Param-N: x\<close> for a call, then \<open>N\<close> is an honored annotation, and whatever
  way the backend compares keys and whichever duplicate it would keep, what it reads in the body at
  that annotation's path is the string, the boolean or the safe integer that \<open>x\<close> encodes.
\<close>

theorem mirrored_header_is_what_backends_read:
  assumes accepted: "DecodeParams body = Inr p" "Raw p ''arguments'' = Inr (Some arguments)"
    and header: "(h, x) \<in> set (fst (paramHeaders ps arguments))" and same: "reads_keys same"
  shows "\<exists>hp\<in>set ps. \<exists>t s. read_path same l body (''arguments'' # hp_path hp) = Some t \<and> headed t s \<and>
    h = HeaderParamPrefix @ hp_name hp \<and> x = EncodeHeaderValue s"
proof -
  have raw: "map_of p ''arguments'' = Some arguments" using accepted(2) by (auto simp: Raw_def split: sum.splits)
  with accepted(1) obtain w ms where body: "json_parse body = Some (JObject w ms)"
    by (rule DecodeParams_Some)
  with accepted(1) have d: "distinct_keys (JObject w ms)" and p: "p = object_map ms"
    by (auto simp: DecodeParams_object scanUnambiguous_iff)
  then obtain v where v: "(''arguments'', v) \<in> set (members_list ms)" "arguments = render v"
    using raw by (auto elim: object_map_member)
  then have parsed: "json_parse (render v) = Some v" "distinct_keys v"
    using json_parse_member [OF body] d distinct_keys_member by auto
  have outer: "read_path same l body (''arguments'' # path) = read_path same l (render v) path" for path
    using Raw_reader [OF body accepted, of same l] same v(2) by (simp add: body reads_keys_def)
  from header decode_any_whole [OF parsed(1)] v(2)
  have "(h, x) \<in> set (fst (paramHeaders_loop (any_of v) ps [] []))"
    by (auto simp: paramHeaders_def split: if_splits)
  from paramHeaders_loop_from [OF this] obtain hp y s where hp: "hp \<in> set ps"
    "valueAtPath (any_of v) (hp_path hp) = Inr (Some y)" "headerText y = Some s"
    "h = HeaderParamPrefix @ hp_name hp" "x = EncodeHeaderValue s" by auto
  from valueAtPath_read [OF same parsed hp(2)] obtain v' where
    "read_path same l (render v) (hp_path hp) = Some (render v')" "json_parse (render v') = Some v'"
    "y = any_of v'" "y \<noteq> ANull" by blast
  with headerText_headed hp outer show ?thesis by metis
qed

theorem mirrored_header_is_what_backends_read_witness:
  "\<exists>t. read_path EqualFoldKey True (json_text ''{~name~: ~t~, ~arguments~:{~region~:~eu~}}'')
     [''arguments'', ''region''] = Some t \<and> headed t ''eu''"
proof -
  let ?body = "json_text ''{~name~: ~t~, ~arguments~:{~region~:~eu~}}''"
  let ?hp = "\<lparr>hp_name = ''Region'', hp_path = [''region'']\<rparr>"
  have parse: "json_parse ?body =
      Some (JObject [] (MCons [] ''name'' [] '' '' (JString ''t'') []
        (MCons '' '' ''arguments'' [] [] (JObject [] (MCons [] ''region'' [] [] (JString ''eu'') [] MNil)) [] MNil)))"
    by code_simp
  let ?p = "[(''name'', json_text ''~t~''), (''arguments'', json_text ''{~region~:~eu~}'')]"
  have "scanUnambiguous ?body = Inr ()"
    by (simp add: scanUnambiguous_iff [OF parse] MaxParamsDepth_def unquoted_def unquote_plain)
  moreover have "checkCaseUnique ?p = Inr ()"
  proof -
    have "distinct (map foldKey [''name'', ''arguments''])"
      by (subst distinct_foldKey_ascii) (simp_all add: ascii_upper_def)
    then show ?thesis by (simp add: checkCaseUnique_ok)
  qed
  ultimately have d: "DecodeParams ?body = Inr ?p"
    by (intro DecodeParams_object [OF parse, THEN iffD2])
      (simp add: object_map_def unquoted_def unquote_plain json_text_def)
  have r: "Raw ?p ''arguments'' = Inr (Some (json_text ''{~region~:~eu~}''))"
    by (simp add: Raw_def unambiguous_def EqualFoldKey_ascii ascii_upper_def)
  have "json_parse (json_text ''{~region~:~eu~}'') =
      Some (JObject [] (MCons [] ''region'' [] [] (JString ''eu'') [] MNil))"
    by code_simp
  from decode_any_whole [OF this]
  have "fst (paramHeaders [?hp] (json_text ''{~region~:~eu~}'')) = [(''Mcp-Param-Region'', EncodeHeaderValue ''eu'')]"
    by (simp add: paramHeaders_def any_map_def unquoted_def unquote_plain headerText_def
        HeaderParamPrefix_def json_text_def)
  then have h: "(''Mcp-Param-Region'', EncodeHeaderValue ''eu'') \<in> set (fst (paramHeaders [?hp] (json_text ''{~region~:~eu~}'')))"
    by simp
  have "reads_keys EqualFoldKey" by (simp add: reads_keys_def)
  from mirrored_header_is_what_backends_read [OF d r h this, of True] show ?thesis
    by (auto simp: EncodeHeaderValue_inject simp del: read_path.simps)
qed

end
