(* ===== verification/Lines.thy ===== *)
theory Lines
  imports GoPrelude
begin

text \<open>
  \<open>bufio.Scanner\<close> with \<open>ScanLines\<close>, which both transports read a backend with: the lines of a
  stream, without their line end, and whether it gave up because a line did not fit its buffer.
  What the stream ends with (\<open>io.EOF\<close> or an error) is the caller's: the text before it is scanned
  either way, its last line included.
\<close>

definition newline :: char where
  "newline = CHR 0x0A"

definition dropCR :: "bytes \<Rightarrow> bytes" where
  "dropCR l = (if l \<noteq> [] \<and> last l = CHR 0x0D then butlast l else l)"

function scan_lines :: "nat \<Rightarrow> bytes \<Rightarrow> bytes list \<times> bool" where
  "scan_lines lim data =
     (if data = [] then ([], False)
      else
        (case cut_at_byte newline data of
           None \<Rightarrow> if length data < lim then ([dropCR data], False) else ([], True)
         | Some (l, rest) \<Rightarrow>
             if length l < lim
             then (let (ls, long) = scan_lines lim rest in (dropCR l # ls, long))
             else ([], True)))"
  by pat_completeness auto
termination
  by (relation "measure (length \<circ> snd)") (auto dest: cut_at_byte_length)

declare scan_lines.simps [simp del]

text \<open>A line that is read as it stands: it fits, and holds no line end of its own.\<close>

definition plain_line :: "nat \<Rightarrow> bytes \<Rightarrow> bool" where
  "plain_line lim l = (length l < lim \<and> newline \<notin> set l \<and> (l = [] \<or> last l \<noteq> CHR 0x0D))"

lemma scan_lines_Nil [simp]: "scan_lines lim [] = ([], False)"
  by (simp add: scan_lines.simps)

lemma dropCR_plain: "plain_line lim l \<Longrightarrow> dropCR l = l"
  by (auto simp: plain_line_def dropCR_def)

lemma scan_lines_Cons:
  "plain_line lim l \<Longrightarrow> scan_lines lim (l @ newline # rest) = (l # fst (scan_lines lim rest), snd (scan_lines lim rest))"
proof -
  assume l: "plain_line lim l"
  then have "cut_at_byte newline (l @ newline # rest) = Some (l, rest)"
    by (simp add: cut_at_byte_Some plain_line_def)
  with l dropCR_plain [OF l] show ?thesis
    by (subst scan_lines.simps) (simp add: plain_line_def case_prod_beta)
qed

text \<open>Every line ended: what is written line by line is read line by line.\<close>

definition end_lines :: "bytes list \<Rightarrow> bytes" where
  "end_lines ls = concat (map (\<lambda>l. l @ [newline]) ls)"

lemma scan_end_lines:
  "list_all (plain_line lim) ls \<Longrightarrow>
     scan_lines lim (end_lines ls @ rest) = (ls @ fst (scan_lines lim rest), snd (scan_lines lim rest))"
  by (induction ls) (simp_all add: end_lines_def scan_lines_Cons)

lemma scan_lines_short:
  "l \<in> set (fst (scan_lines lim data)) \<Longrightarrow> length l < lim \<and> newline \<notin> set l"
proof (induction lim data rule: scan_lines.induct)
  case (1 lim data)
  have drop: "length (dropCR l) \<le> length l" "set (dropCR l) \<subseteq> set l" for l
    by (auto simp: dropCR_def dest: in_set_butlastD)
  show ?case
  proof (cases "cut_at_byte newline data")
    case None
    then have "newline \<notin> set data" by (simp add: cut_at_byte_None)
    with None "1.prems" drop [of data] show ?thesis
      by (subst (asm) scan_lines.simps) (auto split: if_splits)
  next
    case (Some lr)
    obtain x rest where lr: "lr = (x, rest)" by (cases lr)
    with Some have "newline \<notin> set x" by (simp add: cut_at_byte_Some)
    moreover from "1.prems" Some lr have "data \<noteq> []" by auto
    ultimately show ?thesis using "1.prems" "1.IH" [OF _ Some lr [symmetric]] Some lr drop [of x]
      by (subst (asm) scan_lines.simps) (auto simp: case_prod_beta split: if_splits)
  qed
qed

end
