(* ===== verification/Sse.thy ===== *)
theory Sse
  imports Lines
begin

text \<open>
  \<open>scanSSE\<close> of \<open>pkg/backend/http.go\<close>: the data payloads of an event stream, handed to a consumer that
  may stop the scan.  A body is the bytes that arrive and the error the stream ends with, if any.
\<close>

definition maxLineBytes :: nat where
  "maxLineBytes = 16 * 1024 * 1024"

type_synonym body = "bytes \<times> bytes option"

datatype scan_error = ErrTooLong | ReadError bytes

definition data_prefix :: bytes where
  "data_prefix = ''data:''"

text \<open>What a data line adds to the event so far.\<close>

definition data_line :: "bytes \<Rightarrow> bytes \<Rightarrow> bytes" where
  "data_line buf rest =
     (if length buf > 0 then buf @ [newline] else buf) @
     (case strings_CutPrefix rest '' '' of Some r \<Rightarrow> r | None \<Rightarrow> rest)"

text \<open>The loop; the buffer at its end, or \<open>None\<close> when the consumer stopped it.\<close>

fun sse_loop ::
    "('s \<Rightarrow> bytes \<Rightarrow> bool \<times> 's) \<Rightarrow> bytes list \<Rightarrow> bytes \<Rightarrow> 's \<Rightarrow> bytes option \<times> 's" where
  "sse_loop fn [] buf s = (Some buf, s)"
| "sse_loop fn (line # ls) buf s =
     (if line = [] then
        (if length buf = 0 then sse_loop fn ls [] s
         else (case fn s buf of
                 (True, s') \<Rightarrow> sse_loop fn ls [] s'
               | (False, s') \<Rightarrow> (None, s')))
      else
        (case strings_CutPrefix line data_prefix of
           Some rest \<Rightarrow> sse_loop fn ls (data_line buf rest) s
         | None \<Rightarrow> sse_loop fn ls buf s))"

definition scanSSE ::
    "('s \<Rightarrow> bytes \<Rightarrow> bool \<times> 's) \<Rightarrow> body \<Rightarrow> 's \<Rightarrow> scan_error option \<times> 's" where
  "scanSSE fn b s =
     (let (ls, long) = scan_lines maxLineBytes (fst b) in
      case sse_loop fn ls [] s of
        (None, s') \<Rightarrow> (None, s')
      | (Some buf, s') \<Rightarrow>
          if long then (Some ErrTooLong, s')
          else (case snd b of
                  Some e \<Rightarrow> (Some (ReadError e), s')
                | None \<Rightarrow> (None, if length buf = 0 then s' else snd (fn s' buf))))"

section \<open>A stream written by the rules is read back\<close>

text \<open>
  An event as a server writes it: any comments and fields other than data, a data line for each
  line of the payload, an empty line.
\<close>

definition sse_event :: "bytes list \<Rightarrow> bytes \<Rightarrow> bytes list" where
  "sse_event fields payload =
     fields @ map (\<lambda>l. data_prefix @ '' '' @ l) (strings_Split payload newline) @ [[]]"

definition sse_text :: "(bytes list \<times> bytes) list \<Rightarrow> bytes" where
  "sse_text events = end_lines (concat (map (\<lambda>(fields, payload). sse_event fields payload) events))"

definition other_field :: "bytes \<Rightarrow> bool" where
  "other_field l = (plain_line maxLineBytes l \<and> l \<noteq> [] \<and> \<not> strings_HasPrefix l data_prefix)"

text \<open>
  A payload an event can carry: its first line is not empty (the buffer would not show it) and every
  data line of it is read as it stands.
\<close>

definition sse_payload :: "bytes \<Rightarrow> bool" where
  "sse_payload p =
     (hd (strings_Split p newline) \<noteq> [] \<and>
      list_all (\<lambda>l. plain_line maxLineBytes (data_prefix @ '' '' @ l)) (strings_Split p newline))"

definition sse_ok :: "bytes list \<times> bytes \<Rightarrow> bool" where
  "sse_ok e = (list_all other_field (fst e) \<and> sse_payload (snd e))"

lemma sse_loop_fields:
  "list_all other_field fields \<Longrightarrow> sse_loop fn (fields @ ls) buf s = sse_loop fn ls buf s"
  by (induction fields) (auto simp: other_field_def strings_HasPrefix_def)

lemma sse_loop_data:
  "buf \<noteq> [] \<Longrightarrow> sse_loop fn (map (\<lambda>l. data_prefix @ '' '' @ l) ts @ ls) buf s =
     sse_loop fn ls (strings_Join (buf # ts) [newline]) s"
proof (induction ts arbitrary: buf)
  case (Cons t ts)
  have "strings_CutPrefix (data_prefix @ '' '' @ t) data_prefix = Some ('' '' @ t)"
    by (simp add: strings_CutPrefix_Some)
  then have "sse_loop fn (map (\<lambda>l. data_prefix @ '' '' @ l) (t # ts) @ ls) buf s =
      sse_loop fn (map (\<lambda>l. data_prefix @ '' '' @ l) ts @ ls) (buf @ [newline] @ t) s"
    using Cons.prems by (simp add: data_line_def data_prefix_def)
  also have "\<dots> = sse_loop fn ls (strings_Join (buf # t # ts) [newline]) s"
    using Cons.IH [of "buf @ [newline] @ t"] by (cases ts) simp_all
  finally show ?case .
qed simp

lemma sse_loop_event:
  assumes "sse_ok (fields, payload)"
  shows "sse_loop fn (sse_event fields payload @ ls) [] s =
    (case fn s payload of (True, s') \<Rightarrow> sse_loop fn ls [] s' | (False, s') \<Rightarrow> (None, s'))"
proof -
  obtain t ts where split: "strings_Split payload newline = t # ts"
    by (cases "strings_Split payload newline") auto
  with assms have t: "t \<noteq> []" by (simp add: sse_ok_def sse_payload_def)
  have join: "strings_Join (t # ts) [newline] = payload"
    using strings_Join_Split [of payload newline] by (simp add: split)
  have ne: "payload \<noteq> []" using t split by auto
  have "strings_CutPrefix (data_prefix @ '' '' @ t) data_prefix = Some ('' '' @ t)"
    by (simp add: strings_CutPrefix_Some)
  then have "sse_loop fn (map (\<lambda>l. data_prefix @ '' '' @ l) (t # ts) @ [] # ls) [] s =
      sse_loop fn (map (\<lambda>l. data_prefix @ '' '' @ l) ts @ [] # ls) t s"
    by (simp add: data_line_def data_prefix_def)
  also have "\<dots> = sse_loop fn ([] # ls) payload s"
    using sse_loop_data [OF t, of fn ts "[] # ls" s] by (simp only: join)
  also have "\<dots> = (case fn s payload of (True, s') \<Rightarrow> sse_loop fn ls [] s' | (False, s') \<Rightarrow> (None, s'))"
    using ne by simp
  finally have data: "sse_loop fn (map (\<lambda>l. data_prefix @ '' '' @ l) (t # ts) @ [] # ls) [] s =
      (case fn s payload of (True, s') \<Rightarrow> sse_loop fn ls [] s' | (False, s') \<Rightarrow> (None, s'))" .
  have "sse_event fields payload @ ls =
      fields @ map (\<lambda>l. data_prefix @ '' '' @ l) (t # ts) @ [] # ls"
    by (simp add: sse_event_def split)
  moreover have "list_all other_field fields" using assms by (simp add: sse_ok_def)
  ultimately show ?thesis by (simp only: sse_loop_fields data)
qed

lemma sse_lines_plain:
  assumes "sse_ok e"
  shows "list_all (plain_line maxLineBytes) (sse_event (fst e) (snd e))"
proof -
  have "plain_line maxLineBytes []" by (simp add: plain_line_def maxLineBytes_def)
  with assms show ?thesis
    by (auto simp: sse_ok_def sse_event_def sse_payload_def other_field_def list_all_iff)
qed

text \<open>The consumer that keeps everything.\<close>

definition keep_all :: "bytes list \<Rightarrow> bytes \<Rightarrow> bool \<times> bytes list" where
  "keep_all acc payload = (True, acc @ [payload])"

text \<open>
  A stream of events is read back payload by payload, in order and in full, whatever comments
  and other fields stand between them, and without an error.
\<close>

theorem sse_reads_what_is_sent:
  assumes "list_all sse_ok events"
  shows "scanSSE keep_all (sse_text events, None) [] = (None, map snd events)"
proof -
  let ?ls = "concat (map (\<lambda>(fields, payload). sse_event fields payload) events)"
  have "list_all (plain_line maxLineBytes) ?ls"
    using assms sse_lines_plain by (induction events) auto
  then have lines: "scan_lines maxLineBytes (sse_text events) = (?ls, False)"
    using scan_end_lines [of maxLineBytes ?ls "[]"] by (simp add: sse_text_def)
  have "sse_loop keep_all ?ls [] acc = (Some [], acc @ map snd events)" for acc
    using assms
    by (induction events arbitrary: acc) (auto simp: sse_loop_event keep_all_def)
  from this [of "[]"] lines show ?thesis by (simp add: scanSSE_def)
qed

theorem sse_reads_what_is_sent_witness:
  "scanSSE keep_all (sse_text [([''id: 1''], ''{}''), ([], ''[1]'')], None) [] = (None, [''{}'', ''[1]''])"
proof -
  have "list_all sse_ok [([''id: 1''], ''{}''), ([], ''[1]'')]"
    by (simp add: sse_ok_def sse_payload_def other_field_def plain_line_def maxLineBytes_def
        data_prefix_def newline_def strings_HasPrefix_def)
  from sse_reads_what_is_sent [OF this] show ?thesis by simp
qed

end
