(* ===== verification/Stdio.thy ===== *)
theory Stdio
  imports Jsonrpc Params JsonMap Sse
begin

text \<open>
  \<open>pkg/backend/stdio.go\<close>: the connection to an MCP server run as a subprocess.  The pipes are byte
  streams; the process, its signals and its exit are events the connection sees.
\<close>

section \<open>The connection\<close>

definition stderrRingLines :: nat where
  "stderrRingLines = 50"

record stdioBackend =
  sb_Command :: bytes
  sb_Args :: "bytes list"
  sb_Env :: "(bytes \<times> bytes) list"

text \<open>The environment \<open>Connect\<close> starts the subprocess in.\<close>

definition child_env :: "stdioBackend \<Rightarrow> bytes \<Rightarrow> bytes \<Rightarrow> bytes list" where
  "child_env b path workDir =
     [''PATH='' @ path, ''HOME='' @ workDir] @ map (\<lambda>(k, v). k @ ''='' @ v) (sb_Env b)"

definition truncate_text :: "bytes \<Rightarrow> nat \<Rightarrow> bytes" where
  "truncate_text b n = (if length b \<le> n then b else take n b @ ''...'')"

text \<open>\<open>stdoutLoop\<close>: the lines it queues, and whether the scanner ended on one that is too long.\<close>

fun stdout_lines :: "bytes list \<Rightarrow> bytes list" where
  "stdout_lines [] = []"
| "stdout_lines (l # ls) =
     (let line = strings_TrimSpace l in
      if length line = 0 then stdout_lines ls
      else if hd line \<noteq> CHR ''{'' then stdout_lines ls
      else line # stdout_lines ls)"

definition stdoutLoop :: "bytes \<Rightarrow> bytes list \<times> bool" where
  "stdoutLoop stdout =
     (let (ls, long) = scan_lines maxLineBytes stdout in (stdout_lines ls, long))"

text \<open>\<open>stderrLoop\<close>: the last lines, kept for a crash report.\<close>

definition ring_push :: "bytes list \<Rightarrow> bytes \<Rightarrow> bytes list" where
  "ring_push ring line =
     (let ring' = ring @ [line] in if length ring' > stderrRingLines then tl ring' else ring')"

definition stderrLoop :: "bytes \<Rightarrow> bytes list" where
  "stderrLoop stderr = foldl ring_push [] (fst (scan_lines (1024 * 1024) stderr))"

record stdioConn =
  sc_lines :: "bytes list"
  sc_closed :: bool
  sc_dead :: bool
  sc_stdin :: bytes

datatype stdio_error = StdioConnDead | StdioCancelled | StdioEncode marshal_error | StdioWrite bytes

text \<open>
  \<open>Read\<close>, on the lines queued so far: \<open>None\<close> while it waits for more.  \<open>cancelled n\<close> says whether
  the \<open>select\<close> that finds \<open>n\<close> lines queued takes the caller's cancellation instead.
\<close>

fun read_lines :: "(nat \<Rightarrow> bool) \<Rightarrow> bool \<Rightarrow> bytes list \<Rightarrow> ((stdio_error + message) \<times> bytes list) option" where
  "read_lines cancelled closed [] =
     (if cancelled 0 then Some (Inl StdioCancelled, [])
      else if closed then Some (Inl StdioConnDead, [])
      else None)"
| "read_lines cancelled closed (l # ls) =
     (if cancelled (Suc (length ls)) then Some (Inl StdioCancelled, l # ls)
      else (case Decode l of
              Inl _ \<Rightarrow> read_lines cancelled closed ls
            | Inr m \<Rightarrow> Some (Inr m, ls)))"

definition stdio_Read ::
    "(nat \<Rightarrow> bool) \<Rightarrow> stdioConn \<Rightarrow> ((stdio_error + message) \<times> stdioConn) option" where
  "stdio_Read cancelled c =
     map_option (\<lambda>(r, ls). (r, c\<lparr>sc_lines := ls\<rparr>)) (read_lines cancelled (sc_closed c) (sc_lines c))"

text \<open>\<open>Write\<close>; \<open>pipe\<close> is what the pipe answers to the bytes, its error or \<open>None\<close>.\<close>

definition stdio_Write ::
    "(bytes \<Rightarrow> bytes option) \<Rightarrow> message \<Rightarrow> stdioConn \<Rightarrow> (stdio_error + unit) \<times> stdioConn" where
  "stdio_Write pipe msg c =
     (if sc_dead c then (Inl StdioConnDead, c)
      else
        (case Encode msg of
           Inl e \<Rightarrow> (Inl (StdioEncode e), c)
         | Inr data \<Rightarrow>
             (case pipe (data @ [newline]) of
                Some e \<Rightarrow> (Inl (StdioWrite e), c)
              | None \<Rightarrow> (Inr (), c\<lparr>sc_stdin := sc_stdin c @ data @ [newline]\<rparr>))))"

text \<open>
  \<open>Close\<close>: what it does to the process.  \<open>dies n\<close> says that the process is seen to exit within the
  \<open>n\<close>th grace period.
\<close>

datatype close_action = CloseStdin | SignalTERM | SignalKILL

definition stdio_Close :: "(nat \<Rightarrow> bool) \<Rightarrow> close_action list" where
  "stdio_Close dies =
     [CloseStdin] @
     (if dies 0 then []
      else [SignalTERM] @ (if dies 1 then [] else [SignalKILL]))"

section \<open>One message, one line\<close>

text \<open>A value written without white space holds no control byte at all.\<close>

definition inked :: "bytes \<Rightarrow> bool" where
  "inked s = list_all (\<lambda>c. 0x20 \<le> byte c) s"

lemma inked_simps [simp]:
  "inked []" "inked (c # s) \<longleftrightarrow> 0x20 \<le> byte c \<and> inked s" "inked (s @ t) \<longleftrightarrow> inked s \<and> inked t"
  by (simp_all add: inked_def)

lemma escape_len_inked: "escape_len s = Some n \<Longrightarrow> inked (take n s)"
proof (cases s)
  case (Cons e s')
  have hex: "hex_digit h \<noteq> None \<Longrightarrow> 0x20 \<le> byte h" for h by (auto simp: hex_digit_def Let_def split: if_splits)
  assume "escape_len s = Some n"
  with Cons hex show ?thesis
    by (auto simp: escape_len_def inked_def list_all_iff split: if_splits)
qed (simp add: escape_len_def)

lemma lex_string_inked: "lex_string s = Some (raw, rest) \<Longrightarrow> inked raw"
proof (induction s arbitrary: raw rest rule: lex_string.induct)
  case (2 c s)
  then show ?case
    by (auto simp del: lex_string.simps simp: lex_string.simps(2) [of c s] escape_len_inked
        split: if_split_asm option.split_asm)
qed simp

lemma string_ok_inked: "string_ok r \<Longrightarrow> inked r"
  unfolding string_ok_def by (rule lex_string_inked)

lemma scalar_ok_inked: "scalar_ok t \<Longrightarrow> inked t"
  unfolding inked_def by (erule scalar_ok_all) (auto simp: json_digit_def)

lemma strip_inked:
  "wf_json v \<Longrightarrow> strip v = v \<Longrightarrow> inked (render v)"
  "wf_items is \<Longrightarrow> strip_items is = is \<Longrightarrow> inked (render_items is)"
  "wf_members ms \<Longrightarrow> strip_members ms = ms \<Longrightarrow> inked (render_members ms)"
  by (induction v and "is" and ms) (auto simp: string_ok_inked scalar_ok_inked)

lemma strip_compact [simp]:
  "strip (compact v) = compact v" "strip_items (compact_items is) = compact_items is"
  "strip_members (compact_members ms) = compact_members ms"
  by (induction v and "is" and ms) simp_all

definition tight :: "(bytes \<times> jval) list \<Rightarrow> bool" where
  "tight kvs = list_all (\<lambda>(k, v). strip v = v) kvs"

lemma tight_simps [simp]:
  "tight []" "tight ((k, v) # kvs) \<longleftrightarrow> strip v = v \<and> tight kvs" "tight (a @ b) \<longleftrightarrow> tight a \<and> tight b"
  by (simp_all add: tight_def)

lemma strip_mk_object: "tight kvs \<Longrightarrow> strip (mk_object kvs) = mk_object kvs"
proof -
  have "tight kvs \<Longrightarrow> strip_members (mk_members kvs) = mk_members kvs"
    by (induction kvs rule: mk_members.induct) auto
  then show "tight kvs \<Longrightarrow> strip (mk_object kvs) = mk_object kvs" by (simp add: mk_object_def)
qed

lemma marshal_tight [simp]: "strip (marshal_string s) = marshal_string s" "strip (marshal_int n) = marshal_int n"
  by (simp_all add: marshal_string_def marshal_int_def)

lemma raw_field_tight: "raw_field k r = Inr kvs \<Longrightarrow> tight kvs"
  by (auto simp: raw_field_def marshal_raw_def split: option.splits if_splits sum.splits)

lemma error_field_tight: "error_field e = Inr kvs \<Longrightarrow> tight kvs"
  by (auto simp: error_field_def bind_err_Inr split: option.splits
      intro!: strip_mk_object dest!: raw_field_tight)

lemma message_fields_tight: "message_fields_of m = Inr kvs \<Longrightarrow> tight kvs"
  unfolding message_fields_of_def bind_err_Inr
  by (auto dest!: raw_field_tight error_field_tight)

lemma Encode_line:
  assumes "message_fits m" "Encode m = Inr data"
  shows "inked data" "hd data = CHR ''{''" "last data = CHR ''}''" "data \<noteq> []"
proof -
  obtain kvs where kvs: "message_fields_of m = Inr kvs" "fields_ok kvs"
    by (rule Encode_fields [OF assms(1)])
  then have data: "data = render (mk_object kvs)" using assms(2) by (simp add: Encode_def)
  have "wf_json (mk_object kvs)" using fields_parse [OF kvs(2)] by (simp add: json_parse_iff)
  then show "inked data"
    unfolding data by (rule strip_inked(1)) (rule strip_mk_object [OF message_fields_tight [OF kvs(1)]])
  show "hd data = CHR ''{''" "last data = CHR ''}''" "data \<noteq> []"
    by (simp_all add: data mk_object_def)
qed

lemma Encode_plain_line:
  assumes "message_fits m" "Encode m = Inr data" "length data < lim"
  shows "plain_line lim data" "strings_TrimSpace data = data"
proof -
  note line = Encode_line [OF assms(1,2)]
  have "newline \<notin> set data"
    using line(1) by (auto simp: inked_def list_all_iff newline_def)
  with line assms(3) show "plain_line lim data" by (simp add: plain_line_def)
  show "strings_TrimSpace data = data"
    using line by (intro TrimSpace_visible) simp_all
qed

section \<open>What is written is read\<close>

text \<open>Reading until the stream has ended.\<close>

lemma read_lines_shorter:
  "read_lines f b ls = Some (Inr m, ls') \<Longrightarrow> length ls' < length ls"
  by (induction f b ls rule: read_lines.induct) (auto split: if_splits sum.splits)

function read_all :: "bytes list \<Rightarrow> message list" where
  "read_all ls =
     (case read_lines (\<lambda>_. False) True ls of
        Some (Inr m, ls') \<Rightarrow> m # read_all ls'
      | _ \<Rightarrow> [])"
  by pat_completeness auto
termination
  by (relation "measure length") (auto dest: read_lines_shorter)

declare read_all.simps [simp del]

text \<open>
  A peer that frames as \<open>Write\<close> does, and prints other lines in between: banners and blank lines,
  which no JSON object starts.
\<close>

definition noise_line :: "bytes \<Rightarrow> bool" where
  "noise_line l =
     (plain_line maxLineBytes l \<and> (strings_TrimSpace l = [] \<or> hd (strings_TrimSpace l) \<noteq> CHR ''{''))"

definition write_piece :: "stdioConn \<Rightarrow> bytes list \<times> message \<Rightarrow> stdioConn" where
  "write_piece c piece =
     (case piece of (noise, m) \<Rightarrow>
        snd (stdio_Write (\<lambda>_. None) m (c\<lparr>sc_stdin := sc_stdin c @ end_lines noise\<rparr>)))"

definition piece_ok :: "bytes list \<times> message \<Rightarrow> bool" where
  "piece_ok piece =
     (case piece of (noise, m) \<Rightarrow>
        list_all noise_line noise \<and> message_fits m \<and> Kind m \<noteq> KindInvalid \<and>
        (case Encode m of Inl e \<Rightarrow> False | Inr data \<Rightarrow> length data < maxLineBytes))"

lemma stdout_noise: "list_all noise_line noise \<Longrightarrow> stdout_lines (noise @ ls) = stdout_lines ls"
  by (induction noise) (auto simp: noise_line_def Let_def)

definition fresh_conn :: stdioConn where
  "fresh_conn = \<lparr>sc_lines = [], sc_closed = False, sc_dead = False, sc_stdin = []\<rparr>"

lemma written_lines:
  assumes "list_all piece_ok pieces" "\<not> sc_dead c" "sc_stdin c = end_lines ls"
  shows "\<exists>ls'. sc_stdin (foldl write_piece c pieces) = end_lines (ls @ ls') \<and>
    list_all (plain_line maxLineBytes) ls' \<and> read_all (stdout_lines ls') = map (canonical \<circ> snd) pieces"
  using assms
proof (induction pieces arbitrary: c ls)
  case Nil
  then show ?case by (intro exI [of _ "[]"]) (simp add: read_all.simps)
next
  case (Cons piece pieces)
  obtain noise m where piece: "piece = (noise, m)" by (cases piece)
  with Cons.prems(1) obtain data where ok: "list_all noise_line noise" "message_fits m" "Kind m \<noteq> KindInvalid"
    "Encode m = Inr data" "length data < maxLineBytes"
    by (auto simp: piece_ok_def split: sum.splits)
  note line = Encode_plain_line [OF ok(2,4,5)] Encode_line [OF ok(2,4)]
  let ?c = "write_piece c piece"
  have c: "\<not> sc_dead ?c" "sc_stdin ?c = end_lines (ls @ noise @ [data])"
    using Cons.prems(2,3) ok(4) by (simp_all add: piece write_piece_def stdio_Write_def end_lines_def)
  obtain ls' where ls': "sc_stdin (foldl write_piece ?c pieces) = end_lines ((ls @ noise @ [data]) @ ls')"
    "list_all (plain_line maxLineBytes) ls'" "read_all (stdout_lines ls') = map (canonical \<circ> snd) pieces"
    using Cons.IH [OF _ c] Cons.prems(1) by auto
  have "Decode data = Inr (canonical m)" using ok by (intro Decode_Encode_canonical)
  then have "read_all (data # stdout_lines ls') = canonical m # read_all (stdout_lines ls')"
    by (subst read_all.simps) simp
  moreover have "stdout_lines (noise @ data # ls') = data # stdout_lines ls'"
    using stdout_noise [OF ok(1)] line by (simp add: Let_def)
  ultimately have "read_all (stdout_lines (noise @ data # ls')) = map (canonical \<circ> snd) (piece # pieces)"
    using ls'(3) by (simp add: piece)
  moreover have "list_all (plain_line maxLineBytes) noise"
    using ok(1) by (simp add: noise_line_def list_all_iff)
  ultimately show ?case
    using ls'(1,2) line(1) by (intro exI [of _ "noise @ data # ls'"]) simp
qed

text \<open>
  C29. Messages written to a pipe one after another, with whatever banners and blank lines between
  them, come out of the reading loop as those messages, in order, with nothing lost and nothing
  added; only the white space of their raw fields has gone.
\<close>

theorem stdio_carries_messages:
  assumes "list_all piece_ok pieces"
  shows "\<exists>ls. stdoutLoop (sc_stdin (foldl write_piece fresh_conn pieces)) = (ls, False) \<and>
    read_all ls = map (canonical \<circ> snd) pieces"
proof -
  obtain ls where ls: "sc_stdin (foldl write_piece fresh_conn pieces) = end_lines ([] @ ls)"
    "list_all (plain_line maxLineBytes) ls" "read_all (stdout_lines ls) = map (canonical \<circ> snd) pieces"
    using written_lines [OF assms, of fresh_conn "[]"] by (auto simp: fresh_conn_def end_lines_def)
  with scan_end_lines [OF ls(2), of "[]"] show ?thesis by (simp add: stdoutLoop_def)
qed

theorem stdio_carries_messages_witness:
  "\<exists>ls. stdoutLoop (sc_stdin (foldl write_piece fresh_conn
        [([''ready''], NewNotification ''ping'' None)])) = (ls, False) \<and>
     map Method (read_all ls) = [''ping'']"
proof -
  let ?m = "NewNotification ''ping'' None"
  have "utf8_Valid ''ping''" by (rule utf8_Valid_ascii) simp
  then have fits: "message_fits ?m"
    by (simp add: message_fits_def NewNotification_def zero_message_def raw_fits_def error_fits_def)
  have noise: "noise_line ''ready''"
    using TrimSpace_visible [of "''ready''"]
    by (simp add: noise_line_def plain_line_def newline_def maxLineBytes_def)
  have "Encode ?m = Inr (json_text ''{~jsonrpc~:~2.0~,~method~:~ping~}'')" by code_simp
  then have "list_all piece_ok [([''ready''], ?m)]"
    using fits noise
    by (simp add: piece_ok_def json_text_def maxLineBytes_def Kind_def NewNotification_def zero_message_def HasID_def)
  from stdio_carries_messages [OF this] show ?thesis
    by (auto simp: canonical_def NewNotification_def zero_message_def)
qed

section \<open>What stays bounded\<close>

lemma ring_push_bound: "length ring \<le> stderrRingLines \<Longrightarrow> length (ring_push ring line) \<le> stderrRingLines"
  by (simp add: ring_push_def Let_def)

lemma stderrLoop_bound: "length (stderrLoop stderr) \<le> stderrRingLines"
proof -
  have "length ring \<le> stderrRingLines \<Longrightarrow> length (foldl ring_push ring ls) \<le> stderrRingLines" for ring ls
    by (induction ls arbitrary: ring) (simp_all add: ring_push_bound)
  then show ?thesis by (simp add: stderrLoop_def)
qed

text \<open>Nothing of the gateway's own environment but PATH reaches the subprocess.\<close>

lemma child_env_members:
  "e \<in> set (child_env b path workDir) \<longleftrightarrow>
     e = ''PATH='' @ path \<or> e = ''HOME='' @ workDir \<or> (\<exists>(k, v)\<in>set (sb_Env b). e = k @ ''='' @ v)"
  by (auto simp: child_env_def)

end
