(* ===== verification/HttpConn.thy ===== *)
theory HttpConn
  imports XMcpHeader JsonMap Jsonrpc Sse Stdio "HOL-Library.Word"
begin

text \<open>
  \<open>pkg/backend/http.go\<close>: the connection to an MCP server over Streamable HTTP.  An exchange is a
  function of the state of the connection and of the log of what was done on the network so far.
  The server, the source of tokens, the clock, the caller's context and the other exchanges on the
  connection are functions of that log, collected in a record \<open>env\<close>; the theorems hold for all of
  them.
\<close>

section \<open>Headers\<close>

text \<open>\<open>textproto.CanonicalMIMEHeaderKey\<close> and \<open>http.Header.Set\<close>.\<close>

definition ascii_raise :: "char \<Rightarrow> char" where
  "ascii_raise c = (if 97 \<le> byte c \<and> byte c \<le> 122 then char_of (byte c - 32) else c)"

fun canonical_bytes :: "bool \<Rightarrow> bytes \<Rightarrow> bytes" where
  "canonical_bytes up [] = []"
| "canonical_bytes up (c # s) =
     (if up then ascii_raise c else ascii_lower c) # canonical_bytes (c = CHR ''-'') s"

definition canonical_key :: "bytes \<Rightarrow> bytes" where
  "canonical_key k = (if isHTTPToken_loop k then canonical_bytes True k else k)"

definition header_Set :: "bytes \<Rightarrow> bytes \<Rightarrow> header_map \<Rightarrow> header_map" where
  "header_Set k v h = AList.update (canonical_key k) v h"

definition header_Get :: "header_map \<Rightarrow> bytes \<Rightarrow> bytes" where
  "header_Get h k = (case map_of h (canonical_key k) of Some v \<Rightarrow> v | None \<Rightarrow> [])"

definition header_SetAll :: "header_map \<Rightarrow> header_map \<Rightarrow> header_map" where
  "header_SetAll kvs h = foldl (\<lambda>h (k, v). header_Set k v h) h kvs"

section \<open>The connection and its surroundings\<close>

text \<open>
  The configuration (\<open>HTTPBackend\<close>).  \<open>hb_new_error\<close> is what \<open>http.NewRequest\<close> finds wrong with the
  URL, if anything.
\<close>

record httpBackend =
  hb_URL :: bytes
  hb_new_error :: "bytes option"
  hb_Headers :: header_map
  hb_Legacy :: bool

record httpConn =
  hc_inbox :: "message list"
  hc_sessionID :: bytes
  hc_closing :: bool
  hc_closed :: bool
  hc_annotations :: "(bytes \<times> headerParam list) list"
  hc_annotationsKnown :: bool
  hc_truncatedAt :: "nat option"
  hc_refreshGen :: "64 word"

record http_post =
  hq_method :: bytes
  hq_url :: bytes
  hq_headers :: header_map
  hq_body :: bytes

record http_response =
  rs_status :: nat
  rs_content_type :: bytes
  rs_session :: bytes
  rs_body :: body

datatype hevent = Posted http_post | Invalidated | Deleted header_map

type_synonym hlog = "hevent list"

record env =
  en_backend :: httpBackend
  en_server :: "hlog \<Rightarrow> bytes + http_response"
  en_tokens :: "(hlog \<Rightarrow> bytes + header_map) option"
  en_meanwhile :: "hlog \<Rightarrow> httpConn \<Rightarrow> httpConn"
  en_now :: "hlog \<Rightarrow> nat"
  en_ctx_err :: "hlog \<Rightarrow> bool"
  en_takes :: "hlog \<Rightarrow> bool"
  en_scrub :: "bytes \<Rightarrow> bytes"

record hstate =
  hs_conn :: httpConn
  hs_log :: hlog

definition http_Connect :: "httpBackend \<Rightarrow> bytes + httpConn" where
  "http_Connect b =
     (if hb_URL b = [] then Inl ''backend: http url required''
      else Inr \<lparr>hc_inbox = [], hc_sessionID = [], hc_closing = False, hc_closed = False,
             hc_annotations = [], hc_annotationsKnown = False, hc_truncatedAt = None, hc_refreshGen = 0\<rparr>)"

text \<open>
  \<open>deliver\<close>.  When the connection has closed and the queue has room, Go's \<open>select\<close> may take either
  arm; \<open>en_takes\<close> decides.
\<close>

definition deliver :: "env \<Rightarrow> message \<Rightarrow> hstate \<Rightarrow> hstate" where
  "deliver env m st =
     (if hc_closed (hs_conn st) \<and> \<not> en_takes env (hs_log st) then st
      else st\<lparr>hs_conn := (hs_conn st)\<lparr>hc_inbox := hc_inbox (hs_conn st) @ [m]\<rparr>\<rparr>)"

definition http_fail :: "env \<Rightarrow> message \<Rightarrow> bytes \<Rightarrow> hstate \<Rightarrow> hstate" where
  "http_fail env msg detail st =
     (if Kind msg \<noteq> KindRequest then st
      else deliver env (NewErrorResponse (ID msg) CodeInternalError (en_scrub env detail) None) st)"

section \<open>One POST\<close>

definition framing_headers :: "httpBackend \<Rightarrow> message \<Rightarrow> bytes \<Rightarrow> header_map" where
  "framing_headers b msg name =
     (if Kind msg = KindRequest then
        [(HeaderMethod, Method msg)] @
        (if name \<noteq> [] then [(HeaderName, EncodeHeaderValue name)] else []) @
        [(HeaderProtocolVersion, if hb_Legacy b then LegacyProtocolVersion else ProtocolVersion)]
      else [])"

definition newRequest ::
    "env \<Rightarrow> bytes \<Rightarrow> message \<Rightarrow> bytes \<Rightarrow> header_map \<Rightarrow> hstate \<Rightarrow> bytes + http_post" where
  "newRequest env body msg name paramHdrs st =
     (let b = en_backend env in
      case hb_new_error b of
        Some e \<Rightarrow> Inl e
      | None \<Rightarrow>
          (let h1 = header_SetAll [(''Content-Type'', ''application/json''),
                      (''Accept'', ''application/json, text/event-stream'')] [];
               h2 = header_SetAll paramHdrs h1;
               h3 = header_SetAll (hb_Headers b) h2
           in bind_err
                (case en_tokens env of
                   None \<Rightarrow> Inr h3
                 | Some ts \<Rightarrow>
                     (case ts (hs_log st) of
                        Inl e \<Rightarrow> Inl (''resolving credentials: '' @ e)
                      | Inr hdrs \<Rightarrow> Inr (header_SetAll hdrs h3)))
                (\<lambda>h4.
                  let h5 = header_SetAll (framing_headers b msg name) h4;
                      sid = hc_sessionID (hs_conn st);
                      h6 = (if sid \<noteq> [] then header_Set ''Mcp-Session-Id'' sid h5 else h5)
                  in Inr \<lparr>hq_method = ''POST'', hq_url = hb_URL b,
                          hq_headers = h6, hq_body = body\<rparr>)))"

text \<open>A request goes out; other exchanges may change the connection before the answer is there.\<close>

definition http_Do :: "env \<Rightarrow> http_post \<Rightarrow> hstate \<Rightarrow> (bytes + http_response) \<times> hstate" where
  "http_Do env req st =
     (let log' = hs_log st @ [Posted req] in
      (en_server env log', \<lparr>hs_conn = en_meanwhile env log' (hs_conn st), hs_log = log'\<rparr>))"

text \<open>\<open>doWithAuthRetry\<close>: the loop, with the attempts still possible after a 401.\<close>

fun auth_attempt ::
    "env \<Rightarrow> bytes \<Rightarrow> message \<Rightarrow> bytes \<Rightarrow> header_map \<Rightarrow> nat \<Rightarrow> hstate \<Rightarrow> (bytes + http_response) \<times> hstate" where
  "auth_attempt env body msg name paramHdrs left st =
     (case newRequest env body msg name paramHdrs st of
        Inl e \<Rightarrow> (Inl e, st)
      | Inr req \<Rightarrow>
          (case http_Do env req st of
             (Inl e, st') \<Rightarrow> (Inl (''http request failed: '' @ e), st')
           | (Inr resp, st') \<Rightarrow>
               (case left of
                  0 \<Rightarrow> (Inr resp, st')
                | Suc left' \<Rightarrow>
                    if rs_status resp = 401 \<and> en_tokens env \<noteq> None
                    then auth_attempt env body msg name paramHdrs left'
                           (st'\<lparr>hs_log := hs_log st' @ [Invalidated]\<rparr>)
                    else (Inr resp, st'))))"

declare auth_attempt.simps [simp del]

definition doWithAuthRetry ::
    "env \<Rightarrow> bytes \<Rightarrow> message \<Rightarrow> bytes \<Rightarrow> header_map \<Rightarrow> hstate \<Rightarrow> (bytes + http_response) \<times> hstate" where
  "doWithAuthRetry env body msg name paramHdrs st = auth_attempt env body msg name paramHdrs 1 st"

section \<open>Learning the annotations of tools\<close>

text \<open>The two members of a tool definition that are read; \<open>None\<close> when it does not decode.\<close>

fun tool_members :: "bytes \<times> bytes \<Rightarrow> (bytes \<times> jval) list \<Rightarrow> (bytes \<times> bytes) option" where
  "tool_members d [] = Some d"
| "tool_members (name, schema) ((k, v) # kvs) =
     (case field_of [''name'', ''inputSchema''] k of
        None \<Rightarrow> tool_members (name, schema) kvs
      | Some f \<Rightarrow>
          if f = ''name'' then
            (case into_string name v of Inl _ \<Rightarrow> None | Inr s \<Rightarrow> tool_members (s, schema) kvs)
          else tool_members (name, render v) kvs)"

definition tool_def :: "bytes \<Rightarrow> (bytes \<times> bytes) option" where
  "tool_def t =
     (case json_parse t of
        Some (JObject w ms) \<Rightarrow> tool_members ([], []) (members_list ms)
      | Some v \<Rightarrow> if v = json_null then Some ([], []) else None
      | None \<Rightarrow> None)"

text \<open>What the loop over the tools does with one of them.\<close>

datatype verdict = NotOurs | Invalid_tool bytes | Learned bytes "headerParam list"

definition judge_tool :: "bytes \<Rightarrow> verdict" where
  "judge_tool t =
     (case tool_def t of
        None \<Rightarrow> NotOurs
      | Some (name, schema) \<Rightarrow>
          if name = [] then NotOurs
          else (case parseToolAnnotations schema of
                  Inl e \<Rightarrow> Invalid_tool name
                | Inr ps \<Rightarrow> Learned name ps))"

definition is_invalid :: "verdict \<Rightarrow> bool" where
  "is_invalid v = (case v of Invalid_tool _ \<Rightarrow> True | _ \<Rightarrow> False)"

fun learned_of :: "verdict list \<Rightarrow> (bytes \<times> headerParam list) list" where
  "learned_of [] = []"
| "learned_of (v # vs) = (case v of Learned n ps \<Rightarrow> (n, ps) # learned_of vs | _ \<Rightarrow> learned_of vs)"

fun invalid_of :: "verdict list \<Rightarrow> bytes list" where
  "invalid_of [] = []"
| "invalid_of (v # vs) = (case v of Invalid_tool n \<Rightarrow> n # invalid_of vs | _ \<Rightarrow> invalid_of vs)"

text \<open>\<open>maps.Copy\<close>, then a \<open>delete\<close> for every invalid tool.\<close>

definition merge_annotations ::
    "verdict list \<Rightarrow> (bytes \<times> headerParam list) list \<Rightarrow> (bytes \<times> headerParam list) list" where
  "merge_annotations vs m =
     foldl (\<lambda>m n. AList.delete n m) (foldl (\<lambda>m (n, ps). AList.update n ps m) m (learned_of vs)) (invalid_of vs)"

text \<open>The rebuilt array: \<open>marshalNoEscape\<close> of a slice of raw messages.\<close>

fun strip_all :: "bytes list \<Rightarrow> marshal_error + jval list" where
  "strip_all [] = Inr []"
| "strip_all (raw # raws) =
     (case json_parse raw of
        None \<Rightarrow> Inl InvalidRawMessage
      | Some v \<Rightarrow> bind_err (strip_all raws) (\<lambda>vs. Inr (strip v # vs)))"

fun plain_items :: "jval list \<Rightarrow> items" where
  "plain_items [] = INil"
| "plain_items (v # vs) = ICons [] v [] (plain_items vs)"

definition marshalNoEscape_list :: "bytes list \<Rightarrow> marshal_error + bytes" where
  "marshalNoEscape_list raws = bind_err (strip_all raws) (\<lambda>vs. Inr (render (JArray [] (plain_items vs))))"

text \<open>The tools of a \<open>tools/list\<close> result, when the annotation occurs in it at all.\<close>

definition listed_tools :: "message \<Rightarrow> (raw_map \<times> bytes list) option" where
  "listed_tools m =
     (case Result m of
        None \<Rightarrow> None
      | Some r \<Rightarrow>
          if Error m \<noteq> None \<or> length r = 0 then None
          else if \<not> strings_Contains r SchemaHeaderAnnotation then None
          else
            (case unmarshal_map r of
               Inl _ \<Rightarrow> None
             | Inr None \<Rightarrow> None
             | Inr (Some result) \<Rightarrow>
                 (case map_of result ''tools'' of
                    None \<Rightarrow> None
                  | Some raw \<Rightarrow>
                      (case unmarshal_list raw of
                         Inl _ \<Rightarrow> None
                       | Inr tools \<Rightarrow> Some (result, case tools of None \<Rightarrow> [] | Some ts \<Rightarrow> ts)))))"

definition without_invalid :: "message \<Rightarrow> raw_map \<Rightarrow> bytes list \<Rightarrow> message" where
  "without_invalid m result kept =
     (case marshalNoEscape_list kept of
        Inl _ \<Rightarrow> m
      | Inr encoded \<Rightarrow>
          (case marshalNoEscape (AList.update ''tools'' encoded result) of
             Inl _ \<Rightarrow> m
           | Inr out \<Rightarrow> m\<lparr>Result := Some out\<rparr>))"

definition absorbToolsList :: "message \<Rightarrow> httpConn \<Rightarrow> message \<times> httpConn" where
  "absorbToolsList m c =
     (case listed_tools m of
        None \<Rightarrow> (m, c)
      | Some (result, tools) \<Rightarrow>
          (let vs = map judge_tool tools;
               kept = filter (\<lambda>t. \<not> is_invalid (judge_tool t)) tools;
               c' = c\<lparr>hc_annotations := merge_annotations vs (hc_annotations c)\<rparr>
           in if invalid_of vs = [] then (m, c') else (without_invalid m result kept, c')))"

section \<open>Delivering what the server sends\<close>

definition deliverBytes :: "env \<Rightarrow> bytes \<Rightarrow> message \<Rightarrow> hstate \<Rightarrow> hstate" where
  "deliverBytes env data req st =
     (case Decode data of
        Inl _ \<Rightarrow> st
      | Inr m \<Rightarrow>
          if \<not> hb_Legacy (en_backend env) \<and> Method req = MethodToolsList \<and> Kind m = KindResponse
          then (let (m', c') = absorbToolsList m (hs_conn st) in deliver env m' (st\<lparr>hs_conn := c'\<rparr>))
          else deliver env m st)"

definition scan_error_text :: "scan_error \<Rightarrow> bytes" where
  "scan_error_text e = (case e of ErrTooLong \<Rightarrow> ''bufio.Scanner: token too long'' | ReadError t \<Rightarrow> t)"

definition pumpSSE :: "env \<Rightarrow> body \<Rightarrow> message \<Rightarrow> hstate \<Rightarrow> hstate" where
  "pumpSSE env b req st =
     (case scanSSE (\<lambda>st data. (True, deliverBytes env data req st)) b st of
        (Some e, st') \<Rightarrow>
          if en_ctx_err env (hs_log st') then st'
          else http_fail env req (''reading response stream: '' @ scan_error_text e) st'
      | (None, st') \<Rightarrow> st')"

section \<open>The headers of a call\<close>

definition paramHeadersFor :: "message \<Rightarrow> params \<Rightarrow> bytes \<Rightarrow> httpConn \<Rightarrow> header_map" where
  "paramHeadersFor msg ps name c =
     (if Kind msg \<noteq> KindRequest \<or> Method msg \<noteq> MethodToolsCall then []
      else if length (hc_annotations c) = 0 then []
      else
        (let annots = (case map_of (hc_annotations c) name of None \<Rightarrow> [] | Some a \<Rightarrow> a) in
         if length annots = 0 then []
         else (case Raw ps ''arguments'' of
                 Inl _ \<Rightarrow> []
               | Inr None \<Rightarrow> []
               | Inr (Some args) \<Rightarrow> fst (paramHeaders annots args))))"

section \<open>The out-of-band probe\<close>

definition annotationProbeID :: bytes where
  "annotationProbeID = ''natsmcp-annotations''"

definition errorBodyLimit :: nat where
  "errorBodyLimit = 64 * 1024"

definition annotationProbeMaxPages :: nat where
  "annotationProbeMaxPages = 50"

text \<open>In seconds, as the clock of \<open>env\<close> counts.\<close>

definition annotationTruncationCooldown :: nat where
  "annotationTruncationCooldown = 60"

fun next_cursor :: "bytes \<Rightarrow> (bytes \<times> jval) list \<Rightarrow> bytes" where
  "next_cursor cur [] = cur"
| "next_cursor cur ((k, v) # kvs) =
     (case field_of [''nextCursor''] k of
        None \<Rightarrow> next_cursor cur kvs
      | Some _ \<Rightarrow> next_cursor (case into_string cur v of Inl _ \<Rightarrow> cur | Inr s \<Rightarrow> s) kvs)"

definition nextCursor :: "message \<Rightarrow> bytes" where
  "nextCursor m =
     (case Result m of
        None \<Rightarrow> []
      | Some r \<Rightarrow>
          (case json_parse r of
             Some (JObject w ms) \<Rightarrow> next_cursor [] (members_list ms)
           | _ \<Rightarrow> []))"

definition probe_params :: "bytes \<Rightarrow> bytes" where
  "probe_params cursor =
     (if cursor \<noteq> [] then render (mk_object [(''cursor'', marshal_string cursor)]) else ''{}'')"

text \<open>The body of a probe's answer: the first response of a stream, or at most \<open>maxLineBytes\<close>.\<close>

definition first_response :: "bytes \<Rightarrow> bytes \<Rightarrow> bool \<times> bytes" where
  "first_response data payload =
     (case Decode payload of
        Inr m \<Rightarrow> if Kind m = KindResponse then (False, payload) else (True, data)
      | Inl _ \<Rightarrow> (True, data))"

definition probe_data :: "http_response \<Rightarrow> bytes + bytes" where
  "probe_data resp =
     (if strings_HasPrefix (rs_content_type resp) ''text/event-stream'' then
        (case scanSSE first_response (rs_body resp) [] of
           (Some e, _) \<Rightarrow> Inl (scan_error_text e)
         | (None, data) \<Rightarrow> Inr data)
      else if maxLineBytes \<le> length (fst (rs_body resp)) then Inr (take maxLineBytes (fst (rs_body resp)))
      else (case snd (rs_body resp) of Some e \<Rightarrow> Inl e | None \<Rightarrow> Inr (fst (rs_body resp))))"

definition probeToolsPage :: "env \<Rightarrow> bytes \<Rightarrow> hstate \<Rightarrow> (bytes + bytes) \<times> hstate" where
  "probeToolsPage env cursor st =
     (let probe = NewRequest annotationProbeID MethodToolsList (Some (probe_params cursor)) in
      case Encode probe of
        Inl _ \<Rightarrow> (Inl ''encoding'', st)
      | Inr body \<Rightarrow>
          (case doWithAuthRetry env body probe [] [] st of
             (Inl e, st') \<Rightarrow> (Inl e, st')
           | (Inr resp, st') \<Rightarrow>
               if 300 \<le> rs_status resp then (Inl (''http '' @ itoa (int (rs_status resp))), st')
               else (case probe_data resp of
                       Inl e \<Rightarrow> (Inl e, st')
                     | Inr data \<Rightarrow>
                         (case Decode data of
                            Inl _ \<Rightarrow> (Inl ''undecodable'', st')
                          | Inr m \<Rightarrow>
                              if Error m \<noteq> None then (Inl ''tools/list rejected'', st')
                              else (let (m', c') = absorbToolsList m (hs_conn st')
                                    in (Inr (nextCursor m'), st'\<lparr>hs_conn := c'\<rparr>))))))"

text \<open>The pages that may still be read; the cursor the loop ends with.\<close>

fun probe_pages :: "env \<Rightarrow> nat \<Rightarrow> bytes \<Rightarrow> hstate \<Rightarrow> (bytes + bytes) \<times> hstate" where
  "probe_pages env 0 cursor st = (Inr cursor, st)"
| "probe_pages env (Suc n) cursor st =
     (case probeToolsPage env cursor st of
        (Inl e, st') \<Rightarrow> (Inl e, st')
      | (Inr next, st') \<Rightarrow> if next = [] then (Inr [], st') else probe_pages env n next st')"

definition refreshAnnotations :: "env \<Rightarrow> 64 word \<Rightarrow> hstate \<Rightarrow> (bytes + unit) \<times> hstate" where
  "refreshAnnotations env gen st =
     (if hc_refreshGen (hs_conn st) \<noteq> gen then (Inr (), st)
      else
        (case probe_pages env annotationProbeMaxPages [] st of
           (Inl e, st') \<Rightarrow> (Inl e, st')
         | (Inr cursor, st') \<Rightarrow>
             let c = hs_conn st';
                 c' = (if cursor = []
                       then c\<lparr>hc_annotationsKnown := True, hc_truncatedAt := None\<rparr>
                       else c\<lparr>hc_truncatedAt := Some (en_now env (hs_log st'))\<rparr>)
             in (Inr (), st'\<lparr>hs_conn := c'\<lparr>hc_refreshGen := hc_refreshGen c' + 1\<rparr>\<rparr>)))"

section \<open>One exchange\<close>

definition decodeRPCError :: "bytes \<Rightarrow> message option" where
  "decodeRPCError body =
     (case Decode (strings_TrimSpace body) of
        Inl _ \<Rightarrow> None
      | Inr m \<Rightarrow> if Error m = None then None else Some m)"

text \<open>\<open>maps.Equal\<close>.\<close>

definition same_headers :: "header_map \<Rightarrow> header_map \<Rightarrow> bool" where
  "same_headers a b =
     (length a = length b \<and> list_all (\<lambda>(k, v). map_of b k = Some v) a)"

text \<open>Why the recovery does not try: the annotation is known, or the listing was cut off recently.\<close>

definition recovery_pointless :: "env \<Rightarrow> bytes \<Rightarrow> hstate \<Rightarrow> bool" where
  "recovery_pointless env name st =
     (let c = hs_conn st in
      (hc_annotationsKnown c \<and> (map_of (hc_annotations c) name \<noteq> None \<or> length (hc_annotations c) = 0)) \<or>
      (case hc_truncatedAt c of
         None \<Rightarrow> False
       | Some t \<Rightarrow> en_now env (hs_log st) - t < annotationTruncationCooldown))"

definition recoverable :: "env \<Rightarrow> message \<Rightarrow> message \<Rightarrow> bool \<Rightarrow> bool" where
  "recoverable env rpcErr msg retried =
     (\<not> retried \<and> \<not> hb_Legacy (en_backend env) \<and> Method msg = MethodToolsCall \<and>
      (case Error rpcErr of None \<Rightarrow> False | Some e \<Rightarrow> err_code e = ErrHeaderMismatch))"

text \<open>The params of a message as the exchange reads them, and the name.\<close>

definition exchange_params :: "message \<Rightarrow> params" where
  "exchange_params msg =
     (case DecodeParams (case msg_params msg of None \<Rightarrow> [] | Some p \<Rightarrow> p) of Inl _ \<Rightarrow> [] | Inr p \<Rightarrow> p)"

definition exchange_name :: "message \<Rightarrow> bytes" where
  "exchange_name msg =
     (case params_Name (exchange_params msg) (Method msg) of
        Inl _ \<Rightarrow> [] | Inr None \<Rightarrow> [] | Inr (Some n) \<Rightarrow> n)"

definition adopt_session :: "env \<Rightarrow> message \<Rightarrow> http_response \<Rightarrow> hstate \<Rightarrow> hstate" where
  "adopt_session env msg resp st =
     (if hb_Legacy (en_backend env) \<and> Method msg = MethodInitialize \<and> rs_session resp \<noteq> []
      then st\<lparr>hs_conn := (hs_conn st)\<lparr>hc_sessionID := rs_session resp\<rparr>\<rparr> else st)"

definition success_body :: "env \<Rightarrow> message \<Rightarrow> http_response \<Rightarrow> hstate \<Rightarrow> hstate" where
  "success_body env msg resp st =
     (if strings_HasPrefix (rs_content_type resp) ''application/json'' then
        (case snd (rs_body resp) of
           Some e \<Rightarrow>
             if en_ctx_err env (hs_log st) then st
             else http_fail env msg (''reading response: '' @ e) st
         | None \<Rightarrow> deliverBytes env (fst (rs_body resp)) msg st)
      else if strings_HasPrefix (rs_content_type resp) ''text/event-stream'' then
        pumpSSE env (rs_body resp) msg st
      else http_fail env msg (''unexpected content-type '' @ rs_content_type resp) st)"

function roundTripOnce :: "env \<Rightarrow> bytes \<Rightarrow> message \<Rightarrow> bool \<Rightarrow> hstate \<Rightarrow> hstate"
  and retryWithParamHeaders ::
    "env \<Rightarrow> message \<Rightarrow> bytes \<Rightarrow> message \<Rightarrow> header_map \<Rightarrow> 64 word \<Rightarrow> bool \<Rightarrow> hstate \<Rightarrow> bool \<times> hstate" where
  "roundTripOnce env body msg retried st =
     (let name = exchange_name msg;
          sent = paramHeadersFor msg (exchange_params msg) name (hs_conn st);
          gen = hc_refreshGen (hs_conn st)
      in case doWithAuthRetry env body msg name sent st of
           (Inl e, st1) \<Rightarrow> if en_ctx_err env (hs_log st1) then st1 else http_fail env msg e st1
         | (Inr resp, st1) \<Rightarrow>
             let st2 = adopt_session env msg resp st1 in
             if rs_status resp = 202 then st2
             else if 300 \<le> rs_status resp then
               (let data = take errorBodyLimit (fst (rs_body resp));
                    detail = ''http '' @ itoa (int (rs_status resp)) @ '': '' @
                      truncate_text (strings_TrimSpace data) 512
                in case decodeRPCError data of
                     None \<Rightarrow> http_fail env msg detail st2
                   | Some rpcErr \<Rightarrow>
                       if Kind msg \<noteq> KindRequest then http_fail env msg detail st2
                       else
                         (case retryWithParamHeaders env rpcErr body msg sent gen retried st2 of
                            (True, st3) \<Rightarrow> st3
                          | (False, st3) \<Rightarrow> deliver env (rpcErr\<lparr>ID := ID msg\<rparr>) st3))
             else success_body env msg resp st2)"
| "retryWithParamHeaders env rpcErr body msg sent gen retried st =
     (if \<not> recoverable env rpcErr msg retried then (False, st)
      else
        let name = exchange_name msg in
        if recovery_pointless env name st then (False, st)
        else
          (case refreshAnnotations env gen st of
             (Inl e, st1) \<Rightarrow> (False, st1)
           | (Inr _, st1) \<Rightarrow>
               let now = paramHeadersFor msg (exchange_params msg) name (hs_conn st1) in
               if same_headers sent now then (False, st1)
               else (True, roundTripOnce env body msg True st1)))"
  by pat_completeness auto
termination
  by (relation "measure (\<lambda>x. case x of
        Inl (_, _, _, retried, _) \<Rightarrow> if retried then 1 else 3
      | Inr (_, _, _, _, _, _, retried, _) \<Rightarrow> if retried then 0 else 2)")
    (auto simp: recoverable_def)

declare roundTripOnce.simps [simp del] retryWithParamHeaders.simps [simp del]

section \<open>Write and Close\<close>

datatype http_write_error = HttpConnDead | HttpEncode marshal_error

text \<open>
  \<open>Write\<close>: whether the exchange is admitted, and the body it carries.  The exchange itself runs in
  its own goroutine.
\<close>

definition http_Write :: "message \<Rightarrow> httpConn \<Rightarrow> http_write_error + bytes" where
  "http_Write msg c =
     (if hc_closed c then Inl HttpConnDead
      else (case Encode msg of
              Inl e \<Rightarrow> Inl (HttpEncode e)
            | Inr body \<Rightarrow> if hc_closing c then Inl HttpConnDead else Inr body))"

definition delete_headers :: "env \<Rightarrow> bytes \<Rightarrow> hlog \<Rightarrow> header_map" where
  "delete_headers env sid log =
     (let h1 = header_SetAll (hb_Headers (en_backend env)) (header_Set ''Mcp-Session-Id'' sid []) in
      case en_tokens env of
        None \<Rightarrow> h1
      | Some ts \<Rightarrow> (case ts log of Inl _ \<Rightarrow> h1 | Inr hdrs \<Rightarrow> header_SetAll hdrs h1))"

text \<open>\<open>Close\<close>, which runs once: \<open>closeOnce\<close> is the latch \<open>hc_closing\<close>.\<close>

definition http_Close :: "env \<Rightarrow> hstate \<Rightarrow> hstate" where
  "http_Close env st =
     (if hc_closing (hs_conn st) then st
      else
        let st1 = st\<lparr>hs_conn := (hs_conn st)\<lparr>hc_closing := True, hc_closed := True\<rparr>\<rparr>;
            sid = hc_sessionID (hs_conn st)
        in if hb_Legacy (en_backend env) \<and> sid \<noteq> [] \<and> hb_new_error (en_backend env) = None
           then st1\<lparr>hs_log := hs_log st1 @ [Deleted (delete_headers env sid (hs_log st1))]\<rparr>
           else st1)"

section \<open>How much an exchange may send\<close>

definition posts :: "hlog \<Rightarrow> nat" where
  "posts log = length (filter (\<lambda>e. case e of Posted _ \<Rightarrow> True | _ \<Rightarrow> False) log)"

lemma posts_simps [simp]:
  "posts (log @ log') = posts log + posts log'" "posts [Posted r] = 1" "posts [Invalidated] = 0" "posts [] = 0"
  by (simp_all add: posts_def)

lemma deliver_log [simp]: "hs_log (deliver env m st) = hs_log st"
  by (simp add: deliver_def)

lemma http_fail_log [simp]: "hs_log (http_fail env msg d st) = hs_log st"
  by (simp add: http_fail_def)

lemma deliverBytes_log [simp]: "hs_log (deliverBytes env data req st) = hs_log st"
  by (simp add: deliverBytes_def case_prod_beta split: sum.split)

lemma sse_loop_keeps:
  "(\<And>s d. g (snd (fn s d)) = g s) \<Longrightarrow> g (snd (sse_loop fn ls buf s)) = g s"
proof (induction fn ls buf s rule: sse_loop.induct)
  case (2 fn line ls buf s)
  obtain b s' where e: "fn s buf = (b, s')" by (cases "fn s buf")
  moreover have "g s' = g s" using 2(5) [of s buf] by (simp add: e)
  ultimately show ?case using 2 by (cases b) (auto split: option.split)
qed simp

lemma scanSSE_keeps:
  assumes "\<And>s d. g (snd (fn s d)) = g s"
  shows "g (snd (scanSSE fn b s)) = g s"
  using sse_loop_keeps [of g fn "fst (scan_lines maxLineBytes (fst b))" "[]" s, OF assms] assms
  by (auto simp: scanSSE_def case_prod_beta split: option.split)

lemma pumpSSE_log [simp]: "hs_log (pumpSSE env b req st) = hs_log st"
proof -
  have "hs_log (snd (scanSSE (\<lambda>st data. (True, deliverBytes env data req st)) b st)) = hs_log st"
    by (rule scanSSE_keeps) simp
  then show ?thesis by (auto simp: pumpSSE_def split: prod.split option.split)
qed

lemma success_body_log [simp]: "hs_log (success_body env msg resp st) = hs_log st"
  by (simp add: success_body_def split: option.split)

lemma adopt_session_log [simp]: "hs_log (adopt_session env msg resp st) = hs_log st"
  by (simp add: adopt_session_def)

lemma auth_attempt_posts:
  "posts (hs_log (snd (auth_attempt env body msg name ph left st))) \<le> posts (hs_log st) + Suc left"
proof (induction left arbitrary: st)
  case 0
  show ?case
    by (subst auth_attempt.simps) (auto simp: http_Do_def Let_def split: sum.split prod.split)
next
  case (Suc left)
  show ?case
  proof (cases "newRequest env body msg name ph st")
    case (Inl e)
    then show ?thesis by (subst auth_attempt.simps) simp
  next
    case (Inr req)
    obtain r st' where d: "http_Do env req st = (r, st')" by fastforce
    then have p: "posts (hs_log st') = Suc (posts (hs_log st))" by (auto simp: http_Do_def Let_def)
    show ?thesis
      using Suc.IH [of "st'\<lparr>hs_log := hs_log st' @ [Invalidated]\<rparr>"] Inr d p
      by (subst auth_attempt.simps) (auto split: sum.split)
  qed
qed

lemma doWithAuthRetry_posts:
  "doWithAuthRetry env body msg name ph st = (r, st') \<Longrightarrow> posts (hs_log st') \<le> posts (hs_log st) + 2"
  using auth_attempt_posts [of env body msg name ph 1 st] by (simp add: doWithAuthRetry_def)

lemma probeToolsPage_posts:
  "probeToolsPage env cursor st = (r, st') \<Longrightarrow> posts (hs_log st') \<le> posts (hs_log st) + 2"
proof -
  assume page: "probeToolsPage env cursor st = (r, st')"
  let ?probe = "NewRequest annotationProbeID MethodToolsList (Some (probe_params cursor))"
  show ?thesis
  proof (cases "Encode ?probe")
    case (Inl e)
    with page show ?thesis by (simp add: probeToolsPage_def Let_def)
  next
    case (Inr body)
    obtain x st1 where d: "doWithAuthRetry env body ?probe [] [] st = (x, st1)" by fastforce
    have "hs_log st' = hs_log st1"
      using page Inr d by (auto simp: probeToolsPage_def Let_def case_prod_beta split: sum.splits if_splits)
    with doWithAuthRetry_posts [OF d] show ?thesis by simp
  qed
qed

lemma probe_pages_posts:
  "probe_pages env n cursor st = (r, st') \<Longrightarrow> posts (hs_log st') \<le> posts (hs_log st) + 2 * n"
proof (induction n arbitrary: cursor st)
  case (Suc n)
  obtain x st1 where p: "probeToolsPage env cursor st = (x, st1)" by fastforce
  from probeToolsPage_posts [OF this] Suc.prems p show ?case
    by (fastforce split: sum.splits if_splits dest: Suc.IH)
qed simp

lemma refreshAnnotations_posts:
  "refreshAnnotations env gen st = (r, st') \<Longrightarrow>
     posts (hs_log st') \<le> posts (hs_log st) + 2 * annotationProbeMaxPages"
  by (auto simp: refreshAnnotations_def Let_def split: if_splits prod.splits sum.splits dest!: probe_pages_posts)

lemma roundTrip_retried_posts:
  "posts (hs_log (roundTripOnce env body msg True st)) \<le> posts (hs_log st) + 2"
proof -
  have no: "retryWithParamHeaders env rpcErr body msg sent gen True st = (False, st)" for rpcErr sent gen st
    by (subst retryWithParamHeaders.simps) (simp add: recoverable_def)
  let ?d = "doWithAuthRetry env body msg (exchange_name msg)
    (paramHeadersFor msg (exchange_params msg) (exchange_name msg) (hs_conn st)) st"
  obtain r st1 where d: "?d = (r, st1)" by fastforce
  from doWithAuthRetry_posts [OF this] d no show ?thesis
    by (subst roundTripOnce.simps) (auto simp: Let_def split: sum.split option.split)
qed

lemma retry_posts:
  "retryWithParamHeaders env rpcErr body msg sent gen retried st = (b, st') \<Longrightarrow>
     posts (hs_log st') \<le> posts (hs_log st) + 2 * annotationProbeMaxPages + 2"
proof -
  assume r: "retryWithParamHeaders env rpcErr body msg sent gen retried st = (b, st')"
  obtain x st1 where f: "refreshAnnotations env gen st = (x, st1)" by fastforce
  from r refreshAnnotations_posts [OF f] f roundTrip_retried_posts [of env body msg st1] show ?thesis
    by (subst (asm) retryWithParamHeaders.simps) (auto simp: Let_def split: if_splits sum.splits)
qed

text \<open>
  One exchange, whatever the server answers and however often it asks for more, sends at most
  104 requests: each POST at most twice (a 401 earns one more), one reissue of the call, and fifty
  pages of the listing in between.
\<close>

theorem exchange_is_bounded:
  "posts (hs_log (roundTripOnce env body msg retried st)) \<le> posts (hs_log st) + 104"
proof -
  let ?ph = "paramHeadersFor msg (exchange_params msg) (exchange_name msg) (hs_conn st)"
  obtain r st1 where d: "doWithAuthRetry env body msg (exchange_name msg) ?ph st = (r, st1)" by fastforce
  have p: "posts (hs_log st1) \<le> posts (hs_log st) + 2" by (rule doWithAuthRetry_posts [OF d])
  have retry: "posts (hs_log (snd (retryWithParamHeaders env rpcErr body msg ?ph gen retried
      (adopt_session env msg resp st1)))) \<le> posts (hs_log st1) + 102" for rpcErr gen resp
    using retry_posts [of env rpcErr body msg ?ph gen retried "adopt_session env msg resp st1"]
    by (cases "retryWithParamHeaders env rpcErr body msg ?ph gen retried (adopt_session env msg resp st1)")
      (simp add: annotationProbeMaxPages_def)
  show ?thesis
  proof (cases r)
    case (Inl e)
    with d p show ?thesis by (subst roundTripOnce.simps) simp
  next
    case (Inr resp)
    show ?thesis
    proof (cases "decodeRPCError (take errorBodyLimit (fst (rs_body resp)))")
      case None
      with d p Inr show ?thesis by (subst roundTripOnce.simps) (simp add: Let_def)
    next
      case (Some rpcErr)
      obtain b st3 where q: "retryWithParamHeaders env rpcErr body msg ?ph (hc_refreshGen (hs_conn st)) retried
          (adopt_session env msg resp st1) = (b, st3)" by fastforce
      with retry [of rpcErr "hc_refreshGen (hs_conn st)" resp] have "posts (hs_log st3) \<le> posts (hs_log st1) + 102"
        by simp
      with d p Inr Some q show ?thesis
        by (subst roundTripOnce.simps) (cases b; simp add: Let_def)
    qed
  qed
qed

section \<open>Who decides a header\<close>

text \<open>The last value set under a key.\<close>

definition header_lookup :: "header_map \<Rightarrow> bytes \<Rightarrow> bytes option" where
  "header_lookup kvs = map_of (rev (map (\<lambda>(k, v). (canonical_key k, v)) kvs))"

lemma header_lookup_Nil [simp]: "header_lookup [] = Map.empty"
  by (simp add: header_lookup_def)

lemma map_of_header_SetAll: "map_of (header_SetAll kvs h) = map_of h ++ header_lookup kvs"
proof (induction kvs arbitrary: h)
  case (Cons kv kvs)
  then show ?case
    by (cases kv) (rule ext, simp add: header_SetAll_def header_Set_def update_conv' header_lookup_def
        map_add_def split: option.split)
qed (simp add: header_SetAll_def)

definition fixed_headers :: header_map where
  "fixed_headers = [(''Content-Type'', ''application/json''), (''Accept'', ''application/json, text/event-stream'')]"

definition injected :: "env \<Rightarrow> hlog \<Rightarrow> bytes \<Rightarrow> bytes option" where
  "injected env log =
     header_lookup (hb_Headers (en_backend env)) ++
     (case en_tokens env of
        None \<Rightarrow> Map.empty
      | Some ts \<Rightarrow> (case ts log of Inl _ \<Rightarrow> Map.empty | Inr hdrs \<Rightarrow> header_lookup hdrs))"

text \<open>The headers the gateway frames every request with.\<close>

definition mcp_keys :: "bytes list" where
  "mcp_keys = [''Mcp-Method'', ''Mcp-Name'', ''Mcp-Protocol-Version'', ''Mcp-Session-Id'']"

lemma canonical_simps [simp]:
  "canonical_key ''Mcp-Session-Id'' = ''Mcp-Session-Id''" "canonical_key ''Mcp-Method'' = ''Mcp-Method''"
  "canonical_key ''Mcp-Name'' = ''Mcp-Name''" "canonical_key ''MCP-Protocol-Version'' = ''Mcp-Protocol-Version''"
  "canonical_key ''Content-Type'' = ''Content-Type''" "canonical_key ''Accept'' = ''Accept''"
  by code_simp+

lemma framing_keys: "header_lookup (framing_headers b msg name) k \<noteq> None \<Longrightarrow> k \<in> set mcp_keys"
  by (auto simp: header_lookup_def framing_headers_def mcp_keys_def mcp_defs split: if_splits)

lemma newRequest_headers:
  assumes "newRequest env body msg name ph st = Inr req" "k \<notin> set mcp_keys"
  shows "map_of (hq_headers req) k =
    (map_of fixed_headers ++ header_lookup ph ++ injected env (hs_log st)) k"
proof -
  have fixed: "header_lookup fixed_headers = map_of fixed_headers"
    by (rule ext) (simp add: header_lookup_def fixed_headers_def)
  have framing: "(m ++ header_lookup (framing_headers (en_backend env) msg name)) k = m k" for m
    using framing_keys [of "en_backend env" msg name k] assms(2) by (auto simp: map_add_def split: option.split)
  have sid: "k \<noteq> ''Mcp-Session-Id''" using assms(2) by (auto simp: mcp_keys_def)
  have start: "[(''Content-Type'', ''application/json''), (''Accept'', ''application/json, text/event-stream'')] =
      fixed_headers" by (simp add: fixed_headers_def)
  from assms(1) sid show ?thesis
    unfolding newRequest_def start
    by (auto simp: Let_def bind_err_Inr injected_def fixed map_of_header_SetAll framing header_Set_def update_conv'
        split: option.splits sum.splits if_splits)
qed

lemma canonical_bytes_append:
  "canonical_bytes up (s @ [CHR ''-''] @ t) = canonical_bytes up s @ [CHR ''-''] @ canonical_bytes True t"
  by (induction s arbitrary: up) (auto simp: ascii_raise_def ascii_lower_def)

lemma canonical_param: "strings_HasPrefix (canonical_key (HeaderParamPrefix @ s)) HeaderParamPrefix"
proof -
  have "canonical_bytes True (''Mcp-Param'' @ [CHR ''-''] @ s) =
      canonical_bytes True ''Mcp-Param'' @ [CHR ''-''] @ canonical_bytes True s"
    by (rule canonical_bytes_append)
  moreover have "canonical_bytes True ''Mcp-Param'' = ''Mcp-Param''" by code_simp
  ultimately show ?thesis
    by (auto simp: canonical_key_def strings_HasPrefix_iff HeaderParamPrefix_def)
qed

lemma paramHeadersFor_keys:
  "(h, x) \<in> set (paramHeadersFor msg ps name c) \<Longrightarrow> \<exists>n. h = HeaderParamPrefix @ n"
  by (auto simp: paramHeadersFor_def paramHeaders_def Let_def
      split: if_splits option.splits sum.splits dest!: paramHeaders_loop_from)

lemma mirrored_keys:
  "header_lookup (paramHeadersFor msg ps name c) k \<noteq> None \<Longrightarrow> strings_HasPrefix k HeaderParamPrefix"
proof -
  assume "header_lookup (paramHeadersFor msg ps name c) k \<noteq> None"
  then obtain h x where "(h, x) \<in> set (paramHeadersFor msg ps name c)" "k = canonical_key h"
    by (auto simp: header_lookup_def dest!: map_of_SomeD)
  with paramHeadersFor_keys canonical_param show ?thesis by metis
qed

text \<open>
  C8. Outside the four headers that frame an MCP request, what a request carries under a key is
  decided by the gateway alone: the injected credential or configured header if there is one, a
  mirrored value only below \<open>Mcp-Param-\<close> and only where nothing is injected, and a constant otherwise.
  Nothing in the caller's message reaches any other header.
\<close>

theorem credentials_are_the_gateways:
  assumes "newRequest env body msg name (paramHeadersFor msg ps tool c) st = Inr req" "k \<notin> set mcp_keys"
  shows "map_of (hq_headers req) k =
    (if injected env (hs_log st) k \<noteq> None then injected env (hs_log st) k
     else if strings_HasPrefix k HeaderParamPrefix then header_lookup (paramHeadersFor msg ps tool c) k
     else map_of fixed_headers k)"
proof -
  have none: "\<not> strings_HasPrefix k HeaderParamPrefix \<Longrightarrow> header_lookup (paramHeadersFor msg ps tool c) k = None"
    using mirrored_keys by blast
  have const: "strings_HasPrefix k HeaderParamPrefix \<Longrightarrow> map_of fixed_headers k = None"
    by (auto simp: strings_HasPrefix_iff fixed_headers_def HeaderParamPrefix_def)
  show ?thesis
    using newRequest_headers [OF assms] none const by (auto simp: map_add_def split: option.split)
qed

definition ex_env :: env where
  "ex_env =
     \<lparr>en_backend = \<lparr>hb_URL = ''http://b'', hb_new_error = None, hb_Headers = [], hb_Legacy = False\<rparr>,
      en_server = (\<lambda>log. Inl ''refused''),
      en_tokens = Some (\<lambda>log. Inr [(''authorization'', ''Bearer t'')]),
      en_meanwhile = (\<lambda>log c. c), en_now = (\<lambda>log. 0), en_ctx_err = (\<lambda>log. False),
      en_takes = (\<lambda>log. True), en_scrub = (\<lambda>s. s)\<rparr>"

definition ex_hstate :: hstate where
  "ex_hstate =
     \<lparr>hs_conn = \<lparr>hc_inbox = [], hc_sessionID = [], hc_closing = False, hc_closed = False,
        hc_annotations = [], hc_annotationsKnown = False, hc_truncatedAt = None, hc_refreshGen = 0\<rparr>,
      hs_log = []\<rparr>"

theorem credentials_are_the_gateways_witness:
  "\<exists>req. newRequest ex_env [] (NewNotification ''ping'' None) [] [] ex_hstate = Inr req \<and>
     map_of (hq_headers req) ''Authorization'' = Some ''Bearer t''"
proof -
  let ?m = "NewNotification ''ping'' None"
  have ph: "paramHeadersFor ?m [] [] (hs_conn ex_hstate) = []"
    by (simp add: paramHeadersFor_def Kind_def NewNotification_def zero_message_def HasID_def)
  obtain req where req: "newRequest ex_env [] ?m [] [] ex_hstate = Inr req"
    by (simp add: newRequest_def ex_env_def Let_def)
  have key: "canonical_key ''authorization'' = ''Authorization''" by code_simp
  have "''Authorization'' \<notin> set mcp_keys" by (simp add: mcp_keys_def)
  from credentials_are_the_gateways [OF _ this, of ex_env "[]" ?m "[]" "[]" "[]" "hs_conn ex_hstate" ex_hstate req] req ph
  show ?thesis by (simp add: injected_def ex_env_def header_lookup_def key)
qed

section \<open>What becomes of a listing\<close>

definition result_members :: "message \<Rightarrow> raw_map option" where
  "result_members m =
     (case Result m of
        None \<Rightarrow> None
      | Some r \<Rightarrow> (case unmarshal_map r of Inl _ \<Rightarrow> None | Inr res \<Rightarrow> res))"

definition tools_in :: "raw_map \<Rightarrow> bytes list option" where
  "tools_in res =
     (case map_of res ''tools'' of
        None \<Rightarrow> None
      | Some raw \<Rightarrow>
          (case unmarshal_list raw of
             Inl _ \<Rightarrow> None
           | Inr ts \<Rightarrow> Some (case ts of None \<Rightarrow> [] | Some l \<Rightarrow> l)))"

lemma listed_tools_Some:
  "listed_tools m = Some (res, ts) \<Longrightarrow> result_members m = Some res \<and> tools_in res = Some ts \<and> Error m = None"
  by (auto simp: listed_tools_def result_members_def tools_in_def split: option.splits if_splits sum.splits)

lemma items_list_sub:
  "v \<in> set (items_list is) \<Longrightarrow> wf_items is \<Longrightarrow> wf_json v \<and> jdepth v \<le> jdepth_items is"
  by (induction "is" rule: items_list.induct) auto

definition fits_all :: "nat \<Rightarrow> bytes list \<Rightarrow> bool" where
  "fits_all n raws = list_all (value_fits n) raws"

lemma strip_all_ok:
  "fits_all n raws \<Longrightarrow> \<exists>vs. strip_all raws = Inr vs \<and>
     list_all (\<lambda>v. wf_json v \<and> strip v = v \<and> jdepth v + n \<le> maxNestingDepth) vs \<and>
     map render vs = map strip_raw raws"
proof (induction raws)
  case (Cons raw raws)
  then obtain v vs where "json_parse raw = Some v" "jdepth v + n \<le> maxNestingDepth" "strip_all raws = Inr vs"
    "list_all (\<lambda>v. wf_json v \<and> strip v = v \<and> jdepth v + n \<le> maxNestingDepth) vs"
    "map render vs = map strip_raw raws"
    by (auto simp: fits_all_def value_fits_def)
  moreover from this(1) have "wf_json (strip v)" by (simp add: json_parse_iff strip_wf)
  ultimately show ?case by (simp add: strip_raw_def)
qed simp

lemma plain_items_facts:
  "list_all (\<lambda>v. wf_json v \<and> strip v = v \<and> jdepth v + n \<le> lim) vs \<Longrightarrow> n \<le> lim \<Longrightarrow>
     wf_items (plain_items vs) \<and> strip_items (plain_items vs) = plain_items vs \<and>
     jdepth_items (plain_items vs) + n \<le> lim \<and> items_list (plain_items vs) = vs"
  by (induction vs) (auto simp: max_def)

text \<open>A rebuilt array reads back as the texts it was made of, white space aside.\<close>

lemma marshal_list_back:
  assumes "fits_all 2 raws"
  shows "\<exists>enc. marshalNoEscape_list raws = Inr enc \<and> value_fits 1 enc \<and> strip_raw enc = enc \<and>
    unmarshal_list enc = Inr (Some (map strip_raw raws))"
proof -
  obtain vs where vs: "strip_all raws = Inr vs"
    "list_all (\<lambda>v. wf_json v \<and> strip v = v \<and> jdepth v + 2 \<le> maxNestingDepth) vs"
    "map render vs = map strip_raw raws"
    using strip_all_ok [OF assms] by blast
  have lim: "2 \<le> maxNestingDepth" by (simp add: maxNestingDepth_def)
  note facts = plain_items_facts [OF vs(2) lim]
  let ?v = "JArray [] (plain_items vs)"
  have p: "json_parse (render ?v) = Some ?v"
    using facts by (intro json_parse_render) (simp_all add: all_ws_def)
  show ?thesis
    using facts vs p
    by (intro exI [of _ "render ?v"])
      (auto simp: marshalNoEscape_list_def value_fits_def strip_raw_def unmarshal_list_def json_null_def
        simp del: render.simps)
qed

lemma listed_fits:
  assumes "result_members m = Some res" "tools_in res = Some ts"
  shows "map_fits 1 res" "fits_all 2 ts"
proof -
  obtain r w ms where r: "json_parse r = Some (JObject w ms)" "res = object_map ms"
    using assms(1) by (auto simp: result_members_def unmarshal_map_def
        split: option.splits sum.splits if_splits jval.splits)
  have depth: "jdepth (JObject w ms) \<le> maxNestingDepth" using r(1) by (simp add: json_parse_iff)
  then show fits: "map_fits 1 res" using object_map_fits [OF r(1), of 0] r(2) by simp
  obtain raw l where raw: "map_of res ''tools'' = Some raw" "unmarshal_list raw = Inr l"
    "ts = (case l of None \<Rightarrow> [] | Some t \<Rightarrow> t)"
    using assms(2) by (auto simp: tools_in_def split: option.splits sum.splits)
  then have "value_fits 1 raw" using fits by (simp add: map_fits_iff)
  then obtain v where v: "json_parse raw = Some v" "jdepth v + 1 \<le> maxNestingDepth"
    by (auto simp: value_fits_def)
  show "fits_all 2 ts"
  proof (cases v)
    case (JArray w "is")
    then have "ts = map render (items_list is)" using raw v(1) by (auto simp: unmarshal_list_def json_null_def)
    moreover have "value_fits 2 (render x)" if x: "x \<in> set (items_list is)" for x
    proof -
      have "wf_json v" using v(1) by (simp add: json_parse_iff)
      then have "wf_items is" using JArray by simp
      with items_list_sub [OF x] JArray v(2) show ?thesis
        by (auto simp: value_fits_def intro!: exI [of _ x] json_parse_render)
    qed
    ultimately show ?thesis by (auto simp: fits_all_def list_all_iff)
  qed (use raw v(1) in \<open>auto simp: unmarshal_list_def fits_all_def split: if_splits\<close>)
qed

lemma invalid_of_Nil: "invalid_of (map judge_tool ts) = [] \<longleftrightarrow> filter (\<lambda>t. \<not> is_invalid (judge_tool t)) ts = ts"
proof -
  have "invalid_of (map judge_tool ts) = [] \<longleftrightarrow> (\<forall>t\<in>set ts. \<not> is_invalid (judge_tool t))"
    by (induction ts) (auto simp: is_invalid_def split: verdict.split)
  then show ?thesis by (metis filter_True filter_id_conv)
qed

lemma strip_raw_idem: "strip_raw (strip_raw raw) = strip_raw raw"
proof (cases "json_parse raw")
  case (Some v)
  then have "json_parse (render (strip v)) = Some (strip v)"
    by (intro json_parse_render) (auto simp: json_parse_iff strip_wf)
  with Some show ?thesis by (simp add: strip_raw_def)
qed (simp add: strip_raw_def)

text \<open>
  A listing that passes through loses exactly the tools whose annotations are not legal: the
  others stay, in order, and so does every other member of the result, all of it byte for byte but
  for white space between tokens.
\<close>

theorem listing_keeps_the_valid_tools:
  assumes "listed_tools m = Some (res, ts)"
  shows "\<exists>res' ts'. result_members (fst (absorbToolsList m c)) = Some res' \<and> tools_in res' = Some ts' \<and>
    map strip_raw ts' = map strip_raw (filter (\<lambda>t. \<not> is_invalid (judge_tool t)) ts) \<and>
    (if k = ''tools'' then True else map_option strip_raw (map_of res' k) = map_option strip_raw (map_of res k))"
proof -
  from listed_tools_Some [OF assms] have res: "result_members m = Some res" and tools: "tools_in res = Some ts"
    by auto
  note fits = listed_fits [OF res tools]
  let ?kept = "filter (\<lambda>t. \<not> is_invalid (judge_tool t)) ts"
  show ?thesis
  proof (cases "invalid_of (map judge_tool ts) = []")
    case True
    then have "fst (absorbToolsList m c) = m" by (simp add: absorbToolsList_def assms)
    moreover have "?kept = ts" using True by (simp only: invalid_of_Nil)
    ultimately show ?thesis using res tools by simp
  next
    case False
    have "fits_all 2 ?kept" using fits(2) by (simp add: fits_all_def list_all_iff)
    then obtain enc where enc: "marshalNoEscape_list ?kept = Inr enc" "value_fits 1 enc" "strip_raw enc = enc"
      "unmarshal_list enc = Inr (Some (map strip_raw ?kept))"
      using marshal_list_back by blast
    have "utf8_Valid ''tools''" by (rule utf8_Valid_ascii) simp
    then have "map_fits 1 (AList.update ''tools'' enc res)" using fits(1) enc(2) by (intro map_fits_update)
    then obtain raw ms where raw: "marshalNoEscape (AList.update ''tools'' enc res) = Inr raw"
      "json_parse raw = Some (JObject [] ms)"
      "\<And>k. map_of (object_map ms) k = map_option strip_raw (map_of (AList.update ''tools'' enc res) k)"
      using unmarshal_marshal [of 1 "AList.update ''tools'' enc res"] by (auto simp: maxNestingDepth_def)
    have "Result (fst (absorbToolsList m c)) = Some raw"
      using False by (simp add: absorbToolsList_def assms without_invalid_def enc(1) raw(1) Let_def)
    then have "result_members (fst (absorbToolsList m c)) = Some (object_map ms)"
      by (simp add: result_members_def unmarshal_map_def raw(2))
    moreover have "tools_in (object_map ms) = Some (map strip_raw ?kept)"
      by (simp add: tools_in_def raw(3) update_conv' enc(3,4))
    moreover have "map_option strip_raw (map_of (object_map ms) k) = map_option strip_raw (map_of res k)"
      if "k \<noteq> ''tools''"
      using that by (simp add: raw(3) update_conv' option.map_comp comp_def strip_raw_idem)
    ultimately show ?thesis by (simp add: strip_raw_idem)
  qed
qed

definition ex_tool :: "bytes \<Rightarrow> bytes" where
  "ex_tool ann = json_text (''{~name~:~a~,~inputSchema~:{~x-mcp-header~:'' @ ann @ ''}}'')"

theorem listing_keeps_the_valid_tools_witness:
  "\<exists>m res' ts'. result_members (fst (absorbToolsList m (hs_conn ex_hstate))) = Some res' \<and>
     tools_in res' = Some ts' \<and> map strip_raw ts' = [] \<and> Result m = Some (json_text ''{~tools~:['' @ ex_tool ''1'' @ '']}'')"
proof -
  let ?r = "json_text ''{~tools~:['' @ ex_tool ''1'' @ '']}''"
  let ?m = "NewResponse (Some ''1'') (Some ?r)"
  have inner: "json_parse (ex_tool ''1'') = Some (JObject [] (MCons [] ''name'' [] [] (JString ''a'') []
      (MCons [] ''inputSchema'' [] [] (JObject [] (MCons [] ''x-mcp-header'' [] [] (JScalar ''1'') [] MNil)) [] MNil)))"
    by code_simp
  have outer: "json_parse ?r = Some (JObject [] (MCons [] ''tools'' [] [] (JArray [] (ICons []
      (JObject [] (MCons [] ''name'' [] [] (JString ''a'') []
      (MCons [] ''inputSchema'' [] [] (JObject [] (MCons [] ''x-mcp-header'' [] [] (JScalar ''1'') [] MNil)) [] MNil))) [] INil)) [] MNil))"
    by code_simp
  have arr: "json_parse (''['' @ ex_tool ''1'' @ '']'') = Some (JArray [] (ICons []
      (JObject [] (MCons [] ''name'' [] [] (JString ''a'') []
      (MCons [] ''inputSchema'' [] [] (JObject [] (MCons [] ''x-mcp-header'' [] [] (JScalar ''1'') [] MNil)) [] MNil))) [] INil))"
    by code_simp
  have "strings_Contains ?r SchemaHeaderAnnotation" by code_simp
  then have "listed_tools ?m = Some ([(''tools'', ''['' @ ex_tool ''1'' @ '']'')], [ex_tool ''1''])"
    using outer arr
    by (simp add: listed_tools_def NewResponse_def zero_message_def unmarshal_map_def unmarshal_list_def
        object_map_def unquoted_def unquote_plain json_null_def ex_tool_def json_text_def)
  moreover have "judge_tool (ex_tool ''1'') = Invalid_tool ''a''" by code_simp
  ultimately show ?thesis
    using listing_keeps_the_valid_tools [of ?m _ _ "hs_conn ex_hstate" "''tools''"]
    by (intro exI [of _ ?m]) (fastforce simp: is_invalid_def NewResponse_def zero_message_def)
qed

end
