(* ===== verification/Redirect.thy ===== *)
theory Redirect
  imports GoPrelude
begin

text \<open>
  \<open>pkg/backend/redirect.go\<close>: which redirects a client that carries an injected credential follows.
  The loop of \<open>http.Client.Do\<close> that consults the policy before every hop is \<open>follow\<close>; the server,
  whose answers choose the next request, is its argument.
\<close>

section \<open>The parts of a URL the policy reads\<close>

text \<open>\<open>url.URL\<close>, with the two fields \<open>Scheme\<close> and \<open>Host\<close> of the parsed text, and \<open>http.Request\<close>.\<close>

record url =
  url_scheme :: bytes
  url_host :: bytes

record http_request =
  rq_method :: bytes
  rq_url :: url

text \<open>
  \<open>URL.Hostname\<close> and \<open>URL.Port\<close>: what precedes and follows the last colon, when only digits follow
  it, and the brackets of an IPv6 literal removed.
\<close>

definition port_digit :: "char \<Rightarrow> bool" where
  "port_digit c = (48 \<le> byte c \<and> byte c \<le> 57)"

definition splitHostPort :: "bytes \<Rightarrow> bytes \<times> bytes" where
  "splitHostPort h =
     (let (host, port) =
        (case cut_at_byte (CHR '':'') (rev h) of
           None \<Rightarrow> (h, [])
         | Some (post, pre) \<Rightarrow> if list_all port_digit post then (rev pre, rev post) else (h, []))
      in (if strings_HasPrefix host ''['' \<and> strings_HasSuffix host '']''
          then tl (butlast host) else host, port))"

definition Hostname :: "url \<Rightarrow> bytes" where
  "Hostname u = fst (splitHostPort (url_host u))"

definition Port :: "url \<Rightarrow> bytes" where
  "Port u = snd (splitHostPort (url_host u))"

section \<open>The policy\<close>

fun asciiEqualFold_loop :: "bytes \<Rightarrow> bytes \<Rightarrow> bool" where
  "asciiEqualFold_loop (x # a) (y # b) =
     (if ascii_lower x \<noteq> ascii_lower y then False else asciiEqualFold_loop a b)"
| "asciiEqualFold_loop _ _ = True"

definition asciiEqualFold :: "bytes \<Rightarrow> bytes \<Rightarrow> bool" where
  "asciiEqualFold a b = (if length a \<noteq> length b then False else asciiEqualFold_loop a b)"

definition defaultedPort :: "url \<Rightarrow> bytes" where
  "defaultedPort u =
     (if Port u \<noteq> [] then Port u
      else if url_scheme u = ''https'' then ''443''
      else if url_scheme u = ''http'' then ''80''
      else [])"

definition sameTarget :: "url \<Rightarrow> url \<Rightarrow> bool" where
  "sameTarget a b =
     (if \<not> asciiEqualFold (Hostname a) (Hostname b) then False
      else if url_scheme a \<noteq> url_scheme b then Port a = Port b
      else defaultedPort a = defaultedPort b)"

datatype redirect_error =
    OtherTarget bytes bytes
  | Downgraded bytes
  | MethodRewritten bytes bytes
  | TooManyHops nat

definition RefuseUnsafeRedirect :: "http_request \<Rightarrow> http_request list \<Rightarrow> redirect_error + unit" where
  "RefuseUnsafeRedirect req via =
     (if via = [] then Inr ()
      else
        let first = rq_url (hd via); prev = last via in
        if \<not> sameTarget first (rq_url req)
        then Inl (OtherTarget (url_host first) (url_host (rq_url req)))
        else if url_scheme first = ''https'' \<and> url_scheme (rq_url req) \<noteq> ''https''
        then Inl (Downgraded (url_scheme (rq_url req)))
        else if rq_method req \<noteq> rq_method prev
        then Inl (MethodRewritten (rq_method prev) (rq_method req))
        else if length via > 5 then Inl (TooManyHops (length via))
        else Inr ())"

text \<open>
  The loop of the client.  \<open>srv\<close> answers the requests sent so far with the request its redirect asks
  for, or with \<open>None\<close> when the answer is final.  The result is what was sent, and the refusal that
  ended the exchange if there was one.
\<close>

partial_function (option) follow ::
    "(http_request list \<Rightarrow> http_request option) \<Rightarrow> http_request list \<Rightarrow> http_request
     \<Rightarrow> (http_request list \<times> redirect_error option) option" where
  "follow srv via req =
     (case RefuseUnsafeRedirect req via of
        Inl e \<Rightarrow> Some (via, Some e)
      | Inr _ \<Rightarrow>
          (case srv (via @ [req]) of
             None \<Rightarrow> Some (via @ [req], None)
           | Some hop \<Rightarrow> follow srv (via @ [req]) hop))"

section \<open>What an accepted hop keeps\<close>

lemma asciiEqualFold_iff: "asciiEqualFold a b \<longleftrightarrow> map ascii_lower a = map ascii_lower b"
proof -
  have "length a = length b \<Longrightarrow> asciiEqualFold_loop a b \<longleftrightarrow> map ascii_lower a = map ascii_lower b"
    by (induction a b rule: asciiEqualFold_loop.induct) auto
  then show ?thesis by (auto simp: asciiEqualFold_def dest: map_eq_imp_length_eq)
qed

text \<open>
  The network address that is dialled for a URL: the host name, which DNS reads in any case, and the port.
  A hop that keeps it may change the path only; one that changes the scheme keeps the port as it is written,
  so that the default of the other scheme is dialled when none is.
\<close>

definition dialled :: "url \<Rightarrow> bytes \<times> bytes" where
  "dialled u = (map ascii_lower (Hostname u), defaultedPort u)"

definition hop_kept :: "http_request \<Rightarrow> http_request \<Rightarrow> bool" where
  "hop_kept r0 r =
     (let a = rq_url r0; b = rq_url r in
      rq_method r = rq_method r0 \<and> fst (dialled b) = fst (dialled a) \<and>
      (url_scheme b = url_scheme a \<longrightarrow> dialled b = dialled a) \<and>
      (url_scheme b \<noteq> url_scheme a \<longrightarrow> url_scheme a \<noteq> ''https'' \<and> Port b = Port a))"

lemma sameTarget_iff:
  "sameTarget a b \<longleftrightarrow> fst (dialled b) = fst (dialled a) \<and>
     (if url_scheme a = url_scheme b then dialled b = dialled a else Port b = Port a)"
  by (auto simp: sameTarget_def dialled_def asciiEqualFold_iff)

lemma hop_kept_refl [simp]: "hop_kept r r"
  by (simp add: hop_kept_def)

lemma accepted_hop:
  assumes ok: "RefuseUnsafeRedirect req via = Inr u" and ne: "via \<noteq> []"
    and kept: "list_all (hop_kept (hd via)) via"
  shows "hop_kept (hd via) req \<and> length via \<le> 5"
proof -
  from kept ne have "hop_kept (hd via) (last via)" by (simp add: list_all_iff)
  then have "rq_method (last via) = rq_method (hd via)" by (simp add: hop_kept_def Let_def)
  with ok ne show ?thesis
    by (auto simp: RefuseUnsafeRedirect_def Let_def sameTarget_iff hop_kept_def split: if_splits)
qed

definition chain_kept :: "http_request \<Rightarrow> http_request list \<Rightarrow> bool" where
  "chain_kept r0 sent = (list_all (hop_kept r0) sent \<and> length sent \<le> 6 \<and> sent \<noteq> [] \<and> hd sent = r0)"

lemma follow_ends_aux:
  assumes "via \<noteq> []" "list_all (hop_kept (hd via)) via" "length via \<le> 6"
  shows "\<exists>sent e. follow srv via req = Some (sent, e) \<and> chain_kept (hd via) sent"
  using assms
proof (induction "6 - length via" arbitrary: via req rule: less_induct)
  case less
  show ?case
  proof (cases "RefuseUnsafeRedirect req via")
    case (Inl e)
    with less.prems show ?thesis by (subst follow.simps) (simp add: chain_kept_def)
  next
    case (Inr u)
    with accepted_hop less.prems have kept: "hop_kept (hd via) req" and len: "length via \<le> 5" by blast+
    show ?thesis
    proof (cases "srv (via @ [req])")
      case None
      with Inr kept len less.prems show ?thesis by (subst follow.simps) (simp add: chain_kept_def)
    next
      case (Some hop)
      have "\<exists>sent e. follow srv (via @ [req]) hop = Some (sent, e)
              \<and> chain_kept (hd (via @ [req])) sent"
        by (rule less.hyps) (use less.prems kept len in auto)
      with Inr Some less.prems(1) show ?thesis by (subst follow.simps) simp
    qed
  qed
qed

text \<open>
  C16. Whatever the server answers, the client returns after at most six requests, and every request it
  sent has the method of the first and goes to the same host name, compared over ASCII.  After an https
  request all are https and go to the port that was dialled first.  After a request over plain http, which
  showed its credential to the network already, the server may change the scheme at a hop, also back;
  each request over http goes to the port that was dialled first, and each other one to the port written
  in the first URL or, where none was, to its scheme's default.
\<close>

theorem redirects_end_at_home:
  "\<exists>sent e. follow srv [] req = Some (sent, e) \<and> length sent \<le> 6 \<and> hd sent = req \<and>
     list_all (hop_kept req) sent"
proof (cases "srv [req]")
  case None
  then show ?thesis by (subst follow.simps) (simp add: RefuseUnsafeRedirect_def)
next
  case (Some hop)
  then show ?thesis
    using follow_ends_aux [of "[req]" srv hop]
    by (subst follow.simps) (auto simp: RefuseUnsafeRedirect_def chain_kept_def)
qed

text \<open>
  The policy compares each hop with the first request only, so that a chain that went up to https comes
  back down: the comment above it promises "never a downgrade out of https".
\<close>

definition ex_hop :: "bytes \<Rightarrow> http_request" where
  "ex_hop scheme = \<lparr>rq_method = ''POST'', rq_url = \<lparr>url_scheme = scheme, url_host = ''h''\<rparr>\<rparr>"

lemma upgraded_chain_comes_down:
  "follow (\<lambda>sent. if length sent = 1 then Some (ex_hop ''https'') else if length sent = 2 then Some (ex_hop ''http'') else None)
     [] (ex_hop ''http'') = Some ([ex_hop ''http'', ex_hop ''https'', ex_hop ''http''], None)"
proof -
  have h: "splitHostPort ''h'' = (''h'', [])" by code_simp
  have s: "sameTarget \<lparr>url_scheme = a, url_host = ''h''\<rparr> \<lparr>url_scheme = b, url_host = ''h''\<rparr>" for a b
    by (simp add: sameTarget_iff dialled_def defaultedPort_def Hostname_def Port_def h)
  show ?thesis
    by (subst follow.simps, simp add: RefuseUnsafeRedirect_def)
      (subst follow.simps, simp add: RefuseUnsafeRedirect_def ex_hop_def s,
       subst follow.simps, simp add: RefuseUnsafeRedirect_def ex_hop_def s)
qed

end
