(* ===== verification/MarshalMap.thy ===== *)
theory MarshalMap
  imports JsonMap Params
begin

text \<open>
  \<open>json.Marshal\<close> of a \<open>map[string]json.RawMessage\<close>, as the two compatibility wings use it
  (\<open>pkg/backend/legacy/compat.go\<close>, \<open>pkg/shim/shim.go\<close>), and what is read back of its output: the
  lemmas show that marshalling compacts the values and changes nothing a reader sees.
\<close>

section \<open>Marshalling maps of raw messages\<close>

text \<open>A nil message is \<open>null\<close>.\<close>

fun compact_values :: "raw_map \<Rightarrow> marshal_error + (bytes \<times> jval) list" where
  "compact_values [] = Inr []"
| "compact_values ((k, raw) # m) =
     bind_err (if raw = [] then Inr json_null else marshal_raw raw) (\<lambda>v.
     bind_err (compact_values m) (\<lambda>kvs. Inr ((escape_string k, v) # kvs)))"

definition marshal_map :: "raw_map \<Rightarrow> marshal_error + bytes" where
  "marshal_map m = bind_err (compact_values (sort_key fst m)) (\<lambda>kvs. Inr (render (mk_object kvs)))"

text \<open>The value of an expression whose error is discarded.\<close>

definition or_nil :: "marshal_error + bytes \<Rightarrow> bytes" where
  "or_nil r = (case r of Inl _ \<Rightarrow> [] | Inr s \<Rightarrow> s)"

section \<open>What a reader sees of a compacted value\<close>

lemma compact_null [simp]: "compact v = json_null \<longleftrightarrow> v = json_null"
  by (cases v) (simp_all add: json_null_def)

lemma distinct_keys_compact [simp]:
  "wf_json v \<Longrightarrow> distinct_keys (compact v) = distinct_keys v"
  "wf_items is \<Longrightarrow> distinct_items (compact_items is) = distinct_items is"
  "wf_members ms \<Longrightarrow> distinct_members (compact_members ms) = distinct_members ms"
  by (induction v and "is" and ms) (simp_all add: members_list_compact comp_def case_prod_beta)

lemma compact_parse: "wf_json v \<Longrightarrow> jdepth v \<le> maxNestingDepth \<Longrightarrow> json_parse (render (compact v)) = Some (compact v)"
  by (rule json_parse_render) (simp_all add: compact_wf)

lemma unmarshal_string_compact:
  assumes "json_parse raw = Some v" "json_parse raw' = Some (compact v)"
  shows "unmarshal_string raw' = unmarshal_string raw"
proof -
  have "wf_json v" using assms(1) by (simp add: json_parse_iff)
  with assms show ?thesis by (cases v) (simp_all add: unmarshal_string_def html_escape_unquoted json_null_def)
qed

text \<open>The value of a raw message.\<close>

definition parsed :: "bytes \<Rightarrow> jval" where
  "parsed raw = (case json_parse raw of None \<Rightarrow> json_null | Some v \<Rightarrow> v)"

lemma parsed_Some [simp]: "json_parse raw = Some v \<Longrightarrow> parsed raw = v"
  by (simp add: parsed_def)

section \<open>Reading a marshalled map\<close>

lemma compact_values_ok:
  assumes "\<forall>(k, raw)\<in>set m. utf8_Valid k \<and> value_fits n raw"
  obtains kvs where "compact_values m = Inr kvs"
    "map (\<lambda>(k, v). (unquoted k, v)) kvs = map (\<lambda>(k, raw). (k, compact (parsed raw))) m"
    "list_all (\<lambda>(k, v). string_ok k \<and> wf_json v \<and> jdepth v + n \<le> maxNestingDepth) kvs"
proof -
  have "\<exists>kvs. compact_values m = Inr kvs \<and>
      map (\<lambda>(k, v). (unquoted k, v)) kvs = map (\<lambda>(k, raw). (k, compact (parsed raw))) m \<and>
      list_all (\<lambda>(k, v). string_ok k \<and> wf_json v \<and> jdepth v + n \<le> maxNestingDepth) kvs"
    using assms
  proof (induction m)
    case (Cons kr m)
    obtain k raw where kr: "kr = (k, raw)" by fastforce
    from Cons kr obtain kvs where kvs: "compact_values m = Inr kvs"
      "map (\<lambda>(k, v). (unquoted k, v)) kvs = map (\<lambda>(k, raw). (k, compact (parsed raw))) m"
      "list_all (\<lambda>(k, v). string_ok k \<and> wf_json v \<and> jdepth v + n \<le> maxNestingDepth) kvs" by auto
    from Cons.prems kr obtain v where v: "json_parse raw = Some v" "jdepth v + n \<le> maxNestingDepth" and k: "utf8_Valid k"
      by (auto simp: value_fits_def)
    have "json_parse [] = None" by code_simp
    with v(1) have "raw \<noteq> []" by force
    from v(1) have "wf_json v" by (simp add: json_parse_iff)
    with kr kvs v k \<open>raw \<noteq> []\<close> show ?case
      using writes_string_ok [OF writes_escape_string [OF k]] writes_unquoted [OF writes_escape_string [OF k]]
      by (intro exI [of _ "(escape_string k, compact v) # kvs"]) (simp add: marshal_raw_def compact_wf)
  qed simp
  with that show ?thesis by blast
qed

lemma marshal_map_ok:
  assumes "map_fits n m" "0 < n" "n \<le> maxNestingDepth"
  obtains ms where "marshal_map m = Inr (render (JObject [] ms))" "json_parse (render (JObject [] ms)) = Some (JObject [] ms)"
    "members_list ms = map (\<lambda>(k, raw). (k, compact (parsed raw))) (sort_key fst m)"
    "jdepth (JObject [] ms) + n \<le> Suc maxNestingDepth"
proof -
  have "\<forall>(k, raw)\<in>set (sort_key fst m). utf8_Valid k \<and> value_fits n raw"
    using assms(1) by (auto simp: map_fits_def value_fits_def)
  then obtain kvs where kvs: "compact_values (sort_key fst m) = Inr kvs"
    "map (\<lambda>(k, v). (unquoted k, v)) kvs = map (\<lambda>(k, raw). (k, compact (parsed raw))) (sort_key fst m)"
    "list_all (\<lambda>(k, v). string_ok k \<and> wf_json v \<and> jdepth v + n \<le> maxNestingDepth) kvs"
    by (rule compact_values_ok)
  from kvs(3) have "list_all (\<lambda>(k, v). string_ok k \<and> wf_json v \<and> jdepth v < maxNestingDepth) kvs"
    and d: "list_all (\<lambda>(k, v). jdepth v + n \<le> maxNestingDepth) kvs"
    using assms(2) by (auto simp: list_all_iff)
  from json_parse_mk_object [OF this(1)] mk_members_depth_le [OF d assms(3)] kvs show ?thesis
    by (intro that [of "mk_members kvs"]) (simp_all add: marshal_map_def mk_object_def members_list_mk)
qed

lemma sorted_keys: "distinct (map fst m) \<Longrightarrow> distinct (map fst (sort_key fst m))"
  by (metis distinct_map distinct_sort set_sort)

text \<open>The map a reader gets from an object that was built from a map, each value transformed by \<open>f\<close>.\<close>

lemma object_map_built:
  assumes "members_list ms = map (\<lambda>(k, raw). (k, f (parsed raw))) (sort_key fst m)" "distinct (map fst m)"
  shows "map_of (object_map ms) k = map_option (\<lambda>raw. render (f (parsed raw))) (map_of m k)"
    and "set (map fst (object_map ms)) = set (map fst m)"
    and "distinct (map fst (members_list ms))"
proof -
  show d: "distinct (map fst (members_list ms))"
    unfolding assms(1) using sorted_keys [OF assms(2)] by (simp add: comp_def case_prod_beta)
  show "map_of (object_map ms) k = map_option (\<lambda>raw. render (f (parsed raw))) (map_of m k)"
    unfolding map_of_object_map_distinct [OF d] assms(1)
    by (simp add: map_of_map_values map_of_sort_key [OF assms(2)] option.map_comp comp_def)
  show "set (map fst (object_map ms)) = set (map fst m)"
    unfolding object_map_keys assms(1) by force
qed

lemma case_unique_iff: "distinct (map fst p) \<Longrightarrow> checkCaseUnique p = Inr () \<longleftrightarrow> inj_on foldKey (set (map fst p))"
  unfolding checkCaseUnique_ok distinct_map [of foldKey] by simp


section \<open>Maps that read cleanly\<close>

text \<open>
  A map whose values a reader accepts \<open>n\<close> levels below the top: no object in them names a key twice
  and they nest no deeper than the limit.
\<close>

definition clean :: "nat \<Rightarrow> bytes \<Rightarrow> bool" where
  "clean n raw \<longleftrightarrow> (\<exists>v. json_parse raw = Some v \<and> distinct_keys v \<and> jdepth v + n \<le> MaxParamsDepth)"

definition clean_map :: "nat \<Rightarrow> raw_map \<Rightarrow> bool" where
  "clean_map n m \<longleftrightarrow> distinct (map fst m) \<and> (\<forall>k raw. map_of m k = Some raw \<longrightarrow> utf8_Valid k \<and> clean n raw)"

lemma clean_map_Nil [simp]: "clean_map n []"
  by (simp add: clean_map_def)

lemma clean_map_update: "clean_map n m \<Longrightarrow> utf8_Valid k \<Longrightarrow> clean n raw \<Longrightarrow> clean_map n (AList.update k raw m)"
  by (auto simp: clean_map_def distinct_update update_conv')

lemma MaxParamsDepth_below: "MaxParamsDepth < maxNestingDepth"
  by (simp add: MaxParamsDepth_def maxNestingDepth_def)

lemma clean_map_fits: "clean_map n m \<Longrightarrow> map_fits n m"
  unfolding clean_map_def map_fits_iff value_fits_def clean_def using MaxParamsDepth_below by fastforce

lemma distinct_members_list: "distinct_members ms \<longleftrightarrow> (\<forall>v\<in>snd ` set (members_list ms). distinct_keys v)"
  by (induction ms rule: members_list.induct) auto

lemma depth_members_list: "jdepth_members ms \<le> n \<longleftrightarrow> (\<forall>v\<in>snd ` set (members_list ms). jdepth v \<le> n)"
  by (induction ms rule: members_list.induct) auto

lemma clean_object:
  assumes "json_parse raw = Some (JObject w ms)" "clean n raw"
  shows "clean_map (Suc n) (object_map ms)"
  unfolding clean_map_def
proof (intro conjI allI impI)
  show "distinct (map fst (object_map ms))" by (rule object_map_distinct)
  fix k r
  assume "map_of (object_map ms) k = Some r"
  then obtain v where v: "(k, v) \<in> set (members_list ms)" "r = render v"
    unfolding map_of_object_map by (auto dest!: map_of_SomeD)
  show "utf8_Valid k" by (rule members_list_keys [OF v(1)])
  from assms have "distinct_members ms" "Suc (jdepth_members ms) + n \<le> MaxParamsDepth" by (auto simp: clean_def)
  then have "distinct_keys v" "jdepth v + Suc n \<le> MaxParamsDepth"
    using distinct_keys_member [OF _ v(1)] jdepth_members_list [OF v(1)] by auto
  with json_parse_member [OF assms(1) v(1)] v(2) show "clean (Suc n) r" by (auto simp: clean_def)
qed

lemma marshal_clean_map:
  assumes "clean_map (Suc n) m" "Suc n \<le> MaxParamsDepth"
  obtains ms where "marshal_map m = Inr (render (JObject [] ms))" "json_parse (render (JObject [] ms)) = Some (JObject [] ms)"
    "members_list ms = map (\<lambda>(k, raw). (k, compact (parsed raw))) (sort_key fst m)"
    "clean n (render (JObject [] ms))"
proof -
  have "Suc n \<le> maxNestingDepth" using assms(2) MaxParamsDepth_below by simp
  then obtain ms where ms: "marshal_map m = Inr (render (JObject [] ms))" "json_parse (render (JObject [] ms)) = Some (JObject [] ms)"
    "members_list ms = map (\<lambda>(k, raw). (k, compact (parsed raw))) (sort_key fst m)"
    by (rule marshal_map_ok [OF clean_map_fits [OF assms(1)] zero_less_Suc]) blast
  have d: "distinct (map fst m)" using assms(1) by (simp add: clean_map_def)
  have vals: "distinct_keys v \<and> jdepth v + Suc n \<le> MaxParamsDepth" if "v \<in> snd ` set (members_list ms)" for v
  proof -
    from that ms(3) obtain k raw where "(k, raw) \<in> set m" "v = compact (parsed raw)" by auto
    moreover from this(1) d assms(1) have "clean (Suc n) raw" by (auto simp: clean_map_def)
    ultimately obtain u where u: "json_parse raw = Some u" "distinct_keys u" "jdepth u + Suc n \<le> MaxParamsDepth" "v = compact u"
      by (auto simp: clean_def)
    from u(1) have "wf_json u" by (simp add: json_parse_iff)
    with u show ?thesis by simp
  qed
  have "jdepth_members ms \<le> MaxParamsDepth - Suc n" unfolding depth_members_list using vals by fastforce
  then have "Suc (jdepth_members ms) + n \<le> MaxParamsDepth" using assms(2) by simp
  moreover have "distinct_members ms" unfolding distinct_members_list using vals by blast
  moreover have "distinct (map fst (members_list ms))" by (rule object_map_built(3) [OF ms(3) d])
  ultimately have "clean n (render (JObject [] ms))" unfolding clean_def using ms(2) by auto
  with ms show ?thesis by (rule that)
qed

text \<open>What \<open>DecodeParams\<close> accepts is clean.\<close>

lemma first_byte_not_space: "\<forall>r\<in>set unicode_spaces. \<forall>c\<in>set (encode_rune r). byte c \<le> 0x20 \<or> 0x80 \<le> byte c"
  by (simp add: unicode_spaces_def encode_rune_def valid_rune_def)

end
