(* ===== verification/Legacy.thy ===== *)
theory Legacy
  imports HttpConn Mux MarshalMap
begin

text \<open>
  \<open>pkg/backend/legacy/compat.go\<close>: the bridge that presents a modern server over a legacy one.  The
  first half holds what it computes (the handshake, the synthesized answers, the fields it adds to
  results and removes from requests), the second its state and the steps that \<open>Write\<close>, \<open>Read\<close> and
  \<open>Close\<close> take, each an atomic action on the locked state or on the channel.
\<close>

section \<open>The handshake\<close>

record initResult =
  ir_Capabilities :: bytes
  ir_ServerInfo :: bytes
  ir_Instructions :: bytes

fun init_members :: "initResult \<Rightarrow> (bytes \<times> jval) list \<Rightarrow> initResult" where
  "init_members r [] = r"
| "init_members r ((k, v) # kvs) =
     init_members
       (case field_of [''capabilities'', ''serverInfo'', ''instructions''] k of
          None \<Rightarrow> r
        | Some f \<Rightarrow>
            if f = ''capabilities'' then r\<lparr>ir_Capabilities := render v\<rparr>
            else if f = ''serverInfo'' then r\<lparr>ir_ServerInfo := render v\<rparr>
            else r\<lparr>ir_Instructions := render v\<rparr>) kvs"

definition unmarshal_init :: "bytes option \<Rightarrow> unmarshal_error + initResult" where
  "unmarshal_init raw =
     (let zero = \<lparr>ir_Capabilities = [], ir_ServerInfo = [], ir_Instructions = []\<rparr> in
      case json_parse (case raw of None \<Rightarrow> [] | Some r \<Rightarrow> r) of
        None \<Rightarrow> Inl SyntaxError
      | Some v \<Rightarrow>
          if v = json_null then Inr zero
          else (case v of
                  JObject w ms \<Rightarrow> Inr (init_members zero (members_list ms))
                | _ \<Rightarrow> Inl UnmarshalTypeError))"

definition initialize_params :: bytes where
  "initialize_params =
     render (mk_object
       [(''capabilities'', mk_object []),
        (''clientInfo'', mk_object [(''name'', marshal_string ''natsmcp-gateway''), (''version'', marshal_string ''1.0'')]),
        (''protocolVersion'', marshal_string LegacyProtocolVersion)])"

definition initialize_request :: message where
  "initialize_request = NewRequest ''natsmcp-init'' MethodInitialize (Some initialize_params)"

datatype handshake_error = HandshakeRead bytes | HandshakeWrite bytes | InitializeRejected rpc_error | BadInitializeResult

text \<open>
  The loop over what the inner connection reads, with what was written so far; \<open>wr\<close> is the answer of
  the connection to a write, its error or \<open>None\<close>.  No result means that it still waits.
\<close>

fun handshake_loop ::
    "(message list \<Rightarrow> message \<Rightarrow> bytes option) \<Rightarrow> (bytes + message) list \<Rightarrow> message list
     \<Rightarrow> ((handshake_error + initResult) \<times> message list) option" where
  "handshake_loop wr [] sent = None"
| "handshake_loop wr (r # rs) sent =
     (case r of
        Inl e \<Rightarrow> Some (Inl (HandshakeRead e), sent)
      | Inr msg \<Rightarrow>
          if Kind msg = KindRequest then
            (let reply = NewErrorResponse (ID msg) CodeMethodNotFound MsgServerInitiatedUnsupported None in
             case wr sent reply of
               Some e \<Rightarrow> Some (Inl (HandshakeWrite e), sent)
             | None \<Rightarrow> handshake_loop wr rs (sent @ [reply]))
          else if Kind msg \<noteq> KindResponse \<or> IDKey msg \<noteq> IDKey initialize_request then
            handshake_loop wr rs sent
          else
            (case Error msg of
               Some e \<Rightarrow> Some (Inl (InitializeRejected e), sent)
             | None \<Rightarrow>
                 (case unmarshal_init (Result msg) of
                    Inl _ \<Rightarrow> Some (Inl BadInitializeResult, sent)
                  | Inr init \<Rightarrow>
                      let initialized = NewNotification NotifInitialized None in
                      (case wr sent initialized of
                         Some e \<Rightarrow> Some (Inl (HandshakeWrite e), sent)
                       | None \<Rightarrow> Some (Inr init, sent @ [initialized])))))"

definition handshake ::
    "(message list \<Rightarrow> message \<Rightarrow> bytes option) \<Rightarrow> (bytes + message) list
     \<Rightarrow> ((handshake_error + initResult) \<times> message list) option" where
  "handshake wr rs =
     (case wr [] initialize_request of
        Some e \<Rightarrow> Some (Inl (HandshakeWrite e), [])
      | None \<Rightarrow> handshake_loop wr rs [initialize_request])"

section \<open>What the bridge synthesizes\<close>

definition orEmpty :: "bytes \<Rightarrow> bytes" where
  "orEmpty raw = (if length raw = 0 \<or> strings_TrimSpace raw = ''null'' then ''{}'' else raw)"

text \<open>The configuration of a bridge, its defaults filled in as \<open>Connect\<close> does.\<close>

record bridge =
  br_init :: initResult
  br_ttlMs :: int
  br_cacheScope :: bytes

definition legacy_Connect :: "int \<Rightarrow> bytes \<Rightarrow> initResult \<Rightarrow> bridge" where
  "legacy_Connect ttl scope init =
     \<lparr>br_init = init, br_ttlMs = (if ttl \<le> 0 then 300000 else ttl),
      br_cacheScope = (if scope = [] then CacheScopePrivate else scope)\<rparr>"

definition discover_result :: "bridge \<Rightarrow> marshal_error + bytes" where
  "discover_result b =
     bind_err (marshal_raw (orEmpty (ir_ServerInfo (br_init b)))) (\<lambda>info.
     bind_err (marshal_raw (orEmpty (ir_Capabilities (br_init b)))) (\<lambda>caps.
     bind_err
       (if ir_Instructions (br_init b) = [] then Inr []
        else bind_err (marshal_raw (ir_Instructions (br_init b))) (\<lambda>v. Inr [(''instructions'', v)])) (\<lambda>instr.
     Inr (render (mk_object (
       [(''_meta'', mk_object [(escape_string MetaServerInfo, info)]),
        (''cacheScope'', marshal_string (br_cacheScope b)),
        (''capabilities'', caps)] @ instr @
       [(''resultType'', marshal_string ResultTypeComplete),
        (''supportedVersions'', JArray [] (plain_items (map marshal_string SupportedProtocolVersions))),
        (''ttlMs'', marshal_int (br_ttlMs b))]))))))"

record listenFilter =
  lf_Tools :: bool
  lf_Prompts :: bool
  lf_Resources :: bool

definition zero_filter :: listenFilter where
  "zero_filter = \<lparr>lf_Tools = False, lf_Prompts = False, lf_Resources = False\<rparr>"

definition into_bool :: "bool \<Rightarrow> jval \<Rightarrow> bool" where
  "into_bool old v =
     (case v of
        JScalar t \<Rightarrow> if t = ''true'' then True else if t = ''false'' then False else old
      | _ \<Rightarrow> old)"

fun filter_members :: "listenFilter \<Rightarrow> (bytes \<times> jval) list \<Rightarrow> listenFilter" where
  "filter_members f [] = f"
| "filter_members f ((k, v) # kvs) =
     filter_members
       (case field_of [''toolsListChanged'', ''promptsListChanged'', ''resourcesListChanged''] k of
          None \<Rightarrow> f
        | Some n \<Rightarrow>
            if n = ''toolsListChanged'' then f\<lparr>lf_Tools := into_bool (lf_Tools f) v\<rparr>
            else if n = ''promptsListChanged'' then f\<lparr>lf_Prompts := into_bool (lf_Prompts f) v\<rparr>
            else f\<lparr>lf_Resources := into_bool (lf_Resources f) v\<rparr>) kvs"

fun listen_members :: "listenFilter \<Rightarrow> (bytes \<times> jval) list \<Rightarrow> listenFilter" where
  "listen_members f [] = f"
| "listen_members f ((k, v) # kvs) =
     listen_members
       (case field_of [''notifications''] k of
          None \<Rightarrow> f
        | Some _ \<Rightarrow> (case v of JObject w ms \<Rightarrow> filter_members f (members_list ms) | _ \<Rightarrow> f)) kvs"

definition object_members :: "bytes option \<Rightarrow> (bytes \<times> jval) list" where
  "object_members raw =
     (case json_parse (case raw of None \<Rightarrow> [] | Some r \<Rightarrow> r) of
        Some (JObject w ms) \<Rightarrow> members_list ms
      | _ \<Rightarrow> [])"

definition listen_filter :: "message \<Rightarrow> listenFilter" where
  "listen_filter msg = listen_members zero_filter (object_members (msg_params msg))"

definition subscription_meta :: "bytes \<Rightarrow> marshal_error + jval" where
  "subscription_meta idKey =
     bind_err (marshal_raw idKey) (\<lambda>v. Inr (mk_object [(escape_string MetaSubscriptionID, v)]))"

definition ackFor :: "bytes \<Rightarrow> listenFilter \<Rightarrow> message" where
  "ackFor idKey f =
     (let honored =
        (if lf_Prompts f then [(''promptsListChanged'', JScalar ''true'')] else []) @
        (if lf_Resources f then [(''resourcesListChanged'', JScalar ''true'')] else []) @
        (if lf_Tools f then [(''toolsListChanged'', JScalar ''true'')] else [])
      in NewNotification NotifSubscriptionsAcknowledged
           (case subscription_meta idKey of
              Inl _ \<Rightarrow> None
            | Inr meta \<Rightarrow> Some (render (mk_object [(''_meta'', meta), (''notifications'', mk_object honored)]))))"

definition closure_for :: "bytes \<Rightarrow> message option" where
  "closure_for idKey =
     (case subscription_meta idKey of
        Inl _ \<Rightarrow> None
      | Inr meta \<Rightarrow>
          Some (NewResponse (Some idKey)
            (Some (render (mk_object [(''_meta'', meta), (''resultType'', marshal_string ResultTypeComplete)])))))"

section \<open>Filling in results, cleaning requests\<close>

text \<open>
  \<open>strconv.Quote\<close>, for printable ASCII; the strings quoted are constants of the specification and
  the configured cache scope, which the configuration restricts to two of them.
\<close>

fun quote_bytes :: "bytes \<Rightarrow> bytes" where
  "quote_bytes [] = []"
| "quote_bytes (c # s) = (if c = CHR 0x22 \<or> c = CHR 0x5C then [CHR 0x5C, c] else [c]) @ quote_bytes s"

definition strconv_Quote :: "bytes \<Rightarrow> bytes" where
  "strconv_Quote s = CHR 0x22 # quote_bytes s @ [CHR 0x22]"

definition spliceFields :: "bytes \<Rightarrow> bytes list \<Rightarrow> bool \<Rightarrow> bytes option" where
  "spliceFields raw fs is_empty =
     (let ws = takeWhile json_ws raw; rest = dropWhile json_ws raw in
      case rest of
        [] \<Rightarrow> None
      | c # after \<Rightarrow>
          if c \<noteq> CHR ''{'' then None
          else Some (ws @ c # strings_Join fs '','' @ (if is_empty then [] else '','') @ after))"

definition ttlMsFor :: "bridge \<Rightarrow> bytes \<Rightarrow> int" where
  "ttlMsFor b method = (if method = MethodResourcesRead then 0 else br_ttlMs b)"

definition additions :: "bridge \<Rightarrow> raw_map \<Rightarrow> bytes option \<Rightarrow> bytes list" where
  "additions b obj method =
     (let add = (\<lambda>k v. if map_of obj k = None then [strconv_Quote k @ '':'' @ v] else []) in
      add ''resultType'' (strconv_Quote ResultTypeComplete) @
      (case method of
         None \<Rightarrow> []
       | Some m \<Rightarrow> add ''ttlMs'' (itoa (ttlMsFor b m)) @ add ''cacheScope'' (strconv_Quote (br_cacheScope b))))"

text \<open>\<open>stampResult\<close> after it has retired the entry of the request; \<open>method\<close> is that entry.\<close>

definition stamp :: "bridge \<Rightarrow> bytes option \<Rightarrow> message \<Rightarrow> message" where
  "stamp b method msg =
     (case Result msg of
        None \<Rightarrow> msg
      | Some result \<Rightarrow>
          if Error msg \<noteq> None \<or> length result = 0 then msg
          else
            (case unmarshal_map result of
               Inl _ \<Rightarrow> msg
             | Inr None \<Rightarrow> msg
             | Inr (Some obj) \<Rightarrow>
                 let adds = additions b obj method in
                 if length adds = 0 then msg
                 else (case spliceFields result adds (length obj = 0) of
                         None \<Rightarrow> msg
                       | Some spliced \<Rightarrow> msg\<lparr>Result := Some spliced\<rparr>)))"

definition modern_prefix :: bytes where
  "modern_prefix = ''io.modelcontextprotocol/''"

definition stripModernMeta :: "message \<Rightarrow> message" where
  "stripModernMeta msg =
     (case msg_params msg of
        None \<Rightarrow> msg
      | Some raw \<Rightarrow>
          if length raw = 0 then msg
          else
            (case unmarshal_map raw of
               Inr (Some ps) \<Rightarrow>
                 (case map_of ps ''_meta'' of
                    None \<Rightarrow> msg
                  | Some rawMeta \<Rightarrow>
                      (case unmarshal_map rawMeta of
                         Inr (Some meta) \<Rightarrow>
                           let meta' = filter (\<lambda>(k, v). \<not> strings_HasPrefix k modern_prefix) meta in
                           if length meta' = length meta then msg
                           else
                             let ps' = (if length meta' = 0 then AList.delete ''_meta'' ps
                                        else AList.update ''_meta'' (or_nil (marshal_map meta')) ps)
                             in NewNotification (Method msg) (Some (or_nil (marshal_map ps')))\<lparr>ID := ID msg\<rparr>
                       | _ \<Rightarrow> msg))
             | _ \<Rightarrow> msg))"

text \<open>
  The notification a legacy \<open>list_changed\<close> becomes on the stream of one subscription.  Unmarshalling
  \<open>null\<close> into a map leaves a nil map, and a Go program panics when it assigns into one: \<open>None\<close> is that
  map in \<open>merged_map\<close> and that panic in \<open>fanned_out\<close>.
\<close>

definition merged_map :: "bytes option \<Rightarrow> raw_map option" where
  "merged_map raw =
     (case raw of
        None \<Rightarrow> Some []
      | Some r \<Rightarrow> (case unmarshal_map r of Inl _ \<Rightarrow> Some [] | Inr m \<Rightarrow> m))"

definition fanned_out :: "message \<Rightarrow> bytes \<Rightarrow> message option" where
  "fanned_out msg i =
     (let raw = (case msg_params msg of None \<Rightarrow> None | Some r \<Rightarrow> if r = [] then None else Some r) in
      case merged_map raw of
        None \<Rightarrow> None
      | Some ps \<Rightarrow>
          (case merged_map (map_of ps ''_meta'') of
             None \<Rightarrow> None
           | Some meta \<Rightarrow>
               let metaRaw = or_nil (marshal_map (AList.update MetaSubscriptionID i meta)) in
               Some (NewNotification (Method msg)
                 (Some (or_nil (marshal_map (AList.update ''_meta'' metaRaw ps)))))))"

definition wants :: "bytes \<Rightarrow> (listenFilter \<Rightarrow> bool) option" where
  "wants method =
     (if method = NotifToolsListChanged then Some lf_Tools
      else if method = NotifPromptsListChanged then Some lf_Prompts
      else if method = NotifResourcesListChanged then Some lf_Resources
      else None)"

section \<open>The connection\<close>

text \<open>
  What the queues hold.  The tag says what a synthesized message is, and for which subscription; the
  code has only the message.
\<close>

datatype tag = TDiscover | TAck bytes | TChanged bytes | TClosed bytes | TInner

type_synonym tagged = "tag \<times> message"

datatype read_pc = RStart | RQueue | RInner | RErr bytes bool | RPanic | RFan message "bytes list" "tagged list"

datatype delivered = Out tagged | OutError bytes

record lconn =
  lc_bridge :: bridge
  lc_synth :: "tagged list"
  lc_listeners :: "(bytes \<times> listenFilter) list"
  lc_pending :: "(bytes \<times> bytes) list"
  lc_queued :: "tagged list"
  lc_deferErr :: "bytes option"
  lc_closed :: bool
  lc_acking :: "(bytes \<times> listenFilter) list"
  lc_pc :: read_pc
  lc_out :: "delivered list"
  lc_inner :: "message list"

definition synthCap :: nat where
  "synthCap = 16"

text \<open>\<open>Write\<close> of a discover request: the answer goes on \<open>synth\<close>, when there is room.\<close>

definition write_discover :: "message \<Rightarrow> lconn \<Rightarrow> lconn option" where
  "write_discover msg c =
     (case discover_result (lc_bridge c) of
        Inl _ \<Rightarrow> None
      | Inr raw \<Rightarrow>
          if length (lc_synth c) < synthCap
          then Some (c\<lparr>lc_synth := lc_synth c @ [(TDiscover, NewResponse (ID msg) (Some raw))]\<rparr>) else None)"

text \<open>\<open>Write\<close> of a listen request, in two actions: the acknowledgment, and the registration.\<close>

definition write_listen_ack :: "message \<Rightarrow> lconn \<Rightarrow> lconn option" where
  "write_listen_ack msg c =
     (if length (lc_synth c) < synthCap
      then Some (c\<lparr>lc_synth := lc_synth c @ [(TAck (IDKey msg), ackFor (IDKey msg) (listen_filter msg))],
                   lc_acking := lc_acking c @ [(IDKey msg, listen_filter msg)]\<rparr>)
      else None)"

definition write_listen_register :: "lconn \<Rightarrow> lconn option" where
  "write_listen_register c =
     (case lc_acking c of
        [] \<Rightarrow> None
      | (k, f) # rest \<Rightarrow>
          if lc_closed c then Some (c\<lparr>lc_acking := rest\<rparr>)
          else Some (c\<lparr>lc_acking := rest, lc_listeners := AList.update k f (lc_listeners c)\<rparr>))"

fun cancel_id :: "bytes \<Rightarrow> (bytes \<times> jval) list \<Rightarrow> bytes" where
  "cancel_id i [] = i"
| "cancel_id i ((k, v) # kvs) =
     cancel_id (case field_of [''requestId''] k of None \<Rightarrow> i | Some _ \<Rightarrow> render v) kvs"

text \<open>\<open>Write\<close> of a cancellation: ours when it names a subscription.\<close>

definition write_cancelled :: "message \<Rightarrow> lconn \<Rightarrow> lconn" where
  "write_cancelled msg c =
     (let k = cancel_id [] (object_members (msg_params msg));
          c' = c\<lparr>lc_listeners := AList.delete k (lc_listeners c), lc_pending := AList.delete k (lc_pending c)\<rparr>
      in if map_of (lc_listeners c) k \<noteq> None then c' else c'\<lparr>lc_inner := lc_inner c' @ [msg]\<rparr>)"

text \<open>Any other \<open>Write\<close>; \<open>failed\<close> says whether the inner connection refused it.\<close>

definition write_default :: "bool \<Rightarrow> message \<Rightarrow> lconn \<Rightarrow> lconn" where
  "write_default failed msg c =
     (let tracked = Kind msg = KindRequest \<and> IsCacheableMethod (Method msg);
          c1 = (if tracked then c\<lparr>lc_pending := AList.update (IDKey msg) (Method msg) (lc_pending c)\<rparr> else c);
          msg' = (if Kind msg = KindRequest then stripModernMeta msg else msg)
      in if failed then (if tracked then c1\<lparr>lc_pending := AList.delete (IDKey msg) (lc_pending c1)\<rparr> else c1)
         else c1\<lparr>lc_inner := lc_inner c1 @ [msg']\<rparr>)"

definition legacy_Close :: "lconn \<Rightarrow> lconn" where
  "legacy_Close c =
     (if lc_closed c then c
      else
        c\<lparr>lc_closed := True, lc_listeners := [],
          lc_queued := lc_queued c @
            concat (map (\<lambda>(k, f). case closure_for k of None \<Rightarrow> [] | Some m \<Rightarrow> [(TClosed k, m)]) (lc_listeners c))\<rparr>)"

text \<open>The actions of \<open>Read\<close>, by where it stands.\<close>

definition read_synth :: "lconn \<Rightarrow> lconn option" where
  "read_synth c =
     (case lc_synth c of
        [] \<Rightarrow> None
      | m # rest \<Rightarrow>
          if lc_pc c \<in> {RStart, RInner}
          then Some (c\<lparr>lc_synth := rest, lc_out := lc_out c @ [Out m], lc_pc := RStart\<rparr>) else None)"

definition read_synth_empty :: "lconn \<Rightarrow> lconn option" where
  "read_synth_empty c =
     (if lc_pc c = RStart \<and> lc_synth c = [] then Some (c\<lparr>lc_pc := RQueue\<rparr>) else None)"

definition read_queue :: "lconn \<Rightarrow> lconn option" where
  "read_queue c =
     (if lc_pc c \<noteq> RQueue then None
      else
        (case lc_queued c of
           m # rest \<Rightarrow> Some (c\<lparr>lc_queued := rest, lc_out := lc_out c @ [Out m], lc_pc := RStart\<rparr>)
         | [] \<Rightarrow>
             (case lc_deferErr c of
                Some e \<Rightarrow> Some (c\<lparr>lc_deferErr := None, lc_out := lc_out c @ [OutError e], lc_pc := RStart\<rparr>)
              | None \<Rightarrow> Some (c\<lparr>lc_pc := RInner\<rparr>))))"

definition withholdErr :: "bytes \<Rightarrow> lconn \<Rightarrow> lconn" where
  "withholdErr e c = (if lc_deferErr c = None then c\<lparr>lc_deferErr := Some e\<rparr> else c)"

text \<open>An error of the inner read, in two actions: whether anything is queued, and what to do then.\<close>

definition read_inner_error :: "bytes \<Rightarrow> lconn \<Rightarrow> lconn option" where
  "read_inner_error e c =
     (if lc_pc c \<noteq> RInner then None else Some (c\<lparr>lc_pc := RErr e (lc_queued c \<noteq> [])\<rparr>))"

definition read_error_out :: "lconn \<Rightarrow> lconn option" where
  "read_error_out c =
     (case lc_pc c of
        RErr e pendingQueued \<Rightarrow>
          (case lc_synth c of
             m # rest \<Rightarrow>
               Some ((withholdErr e c)\<lparr>lc_synth := rest, lc_out := lc_out c @ [Out m], lc_pc := RStart\<rparr>)
           | [] \<Rightarrow>
               if pendingQueued then Some ((withholdErr e c)\<lparr>lc_pc := RStart\<rparr>)
               else Some (c\<lparr>lc_out := lc_out c @ [OutError e], lc_pc := RStart\<rparr>))
      | _ \<Rightarrow> None)"

definition stampResult :: "message \<Rightarrow> lconn \<Rightarrow> message \<times> lconn" where
  "stampResult msg c =
     (stamp (lc_bridge c) (map_of (lc_pending c) (IDKey msg)) msg,
      c\<lparr>lc_pending := AList.delete (IDKey msg) (lc_pending c)\<rparr>)"

definition read_inner_msg :: "message \<Rightarrow> lconn \<Rightarrow> lconn option" where
  "read_inner_msg msg c =
     (if lc_pc c \<noteq> RInner then None
      else if Kind msg = KindNotification then
        (case wants (Method msg) of
           None \<Rightarrow> Some (c\<lparr>lc_out := lc_out c @ [Out (TInner, msg)], lc_pc := RStart\<rparr>)
         | Some want \<Rightarrow>
             Some (c\<lparr>lc_pc := RFan msg (map fst (filter (\<lambda>(k, f). want f) (lc_listeners c))) []\<rparr>))
      else if Kind msg = KindResponse then
        (case stampResult msg c of
           (m, c') \<Rightarrow> Some (c'\<lparr>lc_out := lc_out c' @ [Out (TInner, m)], lc_pc := RStart\<rparr>))
      else Some (c\<lparr>lc_out := lc_out c @ [Out (TInner, msg)], lc_pc := RStart\<rparr>))"

definition fan_step :: "lconn \<Rightarrow> lconn option" where
  "fan_step c =
     (case lc_pc c of
        RFan msg ids overflow \<Rightarrow>
          (case ids of
             i # rest \<Rightarrow>
               (case fanned_out msg i of
                  None \<Rightarrow> Some (c\<lparr>lc_pc := RPanic\<rparr>)
                | Some out \<Rightarrow>
                    if length (lc_synth c) < synthCap
                    then Some (c\<lparr>lc_synth := lc_synth c @ [(TChanged i, out)], lc_pc := RFan msg rest overflow\<rparr>)
                    else Some (c\<lparr>lc_pc := RFan msg rest (overflow @ [(TChanged i, out)])\<rparr>))
           | [] \<Rightarrow> Some (c\<lparr>lc_queued := lc_queued c @ overflow, lc_pc := RStart\<rparr>))
      | _ \<Rightarrow> None)"

inductive lstep :: "lconn \<Rightarrow> lconn \<Rightarrow> bool" where
  l_discover: "write_discover msg c = Some c' \<Longrightarrow> lstep c c'"
| l_ack: "write_listen_ack msg c = Some c' \<Longrightarrow> lstep c c'"
| l_register: "write_listen_register c = Some c' \<Longrightarrow> lstep c c'"
| l_cancelled: "lstep c (write_cancelled msg c)"
| l_default: "lstep c (write_default failed msg c)"
| l_close: "lstep c (legacy_Close c)"
| l_synth: "read_synth c = Some c' \<Longrightarrow> lstep c c'"
| l_synth_empty: "read_synth_empty c = Some c' \<Longrightarrow> lstep c c'"
| l_queue: "read_queue c = Some c' \<Longrightarrow> lstep c c'"
| l_inner_error: "read_inner_error e c = Some c' \<Longrightarrow> lstep c c'"
| l_error_out: "read_error_out c = Some c' \<Longrightarrow> lstep c c'"
| l_inner_msg: "read_inner_msg msg c = Some c' \<Longrightarrow> lstep c c'"
| l_fan: "fan_step c = Some c' \<Longrightarrow> lstep c c'"

definition legacy_conn :: "bridge \<Rightarrow> lconn" where
  "legacy_conn b =
     \<lparr>lc_bridge = b, lc_synth = [], lc_listeners = [], lc_pending = [], lc_queued = [], lc_deferErr = None,
      lc_closed = False, lc_acking = [], lc_pc = RStart, lc_out = [], lc_inner = []\<rparr>"

definition lreachable :: "bridge \<Rightarrow> lconn \<Rightarrow> bool" where
  "lreachable b c = lstep\<^sup>*\<^sup>* (legacy_conn b) c"

section \<open>An acknowledgment comes first\<close>

definition acks :: "tag list \<Rightarrow> bytes set" where
  "acks ts = {k. TAck k \<in> set ts}"

definition changed :: "tag list \<Rightarrow> bytes set" where
  "changed ts = {k. TChanged k \<in> set ts}"

lemma tags_simps [simp]:
  "acks [] = {}" "acks (ts @ us) = acks ts \<union> acks us" "acks (t # ts) = (case t of TAck k \<Rightarrow> {k} | _ \<Rightarrow> {}) \<union> acks ts"
  "changed [] = {}" "changed (ts @ us) = changed ts \<union> changed us"
  "changed (t # ts) = (case t of TChanged k \<Rightarrow> {k} | _ \<Rightarrow> {}) \<union> changed ts"
  by (auto simp: acks_def changed_def split: tag.splits)

text \<open>Every change notification stands behind an acknowledgment for the same subscription.\<close>

fun ack_first :: "bytes set \<Rightarrow> tag list \<Rightarrow> bool" where
  "ack_first A [] = True"
| "ack_first A (t # ts) =
     (case t of
        TAck k \<Rightarrow> ack_first (insert k A) ts
      | TChanged k \<Rightarrow> k \<in> A \<and> ack_first A ts
      | _ \<Rightarrow> ack_first A ts)"

lemma ack_first_append: "ack_first A (ts @ us) \<longleftrightarrow> ack_first A ts \<and> ack_first (A \<union> acks ts) us"
  by (induction A ts rule: ack_first.induct) (auto split: tag.splits)

lemma ack_first_mono: "ack_first A ts \<Longrightarrow> A \<subseteq> B \<Longrightarrow> ack_first B ts"
proof (induction ts arbitrary: A B)
  case (Cons t ts)
  then show ?case
    by (cases t) (auto dest: Cons.IH [of A B] Cons.IH [of "insert k A" "insert k B" for k])
qed simp

lemma ack_first_changed: "changed ts \<subseteq> A \<Longrightarrow> ack_first A ts"
  by (induction A ts rule: ack_first.induct) (auto split: tag.splits)

fun out_tags :: "delivered list \<Rightarrow> tag list" where
  "out_tags [] = []"
| "out_tags (d # ds) = (case d of Out (t, m) \<Rightarrow> t # out_tags ds | OutError e \<Rightarrow> out_tags ds)"

lemma out_tags_append [simp]: "out_tags (ds @ es) = out_tags ds @ out_tags es"
  by (induction ds rule: out_tags.induct) (auto split: delivered.splits)

definition given :: "lconn \<Rightarrow> tag list" where
  "given c = out_tags (lc_out c)"

definition coming :: "lconn \<Rightarrow> tag list" where
  "coming c = given c @ map fst (lc_synth c)"

definition keyset :: "(bytes \<times> 'v) list \<Rightarrow> bytes set" where
  "keyset m = fst ` set m"

lemma keyset_simps [simp]:
  "keyset [] = {}" "keyset (m @ m') = keyset m \<union> keyset m'" "keyset ((k, v) # m) = insert k (keyset m)"
  "keyset (AList.update k v m) = insert k (keyset m)"
  by (auto simp: keyset_def update_keys)

lemma keyset_delete: "keyset (AList.delete k m) \<subseteq> keyset m"
  by (auto simp: keyset_def delete_conv' AList.delete_eq)

lemma keyset_filter: "set (map fst (filter P m)) \<subseteq> keyset m"
  by (auto simp: keyset_def)

definition fan_keys :: "read_pc \<Rightarrow> bytes set" where
  "fan_keys pc = (case pc of RFan msg ids ov \<Rightarrow> set ids \<union> changed (map fst ov) | _ \<Rightarrow> {})"

lemmas conn_views = given_def coming_def fan_keys_def

text \<open>The subscriptions something is kept or under way for.\<close>

definition tracked :: "lconn \<Rightarrow> bytes set" where
  "tracked c =
     keyset (lc_listeners c) \<union> keyset (lc_acking c) \<union> changed (map fst (lc_queued c)) \<union> fan_keys (lc_pc c)"

definition ack_inv :: "lconn \<Rightarrow> bool" where
  "ack_inv c =
     (ack_first {} (coming c) \<and> tracked c \<subseteq> acks (coming c) \<and>
      (lc_pc c = RQueue \<longrightarrow> changed (map fst (lc_queued c)) \<subseteq> acks (given c)))"

lemma closures_tags:
  "changed (map fst (concat (map (\<lambda>(k, f). case closure_for k of None \<Rightarrow> [] | Some m \<Rightarrow> [(TClosed k, m)]) ls))) = {}"
  by (induction ls) (auto split: option.splits)

text \<open>Steps that put nothing in the queues to the client, and steps that put something on \<open>synth\<close>.\<close>

lemma ack_inv_quiet:
  assumes "ack_inv c" "lc_out c' = lc_out c" "lc_synth c' = lc_synth c" "tracked c' \<subseteq> tracked c"
    "lc_pc c' = RQueue \<Longrightarrow> lc_synth c = [] \<or>
       lc_pc c = RQueue \<and> changed (map fst (lc_queued c')) \<subseteq> changed (map fst (lc_queued c))"
  shows "ack_inv c'"
proof -
  have "coming c' = coming c" "given c' = given c" using assms(2,3) by (simp_all add: conn_views)
  note eq = this
  have q: "changed (map fst (lc_queued c')) \<subseteq> tracked c" using assms(4) by (auto simp: tracked_def)
  have t: "ack_first {} (coming c)" "tracked c \<subseteq> acks (coming c)" using assms(1) by (simp_all add: ack_inv_def)
  show ?thesis unfolding ack_inv_def eq
  proof (intro conjI impI)
    show "ack_first {} (coming c)" "tracked c' \<subseteq> acks (coming c)"
      using t subset_trans [OF assms(4) t(2)] by simp_all
    assume "lc_pc c' = RQueue"
    from assms(5) [OF this] show "changed (map fst (lc_queued c')) \<subseteq> acks (given c)"
    proof
      assume "lc_synth c = []"
      then have "coming c = given c" by (simp add: conn_views)
      with subset_trans [OF q t(2)] show ?thesis by simp
    next
      assume "lc_pc c = RQueue \<and> changed (map fst (lc_queued c')) \<subseteq> changed (map fst (lc_queued c))"
      with assms(1) show ?thesis by (auto simp: ack_inv_def)
    qed
  qed
qed

lemma ack_inv_put:
  assumes "ack_inv c" "lc_out c' = lc_out c" "lc_synth c' = lc_synth c @ [(t, m)]" "ack_first (acks (coming c)) [t]"
    "tracked c' \<subseteq> tracked c \<union> acks [t]" "lc_queued c' = lc_queued c" "lc_pc c' = RQueue \<Longrightarrow> lc_pc c = RQueue"
  shows "ack_inv c'"
proof -
  have "coming c' = coming c @ [t]" "given c' = given c" using assms(2,3) by (simp_all add: conn_views)
  with assms show ?thesis by (fastforce simp: ack_inv_def ack_first_append)
qed

lemma ack_inv_take:
  assumes "ack_inv c" "lc_synth c = m # rest" "lc_synth c' = rest" "lc_out c' = lc_out c @ [Out m]"
    "tracked c' \<subseteq> tracked c" "lc_pc c' = RStart"
  shows "ack_inv c'"
proof -
  have "coming c' = coming c" using assms(2-4) by (cases m) (simp add: conn_views)
  with assms show ?thesis by (auto simp: ack_inv_def)
qed

lemma ack_inv_emit:
  assumes "ack_inv c" "lc_synth c' = lc_synth c" "lc_out c' = lc_out c @ [d]" "changed (out_tags [d]) \<subseteq> acks (given c)"
    "tracked c' \<subseteq> tracked c" "lc_pc c' = RStart"
  shows "ack_inv c'"
proof -
  let ?s = "map fst (lc_synth c)"
  have c: "coming c' = given c @ out_tags [d] @ ?s" "coming c = given c @ ?s"
    using assms(2,3) by (simp_all add: conn_views)
  from assms(1) have "ack_first {} (given c)" "ack_first (acks (given c)) ?s" "tracked c \<subseteq> acks (coming c)"
    by (simp_all add: ack_inv_def c ack_first_append)
  with assms(4-6) show ?thesis
    unfolding ack_inv_def c ack_first_append
    by (auto intro: ack_first_changed ack_first_mono)
qed

lemma write_default_views [simp]:
  "lc_out (write_default failed msg c) = lc_out c" "lc_synth (write_default failed msg c) = lc_synth c"
  "lc_listeners (write_default failed msg c) = lc_listeners c" "lc_acking (write_default failed msg c) = lc_acking c"
  "lc_queued (write_default failed msg c) = lc_queued c" "lc_pc (write_default failed msg c) = lc_pc c"
  by (simp_all add: write_default_def Let_def)

lemma withholdErr_views [simp]:
  "lc_out (withholdErr e c) = lc_out c" "lc_synth (withholdErr e c) = lc_synth c"
  "lc_listeners (withholdErr e c) = lc_listeners c" "lc_acking (withholdErr e c) = lc_acking c"
  "lc_queued (withholdErr e c) = lc_queued c" "lc_pc (withholdErr e c) = lc_pc c"
  by (simp_all add: withholdErr_def)

lemma ack_inv_step: "lstep c c' \<Longrightarrow> ack_inv c \<Longrightarrow> ack_inv c'"
proof (induction rule: lstep.induct)
  case (l_discover msg c c')
  then obtain raw where "c' = c\<lparr>lc_synth := lc_synth c @ [(TDiscover, NewResponse (ID msg) (Some raw))]\<rparr>"
    by (auto simp: write_discover_def split: sum.splits if_splits)
  then show ?case
    by (intro ack_inv_put [OF l_discover.prems, of c' TDiscover]) (auto simp: tracked_def)
next
  case (l_ack msg c c')
  then show ?case
    by (intro ack_inv_put [OF l_ack.prems, of c' "TAck (IDKey msg)"])
      (auto simp: write_listen_ack_def tracked_def split: if_splits)
next
  case (l_register c c')
  then show ?case
    by (elim ack_inv_quiet) (auto simp: write_listen_register_def tracked_def split: list.splits if_splits)
next
  case (l_cancelled c msg)
  then show ?case using keyset_delete [of _ "lc_listeners c"]
    by (elim ack_inv_quiet) (auto simp: write_cancelled_def tracked_def Let_def)
next
  case (l_default c failed msg)
  then show ?case by (elim ack_inv_quiet) (auto simp: tracked_def)
next
  case (l_close c)
  then show ?case
    using closures_tags [of "lc_listeners c"]
    by (elim ack_inv_quiet) (auto simp: legacy_Close_def tracked_def split: if_splits)
next
  case (l_synth c c')
  show ?case
  proof (cases "lc_synth c")
    case Nil
    with l_synth show ?thesis by (simp add: read_synth_def)
  next
    case (Cons m rest)
    with l_synth show ?thesis
      by (intro ack_inv_take [OF l_synth.prems, of m rest])
        (auto simp: read_synth_def tracked_def fan_keys_def split: if_splits)
  qed
next
  case (l_synth_empty c c')
  then show ?case
    by (elim ack_inv_quiet) (auto simp: read_synth_empty_def tracked_def fan_keys_def split: if_splits)
next
  case (l_queue c c')
  note inv = l_queue.prems
  from inv have q: "lc_pc c = RQueue \<Longrightarrow> changed (map fst (lc_queued c)) \<subseteq> acks (given c)" by (simp add: ack_inv_def)
  show ?case
  proof (cases "lc_queued c")
    case Nil
    then show ?thesis
    proof (cases "lc_deferErr c")
      case None
      with Nil l_queue show ?thesis
        by (elim ack_inv_quiet) (auto simp: read_queue_def tracked_def fan_keys_def split: if_splits)
    next
      case (Some e)
      with Nil l_queue show ?thesis
        by (intro ack_inv_emit [OF inv, of c' "OutError e"])
          (auto simp: read_queue_def tracked_def fan_keys_def split: if_splits)
    qed
  next
    case (Cons m rest)
    obtain t x where m: "m = (t, x)" by (cases m)
    with Cons l_queue q show ?thesis
      by (intro ack_inv_emit [OF inv, of c' "Out m"])
        (auto simp: read_queue_def tracked_def fan_keys_def split: if_splits)
  qed
next
  case (l_inner_error e c c')
  then show ?case
    by (elim ack_inv_quiet) (auto simp: read_inner_error_def tracked_def fan_keys_def split: if_splits)
next
  case (l_error_out c c')
  then obtain e p where pc: "lc_pc c = RErr e p" by (auto simp: read_error_out_def split: read_pc.splits)
  show ?case
  proof (cases "lc_synth c")
    case (Cons m rest)
    with pc l_error_out.hyps have
      "c' = (withholdErr e c)\<lparr>lc_synth := rest, lc_out := lc_out c @ [Out m], lc_pc := RStart\<rparr>"
      by (simp add: read_error_out_def)
    with Cons show ?thesis
      by (intro ack_inv_take [OF l_error_out.prems Cons]) (simp_all add: tracked_def fan_keys_def)
  next
    case Nil
    show ?thesis
    proof (cases p)
      case True
      with Nil pc l_error_out.hyps have "c' = (withholdErr e c)\<lparr>lc_pc := RStart\<rparr>"
        by (simp add: read_error_out_def)
      then show ?thesis
        by (intro ack_inv_quiet [OF l_error_out.prems]) (simp_all add: tracked_def fan_keys_def)
    next
      case False
      with Nil pc l_error_out.hyps have "c' = c\<lparr>lc_out := lc_out c @ [OutError e], lc_pc := RStart\<rparr>"
        by (simp add: read_error_out_def)
      then show ?thesis
        by (intro ack_inv_emit [OF l_error_out.prems, of c' "OutError e"]) (simp_all add: tracked_def fan_keys_def)
    qed
  qed
next
  case (l_inner_msg msg c c')
  then have pc: "lc_pc c = RInner" by (auto simp: read_inner_msg_def split: if_splits)
  show ?case
  proof (cases "Kind msg = KindNotification \<and> wants (Method msg) \<noteq> None")
    case True
    then obtain want where "wants (Method msg) = Some want" "Kind msg = KindNotification" by auto
    with pc l_inner_msg.hyps have c': "c' = c\<lparr>lc_pc :=
        RFan msg (map fst (filter (\<lambda>(k, f). want f) (lc_listeners c))) []\<rparr>"
      by (simp add: read_inner_msg_def)
    have "tracked c' \<subseteq> tracked c"
      unfolding c' using keyset_filter [of "\<lambda>(k, f). want f" "lc_listeners c"]
      by (auto simp: tracked_def fan_keys_def pc)
    then show ?thesis by (intro ack_inv_quiet [OF l_inner_msg.prems]) (simp_all add: c')
  next
    case False
    with pc l_inner_msg.hyps obtain m where "lc_out c' = lc_out c @ [Out (TInner, m)]"
      "lc_synth c' = lc_synth c" "lc_listeners c' = lc_listeners c" "lc_acking c' = lc_acking c"
      "lc_queued c' = lc_queued c" "lc_pc c' = RStart"
      by (auto simp: read_inner_msg_def stampResult_def split: if_splits option.splits)
    with pc show ?thesis
      by (intro ack_inv_emit [OF l_inner_msg.prems, of c' "Out (TInner, m)"]) (auto simp: tracked_def fan_keys_def)
  qed
next
  case (l_fan c c')
  then obtain msg ids ov where pc: "lc_pc c = RFan msg ids ov" by (auto simp: fan_step_def split: read_pc.splits)
  show ?case
  proof (cases ids)
    case Nil
    with pc l_fan show ?thesis
      by (elim ack_inv_quiet) (auto simp: fan_step_def tracked_def fan_keys_def)
  next
    case (Cons i rest)
    have i: "i \<in> acks (coming c)"
      using l_fan.prems pc Cons by (auto simp: ack_inv_def tracked_def fan_keys_def)
    show ?thesis
    proof (cases "fanned_out msg i")
      case None
      with pc Cons l_fan show ?thesis
        by (elim ack_inv_quiet) (auto simp: fan_step_def tracked_def fan_keys_def)
    next
      case (Some out)
      show ?thesis
      proof (cases "length (lc_synth c) < synthCap")
        case True
        with pc Cons Some l_fan i show ?thesis
          by (intro ack_inv_put [OF l_fan.prems, of c' "TChanged i" out])
            (auto simp: fan_step_def tracked_def fan_keys_def)
      next
        case False
        with pc Cons Some l_fan show ?thesis
          by (elim ack_inv_quiet) (auto simp: fan_step_def tracked_def fan_keys_def)
      qed
    qed
  qed
qed

lemma ack_inv_reachable: "lreachable b c \<Longrightarrow> ack_inv c"
  unfolding lreachable_def
proof (induction rule: rtranclp_induct)
  case base
  show ?case by (simp add: legacy_conn_def ack_inv_def tracked_def conn_views)
next
  case (step c c')
  then show ?case using ack_inv_step by blast
qed

text \<open>
  C12. However writers, the reader and \<open>Close\<close> interleave, the bridge never hands a client a change
  notification for a subscription before that subscription's acknowledgment.
\<close>

theorem acknowledgment_comes_first:
  assumes "lreachable b c"
  shows "ack_first {} (out_tags (lc_out c))"
  using ack_inv_reachable [OF assms] by (simp add: ack_inv_def conn_views ack_first_append)

section \<open>A run with one subscriber\<close>

definition ex_listen :: message where
  "ex_listen =
     zero_message\<lparr>JSONRPC := ''2.0'', ID := Some ''1'', Method := MethodListen,
       msg_params := Some (json_text ''{~notifications~:{~toolsListChanged~:true}}'')\<rparr>"

definition ex_changed :: "bytes option \<Rightarrow> message" where
  "ex_changed p = zero_message\<lparr>JSONRPC := ''2.0'', Method := NotifToolsListChanged, msg_params := p\<rparr>"

lemma ex_listen_filter: "listen_filter ex_listen = \<lparr>lf_Tools = True, lf_Prompts = False, lf_Resources = False\<rparr>"
proof -
  have "json_parse (json_text ''{~notifications~:{~toolsListChanged~:true}}'') =
      Some (JObject [] (MCons [] ''notifications'' [] [] (JObject [] (MCons [] ''toolsListChanged'' [] []
        (JScalar ''true'') [] MNil)) [] MNil))"
    by code_simp
  then show ?thesis
    by (simp add: listen_filter_def ex_listen_def object_members_def unquoted_def unquote_plain field_of_exact
        into_bool_def zero_filter_def)
qed

lemma ex_listen_key: "IDKey ex_listen = ''1''"
  using TrimSpace_visible [of "''1''"] by (simp add: IDKey_def ex_listen_def)

definition ex_listening :: "bridge \<Rightarrow> lconn" where
  "ex_listening b =
     (legacy_conn b)\<lparr>lc_listeners := [(''1'', listen_filter ex_listen)], lc_pc := RInner,
        lc_out := [Out (TAck ''1'', ackFor ''1'' (listen_filter ex_listen))]\<rparr>"

lemma ex_listening_reachable: "lreachable b (ex_listening b)"
proof -
  let ?f = "listen_filter ex_listen" and ?a = "(TAck ''1'', ackFor ''1'' (listen_filter ex_listen))"
  define c1 where "c1 = (legacy_conn b)\<lparr>lc_synth := [?a], lc_acking := [(''1'', ?f)]\<rparr>"
  define c2 where "c2 = c1\<lparr>lc_acking := [], lc_listeners := [(''1'', ?f)]\<rparr>"
  define c3 where "c3 = c2\<lparr>lc_synth := [], lc_out := [Out ?a], lc_pc := RStart\<rparr>"
  define c4 where "c4 = c3\<lparr>lc_pc := RQueue\<rparr>"
  have "lstep (legacy_conn b) c1"
    by (rule l_ack [of ex_listen]) (simp add: write_listen_ack_def legacy_conn_def synthCap_def ex_listen_key c1_def)
  moreover have "lstep c1 c2"
    by (rule l_register) (simp add: write_listen_register_def c1_def c2_def legacy_conn_def)
  moreover have "lstep c2 c3"
    by (rule l_synth) (simp add: read_synth_def c1_def c2_def c3_def legacy_conn_def)
  moreover have "lstep c3 c4"
    by (rule l_synth_empty) (simp add: read_synth_empty_def c3_def c4_def)
  moreover have "lstep c4 (ex_listening b)"
    by (rule l_queue) (simp add: read_queue_def c1_def c2_def c3_def c4_def legacy_conn_def ex_listening_def)
  ultimately have "lstep\<^sup>*\<^sup>* (legacy_conn b) (ex_listening b)"
    by (blast intro: converse_rtranclp_into_rtranclp)
  then show ?thesis by (simp add: lreachable_def)
qed

text \<open>What the fan-out does once the notification has been read.\<close>

lemma ex_fan:
  "lreachable b ((ex_listening b)\<lparr>lc_pc := RFan (ex_changed p) [''1''] []\<rparr>)"
proof -
  have "lstep (ex_listening b) ((ex_listening b)\<lparr>lc_pc := RFan (ex_changed p) [''1''] []\<rparr>)"
    by (rule l_inner_msg [of "ex_changed p"])
      (simp add: read_inner_msg_def ex_listening_def ex_changed_def Kind_def HasID_def zero_message_def wants_def
        ex_listen_filter mcp_defs)
  then show ?thesis using ex_listening_reachable unfolding lreachable_def by (blast intro: rtranclp.rtrancl_into_rtrancl)
qed

theorem acknowledgment_comes_first_witness:
  "\<exists>c :: lconn. ack_first {} (out_tags (lc_out c)) \<and> out_tags (lc_out c) = [TAck ''1'', TChanged ''1'']"
proof -
  let ?b = "legacy_Connect 0 [] \<lparr>ir_Capabilities = [], ir_ServerInfo = [], ir_Instructions = []\<rparr>"
  let ?c = "(ex_listening ?b)\<lparr>lc_pc := RFan (ex_changed None) [''1''] []\<rparr>"
  obtain m where m: "fanned_out (ex_changed None) ''1'' = Some m"
    by (simp add: fanned_out_def ex_changed_def merged_map_def Let_def)
  define c1 where "c1 = ?c\<lparr>lc_synth := [(TChanged ''1'', m)], lc_pc := RFan (ex_changed None) [] []\<rparr>"
  define c2 where "c2 = c1\<lparr>lc_pc := RStart\<rparr>"
  define c3 where "c3 = c2\<lparr>lc_synth := [], lc_out := lc_out c2 @ [Out (TChanged ''1'', m)]\<rparr>"
  have "lstep ?c c1"
    by (rule l_fan) (simp add: fan_step_def m ex_listening_def legacy_conn_def synthCap_def c1_def)
  moreover have "lstep c1 c2"
    by (rule l_fan) (simp add: fan_step_def c1_def c2_def ex_listening_def legacy_conn_def)
  moreover have "lstep c2 c3"
    by (rule l_synth) (simp add: read_synth_def c1_def c2_def c3_def)
  ultimately have "lreachable ?b c3"
    using ex_fan [of ?b None] unfolding lreachable_def by (blast intro: rtranclp.rtrancl_into_rtrancl)
  from acknowledgment_comes_first [OF this] show ?thesis
    by (intro exI [of _ c3]) (simp add: c1_def c2_def c3_def ex_listening_def)
qed

text \<open>
  C34. A legacy server can crash the gateway: a \<open>list_changed\<close> notification whose params are \<open>null\<close>
  is a message the decoder accepts, and once a single client listens, fanning it out assigns into
  a nil map.
\<close>

theorem null_params_crash_the_bridge:
  "\<exists>msg c c'. Decode (json_text ''{~jsonrpc~:~2.0~,~method~:~notifications/tools/list_changed~,~params~:null}'') = Inr msg \<and>
     lreachable b c \<and> lc_pc c = RInner \<and> read_inner_msg msg c = Some c' \<and>
     (\<exists>c''. fan_step c' = Some c'' \<and> lc_pc c'' = RPanic)"
proof (intro exI conjI)
  show "Decode (json_text ''{~jsonrpc~:~2.0~,~method~:~notifications/tools/list_changed~,~params~:null}'') =
      Inr (ex_changed (Some ''null''))"
    by code_simp
  show "lreachable b (ex_listening b)" by (rule ex_listening_reachable)
  show "lc_pc (ex_listening b) = RInner" by (simp add: ex_listening_def)
  show "read_inner_msg (ex_changed (Some ''null'')) (ex_listening b) =
      Some ((ex_listening b)\<lparr>lc_pc := RFan (ex_changed (Some ''null'')) [''1''] []\<rparr>)"
    by (simp add: read_inner_msg_def ex_listening_def ex_changed_def Kind_def HasID_def zero_message_def wants_def
        ex_listen_filter mcp_defs)
  have "fanned_out (ex_changed (Some ''null'')) ''1'' = None" by code_simp
  then show "fan_step ((ex_listening b)\<lparr>lc_pc := RFan (ex_changed (Some ''null'')) [''1''] []\<rparr>) =
      Some ((ex_listening b)\<lparr>lc_pc := RPanic\<rparr>)"
    by (simp add: fan_step_def)
  show "lc_pc ((ex_listening b)\<lparr>lc_pc := RPanic\<rparr>) = RPanic" by simp
qed

section \<open>A subscription ends before its transport does\<close>

text \<open>The ending of \<open>k\<close> has been handed over, or is queued and no error can pass it.\<close>

definition ending :: "bytes \<Rightarrow> lconn \<Rightarrow> bool" where
  "ending k c =
     (TClosed k \<in> set (given c) \<or>
      TClosed k \<in> set (map fst (lc_queued c)) \<and> (case lc_pc c of RErr e p \<Rightarrow> p | _ \<Rightarrow> True))"

lemma given_simps [simp]:
  "given (c\<lparr>lc_out := ds\<rparr>) = out_tags ds" "given (c\<lparr>lc_synth := s\<rparr>) = given c" "given (c\<lparr>lc_pc := pc\<rparr>) = given c"
  "given (c\<lparr>lc_queued := q\<rparr>) = given c" "given (c\<lparr>lc_deferErr := e\<rparr>) = given c"
  "given (c\<lparr>lc_listeners := l\<rparr>) = given c" "given (c\<lparr>lc_acking := a\<rparr>) = given c"
  "given (c\<lparr>lc_pending := p\<rparr>) = given c" "given (c\<lparr>lc_inner := i\<rparr>) = given c" "given (c\<lparr>lc_closed := x\<rparr>) = given c"
  by (simp_all add: given_def)

lemma out_tags_given: "out_tags (lc_out c) = given c"
  by (simp add: given_def)

text \<open>Steps that keep what was handed over and what is queued, and end no wait for an error.\<close>

lemma ending_keep:
  assumes "ending k c" "set (given c) \<subseteq> set (given c')" "set (lc_queued c) \<subseteq> set (lc_queued c')"
    "lc_pc c' = lc_pc c \<or> (\<forall>e p. lc_pc c' \<noteq> RErr e p)"
  shows "ending k c'"
  using assms by (auto simp: ending_def split: read_pc.splits)

lemma ending_step: "lstep c c' \<Longrightarrow> ending k c \<Longrightarrow> ending k c'"
proof (induction rule: lstep.induct)
  case (l_discover msg c c')
  then show ?case
    by (elim ending_keep) (auto simp: write_discover_def split: sum.splits if_splits)
next
  case (l_ack msg c c')
  then show ?case by (elim ending_keep) (auto simp: write_listen_ack_def split: if_splits)
next
  case (l_register c c')
  then show ?case by (elim ending_keep) (auto simp: write_listen_register_def split: list.splits if_splits)
next
  case (l_cancelled c msg)
  then show ?case by (elim ending_keep) (auto simp: write_cancelled_def Let_def)
next
  case (l_default c failed msg)
  then show ?case by (elim ending_keep) (auto simp: given_def)
next
  case (l_close c)
  then show ?case by (elim ending_keep) (auto simp: legacy_Close_def)
next
  case (l_synth c c')
  then show ?case
    by (elim ending_keep) (auto simp: read_synth_def out_tags_given split: list.splits if_splits)
next
  case (l_synth_empty c c')
  then show ?case by (elim ending_keep) (auto simp: read_synth_empty_def split: if_splits)
next
  case (l_queue c c')
  then show ?case
    by (auto simp: read_queue_def ending_def out_tags_given split: list.splits option.splits if_splits prod.splits)
next
  case (l_inner_error e c c')
  then show ?case by (auto simp: read_inner_error_def ending_def split: if_splits)
next
  case (l_error_out c c')
  then show ?case
    by (auto simp: read_error_out_def ending_def out_tags_given withholdErr_def
        split: read_pc.splits list.splits if_splits prod.splits)
next
  case (l_inner_msg msg c c')
  then show ?case
    by (elim ending_keep)
      (auto simp: read_inner_msg_def stampResult_def out_tags_given split: option.splits if_splits)
next
  case (l_fan c c')
  then show ?case
    by (elim ending_keep) (auto simp: fan_step_def split: read_pc.splits list.splits option.splits if_splits)
qed

lemma ending_steps: "lstep\<^sup>*\<^sup>* c c' \<Longrightarrow> ending k c \<Longrightarrow> ending k c'"
  by (induction rule: rtranclp_induct) (auto intro: ending_step)

lemma error_after_ending:
  assumes "lstep c c'" "lc_out c' = lc_out c @ [OutError e]" "ending k c"
  shows "TClosed k \<in> set (given c)"
  using assms
  by (induction rule: lstep.induct)
    (auto simp: write_discover_def write_listen_ack_def write_listen_register_def write_cancelled_def Let_def
      legacy_Close_def read_synth_def read_synth_empty_def read_queue_def read_inner_error_def read_error_out_def
      read_inner_msg_def stampResult_def fan_step_def ending_def
      split: sum.splits if_splits list.splits option.splits read_pc.splits)

lemma closure_queued:
  "(k, f) \<in> set ls \<Longrightarrow> closure_for k = Some m \<Longrightarrow>
     TClosed k \<in> set (map fst (concat (map (\<lambda>(k, f). case closure_for k of None \<Rightarrow> [] | Some m \<Rightarrow> [(TClosed k, m)]) ls)))"
  by (induction ls) auto

text \<open>
  C19. When \<open>Close\<close> runs, every open subscription is told so before the transport's end is: an error
  that the reader comes to after \<open>Close\<close> reaches the client only once the closing response of every
  subscription open at that time has.
\<close>

theorem subscriptions_end_before_the_transport:
  assumes "\<not> lc_closed c" "(k, f) \<in> set (lc_listeners c)" "closure_for k = Some m" "\<nexists>e p. lc_pc c = RErr e p"
    and "lstep\<^sup>*\<^sup>* (legacy_Close c) c'" "lstep c' c''" "lc_out c'' = lc_out c' @ [OutError e]"
  shows "TClosed k \<in> set (out_tags (lc_out c'))"
proof -
  have "ending k (legacy_Close c)"
    using assms(1,4) closure_queued [OF assms(2,3)] by (auto simp: legacy_Close_def ending_def split: read_pc.splits)
  from ending_steps [OF assms(5) this] error_after_ending [OF assms(6,7)] show ?thesis
    by (simp add: given_def)
qed

theorem subscriptions_end_before_the_transport_witness:
  "\<exists>c' :: lconn. lc_queued c' = [] \<and> TClosed ''1'' \<in> set (out_tags (lc_out c'))"
proof -
  let ?b = "legacy_Connect 0 [] \<lparr>ir_Capabilities = [], ir_ServerInfo = [], ir_Instructions = []\<rparr>"
  let ?f = "listen_filter ex_listen" and ?a = "Out (TAck ''1'', ackFor ''1'' (listen_filter ex_listen))"
  have "json_parse ''1'' = Some (JScalar ''1'')" by code_simp
  then obtain m where m: "closure_for ''1'' = Some m"
    by (simp add: closure_for_def subscription_meta_def marshal_raw_def)
  let ?c = "ex_listening ?b"
  define c0 where "c0 = ?c\<lparr>lc_closed := True, lc_listeners := [], lc_queued := [(TClosed ''1'', m)]\<rparr>"
  define c1 where "c1 = c0\<lparr>lc_pc := RErr ''eof'' True\<rparr>"
  define c2 where "c2 = c1\<lparr>lc_deferErr := Some ''eof'', lc_pc := RStart\<rparr>"
  define c3 where "c3 = c2\<lparr>lc_pc := RQueue\<rparr>"
  define c4 where "c4 = c3\<lparr>lc_queued := [], lc_out := [?a, Out (TClosed ''1'', m)], lc_pc := RStart\<rparr>"
  define c5 where "c5 = c4\<lparr>lc_pc := RQueue\<rparr>"
  define c6 where "c6 = c5\<lparr>lc_deferErr := None, lc_out := lc_out c5 @ [OutError ''eof''], lc_pc := RStart\<rparr>"
  note defs = c0_def c1_def c2_def c3_def c4_def c5_def c6_def ex_listening_def legacy_conn_def
  have c0: "legacy_Close ?c = c0" by (simp add: legacy_Close_def defs m)
  have "lstep c0 c1" by (rule l_inner_error [of "''eof''"]) (simp add: read_inner_error_def defs)
  moreover have "lstep c1 c2" by (rule l_error_out) (simp add: read_error_out_def withholdErr_def defs)
  moreover have "lstep c2 c3" by (rule l_synth_empty) (simp add: read_synth_empty_def defs)
  moreover have "lstep c3 c4" by (rule l_queue) (simp add: read_queue_def defs)
  moreover have "lstep c4 c5" by (rule l_synth_empty) (simp add: read_synth_empty_def defs)
  ultimately have run: "lstep\<^sup>*\<^sup>* (legacy_Close ?c) c5"
    unfolding c0 by (blast intro: converse_rtranclp_into_rtranclp)
  have last: "lstep c5 c6" by (rule l_queue) (simp add: read_queue_def defs)
  have out: "lc_out c6 = lc_out c5 @ [OutError ''eof'']" by (simp add: c6_def)
  have "\<not> lc_closed ?c" "(''1'', ?f) \<in> set (lc_listeners ?c)" "\<nexists>e p. lc_pc ?c = RErr e p"
    by (simp_all add: ex_listening_def legacy_conn_def)
  from subscriptions_end_before_the_transport [OF this(1,2) m this(3) run last out] show ?thesis
    by (intro exI [of _ c5] conjI) (simp_all add: c4_def c5_def)
qed

section \<open>What is added to a result\<close>

text \<open>The members \<open>stamp\<close> adds, as texts.\<close>

definition added :: "bridge \<Rightarrow> raw_map \<Rightarrow> bytes option \<Rightarrow> raw_map" where
  "added b obj method =
     filter (\<lambda>(k, v). map_of obj k = None)
       ((''resultType'', strconv_Quote ResultTypeComplete) #
        (case method of
           None \<Rightarrow> []
         | Some m \<Rightarrow> [(''ttlMs'', itoa (ttlMsFor b m)), (''cacheScope'', strconv_Quote (br_cacheScope b))]))"

lemma additions_added: "additions b obj mth = map (\<lambda>(k, v). strconv_Quote k @ '':'' @ v) (added b obj mth)"
  by (cases mth) (auto simp: additions_def added_def Let_def)

lemma quote_plain: "list_all (\<lambda>c. c \<noteq> CHR 0x22 \<and> c \<noteq> CHR 0x5C) s \<Longrightarrow> strconv_Quote s = CHR 0x22 # s @ [CHR 0x22]"
proof -
  have "list_all (\<lambda>c. c \<noteq> CHR 0x22 \<and> c \<noteq> CHR 0x5C) s \<Longrightarrow> quote_bytes s = s" by (induction s) auto
  then show "list_all (\<lambda>c. c \<noteq> CHR 0x22 \<and> c \<noteq> CHR 0x5C) s \<Longrightarrow> strconv_Quote s = CHR 0x22 # s @ [CHR 0x22]"
    by (simp add: strconv_Quote_def)
qed

text \<open>Members written one after another in front of the members of an object.\<close>

fun put_members :: "bytes \<Rightarrow> (bytes \<times> jval) list \<Rightarrow> members \<Rightarrow> members" where
  "put_members w [] ms = ms"
| "put_members w ((k, v) # kvs) ms =
     MCons [] k [] [] v (if kvs = [] \<and> ms = MNil then w else []) (put_members w kvs ms)"

lemma put_members_MNil [simp]: "put_members w kvs ms = MNil \<longleftrightarrow> kvs = [] \<and> ms = MNil"
  by (cases kvs) auto

definition member_text :: "bytes \<times> jval \<Rightarrow> bytes" where
  "member_text kv = CHR 0x22 # fst kv @ CHR 0x22 # '':'' @ render (snd kv)"

lemma render_put_members:
  "kvs \<noteq> [] \<Longrightarrow> render_members (put_members w kvs ms) =
     strings_Join (map member_text kvs) '','' @ (if ms = MNil then w else '','' @ render_members ms)"
proof (induction w kvs ms rule: put_members.induct)
  case (2 w k v kvs ms)
  then show ?case by (cases kvs) (auto simp: member_text_def)
qed simp

lemma members_list_put: "members_list (put_members w kvs ms) = map (\<lambda>(k, v). (unquoted k, v)) kvs @ members_list ms"
  by (induction w kvs ms rule: put_members.induct) auto

lemma put_members_wf:
  "list_all (\<lambda>(k, v). string_ok k \<and> wf_json v) kvs \<Longrightarrow> wf_members ms \<Longrightarrow> all_ws w \<Longrightarrow> wf_members (put_members w kvs ms)"
  by (induction w kvs ms rule: put_members.induct) auto

lemma put_members_depth:
  "list_all (\<lambda>(k, v). jdepth v = 0) kvs \<Longrightarrow> jdepth_members (put_members w kvs ms) = jdepth_members ms"
  by (induction w kvs ms rule: put_members.induct) auto

text \<open>Splicing is putting the members in front.\<close>

lemma splice_parses:
  assumes parse: "json_parse raw = Some (JObject w ms)" and kvs: "kvs \<noteq> []"
    and ok: "list_all (\<lambda>(k, v). string_ok k \<and> wf_json v \<and> jdepth v = 0) kvs"
  shows "\<exists>out w'. spliceFields raw (map member_text kvs) (ms = MNil) = Some out \<and>
    json_parse out = Some (JObject w' (put_members w kvs ms))"
proof -
  from parse obtain a b where raw: "wf_json (JObject w ms)" "jdepth (JObject w ms) \<le> maxNestingDepth"
    "all_ws a" "all_ws b" "raw = a @ render (JObject w ms) @ b"
    by (auto simp: json_parse_iff)
  have tw: "takeWhile json_ws raw = a" "dropWhile json_ws raw = render (JObject w ms) @ b"
    using raw(3,5) ws_take [of a "CHR ''{''"] ws_drop [of a "CHR ''{''"] by (auto simp: json_ws_def)
  let ?v = "JObject [] (put_members w kvs ms)"
  have ne: "put_members w kvs ms \<noteq> MNil" using kvs by simp
  have w: "ms \<noteq> MNil \<Longrightarrow> w = []" using raw(1) by auto
  have "spliceFields raw (map member_text kvs) (ms = MNil) = Some (a @ render ?v @ b)"
    using w kvs by (cases "ms = MNil") (simp_all add: spliceFields_def tw Let_def render_put_members)
  moreover have "json_parse (a @ render ?v @ b) = Some ?v"
  proof (rule json_parse_iff [THEN iffD2], intro conjI exI)
    have "list_all (\<lambda>(k, v). string_ok k \<and> wf_json v) kvs" "list_all (\<lambda>(k, v). jdepth v = 0) kvs"
      using ok by (auto simp: list_all_iff)
    then show "wf_json ?v" "jdepth ?v \<le> maxNestingDepth"
      using raw(1,2) ne by (simp_all add: put_members_wf put_members_depth all_ws_def)
    show "all_ws a" "all_ws b" "a @ render ?v @ b = a @ render ?v @ b" using raw(3,4) by simp_all
  qed
  ultimately show ?thesis by blast
qed
definition good_member :: "bytes \<times> bytes \<Rightarrow> bool" where
  "good_member kr =
     (string_ok (fst kr) \<and> unquoted (fst kr) = fst kr \<and> strconv_Quote (fst kr) = CHR 0x22 # fst kr @ [CHR 0x22] \<and>
      (\<exists>v. json_parse (snd kr) = Some v \<and> snd kr = render v \<and> wf_json v \<and> jdepth v = 0))"

lemma good_value: "wf_json v \<Longrightarrow> jdepth v = 0 \<Longrightarrow> json_parse (render v) = Some v"
  by (rule json_parse_render) (simp_all add: maxNestingDepth_def)

lemma added_good:
  assumes "br_cacheScope b \<in> {CacheScopePrivate, CacheScopePublic}"
  shows "list_all good_member (added b obj method)"
proof -
  have key: "string_ok k \<and> unquoted k = k \<and> strconv_Quote k = CHR 0x22 # k @ [CHR 0x22]"
    if "k \<in> {''resultType'', ''ttlMs'', ''cacheScope'', ''complete'', ''private'', ''public''}" for k
    using that by (elim insertE emptyE) (simp_all add: ascii_key quote_plain)
  have str: "json_parse (strconv_Quote s) = Some (JString s) \<and> strconv_Quote s = render (JString s) \<and> wf_json (JString s)"
    if "s \<in> {''complete'', ''private'', ''public''}" for s
    using key [of s] that good_value [of "JString s"] by auto
  have int: "json_parse (itoa n) = Some (JScalar (itoa n)) \<and> itoa n = render (JScalar (itoa n)) \<and> wf_json (JScalar (itoa n))" for n
    using good_value [of "JScalar (itoa n)"] by (simp add: scalar_ok_itoa)
  have good: "good_member (k, raw)"
    if "k \<in> {''resultType'', ''ttlMs'', ''cacheScope''}" "json_parse raw = Some v" "raw = render v" "wf_json v" "jdepth v = 0"
    for k raw v
    using that key [of k] by (auto simp: good_member_def)
  have "good_member (''resultType'', strconv_Quote ResultTypeComplete)"
    using str [of "''complete''"] by (intro good) (auto simp: ResultTypeComplete_def)
  moreover have "good_member (''ttlMs'', itoa n)" for n using int [of n] by (intro good) auto
  moreover have "good_member (''cacheScope'', strconv_Quote (br_cacheScope b))"
  proof -
    have "br_cacheScope b \<in> {''complete'', ''private'', ''public''}"
      using assms by (auto simp: CacheScopePrivate_def CacheScopePublic_def)
    note s = str [OF this]
    show ?thesis
      by (rule good [OF _ conjunct1 [OF s] conjunct1 [OF conjunct2 [OF s]] conjunct2 [OF conjunct2 [OF s]]]) simp_all
  qed
  ultimately show ?thesis by (auto simp: added_def list_all_iff split: option.splits)
qed

lemma object_map_Nil: "object_map ms = [] \<longleftrightarrow> ms = MNil"
proof
  assume "object_map ms = []"
  then have "fst ` set (members_list ms) = {}" using object_map_keys [of ms] by simp
  then show "ms = MNil" by (cases ms) auto
qed (simp add: object_map_def)

text \<open>
  Stamping a legacy result adds members in front of those the server sent, only keys the server
  did not send (the result type, and on a cacheable result the freshness hint and the scope), and
  leaves every member of the server's with the very text it had.
\<close>

theorem stamped_result_keeps_everything:
  assumes "Result msg = Some result" "Error msg = None" "json_parse result = Some (JObject w ms)"
    and scope: "br_cacheScope b \<in> {CacheScopePrivate, CacheScopePublic}"
  shows "\<exists>out w' ms'. Result (stamp b mth msg) = Some out \<and> json_parse out = Some (JObject w' ms') \<and>
    members_list ms' =
      map (\<lambda>(k, raw). (k, the (json_parse raw))) (added b (object_map ms) mth) @ members_list ms"
proof -
  let ?add = "added b (object_map ms) mth"
  let ?kvs = "map (\<lambda>(k, raw). (k, the (json_parse raw))) ?add"
  have ne: "result \<noteq> []" using assms(3) by (auto simp: json_parse_iff)
  have um: "unmarshal_map result = Inr (Some (object_map ms))" by (simp add: unmarshal_map_def assms(3))
  note good = added_good [OF scope, of "object_map ms" mth]
  show ?thesis
  proof (cases "?add = []")
    case True
    then have "stamp b mth msg = msg"
      using assms(1,2) ne um by (simp add: stamp_def additions_added Let_def)
    with True assms(1,3) show ?thesis by simp
  next
    case False
    have ok: "list_all (\<lambda>(k, v). string_ok k \<and> wf_json v \<and> jdepth v = 0) ?kvs"
      using good by (auto simp: list_all_iff good_member_def)
    have keys: "map (\<lambda>(k, v). (unquoted k, v)) ?kvs = ?kvs"
      using good by (auto simp: list_all_iff good_member_def)
    have texts: "map member_text ?kvs = additions b (object_map ms) mth"
      unfolding additions_added using good by (auto simp: list_all_iff good_member_def member_text_def)
    from splice_parses [OF assms(3) _ ok] False obtain out w' where out:
      "spliceFields result (map member_text ?kvs) (ms = MNil) = Some out"
      "json_parse out = Some (JObject w' (put_members w ?kvs ms))" by auto
    have "Result (stamp b mth msg) = Some out"
      using assms(1,2) ne um out(1) False unfolding texts
      by (simp add: stamp_def Let_def object_map_Nil additions_added)
    with out(2) keys show ?thesis by (auto simp: members_list_put)
  qed
qed

theorem stamped_result_keeps_everything_witness:
  "\<exists>out w' ms'. Result (stamp (legacy_Connect 0 [] \<lparr>ir_Capabilities = [], ir_ServerInfo = [], ir_Instructions = []\<rparr>) None
      (NewResponse (Some ''1'') (Some (json_text ''{~a~: 1}'')))) = Some out \<and>
     json_parse out = Some (JObject w' ms') \<and>
     members_list ms' = [(''resultType'', JString ''complete''), (''a'', JScalar ''1'')]"
proof -
  let ?b = "legacy_Connect 0 [] \<lparr>ir_Capabilities = [], ir_ServerInfo = [], ir_Instructions = []\<rparr>"
  let ?m = "NewResponse (Some ''1'') (Some (json_text ''{~a~: 1}''))"
  have p: "json_parse (json_text ''{~a~: 1}'') = Some (JObject [] (MCons [] ''a'' [] '' '' (JScalar ''1'') [] MNil))"
    by code_simp
  have q: "json_parse (strconv_Quote ''complete'') = Some (JString ''complete'')" by code_simp
  have "Result ?m = Some (json_text ''{~a~: 1}'')" "Error ?m = None" "br_cacheScope ?b \<in> {CacheScopePrivate, CacheScopePublic}"
    by (simp_all add: NewResponse_def zero_message_def legacy_Connect_def)
  from stamped_result_keeps_everything [OF this(1,2) p this(3), of None] show ?thesis
    by (simp add: added_def object_map_def unquoted_def unquote_plain ResultTypeComplete_def q)
qed

end
