(* ===== verification/Steps.thy ===== *)
theory Steps
  imports Main
begin

text \<open>
  Components that run in steps: a step is a function of an event and a state that says \<open>None\<close> when the
  event cannot happen.  What every component shares is stated once, for the interface below, which each
  of them interprets with its own step function and invariant.
\<close>

inductive reaches :: "('e \<Rightarrow> 's \<Rightarrow> 's option) \<Rightarrow> 's \<Rightarrow> 's \<Rightarrow> bool" for step init where
  reaches_init: "reaches step init init"
| reaches_step: "reaches step init s \<Longrightarrow> step e s = Some s' \<Longrightarrow> reaches step init s'"

fun run_steps :: "('e \<Rightarrow> 's \<Rightarrow> 's option) \<Rightarrow> 'e list \<Rightarrow> 's \<Rightarrow> 's option" where
  "run_steps step [] s = Some s"
| "run_steps step (e # es) s = (case step e s of None \<Rightarrow> None | Some s' \<Rightarrow> run_steps step es s')"

lemma run_steps_reaches: "reaches step init s \<Longrightarrow> run_steps step es s = Some s' \<Longrightarrow> reaches step init s'"
  by (induction es arbitrary: s) (auto intro: reaches_step split: option.splits)

lemma run_steps_append:
  "run_steps step (es @ fs) s = (case run_steps step es s of None \<Rightarrow> None | Some s' \<Rightarrow> run_steps step fs s')"
  by (induction es arbitrary: s) (auto split: option.splits)

text \<open>An invariant of the steps.\<close>

locale step_invariant =
  fixes step :: "'e \<Rightarrow> 's \<Rightarrow> 's option" and inv :: "'s \<Rightarrow> bool"
  assumes step_keeps: "inv s \<Longrightarrow> step e s = Some s' \<Longrightarrow> inv s'"
begin

lemma run_keeps: "inv s \<Longrightarrow> run_steps step es s = Some s' \<Longrightarrow> inv s'"
  by (induction es arbitrary: s) (auto intro: step_keeps split: option.splits)

lemma reaches_keeps: "reaches step s s' \<Longrightarrow> inv s \<Longrightarrow> inv s'"
  by (induction rule: reaches.induct) (auto intro: step_keeps)

end

text \<open>A machine that starts in a state with the invariant.\<close>

locale machine = step_invariant +
  fixes init
  assumes init_ok: "inv init"
begin

lemma always: "reaches step init s \<Longrightarrow> inv s"
  using reaches_keeps init_ok by blast

lemma after_run: "run_steps step es init = Some s \<Longrightarrow> inv s"
  using run_keeps init_ok by blast

end

end
