(* ===== verification/WireEnds.thy ===== *)
theory WireEnds
  imports StreamWriter ClaimStore WireClient Steps
begin

text \<open>
  Both ends of a reply stream and the claim store between them: the goroutines that serve a request
  (\<open>StreamWriter\<close>) park an oversize response through \<open>ObjectClaims\<close> (\<open>ClaimStore\<close>), and the client's
  \<open>pump\<close> (\<open>WireClient\<close>) fetches it back.  What the two ends rely on is the locale \<open>claim_service\<close>; a
  bucket of an object store that keeps its objects provides it.
\<close>

section \<open>The server with its store\<close>

definition parks :: "wenv \<Rightarrow> bytes \<Rightarrow> bool" where
  "parks env body \<longleftrightarrow> maxPayload env < length body + endOverhead (ovh env) \<and> has_claims env \<and> acceptClaim env \<and>
     length body \<le> claimMaxBody"

record 's link =
  lk_writer :: writer
  lk_tasks :: "task list"
  lk_store :: 's

text \<open>
  One goroutine acts, with the randomness \<open>crypto/rand\<close> gave it and a publish that goes out or not; or
  somebody else uses the store.
\<close>

datatype 's link_event = Act nat "bytes option" bool | Interference 's

text \<open>What the store and the network answer to a task.\<close>

definition outside ::
  "(bytes option \<Rightarrow> bytes \<Rightarrow> 's \<Rightarrow> bytes option \<times> 's) \<Rightarrow> (bytes \<Rightarrow> 's \<Rightarrow> bool \<times> 's) \<Rightarrow> wenv \<Rightarrow> bytes option \<Rightarrow> bool \<Rightarrow> task \<Rightarrow> 's \<Rightarrow>
     answer \<times> 's" where
  "outside put del env r pub t s =
     (case t of
        EndTask b \<Rightarrow>
          if parks env (body_of b) then
            (case put r (body_of b) s of (res, s') \<Rightarrow> (\<lparr>publish_ok = pub, put_result = res, delete_ok = False\<rparr>, s'))
          else (\<lparr>publish_ok = pub, put_result = None, delete_ok = False\<rparr>, s)
      | DeleteTask i \<Rightarrow>
          (case del i s of (ok, s') \<Rightarrow> (\<lparr>publish_ok = pub, put_result = None, delete_ok = ok\<rparr>, s'))
      | _ \<Rightarrow> (\<lparr>publish_ok = pub, put_result = None, delete_ok = False\<rparr>, s))"

text \<open>The random names do not repeat while they are in use, and others leave alone what is parked here.\<close>

definition unused_name :: "(bytes \<Rightarrow> bytes) \<Rightarrow> bytes option \<Rightarrow> bytes list \<Rightarrow> bool" where
  "unused_name name r used = (case r of None \<Rightarrow> True | Some x \<Rightarrow> length x = 16 \<and> name x \<notin> set used)"

definition link_step ::
  "(bytes option \<Rightarrow> bytes \<Rightarrow> 's \<Rightarrow> bytes option \<times> 's) \<Rightarrow> (bytes \<Rightarrow> 's \<Rightarrow> bool \<times> 's) \<Rightarrow> ('s \<Rightarrow> bytes \<Rightarrow> bytes option) \<Rightarrow>
     (bytes \<Rightarrow> bytes) \<Rightarrow> wenv \<Rightarrow> 's link_event \<Rightarrow> 's link \<Rightarrow> 's link option" where
  "link_step put del fetch name env e l =
     (case e of
        Act n r pub \<Rightarrow>
          if n < length (lk_tasks l) \<and> lk_tasks l ! n \<noteq> DoneTask \<and> unused_name name r (w_parked (lk_writer l)) then
            (case outside put del env r pub (lk_tasks l ! n) (lk_store l) of
               (ans, s') \<Rightarrow>
                 (case exec_task env ans (lk_writer l) (lk_tasks l ! n) of
                    (w', t') \<Rightarrow> Some \<lparr>lk_writer = w', lk_tasks = (lk_tasks l)[n := t'], lk_store = s'\<rparr>))
          else None
      | Interference s' \<Rightarrow>
          if list_all (\<lambda>i. fetch (lk_store l) i = None \<or> fetch s' i = fetch (lk_store l) i) (w_parked (lk_writer l))
          then Some (l\<lparr>lk_store := s'\<rparr>) else None)"

definition fresh_link :: "task list \<Rightarrow> 's \<Rightarrow> 's link" where
  "fresh_link ts s = \<lparr>lk_writer = fresh_writer, lk_tasks = ts, lk_store = s\<rparr>"

section \<open>Where a frame comes from\<close>

text \<open>The response a handler gave, or the empty one of a cancelled request.\<close>

definition response_of :: "task list \<Rightarrow> bytes \<Rightarrow> bool" where
  "response_of init b \<longleftrightarrow> EndTask (Some b) \<in> set init \<or>
     b = [] \<and> (EndTask None \<in> set init \<or> (\<exists>h. FinalTask ClientCancelled h \<in> set init))"

definition frame_from :: "task list \<Rightarrow> wire_frame \<Rightarrow> bool" where
  "frame_from init f \<longleftrightarrow> (f_kind f = FrameMsg \<longrightarrow> MsgTask (f_body f) \<in> set init) \<and>
     (f_kind f = FrameEnd \<and> f_claim f = None \<longrightarrow> response_of init (f_body f)) \<and> (f_claim f \<noteq> None \<longrightarrow> f_kind f = FrameEnd)"

definition task_from :: "task list \<Rightarrow> task \<Rightarrow> bool" where
  "task_from init t \<longleftrightarrow>
     (case t of
        MsgTask b \<Rightarrow> t \<in> set init
      | EndTask b \<Rightarrow> response_of init (body_of b)
      | FinalTask c h \<Rightarrow> t \<in> set init
      | RespondTask f \<Rightarrow> frame_from init f
      | _ \<Rightarrow> True)"

lemma frame_from_simps [simp]:
  "frame_from init (msg_frame b) \<longleftrightarrow> MsgTask b \<in> set init" "frame_from init ka_frame"
  "frame_from init (end_frame b) \<longleftrightarrow> response_of init b" "frame_from init (claim_frame i)" "frame_from init (err_frame c m b)"
  by (simp_all add: frame_from_def msg_frame_def ka_frame_def end_frame_def claim_frame_def err_frame_def)

lemma errWithID_frame_err: "\<exists>c m b. errWithID_frame ov limit i code msg d = err_frame c m b"
  by (auto simp: errWithID_frame_def Let_def split: sum.split prod.split)

lemma frame_from_err [simp]: "frame_from init (errWithID_frame ov limit i code m d)"
  using errWithID_frame_err [of ov limit i code m d] by auto

lemma initial_from: "list_all initial_task init \<Longrightarrow> list_all (task_from init) init"
  by (auto simp: list_all_iff task_from_def initial_task_def response_of_def body_of_def split: task.splits option.splits)

lemma exec_from:
  assumes "exec_task env ans w t = (w', t')" "task_from init t" "list_all (frame_from init) (w_out w)"
  shows "task_from init t'" "list_all (frame_from init) (w_out w')"
  using assms
  by (cases t; auto simp: task_from_def publish_def claim_def Let_def oversize_err_def response_of_def body_of_def
      split: if_splits option.splits cause.splits)+

section \<open>Who holds a claim\<close>

definition task_claim :: "task \<Rightarrow> bytes option" where
  "task_claim t = (case t of ParkedTask i \<Rightarrow> Some i | DeleteTask i \<Rightarrow> Some i | RespondTask f \<Rightarrow> f_claim f | _ \<Rightarrow> None)"

lemma claim_of_simps [simp]:
  "f_claim (msg_frame b) = None" "f_claim ka_frame = None" "f_claim (end_frame b) = None"
  "f_claim (err_frame c m b) = None" "f_claim (claim_frame i) = Some i"
  "f_claim (errWithID_frame ov limit j code m' d) = None"
  using errWithID_frame_err [of ov limit j code m' d]
  by (auto simp: msg_frame_def ka_frame_def end_frame_def claim_frame_def err_frame_def)

lemma exec_claims:
  assumes "exec_task env ans w t = (w', t')"
  obtains (plain) "w_parked w' = w_parked w" "w_out w' = w_out w" "task_claim t' = None \<or> task_claim t' = task_claim t"
      "\<And>i. t = DeleteTask i \<Longrightarrow> t' = DoneTask"
  | (emitted) f where "w_parked w' = w_parked w" "w_out w' = w_out w @ [f]" "f_claim f = task_claim t" "t' = DoneTask"
      "\<And>i. t \<noteq> DeleteTask i"
  | (parked) b i where "t = EndTask b" "parks env (body_of b)" "put_result ans = Some i" "t' = ParkedTask i"
      "w_out w' = w_out w" "w_parked w' = i # w_parked w"
  | (deleted) i where "t = DeleteTask i" "t' = DoneTask" "w_out w' = w_out w" "w_parked w' = removeAll i (w_parked w)"
  using assms
  by (cases t; auto simp: task_claim_def publish_def claim_def Let_def oversize_err_def parks_def
      split: if_splits option.splits cause.splits)


section \<open>The claim service, and what it gives both ends\<close>

text \<open>The claims that are out.\<close>

definition out_claims :: "wire_frame list \<Rightarrow> bytes set" where
  "out_claims fs = {i. \<exists>f\<in>set fs. f_claim f = Some i}"

lemma out_claims_append [simp]: "out_claims (fs @ [f]) = out_claims fs \<union> {i. f_claim f = Some i}"
  by (auto simp: out_claims_def)

text \<open>What is parked is there, under a name that the randomness gives, until it is deleted itself.\<close>

locale claim_service =
  fixes put :: "bytes option \<Rightarrow> bytes \<Rightarrow> 's \<Rightarrow> bytes option \<times> 's" and del :: "bytes \<Rightarrow> 's \<Rightarrow> bool \<times> 's"
    and fetch :: "'s \<Rightarrow> bytes \<Rightarrow> bytes option" and name :: "bytes \<Rightarrow> bytes"
  assumes put_names: "put r b s = (Some i, s') \<Longrightarrow> \<exists>x. r = Some x \<and> i = name x"
    and put_fetch: "put (Some x) b s = (Some i, s') \<Longrightarrow> length x = 16 \<Longrightarrow> length b \<le> claimMaxBody \<Longrightarrow> fetch s' i = Some b"
    and put_keeps: "put r b s = (res, s') \<Longrightarrow> fetch s j = Some c \<Longrightarrow> r = None \<or> (\<exists>x. r = Some x \<and> name x \<noteq> j) \<Longrightarrow> fetch s' j = Some c"
    and del_keeps: "del i s = (ok, s') \<Longrightarrow> i \<noteq> j \<Longrightarrow> fetch s j = Some c \<Longrightarrow> fetch s' j = Some c"
    and names: "length x = 16 \<Longrightarrow> name x \<noteq> []"
begin

definition held :: "task list \<Rightarrow> wenv \<Rightarrow> 's link \<Rightarrow> bytes \<Rightarrow> bool" where
  "held init env l i \<longleftrightarrow> i \<noteq> [] \<and> i \<in> set (w_parked (lk_writer l)) \<and> acceptClaim env \<and>
     (\<exists>b. fetch (lk_store l) i = Some b \<and> response_of init b)"

text \<open>
  Every frame and task comes from the handler; a claim is held by one task, or by frames that are out,
  and what it names is in the store.
\<close>

definition link_inv :: "task list \<Rightarrow> wenv \<Rightarrow> 's link \<Rightarrow> bool" where
  "link_inv init env l \<longleftrightarrow> list_all (task_from init) (lk_tasks l) \<and> list_all (frame_from init) (w_out (lk_writer l)) \<and>
     (\<forall>m i. m < length (lk_tasks l) \<and> task_claim (lk_tasks l ! m) = Some i \<longrightarrow>
        held init env l i \<and> i \<notin> out_claims (w_out (lk_writer l)) \<and>
        (\<forall>n. n < length (lk_tasks l) \<and> n \<noteq> m \<longrightarrow> task_claim (lk_tasks l ! n) \<noteq> Some i)) \<and>
     (\<forall>i \<in> out_claims (w_out (lk_writer l)). held init env l i)"


lemma outside_keeps:
  assumes "outside put del env r pub t s = (ans, s')" "unused_name name r used" "i \<in> set used" "t \<noteq> DeleteTask i"
    and "fetch s i = Some b"
  shows "fetch s' i = Some b"
proof -
  have f: "r = None \<or> (\<exists>x. r = Some x \<and> name x \<noteq> i)"
    using assms(2,3) by (cases r) (auto simp: unused_name_def)
  show ?thesis
  proof (cases t)
    case (EndTask c)
    then show ?thesis
      using assms(1,5) put_keeps [OF _ assms(5) f] by (auto simp: outside_def split: if_splits prod.splits)
  next
    case (DeleteTask j)
    then show ?thesis
      using assms(1,4,5) del_keeps [OF _ _ assms(5)] by (auto simp: outside_def split: prod.splits)
  qed (use assms(1,5) in \<open>simp_all add: outside_def\<close>)
qed

lemma outside_parks:
  assumes "outside put del env r pub (EndTask c) s = (ans, s')" "parks env (body_of c)" "put_result ans = Some i"
    and "unused_name name r used"
  shows "fetch s' i = Some (body_of c)" "i \<notin> set used" "i \<noteq> []"
proof -
  have p: "put r (body_of c) s = (Some i, s')" using assms(1-3) by (auto simp: outside_def split: prod.splits)
  then obtain x where x: "r = Some x" "i = name x" using put_names by blast
  with assms(4) have "length x = 16" "i \<notin> set used" by (simp_all add: unused_name_def)
  moreover have "length (body_of c) \<le> claimMaxBody" using assms(2) by (simp add: parks_def)
  ultimately show "fetch s' i = Some (body_of c)" "i \<notin> set used" "i \<noteq> []" using p x put_fetch names by auto
qed

lemma held_keeps:
  assumes "held init env l i" "outside put del env r pub t (lk_store l) = (ans, s')"
    and "unused_name name r (w_parked (lk_writer l))" "t \<noteq> DeleteTask i" "i \<in> set (w_parked w')"
  shows "held init env \<lparr>lk_writer = w', lk_tasks = ts, lk_store = s'\<rparr> i"
  using assms outside_keeps [OF assms(2,3) _ assms(4)] unfolding held_def by auto

lemma link_inv_update:
  assumes "list_all (task_from init) (ts[n := t'])" "list_all (frame_from init) (w_out w')" "n < length ts"
    and "\<And>m i. m < length ts \<Longrightarrow> m \<noteq> n \<Longrightarrow> task_claim (ts ! m) = Some i \<Longrightarrow>
      held init env \<lparr>lk_writer = w', lk_tasks = ts[n := t'], lk_store = s'\<rparr> i \<and> i \<notin> out_claims (w_out w') \<and> task_claim t' \<noteq> Some i \<and>
      (\<forall>k. k < length ts \<and> k \<noteq> m \<longrightarrow> task_claim (ts ! k) \<noteq> Some i)"
    and "\<And>i. task_claim t' = Some i \<Longrightarrow>
      held init env \<lparr>lk_writer = w', lk_tasks = ts[n := t'], lk_store = s'\<rparr> i \<and> i \<notin> out_claims (w_out w')"
    and "\<And>i. i \<in> out_claims (w_out w') \<Longrightarrow> held init env \<lparr>lk_writer = w', lk_tasks = ts[n := t'], lk_store = s'\<rparr> i"
  shows "link_inv init env \<lparr>lk_writer = w', lk_tasks = ts[n := t'], lk_store = s'\<rparr>"
proof -
  let ?l' = "\<lparr>lk_writer = w', lk_tasks = ts[n := t'], lk_store = s'\<rparr>"
  have "held init env ?l' i \<and> i \<notin> out_claims (w_out w') \<and>
      (\<forall>k. k < length (ts[n := t']) \<and> k \<noteq> m \<longrightarrow> task_claim (ts[n := t'] ! k) \<noteq> Some i)"
    if m: "m < length ts" and i: "task_claim (ts[n := t'] ! m) = Some i" for m i
  proof (cases "m = n")
    case True
    with i assms(3) have "task_claim t' = Some i" by simp
    with assms(5) [OF this] assms(4) True show ?thesis by (metis length_list_update nth_list_update_neq)
  next
    case False
    with i have "task_claim (ts ! m) = Some i" by simp
    from assms(4) [OF m False this] assms(3) show ?thesis by (simp add: nth_list_update)
  qed
  with assms(1,2,6) show ?thesis unfolding link_inv_def by simp blast
qed

lemma link_inv_act:
  assumes inv: "link_inv init env l" and n: "n < length (lk_tasks l)" "lk_tasks l ! n = t"
    and out: "outside put del env r pub t (lk_store l) = (ans, s')" and fresh: "unused_name name r (w_parked (lk_writer l))"
    and exec: "exec_task env ans (lk_writer l) t = (w', t')"
  shows "link_inv init env \<lparr>lk_writer = w', lk_tasks = (lk_tasks l)[n := t'], lk_store = s'\<rparr>" (is "link_inv _ _ ?l'")
proof -
  let ?ts = "lk_tasks l" and ?oc = "out_claims (w_out (lk_writer l))"
  have tasks: "held init env l i \<and> i \<notin> ?oc \<and> (\<forall>k. k < length ?ts \<and> k \<noteq> m \<longrightarrow> task_claim (?ts ! k) \<noteq> Some i)"
    if "m < length ?ts" "task_claim (?ts ! m) = Some i" for m i
    using inv that unfolding link_inv_def by blast
  have outs: "held init env l i" if "i \<in> ?oc" for i using inv that unfolding link_inv_def by blast
  have "list_all (task_from init) ?ts" "list_all (frame_from init) (w_out (lk_writer l))"
    using inv by (simp_all add: link_inv_def)
  moreover from this(1) n have "task_from init t" by (auto simp: list_all_iff)
  ultimately have from': "list_all (task_from init) (lk_tasks ?l')" "list_all (frame_from init) (w_out w')"
    and t: "task_from init t"
    using exec_from [OF exec, of init] by (simp_all add: list_all_update)
  have mine: "held init env l i \<and> i \<notin> ?oc" if "task_claim t = Some i" for i using tasks [of n i] n that by simp
  have others: "held init env l i \<and> i \<notin> ?oc \<and> task_claim t \<noteq> Some i \<and>
      (\<forall>k. k < length ?ts \<and> k \<noteq> m \<longrightarrow> task_claim (?ts ! k) \<noteq> Some i)"
    if "m < length ?ts" "m \<noteq> n" "task_claim (?ts ! m) = Some i" for m i
    using tasks [OF that(1,3)] n that(2) by auto
  have del: "t \<noteq> DeleteTask i" if "task_claim t \<noteq> Some i" for i using that by (auto simp: task_claim_def)
  have keep: "held init env ?l' i" if "held init env l i" "t \<noteq> DeleteTask i" "i \<in> set (w_parked w')" for i
    by (rule held_keeps [OF that(1) out fresh that(2,3)])
  have parked: "i \<in> set (w_parked (lk_writer l))" if "held init env l i" for i using that by (simp add: held_def)
  from exec show ?thesis
  proof (cases rule: exec_claims)
    case plain
    have h: "held init env ?l' i" if "held init env l i" "t \<noteq> DeleteTask i" for i
      using keep [OF that] parked [OF that(1)] plain(1) by simp
    have t': "task_claim t = Some i \<and> t \<noteq> DeleteTask i" if c: "task_claim t' = Some i" for i
    proof -
      have "t' \<noteq> DoneTask" using c by (auto simp: task_claim_def)
      with plain(4) have "t \<noteq> DeleteTask i" by blast
      with c plain(3) show ?thesis by simp
    qed
    show ?thesis
    proof (rule link_inv_update [OF from' [simplified] n(1)])
      fix m i assume "m < length ?ts" "m \<noteq> n" "task_claim (?ts ! m) = Some i"
      from others [OF this] h del t'
      show "held init env ?l' i \<and> i \<notin> out_claims (w_out w') \<and> task_claim t' \<noteq> Some i \<and>
        (\<forall>k. k < length ?ts \<and> k \<noteq> m \<longrightarrow> task_claim (?ts ! k) \<noteq> Some i)" unfolding plain(2) by blast
    next
      fix i assume "task_claim t' = Some i"
      from t' [OF this] mine h show "held init env ?l' i \<and> i \<notin> out_claims (w_out w')" unfolding plain(2) by blast
    next
      fix i assume "i \<in> out_claims (w_out w')"
      then show "held init env ?l' i" using outs h del mine unfolding plain(2) by blast
    qed
  next
    case (emitted f)
    have h: "held init env ?l' i" if "held init env l i" for i
      using keep [OF that] parked [OF that] emitted(1,5) by simp
    have t': "task_claim t' = None" using emitted(4) by (simp add: task_claim_def)
    have oc: "out_claims (w_out w') = ?oc \<union> {i. task_claim t = Some i}" unfolding emitted(2) out_claims_append emitted(3) by simp
    show ?thesis
    proof (rule link_inv_update [OF from' [simplified] n(1)])
      fix m i assume "m < length ?ts" "m \<noteq> n" "task_claim (?ts ! m) = Some i"
      from others [OF this] h t'
      show "held init env ?l' i \<and> i \<notin> out_claims (w_out w') \<and> task_claim t' \<noteq> Some i \<and>
        (\<forall>k. k < length ?ts \<and> k \<noteq> m \<longrightarrow> task_claim (?ts ! k) \<noteq> Some i)" unfolding oc by auto
    next
      fix i assume "i \<in> out_claims (w_out w')"
      then show "held init env ?l' i" using outs h mine unfolding oc by blast
    qed (use t' in simp)
  next
    case (parked b i)
    note p = outside_parks [OF out [unfolded parked(1)] parked(2,3) fresh]
    have new: "held init env ?l' i"
      using p parked t by (simp add: held_def task_from_def parks_def)
    have h: "held init env ?l' j \<and> j \<noteq> i" if "held init env l j" for j
      using keep [OF that] that p(2) parked(1,6) by (auto simp: held_def)
    have t': "task_claim t' = Some i" using parked(4) by (simp add: task_claim_def)
    show ?thesis
    proof (rule link_inv_update [OF from' [simplified] n(1)])
      fix m j assume "m < length ?ts" "m \<noteq> n" "task_claim (?ts ! m) = Some j"
      from others [OF this] h [of j] t'
      show "held init env ?l' j \<and> j \<notin> out_claims (w_out w') \<and> task_claim t' \<noteq> Some j \<and>
        (\<forall>k. k < length ?ts \<and> k \<noteq> m \<longrightarrow> task_claim (?ts ! k) \<noteq> Some j)" unfolding parked(5) by auto
    next
      fix j assume "task_claim t' = Some j"
      with t' new outs h show "held init env ?l' j \<and> j \<notin> out_claims (w_out w')" unfolding parked(5) by auto
    next
      fix j assume "j \<in> out_claims (w_out w')"
      then show "held init env ?l' j" using outs h unfolding parked(5) by blast
    qed
  next
    case (deleted i)
    have i: "task_claim t = Some i" using deleted(1) by (simp add: task_claim_def)
    have h: "held init env ?l' j" if "held init env l j" "j \<noteq> i" for j
      using keep [OF that(1)] parked [OF that(1)] that(2) deleted(1,4) by simp
    have t': "task_claim t' = None" using deleted(2) by (simp add: task_claim_def)
    show ?thesis
    proof (rule link_inv_update [OF from' [simplified] n(1)])
      fix m j assume "m < length ?ts" "m \<noteq> n" "task_claim (?ts ! m) = Some j"
      from others [OF this] h [of j] t' i
      show "held init env ?l' j \<and> j \<notin> out_claims (w_out w') \<and> task_claim t' \<noteq> Some j \<and>
        (\<forall>k. k < length ?ts \<and> k \<noteq> m \<longrightarrow> task_claim (?ts ! k) \<noteq> Some j)" unfolding deleted(3) by auto
    next
      fix j assume "j \<in> out_claims (w_out w')"
      then show "held init env ?l' j" using outs h mine [OF i] unfolding deleted(3) by blast
    qed (use t' in simp)
  qed
qed

lemma link_inv_start: "list_all initial_task init \<Longrightarrow> link_inv init env (fresh_link init s)"
  using initial_from [of init]
  by (auto simp: link_inv_def fresh_link_def fresh_writer_def out_claims_def list_all_iff initial_task_def task_claim_def
      split: task.splits dest!: nth_mem)

lemma held_interference:
  "list_all (\<lambda>i. fetch (lk_store l) i = None \<or> fetch s' i = fetch (lk_store l) i) (w_parked (lk_writer l)) \<Longrightarrow>
     held init env l i \<Longrightarrow> held init env (l\<lparr>lk_store := s'\<rparr>) i"
  by (auto simp: held_def list_all_iff)

end

sublocale claim_service \<subseteq> steps: step_invariant "link_step put del fetch name env" "link_inv init env" for init env
proof
  fix l e l'
  assume inv: "link_inv init env l" and step: "link_step put del fetch name env e l = Some l'"
  show "link_inv init env l'"
  proof (cases e)
    case (Act n r pub)
    obtain ans s' where o: "outside put del env r pub (lk_tasks l ! n) (lk_store l) = (ans, s')" by fastforce
    obtain w' t' where x: "exec_task env ans (lk_writer l) (lk_tasks l ! n) = (w', t')" by fastforce
    show ?thesis
      using link_inv_act [OF inv _ refl o _ x] step o x by (auto simp: link_step_def Act split: if_splits)
  next
    case (Interference s')
    with step have l': "l' = l\<lparr>lk_store := s'\<rparr>"
      and "list_all (\<lambda>i. fetch (lk_store l) i = None \<or> fetch s' i = fetch (lk_store l) i) (w_parked (lk_writer l))"
      by (auto simp: link_step_def split: if_splits)
    with inv held_interference show ?thesis unfolding link_inv_def by simp
  qed
qed

section \<open>What the client consumes\<close>

lemma pump_served:
  assumes "list_all (fetchable c fetch) fs" "fs = ms @ es" "list_all (\<lambda>f. \<not> terminal f) ms" "list_all terminal es" "length es \<le> 1"
  shows "pump c fetch (served fs) = (map (surfaced fetch) (filter (\<lambda>f. f_kind f \<noteq> FrameKA) fs), list_ex terminal fs)"
  using assms
proof (induction ms arbitrary: fs)
  case Nil
  show ?case
  proof (cases es)
    case (Cons e es')
    with Nil have "fs = [e]" "terminal e" by simp_all
    moreover from this have "f_kind e \<noteq> FrameKA" by (auto simp: terminal_def frame_Terminal_def)
    ultimately show ?thesis using Nil(1) by (simp add: served_def pump_turn_served)
  next
    case Nil
    with \<open>fs = [] @ es\<close> show ?thesis by (simp add: served_def)
  qed
next
  case (Cons f ms)
  from Cons.IH [of "ms @ es"] Cons.prems
  have "pump c fetch (served (ms @ es)) = (map (surfaced fetch) (filter (\<lambda>f. f_kind f \<noteq> FrameKA) (ms @ es)), list_ex terminal (ms @ es))"
    by simp
  with Cons.prems show ?case by (simp add: served_def pump_turn_served)
qed

lemma link_sys_reach:
  assumes "reaches (link_step put del fetch name env) (fresh_link init s) l"
  shows "sys_reach env (\<lambda>_. True) init (lk_writer l, lk_tasks l)"
  using assms
proof (induction rule: reaches.induct)
  case reaches_init
  show ?case by (simp add: fresh_link_def sys_reach.start)
next
  case (reaches_step l e l')
  then show ?case
  proof (cases e)
    case (Act n r pub)
    obtain ans s' where o: "outside put del env r pub (lk_tasks l ! n) (lk_store l) = (ans, s')" by fastforce
    obtain w' t' where x: "exec_task env ans (lk_writer l) (lk_tasks l ! n) = (w', t')" by fastforce
    from reaches_step.hyps(2) o x Act
    have n: "n < length (lk_tasks l)" "lk_tasks l ! n \<noteq> DoneTask" and l': "lk_writer l' = w'" "lk_tasks l' = (lk_tasks l)[n := t']"
      by (auto simp: link_step_def split: if_splits)
    have "sys_step env (\<lambda>_. True) (lk_writer l, lk_tasks l) (w', (lk_tasks l)[n := t'])"
      by (rule sys_step.step [OF n _ x]) simp
    with reaches_step.IH l' show ?thesis by (auto intro: sys_reach.more)
  next
    case (Interference s')
    with reaches_step show ?thesis by (auto simp: link_step_def split: if_splits)
  qed
qed

context claim_service begin

lemma consumed:
  assumes "list_all initial_task init" "reaches (link_step put del fetch name env) (fresh_link init s) l"
    and "acceptClaim env \<longrightarrow> c_claims c" "pump c (fetch (lk_store l)) (served (w_out (lk_writer l))) = (fs, ended)"
  shows "map cf_kind fs = filter (\<lambda>k. k \<noteq> FrameKA) (map f_kind (w_out (lk_writer l)))"
    and "ended = list_ex terminal (w_out (lk_writer l))"
    and "f \<in> set fs \<Longrightarrow> cf_err f = None \<and> (cf_kind f = FrameMsg \<longrightarrow> MsgTask (cf_body f) \<in> set init) \<and>
      (cf_kind f = FrameEnd \<longrightarrow> response_of init (cf_body f))"
proof -
  let ?out = "w_out (lk_writer l)" and ?fetch = "fetch (lk_store l)"
  have inv: "link_inv init env l" by (rule steps.reaches_keeps [OF assms(2) link_inv_start [OF assms(1)]])
  then have from': "frame_from init g" if "g \<in> set ?out" for g using that by (auto simp: link_inv_def list_all_iff)
  have claims: "held init env l i" if "g \<in> set ?out" "f_claim g = Some i" for g i
    using inv that unfolding link_inv_def out_claims_def by blast
  have "fetchable c ?fetch g" if "g \<in> set ?out" for g
    using from' [OF that] claims [OF that] assms(3)
    by (cases "f_claim g") (auto simp: fetchable_def frame_from_def held_def)
  then have fetchable: "list_all (fetchable c ?fetch) ?out" by (simp add: list_all_iff)
  have "stream_inv (lk_writer l, lk_tasks l)" using stream_inv_reach [OF link_sys_reach [OF assms(2)] assms(1)] .
  then obtain ms es where "?out = ms @ es" "list_all (\<lambda>f. \<not> terminal f) ms" "list_all terminal es" "length es \<le> 1"
    unfolding stream_inv_def prod.case by (elim conjE exE) (rule that, assumption+, simp)
  from pump_served [OF fetchable this] assms(4)
  have fs: "fs = map (surfaced ?fetch) (filter (\<lambda>f. f_kind f \<noteq> FrameKA) ?out)" and "ended = list_ex terminal ?out" by simp_all
  then show "map cf_kind fs = filter (\<lambda>k. k \<noteq> FrameKA) (map f_kind ?out)" "ended = list_ex terminal ?out"
    by (simp_all add: surfaced_def filter_map comp_def)
  assume "f \<in> set fs"
  with fs obtain g where g: "g \<in> set ?out" "f = surfaced ?fetch g" by auto
  show "cf_err f = None \<and> (cf_kind f = FrameMsg \<longrightarrow> MsgTask (cf_body f) \<in> set init) \<and>
      (cf_kind f = FrameEnd \<longrightarrow> response_of init (cf_body f))"
    using from' [OF g(1)] claims [OF g(1)] g(2)
    by (cases "f_claim g") (auto simp: surfaced_def frame_from_def held_def)
qed

end

section \<open>Object claims provide the service\<close>

text \<open>What \<open>ObjectClaims\<close> relies on: an object store keeps an object until it is put again or deleted.\<close>

definition has_object :: "'s jetstream \<Rightarrow> bytes \<Rightarrow> 's \<Rightarrow> bytes \<Rightarrow> nat option \<times> (js_error + bytes) \<Rightarrow> bool" where
  "has_object js b s i v \<longleftrightarrow> js_open js b s = Inr () \<and> js_get js b i s = Inr v"

definition object_store :: "'s jetstream \<Rightarrow> bool" where
  "object_store js \<longleftrightarrow>
     (\<forall>b i chunk body s s'. js_put js b i chunk body s = (Inr (), s') \<longrightarrow> has_object js b s' i (Some (length body), Inr body)) \<and>
     (\<forall>b i chunk body s res s' j v. js_put js b i chunk body s = (res, s') \<longrightarrow> j \<noteq> i \<longrightarrow> has_object js b s j v \<longrightarrow> has_object js b s' j v) \<and>
     (\<forall>b lim s res s' j v. js_create js b lim s = (res, s') \<longrightarrow> has_object js b s j v \<longrightarrow> has_object js b s' j v) \<and>
     (\<forall>b i s res s' j v. js_delete js b i s = (res, s') \<longrightarrow> j \<noteq> i \<longrightarrow> has_object js b s j v \<longrightarrow> has_object js b s' j v)"

text \<open>The calls of the two ends for one tenant.\<close>

definition bucket_put :: "'s jetstream \<Rightarrow> bytes \<Rightarrow> bytes option \<Rightarrow> bytes \<Rightarrow> claims \<times> 's \<Rightarrow> bytes option \<times> claims \<times> 's" where
  "bucket_put js tenant r body cs = (case Put js r tenant body cs of (Inl _, cs') \<Rightarrow> (None, cs') | (Inr i, cs') \<Rightarrow> (Some i, cs'))"

definition bucket_delete :: "'s jetstream \<Rightarrow> bytes \<Rightarrow> bytes \<Rightarrow> claims \<times> 's \<Rightarrow> bool \<times> claims \<times> 's" where
  "bucket_delete js tenant i cs = (case claim_Delete js tenant i cs of (Inl _, cs') \<Rightarrow> (False, cs') | (Inr _, cs') \<Rightarrow> (True, cs'))"

definition bucket_fetch :: "'s jetstream \<Rightarrow> bytes \<Rightarrow> claims \<times> 's \<Rightarrow> bytes \<Rightarrow> bytes option" where
  "bucket_fetch js tenant cs i = (case fst (Fetch js 0 True tenant i cs) of Inl _ \<Rightarrow> None | Inr body \<Rightarrow> Some body)"

text \<open>What is fetched does not depend on the client's own state, on the time or on its context.\<close>

lemma Fetch_any_client: "fst (Fetch js now alive tenant i (cl, s)) = fst (Fetch js now' alive' tenant i (cl', s))"
  by (simp add: Fetch_def Let_def split: sum.split prod.split)

lemma bucket_fetch_iff:
  "bucket_fetch js tenant cs i = Some body \<longleftrightarrow> TokenSafe tenant \<and> TokenSafe i \<and> length body \<le> claimMaxBody \<and>
     (\<exists>declared. has_object js (claimBucketPrefix @ tenant) (snd cs) i (declared, Inr body) \<and>
        (case declared of Some n \<Rightarrow> n \<le> claimMaxBody | None \<Rightarrow> True))"
  by (auto simp: bucket_fetch_def Fetch_def Let_def has_object_def min_def not_less split: sum.splits prod.splits option.splits if_splits)

locale bucket =
  fixes js :: "'s jetstream" and tenant :: bytes
  assumes store: "object_store js" and tenant: "TokenSafe tenant"
begin

lemma put_object: "js_put js b i chunk body s = (Inr (), s') \<Longrightarrow> has_object js b s' i (Some (length body), Inr body)"
  using store [unfolded object_store_def, THEN conjunct1, rule_format] .

lemma put_other: "js_put js b i chunk body s = (res, s') \<Longrightarrow> j \<noteq> i \<Longrightarrow> has_object js b s j v \<Longrightarrow> has_object js b s' j v"
  using store [unfolded object_store_def, THEN conjunct2, THEN conjunct1, rule_format] .

lemma delete_other: "js_delete js b i s = (res, s') \<Longrightarrow> j \<noteq> i \<Longrightarrow> has_object js b s j v \<Longrightarrow> has_object js b s' j v"
  using store unfolding object_store_def by blast

lemma create_keeps: "js_create js b lim s = (res, s') \<Longrightarrow> has_object js b s j v \<Longrightarrow> has_object js b s' j v"
  using store unfolding object_store_def by blast

lemma recreate_keeps:
  "recreateBucket js tenant cs = (res, cs') \<Longrightarrow> has_object js b (snd cs) j v \<Longrightarrow> b = claimBucketPrefix @ tenant \<Longrightarrow>
     has_object js b (snd cs') j v"
  by (auto simp: recreateBucket_def dest: create_keeps split: prod.splits sum.splits if_splits)

lemma open_keeps:
  "open_bucket js tenant cs = (res, cs') \<Longrightarrow> has_object js b (snd cs) j v \<Longrightarrow> b = claimBucketPrefix @ tenant \<Longrightarrow>
     has_object js b (snd cs') j v"
  by (auto simp: open_bucket_def dest: recreate_keeps split: if_splits)

lemma Put_other:
  assumes "Put js r tenant body cs = (res, cs')" "r = None \<or> (\<exists>x. r = Some x \<and> hex_EncodeToString x \<noteq> j)"
    and "has_object js (claimBucketPrefix @ tenant) (snd cs) j v"
  shows "has_object js (claimBucketPrefix @ tenant) (snd cs') j v"
proof (cases r)
  case (Some x)
  with assms(2) have j: "j \<noteq> hex_EncodeToString x" by auto
  let ?b = "claimBucketPrefix @ tenant" and ?i = "hex_EncodeToString x" and ?chunk = "chunk_size (js_maxPayload js)"
  obtain r1 cl1 s1 where o: "open_bucket js tenant cs = (r1, cl1, s1)" using prod_cases3 by blast
  obtain r2 s2 where p: "js_put js ?b ?i ?chunk body s1 = (r2, s2)" by fastforce
  obtain r3 cl3 s3 where re: "recreateBucket js tenant (cl1, s2) = (r3, cl3, s3)" using prod_cases3 by blast
  obtain r4 s4 where p': "js_put js ?b ?i ?chunk body s3 = (r4, s4)" by fastforce
  have h1: "has_object js ?b s1 j v" using open_keeps [OF o assms(3)] by simp
  note h2 = put_other [OF p j h1]
  have h3: "has_object js ?b s3 j v" using recreate_keeps [OF re _ refl] h2 by simp
  note h4 = put_other [OF p' j h3]
  have "snd cs' \<in> {s1, s2, s3, s4}"
    using assms(1) unfolding Put_def Some by (auto simp: Let_def o p re p' split: sum.splits if_splits)
  with h1 h2 h3 h4 show ?thesis by auto
qed (use assms in \<open>simp add: Put_def\<close>)

lemma Put_held:
  assumes "Put js (Some x) tenant body cs = (Inr i, cs')"
  shows "i = hex_EncodeToString x" "has_object js (claimBucketPrefix @ tenant) (snd cs') i (Some (length body), Inr body)"
proof -
  obtain cl' s' where cs': "cs' = (cl', s')" by fastforce
  obtain s where i: "i = hex_EncodeToString x"
    and "js_put js (claimBucketPrefix @ tenant) i (chunk_size (js_maxPayload js)) body s = (Inr (), s')"
    using Put_puts [OF assms [unfolded cs']] tenant by blast
  from put_object [OF this(2)] cs' i
  show "i = hex_EncodeToString x" "has_object js (claimBucketPrefix @ tenant) (snd cs') i (Some (length body), Inr body)"
    by simp_all
qed

lemma claim_Delete_other:
  "claim_Delete js tenant i cs = (res, cs') \<Longrightarrow> i \<noteq> j \<Longrightarrow> has_object js b (snd cs) j v \<Longrightarrow> b = claimBucketPrefix @ tenant \<Longrightarrow>
     has_object js b (snd cs') j v"
  by (auto simp: claim_Delete_def Let_def dest: delete_other split: if_splits sum.splits prod.splits)

end

sublocale bucket \<subseteq> claims: claim_service "bucket_put js tenant" "bucket_delete js tenant" "bucket_fetch js tenant" hex_EncodeToString
proof
  show "bucket_put js tenant r b cs = (Some i, cs') \<Longrightarrow> \<exists>x. r = Some x \<and> i = hex_EncodeToString x" for r b cs i cs'
    using Put_held(1) [of _ b cs i cs'] by (cases r) (auto simp: bucket_put_def Put_def split: prod.splits sum.splits)
  show "bucket_fetch js tenant cs' i = Some b"
    if "bucket_put js tenant (Some x) b cs = (Some i, cs')" "length x = 16" "length b \<le> claimMaxBody" for x b cs i cs'
  proof -
    from that(1) have "Put js (Some x) tenant b cs = (Inr i, cs')" by (auto simp: bucket_put_def split: prod.splits sum.splits)
    from Put_held [OF this] that(2,3) tenant show ?thesis
      unfolding bucket_fetch_iff using hex_safe [of x] by fastforce
  qed
  show "bucket_fetch js tenant cs' j = Some c"
    if "bucket_put js tenant r b cs = (res, cs')" "bucket_fetch js tenant cs j = Some c"
      "r = None \<or> (\<exists>x. r = Some x \<and> hex_EncodeToString x \<noteq> j)" for r b cs res cs' j c
  proof -
    from that(1) obtain res' where "Put js r tenant b cs = (res', cs')" by (auto simp: bucket_put_def split: prod.splits sum.splits)
    from Put_other [OF this that(3)] that(2) show ?thesis unfolding bucket_fetch_iff by blast
  qed
  show "bucket_fetch js tenant cs' j = Some c"
    if "bucket_delete js tenant i cs = (ok, cs')" "i \<noteq> j" "bucket_fetch js tenant cs j = Some c" for i cs ok cs' j c
  proof -
    from that(1) obtain res where "claim_Delete js tenant i cs = (res, cs')" by (auto simp: bucket_delete_def split: prod.splits sum.splits)
    from claim_Delete_other [OF this that(2)] that(3) show ?thesis unfolding bucket_fetch_iff by blast
  qed
  show "hex_EncodeToString x \<noteq> []" if "length x = 16" for x
    using hex_safe [of x] that by (cases x) (auto simp: TokenSafe_def)
qed

context bucket begin

lemmas axioms_service = claims.claim_service_axioms

end

lemma map_js_store: "object_store map_js"
  unfolding object_store_def has_object_def map_js_def by (auto split: option.splits)

interpretation map_bucket: bucket map_js "''acme''"
proof
  show "object_store map_js" by (rule map_js_store)
  show "TokenSafe ''acme''" by code_simp
qed

section \<open>End to end\<close>

text \<open>
  C7. The client gets what the handler said, also when it was too large for a message.  Whatever the
  goroutines that serve a request do in which order, whichever publish is lost and whatever others do
  with the tenant's bucket, as long as they leave what is parked there alone: a client that announced
  that it accepts claims consumes the notifications of the handler, each with its body, and its response
  with its whole body, fetched from the object store when it was parked; it never sees the failure of a
  claim, and its stream has ended if and only if a terminal frame was published.
\<close>

theorem responses_arrive_whole:
  assumes "object_store js" "TokenSafe tenant" "list_all initial_task init" "acceptClaim env \<longrightarrow> c_claims c"
    and "reaches (link_step (bucket_put js tenant) (bucket_delete js tenant) (bucket_fetch js tenant) hex_EncodeToString env)
      (fresh_link init s) l"
    and "pump c (bucket_fetch js tenant (lk_store l)) (served (w_out (lk_writer l))) = (fs, ended)"
  shows "map cf_kind fs = filter (\<lambda>k. k \<noteq> FrameKA) (map f_kind (w_out (lk_writer l))) \<and>
    ended = list_ex terminal (w_out (lk_writer l)) \<and>
    (\<forall>f\<in>set fs. cf_err f = None \<and> (cf_kind f = FrameMsg \<longrightarrow> MsgTask (cf_body f) \<in> set init) \<and>
      (cf_kind f = FrameEnd \<longrightarrow> response_of init (cf_body f)))"
proof -
  have "bucket js tenant" using assms(1,2) by (rule bucket.intro)
  then have "claim_service (bucket_put js tenant) (bucket_delete js tenant) (bucket_fetch js tenant) hex_EncodeToString"
    by (rule bucket.axioms_service)
  from claim_service.consumed [OF this assms(3,5,4,6)] show ?thesis by blast
qed

text \<open>A response of three bytes that does not fit, parked under a name of sixteen random bytes.\<close>

definition ex_parking :: wenv where
  "ex_parking = \<lparr>ovh = (\<lambda>k _ _. if k = FrameEnd then 8 else 0), maxPayload = 10, req_id = None, has_claims = True, acceptClaim = True\<rparr>"

definition ex_random :: bytes where
  "ex_random = replicate 16 (CHR ''r'')"

definition ex_consumer :: client where
  "ex_consumer = \<lparr>c_prefix = [], c_tenant = ''acme'', c_user = ''_'', c_inactivity = 1, c_claims = True\<rparr>"

abbreviation ex_link_step where
  "ex_link_step \<equiv> link_step (bucket_put map_js ''acme'') (bucket_delete map_js ''acme'') (bucket_fetch map_js ''acme'') hex_EncodeToString ex_parking"

lemma ex_put: "\<exists>cs. bucket_put map_js ''acme'' (Some ex_random) ''big'' (no_claims, \<lambda>_. None) = (Some (hex_EncodeToString ex_random), cs)"
proof -
  have "TokenSafe ''acme''" by code_simp
  then show ?thesis
    by (simp add: bucket_put_def Put_def Let_def open_bucket_def recreateBucket_def map_js_def no_claims_def)
qed

theorem responses_arrive_whole_witness:
  "\<exists>l fs. reaches ex_link_step (fresh_link [MsgTask ''n'', EndTask (Some ''big'')] (no_claims, \<lambda>_. None)) l \<and>
     pump ex_consumer (bucket_fetch map_js ''acme'' (lk_store l)) (served (w_out (lk_writer l))) = (fs, True) \<and>
     map cf_kind fs = [FrameMsg, FrameEnd] \<and> cf_body (last fs) = ''big''"
proof -
  let ?init = "[MsgTask ''n'', EndTask (Some ''big'')]" and ?es = "[Act 0 None True, Act 1 (Some ex_random) True, Act 1 None True, Act 1 None True]"
  let ?i = "hex_EncodeToString ex_random"
  obtain cs where cs: "bucket_put map_js ''acme'' (Some ex_random) ''big'' (no_claims, \<lambda>_. None) = (Some ?i, cs)"
    using ex_put by blast
  define l where "l = \<lparr>lk_writer = \<lparr>w_done = True, w_out = [msg_frame ''n'', claim_frame ?i], w_parked = [?i]\<rparr>,
    lk_tasks = [DoneTask, DoneTask], lk_store = cs\<rparr>"
  have "run_steps ex_link_step ?es (fresh_link ?init (no_claims, \<lambda>_. None)) = Some l"
    by (simp add: link_step_def outside_def fresh_link_def fresh_writer_def unused_name_def ex_parking_def parks_def msgOverhead_def
        endOverhead_def body_of_def cs publish_def fits_def frameOverhead_def msg_frame_def claim_frame_def claim_def l_def
        ex_random_def [THEN arg_cong [of _ _ length]] claimMaxBody_def)
  then have r: "reaches ex_link_step (fresh_link ?init (no_claims, \<lambda>_. None)) l"
    by (rule run_steps_reaches [OF reaches_init])
  obtain fs ended where p: "pump ex_consumer (bucket_fetch map_js ''acme'' (lk_store l)) (served (w_out (lk_writer l))) = (fs, ended)"
    by fastforce
  have "list_all initial_task ?init" by (simp add: initial_task_def)
  moreover have "acceptClaim ex_parking \<longrightarrow> c_claims ex_consumer" by (simp add: ex_consumer_def)
  ultimately have "map cf_kind fs = filter (\<lambda>k. k \<noteq> FrameKA) (map f_kind (w_out (lk_writer l)))"
      "ended = list_ex terminal (w_out (lk_writer l))"
      "\<forall>f\<in>set fs. cf_err f = None \<and> (cf_kind f = FrameMsg \<longrightarrow> MsgTask (cf_body f) \<in> set ?init) \<and>
        (cf_kind f = FrameEnd \<longrightarrow> response_of ?init (cf_body f))"
    using responses_arrive_whole [OF map_js_store _ _ _ r p] map_bucket.tenant by blast+
  moreover from this(1,2) have "map cf_kind fs = [FrameMsg, FrameEnd]" "ended"
    by (simp_all add: l_def msg_frame_def claim_frame_def terminal_def frame_Terminal_def)
  moreover from this(1) have "last fs \<in> set fs" "cf_kind (last fs) = FrameEnd" by (auto simp: last_map [symmetric] map_eq_Cons_conv)
  ultimately show ?thesis using r p by (auto simp: response_of_def)
qed

end
