(* ===== verification/ConfigParse.thy ===== *)
theory ConfigParse
  imports Config
begin

text \<open>
  Reading a configuration document (\<open>Load\<close>, \<open>Parse\<close>, \<open>ParseInline\<close> and \<open>ParseFetched\<close> of
  \<open>pkg/config/config.go\<close>): decode, expand, validate.  The decoder is \<open>encoding/json\<close> on the types the
  package declares; \<open>gtype\<close> describes them, and the decoded document is a \<open>gval\<close>, the form in which
  \<open>expandValue\<close> walks it.  A nil map or slice shows like a nil pointer there, and a bool like the number
  1 or 0, as the walk passes over all of them alike.
\<close>

section \<open>The types of a document\<close>

datatype gtype =
    TString
  | TBool
  | TInt
  | TPtr gtype
  | TSlice gtype
  | TMap gtype
  | TStruct "(bytes \<times> gtype) list"

definition ClaimCheck_type :: gtype where
  "ClaimCheck_type = TStruct [(''maxAge'', TString), (''maxBytes'', TInt)]"

definition NATS_type :: gtype where
  "NATS_type = TStruct [(''url'', TString), (''credsFile'', TString), (''subjectPrefix'', TString), (''inboxPrefix'', TString),
     (''queueGroup'', TString), (''tenant'', TString), (''user'', TString)]"

definition Auth_type :: gtype where
  "Auth_type = TStruct [(''mode'', TString), (''command'', TString), (''args'', TSlice TString), (''env'', TMap TString),
     (''waitDelay'', TString), (''path'', TString), (''ttl'', TString), (''tokenUrl'', TString), (''clientId'', TString),
     (''clientSecret'', TString), (''scope'', TString), (''audience'', TString), (''subjectTokenFile'', TString),
     (''subjectTokenType'', TString), (''refreshTokenFile'', TString), (''subject'', TString), (''perUser'', TPtr TBool)]"

definition Server_type :: gtype where
  "Server_type = TStruct [(''protocol'', TString), (''transport'', TString), (''command'', TString), (''args'', TSlice TString),
     (''env'', TMap TString), (''url'', TString), (''headers'', TMap TString), (''allowPlaintext'', TBool),
     (''discoverTtlMs'', TInt), (''cacheScope'', TString), (''auth'', TPtr Auth_type)]"

definition Pool_type :: gtype where
  "Pool_type = TStruct [(''maxConcurrent'', TInt), (''maxProcsPerTenant'', TInt), (''idleTtl'', TString), (''maxLifetime'', TString)]"

definition Config_type :: gtype where
  "Config_type = TStruct [(''nats'', NATS_type), (''servers'', TMap Server_type), (''pool'', Pool_type),
     (''claimCheck'', TPtr ClaimCheck_type)]"

fun zero_value :: "gtype \<Rightarrow> gval" where
  "zero_value TString = GString []"
| "zero_value TBool = GNumber 0"
| "zero_value TInt = GNumber 0"
| "zero_value (TPtr t) = GPointer None"
| "zero_value (TSlice t) = GPointer None"
| "zero_value (TMap t) = GPointer None"
| "zero_value (TStruct fs) = GStruct (map (\<lambda>(f, t). (f, zero_value t)) fs)"

section \<open>Decoding\<close>

datatype decode_failure = NotJSON | WrongType | UnknownField bytes

text \<open>The entries of a map in the order of their keys, which is the order the walk takes.\<close>

fun put_entry :: "bytes \<Rightarrow> gval \<Rightarrow> (bytes \<times> gval) list \<Rightarrow> (bytes \<times> gval) list" where
  "put_entry k v [] = [(k, v)]"
| "put_entry k v ((l, w) # kvs) =
     (if k = l then (k, v) # kvs else if k < l then (k, v) # (l, w) # kvs else (l, w) # put_entry k v kvs)"

text \<open>
  \<open>old\<close> is what the target holds: a field that comes twice is decoded into what the first one left, an
  element of a map always into a new zero value, and the elements of a slice into those it has.
\<close>

fun into_value :: "bool \<Rightarrow> gtype \<Rightarrow> gval \<Rightarrow> jval \<Rightarrow> decode_failure + gval"
  and into_fields :: "bool \<Rightarrow> (bytes \<times> gtype) list \<Rightarrow> (bytes \<times> gval) list \<Rightarrow> members \<Rightarrow> decode_failure + (bytes \<times> gval) list"
  and into_entries :: "bool \<Rightarrow> gtype \<Rightarrow> (bytes \<times> gval) list \<Rightarrow> members \<Rightarrow> decode_failure + (bytes \<times> gval) list"
  and into_items :: "bool \<Rightarrow> gtype \<Rightarrow> gval list \<Rightarrow> items \<Rightarrow> decode_failure + gval list" where
  "into_value strict TString old v =
     (if v = json_null then Inr old else (case v of JString r \<Rightarrow> Inr (GString (unquoted r)) | _ \<Rightarrow> Inl WrongType))"
| "into_value strict TBool old v =
     (if v = json_null then Inr old
      else if v = JScalar ''true'' then Inr (GNumber 1)
      else if v = JScalar ''false'' then Inr (GNumber 0) else Inl WrongType)"
| "into_value strict TInt old v =
     (if v = json_null then Inr old
      else (case v of
              JScalar t \<Rightarrow> (case int_of_token t of Some n \<Rightarrow> Inr (GNumber n) | None \<Rightarrow> Inl WrongType)
            | _ \<Rightarrow> Inl WrongType))"
| "into_value strict (TPtr t) old v =
     (if v = json_null then Inr (GPointer None)
      else map_ok (\<lambda>w. GPointer (Some w))
        (into_value strict t (case old of GPointer (Some w) \<Rightarrow> w | _ \<Rightarrow> zero_value t) v))"
| "into_value strict (TSlice t) old v =
     (if v = json_null then Inr (GPointer None)
      else (case v of
              JArray w is \<Rightarrow> map_ok GSlice (into_items strict t (case old of GSlice vs \<Rightarrow> vs | _ \<Rightarrow> []) is)
            | _ \<Rightarrow> Inl WrongType))"
| "into_value strict (TMap t) old v =
     (if v = json_null then Inr (GPointer None)
      else (case v of
              JObject w ms \<Rightarrow> map_ok GMap (into_entries strict t (case old of GMap kvs \<Rightarrow> kvs | _ \<Rightarrow> []) ms)
            | _ \<Rightarrow> Inl WrongType))"
| "into_value strict (TStruct fs) old v =
     (if v = json_null then Inr old
      else (case v of
              JObject w ms \<Rightarrow> map_ok GStruct (into_fields strict fs (case old of GStruct kvs \<Rightarrow> kvs | _ \<Rightarrow> []) ms)
            | _ \<Rightarrow> Inl WrongType))"
| "into_fields strict fs olds MNil = Inr olds"
| "into_fields strict fs olds (MCons a k b c v d ms) =
     (case field_of (map fst fs) (unquoted k) of
        None \<Rightarrow> if strict then Inl (UnknownField (unquoted k)) else into_fields strict fs olds ms
      | Some f \<Rightarrow>
          (case map_of fs f of
             None \<Rightarrow> into_fields strict fs olds ms
           | Some t \<Rightarrow>
               (case into_value strict t (case map_of olds f of Some w \<Rightarrow> w | None \<Rightarrow> zero_value t) v of
                  Inl e \<Rightarrow> Inl e
                | Inr w \<Rightarrow> into_fields strict fs (AList.update f w olds) ms)))"
| "into_entries strict t kvs MNil = Inr kvs"
| "into_entries strict t kvs (MCons a k b c v d ms) =
     (case into_value strict t (zero_value t) v of
        Inl e \<Rightarrow> Inl e
      | Inr w \<Rightarrow> into_entries strict t (put_entry (unquoted k) w kvs) ms)"
| "into_items strict t olds INil = Inr []"
| "into_items strict t olds (ICons a v b is) =
     (case into_value strict t (case olds of w # _ \<Rightarrow> w | [] \<Rightarrow> zero_value t) v of
        Inl e \<Rightarrow> Inl e
      | Inr w \<Rightarrow> map_ok (Cons w) (into_items strict t (drop 1 olds) is))"

text \<open>
  \<open>Decoder.Decode\<close> reads the first value of the text and does not look at what follows it.
\<close>

definition read_value :: "bytes \<Rightarrow> jval option" where
  "read_value raw = map_option fst (parse_value (2 * length raw + 2) maxNestingDepth (dropWhile json_ws raw))"

definition decode_document :: "bool \<Rightarrow> bytes \<Rightarrow> decode_failure + gval" where
  "decode_document strict raw =
     (case read_value raw of
        None \<Rightarrow> Inl NotJSON
      | Some v \<Rightarrow> into_value strict Config_type (zero_value Config_type) v)"

section \<open>The document as a configuration\<close>

definition gfield :: "gval \<Rightarrow> bytes \<Rightarrow> gval" where
  "gfield v f = (case v of GStruct fs \<Rightarrow> (case map_of fs f of Some w \<Rightarrow> w | None \<Rightarrow> GOther) | _ \<Rightarrow> GOther)"

definition gstring :: "gval \<Rightarrow> bytes" where
  "gstring v = (case v of GString s \<Rightarrow> s | _ \<Rightarrow> [])"

definition gint :: "gval \<Rightarrow> int" where
  "gint v = (case v of GNumber n \<Rightarrow> n | _ \<Rightarrow> 0)"

definition gstrings :: "gval \<Rightarrow> bytes list option" where
  "gstrings v = (case v of GSlice vs \<Rightarrow> Some (map gstring vs) | _ \<Rightarrow> None)"

definition gentries :: "gval \<Rightarrow> (bytes \<times> gval) list option" where
  "gentries v = (case v of GMap kvs \<Rightarrow> Some kvs | _ \<Rightarrow> None)"

definition gstring_map :: "gval \<Rightarrow> (bytes \<times> bytes) list option" where
  "gstring_map v = map_option (map (map_prod id gstring)) (gentries v)"

definition gpointer :: "gval \<Rightarrow> gval option" where
  "gpointer v = (case v of GPointer w \<Rightarrow> w | _ \<Rightarrow> None)"

definition list_or_nil :: "'a list option \<Rightarrow> 'a list" where
  "list_or_nil xs = (case xs of None \<Rightarrow> [] | Some ys \<Rightarrow> ys)"

definition auth_of :: "gval \<Rightarrow> Auth" where
  "auth_of v =
     (let str = (\<lambda>f. gstring (gfield v f)) in
      \<lparr>a_Mode = str ''mode'', a_Command = str ''command'', a_Args = list_or_nil (gstrings (gfield v ''args'')),
       a_Env = list_or_nil (gstring_map (gfield v ''env'')), a_WaitDelay = str ''waitDelay'', a_Path = str ''path'', a_TTL = str ''ttl'',
       a_TokenURL = str ''tokenUrl'', a_ClientID = str ''clientId'', a_ClientSecret = str ''clientSecret'', a_Scope = str ''scope'',
       a_Audience = str ''audience'', a_SubjectTokenFile = str ''subjectTokenFile'', a_SubjectTokenType = str ''subjectTokenType'',
       a_RefreshTokenFile = str ''refreshTokenFile'', a_Subject = str ''subject'',
       a_PerUserOverride = map_option (\<lambda>w. gint w \<noteq> 0) (gpointer (gfield v ''perUser''))\<rparr>)"

definition server_of :: "gval \<Rightarrow> Server" where
  "server_of v =
     (let str = (\<lambda>f. gstring (gfield v f)) in
      \<lparr>s_Protocol = str ''protocol'', s_Transport = str ''transport'', s_Command = str ''command'',
       s_Args = gstrings (gfield v ''args''), s_Env = gstring_map (gfield v ''env''), s_URL = str ''url'',
       s_Headers = gstring_map (gfield v ''headers''), s_AllowPlaintext = (gint (gfield v ''allowPlaintext'') \<noteq> 0),
       s_DiscoverTTLMs = gint (gfield v ''discoverTtlMs''), s_CacheScope = str ''cacheScope'',
       s_Auth = map_option auth_of (gpointer (gfield v ''auth''))\<rparr>)"

definition config_of :: "gval \<Rightarrow> Config" where
  "config_of v =
     (let n = gfield v ''nats''; p = gfield v ''pool'' in
      \<lparr>c_NATS = \<lparr>n_URL = gstring (gfield n ''url''), n_CredsFile = gstring (gfield n ''credsFile''),
         n_SubjectPrefix = gstring (gfield n ''subjectPrefix''), n_InboxPrefix = gstring (gfield n ''inboxPrefix''),
         n_QueueGroup = gstring (gfield n ''queueGroup''), n_Tenant = gstring (gfield n ''tenant''), n_User = gstring (gfield n ''user'')\<rparr>,
       c_Servers = map (map_prod id server_of) (list_or_nil (gentries (gfield v ''servers''))),
       c_Pool = \<lparr>cp_MaxConcurrent = gint (gfield p ''maxConcurrent''), cp_MaxProcsPerTenant = gint (gfield p ''maxProcsPerTenant''),
         cp_IdleTTL = gstring (gfield p ''idleTtl''), cp_MaxLifetime = gstring (gfield p ''maxLifetime'')\<rparr>,
       c_ClaimCheck = map_option (\<lambda>c. \<lparr>cc_MaxAge = gstring (gfield c ''maxAge''), cc_MaxBytes = gint (gfield c ''maxBytes'')\<rparr>)
         (gpointer (gfield v ''claimCheck''))\<rparr>)"

section \<open>The parsers\<close>

datatype parse_error = ParseFailed decode_failure | ExpandFailed expand_error | Invalid config_error | ReadFailed bytes

definition parse_config :: "golib \<Rightarrow> bool \<Rightarrow> lookup \<Rightarrow> bytes \<Rightarrow> parse_error + Config" where
  "parse_config lib strict resolve raw =
     (case decode_document strict raw of
        Inl e \<Rightarrow> Inl (ParseFailed e)
      | Inr v \<Rightarrow>
          (case expandValue resolve [] v of
             Inl e \<Rightarrow> Inl (ExpandFailed e)
           | Inr w \<Rightarrow>
               (case validate lib (config_of w) of
                  Inl e \<Rightarrow> Inl (Invalid e)
                | Inr _ \<Rightarrow> Inr (config_of w))))"

definition Parse :: "golib \<Rightarrow> (bytes \<rightharpoonup> bytes) \<Rightarrow> bytes \<Rightarrow> parse_error + Config" where
  "Parse lib env raw = parse_config lib True (envLookup env) raw"

definition ParseInline :: "golib \<Rightarrow> (bytes \<rightharpoonup> bytes) \<Rightarrow> bytes \<Rightarrow> parse_error + Config" where
  "ParseInline lib env raw = parse_config lib False (envLookup env) raw"

definition ParseFetched :: "golib \<Rightarrow> bytes \<Rightarrow> parse_error + Config" where
  "ParseFetched lib raw = parse_config lib False refuseLookup raw"

definition Load :: "golib \<Rightarrow> (bytes \<rightharpoonup> bytes) \<Rightarrow> (bytes \<rightharpoonup> bytes) \<Rightarrow> bytes \<Rightarrow> parse_error + Config" where
  "Load lib env read_file path =
     (case read_file path of None \<Rightarrow> Inl (ReadFailed path) | Some raw \<Rightarrow> Parse lib env raw)"

section \<open>The parsers agree\<close>

lemma strict_decodes:
  "into_value strict t old v = Inr w \<Longrightarrow> into_value False t old v = Inr w"
  "into_fields strict fs olds ms = Inr ws \<Longrightarrow> into_fields False fs olds ms = Inr ws"
  "into_entries strict t olds ms = Inr ws \<Longrightarrow> into_entries False t olds ms = Inr ws"
  "into_items strict t olds2 is = Inr ws2 \<Longrightarrow> into_items False t olds2 is = Inr ws2"
proof (induction strict t old v and strict fs olds ms and strict t olds ms and strict t olds2 "is"
    arbitrary: w and ws and ws and ws2 rule: into_value_into_fields_into_entries_into_items.induct)
  case (9 strict fs olds a k b c v d ms)
  show ?case
  proof (cases "field_of (map fst fs) (unquoted k)")
    case None
    with "9.prems" show ?thesis by (cases strict) simp_all
  next
    case (Some f)
    show ?thesis
    proof (cases "map_of fs f")
      case None
      with "9.prems" Some have "into_fields strict fs olds ms = Inr ws" by simp
      from "9.IH"(2) [OF Some None this] Some None show ?thesis by simp
    next
      case t: (Some t)
      let ?old = "case map_of olds f of Some w \<Rightarrow> w | None \<Rightarrow> zero_value t"
      obtain x where x: "into_value strict t ?old v = Inr x" "into_fields strict fs (AList.update f x olds) ms = Inr ws"
        using "9.prems" Some t by (auto split: sum.splits)
      show ?thesis using "9.IH"(3) [OF Some t x(1)] "9.IH"(4) [OF Some t x(1) x(2)] Some t by simp
    qed
  qed
next
  case (11 strict t kvs a k b c v d ms)
  then obtain x where x: "into_value strict t (zero_value t) v = Inr x" "into_entries strict t (put_entry (unquoted k) x kvs) ms = Inr ws"
    by (auto split: sum.splits)
  show ?case using "11.IH"(1) [OF x(1)] "11.IH"(2) [OF x(1) x(2)] by simp
next
  case (13 strict t olds a v b "is")
  let ?old = "case olds of w # _ \<Rightarrow> w | [] \<Rightarrow> zero_value t"
  obtain x xs where x: "into_value strict t ?old v = Inr x" "into_items strict t (drop 1 olds) is = Inr xs" "ws2 = x # xs"
    using "13.prems" by (auto simp: map_ok_Inr split: sum.splits)
  show ?case using "13.IH"(1) [OF x(1)] "13.IH"(2) [OF x(1) x(2)] x(3) by simp
qed (auto simp: map_ok_Inr split: if_splits jval.splits)

definition resolves_more :: "lookup \<Rightarrow> lookup \<Rightarrow> bool" where
  "resolves_more r1 r2 \<longleftrightarrow> (\<forall>s t. expandString r1 s = Inr t \<longrightarrow> expandString r2 s = Inr t)"

lemma expand_mono:
  "expandValue r1 path v = Inr w \<Longrightarrow> resolves_more r1 r2 \<Longrightarrow> expandValue r2 path v = Inr w"
  "expandFields r1 path fs = Inr gs \<Longrightarrow> resolves_more r1 r2 \<Longrightarrow> expandFields r2 path fs = Inr gs"
  "expandItems r1 path n vs = Inr ws \<Longrightarrow> resolves_more r1 r2 \<Longrightarrow> expandItems r2 path n vs = Inr ws"
  "expandEntries r1 path kvs = Inr lvs \<Longrightarrow> resolves_more r1 r2 \<Longrightarrow> expandEntries r2 path kvs = Inr lvs"
proof (induction r1 path v and r1 path fs and r1 path n vs and r1 path kvs
    arbitrary: w and gs and ws and lvs rule: expandValue_expandFields_expandItems_expandEntries.induct)
  case (1 resolve path s)
  then obtain t where "expandString resolve s = Inr t" "w = GString t" by (auto split: sum.splits)
  with 1 show ?case by (simp add: resolves_more_def)
qed (auto simp: map_ok_Inr split: sum.splits if_splits)

lemma refusing_resolves_less: "resolves_more refuseLookup (envLookup env)"
  by (simp add: resolves_more_def refused_env_independent)

lemma parse_config_mono:
  assumes "parse_config lib strict r1 raw = Inr cfg" "resolves_more r1 r2"
  shows "parse_config lib False r2 raw = Inr cfg \<and> validate lib cfg = Inr ()"
proof -
  from assms(1) obtain v w where d: "decode_document strict raw = Inr v" "expandValue r1 [] v = Inr w"
    "validate lib (config_of w) = Inr ()" "cfg = config_of w"
    by (auto simp: parse_config_def split: sum.splits)
  from d(1) have "decode_document False raw = Inr v"
    by (auto simp: decode_document_def split: option.splits intro: strict_decodes(1))
  moreover have "expandValue r2 [] v = Inr w" by (rule expand_mono(1) [OF d(2) assms(2)])
  ultimately show ?thesis using d by (simp add: parse_config_def)
qed

text \<open>
  C27. One document means one configuration: what the fetch path or the strict parser accepts is accepted as
  an inline document, in any environment and with the same result, and is a valid configuration.  So a
  document a controller serves cannot take anything from the environment of the gateway that reads it.
\<close>

theorem parsers_agree:
  assumes "ParseFetched lib raw = Inr cfg \<or> Parse lib env raw = Inr cfg"
  shows "ParseInline lib env raw = Inr cfg \<and> validate lib cfg = Inr ()"
  using assms parse_config_mono [OF _ refusing_resolves_less] parse_config_mono [of lib True "envLookup env" raw cfg "envLookup env"]
  unfolding ParseFetched_def Parse_def ParseInline_def by (auto simp: resolves_more_def)

section \<open>What follows the document\<close>

lemma read_object:
  assumes "wf_json (JObject w ms)" "jdepth (JObject w ms) \<le> maxNestingDepth"
  shows "read_value (render (JObject w ms) @ junk) = Some (JObject w ms)"
proof -
  let ?v = "JObject w ms"
  let ?raw = "render ?v @ junk"
  obtain n where n: "2 * length ?raw + 2 = Suc n" by simp
  have "need ?v \<le> length (render ?v)" by (rule need_bound(1) [OF assms(1)])
  then have n': "need_members ms \<le> n" using n by simp
  obtain d where d: "maxNestingDepth = Suc d" by (simp add: maxNestingDepth_def eval_nat_numeral)
  have "parse_value (Suc n) (Suc d) ?raw = Some (?v, junk)"
  proof (cases "ms = MNil")
    case True
    then have "dropWhile json_ws (w @ CHR ''}'' # junk) = CHR ''}'' # junk" "takeWhile json_ws (w @ CHR ''}'' # junk) = w"
      using assms(1) by (simp_all add: ws_drop ws_take)
    with True show ?thesis by simp
  next
    case False
    then have w: "w = []" using assms(1) by simp
    have "parse_members n d (render_members ms @ CHR ''}'' # junk) = Some (ms, junk)"
      using assms d n' False by (intro parse_complete(3)) auto
    moreover obtain c s where "dropWhile json_ws (render_members ms @ CHR ''}'' # junk) = c # s" "c \<noteq> CHR ''}''"
      using assms(1) False by (auto intro: members_head [of ms "CHR ''}'' # junk"])
    ultimately show ?thesis using w by simp
  qed
  moreover have "dropWhile json_ws ?raw = ?raw" by (simp add: json_ws_def)
  ultimately show ?thesis by (simp only: read_value_def n d) simp
qed

text \<open>
  Whatever follows the document is ignored, by the strict parser too: a stray brace that closes the
  object early hides the rest of the file without an error.
\<close>

theorem trailing_text_is_ignored:
  assumes "json_parse raw = Some (JObject w ms)" "raw = render (JObject w ms)"
  shows "Parse lib env (raw @ junk) = Parse lib env raw"
proof -
  from assms(1) have "wf_json (JObject w ms)" "jdepth (JObject w ms) \<le> maxNestingDepth"
    unfolding json_parse_iff by blast+
  from read_object [OF this, of junk] read_object [OF this, of "[]"] assms(2)
  have "read_value (raw @ junk) = read_value raw" by simp
  then show ?thesis by (simp add: Parse_def parse_config_def decode_document_def)
qed


definition ex_document :: bytes where
  "ex_document = json_text ''{~nats~:{~tenant~:~acme~},~servers~:{~fs~:{~command~:~srv~,~args~:[~a~]}}}''"

lemma ex_document_decoded:
  "map_sum (\<lambda>e. ()) (\<lambda>v. (c_NATS (config_of v), c_Servers (config_of v), c_Pool (config_of v), c_ClaimCheck (config_of v)))
     (case decode_document False ex_document of Inl e \<Rightarrow> Inl e | Inr v \<Rightarrow> map_sum (\<lambda>_. NotJSON) id (expandValue refuseLookup [] v)) =
   Inr (\<lparr>n_URL = [], n_CredsFile = [], n_SubjectPrefix = [], n_InboxPrefix = [], n_QueueGroup = [], n_Tenant = ''acme'', n_User = []\<rparr>,
     [(''fs'', \<lparr>s_Protocol = [], s_Transport = [], s_Command = ''srv'', s_Args = Some [''a''], s_Env = None, s_URL = [], s_Headers = None,
        s_AllowPlaintext = False, s_DiscoverTTLMs = 0, s_CacheScope = [], s_Auth = None\<rparr>)],
     \<lparr>cp_MaxConcurrent = 0, cp_MaxProcsPerTenant = 0, cp_IdleTTL = [], cp_MaxLifetime = []\<rparr>, None)"
  by code_simp

lemma trailing_text_is_ignored_witness:
  "Parse ex_lib Map.empty (json_text ''{}},~nats~:{~tenant~:~acme~}}'') = Parse ex_lib Map.empty ''{}''"
proof -
  have p: "json_parse ''{}'' = Some (JObject [] MNil)" by code_simp
  have t: "json_text ''{}},~nats~:{~tenant~:~acme~}}'' = ''{}'' @ json_text ''},~nats~:{~tenant~:~acme~}}''" by (simp add: json_text_def)
  show ?thesis unfolding t by (rule trailing_text_is_ignored [OF p]) simp
qed


lemma parsers_agree_witness:
  "\<exists>cfg. ParseInline ex_lib [''HOME'' \<mapsto> ''/root''] ex_document = Inr cfg \<and> map fst (c_Servers cfg) = [''fs''] \<and> n_Tenant (c_NATS cfg) = ''acme''"
proof -
  obtain v where v: "decode_document False ex_document = Inr v"
    using ex_document_decoded by (cases "decode_document False ex_document") auto
  obtain w where w: "expandValue refuseLookup [] v = Inr w"
    using ex_document_decoded v by (cases "expandValue refuseLookup [] v") auto
  have c: "c_NATS (config_of w) = \<lparr>n_URL = [], n_CredsFile = [], n_SubjectPrefix = [], n_InboxPrefix = [], n_QueueGroup = [], n_Tenant = ''acme'', n_User = []\<rparr>"
      "c_Servers (config_of w) = [(''fs'', \<lparr>s_Protocol = [], s_Transport = [], s_Command = ''srv'', s_Args = Some [''a''], s_Env = None,
        s_URL = [], s_Headers = None, s_AllowPlaintext = False, s_DiscoverTTLMs = 0, s_CacheScope = [], s_Auth = None\<rparr>)]"
      "c_Pool (config_of w) = \<lparr>cp_MaxConcurrent = 0, cp_MaxProcsPerTenant = 0, cp_IdleTTL = [], cp_MaxLifetime = []\<rparr>"
      "c_ClaimCheck (config_of w) = None"
    using ex_document_decoded v w by auto
  have ok: "validate ex_lib (config_of w) = Inr ()"
    by (simp add: validate_def in_order_Inr c validate_claimCheck_def validate_pool_def validate_nats_def validate_server_def
        TokenSafe_def token_char_def strings_HasPrefix_def)
  have "ParseFetched ex_lib ex_document = Inr (config_of w)"
    by (simp add: ParseFetched_def parse_config_def v w ok)
  from parsers_agree [OF disjI1 [OF this]] show ?thesis using c by auto
qed

end
