(* ===== verification/ConfigSource.thy ===== *)
theory ConfigSource
  imports Reconcile Steps
begin

text \<open>
  Where the configuration comes from (\<open>pkg/configsource\<close>): the filter that suppresses a revision the
  gateway already has, the sources that read on a trigger (a file, a poll, a change event), and the loop
  that applies revisions and keeps the last good one.  \<open>sha\<close> is the digest; what a fetch returns and
  whether an apply succeeds are the arguments of the steps.
\<close>

section \<open>Change filters\<close>

text \<open>A revision is a configuration or nil; every one marshals, so that it has a digest.\<close>

type_synonym revision = "Config option"

definition hashConfig :: "(bytes \<Rightarrow> bytes) \<Rightarrow> revision \<Rightarrow> bytes \<times> bool" where
  "hashConfig sha cfg = (sha (case cfg of None \<Rightarrow> ''null'' | Some c \<Rightarrow> revisionKey c), True)"

record changeFilter =
  f_last :: bytes
  f_seen :: bool
  f_swallowed :: bool

definition new_filter :: changeFilter where
  "new_filter = \<lparr>f_last = [], f_seen = False, f_swallowed = False\<rparr>"

definition filter_changed :: "(bytes \<Rightarrow> bytes) \<Rightarrow> revision \<Rightarrow> changeFilter \<Rightarrow> bool \<times> changeFilter" where
  "filter_changed sha cfg f =
     (case hashConfig sha cfg of (h, ok) \<Rightarrow>
        if ok \<and> f_seen f \<and> h = f_last f then (False, f\<lparr>f_swallowed := True\<rparr>)
        else (True, \<lparr>f_last = h, f_seen = ok, f_swallowed = False\<rparr>))"

definition filter_retry :: "changeFilter \<Rightarrow> bool \<times> changeFilter" where
  "filter_retry f = (f_swallowed f, f\<lparr>f_seen := False, f_swallowed := False\<rparr>)"

text \<open>
  The filters a revision passes on its way to the gateway, innermost first: one for a plain source, two
  when the source is wrapped in \<open>Dedup\<close>.
\<close>

fun pass_filters :: "(bytes \<Rightarrow> bytes) \<Rightarrow> revision \<Rightarrow> changeFilter list \<Rightarrow> bool \<times> changeFilter list" where
  "pass_filters sha cfg [] = (True, [])"
| "pass_filters sha cfg (f # fs) =
     (case filter_changed sha cfg f of
        (False, f') \<Rightarrow> (False, f' # fs)
      | (True, f') \<Rightarrow> (case pass_filters sha cfg fs of (b, fs') \<Rightarrow> (b, f' # fs')))"

section \<open>A source and the loop that consumes it\<close>

datatype update = NewConfig revision | FetchError bytes

text \<open>
  Where \<open>Run\<close> stands.  \<open>sr_slot\<close> is an update that the source waits to hand over; \<open>sr_reload\<close> is the one
  trigger a file source can hold; \<open>sr_suppressed\<close> records what the latest trigger read, when a filter
  suppressed it.
\<close>

datatype phase = Waiting | Applying revision | ApplyFailed | Ended

record source_run =
  sr_filters :: "changeFilter list"
  sr_slot :: "update option"
  sr_phase :: phase
  sr_serving :: bool
  sr_running :: "revision option"
  sr_reload :: bool
  sr_suppressed :: "revision option"

datatype source_event = Tick "bytes + revision" | Reloaded "bytes + revision" | Hangup | Take | Applied bool | Retry

definition emit :: "(bytes \<Rightarrow> bytes) \<Rightarrow> bytes + revision \<Rightarrow> source_run \<Rightarrow> source_run" where
  "emit sha got s =
     (case got of
        Inl e \<Rightarrow> s\<lparr>sr_slot := Some (FetchError e), sr_suppressed := None\<rparr>
      | Inr cfg \<Rightarrow>
          (case pass_filters sha cfg (sr_filters s) of
             (False, fs) \<Rightarrow> s\<lparr>sr_filters := fs, sr_suppressed := Some cfg\<rparr>
           | (True, fs) \<Rightarrow> s\<lparr>sr_filters := fs, sr_slot := Some (NewConfig cfg), sr_suppressed := None\<rparr>))"

text \<open>
  The steps; \<open>None\<close> when one cannot happen.  A trigger is served when the source is not waiting to hand
  over, and only a file source (\<open>refires\<close>) fires itself when a retry finds that it swallowed a trigger.
\<close>

definition source_step :: "(bytes \<Rightarrow> bytes) \<Rightarrow> bool \<Rightarrow> source_event \<Rightarrow> source_run \<Rightarrow> source_run option" where
  "source_step sha refires e s =
     (case e of
        Tick got \<Rightarrow> if sr_slot s = None then Some (emit sha got s) else None
      | Reloaded got \<Rightarrow>
          if sr_slot s = None \<and> sr_reload s then Some (emit sha got (s\<lparr>sr_reload := False\<rparr>)) else None
      | Hangup \<Rightarrow> if refires then Some (s\<lparr>sr_reload := True\<rparr>) else None
      | Take \<Rightarrow>
          (case (sr_phase s, sr_slot s) of
             (Waiting, Some (FetchError _)) \<Rightarrow>
               Some (s\<lparr>sr_slot := None, sr_phase := (if sr_serving s then Waiting else Ended)\<rparr>)
           | (Waiting, Some (NewConfig cfg)) \<Rightarrow> Some (s\<lparr>sr_slot := None, sr_phase := Applying cfg\<rparr>)
           | _ \<Rightarrow> None)
      | Applied ok \<Rightarrow>
          (case sr_phase s of
             Applying cfg \<Rightarrow>
               if ok then Some (s\<lparr>sr_phase := Waiting, sr_serving := True, sr_running := Some cfg\<rparr>)
               else Some (s\<lparr>sr_phase := (if sr_serving s then ApplyFailed else Ended)\<rparr>)
           | _ \<Rightarrow> None)
      | Retry \<Rightarrow>
          if sr_phase s \<noteq> ApplyFailed then None
          else Some (s\<lparr>sr_phase := Waiting, sr_filters := map (snd \<circ> filter_retry) (sr_filters s),
            sr_reload := (sr_reload s \<or> refires \<and> list_ex (fst \<circ> filter_retry) (sr_filters s))\<rparr>))"

text \<open>A source that was just watched, with \<open>n\<close> filters.\<close>

definition watched :: "nat \<Rightarrow> source_run" where
  "watched n =
     \<lparr>sr_filters = replicate n new_filter, sr_slot = None, sr_phase = Waiting, sr_serving = False, sr_running = None,
      sr_reload = False, sr_suppressed = None\<rparr>"

definition source_reaches :: "(bytes \<Rightarrow> bytes) \<Rightarrow> bool \<Rightarrow> nat \<Rightarrow> source_run \<Rightarrow> bool" where
  "source_reaches sha refires n s \<longleftrightarrow> reaches (source_step sha refires) (watched n) s"

section \<open>Fetching over NATS\<close>

text \<open>
  A reply: \<open>None\<close> when the request failed, else the \<open>Nats-Service-Error\<close> header and the data.  How a
  document parses is \<open>parse\<close>.
\<close>

datatype 'e fetch_error = RequestFailed | ResponderError bytes | BadDocument 'e | ErrNATSBlock

definition nats_fetch :: "(bytes \<Rightarrow> 'e + Config) \<Rightarrow> (bytes \<times> bytes) option \<Rightarrow> 'e fetch_error + Config" where
  "nats_fetch parse reply =
     (case reply of
        None \<Rightarrow> Inl RequestFailed
      | Some (svcErr, data) \<Rightarrow>
          if svcErr \<noteq> [] then Inl (ResponderError svcErr)
          else
            (case parse data of
               Inl e \<Rightarrow> Inl (BadDocument e)
             | Inr cfg \<Rightarrow> if c_NATS cfg \<noteq> zero_nats then Inl ErrNATSBlock else Inr cfg))"

definition seconds :: "int \<Rightarrow> int" where "seconds n = n * 1000000000"

definition poll_interval :: "int \<Rightarrow> int" where
  "poll_interval interval = (if interval \<le> 0 then seconds 30 else interval)"

definition requestTimeout :: "int \<Rightarrow> int" where
  "requestTimeout d = (if 0 < d then d else seconds 5)"

definition bootTimeout :: "int \<Rightarrow> int" where
  "bootTimeout d = (if 0 < d then d else seconds 120)"

definition refetch_interval :: "int \<Rightarrow> int" where
  "refetch_interval d = (if d \<le> 0 then seconds 60 else d)"

text \<open>
  The boot loop, over what each attempt returned and when: the configuration or the error it ends
  with (\<open>None\<close> while it still tries), and how long it slept after each failure.
\<close>

fun boot_loop :: "int \<Rightarrow> int \<Rightarrow> (int \<times> ('e + Config)) list \<Rightarrow> ('e + Config) option \<times> int list" where
  "boot_loop deadline pause [] = (None, [])"
| "boot_loop deadline pause ((now, r) # rs) =
     (case r of
        Inr cfg \<Rightarrow> (Some (Inr cfg), [])
      | Inl e \<Rightarrow>
          if deadline < now then (Some (Inl e), [])
          else
            (case boot_loop deadline (if pause < seconds 5 then pause * 2 else pause) rs of
               (out, waits) \<Rightarrow> (out, pause # waits)))"

definition nats_boot :: "int \<Rightarrow> int \<Rightarrow> (int \<times> ('e + Config)) list \<Rightarrow> ('e + Config) option \<times> int list" where
  "nats_boot started timeout rs = boot_loop (started + bootTimeout timeout) 200000000 rs"

section \<open>What a suppressed revision is\<close>

definition digest :: "(bytes \<Rightarrow> bytes) \<Rightarrow> revision \<Rightarrow> bytes" where
  "digest sha cfg = fst (hashConfig sha cfg)"

text \<open>The revision a baseline stands for: the one in flight, else the one being applied, else the running one.\<close>

definition current :: "source_run \<Rightarrow> revision option" where
  "current s =
     (case sr_slot s of
        Some (NewConfig cfg) \<Rightarrow> Some cfg
      | _ \<Rightarrow> (case sr_phase s of Applying cfg \<Rightarrow> Some cfg | _ \<Rightarrow> sr_running s))"

definition baseline_ok :: "(bytes \<Rightarrow> bytes) \<Rightarrow> source_run \<Rightarrow> changeFilter \<Rightarrow> bool" where
  "baseline_ok sha s f \<longleftrightarrow> (f_seen f \<longrightarrow> (\<exists>cfg. current s = Some cfg \<and> f_last f = digest sha cfg))"

text \<open>While an apply has failed and the retry is still to come, the baselines say nothing.\<close>

definition source_inv :: "(bytes \<Rightarrow> bytes) \<Rightarrow> source_run \<Rightarrow> bool" where
  "source_inv sha s \<longleftrightarrow>
     sr_phase s = Ended \<or> sr_phase s = ApplyFailed \<and> (\<forall>cfg. sr_slot s \<noteq> Some (NewConfig cfg)) \<or>
     (\<forall>f\<in>set (sr_filters s). baseline_ok sha s f)"

lemma filter_changed_cases:
  obtains (suppressed) "filter_changed sha cfg f = (False, f\<lparr>f_swallowed := True\<rparr>)" "f_seen f" "f_last f = digest sha cfg"
  | (passed) "filter_changed sha cfg f = (True, \<lparr>f_last = digest sha cfg, f_seen = True, f_swallowed = False\<rparr>)"
proof (cases "f_seen f \<and> f_last f = digest sha cfg")
  case True
  then show ?thesis by (intro suppressed) (simp_all add: filter_changed_def hashConfig_def digest_def)
next
  case False
  then show ?thesis by (intro passed) (auto simp: filter_changed_def hashConfig_def digest_def)
qed

lemma pass_filters_result:
  assumes "pass_filters sha cfg fs = (b, fs')"
  shows "length fs' = length fs"
    and "b \<Longrightarrow> \<forall>f\<in>set fs'. f_seen f \<and> f_last f = digest sha cfg"
    and "\<not> b \<Longrightarrow> (\<exists>f\<in>set fs'. f_seen f \<and> f_last f = digest sha cfg \<and> f_swallowed f)"
    and "\<not> b \<Longrightarrow> (\<exists>f\<in>set fs. f_seen f \<and> f_last f = digest sha cfg)"
    and "\<forall>f\<in>set fs'. f_seen f \<longrightarrow> f_last f = digest sha cfg \<or> (\<exists>g\<in>set fs. f_seen g \<and> f_last g = f_last f)"
  using assms
proof (induction fs arbitrary: b fs')
  case (Cons f fs)
  {
    case 1
    then show ?case using Cons.IH(1) by (cases rule: filter_changed_cases [of sha cfg f]) (auto split: prod.splits)
  next
    case 2
    then show ?case using Cons.IH(2) by (cases rule: filter_changed_cases [of sha cfg f]) (auto split: prod.splits)
  next
    case 3
    then show ?case using Cons.IH(3) by (cases rule: filter_changed_cases [of sha cfg f]) (auto split: prod.splits)
  next
    case 4
    then show ?case using Cons.IH(4) by (cases rule: filter_changed_cases [of sha cfg f]) (auto split: prod.splits)
  next
    case 5
    then show ?case using Cons.IH(5) by (cases rule: filter_changed_cases [of sha cfg f]) (fastforce split: prod.splits)+
  }
qed simp_all


lemmas source_congs = phase.case_cong update.case_cong option.case_cong

lemma current_updates [simp]:
  "current (s\<lparr>sr_reload := r\<rparr>) = current s" "current (s\<lparr>sr_filters := fs\<rparr>) = current s"
  "current (s\<lparr>sr_suppressed := c\<rparr>) = current s" "current (s\<lparr>sr_slot := Some (NewConfig cfg)\<rparr>) = Some cfg"
  "sr_slot s = None \<Longrightarrow> current (s\<lparr>sr_slot := Some (FetchError e)\<rparr>) = current s"
  by (simp_all add: current_def cong: source_congs)

lemma emit_inv:
  assumes "source_inv sha s" "sr_slot s = None"
  shows "source_inv sha (emit sha got s)"
proof (cases got)
  case (Inl e)
  with assms show ?thesis by (auto simp: source_inv_def emit_def baseline_ok_def)
next
  case (Inr cfg)
  obtain b fs where p: "pass_filters sha cfg (sr_filters s) = (b, fs)" by fastforce
  note r = pass_filters_result [OF p]
  show ?thesis
  proof (cases b)
    case True
    with Inr p r(2) show ?thesis by (auto simp: source_inv_def emit_def baseline_ok_def)
  next
    case False
    with Inr p have e: "emit sha got s = s\<lparr>sr_filters := fs, sr_suppressed := Some cfg\<rparr>" by (simp add: emit_def)
    show ?thesis
    proof (cases "\<forall>f\<in>set (sr_filters s). baseline_ok sha s f")
      case True
      obtain g where "g \<in> set (sr_filters s)" "f_seen g" "f_last g = digest sha cfg" using r(4) False by blast
      with True obtain c where c: "current s = Some c" "digest sha c = digest sha cfg"
        unfolding baseline_ok_def by metis
      have "f_last f = digest sha c" if "f \<in> set fs" "f_seen f" for f
        using r(5) that True c unfolding baseline_ok_def by (metis option.inject)
      with c(1) show ?thesis unfolding e source_inv_def baseline_ok_def by simp
    next
      case False
      with assms e show ?thesis by (auto simp: source_inv_def)
    qed
  qed
qed

lemma source_step_inv:
  assumes "source_inv sha s" "source_step sha refires e s = Some s'"
  shows "source_inv sha s'"
proof (cases e)
  case (Tick got)
  with assms emit_inv show ?thesis by (auto simp: source_step_def split: if_splits)
next
  case (Reloaded got)
  moreover have "source_inv sha (s\<lparr>sr_reload := False\<rparr>)"
    using assms(1) by (simp add: source_inv_def baseline_ok_def)
  ultimately show ?thesis using assms(2) emit_inv by (auto simp: source_step_def split: if_splits)
next
  case Hangup
  with assms show ?thesis by (auto simp: source_step_def source_inv_def baseline_ok_def split: if_splits)
next
  case Take
  with assms show ?thesis
    by (auto simp: source_step_def source_inv_def baseline_ok_def current_def split: phase.splits option.splits update.splits if_splits)
next
  case (Applied ok)
  with assms show ?thesis
    by (auto simp: source_step_def source_inv_def baseline_ok_def current_def split: phase.splits option.splits update.splits if_splits)
next
  case Retry
  with assms show ?thesis
    by (auto simp: source_step_def source_inv_def baseline_ok_def filter_retry_def split: if_splits)
qed

interpretation source_machine: machine "source_step sha refires" "source_inv sha" "watched n"
proof
  show "source_inv sha s \<Longrightarrow> source_step sha refires e s = Some s' \<Longrightarrow> source_inv sha s'" for s e s'
    by (rule source_step_inv)
  show "source_inv sha (watched n)" by (simp add: source_inv_def watched_def baseline_ok_def new_filter_def)
qed

lemma source_reaches_inv: "source_reaches sha refires n s \<Longrightarrow> source_inv sha s"
  unfolding source_reaches_def by (rule source_machine.always)

text \<open>
  C24. A source says nothing only when there is nothing to say: if, with no update in flight and no
  apply under way, a trigger reads a revision and none is handed over, then the gateway runs that very
  revision, by content.  So a failed apply never hides a revision, wrapped in how many filters it is.
\<close>

theorem suppressed_is_running:
  assumes "source_reaches sha refires n s" "sr_phase s = Waiting" "sr_slot s = None"
    and "source_step sha refires (Tick (Inr cfg)) s = Some s'" "sr_slot s' = None"
  shows "\<exists>r. sr_running s' = Some r \<and> digest sha r = digest sha cfg"
proof -
  obtain b fs where p: "pass_filters sha cfg (sr_filters s) = (b, fs)" by fastforce
  have s': "s' = emit sha (Inr cfg) s" using assms(3,4) by (simp add: source_step_def)
  with assms(5) p have b: "\<not> b" "sr_running s' = sr_running s" by (auto simp: emit_def split: bool.splits)
  obtain g where g: "g \<in> set (sr_filters s)" "f_seen g" "f_last g = digest sha cfg"
    using pass_filters_result(4) [OF p b(1)] by blast
  moreover have "baseline_ok sha s g"
    using source_reaches_inv [OF assms(1)] assms(2) g(1) by (simp add: source_inv_def)
  ultimately show ?thesis using assms(2,3) b(2) by (auto simp: baseline_ok_def current_def)
qed


section \<open>A hangup is not lost\<close>

definition hangup_inv :: "(bytes \<Rightarrow> bytes) \<Rightarrow> source_run \<Rightarrow> bool" where
  "hangup_inv sha s \<longleftrightarrow> (\<exists>f. sr_filters s = [f] \<and>
     (\<forall>cfg. sr_suppressed s = Some cfg \<longrightarrow>
        sr_phase s = Ended \<or> sr_reload s \<or> f_seen f \<and> f_last f = digest sha cfg \<and> f_swallowed f))"

lemma hangup_emit:
  assumes "sr_filters s = [f]"
  shows "hangup_inv sha (emit sha got s)"
proof (cases got)
  case (Inl e)
  with assms show ?thesis by (simp add: hangup_inv_def emit_def)
next
  case (Inr cfg)
  with assms show ?thesis
    by (cases rule: filter_changed_cases [of sha cfg f]) (simp_all add: hangup_inv_def emit_def)
qed

lemma hangup_step:
  assumes "hangup_inv sha s" "source_step sha True e s = Some s'"
  shows "hangup_inv sha s'"
proof -
  obtain f where f: "sr_filters s = [f]" using assms(1) by (auto simp: hangup_inv_def)
  show ?thesis
  proof (cases e)
    case (Tick got)
    with assms hangup_emit [OF f] show ?thesis by (auto simp: source_step_def split: if_splits)
  next
    case (Reloaded got)
    with assms hangup_emit [of "s\<lparr>sr_reload := False\<rparr>" f] f show ?thesis by (auto simp: source_step_def split: if_splits)
  next
    case Hangup
    with assms f show ?thesis by (auto simp: source_step_def hangup_inv_def)
  next
    case Take
    with assms f show ?thesis
      by (auto simp: source_step_def hangup_inv_def split: phase.splits option.splits update.splits if_splits)
  next
    case (Applied ok)
    with assms f show ?thesis
      by (auto simp: source_step_def hangup_inv_def split: phase.splits option.splits if_splits)
  next
    case Retry
    with assms f show ?thesis by (auto simp: source_step_def hangup_inv_def filter_retry_def split: if_splits)
  qed
qed

interpretation hangup_machine: machine "source_step sha True" "hangup_inv sha" "watched 1"
proof
  show "hangup_inv sha s \<Longrightarrow> source_step sha True e s = Some s' \<Longrightarrow> hangup_inv sha s'" for s e s'
    by (rule hangup_step)
  show "hangup_inv sha (watched 1)" by (simp add: hangup_inv_def watched_def)
qed

lemma hangup_reaches: "source_reaches sha True 1 s \<Longrightarrow> hangup_inv sha s"
  unfolding source_reaches_def by (rule hangup_machine.always)

text \<open>
  C25. A trigger of a file source is never lost, not even one that is read and suppressed while the
  apply it should have repeated is failing: whenever nothing is in flight, under way or pending, what the
  latest trigger read and the source suppressed is what the gateway runs.
\<close>

theorem no_hangup_is_lost:
  assumes "source_reaches sha True 1 s" "sr_phase s = Waiting" "sr_slot s = None" "\<not> sr_reload s"
    and "sr_suppressed s = Some cfg"
  shows "\<exists>r. sr_running s = Some r \<and> digest sha r = digest sha cfg"
proof -
  obtain f where f: "sr_filters s = [f]" "f_seen f" "f_last f = digest sha cfg"
    using hangup_reaches [OF assms(1)] assms(2,4,5) by (auto simp: hangup_inv_def)
  moreover have "baseline_ok sha s f"
    using source_reaches_inv [OF assms(1)] assms(2) f(1) by (simp add: source_inv_def)
  ultimately show ?thesis using assms(2,3) by (auto simp: baseline_ok_def current_def)
qed

text \<open>A run in which a hangup is swallowed by a failing apply, and its replacement.\<close>

lemma source_run_reaches:
  "run_steps (source_step sha refires) es (watched n) = Some s \<Longrightarrow> source_reaches sha refires n s"
  unfolding source_reaches_def by (rule run_steps_reaches [OF reaches_init])

definition ex_source_run :: "source_event list" where
  "ex_source_run = [Tick (Inr (Some empty_config)), Take, Applied True, Tick (Inr None), Take, Hangup, Reloaded (Inr None),
     Applied False, Retry, Reloaded (Inr None), Take, Applied True, Tick (Inr None)]"

lemma ex_source_end:
  assumes "digest sha (Some empty_config) \<noteq> digest sha None"
  shows "\<exists>s. run_steps (source_step sha True) ex_source_run (watched 1) = Some s \<and> sr_phase s = Waiting \<and> sr_slot s = None \<and>
    \<not> sr_reload s \<and> sr_suppressed s = Some None"
  using assms
  by (simp add: ex_source_run_def source_step_def watched_def emit_def filter_changed_def digest_def hashConfig_def
      new_filter_def filter_retry_def)

lemma ex_source_digest: "digest id (Some empty_config) \<noteq> digest id None"
  by (simp add: digest_def hashConfig_def revisionKey_def mk_object_def)

theorem no_hangup_is_lost_witness:
  "\<exists>s r. source_reaches id True 1 s \<and> sr_running s = Some r \<and> digest id r = digest id None"
proof -
  obtain s where s: "run_steps (source_step id True) ex_source_run (watched 1) = Some s" "sr_phase s = Waiting" "sr_slot s = None"
    "\<not> sr_reload s" "sr_suppressed s = Some None"
    using ex_source_end [OF ex_source_digest] by blast
  have r: "source_reaches id True 1 s" by (rule source_run_reaches [OF s(1)])
  from no_hangup_is_lost [OF r s(2-)] r show ?thesis by blast
qed

theorem suppressed_is_running_witness:
  "\<exists>s s' r. source_step id True (Tick (Inr None)) s = Some s' \<and> sr_running s' = Some r \<and> digest id r = digest id None"
proof -
  let ?es = "[Tick (Inr None), Take, Applied True]"
  obtain s where s: "run_steps (source_step id True) ?es (watched 2) = Some s"
    "sr_phase s = Waiting" "sr_slot s = None" "\<exists>s'. source_step id True (Tick (Inr None)) s = Some s' \<and> sr_slot s' = None"
    by (simp add: source_step_def watched_def emit_def filter_changed_def hashConfig_def new_filter_def numeral_2_eq_2)
  then obtain s' where s': "source_step id True (Tick (Inr None)) s = Some s'" "sr_slot s' = None" by blast
  from suppressed_is_running [OF source_run_reaches [OF s(1)] s(2,3) s'] s'(1) show ?thesis by blast
qed


section \<open>Booting over NATS\<close>

lemma boot_waits:
  "0 < pause \<Longrightarrow> pause \<le> 6400000000 \<Longrightarrow> boot_loop deadline pause rs = (out, waits) \<Longrightarrow>
     (pause < 5000000000 \<or> pause \<le> 6400000000) \<Longrightarrow> (\<exists>k. pause = 200000000 * 2 ^ k) \<Longrightarrow>
     list_all (\<lambda>w. 200000000 \<le> w \<and> w \<le> 6400000000) waits"
proof (induction deadline pause rs arbitrary: waits out rule: boot_loop.induct)
  case (2 deadline pause now r rs)
  obtain k :: nat where k: "pause = 200000000 * 2 ^ k" using "2.prems"(5) by blast
  then have lo: "200000000 \<le> pause" by simp
  show ?case
  proof (cases r)
    case (Inl e)
    show ?thesis
    proof (cases "deadline < now")
      case False
      let ?next = "if pause < seconds 5 then pause * 2 else pause"
      obtain o2 w2 where rec: "boot_loop deadline ?next rs = (o2, w2)" by fastforce
      have small: "?next \<le> 6400000000"
      proof (cases "pause < seconds 5")
        case True
        have "k < 5"
        proof (rule ccontr)
          assume "\<not> k < 5"
          then have "(2 :: int) ^ 5 \<le> 2 ^ k" by (intro power_increasing) simp_all
          with k True show False by (simp add: seconds_def)
        qed
        then have "(2 :: int) ^ k \<le> 2 ^ 4" by (intro power_increasing) simp_all
        with k show ?thesis by simp
      qed (use "2.prems"(2) in simp)
      have shape: "\<exists>j. ?next = 200000000 * 2 ^ j"
      proof (cases "pause < seconds 5")
        case True
        with k show ?thesis by (intro exI [of _ "Suc k"]) simp
      qed (use k in auto)
      have "0 < ?next" using lo by simp
      have "list_all (\<lambda>w. 200000000 \<le> w \<and> w \<le> 6400000000) w2"
        by (rule "2.IH" [OF Inl False \<open>0 < ?next\<close> small rec _ shape]) (use small in simp)
      with Inl False rec "2.prems"(2,3) lo show ?thesis by auto
    qed (use Inl "2.prems"(3) in simp)
  qed (use "2.prems"(3) in simp)
qed simp

text \<open>
  While it boots, the gateway retries its configuration patiently but not forever: it sleeps at least
  0.2 and at most 6.4 seconds between attempts, a first success ends the loop whatever failed before, and
  an error is returned only by an attempt that came back after the deadline.
\<close>

theorem boot_is_patient:
  assumes "nats_boot started timeout rs = (out, waits)"
  shows "list_all (\<lambda>w. 200000000 \<le> w \<and> w \<le> 6400000000) waits \<and>
    (\<forall>e. out = Some (Inl e) \<longrightarrow> (\<exists>now. (now, Inl e) \<in> set rs \<and> started + bootTimeout timeout < now)) \<and>
    (\<forall>cfg. out = Some (Inr cfg) \<longrightarrow> (\<exists>now. (now, Inr cfg) \<in> set rs))"
proof -
  have "(\<exists>k. (200000000 :: int) = 200000000 * 2 ^ k)" by (intro exI [of _ 0]) simp
  then have w: "list_all (\<lambda>w. 200000000 \<le> w \<and> w \<le> 6400000000) waits"
    using boot_waits [OF _ _ assms [unfolded nats_boot_def]] by simp
  have "boot_loop d b rs = (out, waits) \<Longrightarrow>
      (\<forall>e. out = Some (Inl e) \<longrightarrow> (\<exists>now. (now, Inl e) \<in> set rs \<and> d < now)) \<and>
      (\<forall>cfg. out = Some (Inr cfg) \<longrightarrow> (\<exists>now. (now, Inr cfg) \<in> set rs))" for d b waits
    by (induction d b rs arbitrary: waits rule: boot_loop.induct) (auto split: sum.splits if_splits prod.splits)
  from this [OF assms [unfolded nats_boot_def]] w show ?thesis by blast
qed

definition ex_attempts :: "(int \<times> (bytes + Config)) list" where
  "ex_attempts = [(0, Inl ''no responders''), (300000000, Inr empty_config)]"

lemma boot_is_patient_witness:
  "nats_boot 0 0 ex_attempts = (Some (Inr empty_config), [200000000]) \<and> (\<exists>now. (now, Inr empty_config) \<in> set ex_attempts)"
proof -
  have run: "nats_boot 0 0 ex_attempts = (Some (Inr empty_config), [200000000])"
    by (simp add: nats_boot_def ex_attempts_def bootTimeout_def seconds_def)
  from boot_is_patient [OF run] run show ?thesis by blast
qed

end
