(* ===== verification/Boot.thy ===== *)
theory Boot
  imports ConfigParse Redact ClaimStore ConfigSource
begin

text \<open>
  How the gateway boots (\<open>cmd/gateway.go\<close> up to the connection, and the flags of \<open>cmd/cli.go\<close>): which
  configuration source the flags select, the settings that are fixed for the life of the process, and the
  check that no setting of the operator is dropped in silence.  The environment is \<open>getenv\<close> (\<open>os.Getenv\<close>,
  empty for a variable that is not set) and \<open>env\<close> (\<open>os.LookupEnv\<close>); \<open>read_file\<close> is the file system.
\<close>

section \<open>Flags\<close>

record GatewayCmd =
  g_Config :: bytes
  g_ReloadInterval :: int
  g_ConfigJSON :: bytes
  g_ConfigSubject :: bytes
  g_ConfigEventsSubject :: bytes
  g_ConfigRefetch :: int
  g_NatsURL :: bytes
  g_NatsCreds :: bytes
  g_SubjectPrefix :: bytes
  g_InboxPrefix :: bytes
  g_QueueGroup :: bytes
  g_ScopeTenant :: bytes
  g_ScopeUser :: bytes
  g_PoolMaxConcurrent :: int
  g_PoolMaxProcsPerTenant :: int
  g_PoolIdleTTL :: int
  g_PoolMaxLifetime :: int
  g_ClaimCheck :: bool
  g_ClaimMaxAge :: int
  g_ClaimMaxBytes :: int

definition gatewayCredsEnv :: "bytes list" where
  "gatewayCredsEnv = [''NATSMCP_NATS_CREDS'', ''NATSMCP_CREDS'']"

definition clientCredsEnv :: "bytes list" where
  "clientCredsEnv = [''NATSMCP_CREDS'', ''NATSMCP_NATS_CREDS'']"

definition credsFromEnv :: "(bytes \<Rightarrow> bytes) \<Rightarrow> bytes \<Rightarrow> bytes list \<Rightarrow> bytes" where
  "credsFromEnv getenv cur names =
     (if cur \<noteq> [] then cur
      else (case find (\<lambda>name. getenv name \<noteq> []) names of Some name \<Rightarrow> getenv name | None \<Rightarrow> cur))"

definition AfterApply :: "(bytes \<Rightarrow> bytes) \<Rightarrow> GatewayCmd \<Rightarrow> GatewayCmd" where
  "AfterApply getenv c = c\<lparr>g_NatsCreds := credsFromEnv getenv (g_NatsCreds c) gatewayCredsEnv\<rparr>"

section \<open>Sources\<close>

datatype sourceKind = SourceFile | SourceInline | SourceFetch

definition selectSource :: "GatewayCmd \<Rightarrow> sourceKind option" where
  "selectSource c =
     (let chosen = (if g_Config c \<noteq> [] then [SourceFile] else []) @ (if g_ConfigJSON c \<noteq> [] then [SourceInline] else []) @
        (if g_ConfigSubject c \<noteq> [] then [SourceFetch] else [])
      in case chosen of [k] \<Rightarrow> Some k | _ \<Rightarrow> None)"

definition describe :: "sourceKind \<Rightarrow> GatewayCmd \<Rightarrow> bytes" where
  "describe k c =
     (case k of SourceFile \<Rightarrow> ''file:'' @ g_Config c | SourceInline \<Rightarrow> ''inline'' | SourceFetch \<Rightarrow> ''nats:'' @ g_ConfigSubject c)"

definition reloadsOnSighup :: "sourceKind \<Rightarrow> bool" where
  "reloadsOnSighup k \<longleftrightarrow> k = SourceFile"

section \<open>Boot parameters\<close>

datatype setting = SString bytes | SInt int | SDuration int | SBool bool

text \<open>A setting the file source drops: the flag, its variable, the field of the document, and both values.\<close>

record conflict =
  cf_flag :: bytes
  cf_env :: bytes
  cf_field :: bytes
  cf_got :: setting
  cf_doc :: setting

record bootParams =
  bp_url :: bytes
  bp_credsFile :: bytes
  bp_prefix :: bytes
  bp_inboxPrefix :: bytes
  bp_queueGroup :: bytes
  bp_tenant :: bytes
  bp_user :: bytes
  bp_pool :: PoolConfig
  bp_claimCheck :: bool
  bp_claimMaxAge :: int
  bp_claimMaxBytes :: int
  bp_inline :: "Config option"
  bp_ignoredFlags :: "conflict list"

definition defaultNatsURL :: bytes where
  "defaultNatsURL = ''nats://127.0.0.1:4222''"

text \<open>A duration that \<open>time.ParseDuration\<close> refuses is 0, as its error is not looked at.\<close>

definition duration_of :: "golib \<Rightarrow> bytes \<Rightarrow> int" where
  "duration_of lib s = (if s = [] then 0 else (case time_ParseDuration lib s of Some d \<Rightarrow> d | None \<Rightarrow> 0))"

definition poolFromConfig :: "golib \<Rightarrow> config_pool \<Rightarrow> PoolConfig" where
  "poolFromConfig lib p =
     \<lparr>MaxConcurrent = cp_MaxConcurrent p, MaxProcsPerTenant = cp_MaxProcsPerTenant p,
      IdleTTL = duration_of lib (cp_IdleTTL p), MaxLifetime = duration_of lib (cp_MaxLifetime p),
      BreakerThreshold = 0, BreakerCooldown = 0, SpawnTimeout = 0\<rparr>"

definition suppliedByEnv :: "(bytes \<Rightarrow> bytes) \<Rightarrow> bytes \<Rightarrow> bytes \<Rightarrow> bool" where
  "suppliedByEnv getenv name got \<longleftrightarrow> got \<noteq> [] \<and> getenv name = got"

definition credsEnvName :: "(bytes \<Rightarrow> bytes) \<Rightarrow> bytes \<Rightarrow> bytes" where
  "credsEnvName getenv got =
     (case find (\<lambda>name. suppliedByEnv getenv name got) gatewayCredsEnv of Some name \<Rightarrow> name | None \<Rightarrow> hd gatewayCredsEnv)"

text \<open>What one check finds: nothing, a setting that is refused, or one that is only reported.\<close>

datatype flag_check = Fine | Dropped conflict | Ignored conflict

definition check_flag :: "bytes \<Rightarrow> bytes \<Rightarrow> bytes \<Rightarrow> bool \<Rightarrow> setting \<Rightarrow> setting \<Rightarrow> flag_check" where
  "check_flag flag env field conflicts got inDoc =
     (if conflicts then Dropped \<lparr>cf_flag = flag, cf_env = env, cf_field = field, cf_got = got, cf_doc = inDoc\<rparr> else Fine)"

definition checkShared :: "(bytes \<Rightarrow> bytes) \<Rightarrow> bytes \<Rightarrow> bytes \<Rightarrow> bytes \<Rightarrow> bool \<Rightarrow> bytes \<Rightarrow> bytes \<Rightarrow> bool \<Rightarrow> flag_check" where
  "checkShared getenv flag env field conflicts got inDoc isURL =
     (let shown = (if isURL then redactNATSURL got else got); shownDoc = (if isURL then redactNATSURL inDoc else inDoc) in
      if conflicts \<and> suppliedByEnv getenv env got then
        Ignored \<lparr>cf_flag = flag, cf_env = env, cf_field = field, cf_got = SString shown, cf_doc = SString shownDoc\<rparr>
      else check_flag flag env field conflicts (SString shown) (SString shownDoc))"

definition file_source_checks :: "(bytes \<Rightarrow> bytes) \<Rightarrow> GatewayCmd \<Rightarrow> bootParams \<Rightarrow> flag_check list" where
  "file_source_checks getenv c boot =
     (let effPrefix = (if bp_prefix boot = [] then DefaultPrefix else bp_prefix boot);
          effQueue = (if bp_queueGroup boot = [] then DefaultQueueGroup (bp_tenant boot) (bp_user boot) else bp_queueGroup boot);
          effPool = Filled (bp_pool boot);
          (inDocAge, inDocBytes) =
            (if bp_claimCheck boot then FilledClaimLimits (bp_claimMaxAge boot) (bp_claimMaxBytes boot)
             else (bp_claimMaxAge boot, bp_claimMaxBytes boot))
      in
        [checkShared getenv ''nats-url'' ''NATSMCP_NATS_URL'' ''nats.url''
           (g_NatsURL c \<noteq> [] \<and> g_NatsURL c \<noteq> defaultNatsURL \<and> g_NatsURL c \<noteq> bp_url boot) (g_NatsURL c) (bp_url boot) True,
         checkShared getenv ''nats-creds'' (credsEnvName getenv (g_NatsCreds c)) ''nats.credsFile''
           (g_NatsCreds c \<noteq> [] \<and> g_NatsCreds c \<noteq> bp_credsFile boot) (g_NatsCreds c) (bp_credsFile boot) False,
         checkShared getenv ''subject-prefix'' ''NATSMCP_SUBJECT_PREFIX'' ''nats.subjectPrefix''
           (g_SubjectPrefix c \<noteq> [] \<and> g_SubjectPrefix c \<noteq> DefaultPrefix \<and> g_SubjectPrefix c \<noteq> effPrefix)
           (g_SubjectPrefix c) effPrefix False,
         checkShared getenv ''inbox-prefix'' ''NATSMCP_INBOX_PREFIX'' ''nats.inboxPrefix''
           (g_InboxPrefix c \<noteq> [] \<and> g_InboxPrefix c \<noteq> bp_inboxPrefix boot) (g_InboxPrefix c) (bp_inboxPrefix boot) False,
         check_flag ''queue-group'' ''NATSMCP_QUEUE_GROUP'' ''nats.queueGroup''
           (g_QueueGroup c \<noteq> [] \<and> g_QueueGroup c \<noteq> effQueue) (SString (g_QueueGroup c)) (SString effQueue),
         check_flag ''scope-tenant'' ''NATSMCP_SCOPE_TENANT'' ''nats.tenant''
           (g_ScopeTenant c \<noteq> [] \<and> g_ScopeTenant c \<noteq> bp_tenant boot) (SString (g_ScopeTenant c)) (SString (bp_tenant boot)),
         check_flag ''scope-user'' ''NATSMCP_SCOPE_USER'' ''nats.user''
           (g_ScopeUser c \<noteq> [] \<and> g_ScopeUser c \<noteq> bp_user boot) (SString (g_ScopeUser c)) (SString (bp_user boot)),
         check_flag ''pool-max-concurrent'' ''NATSMCP_POOL_MAX_CONCURRENT'' ''pool.maxConcurrent''
           (0 < g_PoolMaxConcurrent c \<and> g_PoolMaxConcurrent c \<noteq> MaxConcurrent effPool)
           (SInt (g_PoolMaxConcurrent c)) (SInt (MaxConcurrent effPool)),
         check_flag ''pool-max-procs-per-tenant'' ''NATSMCP_POOL_MAX_PROCS_PER_TENANT'' ''pool.maxProcsPerTenant''
           (0 < g_PoolMaxProcsPerTenant c \<and> g_PoolMaxProcsPerTenant c \<noteq> MaxProcsPerTenant effPool)
           (SInt (g_PoolMaxProcsPerTenant c)) (SInt (MaxProcsPerTenant effPool)),
         check_flag ''pool-idle-ttl'' ''NATSMCP_POOL_IDLE_TTL'' ''pool.idleTtl''
           (0 < g_PoolIdleTTL c \<and> g_PoolIdleTTL c \<noteq> IdleTTL effPool) (SDuration (g_PoolIdleTTL c)) (SDuration (IdleTTL effPool)),
         check_flag ''pool-max-lifetime'' ''NATSMCP_POOL_MAX_LIFETIME'' ''pool.maxLifetime''
           (0 < g_PoolMaxLifetime c \<and> g_PoolMaxLifetime c \<noteq> MaxLifetime effPool)
           (SDuration (g_PoolMaxLifetime c)) (SDuration (MaxLifetime effPool)),
         check_flag ''claim-check'' ''NATSMCP_CLAIM_CHECK'' ''claimCheck''
           (g_ClaimCheck c \<and> \<not> bp_claimCheck boot) (SBool (g_ClaimCheck c)) (SBool (bp_claimCheck boot))] @
        (if bp_claimCheck boot \<or> g_ClaimCheck c then
           [check_flag ''claim-max-age'' ''NATSMCP_CLAIM_MAX_AGE'' ''claimCheck.maxAge''
              (0 < g_ClaimMaxAge c \<and> g_ClaimMaxAge c \<noteq> DefaultClaimMaxAge \<and> g_ClaimMaxAge c \<noteq> inDocAge)
              (SDuration (g_ClaimMaxAge c)) (SDuration inDocAge),
            check_flag ''claim-max-bytes'' ''NATSMCP_CLAIM_MAX_BYTES'' ''claimCheck.maxBytes''
              (0 < g_ClaimMaxBytes c \<and> g_ClaimMaxBytes c \<noteq> DefaultClaimMaxBytes \<and> g_ClaimMaxBytes c \<noteq> inDocBytes)
              (SInt (g_ClaimMaxBytes c)) (SInt inDocBytes)]
         else []))"

definition dropped_by :: "flag_check list \<Rightarrow> conflict list" where
  "dropped_by vs = List.map_filter (\<lambda>v. case v of Dropped c \<Rightarrow> Some c | _ \<Rightarrow> None) vs"

definition ignored_by :: "flag_check list \<Rightarrow> conflict list" where
  "ignored_by vs = List.map_filter (\<lambda>v. case v of Ignored c \<Rightarrow> Some c | _ \<Rightarrow> None) vs"

datatype boot_error =
    BootDocument parse_error
  | BootConflicts "conflict list"
  | BootUserNeedsTenant bytes
  | BootTenantUnsafe bytes
  | BootUserUnsafe bytes
  | BootSubjectPrefix token_error
  | BootQueueGroup token_error
  | BootInboxPrefix token_error
  | BootNegative bytes
  | BootInlineNats

definition checkFileSourceFlags :: "(bytes \<Rightarrow> bytes) \<Rightarrow> GatewayCmd \<Rightarrow> bootParams \<Rightarrow> boot_error + conflict list" where
  "checkFileSourceFlags getenv c boot =
     (let vs = file_source_checks getenv c boot in
      if dropped_by vs = [] then Inr (ignored_by vs) else Inl (BootConflicts (dropped_by vs)))"

text \<open>What a document says about claims: whether it enables them, and their limits.\<close>

definition with_claims :: "golib \<Rightarrow> ClaimCheck option \<Rightarrow> bootParams \<Rightarrow> bootParams" where
  "with_claims lib cc boot =
     (case cc of
        None \<Rightarrow> boot
      | Some k \<Rightarrow>
          boot\<lparr>bp_claimCheck := True,
            bp_claimMaxAge := (if cc_MaxAge k \<noteq> [] then duration_of lib (cc_MaxAge k) else bp_claimMaxAge boot),
            bp_claimMaxBytes := cc_MaxBytes k\<rparr>)"

definition file_params :: "golib \<Rightarrow> Config \<Rightarrow> bootParams" where
  "file_params lib cfg =
     with_claims lib (c_ClaimCheck cfg)
       \<lparr>bp_url = (if n_URL (c_NATS cfg) = [] then defaultNatsURL else n_URL (c_NATS cfg)),
        bp_credsFile = n_CredsFile (c_NATS cfg), bp_prefix = n_SubjectPrefix (c_NATS cfg),
        bp_inboxPrefix = n_InboxPrefix (c_NATS cfg), bp_queueGroup = n_QueueGroup (c_NATS cfg),
        bp_tenant = n_Tenant (c_NATS cfg), bp_user = n_User (c_NATS cfg), bp_pool = poolFromConfig lib (c_Pool cfg),
        bp_claimCheck = False, bp_claimMaxAge = 0, bp_claimMaxBytes = 0, bp_inline = None, bp_ignoredFlags = []\<rparr>"

definition check_flags :: "golib \<Rightarrow> GatewayCmd \<Rightarrow> boot_error + unit" where
  "check_flags lib c = in_order
     [unless_ok (g_ScopeTenant c = [] \<and> g_ScopeUser c \<noteq> []) (BootUserNeedsTenant (g_ScopeUser c)),
      unless_ok (g_ScopeTenant c \<noteq> [] \<and> \<not> TokenSafe (g_ScopeTenant c)) (BootTenantUnsafe (g_ScopeTenant c)),
      unless_ok (g_ScopeUser c \<noteq> [] \<and> \<not> TokenSafe (g_ScopeUser c)) (BootUserUnsafe (g_ScopeUser c)),
      checked_if (g_SubjectPrefix c \<noteq> []) (map_err BootSubjectPrefix (ValidateSubjectPrefix (is_print lib) (g_SubjectPrefix c))),
      checked_if (g_QueueGroup c \<noteq> []) (map_err BootQueueGroup (ValidateQueueGroup (is_print lib) (g_QueueGroup c))),
      checked_if (g_InboxPrefix c \<noteq> []) (map_err BootInboxPrefix (ValidateInboxPrefix (g_InboxPrefix c))),
      unless_ok (g_PoolIdleTTL c < 0) (BootNegative ''--pool-idle-ttl''),
      unless_ok (g_PoolMaxLifetime c < 0) (BootNegative ''--pool-max-lifetime''),
      unless_ok (g_ClaimMaxAge c < 0) (BootNegative ''--claim-max-age''),
      unless_ok (g_PoolMaxConcurrent c < 0) (BootNegative ''--pool-max-concurrent''),
      unless_ok (g_PoolMaxProcsPerTenant c < 0) (BootNegative ''--pool-max-procs-per-tenant''),
      unless_ok (g_ClaimMaxBytes c < 0) (BootNegative ''--claim-max-bytes'')]"

definition flag_params :: "GatewayCmd \<Rightarrow> bootParams" where
  "flag_params c =
     \<lparr>bp_url = g_NatsURL c, bp_credsFile = g_NatsCreds c, bp_prefix = g_SubjectPrefix c, bp_inboxPrefix = g_InboxPrefix c,
      bp_queueGroup = g_QueueGroup c, bp_tenant = g_ScopeTenant c, bp_user = g_ScopeUser c,
      bp_pool = \<lparr>MaxConcurrent = g_PoolMaxConcurrent c, MaxProcsPerTenant = g_PoolMaxProcsPerTenant c, IdleTTL = g_PoolIdleTTL c,
        MaxLifetime = g_PoolMaxLifetime c, BreakerThreshold = 0, BreakerCooldown = 0, SpawnTimeout = 0\<rparr>,
      bp_claimCheck = g_ClaimCheck c, bp_claimMaxAge = g_ClaimMaxAge c, bp_claimMaxBytes = g_ClaimMaxBytes c,
      bp_inline = None, bp_ignoredFlags = []\<rparr>"

definition zero_pool :: config_pool where
  "zero_pool = \<lparr>cp_MaxConcurrent = 0, cp_MaxProcsPerTenant = 0, cp_IdleTTL = [], cp_MaxLifetime = []\<rparr>"

definition resolve_boot ::
  "golib \<Rightarrow> (bytes \<rightharpoonup> bytes) \<Rightarrow> (bytes \<Rightarrow> bytes) \<Rightarrow> (bytes \<rightharpoonup> bytes) \<Rightarrow> GatewayCmd \<Rightarrow> sourceKind \<Rightarrow> boot_error + bootParams" where
  "resolve_boot lib env getenv read_file c kind =
     (if kind = SourceFile then
        bind_err (map_err BootDocument (Load lib env read_file (g_Config c)))
          (\<lambda>cfg. bind_err (checkFileSourceFlags getenv c (file_params lib cfg))
             (\<lambda>ignored. Inr ((file_params lib cfg)\<lparr>bp_ignoredFlags := ignored\<rparr>)))
      else
        bind_err (check_flags lib c)
          (\<lambda>_. if kind = SourceInline then
                 bind_err (map_err BootDocument (ParseInline lib env (g_ConfigJSON c)))
                   (\<lambda>cfg. if c_NATS cfg \<noteq> zero_nats then Inl BootInlineNats
                          else
                            (let boot = (if c_Pool cfg \<noteq> zero_pool then (flag_params c)\<lparr>bp_pool := poolFromConfig lib (c_Pool cfg)\<rparr>
                                         else flag_params c)
                             in Inr ((with_claims lib (c_ClaimCheck cfg) boot)\<lparr>bp_inline := Some cfg\<rparr>)))
               else Inr (flag_params c)))"

text \<open>The source the settings make, and whether a hangup reloads it.\<close>

datatype source_config = FileConfig bytes int | StaticConfig "Config option" | FetchConfig bytes bytes int

definition buildSource :: "GatewayCmd \<Rightarrow> sourceKind \<Rightarrow> bootParams \<Rightarrow> source_config \<times> bool" where
  "buildSource c kind boot =
     (case kind of
        SourceFile \<Rightarrow> (FileConfig (g_Config c) (g_ReloadInterval c), True)
      | SourceInline \<Rightarrow> (StaticConfig (bp_inline boot), False)
      | SourceFetch \<Rightarrow> (FetchConfig (g_ConfigSubject c) (g_ConfigEventsSubject c) (g_ConfigRefetch c), False))"

section \<open>The version\<close>

text \<open>The pattern \<open>semVer\<close>: its parts are found by the separators, which the parts before them cannot hold.\<close>

definition ver_digit :: "char \<Rightarrow> bool" where
  "ver_digit c \<longleftrightarrow> 48 \<le> byte c \<and> byte c \<le> 57"

definition ver_char :: "char \<Rightarrow> bool" where
  "ver_char c \<longleftrightarrow> ver_digit c \<or> 65 \<le> byte c \<and> byte c \<le> 90 \<or> 97 \<le> byte c \<and> byte c \<le> 122 \<or> c = CHR ''-''"

definition numeric_ident :: "bytes \<Rightarrow> bool" where
  "numeric_ident s \<longleftrightarrow> s \<noteq> [] \<and> list_all ver_digit s \<and> (s = ''0'' \<or> hd s \<noteq> CHR ''0'')"

definition pre_ident :: "bytes \<Rightarrow> bool" where
  "pre_ident s \<longleftrightarrow> numeric_ident s \<or> (s \<noteq> [] \<and> list_all ver_char s \<and> \<not> list_all ver_digit s)"

definition semVer :: "bytes \<Rightarrow> bool" where
  "semVer v =
     (let (main, build_ok) =
        (case cut_at_byte (CHR ''+'') v of
           Some (m, b) \<Rightarrow> (m, list_all (\<lambda>i. i \<noteq> [] \<and> list_all ver_char i) (strings_Split b (CHR ''.'')))
         | None \<Rightarrow> (v, True));
        (core, pre_ok) =
        (case cut_at_byte (CHR ''-'') main of
           Some (m, p) \<Rightarrow> (m, list_all pre_ident (strings_Split p (CHR ''.'')))
         | None \<Rightarrow> (main, True))
      in build_ok \<and> pre_ok \<and> length (strings_Split core (CHR ''.'')) = 3 \<and> list_all numeric_ident (strings_Split core (CHR ''.'')))"

definition normalizeVersion :: "bytes \<Rightarrow> bytes" where
  "normalizeVersion v =
     (let s = (case strings_CutPrefix v ''v'' of Some r \<Rightarrow> r | None \<Rightarrow> v) in if semVer s then s else ''0.0.0'')"

section \<open>What was asked for is what is served\<close>

lemma dropped_by_Nil: "dropped_by vs = [] \<longleftrightarrow> (\<forall>v\<in>set vs. \<forall>k. v \<noteq> Dropped k)"
  by (induction vs) (auto simp: dropped_by_def List.map_filter_simps split: flag_check.splits)

lemma ignored_by_set: "set (ignored_by vs) = {k. Ignored k \<in> set vs}"
  by (induction vs) (auto simp: ignored_by_def List.map_filter_simps split: flag_check.splits)

lemma check_flag_passes [simp]: "(\<forall>k. check_flag flag env field conflicts got inDoc \<noteq> Dropped k) \<longleftrightarrow> \<not> conflicts"
  by (simp add: check_flag_def)

lemma checkShared_passes:
  assumes "\<forall>k. checkShared getenv flag env field conflicts got inDoc isURL \<noteq> Dropped k" conflicts
  shows "\<exists>k. checkShared getenv flag env field conflicts got inDoc isURL = Ignored k \<and> cf_flag k = flag"
  using assms by (auto simp: checkShared_def check_flag_def Let_def split: if_splits)

definition file_flags_ok :: "GatewayCmd \<Rightarrow> bootParams \<Rightarrow> conflict list \<Rightarrow> bool" where
  "file_flags_ok c boot ignored \<longleftrightarrow>
     (g_ScopeTenant c \<noteq> [] \<longrightarrow> bp_tenant boot = g_ScopeTenant c) \<and>
     (g_ScopeUser c \<noteq> [] \<longrightarrow> bp_user boot = g_ScopeUser c) \<and>
     (g_InboxPrefix c \<noteq> [] \<longrightarrow> bp_inboxPrefix boot = g_InboxPrefix c \<or> (\<exists>k\<in>set ignored. cf_flag k = ''inbox-prefix''))"

lemma checkFileSourceFlags_ok:
  assumes "checkFileSourceFlags getenv c boot = Inr ignored"
  shows "file_flags_ok c boot ignored"
proof -
  let ?vs = "file_source_checks getenv c boot"
  have none: "\<forall>v\<in>set ?vs. \<forall>k. v \<noteq> Dropped k" and ig: "ignored = ignored_by ?vs"
    using assms by (auto simp: checkFileSourceFlags_def Let_def dropped_by_Nil split: if_splits)
  let ?t = "check_flag ''scope-tenant'' ''NATSMCP_SCOPE_TENANT'' ''nats.tenant''
      (g_ScopeTenant c \<noteq> [] \<and> g_ScopeTenant c \<noteq> bp_tenant boot) (SString (g_ScopeTenant c)) (SString (bp_tenant boot))"
  let ?u = "check_flag ''scope-user'' ''NATSMCP_SCOPE_USER'' ''nats.user''
      (g_ScopeUser c \<noteq> [] \<and> g_ScopeUser c \<noteq> bp_user boot) (SString (g_ScopeUser c)) (SString (bp_user boot))"
  let ?b = "g_InboxPrefix c \<noteq> [] \<and> g_InboxPrefix c \<noteq> bp_inboxPrefix boot"
  let ?i = "checkShared getenv ''inbox-prefix'' ''NATSMCP_INBOX_PREFIX'' ''nats.inboxPrefix'' ?b (g_InboxPrefix c) (bp_inboxPrefix boot) False"
  have "?t \<in> set ?vs" "?u \<in> set ?vs" "?i \<in> set ?vs"
    unfolding file_source_checks_def Let_def by (simp_all add: FilledClaimLimits_def)
  then have "\<forall>k. ?t \<noteq> Dropped k" "\<forall>k. ?u \<noteq> Dropped k" and i: "\<forall>k. ?i \<noteq> Dropped k" "?i \<in> set ?vs" using none by blast+
  then have "\<not> (g_ScopeTenant c \<noteq> [] \<and> g_ScopeTenant c \<noteq> bp_tenant boot)" "\<not> (g_ScopeUser c \<noteq> [] \<and> g_ScopeUser c \<noteq> bp_user boot)"
    unfolding check_flag_passes by blast+
  moreover have "\<exists>k\<in>set ignored. cf_flag k = ''inbox-prefix''" if ?b
  proof -
    from checkShared_passes [OF i(1) that] obtain k where "?i = Ignored k" "cf_flag k = ''inbox-prefix''" by blast
    with i(2) ig show ?thesis by (auto simp: ignored_by_set)
  qed
  ultimately show ?thesis unfolding file_flags_ok_def by metis
qed

lemma with_claims_keeps [simp]:
  "bp_tenant (with_claims lib cc boot) = bp_tenant boot" "bp_user (with_claims lib cc boot) = bp_user boot"
  "bp_prefix (with_claims lib cc boot) = bp_prefix boot" "bp_inboxPrefix (with_claims lib cc boot) = bp_inboxPrefix boot"
  by (simp_all add: with_claims_def split: option.split)

definition scope_ok :: "bytes \<Rightarrow> bytes \<Rightarrow> bool" where
  "scope_ok tenant user \<longleftrightarrow>
     (tenant = [] \<longrightarrow> user = []) \<and> (tenant \<noteq> [] \<longrightarrow> TokenSafe tenant) \<and> (user \<noteq> [] \<longrightarrow> TokenSafe user)"

lemma scope_ok_endpoint:
  "scope_ok tenant user \<Longrightarrow> TokenSafe name \<Longrightarrow> \<exists>subject. EndpointSubject pfx tenant user name = Inr subject"
  by (auto simp: scope_ok_def EndpointSubject_def Let_def)

lemma check_flags_scope: "check_flags lib c = Inr () \<Longrightarrow> scope_ok (g_ScopeTenant c) (g_ScopeUser c)"
  by (auto simp: check_flags_def in_order_Inr scope_ok_def)

lemma Load_valid: "Load lib env read_file path = Inr cfg \<Longrightarrow> validate lib cfg = Inr ()"
  by (auto simp: Load_def Parse_def parse_config_def split: option.splits sum.splits)

lemma validate_scope: "validate lib cfg = Inr () \<Longrightarrow> scope_ok (n_Tenant (c_NATS cfg)) (n_User (c_NATS cfg))"
  using validate_natsD [of lib cfg] by (auto simp: validate_nats_def in_order_Inr scope_ok_def)

text \<open>
  A gateway that is asked to be scoped serves nobody else: whatever the source, if the boot succeeds then
  the tenant and the user it is scoped to are the ones the operator set, a user only with a tenant, every
  server gets an endpoint under that scope, and an inbox prefix is either used or reported as ignored.
\<close>

theorem requested_scope_is_served:
  assumes "resolve_boot lib env getenv read_file c kind = Inr boot"
  shows "(g_ScopeTenant c \<noteq> [] \<longrightarrow> bp_tenant boot = g_ScopeTenant c) \<and>
    (g_ScopeUser c \<noteq> [] \<longrightarrow> bp_user boot = g_ScopeUser c) \<and>
    (bp_user boot \<noteq> [] \<longrightarrow> bp_tenant boot \<noteq> []) \<and>
    (TokenSafe name \<longrightarrow> (\<exists>subject. EndpointSubject (bp_prefix boot) (bp_tenant boot) (bp_user boot) name = Inr subject)) \<and>
    (g_InboxPrefix c \<noteq> [] \<longrightarrow> bp_inboxPrefix boot = g_InboxPrefix c \<or> (\<exists>k\<in>set (bp_ignoredFlags boot). cf_flag k = ''inbox-prefix''))"
proof (cases "kind = SourceFile")
  case True
  then obtain cfg ignored where b: "Load lib env read_file (g_Config c) = Inr cfg"
    "checkFileSourceFlags getenv c (file_params lib cfg) = Inr ignored" "boot = (file_params lib cfg)\<lparr>bp_ignoredFlags := ignored\<rparr>"
    using assms by (auto simp: resolve_boot_def bind_err_Inr)
  have s: "scope_ok (bp_tenant boot) (bp_user boot)"
    using validate_scope [OF Load_valid [OF b(1)]] b(3) by (simp add: file_params_def)
  have "bp_tenant boot = bp_tenant (file_params lib cfg)" "bp_user boot = bp_user (file_params lib cfg)"
    "bp_inboxPrefix boot = bp_inboxPrefix (file_params lib cfg)" "bp_ignoredFlags boot = ignored"
    by (simp_all add: b(3))
  with checkFileSourceFlags_ok [OF b(2)] s scope_ok_endpoint [OF s] show ?thesis
    by (auto simp: file_flags_ok_def scope_ok_def)
next
  case False
  then have f: "check_flags lib c = Inr ()"
    and k: "bp_tenant boot = g_ScopeTenant c" "bp_user boot = g_ScopeUser c" "bp_inboxPrefix boot = g_InboxPrefix c"
    using assms by (auto simp: resolve_boot_def bind_err_Inr flag_params_def Let_def split: if_splits)
  from check_flags_scope [OF f] k scope_ok_endpoint [of "bp_tenant boot" "bp_user boot" name] show ?thesis
    by (auto simp: scope_ok_def)
qed

definition ex_flags :: GatewayCmd where
  "ex_flags = \<lparr>g_Config = [], g_ReloadInterval = 0, g_ConfigJSON = [], g_ConfigSubject = ''cfg.get'', g_ConfigEventsSubject = [], g_ConfigRefetch = 0,
     g_NatsURL = defaultNatsURL, g_NatsCreds = [], g_SubjectPrefix = [], g_InboxPrefix = [], g_QueueGroup = [], g_ScopeTenant = ''acme'',
     g_ScopeUser = ''bob'', g_PoolMaxConcurrent = 0, g_PoolMaxProcsPerTenant = 0, g_PoolIdleTTL = 0, g_PoolMaxLifetime = 0,
     g_ClaimCheck = False, g_ClaimMaxAge = 0, g_ClaimMaxBytes = 0\<rparr>"

lemma ex_boot: "resolve_boot ex_lib Map.empty (\<lambda>_. []) Map.empty ex_flags SourceFetch = Inr (flag_params ex_flags)"
  by (simp add: resolve_boot_def check_flags_def in_order_Inr bind_err_Inr ex_flags_def TokenSafe_def token_char_def)

lemma requested_scope_is_served_witness:
  "\<exists>subject. EndpointSubject [] ''acme'' ''bob'' ''fs'' = Inr subject"
proof -
  have "TokenSafe ''fs''" by code_simp
  with requested_scope_is_served [OF ex_boot, of "''fs''"] show ?thesis by (simp add: flag_params_def ex_flags_def)
qed

section \<open>The version is one the service accepts\<close>

lemma semVer_zero: "semVer ''0.0.0''"
  by code_simp

lemma normalized_is_semVer: "semVer (normalizeVersion v)"
  by (simp add: normalizeVersion_def Let_def semVer_zero)

lemma release_tag_kept: "semVer s \<Longrightarrow> normalizeVersion (CHR ''v'' # s) = s"
  by (simp add: normalizeVersion_def)

end
