(* ===== verification/CredGrants.thy ===== *)
theory CredGrants
  imports Redact
begin

text \<open>
  Credentials that are fetched by running something: the OAuth grants (\<open>oauth.go\<close> of
  \<open>pkg/backend/cred\<close>) and the credential helper (\<open>exec.go\<close>).  The token endpoint, the file system and the
  outcome of the helper's process are parameters; times are nanoseconds.
\<close>

section \<open>Forms\<close>

text \<open>\<open>url.QueryEscape\<close>, and \<open>Values.Encode\<close> of a form with one value for each key, in the order of the keys.\<close>

definition upper_hex :: "nat \<Rightarrow> char" where
  "upper_hex n = (if n < 10 then char_of (48 + n) else char_of (55 + n))"

definition unreserved :: "char \<Rightarrow> bool" where
  "unreserved c \<longleftrightarrow> 48 \<le> byte c \<and> byte c \<le> 57 \<or> 65 \<le> byte c \<and> byte c \<le> 90 \<or> 97 \<le> byte c \<and> byte c \<le> 122 \<or> c \<in> set ''-_.~''"

definition query_escape_byte :: "char \<Rightarrow> bytes" where
  "query_escape_byte c =
     (if unreserved c then [c] else if c = CHR '' '' then ''+''
      else [CHR ''%'', upper_hex (byte c div 16), upper_hex (byte c mod 16)])"

definition QueryEscape :: "bytes \<Rightarrow> bytes" where
  "QueryEscape s = concat (map query_escape_byte s)"

type_synonym form = "(bytes \<times> bytes) list"

definition form_set :: "bytes \<Rightarrow> bytes \<Rightarrow> form \<Rightarrow> form" where
  "form_set k v f = AList.update k v f"

definition setOpt :: "bytes \<Rightarrow> bytes \<Rightarrow> form \<Rightarrow> form" where
  "setOpt k v f = (if v = [] then f else form_set k v f)"

definition form_Encode :: "form \<Rightarrow> bytes" where
  "form_Encode f = strings_Join (map (\<lambda>(k, v). QueryEscape k @ ''='' @ QueryEscape v) (sort_key fst f)) ''&''"

section \<open>The token request\<close>

datatype grant_error =
    TokenRequestFailed
  | TokenBodyUnread
  | TokenEndpoint int bytes
  | BadTokenResponse unmarshal_error
  | NoAccessToken
  | NoSubjectToken bytes
  | NoRefreshToken bytes
  | GrantTerminal grant_error

fun grant_terminal :: "grant_error \<Rightarrow> bool" where
  "grant_terminal (GrantTerminal e) = True"
| "grant_terminal _ = False"

text \<open>What is posted: the body and, for a client with a secret, the two parts of its Basic header.\<close>

record token_post =
  tp_url :: bytes
  tp_body :: bytes
  tp_basic :: "(bytes \<times> bytes) option"

text \<open>What comes back: \<open>None\<close> when the request failed, else a status and, when it could be read, a body.\<close>

type_synonym endpoint = "token_post \<Rightarrow> (int \<times> bytes option) option"

record OAuthClientCredentials =
  cl_TokenURL :: bytes
  cl_ClientID :: bytes
  cl_ClientSecret :: bytes
  cl_Scope :: bytes
  cl_Audience :: bytes

record token =
  t_AccessToken :: bytes
  t_TokenType :: bytes
  t_ExpiresIn :: int
  t_RefreshToken :: bytes

fun token_members :: "token \<Rightarrow> (bytes \<times> jval) list \<Rightarrow> unmarshal_error + token" where
  "token_members t [] = Inr t"
| "token_members t ((k, v) # kvs) =
     (case field_of [''access_token'', ''token_type'', ''expires_in'', ''refresh_token''] k of
        None \<Rightarrow> token_members t kvs
      | Some f \<Rightarrow>
          if f = ''access_token'' then bind_err (into_string (t_AccessToken t) v) (\<lambda>s. token_members (t\<lparr>t_AccessToken := s\<rparr>) kvs)
          else if f = ''token_type'' then bind_err (into_string (t_TokenType t) v) (\<lambda>s. token_members (t\<lparr>t_TokenType := s\<rparr>) kvs)
          else if f = ''expires_in'' then bind_err (into_int (t_ExpiresIn t) v) (\<lambda>n. token_members (t\<lparr>t_ExpiresIn := n\<rparr>) kvs)
          else bind_err (into_string (t_RefreshToken t) v) (\<lambda>s. token_members (t\<lparr>t_RefreshToken := s\<rparr>) kvs))"

definition unmarshal_token :: "bytes \<Rightarrow> unmarshal_error + token" where
  "unmarshal_token body =
     (let zero = \<lparr>t_AccessToken = [], t_TokenType = [], t_ExpiresIn = 0, t_RefreshToken = []\<rparr> in
      case json_parse body of
        None \<Rightarrow> Inl SyntaxError
      | Some v \<Rightarrow>
          if v = json_null then Inr zero
          else (case v of JObject w ms \<Rightarrow> token_members zero (members_list ms) | _ \<Rightarrow> Inl UnmarshalTypeError))"

definition truncateStr :: "bytes \<Rightarrow> nat \<Rightarrow> bytes" where
  "truncateStr b n = (let s = strings_TrimSpace b in if length s \<le> n then s else take n s @ ''...'')"

text \<open>\<open>time.Duration(n) * time.Second\<close> is a product of 64-bit integers.\<close>

definition times_second :: "int \<Rightarrow> int" where
  "times_second n = sint (word_of_int n * 1000000000 :: 64 word)"

definition token_post_of :: "OAuthClientCredentials \<Rightarrow> form \<Rightarrow> token_post" where
  "token_post_of c f0 =
     (let f = (if cl_ClientID c \<noteq> [] \<and> cl_ClientSecret c = [] then form_set ''client_id'' (cl_ClientID c) f0 else f0) in
      \<lparr>tp_url = cl_TokenURL c, tp_body = form_Encode f,
       tp_basic = (if cl_ClientID c \<noteq> [] \<and> cl_ClientSecret c \<noteq> []
         then Some (QueryEscape (cl_ClientID c), QueryEscape (cl_ClientSecret c)) else None)\<rparr>)"

definition token_credentials :: "int \<Rightarrow> token \<Rightarrow> Credentials" where
  "token_credentials now t =
     (let typ = (if t_TokenType t = [] \<or> strings_EqualFold (t_TokenType t) ''bearer'' then ''Bearer'' else t_TokenType t);
          expires = (if 0 < t_ExpiresIn t then times_second (t_ExpiresIn t) else 5 * 60 * 1000000000)
      in \<lparr>Headers = [''Authorization'' \<mapsto> typ @ '' '' @ t_AccessToken t], Env = Map.empty, ExpiresAt = Some (now + expires)\<rparr>)"

definition tokenRequestFull :: "endpoint \<Rightarrow> int \<Rightarrow> OAuthClientCredentials \<Rightarrow> form \<Rightarrow> grant_error + Credentials \<times> bytes" where
  "tokenRequestFull idp now c f =
     (case idp (token_post_of c f) of
        None \<Rightarrow> Inl TokenRequestFailed
      | Some (status, None) \<Rightarrow> Inl TokenBodyUnread
      | Some (status, Some body0) \<Rightarrow>
          (let body = take (2 ^ 20) body0 in
           if status \<noteq> 200 then
             (let e = TokenEndpoint status (truncateStr body 300) in
              Inl (if 400 \<le> status \<and> status < 500 then GrantTerminal e else e))
           else
             (case unmarshal_token body of
                Inl e \<Rightarrow> Inl (BadTokenResponse e)
              | Inr t \<Rightarrow>
                  if t_AccessToken t = [] then Inl (GrantTerminal NoAccessToken)
                  else Inr (token_credentials now t, t_RefreshToken t))))"

definition tokenRequest :: "endpoint \<Rightarrow> int \<Rightarrow> OAuthClientCredentials \<Rightarrow> form \<Rightarrow> grant_error + Credentials" where
  "tokenRequest idp now c f = map_sum id fst (tokenRequestFull idp now c f)"

definition ClientCredentials_Resolve :: "endpoint \<Rightarrow> int \<Rightarrow> OAuthClientCredentials \<Rightarrow> grant_error + Credentials" where
  "ClientCredentials_Resolve idp now c =
     tokenRequest idp now c
       (setOpt ''audience'' (cl_Audience c) (setOpt ''scope'' (cl_Scope c) [(''grant_type'', ''client_credentials'')]))"

definition TokenExchange_Resolve ::
  "endpoint \<Rightarrow> (bytes \<rightharpoonup> bytes) \<Rightarrow> int \<Rightarrow> OAuthClientCredentials \<Rightarrow> bytes \<Rightarrow> bytes \<Rightarrow> bytes \<Rightarrow> bytes \<Rightarrow> bytes \<Rightarrow> grant_error + Credentials" where
  "TokenExchange_Resolve idp read_file now c subjectFile subjectType tenant user server =
     (let path = expandPath subjectFile tenant user server in
      case read_file path of
        None \<Rightarrow> Inl (NoSubjectToken path)
      | Some subject \<Rightarrow>
          (let tokType = (if subjectType = [] then ''urn:ietf:params:oauth:token-type:access_token'' else subjectType) in
           tokenRequest idp now c
             (setOpt ''audience'' (cl_Audience c) (setOpt ''scope'' (cl_Scope c)
                [(''grant_type'', ''urn:ietf:params:oauth:grant-type:token-exchange''),
                 (''subject_token'', strings_TrimSpace subject), (''subject_token_type'', tokType)]))))"

section \<open>The store of refresh tokens\<close>

text \<open>
  Of each file the store sees its content and what a crash would leave of it: \<open>Sync\<close> makes them the
  same.  \<open>Save\<close> is the operations below, and it stops at the first one that fails; a write that fails may
  have written any part.
\<close>

type_synonym disk = "bytes \<rightharpoonup> (bytes \<times> bytes)"

datatype save_op = CreateTemp | WriteString bytes bytes | SyncFile | CloseFile | RenameFile

definition save_op_effect :: "bytes \<Rightarrow> bytes \<Rightarrow> save_op \<Rightarrow> disk \<Rightarrow> disk" where
  "save_op_effect tmp path p d =
     (case p of
        CreateTemp \<Rightarrow> d(tmp \<mapsto> ([], []))
      | WriteString content kept \<Rightarrow> d(tmp \<mapsto> (content, kept))
      | SyncFile \<Rightarrow> (case d tmp of Some (content, _) \<Rightarrow> d(tmp \<mapsto> (content, content)) | None \<Rightarrow> d)
      | CloseFile \<Rightarrow> d
      | RenameFile \<Rightarrow> (d(path := d tmp))(tmp := None))"

definition save_program :: "bytes \<Rightarrow> bytes \<Rightarrow> save_op list" where
  "save_program t kept = [CreateTemp, WriteString t kept, SyncFile, CloseFile, RenameFile]"

text \<open>
  The disks that \<open>Save\<close> goes through when its first \<open>n\<close> operations succeed and the next one, if there
  is one, fails after writing \<open>part\<close>; the last one is after the deferred removal of the temporary file.
\<close>

fun save_disks :: "bytes \<Rightarrow> bytes \<Rightarrow> save_op list \<Rightarrow> disk \<Rightarrow> disk list" where
  "save_disks tmp path [] d = [d, d(tmp := None)]"
| "save_disks tmp path (p # ps) d = d # save_disks tmp path ps (save_op_effect tmp path p d)"

definition failed_write :: "bytes \<Rightarrow> bytes \<Rightarrow> save_op list \<Rightarrow> nat \<Rightarrow> save_op list" where
  "failed_write part kept ps n =
     take n ps @ (case drop n ps of WriteString _ _ # _ \<Rightarrow> [WriteString part kept] | _ \<Rightarrow> [])"

definition Save :: "bytes \<Rightarrow> nat \<Rightarrow> bytes \<Rightarrow> bytes \<Rightarrow> bytes \<Rightarrow> bytes \<Rightarrow> disk \<Rightarrow> disk list" where
  "Save tmp n t kept part path d = save_disks tmp path (failed_write part kept (save_program t kept) n) d"

definition Store_Load :: "disk \<Rightarrow> bytes \<Rightarrow> bytes option" where
  "Store_Load d path = map_option (\<lambda>(content, _). strings_TrimSpace content) (d path)"

text \<open>
  The refresh grant: the token that is sent, and what becomes of it, with the token to store when the
  endpoint rotated it.
\<close>

definition Refresh_Resolve ::
  "endpoint \<Rightarrow> (bytes \<Rightarrow> bytes option) \<Rightarrow> int \<Rightarrow> OAuthClientCredentials \<Rightarrow> bytes \<Rightarrow> bytes \<Rightarrow> bytes \<Rightarrow> bytes \<Rightarrow>
     (grant_error + Credentials) \<times> bytes option" where
  "Refresh_Resolve idp load now c tpl tenant user server =
     (let path = expandPath tpl tenant user server in
      case load path of
        None \<Rightarrow> (Inl (NoRefreshToken path), None)
      | Some refresh \<Rightarrow>
          (case tokenRequestFull idp now c (setOpt ''scope'' (cl_Scope c) [(''grant_type'', ''refresh_token''), (''refresh_token'', refresh)]) of
             Inl e \<Rightarrow> (Inl e, None)
           | Inr (creds, rotated) \<Rightarrow>
               (Inr creds, if rotated \<noteq> [] \<and> rotated \<noteq> refresh then Some rotated else None)))"

text \<open>
  Resolves that follow one another on one store, \<open>load\<close> and \<open>save\<close> being its operations: for each, the
  endpoint, the time and how far its save gets, if it comes to one.
\<close>

fun refresh_turns ::
  "('s \<Rightarrow> bytes \<Rightarrow> bytes option) \<Rightarrow> (nat \<Rightarrow> bytes \<Rightarrow> bytes \<Rightarrow> 's \<Rightarrow> 's) \<Rightarrow> OAuthClientCredentials \<Rightarrow> bytes \<Rightarrow> bytes \<Rightarrow> bytes \<Rightarrow> bytes \<Rightarrow>
     (endpoint \<times> int \<times> nat) list \<Rightarrow> 's \<Rightarrow> 's" where
  "refresh_turns load save c tpl tenant user server [] s = s"
| "refresh_turns load save c tpl tenant user server ((idp, now, n) # turns) s =
     refresh_turns load save c tpl tenant user server turns
       (case snd (Refresh_Resolve idp (load s) now c tpl tenant user server) of
          None \<Rightarrow> s
        | Some rotated \<Rightarrow> save n (expandPath tpl tenant user server) rotated s)"

text \<open>
  What a resolver relies on in a \<open>TokenStore\<close>: a save replaces the token as a whole or leaves it, and
  one that gets to its end replaces it.
\<close>

locale token_store =
  fixes load :: "'s \<Rightarrow> bytes \<Rightarrow> bytes option"
    and save :: "nat \<Rightarrow> bytes \<Rightarrow> bytes \<Rightarrow> 's \<Rightarrow> 's"
    and complete :: nat
  assumes all_or_nothing: "load (save n path t s) path = load s path \<or> load (save n path t s) path = Some (strings_TrimSpace t)"
    and completed: "complete \<le> n \<Longrightarrow> load (save n path t s) path = Some (strings_TrimSpace t)"
begin

lemma token_stays:
  "load s (expandPath tpl tenant user server) \<noteq> None \<Longrightarrow>
     load (refresh_turns load save c tpl tenant user server turns s) (expandPath tpl tenant user server) \<noteq> None"
proof (induction turns arbitrary: s)
  case (Cons turn turns)
  obtain idp now n where t: "turn = (idp, now, n)" by (cases turn) auto
  show ?case
  proof (cases "snd (Refresh_Resolve idp (load s) now c tpl tenant user server)")
    case None
    with Cons t show ?thesis by simp
  next
    case (Some rotated)
    have "load (save n (expandPath tpl tenant user server) rotated s) (expandPath tpl tenant user server) \<noteq> None"
      using all_or_nothing [of n "expandPath tpl tenant user server" rotated s] Cons.prems by auto
    from Cons.IH [OF this] t Some show ?thesis by simp
  qed
qed simp

lemma next_token:
  "snd (Refresh_Resolve idp (load s) now c tpl tenant user server) = Some rotated \<Longrightarrow> complete \<le> n \<Longrightarrow>
     load (refresh_turns load save c tpl tenant user server [(idp, now, n)] s) (expandPath tpl tenant user server) =
       Some (strings_TrimSpace rotated)"
  by (simp add: completed)

end

section \<open>The helper\<close>

record Exec =
  x_Command :: bytes
  x_Args :: "bytes list"
  x_Env :: "(bytes \<times> bytes) list"
  x_Timeout :: int
  x_WaitDelay :: int

definition helperWaitDelay :: int where
  "helperWaitDelay = 3 * 1000000000"

text \<open>What is started: the command, where it runs, its environment in the order it is built, and its limits.\<close>

record helper_cmd =
  h_command :: bytes
  h_args :: "bytes list"
  h_dir :: bytes
  h_env :: "(bytes \<times> bytes) list"
  h_timeout :: int
  h_waitDelay :: int
  h_setpgid :: bool

text \<open>\<open>abs_path\<close> is \<open>filepath.Abs\<close>, \<open>home\<close> the scratch directory of the run and \<open>path_var\<close> the gateway's \<open>PATH\<close>.\<close>

definition helper_of :: "(bytes \<Rightarrow> bytes option) \<Rightarrow> bytes \<Rightarrow> bytes \<Rightarrow> Exec \<Rightarrow> bytes \<Rightarrow> bytes \<Rightarrow> bytes \<Rightarrow> helper_cmd" where
  "helper_of abs_path path_var home e tenant user server =
     \<lparr>h_command =
        (if CHR ''/'' \<in> set (x_Command e) \<and> \<not> strings_HasPrefix (x_Command e) ''/'' then
           (case abs_path (x_Command e) of Some a \<Rightarrow> a | None \<Rightarrow> x_Command e)
         else x_Command e),
      h_args = x_Args e, h_dir = home,
      h_env = [(''PATH'', path_var), (''HOME'', home), (''NATSMCP_CRED_TENANT'', tenant), (''NATSMCP_CRED_USER'', user),
        (''NATSMCP_CRED_SERVER'', server)] @ x_Env e,
      h_timeout = (if x_Timeout e \<le> 0 then 30 * 1000000000 else x_Timeout e),
      h_waitDelay = (if x_WaitDelay e \<le> 0 then helperWaitDelay else x_WaitDelay e),
      h_setpgid = True\<rparr>"

text \<open>What the process finds in its environment: \<open>os/exec\<close> keeps the last of several entries for a name.\<close>

definition helper_getenv :: "helper_cmd \<Rightarrow> bytes \<Rightarrow> bytes option" where
  "helper_getenv h name = map_of (rev (h_env h)) name"

text \<open>
  How a run ends, as \<open>Cmd.Output\<close> tells it: with its output, with an exit status or a signal, with
  a pipe that stayed open past the delay, or not started.
\<close>

datatype run_result = Ran bytes | ExitFailure bytes bytes | PipeHeld bytes | NotRun bytes

datatype helper_error =
    NoScratchHome
  | HelperFailed bytes bytes bytes
  | HelperLeftPipe bytes bytes
  | HelperNotRun bytes bytes
  | HelperOutput cred_error

text \<open>The result, and whether the process group of the helper is killed afterwards.\<close>

definition Exec_Resolve ::
  "(helper_cmd \<Rightarrow> run_result) \<Rightarrow> (bytes \<Rightarrow> int option option) \<Rightarrow> (bytes \<Rightarrow> bytes option) \<Rightarrow> bytes \<Rightarrow> bytes option \<Rightarrow> Exec \<Rightarrow>
     bytes \<Rightarrow> bytes \<Rightarrow> bytes \<Rightarrow> (helper_error + Credentials) \<times> bool" where
  "Exec_Resolve run parse_time abs_path path_var mkdir e tenant user server =
     (case mkdir of
        None \<Rightarrow> (Inl NoScratchHome, False)
      | Some home \<Rightarrow>
          (case run (helper_of abs_path path_var home e tenant user server) of
             ExitFailure err stderr \<Rightarrow> (Inl (HelperFailed (x_Command e) err (strings_TrimSpace stderr)), False)
           | PipeHeld err \<Rightarrow> (Inl (HelperLeftPipe (x_Command e) err), True)
           | NotRun err \<Rightarrow> (Inl (HelperNotRun (x_Command e) err), False)
           | Ran out \<Rightarrow> (map_sum HelperOutput id (decodeCredentials parse_time out), False)))"

text \<open>
  \<open>cancelHelper\<close>, called when the context ends: the group is killed only when the leader still answers.
  \<open>alive\<close> is the error of the probe, \<open>kill\<close> that of the kill, where \<open>ESRCH\<close> is not one.
\<close>

datatype kill_error = ESRCH | KillError bytes

definition killHelperGroup :: "kill_error option \<Rightarrow> bytes option" where
  "killHelperGroup kill = (case kill of Some (KillError e) \<Rightarrow> Some e | _ \<Rightarrow> None)"

definition cancelHelper :: "bytes option \<Rightarrow> kill_error option \<Rightarrow> bytes option \<times> bool" where
  "cancelHelper probe kill = (case probe of Some e \<Rightarrow> (Some e, False) | None \<Rightarrow> (killHelperGroup kill, True))"

section \<open>A rotated token is not lost\<close>

lemma Save_path:
  assumes "tmp \<noteq> path"
  shows "set (map (\<lambda>d. d path) (Save tmp n t kept part path d)) \<subseteq> {d path, Some (t, t)} \<and>
    last (Save tmp n t kept part path d) tmp = None \<and>
    last (Save tmp n t kept part path d) path = (if n < 5 then d path else Some (t, t))"
proof -
  have "n < 5 \<or> (\<exists>m. n = Suc (Suc (Suc (Suc (Suc m)))))" by presburger
  then consider "n = 0" | "n = 1" | "n = 2" | "n = 3" | "n = 4" | m where "n = Suc (Suc (Suc (Suc (Suc m))))"
    by (auto simp: less_Suc_eq eval_nat_numeral)
  then show ?thesis
    using assms
    by cases (simp_all add: Save_def save_program_def failed_write_def save_op_effect_def eval_nat_numeral)
qed

text \<open>\<open>os.CreateTemp(filepath.Dir(path), "." + filepath.Base(path) + ".*")\<close> for a clean path.\<close>

definition temp_name :: "bytes \<Rightarrow> bytes \<Rightarrow> bytes" where
  "temp_name rnd path =
     (case last_index (CHR ''/'') path of
        None \<Rightarrow> ''.'' @ path @ ''.'' @ rnd
      | Some n \<Rightarrow> take (Suc n) path @ ''.'' @ drop (Suc n) path @ ''.'' @ rnd)"

lemma temp_name_differs: "temp_name rnd path \<noteq> path"
proof -
  have "length (temp_name rnd path) = length path + 2 + length rnd"
    using last_index_less by (auto simp: temp_name_def split: option.split)
  then show ?thesis by auto
qed

definition file_save :: "bytes \<Rightarrow> bytes \<Rightarrow> bytes \<Rightarrow> nat \<Rightarrow> bytes \<Rightarrow> bytes \<Rightarrow> disk \<Rightarrow> disk" where
  "file_save rnd kept part n path t d = last (Save (temp_name rnd path) n t kept part path d)"

interpretation file_store: token_store Store_Load "file_save rnd kept part" 5
proof
  fix n path t and d :: disk
  show "Store_Load (file_save rnd kept part n path t d) path = Store_Load d path \<or>
      Store_Load (file_save rnd kept part n path t d) path = Some (strings_TrimSpace t)"
    and "5 \<le> n \<Longrightarrow> Store_Load (file_save rnd kept part n path t d) path = Some (strings_TrimSpace t)"
    using Save_path [OF temp_name_differs, of path rnd n t kept part d] by (auto simp: file_save_def Store_Load_def)
qed

text \<open>
  C21. A refresh token is never lost half-way: over any sequence of resolves, whichever operation of which
  \<open>Save\<close> fails, the user's token file holds a token; and at every point inside a \<open>Save\<close>, so after a crash
  there too, the file is whole, with the token that was there or the rotated one.
\<close>

theorem rotated_token_survives:
  assumes "d (expandPath tpl tenant user server) = Some (old, old)"
  shows "(\<exists>t. Store_Load (refresh_turns Store_Load (file_save rnd kept part) c tpl tenant user server turns d)
        (expandPath tpl tenant user server) = Some t) \<and>
    list_all (\<lambda>d'. d' (expandPath tpl tenant user server) \<in> {Some (old, old), Some (rotated, rotated)})
      (Save (temp_name rnd (expandPath tpl tenant user server)) n rotated kept part (expandPath tpl tenant user server) d)"
proof -
  let ?path = "expandPath tpl tenant user server"
  have "Store_Load d ?path \<noteq> None" using assms by (simp add: Store_Load_def)
  from file_store.token_stays [OF this]
  have "Store_Load (refresh_turns Store_Load (file_save rnd kept part) c tpl tenant user server turns d) ?path \<noteq> None" .
  moreover have "d' ?path \<in> {Some (old, old), Some (rotated, rotated)}"
    if "d' \<in> set (Save (temp_name rnd ?path) n rotated kept part ?path d)" for d'
    using Save_path [OF temp_name_differs, of ?path rnd n rotated kept part d] that assms by auto
  ultimately show ?thesis by (auto simp: list_all_iff)
qed

section \<open>How long a token lives\<close>

lemma times_second_wraps: "times_second n = (n * 1000000000 + 2 ^ 63) mod 2 ^ 64 - 2 ^ 63"
proof -
  have w: "word_of_int n * 1000000000 = (word_of_int (n * 1000000000) :: 64 word)" by simp
  have "sint (word_of_int x :: 64 word) = signed_take_bit 63 x" for x
    by (simp add: signed_of_int)
  with w show ?thesis unfolding times_second_def by (simp only: signed_take_bit_eq_take_bit_shift take_bit_eq_mod) simp
qed

text \<open>
  The lifetime of a token is what the endpoint said, five minutes when it said nothing, and wrong above 292
  years: from 9223372037 seconds on the product of 64-bit integers is negative, and a token that was just
  issued comes out as expired already.
\<close>

theorem token_lifetime:
  shows "(t_ExpiresIn t \<le> 0 \<longrightarrow> ExpiresAt (token_credentials now t) = Some (now + 300000000000)) \<and>
    (0 < t_ExpiresIn t \<and> t_ExpiresIn t \<le> 9223372036 \<longrightarrow>
      ExpiresAt (token_credentials now t) = Some (now + t_ExpiresIn t * 1000000000)) \<and>
    (9223372037 \<le> t_ExpiresIn t \<and> t_ExpiresIn t \<le> 18446744073 \<longrightarrow>
      (\<exists>e. ExpiresAt (token_credentials now t) = Some e \<and> e < now))"
proof -
  have small: "times_second n = n * 1000000000" if "0 < n" "n \<le> 9223372036" for n
    unfolding times_second_wraps using that by (subst mod_pos_pos_trivial) simp_all
  have large: "times_second n < 0" if n: "9223372037 \<le> n" "n \<le> 18446744073" for n
  proof -
    have "(n * 1000000000 + 2 ^ 63) mod 2 ^ 64 = (n * 1000000000 + 2 ^ 63 - 2 ^ 64) mod (2 ^ 64 :: int)"
      by (rule minus_mod_self2 [symmetric])
    also have "\<dots> = n * 1000000000 + 2 ^ 63 - 2 ^ 64"
      using n by (intro mod_pos_pos_trivial) simp_all
    finally have "(n * 1000000000 + 2 ^ 63) mod 2 ^ 64 = n * 1000000000 + 2 ^ 63 - (2 ^ 64 :: int)" .
    then show ?thesis using n unfolding times_second_wraps by simp
  qed
  show ?thesis using small [of "t_ExpiresIn t"] large [of "t_ExpiresIn t"] by (simp add: token_credentials_def Let_def)
qed


lemma token_lifetime_witness:
  "ExpiresAt (token_credentials 0 \<lparr>t_AccessToken = ''a'', t_TokenType = [], t_ExpiresIn = 3600, t_RefreshToken = []\<rparr>) = Some 3600000000000"
  using token_lifetime [of "\<lparr>t_AccessToken = ''a'', t_TokenType = [], t_ExpiresIn = 3600, t_RefreshToken = []\<rparr>" 0] by simp

definition ex_client :: OAuthClientCredentials where
  "ex_client = \<lparr>cl_TokenURL = ''https://idp/token'', cl_ClientID = ''gw'', cl_ClientSecret = [], cl_Scope = [], cl_Audience = []\<rparr>"

definition ex_endpoint :: endpoint where
  "ex_endpoint p = Some (200, Some (json_text ''{~access_token~:~at~,~refresh_token~:~new~}''))"

lemma ex_token:
  "unmarshal_token (json_text ''{~access_token~:~at~,~refresh_token~:~new~}'') =
    Inr \<lparr>t_AccessToken = ''at'', t_TokenType = [], t_ExpiresIn = 0, t_RefreshToken = ''new''\<rparr>"
  by code_simp

lemma ex_token_length: "length (json_text ''{~access_token~:~at~,~refresh_token~:~new~}'') = 43"
  by (simp add: json_text_def)

definition ex_disk :: disk where
  "ex_disk = [''/run/t'' \<mapsto> (''old'', ''old'')]"

lemma rotated_token_survives_witness:
  "\<exists>t. Store_Load (refresh_turns Store_Load (file_save ''1'' [] []) ex_client ''/run/t'' ''acme'' ''bob'' ''fs''
     [(ex_endpoint, 0, 2), (ex_endpoint, 0, 5)] ex_disk) ''/run/t'' = Some t"
proof -
  have path: "expandPath ''/run/t'' ''acme'' ''bob'' ''fs'' = ''/run/t''" by code_simp
  have "ex_disk (expandPath ''/run/t'' ''acme'' ''bob'' ''fs'') = Some (''old'', ''old'')" by (simp add: path ex_disk_def)
  from rotated_token_survives [of ex_disk "''/run/t''" "''acme''" "''bob''" "''fs''" "''old''" "''1''" "[]" "[]" ex_client
      "[(ex_endpoint, 0, 2), (ex_endpoint, 0, 5)]", OF this] show ?thesis
    unfolding path by blast
qed

text \<open>The rotation itself, on an endpoint that rotates.\<close>

lemma ex_rotation:
  "snd (Refresh_Resolve ex_endpoint (Store_Load ex_disk) 0 ex_client ''/run/t'' ''acme'' ''bob'' ''fs'') = Some ''new''"
proof -
  have path: "expandPath ''/run/t'' ''acme'' ''bob'' ''fs'' = ''/run/t''" by code_simp
  have trim: "strings_TrimSpace ''old'' = ''old''" using TrimSpace_visible [of "''old''"] by simp
  have "take (2 ^ 20) (json_text ''{~access_token~:~at~,~refresh_token~:~new~}'') = json_text ''{~access_token~:~at~,~refresh_token~:~new~}''"
    by (rule take_all) (simp only: ex_token_length, simp)
  then have "tokenRequestFull ex_endpoint 0 ex_client f =
      Inr (token_credentials 0 \<lparr>t_AccessToken = ''at'', t_TokenType = [], t_ExpiresIn = 0, t_RefreshToken = ''new''\<rparr>, ''new'')" for f
    by (simp add: tokenRequestFull_def ex_endpoint_def ex_token)
  then show ?thesis by (simp add: Refresh_Resolve_def Store_Load_def path trim ex_disk_def)
qed

end
