(* ===== verification/GatewayCreds.thy ===== *)
theory GatewayCreds
  imports Boot CredGrants Proxy Reconcile
begin

text \<open>
  Credentials inside the gateway command (\<open>cmd/gateway.go\<close>): the resolver a configuration gives a server,
  the registry that keeps one resolver for each server across requests and reloads, and the backend that
  the pool's factory builds from a definition and resolved credentials.
\<close>

section \<open>Resolvers\<close>

datatype resolver_spec =
    RExec Exec
  | RFile bytes int
  | RClientCredentials OAuthClientCredentials
  | RTokenExchange OAuthClientCredentials bytes bytes
  | RRefresh OAuthClientCredentials bytes
  | RNATS bytes
  | RUnknownMode bytes

definition oauth_client :: "Auth \<Rightarrow> OAuthClientCredentials" where
  "oauth_client a = \<lparr>cl_TokenURL = a_TokenURL a, cl_ClientID = a_ClientID a, cl_ClientSecret = a_ClientSecret a,
     cl_Scope = a_Scope a, cl_Audience = a_Audience a\<rparr>"

definition buildResolver :: "golib \<Rightarrow> bytes \<Rightarrow> Auth \<Rightarrow> resolver_spec" where
  "buildResolver lib pfx a =
     (if a_Mode a = AuthExec then
        RExec \<lparr>x_Command = a_Command a, x_Args = a_Args a, x_Env = a_Env a, x_Timeout = 0, x_WaitDelay = duration_of lib (a_WaitDelay a)\<rparr>
      else if a_Mode a = AuthFile then RFile (a_Path a) (duration_of lib (a_TTL a))
      else if a_Mode a = AuthOAuthClientCredentials then RClientCredentials (oauth_client a)
      else if a_Mode a = AuthOAuthTokenExchange then RTokenExchange (oauth_client a) (a_SubjectTokenFile a) (a_SubjectTokenType a)
      else if a_Mode a = AuthOAuthRefresh then RRefresh ((oauth_client a)\<lparr>cl_Audience := []\<rparr>) (a_RefreshTokenFile a)
      else if a_Mode a = AuthNATS then
        RNATS (if a_Subject a = [] then (if pfx = [] then DefaultPrefix else pfx) @ ''.cred'' else a_Subject a)
      else RUnknownMode (a_Mode a))"

section \<open>The registry\<close>

text \<open>
  A configuration refers to its \<open>Auth\<close> by a pointer, and no \<open>Auth\<close> is changed once it is made: \<open>heap\<close> gives
  the one at a pointer, and a nil pointer is \<open>None\<close>.  A resolver is numbered; \<open>re_auth\<close> is what it was built
  from.
\<close>

type_synonym auth_heap = "nat \<Rightarrow> Auth"

type_synonym servers = "bytes \<rightharpoonup> nat option"

record credRegEntry =
  re_ptr :: nat
  re_json :: bytes
  re_resolver :: nat
  re_auth :: Auth
  re_perUser :: bool

record credRegistry =
  rg_entries :: "bytes \<rightharpoonup> credRegEntry"
  rg_made :: nat

definition auth_json :: "Auth \<Rightarrow> bytes" where
  "auth_json a = render (js_auth a)"

definition auth_of_ptr :: "auth_heap \<Rightarrow> nat option \<Rightarrow> Auth option" where
  "auth_of_ptr heap p = map_option heap p"

definition registry_prune :: "servers \<Rightarrow> credRegistry \<Rightarrow> credRegistry" where
  "registry_prune servers r = r\<lparr>rg_entries := (\<lambda>name. if servers name = None then None else rg_entries r name)\<rparr>"

definition registry_insert :: "auth_heap \<Rightarrow> bytes \<Rightarrow> nat \<Rightarrow> credRegistry \<Rightarrow> (nat \<times> bool) option \<times> credRegistry" where
  "registry_insert heap name q r =
     (let a = heap q;
          e = \<lparr>re_ptr = q, re_json = auth_json a, re_resolver = rg_made r, re_auth = a, re_perUser = PerUser (Some a)\<rparr>
      in (Some (re_resolver e, re_perUser e), r\<lparr>rg_entries := (rg_entries r)(name \<mapsto> e), rg_made := rg_made r + 1\<rparr>))"

text \<open>The insertion consults the live definition, which may be gone or static.\<close>

definition registry_build :: "auth_heap \<Rightarrow> servers \<Rightarrow> bytes \<Rightarrow> credRegistry \<Rightarrow> (nat \<times> bool) option \<times> credRegistry" where
  "registry_build heap live name r =
     (case live name of
        None \<Rightarrow> (None, r)
      | Some lp \<Rightarrow>
          (case lp of
             None \<Rightarrow> (None, r)
           | Some q \<Rightarrow> if \<not> Dynamic (Some (heap q)) then (None, r) else registry_insert heap name q r))"

definition registry_lookup ::
  "auth_heap \<Rightarrow> servers \<Rightarrow> bytes \<Rightarrow> nat option \<Rightarrow> credRegistry \<Rightarrow> (nat \<times> bool) option \<times> credRegistry" where
  "registry_lookup heap live name p r =
     (case p of
        None \<Rightarrow> (None, r)
      | Some q \<Rightarrow>
          if \<not> Dynamic (Some (heap q)) then (None, r)
          else
            (case rg_entries r name of
               None \<Rightarrow> registry_build heap live name r
             | Some e \<Rightarrow>
                 if re_ptr e = q then (Some (re_resolver e, re_perUser e), r)
                 else if re_json e = auth_json (heap q) then
                   (Some (re_resolver e, re_perUser e), r\<lparr>rg_entries := (rg_entries r)(name \<mapsto> e\<lparr>re_ptr := q\<rparr>)\<rparr>)
                 else registry_build heap live name r))"

section \<open>Applying revisions while requests look up\<close>

text \<open>
  What one apply does as requests see it (\<open>transition\<close> of reconcile.go under \<open>applyRevision\<close>).  A revision
  that differs and is not a repeat is published first; then the wire accepts it, or refuses it and the
  revision before is live again.  One that does not differ, or a repeat the wire now accepts, is
  adopted without a window; a repeat the wire refuses is published nowhere.  Only after an accepted
  revision is the registry pruned.  Requests look up at any moment, holding any revision that ever was
  live.  \<open>gc_refused\<close> records the revisions that were published and refused since the last pruning; no step
  depends on it.
\<close>

datatype apply_phase = Idle | Trying servers | Pruning

record gateway_creds =
  gc_live :: servers
  gc_past :: "servers list"
  gc_phase :: apply_phase
  gc_refused :: "servers list"
  gc_registry :: credRegistry

datatype creds_event = Publish servers | Accepted | RolledBack | Adopt servers | Refused | Prune | Lookup nat bytes

definition creds_step :: "auth_heap \<Rightarrow> creds_event \<Rightarrow> gateway_creds \<Rightarrow> gateway_creds option" where
  "creds_step heap ev s =
     (case ev of
        Publish servers \<Rightarrow>
          if gc_phase s = Idle then
            Some (s\<lparr>gc_live := servers, gc_past := gc_past s @ [servers], gc_phase := Trying (gc_live s)\<rparr>)
          else None
      | Accepted \<Rightarrow> (case gc_phase s of Trying prev \<Rightarrow> Some (s\<lparr>gc_phase := Pruning\<rparr>) | _ \<Rightarrow> None)
      | RolledBack \<Rightarrow>
          (case gc_phase s of
             Trying prev \<Rightarrow> Some (s\<lparr>gc_live := prev, gc_phase := Idle, gc_refused := gc_live s # gc_refused s\<rparr>)
           | _ \<Rightarrow> None)
      | Adopt servers \<Rightarrow>
          if gc_phase s = Idle then Some (s\<lparr>gc_live := servers, gc_past := gc_past s @ [servers], gc_phase := Pruning\<rparr>) else None
      | Refused \<Rightarrow> if gc_phase s = Idle then Some s else None
      | Prune \<Rightarrow>
          if gc_phase s = Pruning then
            Some (s\<lparr>gc_phase := Idle, gc_refused := [], gc_registry := registry_prune (gc_live s) (gc_registry s)\<rparr>)
          else None
      | Lookup k name \<Rightarrow>
          if k < length (gc_past s) then
            (case (gc_past s ! k) name of
               None \<Rightarrow> None
             | Some p \<Rightarrow> Some (s\<lparr>gc_registry := snd (registry_lookup heap (gc_live s) name p (gc_registry s))\<rparr>))
          else None)"

definition no_creds :: gateway_creds where
  "no_creds = \<lparr>gc_live = Map.empty, gc_past = [], gc_phase = Idle, gc_refused = [],
     gc_registry = \<lparr>rg_entries = Map.empty, rg_made = 0\<rparr>\<rparr>"

text \<open>
  The events of one apply, in terms of what \<open>transition\<close> (theory Reconcile) did; \<open>rv\<close> is the server set of the
  revision.  The live set follows the configuration that the reconciler holds.
\<close>

definition apply_events :: "transition_result \<Rightarrow> servers \<Rightarrow> creds_event list" where
  "apply_events tr rv =
     (if tr_window tr then [Publish rv, if tr_error tr = None then Accepted else RolledBack]
      else if tr_error tr = None then [Adopt rv] else [Refused])"

definition stands_for :: "auth_heap \<Rightarrow> servers \<Rightarrow> Config option \<Rightarrow> bool" where
  "stands_for heap m c \<longleftrightarrow> (\<forall>n. map_option (map_option heap) (m n) = map_option s_Auth (lookup_server c n))"

lemma apply_is_these_events:
  assumes "transition add stop now nxt r ws = (tr, r', ws')" "stands_for heap (gc_live s) (rc_cur r)"
    and "stands_for heap rv (Some (case nxt of None \<Rightarrow> empty_config | Some c \<Rightarrow> c))" "gc_phase s = Idle"
  shows "\<exists>s'. run_steps (creds_step heap) (apply_events tr rv) s = Some s' \<and> stands_for heap (gc_live s') (rc_cur r') \<and>
    gc_phase s' = (if tr_error tr = None then Pruning else Idle)"
proof -
  let ?rev = "case nxt of None \<Rightarrow> empty_config | Some c \<Rightarrow> c"
  have ad: "rc_cur (snd (adopt c nxt r)) = Some c" for c
    by (simp add: adopt_def warnNATSDrift_def split: option.split)
  consider "tr_error tr = None" "rc_cur r' = Some ?rev" | e where "tr_error tr = Some e" "rc_cur r' = rc_cur r"
    using assms(1) ad by (auto simp: transition_def Let_def split: if_splits prod.splits sum.splits)
  then show ?thesis
    using assms(2-4) by cases (auto simp: apply_events_def creds_step_def)
qed

text \<open>The warning about servers that resolve per caller, given what was warned about last.\<close>

definition warnPerUserGrain :: "Config option \<Rightarrow> bytes \<Rightarrow> bytes option \<times> bytes" where
  "warnPerUserGrain cfg warned =
     (case cfg of
        None \<Rightarrow> (None, warned)
      | Some c \<Rightarrow>
          (let names = filter (\<lambda>n. case map_of (c_Servers c) n of Some s \<Rightarrow> PerUser (s_Auth s) | None \<Rightarrow> False) (ServerNames c);
               cur = strings_Join names '',''
           in (if cur = [] \<or> cur = warned then None else Some cur, cur)))"

section \<open>What credentials may put into an environment\<close>

definition credEnvBlockedPrefixes :: "bytes list" where
  "credEnvBlockedPrefixes = [''LD_'', ''DYLD_'', ''BASH_FUNC_'', ''NPM_CONFIG_'']"

definition credEnvBlocked :: "bytes list" where
  "credEnvBlocked =
     [''PATH'', ''HOME'', ''GCONV_PATH'', ''LOCPATH'', ''NLSPATH'', ''GLIBC_TUNABLES'',
      ''NODE_OPTIONS'', ''NODE_PATH'', ''NODE_REPL_EXTERNAL_MODULE'', ''NODE_EXTRA_CA_CERTS'',
      ''PYTHONPATH'', ''PYTHONHOME'', ''PYTHONSTARTUP'', ''PYTHONEXECUTABLE'', ''PYTHONBREAKPOINT'',
      ''BASH_ENV'', ''ENV'', ''SHELLOPTS'', ''PERL5OPT'', ''PERL5LIB'', ''PERLLIB'', ''PERL5DB'', ''RUBYOPT'', ''RUBYLIB'',
      ''JAVA_TOOL_OPTIONS'', ''_JAVA_OPTIONS'', ''JDK_JAVA_OPTIONS'', ''CLASSPATH'', ''DOTNET_STARTUP_HOOKS'',
      ''CORECLR_ENABLE_PROFILING'', ''CORECLR_PROFILER'', ''CORECLR_PROFILER_PATH'']"

text \<open>
  \<open>strings.ToUpper\<close> as far as its result is ASCII: two letters outside ASCII have an ASCII one as their
  upper case; the others stay outside and match no entry of the tables.
\<close>

definition upper_rune :: "rune \<Rightarrow> rune" where
  "upper_rune r = (if 97 \<le> r \<and> r \<le> 122 then r - 32 else if r = 0x131 then 0x49 else if r = 0x17F then 0x53 else r)"

definition upper_runes :: "bytes \<Rightarrow> rune list" where
  "upper_runes s = map upper_rune (runes s)"

definition credEnvRefused :: "bytes \<Rightarrow> bool" where
  "credEnvRefused k \<longleftrightarrow>
     (if k = [] \<or> strings_ContainsAny k [CHR ''='', CHR 0x00] then True
      else upper_runes k \<in> set (map (map byte) credEnvBlocked) \<or>
        list_ex (\<lambda>p. take (length p) (upper_runes k) = map byte p) credEnvBlockedPrefixes)"

definition safeCredEnv :: "(bytes \<rightharpoonup> bytes) \<Rightarrow> (bytes \<rightharpoonup> bytes)" where
  "safeCredEnv env = (\<lambda>k. if credEnvRefused k then None else env k)"

section \<open>Building a backend\<close>

datatype backend_inner =
    HTTPInner bytes "(bytes \<times> bytes) list option" bool "(bytes \<times> bytes \<times> bytes) option"
  | StdioInner bytes "bytes list option" "bytes \<rightharpoonup> bytes"

text \<open>\<open>bs_bridge\<close> is the time to live and the scope of the legacy bridge around it, if there is one.\<close>

record backend_spec =
  bs_inner :: backend_inner
  bs_bridge :: "(int \<times> bytes) option"
  bs_expires :: "int option"

definition identity_error :: "bytes \<Rightarrow> bytes" where
  "identity_error server =
     ''server '' @ [CHR 0x22] @ server @ [CHR 0x22] @ '' resolves credentials per user and this backend was keyed without one; '' @
     ''the request predates a reload that made it per-user, and re-issuing will use the new mode: '' @
     ''per-user credentials require a caller identity''"

text \<open>\<open>resolver tenant user server\<close> is \<open>ResolveGen\<close> of the server's resolver, which a static server lacks.\<close>

type_synonym gen_resolver = "bytes \<Rightarrow> bytes \<Rightarrow> bytes \<Rightarrow> cred_error + Credentials \<times> int"

definition cred_user :: "Key \<Rightarrow> bytes" where
  "cred_user k = (if k_CredSet k = [] \<or> k_CredSet k = UserUnattributed then UserUnattributed else k_CredSet k)"

definition spawn_credentials :: "Key \<Rightarrow> gen_resolver option \<Rightarrow> bytes \<Rightarrow> pool_failure + Credentials option" where
  "spawn_credentials k resolver ref =
     (case resolver of
        None \<Rightarrow> Inr None
      | Some r \<Rightarrow>
          (case r (k_Tenant k) (cred_user k) (k_Server k) of
             Inl e \<Rightarrow> Inl (CredUnavailable (k_Tenant k @ ''/'' @ k_Server k @ '': '' @ CallerMessage e ref))
           | Inr (c, gen) \<Rightarrow>
               if gen \<noteq> k_CredVersion k then
                 Inl (OtherFailure (''credentials for '' @ k_Tenant k @ ''/'' @ k_Server k @ '' rotated during spawn (generation '' @
                   itoa gen @ '' != '' @ itoa (k_CredVersion k) @ ''), re-issue''))
               else Inr (Some c)))"

definition inner_backend :: "Key \<Rightarrow> Server \<Rightarrow> bool \<Rightarrow> Credentials option \<Rightarrow> backend_inner" where
  "inner_backend k s dynamic creds =
     (if s_Transport s = ''http'' then
        HTTPInner (s_URL s) (s_Headers s) (s_Protocol s \<noteq> ProtocolVersion)
          (if dynamic then Some (k_Tenant k, cred_user k, k_Server k) else None)
      else
        StdioInner (s_Command s) (s_Args s)
          (let env = map_of (list_or_nil (s_Env s)) in
           case creds of
             None \<Rightarrow> env
           | Some c \<Rightarrow> if Env c = Map.empty then env else env ++ safeCredEnv (Env c)))"

definition buildBackend :: "Key \<Rightarrow> Server \<Rightarrow> gen_resolver option \<Rightarrow> bytes \<Rightarrow> pool_failure + backend_spec" where
  "buildBackend k s resolver ref =
     (if (k_CredSet k = [] \<or> k_CredSet k = UserUnattributed) \<and> PerUser (s_Auth s) then
        Inl (IdentityRequired (identity_error (k_Server k)))
      else
        bind_err (spawn_credentials k resolver ref)
          (\<lambda>creds. Inr
             \<lparr>bs_inner = inner_backend k s (resolver \<noteq> None) creds,
              bs_bridge = (if s_Protocol s \<noteq> ProtocolVersion then Some (s_DiscoverTTLMs s, s_CacheScope s) else None),
              bs_expires =
                (case creds of
                   None \<Rightarrow> None
                 | Some c \<Rightarrow> if Env c \<noteq> Map.empty \<or> Headers c \<noteq> Map.empty then ExpiresAt c else None)\<rparr>))"

text \<open>\<open>credTokenSource\<close>: the headers of one request of an HTTP backend.\<close>

definition token_headers :: "gen_resolver \<Rightarrow> bytes \<Rightarrow> bytes \<times> bytes \<times> bytes \<Rightarrow> bytes + (bytes \<rightharpoonup> bytes)" where
  "token_headers resolver ref identity =
     (case identity of (tenant, user, server) \<Rightarrow>
        (case resolver tenant user server of
           Inl e \<Rightarrow> Inl (CallerMessage e ref)
         | Inr (c, _) \<Rightarrow> Inr (Headers c)))"

section \<open>A resolver supplies credentials, not code\<close>

definition ascii_ToUpper :: "bytes \<Rightarrow> bytes" where
  "ascii_ToUpper s = map (\<lambda>c. if 97 \<le> byte c \<and> byte c \<le> 122 then char_of (byte c - 32) else c) s"

text \<open>
  What the loaders and runtimes that a backend is built on read before the program runs, as their own
  documentation names it: stated for each of them here, and not in terms of the tables above.
\<close>

datatype start_reader =
    ProgramLookup | ElfLoader | MacLoader | Glibc | NodeJs | Npm | Python | PosixShell | Perl | Ruby | Jvm | DotNet

fun startup_hook :: "start_reader \<Rightarrow> bytes \<Rightarrow> bool" where
  "startup_hook ProgramLookup n \<longleftrightarrow> n = ''PATH'' \<or> n = ''HOME''"
| "startup_hook ElfLoader n \<longleftrightarrow> strings_HasPrefix n ''LD_''"
| "startup_hook MacLoader n \<longleftrightarrow> strings_HasPrefix n ''DYLD_''"
| "startup_hook Glibc n \<longleftrightarrow> n = ''GCONV_PATH'' \<or> n = ''LOCPATH'' \<or> n = ''NLSPATH'' \<or> n = ''GLIBC_TUNABLES''"
| "startup_hook NodeJs n \<longleftrightarrow>
     n = ''NODE_OPTIONS'' \<or> n = ''NODE_PATH'' \<or> n = ''NODE_REPL_EXTERNAL_MODULE'' \<or> n = ''NODE_EXTRA_CA_CERTS''"
| "startup_hook Npm n \<longleftrightarrow> strings_HasPrefix n ''NPM_CONFIG_''"
| "startup_hook Python n \<longleftrightarrow>
     n = ''PYTHONPATH'' \<or> n = ''PYTHONHOME'' \<or> n = ''PYTHONSTARTUP'' \<or> n = ''PYTHONEXECUTABLE'' \<or> n = ''PYTHONBREAKPOINT''"
| "startup_hook PosixShell n \<longleftrightarrow> n = ''BASH_ENV'' \<or> n = ''ENV'' \<or> n = ''SHELLOPTS'' \<or> strings_HasPrefix n ''BASH_FUNC_''"
| "startup_hook Perl n \<longleftrightarrow> n = ''PERL5OPT'' \<or> n = ''PERL5LIB'' \<or> n = ''PERLLIB'' \<or> n = ''PERL5DB''"
| "startup_hook Ruby n \<longleftrightarrow> n = ''RUBYOPT'' \<or> n = ''RUBYLIB''"
| "startup_hook Jvm n \<longleftrightarrow> n = ''JAVA_TOOL_OPTIONS'' \<or> n = ''_JAVA_OPTIONS'' \<or> n = ''JDK_JAVA_OPTIONS'' \<or> n = ''CLASSPATH''"
| "startup_hook DotNet n \<longleftrightarrow>
     n = ''DOTNET_STARTUP_HOOKS'' \<or> n = ''CORECLR_ENABLE_PROFILING'' \<or> n = ''CORECLR_PROFILER'' \<or> n = ''CORECLR_PROFILER_PATH''"

definition start_readers :: "start_reader list" where
  "start_readers = [ProgramLookup, ElfLoader, MacLoader, Glibc, NodeJs, Npm, Python, PosixShell, Perl, Ruby, Jvm, DotNet]"

text \<open>A name is taken in any spelling: npm folds case, and so does Windows for every variable.\<close>

definition execution_control :: "bytes \<Rightarrow> bool" where
  "execution_control name \<longleftrightarrow> list_ex (\<lambda>w. startup_hook w (ascii_ToUpper name)) start_readers"

text \<open>A name that can be set at all, in ASCII.\<close>

definition plain_name :: "bytes \<Rightarrow> bool" where
  "plain_name name \<longleftrightarrow> list_all (\<lambda>c. byte c < 128) name \<and> name \<noteq> [] \<and> \<not> strings_ContainsAny name [CHR ''='', CHR 0x00]"

lemma upper_runes_ascii: "list_all (\<lambda>c. byte c < 128) s \<Longrightarrow> upper_runes s = map byte (ascii_ToUpper s)"
proof (induction s)
  case (Cons c s)
  have "upper_rune (byte c) = byte (if 97 \<le> byte c \<and> byte c \<le> 122 then char_of (byte c - 32) else c)"
    using Cons.prems by (auto simp: upper_rune_def)
  with Cons show ?case by (simp add: upper_runes_def ascii_ToUpper_def runes_ascii_Cons)
qed (simp add: upper_runes_def ascii_ToUpper_def)

lemma execution_control_tables:
  "execution_control name \<longleftrightarrow>
     ascii_ToUpper name \<in> set credEnvBlocked \<or> list_ex (strings_HasPrefix (ascii_ToUpper name)) credEnvBlockedPrefixes"
  by (simp add: execution_control_def start_readers_def credEnvBlocked_def credEnvBlockedPrefixes_def) blast

lemma credEnvRefused_plain: "plain_name name \<Longrightarrow> credEnvRefused name \<longleftrightarrow> execution_control name"
proof -
  assume p: "plain_name name"
  then have u: "upper_runes name = map byte (ascii_ToUpper name)" by (simp add: plain_name_def upper_runes_ascii)
  have inj: "map byte x = map byte y \<longleftrightarrow> x = y" for x y :: bytes
    by (rule inj_map_eq_map) (auto intro: injI)
  have pre: "take (length p) (map byte (ascii_ToUpper name)) = map byte p \<longleftrightarrow> strings_HasPrefix (ascii_ToUpper name) p" for p
    by (auto simp: strings_HasPrefix_iff take_map inj) (metis append_take_drop_id)
  have tab: "map byte (ascii_ToUpper name) \<in> set (map (map byte) credEnvBlocked) \<longleftrightarrow> ascii_ToUpper name \<in> set credEnvBlocked"
    using inj by (auto simp del: map_eq_conv)
  from p show ?thesis
    unfolding credEnvRefused_def u tab pre execution_control_tables by (simp add: plain_name_def)
qed

lemma credEnvRefused_unsettable: "name = [] \<or> strings_ContainsAny name [CHR ''='', CHR 0x00] \<Longrightarrow> credEnvRefused name"
  by (auto simp: credEnvRefused_def)

lemma buildBackend_Inr:
  assumes "buildBackend k s resolver ref = Inr b"
  obtains creds where "spawn_credentials k resolver ref = Inr creds" "bs_inner b = inner_backend k s (resolver \<noteq> None) creds"
    "\<not> ((k_CredSet k = [] \<or> k_CredSet k = UserUnattributed) \<and> PerUser (s_Auth s))"
  using assms by (auto simp: buildBackend_def bind_err_Inr split: if_splits)

lemma spawn_credentials_Some:
  assumes "spawn_credentials k resolver ref = Inr (Some c)"
  shows "\<exists>r. resolver = Some r \<and> r (k_Tenant k) (cred_user k) (k_Server k) = Inr (c, k_CredVersion k)"
  using assms by (auto simp: spawn_credentials_def split: option.splits sum.splits if_splits)

text \<open>The environment of a process: the configuration's, and the credentials' for the names they may set.\<close>

definition spawn_env :: "Server \<Rightarrow> Credentials option \<Rightarrow> bytes \<Rightarrow> bytes option" where
  "spawn_env s creds v =
     (let cfg = map_of (list_or_nil (s_Env s)) v in
      case creds of
        None \<Rightarrow> cfg
      | Some c \<Rightarrow> if credEnvRefused v \<or> Env c v = None then cfg else Env c v)"

lemma stdio_backend:
  assumes "inner_backend k s dyn creds = StdioInner cmd args env"
  shows "cmd = s_Command s" "args = s_Args s" "env = spawn_env s creds"
proof -
  have "env = (case creds of None \<Rightarrow> map_of (list_or_nil (s_Env s))
      | Some c \<Rightarrow> if Env c = Map.empty then map_of (list_or_nil (s_Env s)) else map_of (list_or_nil (s_Env s)) ++ safeCredEnv (Env c))"
    using assms by (auto simp: inner_backend_def Let_def split: if_splits)
  then show "env = spawn_env s creds"
    by (intro ext) (simp add: spawn_env_def Let_def map_add_def safeCredEnv_def split: option.split)
  show "cmd = s_Command s" "args = s_Args s" using assms by (simp_all add: inner_backend_def split: if_splits)
qed

lemma execution_control_refused:
  "list_all (\<lambda>c. byte c < 128) name \<Longrightarrow> execution_control name \<Longrightarrow> credEnvRefused name"
  using credEnvRefused_plain [of name] credEnvRefused_unsettable [of name] by (auto simp: plain_name_def)

text \<open>
  C11. Whoever supplies credentials cannot choose what runs: the process of a stdio backend is the one the
  configuration names, with its arguments; a variable that program lookup, the loaders or the runtimes
  listed by \<open>start_reader\<close> read at start has, in any spelling, the value the configuration gave it, or none;
  every other variable that can be set and that the credentials give has their value, so the filter
  takes away nothing else; and any value in the environment comes from the configuration or from the
  credentials of the key's identity and generation.  What other programs read is not covered (see
  \<open>other_hooks_pass\<close>).
\<close>

theorem resolver_supplies_only_credentials:
  assumes "buildBackend k s resolver ref = Inr b" "bs_inner b = StdioInner cmd args env"
  shows "cmd = s_Command s \<and> args = s_Args s \<and>
    (list_all (\<lambda>c. byte c < 128) name \<longrightarrow> execution_control name \<longrightarrow> env name = map_of (list_or_nil (s_Env s)) name) \<and>
    (\<forall>r c gen. resolver = Some r \<longrightarrow> r (k_Tenant k) (cred_user k) (k_Server k) = Inr (c, gen) \<longrightarrow>
      plain_name name \<longrightarrow> \<not> execution_control name \<longrightarrow> Env c name \<noteq> None \<longrightarrow> env name = Env c name) \<and>
    (env name = map_of (list_or_nil (s_Env s)) name \<or>
      (\<exists>r c. resolver = Some r \<and> r (k_Tenant k) (cred_user k) (k_Server k) = Inr (c, k_CredVersion k) \<and> env name = Env c name))"
proof -
  obtain creds where c: "spawn_credentials k resolver ref = Inr creds" "bs_inner b = inner_backend k s (resolver \<noteq> None) creds"
    using assms(1) by (rule buildBackend_Inr)
  note f = stdio_backend [OF c(2) [symmetric, unfolded assms(2)]]
  have "env name = map_of (list_or_nil (s_Env s)) name" if "list_all (\<lambda>c. byte c < 128) name" "execution_control name"
    using execution_control_refused [OF that] by (simp add: f(3) spawn_env_def Let_def split: option.split)
  moreover have "env name = Env m name"
    if "resolver = Some r" "r (k_Tenant k) (cred_user k) (k_Server k) = Inr (m, gen)" "plain_name name" "\<not> execution_control name"
      "Env m name \<noteq> None" for r m gen
    using c(1) credEnvRefused_plain [OF that(3)] that
    by (auto simp: f(3) spawn_env_def spawn_credentials_def Let_def split: if_splits)
  moreover have "env name = map_of (list_or_nil (s_Env s)) name \<or>
      (\<exists>r c. resolver = Some r \<and> r (k_Tenant k) (cred_user k) (k_Server k) = Inr (c, k_CredVersion k) \<and> env name = Env c name)"
  proof (cases creds)
    case (Some m)
    from spawn_credentials_Some [OF c(1) [unfolded Some]] show ?thesis
      unfolding f(3) spawn_env_def Let_def Some by auto
  qed (simp add: f(3) spawn_env_def)
  ultimately show ?thesis using f(1,2) by blast
qed

text \<open>
  What passes: a hook of a program that a backend may run, which the code means to leave alone, and, against
  what its comment says of the runtimes it names, one that Python's own start-up reads: it runs what is
  installed below \<open>PYTHONUSERBASE\<close>.
\<close>

lemma other_hooks_pass: "\<not> credEnvRefused ''GIT_SSH_COMMAND''" "\<not> credEnvRefused ''PYTHONUSERBASE''"
  by (code_simp, code_simp)

section \<open>The backend a caller gets\<close>

text \<open>The identity a request's credentials are resolved for: its subject's, the user only where that counts.\<close>

definition caller_identity :: "cred_lookup \<Rightarrow> Inbound \<Rightarrow> bytes \<times> bytes \<times> bytes" where
  "caller_identity creds i =
     (Tenant (in_subject i),
      if creds (Server (in_subject i)) = Some True then User (in_subject i) else UserUnattributed,
      Server (in_subject i))"

text \<open>What a backend carries of credentials: a process its environment, an HTTP backend the identity it resolves for.\<close>

definition carries :: "Server \<Rightarrow> Credentials option \<Rightarrow> (bytes \<times> bytes \<times> bytes) option \<Rightarrow> backend_inner \<Rightarrow> bool" where
  "carries s creds idn b =
     (case b of
        StdioInner cmd args env \<Rightarrow> env = spawn_env s creds
      | HTTPInner url hs legacy idn' \<Rightarrow> idn' = idn)"

text \<open>
  C10. From the subject to the credentials in the process: when the server of a built backend has a
  resolver, it answered for the tenant and the server of the subject, and for the user of the subject if
  the server was per user for the request, with credentials \<open>c\<close> of the generation that was keyed; the
  environment of a stdio backend has exactly \<open>c\<close>'s value for each variable of \<open>c\<close> that may be set and the
  configuration's value for each other, and an HTTP backend resolves for exactly that identity.  Without
  a resolver no credentials enter.  A server that is per user when the backend is built gives the request
  one only if it was keyed with its user.
\<close>

theorem spawned_for_the_caller:
  assumes "Handler_pre say details creds gens ref i = AskPool k name" "buildBackend k s resolver ref' = Inr b"
    and "creds (Server (in_subject i)) \<noteq> Some True \<or> User (in_subject i) \<noteq> []"
  shows "(PerUser (s_Auth s) \<longrightarrow> creds (Server (in_subject i)) = Some True \<and> User (in_subject i) \<noteq> UserUnattributed) \<and>
    (case resolver of
       None \<Rightarrow> carries s None None (bs_inner b)
     | Some r \<Rightarrow>
         (case caller_identity creds i of (tenant, user, server) \<Rightarrow>
            \<exists>c. r tenant user server = Inr (c, k_CredVersion k) \<and> carries s (Some c) (Some (tenant, user, server)) (bs_inner b)))"
proof -
  note k = Handler_pre_AskPool [OF assms(1)]
  have cu: "caller_identity creds i = (k_Tenant k, cred_user k, k_Server k)"
    using k assms(3) by (auto simp: cred_user_def caller_identity_def)
  obtain c where c: "spawn_credentials k resolver ref' = Inr c" "bs_inner b = inner_backend k s (resolver \<noteq> None) c"
    "\<not> ((k_CredSet k = [] \<or> k_CredSet k = UserUnattributed) \<and> PerUser (s_Auth s))"
    using assms(2) by (rule buildBackend_Inr)
  have "carries s c (if resolver \<noteq> None then Some (k_Tenant k, cred_user k, k_Server k) else None) (bs_inner b)"
  proof (cases "bs_inner b")
    case (StdioInner cmd args env)
    with stdio_backend(3) [OF c(2) [symmetric, unfolded StdioInner]] show ?thesis by (simp add: carries_def)
  qed (use c(2) in \<open>auto simp: carries_def inner_backend_def split: if_splits\<close>)
  moreover have "PerUser (s_Auth s) \<longrightarrow> creds (Server (in_subject i)) = Some True \<and> User (in_subject i) \<noteq> UserUnattributed"
    using c(3) k by (auto split: if_splits)
  ultimately show ?thesis
    using c(1) by (auto simp: cu spawn_credentials_def split: option.splits sum.splits if_splits)
qed

section \<open>The registry keeps to the configuration\<close>

definition entry_ok :: "auth_heap \<Rightarrow> nat \<Rightarrow> credRegEntry \<Rightarrow> bool" where
  "entry_ok heap made e \<longleftrightarrow>
     re_json e = auth_json (heap (re_ptr e)) \<and> re_json e = auth_json (re_auth e) \<and> Dynamic (Some (re_auth e)) \<and>
     re_perUser e = PerUser (Some (re_auth e)) \<and> re_resolver e < made"

definition registry_ok :: "auth_heap \<Rightarrow> credRegistry \<Rightarrow> bool" where
  "registry_ok heap r \<longleftrightarrow> (\<forall>name e. rg_entries r name = Some e \<longrightarrow> entry_ok heap (rg_made r) e)"

text \<open>
  Where an entry for a server comes from: the server is configured (in the configuration that is live, or,
  while a revision is tried, in the one before it), or a revision that was refused, or is being tried,
  had it with the definition the resolver was built from.
\<close>

definition built_from :: "auth_heap \<Rightarrow> servers \<Rightarrow> bytes \<Rightarrow> credRegEntry \<Rightarrow> bool" where
  "built_from heap v name e \<longleftrightarrow> (\<exists>q. v name = Some (Some q) \<and> re_auth e = heap q)"

definition entry_home :: "auth_heap \<Rightarrow> servers \<Rightarrow> servers list \<Rightarrow> bytes \<Rightarrow> credRegEntry \<Rightarrow> bool" where
  "entry_home heap home tried name e \<longleftrightarrow> home name \<noteq> None \<or> (\<exists>v\<in>set tried. built_from heap v name e)"

definition entries_home :: "auth_heap \<Rightarrow> servers \<Rightarrow> servers list \<Rightarrow> credRegistry \<Rightarrow> bool" where
  "entries_home heap home tried r \<longleftrightarrow> (\<forall>name e. rg_entries r name = Some e \<longrightarrow> entry_home heap home tried name e)"

definition creds_inv :: "auth_heap \<Rightarrow> gateway_creds \<Rightarrow> bool" where
  "creds_inv heap s \<longleftrightarrow>
     registry_ok heap (gc_registry s) \<and>
     (case gc_phase s of
        Idle \<Rightarrow> entries_home heap (gc_live s) (gc_refused s) (gc_registry s)
      | Trying prev \<Rightarrow> entries_home heap prev (gc_live s # gc_refused s) (gc_registry s)
      | Pruning \<Rightarrow> True)"

lemma entry_ok_later: "entry_ok heap n e \<Longrightarrow> n \<le> m \<Longrightarrow> entry_ok heap m e"
  by (auto simp: entry_ok_def)

text \<open>What a lookup can do to the registry.\<close>

lemma registry_lookup_cases:
  assumes "registry_lookup heap live name p r = (res, r')"
  obtains (missing) "r' = r" "res = None"
  | (kept) q e where "p = Some q" "rg_entries r name = Some e" "re_ptr e = q" "r' = r" "res = Some (re_resolver e, re_perUser e)"
  | (anchored) q e where "p = Some q" "rg_entries r name = Some e" "re_json e = auth_json (heap q)"
      "r' = r\<lparr>rg_entries := (rg_entries r)(name \<mapsto> e\<lparr>re_ptr := q\<rparr>)\<rparr>" "res = Some (re_resolver e, re_perUser e)"
  | (built) q where "live name = Some (Some q)" "Dynamic (Some (heap q))" "(res, r') = registry_insert heap name q r"
proof (cases "registry_build heap live name r = (res, r')")
  case True
  then consider "r' = r" "res = None" | q where "live name = Some (Some q)" "Dynamic (Some (heap q))" "(res, r') = registry_insert heap name q r"
    by (auto simp: registry_build_def split: option.splits if_splits)
  then show ?thesis
  proof cases
    case 1
    then show ?thesis by (rule missing)
  next
    case 2
    then show ?thesis by (rule built)
  qed
next
  case False
  then have "r' = r \<and> res = None \<or>
      (\<exists>q e. p = Some q \<and> rg_entries r name = Some e \<and> re_ptr e = q \<and> r' = r \<and> res = Some (re_resolver e, re_perUser e)) \<or>
      (\<exists>q e. p = Some q \<and> rg_entries r name = Some e \<and> re_json e = auth_json (heap q) \<and>
        r' = r\<lparr>rg_entries := (rg_entries r)(name \<mapsto> e\<lparr>re_ptr := q\<rparr>)\<rparr> \<and> res = Some (re_resolver e, re_perUser e))"
    using assms by (auto simp: registry_lookup_def split: option.splits if_splits)
  then show ?thesis using missing kept anchored by blast
qed

lemma registry_lookup_ok:
  assumes "registry_ok heap r" "registry_lookup heap live name p r = (res, r')"
  shows "registry_ok heap r' \<and>
    (\<forall>nm e'. rg_entries r' nm = Some e' \<longrightarrow>
      (\<exists>e. rg_entries r nm = Some e \<and> re_auth e' = re_auth e) \<or> built_from heap live nm e')"
  using assms(2)
proof (cases rule: registry_lookup_cases)
  case (anchored q e)
  have "entry_ok heap (rg_made r) e" using assms(1) anchored(2) by (simp add: registry_ok_def)
  then have "auth_json (re_auth e) = auth_json (heap q)" "Dynamic (Some (re_auth e))" "re_perUser e = PerUser (Some (re_auth e))"
    "re_resolver e < rg_made r"
    using anchored(3) unfolding entry_ok_def by metis+
  with anchored(3) have "entry_ok heap (rg_made r) (e\<lparr>re_ptr := q\<rparr>)" by (simp add: entry_ok_def)
  with anchored assms(1) show ?thesis by (auto simp: registry_ok_def)
next
  case (built q)
  have old: "entry_ok heap (rg_made r + 1) e" if "rg_entries r nm = Some e" for nm e
    using assms(1) that entry_ok_later [of heap "rg_made r" e "rg_made r + 1"] by (simp add: registry_ok_def)
  let ?e = "\<lparr>re_ptr = q, re_json = auth_json (heap q), re_resolver = rg_made r, re_auth = heap q, re_perUser = PerUser (Some (heap q))\<rparr>"
  have new: "entry_ok heap (rg_made r + 1) ?e" using built(2) by (simp add: entry_ok_def)
  have r': "r' = r\<lparr>rg_entries := (rg_entries r)(name \<mapsto> ?e), rg_made := rg_made r + 1\<rparr>"
    using built(3) by (simp add: registry_insert_def Let_def)
  show ?thesis using old new built(1) unfolding registry_ok_def r' by (auto simp: built_from_def)
qed (use assms(1) in auto)

lemma registry_lookup_home:
  assumes "registry_ok heap r" "entries_home heap home tried r" "live = home \<or> live \<in> set tried"
  shows "registry_ok heap (snd (registry_lookup heap live name p r)) \<and>
    entries_home heap home tried (snd (registry_lookup heap live name p r))"
proof -
  obtain res r' where r: "registry_lookup heap live name p r = (res, r')" by fastforce
  note ok = registry_lookup_ok [OF assms(1) r]
  have "entry_home heap home tried nm e'" if e': "rg_entries r' nm = Some e'" for nm e'
    using ok e' assms(2,3) unfolding entries_home_def entry_home_def built_from_def by (metis option.distinct(1))
  with ok show ?thesis by (simp add: r entries_home_def)
qed

lemma creds_step_keeps:
  assumes "creds_inv heap s" "creds_step heap ev s = Some s'"
  shows "creds_inv heap s'"
proof (cases ev)
  case (Lookup k name)
  with assms(2) obtain p where s': "s' = s\<lparr>gc_registry := snd (registry_lookup heap (gc_live s) name p (gc_registry s))\<rparr>"
    by (auto simp: creds_step_def split: if_splits option.splits)
  have ok: "registry_ok heap (gc_registry s)" using assms(1) by (simp add: creds_inv_def)
  show ?thesis
  proof (cases "gc_phase s")
    case Idle
    with assms(1) registry_lookup_home [OF ok, of "gc_live s" "gc_refused s" "gc_live s" name p] show ?thesis
      by (simp add: creds_inv_def s')
  next
    case (Trying prev)
    with assms(1) registry_lookup_home [OF ok, of prev "gc_live s # gc_refused s" "gc_live s" name p] show ?thesis
      by (simp add: creds_inv_def s')
  next
    case Pruning
    with registry_lookup_ok [OF ok surjective_pairing] show ?thesis by (simp add: creds_inv_def s')
  qed
next
  case Prune
  with assms show ?thesis
    by (auto simp: creds_inv_def creds_step_def registry_prune_def registry_ok_def entries_home_def entry_home_def split: if_splits)
next
  case (Publish v)
  with assms have "gc_phase s = Idle" "s' = s\<lparr>gc_live := v, gc_past := gc_past s @ [v], gc_phase := Trying (gc_live s)\<rparr>"
    by (simp_all add: creds_step_def split: if_splits)
  with assms(1) show ?thesis by (fastforce simp: creds_inv_def entries_home_def entry_home_def)
next
  case RolledBack
  with assms show ?thesis by (auto simp: creds_inv_def creds_step_def split: apply_phase.splits)
qed (use assms in \<open>auto simp: creds_inv_def creds_step_def split: if_splits apply_phase.splits\<close>)

interpretation creds_machine: machine "creds_step heap" "creds_inv heap" no_creds
proof
  show "creds_inv heap s \<Longrightarrow> creds_step heap ev s = Some s' \<Longrightarrow> creds_inv heap s'" for ev s s'
    by (rule creds_step_keeps)
  show "creds_inv heap no_creds" by (simp add: creds_inv_def registry_ok_def no_creds_def entries_home_def)
qed

lemma lookup_result:
  assumes "registry_ok heap r" "registry_lookup heap live name (Some q) r = (Some (n, perUser), r')"
  shows "\<exists>e. rg_entries r' name = Some e \<and> re_resolver e = n \<and> perUser = PerUser (Some (re_auth e)) \<and> Dynamic (Some (re_auth e)) \<and>
    (auth_json (re_auth e) = auth_json (heap q) \<or> (\<exists>l. live name = Some (Some l) \<and> re_auth e = heap l))"
proof -
  have ok: "auth_json (re_auth e) = re_json e" "auth_json (heap (re_ptr e)) = re_json e" "Dynamic (Some (re_auth e))"
    "re_perUser e = PerUser (Some (re_auth e))" if "rg_entries r name = Some e" for e
    using assms(1) that unfolding registry_ok_def entry_ok_def by metis+
  show ?thesis
    using assms(2)
  proof (cases rule: registry_lookup_cases)
    case (kept q' e)
    with ok [OF kept(2)] show ?thesis by auto
  next
    case (anchored q' e)
    with ok [OF anchored(2)] show ?thesis by auto
  next
    case (built l)
    then show ?thesis by (auto simp: registry_insert_def Let_def)
  qed simp
qed


text \<open>
  The exception is real: a server that a revision adds is looked up before the wire refuses the revision.
  The revision before is live again and does not have the server, and the resolver stays; the backends
  of that window are evicted, the registry is pruned only after an accepted revision.
\<close>

lemma refused_server_keeps_resolver:
  assumes "Dynamic (Some (heap q))"
  shows "\<exists>s e. reaches (creds_step heap) no_creds s \<and> gc_phase s = Idle \<and> gc_live s name = None \<and>
    rg_entries (gc_registry s) name = Some e \<and> re_auth e = heap q"
proof -
  obtain s e where s: "run_steps (creds_step heap) [Publish [name \<mapsto> Some q], Lookup 0 name, RolledBack] no_creds = Some s"
    and f: "gc_phase s = Idle" "gc_live s name = None" "rg_entries (gc_registry s) name = Some e" "re_auth e = heap q"
    using assms by (simp add: creds_step_def no_creds_def registry_lookup_def registry_build_def registry_insert_def Let_def)
  have "reaches (creds_step heap) no_creds s" by (rule run_steps_reaches [OF reaches_init s])
  with f show ?thesis by blast
qed

text \<open>
  A request that still holds the revision before does more than it needs to: its lookup builds the live
  definition's resolver anew although the registry has it, and so drops the credentials it had cached.
\<close>

lemma straggler_replaces_resolver:
  assumes "registry_ok heap r" "rg_entries r name = Some e" "re_ptr e = l" "live name = Some (Some l)"
    and "Dynamic (Some (heap l))" "Dynamic (Some (heap q))" "auth_json (heap q) \<noteq> auth_json (heap l)"
  shows "fst (registry_lookup heap live name (Some q) r) = Some (rg_made r, PerUser (Some (heap l))) \<and> re_resolver e < rg_made r"
proof -
  have "entry_ok heap (rg_made r) e" using assms(1,2) by (simp add: registry_ok_def)
  then have "re_json e \<noteq> auth_json (heap q)" "re_ptr e \<noteq> q" "re_resolver e < rg_made r" using assms(3,7) by (auto simp: entry_ok_def)
  with assms show ?thesis by (simp add: registry_lookup_def registry_build_def registry_insert_def Let_def)
qed


definition ex_stdio :: Server where
  "ex_stdio = ex_cfg_server\<lparr>s_Transport := [], s_Command := ''srv'', s_URL := [], s_Env := Some [(''AWS_REGION'', ''eu'')], s_Auth := Some ex_auth\<rparr>"

definition ex_material :: Credentials where
  "ex_material = \<lparr>Headers = Map.empty, Env = [''LD_PRELOAD'' \<mapsto> ''/tmp/x.so'', ''TOKEN'' \<mapsto> ''t''], ExpiresAt = None\<rparr>"

definition ex_gen_resolver :: gen_resolver where
  "ex_gen_resolver t u s = (if t = ''acme'' \<and> u = ''_'' then Inr (ex_material, 7) else Inl (CredRead ''other''))"

definition ex_spawn_key :: Key where
  "ex_spawn_key = \<lparr>k_Server = ''gh'', k_Tenant = ''acme'', k_CredSet = [], k_CredVersion = 7\<rparr>"

lemma ex_not_per_user: "\<not> PerUser (s_Auth ex_stdio)"
  by (simp add: ex_stdio_def PerUser_def ex_auth_def mcp_defs strings_HasPrefix_def)

lemma ex_spawn:
  "\<exists>b env. buildBackend ex_spawn_key ex_stdio (Some ex_gen_resolver) [] = Inr b \<and> bs_inner b = StdioInner ''srv'' None env"
  using ex_not_per_user
  by (simp add: buildBackend_def spawn_credentials_def inner_backend_def ex_spawn_key_def ex_gen_resolver_def cred_user_def
      UserUnattributed_def) (simp add: ex_stdio_def ex_cfg_server_def)

lemma resolver_supplies_only_credentials_witness:
  "\<exists>b env. buildBackend ex_spawn_key ex_stdio (Some ex_gen_resolver) [] = Inr b \<and> bs_inner b = StdioInner ''srv'' None env \<and>
     env ''ld_preload'' = None \<and> env ''LD_PRELOAD'' = None"
proof -
  obtain b env where b: "buildBackend ex_spawn_key ex_stdio (Some ex_gen_resolver) [] = Inr b" "bs_inner b = StdioInner ''srv'' None env"
    using ex_spawn by blast
  have "list_all (\<lambda>c. byte c < 128) ''ld_preload'' \<and> execution_control ''ld_preload''"
    "list_all (\<lambda>c. byte c < 128) ''LD_PRELOAD'' \<and> execution_control ''LD_PRELOAD''"
    by (code_simp, code_simp)
  moreover have "map_of (list_or_nil (s_Env ex_stdio)) ''ld_preload'' = None" "map_of (list_or_nil (s_Env ex_stdio)) ''LD_PRELOAD'' = None"
    by (simp_all add: ex_stdio_def list_or_nil_def)
  ultimately have "env ''ld_preload'' = None" "env ''LD_PRELOAD'' = None"
    using resolver_supplies_only_credentials [OF b, of "''ld_preload''"] resolver_supplies_only_credentials [OF b, of "''LD_PRELOAD''"]
    by simp_all
  with b show ?thesis by blast
qed

lemma ex_token_settable: "\<not> credEnvRefused ''TOKEN''"
  by code_simp

lemma spawned_for_the_caller_witness:
  "\<exists>b env. buildBackend ex_spawn_key ex_stdio (Some ex_gen_resolver) [] = Inr b \<and> ex_gen_resolver ''acme'' ''_'' ''gh'' = Inr (ex_material, 7) \<and>
     bs_inner b = StdioInner ''srv'' None env \<and> env ''TOKEN'' = Some ''t'' \<and> env ''AWS_REGION'' = Some ''eu''"
proof -
  have pre: "Handler_pre (\<lambda>_. []) (\<lambda>_. NilData) (\<lambda>_. Some False) (\<lambda>_ _ _. Inr 7) [] ex_in = AskPool ex_spawn_key ''get_issue''"
    by (simp add: Handler_pre_def ex_in_Check) (simp add: ex_inbound_def ex_spawn_key_def)
  obtain b env where b: "buildBackend ex_spawn_key ex_stdio (Some ex_gen_resolver) [] = Inr b" "bs_inner b = StdioInner ''srv'' None env"
    using ex_spawn by blast
  have i: "caller_identity (\<lambda>_. Some False) ex_in = (''acme'', ''_'', ''gh'')"
    by (simp add: caller_identity_def ex_inbound_def UserUnattributed_def)
  have r: "ex_gen_resolver ''acme'' ''_'' ''gh'' = Inr (ex_material, 7)" by (simp add: ex_gen_resolver_def)
  from spawned_for_the_caller [OF pre b(1)] have "env = spawn_env ex_stdio (Some ex_material)"
    by (auto simp: i r carries_def b(2))
  then have "env ''TOKEN'' = Some ''t''" "env ''AWS_REGION'' = Some ''eu''"
    by (simp_all add: spawn_env_def ex_token_settable ex_material_def ex_stdio_def list_or_nil_def)
  with b r show ?thesis by blast
qed


end
