(* ===== verification/Shim.thy ===== *)
theory Shim
  imports MarshalMap Integrity Cancel WireClient
begin

text \<open>
  The client edge (\<open>pkg/shim/shim.go\<close>, \<open>pkg/shim/legacyclient.go\<close>): the lines of a client's stdin,
  what becomes of each message on them, the bodies and headers a request leaves with, the
  translation between the legacy handshake and \<open>server/discover\<close>, and the registry through which
  a cancellation finds its stream.  The texts of error messages are parameters.
\<close>

section \<open>Lines of any length\<close>

text \<open>
  What \<open>bufio.Reader.ReadSlice\<close> comes back with: a chunk that ends in the newline, a full buffer, or
  what was left when the stream ended or failed.
\<close>

datatype slice = Delimited bytes | BufferFull bytes | StreamEnd bytes bytes

datatype line_read = Line bytes "bytes option" | LineTooLong nat

record line_state =
  ln_line :: bytes
  ln_dropped :: bool
  ln_n :: nat

definition take_chunk :: "nat \<Rightarrow> bytes \<Rightarrow> line_state \<Rightarrow> line_state" where
  "take_chunk lim chunk s =
     (let n = ln_n s + length chunk in
      if ln_dropped s then s\<lparr>ln_n := n\<rparr>
      else if lim < n then \<lparr>ln_line = [], ln_dropped = True, ln_n = n\<rparr>
      else s\<lparr>ln_line := ln_line s @ chunk, ln_n := n\<rparr>)"

definition line_result :: "line_state \<Rightarrow> bytes option \<Rightarrow> line_read" where
  "line_result s err = (if ln_dropped s then LineTooLong (ln_n s) else Line (ln_line s) err)"

text \<open>When the slices are used up, the reader repeats its last error \<open>e\<close> with nothing before it.\<close>

fun readLine_loop :: "nat \<Rightarrow> bytes \<Rightarrow> slice list \<Rightarrow> line_state \<Rightarrow> line_read \<times> slice list" where
  "readLine_loop lim e [] s = (line_result (take_chunk lim [] s) (Some e), [])"
| "readLine_loop lim e (BufferFull c # ss) s = readLine_loop lim e ss (take_chunk lim c s)"
| "readLine_loop lim e (Delimited c # ss) s = (line_result (take_chunk lim (butlast c) s) None, ss)"
| "readLine_loop lim e (StreamEnd c err # ss) s = (line_result (take_chunk lim c s) (Some err), ss)"

definition fresh_line :: line_state where
  "fresh_line = \<lparr>ln_line = [], ln_dropped = False, ln_n = 0\<rparr>"

definition readLine :: "nat \<Rightarrow> bytes \<Rightarrow> slice list \<Rightarrow> line_read \<times> slice list" where
  "readLine lim e ss = readLine_loop lim e ss fresh_line"

lemma readLine_loop_shorter: "ss \<noteq> [] \<Longrightarrow> length (snd (readLine_loop lim e ss s)) < length ss"
proof (induction lim e ss s rule: readLine_loop.induct)
  case (2 lim e c ss s)
  then show ?case by (cases "ss = []") (simp_all add: less_SucI)
qed simp_all

lemma readLine_shorter: "(r, rest) = readLine lim e ss \<Longrightarrow> ss \<noteq> [] \<Longrightarrow> length rest < length ss"
  unfolding readLine_def by (metis readLine_loop_shorter snd_conv)

text \<open>The lines the loop of \<open>Run\<close> gets, until it stops: at the first one that comes with an error.\<close>

function read_lines_of :: "nat \<Rightarrow> bytes \<Rightarrow> slice list \<Rightarrow> line_read list" where
  "read_lines_of lim e ss =
     (case readLine lim e ss of
        (Line l (Some err), rest) \<Rightarrow> [Line l (Some err)]
      | (r, rest) \<Rightarrow> r # (if ss = [] then [] else read_lines_of lim e rest))"
  by pat_completeness auto
termination
  by (relation "measure (\<lambda>(lim, e, ss). length ss)") (auto dest: readLine_shorter)


section \<open>A legacy client\<close>

record legacyClient =
  clientInfo :: bytes
  clientCaps :: bytes

definition isEmptyJSON :: "bytes \<Rightarrow> bool" where
  "isEmptyJSON raw = (length raw = 0 \<or> strings_TrimSpace raw = ''null'')"

definition orEmptyObject :: "bytes \<Rightarrow> bytes" where
  "orEmptyObject raw = (if isEmptyJSON raw then ''{}'' else raw)"

text \<open>The identity in the params of an \<open>initialize\<close>; what does not unmarshal leaves it empty.\<close>

fun identity_members :: "legacyClient \<Rightarrow> (bytes \<times> jval) list \<Rightarrow> legacyClient" where
  "identity_members l [] = l"
| "identity_members l ((k, v) # kvs) =
     identity_members
       (case field_of [''clientInfo'', ''capabilities''] k of
          None \<Rightarrow> l
        | Some f \<Rightarrow> if f = ''clientInfo'' then l\<lparr>clientInfo := render v\<rparr> else l\<lparr>clientCaps := render v\<rparr>) kvs"

definition client_identity :: "message \<Rightarrow> legacyClient" where
  "client_identity msg =
     (case json_parse (raw_bytes (msg_params msg)) of
        Some (JObject w ms) \<Rightarrow> identity_members \<lparr>clientInfo = [], clientCaps = []\<rparr> (members_list ms)
      | _ \<Rightarrow> \<lparr>clientInfo = [], clientCaps = []\<rparr>)"

definition version_json :: bytes where
  "version_json = render (marshal_string ProtocolVersion)"

definition legacyMeta :: "legacyClient \<Rightarrow> raw_map" where
  "legacyMeta l =
     [(MetaProtocolVersion, version_json),
      (MetaClientCapabilities, if isEmptyJSON (clientCaps l) then ''{}'' else clientCaps l)] @
     (if isEmptyJSON (clientInfo l) then [] else [(MetaClientInfo, clientInfo l)])"

definition interceptLegacyRequest :: "message \<Rightarrow> bool" where
  "interceptLegacyRequest msg = (Method msg = MethodPing \<or> Method msg = MethodLoggingSetLevel)"

section \<open>Requests\<close>

text \<open>The body with entries merged into \<open>_meta\<close>, or \<open>None\<close> when it cannot be rewritten.\<close>

definition merge_entries :: "raw_map \<Rightarrow> raw_map \<Rightarrow> raw_map" where
  "merge_entries entries meta = foldl (\<lambda>m (k, v). AList.update k v m) meta entries"

definition injectMeta :: "message \<Rightarrow> raw_map \<Rightarrow> bytes option" where
  "injectMeta msg entries =
     (let raw = raw_bytes (msg_params msg) in
      case (if length raw = 0 then Inr None else unmarshal_map raw) of
        Inl _ \<Rightarrow> None
      | Inr p0 \<Rightarrow>
          (let ps = (case p0 of None \<Rightarrow> [] | Some p \<Rightarrow> p) in
           case (case map_of ps ''_meta'' of None \<Rightarrow> Inr None | Some r \<Rightarrow> unmarshal_map r) of
             Inl _ \<Rightarrow> None
           | Inr m0 \<Rightarrow>
               (case marshal_map (merge_entries entries (case m0 of None \<Rightarrow> [] | Some m \<Rightarrow> m)) of
                  Inl _ \<Rightarrow> None
                | Inr metaRaw \<Rightarrow>
                    (case marshal_map (AList.update ''_meta'' metaRaw ps) of
                       Inl _ \<Rightarrow> None
                     | Inr paramsRaw \<Rightarrow>
                         (case Encode (zero_message\<lparr>JSONRPC := ''2.0'', ID := ID msg, Method := Method msg,
                                 msg_params := Some paramsRaw\<rparr>) of
                            Inl _ \<Rightarrow> None
                          | Inr body \<Rightarrow> Some body)))))"

text \<open>
  What becomes of a request: an error for the client, the engagement of legacy mode, an empty
  result, or a request on the wire.
\<close>

datatype refusal = NullRequestID | BadParams params_error

datatype handled = Refuse refusal | Engage legacyClient | Pong | Send request

definition nullID :: bytes where
  "nullID = ''null''"

definition handleRequest :: "bytes \<Rightarrow> legacyClient option \<Rightarrow> message \<Rightarrow> bytes \<Rightarrow> handled" where
  "handleRequest server legacy msg body =
     (if strings_TrimSpace (raw_bytes (ID msg)) = nullID then Refuse NullRequestID
      else if Method msg = MethodInitialize then Engage (client_identity msg)
      else if legacy \<noteq> None \<and> interceptLegacyRequest msg then Pong
      else
        (case DecodeParams (raw_bytes (msg_params msg)) of
           Inl e \<Rightarrow> Refuse (BadParams e)
         | Inr p \<Rightarrow>
             (case params_ProtocolVersion p of
                Inl e \<Rightarrow> Refuse (BadParams e)
              | Inr ver0 \<Rightarrow>
                  (let (inject, ver) =
                     (case legacy of
                        Some l \<Rightarrow> (legacyMeta l, ProtocolVersion)
                      | None \<Rightarrow>
                          if ver0 = [] then ([(MetaProtocolVersion, version_json)], ProtocolVersion)
                          else ([], ver0));
                       body' = (if length inject = 0 then body
                                else (case injectMeta msg inject of None \<Rightarrow> body | Some b \<Rightarrow> b))
                   in case params_Name p (Method msg) of
                        Inl e \<Rightarrow> Refuse (BadParams e)
                      | Inr nm \<Rightarrow>
                          Send \<lparr>rq_Server = server, rq_Method = Method msg, rq_Name = raw_bytes nm,
                            rq_ProtocolVersion = ver, rq_Body = body'\<rparr>))))"

section \<open>What the client is told\<close>

text \<open>The texts of the errors of other components.\<close>

record texts =
  tx_refusal :: "refusal \<Rightarrow> bytes"
  tx_failure :: "failure \<Rightarrow> bytes"
  tx_do :: "do_error \<Rightarrow> bytes"
  tx_no_discover :: bytes
  tx_bad_discover :: bytes
  tx_bad_result :: bytes

text \<open>\<open>writeError\<close>: the line, unless the error does not encode.\<close>

definition error_line :: "bytes option \<Rightarrow> int \<Rightarrow> bytes \<Rightarrow> bytes option" where
  "error_line i code text0 =
     (case Encode (NewErrorResponse i code text0 None) of Inl _ \<Rightarrow> None | Inr body \<Rightarrow> Some body)"

definition local_error_line :: "texts \<Rightarrow> bytes option \<Rightarrow> do_error \<Rightarrow> bytes option" where
  "local_error_line tx i e =
     error_line i (case e of DoTooLarge _ _ _ \<Rightarrow> ErrCodePayloadTooLarge | DoSubject _ \<Rightarrow> CodeInternalError) (tx_do tx e)"

text \<open>What one frame of a stream becomes on stdout.\<close>

definition frame_line :: "texts \<Rightarrow> bytes option \<Rightarrow> client_frame \<Rightarrow> bytes option" where
  "frame_line tx i f =
     (case cf_err f of
        Some (code, why) \<Rightarrow> error_line i code (tx_failure tx why)
      | None \<Rightarrow> if cf_kind f = FrameEnd \<and> length (cf_body f) = 0 then None else Some (cf_body f))"

definition stream_lines :: "texts \<Rightarrow> bytes option \<Rightarrow> client_frame list \<Rightarrow> bytes list" where
  "stream_lines tx i fs = List.map_filter (frame_line tx i) fs"

text \<open>The id a cancellation names.\<close>

definition cancel_key :: "message \<Rightarrow> bytes" where
  "cancel_key msg =
     strings_TrimSpace (case cancel_params (raw_bytes (msg_params msg)) of Inl _ \<Rightarrow> [] | Inr r \<Rightarrow> r)"


section \<open>Answering a legacy handshake\<close>

record discoverResult =
  dr_Capabilities :: bytes
  dr_ServerInfo :: bytes
  dr_Instructions :: bytes
  dr_Meta :: raw_map

text \<open>
  Unmarshalling a \<open>DiscoverResult\<close>.  A map field that is already there is added to, and a value of the
  wrong type is an error once everything else has been read, which the caller cannot tell apart.
\<close>

fun discover_members :: "discoverResult \<Rightarrow> (bytes \<times> jval) list \<Rightarrow> unmarshal_error + discoverResult" where
  "discover_members d [] = Inr d"
| "discover_members d ((k, v) # kvs) =
     (case field_of [''capabilities'', ''serverInfo'', ''instructions'', ''_meta''] k of
        None \<Rightarrow> discover_members d kvs
      | Some f \<Rightarrow>
          if f = ''capabilities'' then discover_members (d\<lparr>dr_Capabilities := render v\<rparr>) kvs
          else if f = ''serverInfo'' then discover_members (d\<lparr>dr_ServerInfo := render v\<rparr>) kvs
          else if f = ''instructions'' then discover_members (d\<lparr>dr_Instructions := render v\<rparr>) kvs
          else if v = json_null then discover_members (d\<lparr>dr_Meta := []\<rparr>) kvs
          else
            (case v of
               JObject w ms \<Rightarrow>
                 discover_members (d\<lparr>dr_Meta := merge_entries (map (\<lambda>(k, v). (k, render v)) (members_list ms)) (dr_Meta d)\<rparr>) kvs
             | _ \<Rightarrow> Inl UnmarshalTypeError))"

definition unmarshal_discover :: "bytes option \<Rightarrow> unmarshal_error + discoverResult" where
  "unmarshal_discover raw =
     (let zero = \<lparr>dr_Capabilities = [], dr_ServerInfo = [], dr_Instructions = [], dr_Meta = []\<rparr> in
      case json_parse (raw_bytes raw) of
        None \<Rightarrow> Inl SyntaxError
      | Some v \<Rightarrow>
          if v = json_null then Inr zero
          else (case v of
                  JObject w ms \<Rightarrow> discover_members zero (members_list ms)
                | _ \<Rightarrow> Inl UnmarshalTypeError))"

definition discoverServerInfo :: "raw_map \<Rightarrow> bytes \<Rightarrow> bytes" where
  "discoverServerInfo meta topLevel =
     (case map_of meta MetaServerInfo of
        Some si \<Rightarrow> if \<not> isEmptyJSON si then si else topLevel
      | None \<Rightarrow> topLevel)"

text \<open>The request for \<open>server/discover\<close>.\<close>

definition discover_body :: bytes where
  "discover_body =
     or_nil (Encode (NewRequest ''shim-discover'' MethodDiscover
       (Some (render (mk_object
         [(''_meta'', mk_object [(escape_string MetaProtocolVersion, marshal_string ProtocolVersion)])])))))"

definition discover_request :: "bytes \<Rightarrow> request" where
  "discover_request server =
     \<lparr>rq_Server = server, rq_Method = MethodDiscover, rq_Name = [], rq_ProtocolVersion = ProtocolVersion,
      rq_Body = discover_body\<rparr>"

definition initialize_result :: "discoverResult \<Rightarrow> bytes option" where
  "initialize_result d =
     (case marshal_map
       ([(''protocolVersion'', render (marshal_string LegacyProtocolVersion)),
         (''capabilities'', orEmptyObject (dr_Capabilities d)),
         (''serverInfo'', orEmptyObject (discoverServerInfo (dr_Meta d) (dr_ServerInfo d)))] @
        (if length (dr_Instructions d) = 0 then [] else [(''instructions'', dr_Instructions d)])) of
        Inl _ \<Rightarrow> None
      | Inr raw \<Rightarrow> Some raw)"

text \<open>The line that answers an \<open>initialize\<close>, from the frames of the discovery.\<close>

definition answerInitialize :: "texts \<Rightarrow> bytes option \<Rightarrow> do_error + client_frame list \<Rightarrow> bytes option" where
  "answerInitialize tx i r =
     (case r of
        Inl e \<Rightarrow> local_error_line tx i e
      | Inr [] \<Rightarrow> error_line i CodeInternalError (tx_no_discover tx)
      | Inr fs \<Rightarrow>
          (let terminal = last fs in
           case cf_err terminal of
             Some (code, why) \<Rightarrow> error_line i code (tx_failure tx why)
           | None \<Rightarrow>
               if cf_kind terminal \<noteq> FrameEnd \<or> length (cf_body terminal) = 0
               then error_line i CodeInternalError (tx_no_discover tx)
               else
                 (case Decode (cf_body terminal) of
                    Inl _ \<Rightarrow> error_line i CodeInternalError (tx_bad_discover tx)
                  | Inr resp \<Rightarrow>
                      (case Error resp of
                         Some e \<Rightarrow> error_line i (err_code e) (err_message e)
                       | None \<Rightarrow>
                           (case unmarshal_discover (Result resp) of
                              Inl _ \<Rightarrow> error_line i CodeInternalError (tx_bad_result tx)
                            | Inr d \<Rightarrow>
                                (case Encode (NewResponse i (initialize_result d)) of
                                   Inl _ \<Rightarrow> None
                                 | Inr line \<Rightarrow> Some line))))))"

section \<open>The lines of stdin\<close>

definition maxLine :: nat where
  "maxLine = 16 * 1024 * 1024"

datatype client_event = Skipped | Request message bytes | Notification message

definition line_event :: "line_read \<Rightarrow> client_event" where
  "line_event r =
     (case r of
        LineTooLong _ \<Rightarrow> Skipped
      | Line raw _ \<Rightarrow>
          (let line = strings_TrimSpace raw in
           if length line = 0 then Skipped
           else
             (case Decode line of
                Inl _ \<Rightarrow> Skipped
              | Inr msg \<Rightarrow>
                  if Kind msg = KindRequest then Request msg line
                  else if Kind msg = KindNotification then Notification msg
                  else Skipped)))"

section \<open>The routes of cancellations\<close>

text \<open>
  \<open>streams\<close> and the goroutines that remove their entry from it: every stream has a number, and \<open>opened\<close>
  lists, latest first, the number and the id of each that was registered.
\<close>

record routes =
  streams :: "bytes \<rightharpoonup> nat"
  opened :: "(nat \<times> bytes) list"
  finished :: "nat set"

datatype route_event = Opened bytes | Finished nat

definition route_step :: "route_event \<Rightarrow> routes \<Rightarrow> routes" where
  "route_step e r =
     (case e of
        Opened k \<Rightarrow>
          (let n = length (opened r) in r\<lparr>streams := (streams r)(k \<mapsto> n), opened := (n, k) # opened r\<rparr>)
      | Finished n \<Rightarrow>
          (case map_of (opened r) n of
             None \<Rightarrow> r
           | Some k \<Rightarrow>
               r\<lparr>streams := (if streams r k = Some n then (streams r)(k := None) else streams r),
                 finished := insert n (finished r)\<rparr>))"

definition no_routes :: routes where
  "no_routes = \<lparr>streams = Map.empty, opened = [], finished = {}\<rparr>"

text \<open>\<open>handleNotification\<close>: the stream that is cancelled, and the message that goes to it.\<close>

definition handleNotification :: "legacyClient option \<Rightarrow> routes \<Rightarrow> message \<Rightarrow> (nat \<times> bytes) option" where
  "handleNotification legacy r msg =
     (if legacy \<noteq> None \<and> Method msg = NotifInitialized then None
      else if Method msg \<noteq> NotifCancelled then None
      else
        (case streams r (cancel_key msg) of
           None \<Rightarrow> None
         | Some n \<Rightarrow> (case Encode msg of Inl _ \<Rightarrow> None | Inr raw \<Rightarrow> Some (n, raw))))"


section \<open>Reading is splitting\<close>

text \<open>A slice of a stream: the newline ends a delimited chunk and occurs nowhere else.\<close>

fun slice_bytes :: "slice \<Rightarrow> bytes" where
  "slice_bytes (Delimited c) = c"
| "slice_bytes (BufferFull c) = c"
| "slice_bytes (StreamEnd c err) = c"

fun slice_ok :: "slice \<Rightarrow> bool" where
  "slice_ok (Delimited c) = (\<exists>l. c = l @ [CHR 0x0A] \<and> CHR 0x0A \<notin> set l)"
| "slice_ok (BufferFull c) = (CHR 0x0A \<notin> set c)"
| "slice_ok (StreamEnd c err) = False"

text \<open>What becomes of a line, and of what stands after the last newline.\<close>

definition judge_line :: "nat \<Rightarrow> bytes \<Rightarrow> line_read" where
  "judge_line lim l = (if lim < length l then LineTooLong (length l) else Line l None)"

definition judge_end :: "nat \<Rightarrow> bytes \<Rightarrow> bytes \<Rightarrow> bytes \<Rightarrow> line_read list" where
  "judge_end lim err e l = (if lim < length l then [LineTooLong (length l), Line [] (Some e)] else [Line l (Some err)])"

definition line_so_far :: "nat \<Rightarrow> bytes \<Rightarrow> line_state" where
  "line_so_far lim acc =
     (if lim < length acc then \<lparr>ln_line = [], ln_dropped = True, ln_n = length acc\<rparr>
      else \<lparr>ln_line = acc, ln_dropped = False, ln_n = length acc\<rparr>)"

lemma take_chunk_so_far: "take_chunk lim c (line_so_far lim acc) = line_so_far lim (acc @ c)"
  by (simp add: take_chunk_def line_so_far_def)

lemma line_result_so_far:
  "line_result (line_so_far lim acc) err = (if lim < length acc then LineTooLong (length acc) else Line acc err)"
  by (simp add: line_result_def line_so_far_def)

lemma fresh_so_far: "fresh_line = line_so_far lim []"
  by (simp add: fresh_line_def line_so_far_def)

definition loop_lines :: "nat \<Rightarrow> bytes \<Rightarrow> slice list \<Rightarrow> bytes \<Rightarrow> line_read list" where
  "loop_lines lim e ss acc =
     (case readLine_loop lim e ss (line_so_far lim acc) of
        (Line l (Some err), rest) \<Rightarrow> [Line l (Some err)]
      | (r, rest) \<Rightarrow> r # (if ss = [] then [] else read_lines_of lim e rest))"

lemma read_lines_loop: "read_lines_of lim e ss = loop_lines lim e ss []"
  unfolding loop_lines_def fresh_so_far [symmetric] readLine_def [symmetric] by (subst read_lines_of.simps) (rule refl)

declare read_lines_of.simps [simp del]

lemma split_newline:
  "CHR 0x0A \<notin> set l \<Longrightarrow> strings_Split (l @ CHR 0x0A # s) (CHR 0x0A) = l # strings_Split s (CHR 0x0A)"
  "CHR 0x0A \<notin> set l \<Longrightarrow> strings_Split l (CHR 0x0A) = [l]"
  by (induction l) auto

lemma loop_lines_split:
  "list_all slice_ok ss \<Longrightarrow> CHR 0x0A \<notin> set acc \<Longrightarrow> CHR 0x0A \<notin> set c \<Longrightarrow>
     loop_lines lim e (ss @ [StreamEnd c err]) acc =
       (let ls = strings_Split (acc @ concat (map slice_bytes ss) @ c) (CHR 0x0A) in
        map (judge_line lim) (butlast ls) @ judge_end lim err e (last ls))"
proof (induction ss arbitrary: acc)
  case Nil
  have "loop_lines lim e [] [] = [Line [] (Some e)]"
    by (simp add: loop_lines_def take_chunk_so_far line_result_so_far)
  with Nil show ?case
    by (simp add: loop_lines_def take_chunk_so_far line_result_so_far split_newline judge_end_def read_lines_loop)
next
  case (Cons s ss)
  show ?case
  proof (cases s)
    case (BufferFull b)
    have "loop_lines lim e ((s # ss) @ [StreamEnd c err]) acc = loop_lines lim e (ss @ [StreamEnd c err]) (acc @ b)"
      using BufferFull by (simp add: loop_lines_def take_chunk_so_far split: prod.split line_read.split option.split)
    with Cons.IH [of "acc @ b"] Cons.prems BufferFull show ?thesis by simp
  next
    case (Delimited b)
    with Cons.prems obtain l where b: "b = l @ [CHR 0x0A]" "CHR 0x0A \<notin> set l" by auto
    with Cons.prems have "CHR 0x0A \<notin> set (acc @ l)" by simp
    note split = split_newline(1) [OF this]
    have "loop_lines lim e ((s # ss) @ [StreamEnd c err]) acc =
        judge_line lim (acc @ l) # loop_lines lim e (ss @ [StreamEnd c err]) []"
      using Delimited b by (auto simp: loop_lines_def [of _ _ "_ # _"] take_chunk_so_far line_result_so_far judge_line_def read_lines_loop)
    also have "loop_lines lim e (ss @ [StreamEnd c err]) [] =
       (let ls = strings_Split (concat (map slice_bytes ss) @ c) (CHR 0x0A) in
        map (judge_line lim) (butlast ls) @ judge_end lim err e (last ls))"
      using Cons.IH [of "[]"] Cons.prems by simp
    finally show ?thesis using Delimited b split [of "concat (map slice_bytes ss) @ c"] by (simp add: Let_def)
  next
    case (StreamEnd b er)
    with Cons.prems show ?thesis by simp
  qed
qed

text \<open>
  However the reader slices the stream, what the shim reads is the stream split at its newlines:
  each line as long as the limit allows is delivered whole, a longer one is reported by its length and
  costs nothing but itself, and what stands after the last newline comes with the error that ended the
  stream.
\<close>

theorem reading_is_splitting:
  assumes "list_all slice_ok ss" "CHR 0x0A \<notin> set c"
  shows "read_lines_of lim e (ss @ [StreamEnd c err]) =
    (let ls = strings_Split (concat (map slice_bytes ss) @ c) (CHR 0x0A) in
     map (judge_line lim) (butlast ls) @ judge_end lim err e (last ls))"
  unfolding read_lines_loop using loop_lines_split [OF assms(1) _ assms(2), of "[]"] by simp

lemma reading_is_splitting_witness:
  "read_lines_of 3 ''EOF'' ([BufferFull ''ab'', Delimited ''cd\<newline>'', Delimited ''xy\<newline>''] @ [StreamEnd ''z'' ''EOF'']) =
    [LineTooLong 4, Line ''xy'' None, Line ''z'' (Some ''EOF'')]"
  by (subst reading_is_splitting) (simp_all add: judge_line_def judge_end_def)


section \<open>A cancellation finds the live request\<close>

definition newest :: "bytes \<Rightarrow> routes \<Rightarrow> nat option" where
  "newest k r = map_option fst (find (\<lambda>(n, k'). k' = k) (opened r))"

definition routes_inv :: "routes \<Rightarrow> bool" where
  "routes_inv r \<longleftrightarrow>
     (\<forall>(n, k)\<in>set (opened r). n < length (opened r)) \<and> distinct (map fst (opened r)) \<and>
     (\<forall>n\<in>finished r. n < length (opened r)) \<and>
     (\<forall>k. streams r k = (case newest k r of None \<Rightarrow> None | Some n \<Rightarrow> if n \<in> finished r then None else Some n))"

lemma newest_opened: "newest k r = Some n \<Longrightarrow> (n, k) \<in> set (opened r)"
  by (auto simp: newest_def find_Some_iff in_set_conv_nth)

lemma newest_other: "distinct (map fst (opened r)) \<Longrightarrow> map_of (opened r) n = Some k \<Longrightarrow> newest k' r = Some n \<Longrightarrow> k' = k"
  using newest_opened [of k' r n] by (metis map_of_is_SomeI option.inject)

lemma route_step_inv:
  assumes "routes_inv r"
  shows "routes_inv (route_step e r)"
proof (cases e)
  case (Opened k)
  have "length (opened r) \<notin> fst ` set (opened r)" "length (opened r) \<notin> finished r"
    using assms by (auto simp: routes_inv_def)
  moreover have "newest k' (route_step e r) = (if k' = k then Some (length (opened r)) else newest k' r)" for k'
    using Opened by (simp add: newest_def route_step_def Let_def)
  ultimately show ?thesis using assms Opened
    by (auto simp: routes_inv_def route_step_def Let_def less_SucI split: option.splits)
next
  case (Finished n)
  show ?thesis
  proof (cases "map_of (opened r) n")
    case None
    with Finished assms show ?thesis by (simp add: route_step_def)
  next
    case (Some k)
    have new: "newest k' (route_step e r) = newest k' r" for k'
      using Finished Some by (simp add: newest_def route_step_def)
    have d: "distinct (map fst (opened r))" and "n < length (opened r)"
      using assms map_of_SomeD [OF Some] by (auto simp: routes_inv_def)
    have st: "streams r k' = (case newest k' r of None \<Rightarrow> None | Some m \<Rightarrow> if m \<in> finished r then None else Some m)" for k'
      using assms by (simp add: routes_inv_def)
    have "streams (route_step e r) k' =
        (case newest k' r of None \<Rightarrow> None | Some m \<Rightarrow> if m \<in> insert n (finished r) then None else Some m)" for k'
    proof (cases "newest k' r")
      case None
      with st [of k'] Finished Some show ?thesis by (simp add: route_step_def)
    next
      case (Some m)
      with newest_other [OF d \<open>map_of (opened r) n = Some k\<close>, of k'] st [of k'] Finished \<open>map_of (opened r) n = Some k\<close>
      show ?thesis by (auto simp: route_step_def split: if_splits)
    qed
    moreover have "opened (route_step e r) = opened r" "finished (route_step e r) = insert n (finished r)"
      using Finished Some by (simp_all add: route_step_def)
    ultimately show ?thesis using assms \<open>n < length (opened r)\<close> unfolding routes_inv_def new by (simp cong: option.case_cong)
  qed
qed

lemma routes_inv_run: "routes_inv (foldl (\<lambda>r e. route_step e r) no_routes es)"
proof -
  have "routes_inv r \<Longrightarrow> routes_inv (foldl (\<lambda>r e. route_step e r) r es)" for r
    by (induction es arbitrary: r) (simp_all add: route_step_inv)
  moreover have "routes_inv no_routes" by (simp add: routes_inv_def no_routes_def newest_def)
  ultimately show ?thesis by blast
qed

text \<open>
  C30. Whatever streams were opened and finished before, ids used twice included, a cancellation
  goes to the stream opened last under the id it names, unless that stream has finished; an older
  request that ends does not take the route of a newer one with it.
\<close>

theorem cancellations_reach_the_live_request:
  assumes "r = foldl (\<lambda>r e. route_step e r) no_routes es" "Method msg = NotifCancelled" "Encode msg = Inr raw"
  shows "handleNotification legacy r msg =
    (case newest (cancel_key msg) r of
       None \<Rightarrow> None
     | Some n \<Rightarrow> if n \<in> finished r then None else Some (n, raw))"
proof -
  have "routes_inv r" unfolding assms(1) by (rule routes_inv_run)
  then show ?thesis using assms(2,3)
    by (simp add: handleNotification_def routes_inv_def mcp_defs split: option.split)
qed


lemma cancellations_reach_the_live_request_witness:
  "handleNotification None (foldl (\<lambda>r e. route_step e r) no_routes [Opened ''1'', Opened ''1'', Finished 0])
     (NewNotification NotifCancelled (Some (json_text ''{~requestId~:1}''))) \<noteq> None"
proof -
  let ?msg = "NewNotification NotifCancelled (Some (json_text ''{~requestId~:1}''))"
  let ?r = "foldl (\<lambda>r e. route_step e r) no_routes [Opened ''1'', Opened ''1'', Finished 0]"
  have "cancel_params (json_text ''{~requestId~:1}'') = Inr ''1''" by code_simp
  then have k: "cancel_key ?msg = ''1''"
    by (simp add: cancel_key_def NewNotification_def raw_bytes_def TrimSpace_visible)
  have n: "newest ''1'' ?r = Some 1" "1 \<notin> finished ?r"
    by (simp_all add: newest_def route_step_def no_routes_def)
  have "message_fits ?msg"
  proof -
    have "json_parse (json_text ''{~requestId~:1}'') = Some (JObject [] (MCons [] ''requestId'' [] [] (JScalar ''1'') [] MNil))"
      by code_simp
    moreover have "utf8_Valid NotifCancelled" unfolding NotifCancelled_def by (rule utf8_Valid_ascii) simp
    ultimately show ?thesis
      by (simp add: message_fits_def NewNotification_def zero_message_def raw_fits_def error_fits_def maxNestingDepth_def json_text_def)
  qed
  then obtain raw where "Encode ?msg = Inr raw" by (rule Encode_unmarshal)
  moreover have "Method ?msg = NotifCancelled" by (simp add: NewNotification_def)
  ultimately show ?thesis using cancellations_reach_the_live_request [where es = "[Opened ''1'', Opened ''1'', Finished 0]", OF refl, of ?msg raw None] n
    unfolding k by simp
qed

end
