(* ===== verification/ShimCheck.thy ===== *)
theory ShimCheck
  imports Shim
begin

text \<open>
  The two ends of the wire together: what the shim sends for a client's request is what the gateway's
  integrity check accepts, also when the shim had to write the protocol version or a legacy
  client's identity into the body.
\<close>

section \<open>What a decoded message holds fits a message\<close>

definition head_fits :: "message \<Rightarrow> bool" where
  "head_fits m = (raw_fits 1 (ID m) \<and> utf8_Valid (Method m))"

lemma into_string_valid: "into_string old v = Inr s \<Longrightarrow> utf8_Valid old \<Longrightarrow> utf8_Valid s"
  by (auto simp: into_string_def unquoted_valid split: if_splits jval.splits)

lemma decode_members_fit:
  "decode_members m kvs = Inr m' \<Longrightarrow> head_fits m \<Longrightarrow>
     list_all (\<lambda>(k, v). json_parse (render v) = Some v \<and> render v \<noteq> [] \<and> jdepth v < maxNestingDepth) kvs \<Longrightarrow>
     head_fits m'"
proof (induction m kvs rule: decode_members.induct)
  case (2 m k v kvs)
  have v: "raw_fits 1 (Some (render v))" using "2.prems"(3) by (simp add: raw_fits_def)
  show ?case
  proof (cases "field_of message_fields k")
    case None
    with 2 show ?thesis by simp
  next
    case (Some f)
    with 2 v show ?thesis
      by (auto simp: head_fits_def dest: into_string_valid split: if_split_asm sum.split_asm)
  qed
qed simp

lemma Decode_fits:
  assumes "Decode data = Inr m"
  shows "raw_fits 1 (ID m)" "utf8_Valid (Method m)"
proof -
  from assms have u: "unmarshal_message data = Inr m" by (simp add: Decode_Inr)
  have z: "head_fits zero_message" by (simp add: head_fits_def zero_message_def raw_fits_def)
  have "head_fits m"
  proof (cases "json_parse data = Some json_null")
    case True
    with u z show ?thesis by (auto simp: unmarshal_message_def)
  next
    case False
    with u obtain w ms where p: "json_parse data = Some (JObject w ms)"
      and d: "decode_members zero_message (members_list ms) = Inr m"
      by (auto simp: unmarshal_message_def split: option.splits jval.splits if_splits)
    show ?thesis
    proof (rule decode_members_fit [OF d z], unfold list_all_iff, clarify)
      fix k v
      assume kv: "(k, v) \<in> set (members_list ms)"
      then have "json_parse (render v) = Some v" using json_parse_member [OF p] by blast
      moreover from this have "render v \<noteq> []" using render_length by (fastforce simp: json_parse_iff)
      moreover have "jdepth v < maxNestingDepth" using p jdepth_members_list [OF kv] by (auto simp: json_parse_iff)
      ultimately show "json_parse (render v) = Some v \<and> render v \<noteq> [] \<and> jdepth v < maxNestingDepth" by blast
    qed
  qed
  then show "raw_fits 1 (ID m)" "utf8_Valid (Method m)" by (simp_all add: head_fits_def)
qed

section \<open>The params the shim reads\<close>

lemma value_visible:
  assumes "wf_json v"
  shows "\<exists>c\<in>set (render v). 0x20 < byte c \<and> byte c < 0x80"
proof (cases v)
  case (JScalar t)
  with assms have ok: "scalar_ok t" by simp
  have "list_all (\<lambda>c. 0x20 < byte c \<and> byte c < 0x80) t"
    by (rule scalar_ok_all [OF ok]) (simp_all add: json_digit_def)
  moreover obtain c t' where "t = c # t'" by (rule scalar_ok_head [OF ok])
  ultimately show ?thesis using JScalar by simp
qed simp_all

lemma json_text_not_blank:
  assumes "json_parse raw = Some v"
  shows "strings_TrimSpace raw \<noteq> []"
proof
  assume blank: "strings_TrimSpace raw = []"
  have "wf_json v" using assms by (simp add: json_parse_iff)
  then obtain c where c: "c \<in> set (render v)" "0x20 < byte c" "byte c < 0x80" using value_visible by blast
  from assms obtain a b where "raw = a @ render v @ b" unfolding json_parse_iff by blast
  with c(1) have "c \<in> set raw" by simp
  from trimmed_bytes [OF blank this] obtain r where "r \<in> set unicode_spaces" "c \<in> set (encode_rune r)" by blast
  with first_byte_not_space have "byte c \<le> 0x20 \<or> 0x80 \<le> byte c" by blast
  with c(2,3) show False by linarith
qed

text \<open>\<open>json.Unmarshal\<close> of the params agrees with \<open>DecodeParams\<close>, whose result is clean.\<close>

lemma params_unmarshalled:
  assumes "DecodeParams raw = Inr p" "raw = [] \<or> json_parse raw \<noteq> None"
  obtains p0 where "(if length raw = 0 then Inr None else unmarshal_map raw) = Inr p0"
    "p = (case p0 of None \<Rightarrow> [] | Some q \<Rightarrow> q)" "clean_map 1 p" "inj_on foldKey (set (map fst p))"
proof (cases "raw = []")
  case True
  have "strings_TrimSpace [] = []"
    by (simp add: strings_TrimSpace_def strings_TrimLeftSpace_def strings_TrimRightSpace_def)
  with True assms(1) show ?thesis by (intro that [of None]) (simp_all add: DecodeParams_def)
next
  case False
  with assms(2) obtain v where v: "json_parse raw = Some v" by auto
  show ?thesis
  proof (cases "\<exists>w ms. v = JObject w ms")
    case True
    with v obtain w ms where ms: "json_parse raw = Some (JObject w ms)" by blast
    then have p: "scanUnambiguous raw = Inr ()" "p = object_map ms" "checkCaseUnique p = Inr ()"
      using assms(1) DecodeParams_object [OF ms, of p] by blast+
    have "clean 0 raw" using p(1) ms by (auto simp: clean_def scanUnambiguous_iff [OF ms])
    then have "clean_map 1 p" using clean_object [OF ms] p(2) by simp
    moreover from this p(3) have "inj_on foldKey (set (map fst p))"
      by (simp add: case_unique_iff clean_map_def)
    moreover have "unmarshal_map raw = Inr (Some p)" using ms p(2) by (simp add: unmarshal_map_def)
    ultimately show ?thesis using False by (intro that [of "Some p"]) simp_all
  next
    case other: False
    have "unmarshal_map raw = Inr None \<and> p = []"
      using assms(1) v other json_text_not_blank [OF v]
      by (auto simp: DecodeParams_def unmarshal_map_def split: sum.splits if_splits jval.splits)
    with False show ?thesis by (intro that [of None]) simp_all
  qed
qed

lemma meta_unmarshalled:
  assumes "Object p MetaField = Inr meta" "clean_map 1 p"
  obtains m0 where "(case map_of p ''_meta'' of None \<Rightarrow> Inr None | Some r \<Rightarrow> unmarshal_map r) = Inr m0"
    "meta = (case m0 of None \<Rightarrow> [] | Some m \<Rightarrow> m)" "clean_map 2 meta"
    "\<forall>k\<in>set (map fst p). EqualFoldKey k MetaField \<longrightarrow> k = MetaField"
proof -
  have m: "MetaField = ''_meta''" by (simp add: MetaField_def)
  have raw: "Raw p MetaField = Inr (map_of p ''_meta'')"
    and u: "\<forall>k\<in>set (map fst p). EqualFoldKey k MetaField \<longrightarrow> k = MetaField"
    using assms(1) unambiguous_ok [of p MetaField] by (auto simp: Object_def Raw_def m split: sum.splits)
  show ?thesis
  proof (cases "map_of p ''_meta''")
    case None
    with assms(1) raw u show ?thesis by (intro that [of None]) (simp_all add: Object_def)
  next
    case (Some r)
    with assms(2) have r: "clean 1 r" by (simp add: clean_map_def)
    show ?thesis
    proof (cases "unmarshal_map r")
      case (Inl e)
      with Some assms(1) raw show ?thesis by (simp add: Object_def)
    next
      case (Inr m0)
      show ?thesis
      proof (cases m0)
        case None
        with Some Inr assms(1) raw u show ?thesis by (intro that [of None]) (simp_all add: Object_def)
      next
        case (Some q)
        with Inr obtain w ms where "json_parse r = Some (JObject w ms)" "q = object_map ms"
          by (auto simp: unmarshal_map_def split: option.splits if_splits jval.splits)
        then have "clean_map 2 q" using clean_object [OF _ r] by (simp add: numeral_2_eq_2)
        with Some Inr \<open>map_of p ''_meta'' = Some r\<close> assms(1) raw u show ?thesis
          by (intro that [of "Some q"]) (simp_all add: Object_def)
      qed
    qed
  qed
qed


section \<open>What is injected, and what is read back\<close>

text \<open>Entries the shim may inject: clean values under the keys of the specification.\<close>

definition entries_ok :: "raw_map \<Rightarrow> bool" where
  "entries_ok es \<longleftrightarrow> distinct (map fst es) \<and>
     fst ` set es \<subseteq> {MetaProtocolVersion, MetaClientCapabilities, MetaClientInfo} \<and> (\<forall>raw\<in>snd ` set es. clean 2 raw)"

lemma meta_keys_valid: "k \<in> {MetaProtocolVersion, MetaClientCapabilities, MetaClientInfo, MetaField} \<Longrightarrow> utf8_Valid k"
  by (elim insertE emptyE; simp only: mcp_defs; rule utf8_Valid_ascii; simp)

lemma merge_entries_map_of:
  "distinct (map fst es) \<Longrightarrow> map_of (merge_entries es m) k = (case map_of es k of None \<Rightarrow> map_of m k | Some v \<Rightarrow> Some v)"
  unfolding merge_entries_def
proof (induction es arbitrary: m)
  case (Cons e es)
  obtain a b where "e = (a, b)" by fastforce
  with Cons show ?case by (cases "k = a") (simp_all add: update_conv' map_of_eq_None_iff [THEN iffD2] cong: option.case_cong)
qed simp

lemma merge_entries_keys: "set (map fst (merge_entries es m)) = set (map fst m) \<union> set (map fst es)"
  unfolding merge_entries_def by (induction es arbitrary: m) (simp_all add: case_prod_beta update_keys_image insert_commute)

lemma merge_entries_clean:
  assumes "entries_ok es" "clean_map 2 m"
  shows "clean_map 2 (merge_entries es m)"
proof -
  have "clean_map 2 (foldl (\<lambda>m (k, v). AList.update k v m) m kvs)" if "set kvs \<subseteq> set es" "clean_map 2 m" for kvs m
    using that
  proof (induction kvs arbitrary: m)
    case (Cons kv kvs)
    obtain k v where kv: "kv = (k, v)" by fastforce
    with Cons.prems(1) have "(k, v) \<in> set es" by simp
    then have "k \<in> fst ` set es" "v \<in> snd ` set es" by force+
    then have "k \<in> {MetaProtocolVersion, MetaClientCapabilities, MetaClientInfo, MetaField}" "clean 2 v"
      using assms(1) unfolding entries_ok_def by blast+
    from clean_map_update [OF Cons.prems(2) meta_keys_valid [OF this(1)] this(2)]
    have "clean_map 2 (AList.update k v m)" .
    with Cons.IH [of "AList.update k v m"] Cons.prems(1) kv show ?case by simp
  qed simp
  with assms(2) show ?thesis by (simp add: merge_entries_def)
qed

lemma meta_keys_differ:
  assumes "k \<in> set metaKeysRead" "k' \<in> {MetaProtocolVersion, MetaClientCapabilities, MetaClientInfo}" "EqualFoldKey k' k"
  shows "k' = k"
  using assms unfolding metaKeysRead_def mcp_defs
  by (elim insertE emptyE; simp add: EqualFoldKey_ascii ascii_upper_def; elim disjE; simp add: EqualFoldKey_ascii ascii_upper_def)

lemma version_json_parse: "json_parse version_json = Some (marshal_string ProtocolVersion)"
  and version_json_read: "unmarshal_string version_json = Inr ProtocolVersion"
proof -
  have v: "utf8_Valid ProtocolVersion" unfolding ProtocolVersion_def by (rule utf8_Valid_ascii) simp
  show p: "json_parse version_json = Some (marshal_string ProtocolVersion)"
    unfolding version_json_def by (rule json_parse_render) (simp_all add: marshal_string_wf [OF v])
  show "unmarshal_string version_json = Inr ProtocolVersion"
    using p marshal_string_value [OF v] by (simp add: unmarshal_string_def marshal_string_def json_null_def)
qed

lemma clean_version_json: "clean 2 version_json"
  unfolding clean_def version_json_parse by (simp add: marshal_string_def MaxParamsDepth_def)

lemma unmarshal_render_compact:
  "wf_json v \<Longrightarrow> jdepth v \<le> maxNestingDepth \<Longrightarrow> unmarshal_string (render (compact v)) = unmarshal_string (render v)"
  by (rule unmarshal_string_compact) (simp_all add: json_parse_render compact_parse)

lemma unmarshal_render: "json_parse raw = Some v \<Longrightarrow> unmarshal_string (render v) = unmarshal_string raw"
proof -
  assume p: "json_parse raw = Some v"
  then have "json_parse (render v) = Some v" unfolding json_parse_iff [of raw] by (blast intro: json_parse_render)
  with p show ?thesis by (simp add: unmarshal_string_def)
qed

lemma Raw_unambiguous: "Raw p k = Inr r \<Longrightarrow> unambiguous p k = Inr ()"
  by (cases "unambiguous p k") (simp_all add: Raw_def)

lemma name_fields_differ:
  "\<not> EqualFoldKey MetaField NameParam" "\<not> EqualFoldKey MetaField URIParam"
  "MetaField \<noteq> NameParam" "MetaField \<noteq> URIParam"
  by (simp_all add: mcp_defs EqualFoldKey_ascii ascii_upper_def)

text \<open>Reading an object that was built from a clean map and compacted on the way.\<close>

lemma built_keys:
  assumes "members_list ms = map (\<lambda>(k, raw). (k, f (parsed raw))) (sort_key fst m)" "distinct (map fst m)"
    and "\<forall>o1\<in>set (map fst m). EqualFoldKey o1 k \<longrightarrow> o1 = k"
  shows "Raw (object_map ms) k = Inr (map_option (\<lambda>raw. render (f (parsed raw))) (map_of m k))"
  using assms(3) object_map_built(1,2) [OF assms(1,2)] unambiguous_ok [of "object_map ms" k]
  by (simp add: Raw_def del: set_map)

text \<open>The params with entries merged into their \<open>_meta\<close>, marshalled: both steps succeed.\<close>

lemma rewritten_params:
  assumes "DecodeParams raw = Inr p" "raw = [] \<or> json_parse raw \<noteq> None" "Object p MetaField = Inr meta" "entries_ok es"
  obtains p0 m0 ms1 ms2 where
    "(if length raw = 0 then Inr None else unmarshal_map raw) = Inr p0" "p = (case p0 of None \<Rightarrow> [] | Some q \<Rightarrow> q)"
    "(case map_of p ''_meta'' of None \<Rightarrow> Inr None | Some r \<Rightarrow> unmarshal_map r) = Inr m0"
    "meta = (case m0 of None \<Rightarrow> [] | Some m \<Rightarrow> m)"
    "marshal_map (merge_entries es meta) = Inr (render (JObject [] ms1))"
    "json_parse (render (JObject [] ms1)) = Some (JObject [] ms1)"
    "members_list ms1 = map (\<lambda>(k, raw). (k, compact (parsed raw))) (sort_key fst (merge_entries es meta))"
    "marshal_map (AList.update ''_meta'' (render (JObject [] ms1)) p) = Inr (render (JObject [] ms2))"
    "json_parse (render (JObject [] ms2)) = Some (JObject [] ms2)"
    "members_list ms2 = map (\<lambda>(k, raw). (k, compact (parsed raw))) (sort_key fst (AList.update ''_meta'' (render (JObject [] ms1)) p))"
    "clean 0 (render (JObject [] ms2))"
proof -
  obtain p0 where p0: "(if length raw = 0 then Inr None else unmarshal_map raw) = Inr p0"
    "p = (case p0 of None \<Rightarrow> [] | Some q \<Rightarrow> q)" and cp: "clean_map 1 p"
    by (rule params_unmarshalled [OF assms(1,2)])
  obtain m0 where m0: "(case map_of p ''_meta'' of None \<Rightarrow> Inr None | Some r \<Rightarrow> unmarshal_map r) = Inr m0"
    "meta = (case m0 of None \<Rightarrow> [] | Some m \<Rightarrow> m)" and cm: "clean_map 2 meta"
    by (rule meta_unmarshalled [OF assms(3) cp])
  have c2: "clean_map (Suc 1) (merge_entries es meta)"
    using merge_entries_clean [OF assms(4) cm] by (simp add: numeral_2_eq_2)
  obtain ms1 where ms1: "marshal_map (merge_entries es meta) = Inr (render (JObject [] ms1))"
    "json_parse (render (JObject [] ms1)) = Some (JObject [] ms1)"
    "members_list ms1 = map (\<lambda>(k, raw). (k, compact (parsed raw))) (sort_key fst (merge_entries es meta))"
    "clean 1 (render (JObject [] ms1))"
    by (rule marshal_clean_map [OF c2]) (auto simp: MaxParamsDepth_def)
  have c1: "clean_map (Suc 0) (AList.update ''_meta'' (render (JObject [] ms1)) p)"
    using clean_map_update [OF cp _ ms1(4), of "''_meta''"] meta_keys_valid [of MetaField] by (simp add: MetaField_def)
  obtain ms2 where "marshal_map (AList.update ''_meta'' (render (JObject [] ms1)) p) = Inr (render (JObject [] ms2))"
    "json_parse (render (JObject [] ms2)) = Some (JObject [] ms2)"
    "members_list ms2 = map (\<lambda>(k, raw). (k, compact (parsed raw))) (sort_key fst (AList.update ''_meta'' (render (JObject [] ms1)) p))"
    "clean 0 (render (JObject [] ms2))"
    by (rule marshal_clean_map [OF c1]) (auto simp: MaxParamsDepth_def)
  with p0 m0 ms1(1-3) show ?thesis by (rule that)
qed

text \<open>A rewritten request names what the original named, and carries the version that was written into it.\<close>

lemma built_name:
  assumes ms: "members_list ms = map (\<lambda>(k, raw). (k, (compact \<circ> compact) (parsed raw))) (sort_key fst (AList.update ''_meta'' x p))"
    and cp: "clean_map 1 p" and nm: "params_Name p meth = Inr nm"
  shows "params_Name (object_map ms) meth = Inr nm"
proof (cases nm)
  case None
  with nm show ?thesis by (simp add: params_Name_None)
next
  case (Some n)
  let ?ps = "AList.update ''_meta'' x p" and ?f = "NameField meth"
  have d: "distinct (map fst ?ps)" using cp by (simp add: clean_map_def distinct_update)
  from Some nm have f: "?f \<noteq> []" "params_String p ?f = Inr n" by (simp_all add: params_Name_Inr)
  then have "\<not> EqualFoldKey ''_meta'' ?f" "''_meta'' \<noteq> ?f"
    using NameField_cases [of meth] name_fields_differ unfolding MetaField_def by metis+
  moreover have "unambiguous p ?f = Inr ()" and raw: "Raw p ?f = Inr (map_of p ?f)"
    using f(2) by (auto simp: params_String_def Raw_def split: sum.splits)
  ultimately have "\<forall>o1\<in>set (map fst ?ps). EqualFoldKey o1 ?f \<longrightarrow> o1 = ?f" and "map_of ?ps ?f = map_of p ?f"
    unfolding unambiguous_ok by (auto simp: update_conv' update_keys_image)
  with built_keys [OF ms d, of ?f]
  have raw': "Raw (object_map ms) ?f = Inr (map_option (\<lambda>raw. render (compact (compact (parsed raw)))) (map_of p ?f))"
    by simp
  have "unmarshal_string (render (compact (compact (parsed r)))) = unmarshal_string r" if "map_of p ?f = Some r" for r
  proof -
    from that cp have "clean 1 r" by (simp add: clean_map_def)
    then obtain v where v: "json_parse r = Some v" by (auto simp: clean_def)
    then have "wf_json v" "jdepth v \<le> maxNestingDepth" by (simp_all add: json_parse_iff)
    with v unmarshal_render [OF v] show ?thesis by (simp add: unmarshal_render_compact compact_wf)
  qed
  then have "params_String (object_map ms) ?f = Inr n"
    using f(2) raw raw' by (auto simp: params_String_def split: option.splits)
  with f(1) Some show ?thesis by (simp add: params_Name_Inr)
qed

lemma built_version:
  assumes ms: "members_list ms = map (\<lambda>(k, raw). (k, (compact \<circ> compact \<circ> compact) (parsed raw))) (sort_key fst (merge_entries es meta))"
    and d: "distinct (map fst (merge_entries es meta))" "distinct (map fst es)"
    and "\<forall>o1\<in>set (map fst (merge_entries es meta)). EqualFoldKey o1 MetaProtocolVersion \<longrightarrow> o1 = MetaProtocolVersion"
    and es: "map_of es MetaProtocolVersion = Some version_json" and obj: "Object p MetaField = Inr (object_map ms)"
  shows "params_ProtocolVersion p = Inr ProtocolVersion"
proof -
  from built_keys [OF ms d(1) assms(4)]
  have "Raw (object_map ms) MetaProtocolVersion = Inr (Some (render (compact (compact (compact (marshal_string ProtocolVersion))))))"
    using es d(2) by (simp add: merge_entries_map_of version_json_parse)
  moreover have "wf_json (marshal_string ProtocolVersion)" "jdepth (marshal_string ProtocolVersion) = 0"
    using version_json_parse by (simp_all add: json_parse_iff)
  ultimately show ?thesis
    using unmarshal_render [OF version_json_parse] version_json_read
    by (simp add: params_ProtocolVersion_def obj params_String_def unmarshal_render_compact compact_wf)
qed

text \<open>
  A body the shim rewrites is a request that carries the same id and method, and whose params have every
  readable string they had, and in \<open>_meta\<close> the injected version.
\<close>

lemma injected_request:
  assumes dec: "Decode line = Inr msg" "Kind msg = KindRequest"
    and p: "DecodeParams (raw_bytes (msg_params msg)) = Inr p" "CheckReadableMeta p = Inr ()"
    and es: "entries_ok es" "map_of es MetaProtocolVersion = Some version_json"
    and nm: "params_Name p (Method msg) = Inr nm"
  obtains body msg' p' where "injectMeta msg es = Some body" "Decode body = Inr msg'" "Kind msg' = KindRequest"
    "Method msg' = Method msg" "DecodeParams (raw_bytes (msg_params msg')) = Inr p'" "CheckReadableMeta p' = Inr ()"
    "params_Name p' (Method msg) = Inr nm" "params_ProtocolVersion p' = Inr ProtocolVersion"
proof -
  let ?raw = "raw_bytes (msg_params msg)"
  have mf: "MetaField = ''_meta''" by (simp add: MetaField_def)
  from dec(1) have "unmarshal_message line = Inr msg" by (simp add: Decode_Inr)
  from unmarshal_message_ok [OF this] have "?raw = [] \<or> json_parse ?raw \<noteq> None" by (auto simp: message_ok_def raw_ok_def raw_bytes_def split: option.splits)
  then have raw: "?raw = [] \<or> json_parse ?raw \<noteq> None" .
  obtain cp: "clean_map 1 p" and inj: "inj_on foldKey (set (map fst p))"
    by (rule params_unmarshalled [OF p(1) raw]) blast
  obtain meta where meta: "Object p MetaField = Inr meta" "\<forall>k\<in>set metaKeysRead. unambiguous meta k = Inr ()"
    using p(2) by (auto simp: CheckReadableMeta_def unambiguous_all_ok split: sum.splits)
  obtain cm: "clean_map 2 meta" and um: "\<forall>k\<in>set (map fst p). EqualFoldKey k MetaField \<longrightarrow> k = MetaField"
    by (rule meta_unmarshalled [OF meta(1) cp]) blast
  obtain p0 m0 ms1 ms2 where p0: "(if length ?raw = 0 then Inr None else unmarshal_map ?raw) = Inr p0"
      "p = (case p0 of None \<Rightarrow> [] | Some q \<Rightarrow> q)"
    and m0: "(case map_of p ''_meta'' of None \<Rightarrow> Inr None | Some r \<Rightarrow> unmarshal_map r) = Inr m0"
      "meta = (case m0 of None \<Rightarrow> [] | Some m \<Rightarrow> m)"
    and ms1: "marshal_map (merge_entries es meta) = Inr (render (JObject [] ms1))"
      "json_parse (render (JObject [] ms1)) = Some (JObject [] ms1)"
      "members_list ms1 = map (\<lambda>(k, raw). (k, compact (parsed raw))) (sort_key fst (merge_entries es meta))"
    and ms2: "marshal_map (AList.update ''_meta'' (render (JObject [] ms1)) p) = Inr (render (JObject [] ms2))"
      "json_parse (render (JObject [] ms2)) = Some (JObject [] ms2)"
      "members_list ms2 = map (\<lambda>(k, raw). (k, compact (parsed raw))) (sort_key fst (AList.update ''_meta'' (render (JObject [] ms1)) p))"
      "clean 0 (render (JObject [] ms2))"
    by (rule rewritten_params [OF p(1) raw meta(1) es(1)])
  let ?merged = "merge_entries es meta" and ?ps = "AList.update ''_meta'' (render (JObject [] ms1)) p"
  have dm: "distinct (map fst ?merged)" using merge_entries_clean [OF es(1) cm] by (simp add: clean_map_def)
  have dps: "distinct (map fst ?ps)" using cp by (simp add: clean_map_def distinct_update)
  define out where "out = zero_message\<lparr>JSONRPC := ''2.0'', ID := ID msg, Method := Method msg,
    msg_params := Some (render (JObject [] ms2))\<rparr>"
  have depth: "jdepth (JObject [] ms2) \<le> MaxParamsDepth" "distinct_keys (JObject [] ms2)"
    using ms2(2,4) by (auto simp: clean_def)
  have "wf_json (JObject [] ms2)" using ms2(2) by (simp add: json_parse_iff)
  from render_length [OF this] have fits: "message_fits out"
    using Decode_fits [OF dec(1)] ms2(2) depth(1) MaxParamsDepth_below
    by (simp add: out_def message_fits_def zero_message_def error_fits_def raw_fits_def)
  have k: "Kind out = KindRequest" using dec(2) by (auto simp: out_def Kind_def HasID_def zero_message_def split: if_splits)
  obtain body where body: "Encode out = Inr body" by (rule Encode_unmarshal [OF fits])
  have dbody: "Decode body = Inr (canonical out)"
    by (rule Decode_Encode_canonical [OF fits _ body]) (simp add: k)
  let ?T = "render (compact (JObject [] ms2))" and ?ms3 = "compact_members ms2"
  have wf2: "wf_json (JObject [] ms2)" using ms2(2) by (simp add: json_parse_iff)
  have T: "json_parse ?T = Some (JObject [] ?ms3)"
    using compact_parse [OF wf2] depth(1) MaxParamsDepth_below by simp
  have params: "raw_bytes (msg_params (canonical out)) = ?T"
    using ms2(2) by (simp add: canonical_def out_def zero_message_def compact_raw_def raw_bytes_def)
  have ms3: "members_list ?ms3 = map (\<lambda>(k, raw). (k, (compact \<circ> compact) (parsed raw))) (sort_key fst ?ps)"
    using wf2 ms2(3) by (simp add: members_list_compact comp_def case_prod_beta)
  let ?p' = "object_map ?ms3"
  have keys: "set (map fst ?ps) = insert ''_meta'' (set (map fst p))" by (simp add: update_keys_image)
  have "EqualFoldKey a b \<Longrightarrow> a = b" if "a \<in> set (map fst ?ps)" "b \<in> set (map fst ?ps)" for a b
    using that inj um EqualFoldKey_sym unfolding keys EqualFoldKey_foldKey inj_on_def mf by blast
  then have injp: "inj_on foldKey (set (map fst ?ps))" by (auto simp: inj_on_def EqualFoldKey_foldKey)
  have p': "DecodeParams ?T = Inr ?p'"
    unfolding DecodeParams_object [OF T] scanUnambiguous_iff [OF T]
    using depth wf2 injp object_map_built(2,3) [OF ms3 dps] case_unique_iff [OF object_map_distinct, of ?ms3]
    by (simp del: set_map)
  have meta_um: "\<forall>o1\<in>set (map fst ?ps). EqualFoldKey o1 MetaField \<longrightarrow> o1 = MetaField" using um keys by (auto simp: mf)
  let ?ms4 = "compact_members (compact_members ms1)"
  have wf1: "wf_json (JObject [] ms1)" using ms1(2) by (simp add: json_parse_iff)
  have ms4: "members_list ?ms4 = map (\<lambda>(k, raw). (k, (compact \<circ> compact \<circ> compact) (parsed raw))) (sort_key fst ?merged)"
    using wf1 ms1(3) by (simp add: members_list_compact compact_wf comp_def case_prod_beta)
  have "Raw ?p' MetaField = Inr (Some (render (compact (compact (JObject [] ms1)))))"
    using built_keys [OF ms3 dps meta_um] ms1(2) by (simp add: mf update_conv')
  moreover have "json_parse (render (compact (compact (JObject [] ms1)))) = Some (JObject [] ?ms4)"
    using compact_parse [of "compact (JObject [] ms1)"] wf1 ms1(2) by (simp add: compact_wf json_parse_iff)
  ultimately have obj: "Object ?p' MetaField = Inr (object_map ?ms4)"
    by (simp add: Object_def unmarshal_map_def)
  have mk: "\<forall>o1\<in>set (map fst ?merged). EqualFoldKey o1 k \<longrightarrow> o1 = k" if "k \<in> set metaKeysRead" for k
    using meta(2) that meta_keys_differ [OF that] es(1) unfolding merge_entries_keys
    by (auto simp: unambiguous_ok entries_ok_def)
  have "CheckReadableMeta ?p' = Inr ()"
    unfolding CheckReadableMeta_def obj
    using Raw_unambiguous [OF built_keys [OF ms4 dm mk]] by (simp add: unambiguous_all_ok)
  moreover have "params_Name ?p' (Method msg) = Inr nm" by (rule built_name [OF ms3 cp nm])
  moreover have "params_ProtocolVersion ?p' = Inr ProtocolVersion"
    using es dm by (intro built_version [OF ms4 dm _ mk es(2) obj]) (simp_all add: entries_ok_def metaKeysRead_def)
  moreover have "injectMeta msg es = Some body"
    unfolding injectMeta_def Let_def p0(1) sum.case p0(2) [symmetric] m0(1) m0(2) [symmetric] ms1(1) ms2(1)
      out_def [symmetric] body by simp
  ultimately show ?thesis
    using dbody k p' Kind_canonical [OF fits] params by (intro that [of body "canonical out" ?p']) (simp_all add: canonical_def out_def)
qed


section \<open>The gateway accepts what the shim sends\<close>

text \<open>A legacy identity that a gateway can read: each part missing or clean.\<close>

definition identity_ok :: "legacyClient \<Rightarrow> bool" where
  "identity_ok l = ((isEmptyJSON (clientCaps l) \<or> clean 2 (clientCaps l)) \<and> (isEmptyJSON (clientInfo l) \<or> clean 2 (clientInfo l)))"

lemma entries_ok_version: "entries_ok [(MetaProtocolVersion, version_json)]"
  by (simp add: entries_ok_def clean_version_json)

lemma clean_empty_object: "clean 2 ''{}''"
proof -
  have "json_parse ''{}'' = Some (JObject [] MNil)" by code_simp
  then show ?thesis by (simp add: clean_def MaxParamsDepth_def)
qed

lemma entries_ok_legacyMeta: "identity_ok l \<Longrightarrow> entries_ok (legacyMeta l)"
  using clean_version_json clean_empty_object
  by (auto simp: entries_ok_def legacyMeta_def identity_ok_def mcp_defs)

lemma legacyMeta_version: "map_of (legacyMeta l) MetaProtocolVersion = Some version_json"
  by (simp add: legacyMeta_def)

lemma request_headers_get:
  "Header_Get (request_headers c rq) HeaderMethod = rq_Method rq"
  "Header_Get (request_headers c rq) HeaderName = (if rq_Name rq = [] then [] else EncodeHeaderValue (rq_Name rq))"
  "Header_Get (request_headers c rq) HeaderProtocolVersion = EncodeHeaderValue (rq_ProtocolVersion rq)"
  by (simp_all add: Header_Get_def request_headers_def HeaderWire_def HeaderAcceptClaim_def mcp_defs)

lemma EncodeHeaderValue_Nil: "EncodeHeaderValue [] = []"
  by code_simp

text \<open>What a request leaves the shim with.\<close>

lemma sent_request:
  assumes "Decode line = Inr msg" "Kind msg = KindRequest" "handleRequest server legacy msg line = Send rq"
    and "DecodeParams (raw_bytes (msg_params msg)) = Inr p" "CheckReadableMeta p = Inr ()"
    and "case legacy of None \<Rightarrow> True | Some l \<Rightarrow> identity_ok l"
  obtains msg' p' nm where "Decode (rq_Body rq) = Inr msg'" "Kind msg' = KindRequest" "Method msg' = rq_Method rq"
    "DecodeParams (raw_bytes (msg_params msg')) = Inr p'" "CheckReadableMeta p' = Inr ()"
    "params_Name p' (rq_Method rq) = Inr nm" "rq_Name rq = raw_bytes nm"
    "params_ProtocolVersion p' = Inr (rq_ProtocolVersion rq)" "rq_Method rq = Method msg" "rq_Server rq = server"
proof -
  note result = that
  from assms(3,4) obtain ver0 nm where v: "params_ProtocolVersion p = Inr ver0" and nm: "params_Name p (Method msg) = Inr nm"
    by (auto simp: handleRequest_def Let_def split: if_splits sum.splits option.splits)
  have inj: thesis if es: "entries_ok es" "map_of es MetaProtocolVersion = Some version_json"
    and rq: "rq = \<lparr>rq_Server = server, rq_Method = Method msg, rq_Name = raw_bytes nm, rq_ProtocolVersion = ProtocolVersion,
       rq_Body = (case injectMeta msg es of None \<Rightarrow> line | Some b \<Rightarrow> b)\<rparr>" for es
  proof -
    obtain body msg' p' where "injectMeta msg es = Some body" "Decode body = Inr msg'" "Kind msg' = KindRequest"
      "Method msg' = Method msg" "DecodeParams (raw_bytes (msg_params msg')) = Inr p'" "CheckReadableMeta p' = Inr ()"
      "params_Name p' (Method msg) = Inr nm" "params_ProtocolVersion p' = Inr ProtocolVersion"
      by (rule injected_request [OF assms(1,2,4,5) es nm])
    with rq show thesis by (intro result [of msg' p' nm]) simp_all
  qed
  show ?thesis
  proof (cases legacy)
    case (Some l)
    with assms(3,4) v nm have rq: "rq = \<lparr>rq_Server = server, rq_Method = Method msg, rq_Name = raw_bytes nm,
        rq_ProtocolVersion = ProtocolVersion, rq_Body = (case injectMeta msg (legacyMeta l) of None \<Rightarrow> line | Some b \<Rightarrow> b)\<rparr>"
      by (auto simp: handleRequest_def Let_def legacyMeta_def split: if_splits)
    have "entries_ok (legacyMeta l)" using entries_ok_legacyMeta Some assms(6) by simp
    then show ?thesis using legacyMeta_version rq by (rule inj)
  next
    case None
    show ?thesis
    proof (cases "ver0 = []")
      case True
      with assms(3,4) v nm None have rq: "rq = \<lparr>rq_Server = server, rq_Method = Method msg, rq_Name = raw_bytes nm,
          rq_ProtocolVersion = ProtocolVersion,
          rq_Body = (case injectMeta msg [(MetaProtocolVersion, version_json)] of None \<Rightarrow> line | Some b \<Rightarrow> b)\<rparr>"
        by (auto simp: handleRequest_def Let_def split: if_splits)
      show ?thesis by (rule inj [OF entries_ok_version _ rq]) simp
    next
      case False
      with assms(3,4) v nm None have "rq = \<lparr>rq_Server = server, rq_Method = Method msg, rq_Name = raw_bytes nm,
          rq_ProtocolVersion = ver0, rq_Body = line\<rparr>"
        by (auto simp: handleRequest_def Let_def split: if_splits)
      with assms(1,2,4,5) v nm show ?thesis by (intro result [of msg p nm]) simp_all
    qed
  qed
qed


text \<open>
  C4. What the shim sends, the gateway accepts.  A request that a client writes on the shim's stdin and
  the shim sends on the wire, with the version or the identity of a legacy client written into its
  body where need be, passes the gateway's integrity check under the name the shim took from it,
  provided that the client's \<open>_meta\<close> can be read unambiguously, that a named request has a name, that
  a version the client chose itself is a supported one and that a legacy client's identity can be read.
\<close>

theorem shim_requests_are_accepted:
  assumes "Decode line = Inr msg" "Kind msg = KindRequest" "handleRequest server legacy msg line = Send rq"
    and "DecodeParams (raw_bytes (msg_params msg)) = Inr p" "CheckReadableMeta p = Inr ()"
    and "NameField (Method msg) = [] \<or> rq_Name rq \<noteq> []" "IsSupportedProtocolVersion (rq_ProtocolVersion rq)"
    and "case legacy of None \<Rightarrow> True | Some l \<Rightarrow> identity_ok l"
    and "Do_message hsize limit c rq = Inr m" "ParseSubject (pm_subject m) (c_prefix c) = Inr subj"
  shows "\<exists>msg'. Decode (pm_data m) = Inr msg' \<and>
    Check \<lparr>in_msg = msg', in_subject = subj, hdr = Header_Get (pm_header m)\<rparr> = Inr (rq_Name rq)"
proof -
  obtain msg' p' nm where sent: "Decode (rq_Body rq) = Inr msg'" "Kind msg' = KindRequest" "Method msg' = rq_Method rq"
    "DecodeParams (raw_bytes (msg_params msg')) = Inr p'" "CheckReadableMeta p' = Inr ()"
    "params_Name p' (rq_Method rq) = Inr nm" "rq_Name rq = raw_bytes nm"
    "params_ProtocolVersion p' = Inr (rq_ProtocolVersion rq)" "rq_Method rq = Method msg"
    by (rule sent_request [OF assms(1-5,8)])
  from assms(9) have m: "pm_header m = request_headers c rq" "pm_data m = rq_Body rq"
    "BuildSubject (c_prefix c) (c_tenant c) (c_user c) (rq_Server rq) (rq_Method rq) (raw_bytes nm) = Inr (pm_subject m)"
    using sent(7) by (auto simp: Do_message_def Let_def split: sum.splits if_splits)
  have "nm \<noteq> Some []"
    using assms(6) sent(6,7,9) params_Name_None by (auto simp: raw_bytes_def params_Name_Inr)
  then have "Check \<lparr>in_msg = msg', in_subject = subj, hdr = Header_Get (pm_header m)\<rparr> = Inr (raw_bytes nm)"
    using sent m assms(7,10)
    by (intro Check_accepts_honest [of _ "rq_Method rq" p' nm "rq_ProtocolVersion rq" "c_prefix c" "c_tenant c" "c_user c"
        "rq_Server rq" "pm_subject m"])
      (simp_all add: request_headers_get EncodeHeaderValue_Nil)
  with sent(1,7) m(2) show ?thesis by auto
qed


section \<open>A request without a version\<close>

definition ex_line :: bytes where
  "ex_line = json_text ''{~jsonrpc~:~2.0~,~id~:1,~method~:~tools/call~,~params~:{~name~:~get_issue~}}''"

definition ex_request :: message where
  "ex_request = zero_message\<lparr>JSONRPC := ''2.0'', ID := Some ''1'', Method := ''tools/call'',
     msg_params := Some (json_text ''{~name~:~get_issue~}'')\<rparr>"

definition ex_sent :: request where
  "ex_sent = \<lparr>rq_Server = ''gh'', rq_Method = ''tools/call'', rq_Name = ''get_issue'', rq_ProtocolVersion = ProtocolVersion,
     rq_Body = (case injectMeta ex_request [(MetaProtocolVersion, version_json)] of None \<Rightarrow> ex_line | Some b \<Rightarrow> b)\<rparr>"

lemma ex_bare_params: "DecodeParams (json_text ''{~name~:~get_issue~}'') = Inr [(''name'', json_text ''~get_issue~'')]"
proof -
  have p: "json_parse (json_text ''{~name~:~get_issue~}'') =
      Some (JObject [] (MCons [] ''name'' [] [] (JString ''get_issue'') [] MNil))"
    by code_simp
  have "scanUnambiguous (json_text ''{~name~:~get_issue~}'') = Inr ()"
    by (simp add: scanUnambiguous_iff [OF p] MaxParamsDepth_def)
  then show ?thesis
    by (intro DecodeParams_object [OF p, THEN iffD2])
      (simp add: object_map_def ex_unquoted json_text_def checkCaseUnique_ok)
qed

lemma ex_bare_reads:
  "Object [(''name'', json_text ''~get_issue~'')] MetaField = Inr []"
  "params_Name [(''name'', json_text ''~get_issue~'')] ''tools/call'' = Inr (Some ''get_issue'')"
proof -
  show "Object [(''name'', json_text ''~get_issue~'')] MetaField = Inr []"
    by (simp add: Object_def Raw_def unambiguous_def MetaField_def EqualFoldKey_ascii ascii_upper_def)
  have "Raw [(''name'', json_text ''~get_issue~'')] ''name'' = Inr (Some (json_text ''~get_issue~''))"
    by (simp add: Raw_def unambiguous_def)
  then show "params_Name [(''name'', json_text ''~get_issue~'')] ''tools/call'' = Inr (Some ''get_issue'')"
    by (simp add: params_Name_def NameField_def mcp_defs params_String_def unmarshal_string_def ex_strings ex_unquoted json_null_def)
qed

theorem shim_requests_are_accepted_witness:
  "\<exists>msg' subj h. Decode (rq_Body ex_sent) = Inr msg' \<and>
     Check \<lparr>in_msg = msg', in_subject = subj, hdr = h\<rparr> = Inr ''get_issue''"
proof -
  let ?p = "[(''name'', json_text ''~get_issue~'')]"
  let ?c = "\<lparr>c_prefix = '''', c_tenant = ''acme'', c_user = '''', c_inactivity = 1, c_claims = False\<rparr>"
  let ?m = "\<lparr>pm_subject = ''mcp.v1.req.acme._.gh.tools.call.get_issue'', pm_header = request_headers ?c ex_sent,
     pm_data = rq_Body ex_sent\<rparr>"
  have d: "Decode ex_line = Inr ex_request" by code_simp
  have k: "Kind ex_request = KindRequest" by (simp add: ex_request_def Kind_def HasID_def zero_message_def)
  have p: "DecodeParams (raw_bytes (msg_params ex_request)) = Inr ?p"
    by (simp add: ex_request_def raw_bytes_def ex_bare_params)
  have r: "CheckReadableMeta ?p = Inr ()"
    by (simp add: CheckReadableMeta_def ex_bare_reads unambiguous_all_ok unambiguous_def)
  have v: "params_ProtocolVersion ?p = Inr []"
    by (simp add: params_ProtocolVersion_def ex_bare_reads params_String_def Raw_def unambiguous_def)
  have "strings_TrimSpace ''1'' = ''1''" by (simp add: TrimSpace_visible)
  then have h: "handleRequest ''gh'' None ex_request ex_line = Send ex_sent"
    unfolding handleRequest_def p using ex_bare_reads(2) v
    by (simp add: ex_request_def ex_sent_def raw_bytes_def nullID_def mcp_defs)
  have "BuildSubject '''' ''acme'' '''' ''gh'' ''tools/call'' ''get_issue'' = Inr ''mcp.v1.req.acme._.gh.tools.call.get_issue''"
    by code_simp
  then have m: "Do_message (\<lambda>_. 0) (length (rq_Body ex_sent)) ?c ex_sent = Inr ?m"
    by (simp add: Do_message_def ex_sent_def)
  obtain subj where s: "ParseSubject (pm_subject ?m) (c_prefix ?c) = Inr subj"
    using Parse_Build [of "''''" "''acme''" "''''" "''gh''" "''tools/call''" "''get_issue''" "pm_subject ?m"] \<open>BuildSubject _ _ _ _ _ _ = _\<close>
    by simp
  have "IsSupportedProtocolVersion (rq_ProtocolVersion ex_sent)"
    by (simp add: ex_sent_def IsSupportedProtocolVersion_def SupportedProtocolVersions_def)
  from shim_requests_are_accepted [OF d k h p r _ this _ m s] show ?thesis
    by (auto simp: ex_sent_def)
qed

end
