(* ===== verification/Call.thy ===== *)
theory Call
  imports ShimCheck Boot
begin

text \<open>
  The two client commands (\<open>cmd/call.go\<close>, \<open>cmd/shim.go\<close> and their flags in \<open>cmd/cli.go\<close>): the request
  that \<open>natsmcp call\<close> builds from its flags, the client both commands open the wire with, and what is
  printed of the reply.  The connection to NATS is a parameter.
\<close>

section \<open>The request of a call\<close>

record CallCmd =
  ca_Server :: bytes
  ca_Method :: bytes
  ca_Params :: bytes
  ca_NatsURL :: bytes
  ca_Creds :: bytes
  ca_Tenant :: bytes
  ca_User :: bytes
  ca_SubjectPrefix :: bytes
  ca_InboxPrefix :: bytes
  ca_AcceptClaims :: bool

text \<open>The params with the protocol version in their \<open>_meta\<close>; a \<open>_meta\<close> that is no object is replaced.\<close>

definition call_meta :: "raw_map \<Rightarrow> raw_map" where
  "call_meta p =
     (case map_of p ''_meta'' of
        None \<Rightarrow> []
      | Some raw \<Rightarrow> (case unmarshal_map raw of Inr (Some m) \<Rightarrow> m | _ \<Rightarrow> []))"

definition call_params :: "raw_map \<Rightarrow> bytes" where
  "call_params p =
     (let metaRaw = or_nil (marshal_map (AList.update MetaProtocolVersion version_json (call_meta p)))
      in or_nil (marshal_map (AList.update ''_meta'' metaRaw p)))"

text \<open>\<open>json.Marshal\<close> of the map with the four members: sorted keys, and a nil raw message is \<open>null\<close>.\<close>

definition call_body :: "bytes \<Rightarrow> bytes \<Rightarrow> bytes" where
  "call_body meth paramsRaw =
     or_nil (bind_err (if paramsRaw = [] then Inr json_null else marshal_raw paramsRaw) (\<lambda>ps.
       Inr (render (mk_object [(''id'', marshal_string ''cli-1''), (''jsonrpc'', marshal_string ''2.0''),
         (''method'', marshal_string meth), (''params'', ps)]))))"

definition buildCallRequest :: "CallCmd \<Rightarrow> params_error + request" where
  "buildCallRequest c =
     (case DecodeParams (ca_Params c) of
        Inl e \<Rightarrow> Inl e
      | Inr p \<Rightarrow>
          (let body = call_body (ca_Method c) (call_params p) in
           case params_Name p (ca_Method c) of
             Inl e \<Rightarrow> Inl e
           | Inr nm \<Rightarrow>
               Inr \<lparr>rq_Server = ca_Server c, rq_Method = ca_Method c, rq_Name = raw_bytes nm,
                 rq_ProtocolVersion = ProtocolVersion, rq_Body = body\<rparr>))"

section \<open>A call is what the shim would send\<close>

lemma call_id: "json_parse (json_text ''~cli-1~'') = Some (marshal_string ''cli-1'')"
    "render (marshal_string ''cli-1'') = json_text ''~cli-1~''" "compact (marshal_string ''cli-1'') = marshal_string ''cli-1''"
  by code_simp+

lemma call_body_unmarshal:
  assumes "utf8_Valid meth" "json_parse raw = Some v" "jdepth v < maxNestingDepth"
  shows "unmarshal_message (call_body meth raw) =
    Inr (zero_message\<lparr>JSONRPC := ''2.0'', ID := Some (json_text ''~cli-1~''), Method := meth, msg_params := compact_raw (Some raw)\<rparr>)"
proof -
  have "wf_json v" using assms(2) by (simp add: json_parse_iff)
  then have v: "wf_json (compact v)" "jdepth (compact v) < maxNestingDepth" using assms(3) by (simp_all add: compact_wf)
  have u: "utf8_Valid ''2.0''" "utf8_Valid ''cli-1''" by (rule utf8_Valid_ascii; simp)+
  let ?kvs = "[(''id'', marshal_string ''cli-1''), (''jsonrpc'', marshal_string ''2.0''),
         (''method'', marshal_string meth), (''params'', compact v)]"
  have ok: "fields_ok ?kvs"
    using v u assms(1) by (simp add: field_keys marshal_string_wf maxNestingDepth_def)
  have "json_parse [] = None" by code_simp
  with assms(2) have "raw \<noteq> []" by force
  then have "call_body meth raw = render (mk_object ?kvs)"
    using assms(2) by (simp add: call_body_def or_nil_def marshal_raw_def)
  with unmarshal_mk_object [OF ok] show ?thesis
    using assms u v by (simp add: field_keys field_names call_id(2) compact_raw_def zero_message_def)
qed

text \<open>The body of a call is what \<open>injectMeta\<close> makes of the client's message, up to the order of its members.\<close>

lemma call_body_injects:
  assumes "Decode line = Inr msg" "Kind msg = KindRequest" "ID msg = Some (json_text ''~cli-1~'')" "Method msg = ca_Method c"
    and "raw_bytes (msg_params msg) = ca_Params c" "DecodeParams (ca_Params c) = Inr p" "Object p MetaField = Inr meta"
  obtains body where "injectMeta msg [(MetaProtocolVersion, version_json)] = Some body"
    "Decode (call_body (ca_Method c) (call_params p)) = Decode body"
proof -
  let ?es = "[(MetaProtocolVersion, version_json)]"
  have "unmarshal_message line = Inr msg" using assms(1) by (simp add: Decode_Inr)
  from unmarshal_message_ok [OF this] have raw: "ca_Params c = [] \<or> json_parse (ca_Params c) \<noteq> None"
    using assms(5) by (auto simp: message_ok_def raw_ok_def raw_bytes_def split: option.splits)
  obtain p0 m0 ms1 ms2 where p0: "(if length (ca_Params c) = 0 then Inr None else unmarshal_map (ca_Params c)) = Inr p0"
      "p = (case p0 of None \<Rightarrow> [] | Some q \<Rightarrow> q)"
    and m0: "(case map_of p ''_meta'' of None \<Rightarrow> Inr None | Some r \<Rightarrow> unmarshal_map r) = Inr m0"
      "meta = (case m0 of None \<Rightarrow> [] | Some m \<Rightarrow> m)"
    and ms1: "marshal_map (merge_entries ?es meta) = Inr (render (JObject [] ms1))"
    and ms2: "marshal_map (AList.update ''_meta'' (render (JObject [] ms1)) p) = Inr (render (JObject [] ms2))"
      "json_parse (render (JObject [] ms2)) = Some (JObject [] ms2)" "clean 0 (render (JObject [] ms2))"
    by (rule rewritten_params [OF assms(6) raw assms(7) entries_ok_version]) blast
  have "call_meta p = meta" using m0 by (auto simp: call_meta_def split: option.splits)
  with ms1 ms2(1) have cp: "call_params p = render (JObject [] ms2)"
    by (simp add: call_params_def or_nil_def merge_entries_def)
  define out where "out = zero_message\<lparr>JSONRPC := ''2.0'', ID := ID msg, Method := Method msg,
    msg_params := Some (render (JObject [] ms2))\<rparr>"
  have depth: "jdepth (JObject [] ms2) < maxNestingDepth"
    using ms2(2,3) MaxParamsDepth_below by (auto simp: clean_def)
  have u: "utf8_Valid (ca_Method c)" using Decode_fits(2) [OF assms(1)] assms(4) by simp
  have "wf_json (JObject [] ms2)" using ms2(2) by (simp add: json_parse_iff)
  from render_length [OF this] have fits: "message_fits out"
    using Decode_fits [OF assms(1)] ms2(2) depth
    by (simp add: out_def message_fits_def zero_message_def error_fits_def raw_fits_def)
  have k: "Kind out = KindRequest" using assms(2) by (auto simp: out_def Kind_def HasID_def zero_message_def split: if_splits)
  obtain body where body: "Encode out = Inr body" by (rule Encode_unmarshal [OF fits])
  have shim: "injectMeta msg ?es = Some body"
    unfolding injectMeta_def Let_def assms(5) p0(1) sum.case p0(2) [symmetric] m0(1) m0(2) [symmetric] ms1 ms2(1)
      out_def [symmetric] body by simp
  have "unmarshal_message (call_body (ca_Method c) (call_params p)) = Inr (canonical out)"
    unfolding cp call_body_unmarshal [OF u ms2(2) depth] using assms(3,4) call_id
    by (simp add: out_def canonical_def zero_message_def compact_raw_def)
  then have "Decode (call_body (ca_Method c) (call_params p)) = Inr (canonical out)"
    using Kind_canonical [OF fits] k by (simp add: Decode_Inr canonical_def)
  moreover have "Decode body = Inr (canonical out)"
    by (rule Decode_Encode_canonical [OF fits _ body]) (simp add: k)
  ultimately show ?thesis using shim by (intro that [of body]) simp_all
qed

text \<open>
  C23. What the debugging command sends, against what a real client's shim sends.  Whenever the shim puts
  a client's request on the wire, \<open>natsmcp call\<close> with the same server, method and params publishes a
  request for the same server, method and name, whose body decodes to the client's message with the
  version of this build written into its \<open>_meta\<close>.  When the client's params name no version, that is the
  shim's request: the same version, and a body that decodes to the same message.  When they name
  one, the shim sends the client's version and its line as it came, and the command sends this build's.
\<close>

theorem call_sends_what_the_shim_sends:
  assumes "Decode line = Inr msg" "Kind msg = KindRequest" "ID msg = Some (json_text ''~cli-1~'')" "Method msg = ca_Method c"
    and "raw_bytes (msg_params msg) = ca_Params c" "handleRequest (ca_Server c) None msg line = Send rq"
  shows "\<exists>p v rq' body. DecodeParams (ca_Params c) = Inr p \<and> params_ProtocolVersion p = Inr v \<and>
    buildCallRequest c = Inr rq' \<and>
    rq_Server rq' = rq_Server rq \<and> rq_Method rq' = rq_Method rq \<and> rq_Name rq' = rq_Name rq \<and>
    rq_ProtocolVersion rq' = ProtocolVersion \<and>
    injectMeta msg [(MetaProtocolVersion, version_json)] = Some body \<and> Decode (rq_Body rq') = Decode body \<and>
    (if v = [] then rq_ProtocolVersion rq = ProtocolVersion \<and> Decode (rq_Body rq) = Decode (rq_Body rq')
     else rq_ProtocolVersion rq = v \<and> rq_Body rq = line)"
proof -
  let ?es = "[(MetaProtocolVersion, version_json)]"
  obtain p v nm where p: "DecodeParams (ca_Params c) = Inr p" "params_ProtocolVersion p = Inr v"
    and nm: "params_Name p (ca_Method c) = Inr nm"
    and rq: "rq = \<lparr>rq_Server = ca_Server c, rq_Method = ca_Method c, rq_Name = raw_bytes nm,
       rq_ProtocolVersion = (if v = [] then ProtocolVersion else v),
       rq_Body = (if v = [] then (case injectMeta msg ?es of None \<Rightarrow> line | Some b \<Rightarrow> b) else line)\<rparr>"
    using assms(4-6) by (auto simp: handleRequest_def Let_def split: if_splits sum.splits)
  obtain meta where meta: "Object p MetaField = Inr meta"
    using p(2) by (auto simp: params_ProtocolVersion_def split: sum.splits)
  obtain body where body: "injectMeta msg ?es = Some body" "Decode (call_body (ca_Method c) (call_params p)) = Decode body"
    by (rule call_body_injects [OF assms(1-5) p(1) meta])
  from p nm body rq show ?thesis
    by (intro exI [of _ p] exI [of _ v] exI [of _ "\<lparr>rq_Server = ca_Server c, rq_Method = ca_Method c, rq_Name = raw_bytes nm,
          rq_ProtocolVersion = ProtocolVersion, rq_Body = call_body (ca_Method c) (call_params p)\<rparr>"] exI [of _ body])
      (simp add: buildCallRequest_def)
qed


definition ex_call_line :: bytes where
  "ex_call_line = json_text ''{~jsonrpc~:~2.0~,~id~:~cli-1~,~method~:~tools/call~,~params~:{~name~:~get_issue~}}''"

definition ex_call :: CallCmd where
  "ex_call = \<lparr>ca_Server = ''gh'', ca_Method = ''tools/call'', ca_Params = json_text ''{~name~:~get_issue~}'', ca_NatsURL = [],
     ca_Creds = [], ca_Tenant = ''acme'', ca_User = ''_'', ca_SubjectPrefix = [], ca_InboxPrefix = [], ca_AcceptClaims = False\<rparr>"

theorem call_sends_what_the_shim_sends_witness:
  "\<exists>rq rq'. handleRequest ''gh'' None (ex_request\<lparr>ID := Some (json_text ''~cli-1~'')\<rparr>) ex_call_line = Send rq \<and>
     buildCallRequest ex_call = Inr rq' \<and> rq_Name rq' = ''get_issue'' \<and> rq_ProtocolVersion rq' = rq_ProtocolVersion rq \<and>
     Decode (rq_Body rq') = Decode (rq_Body rq)"
proof -
  let ?p = "[(''name'', json_text ''~get_issue~'')]" and ?m = "ex_request\<lparr>ID := Some (json_text ''~cli-1~'')\<rparr>"
  have d: "Decode ex_call_line = Inr ?m" by code_simp
  have k: "Kind ?m = KindRequest" by (simp add: ex_request_def Kind_def HasID_def zero_message_def json_text_def)
  have p: "DecodeParams (raw_bytes (msg_params ?m)) = Inr ?p"
    by (simp add: ex_request_def raw_bytes_def ex_bare_params)
  have v: "params_ProtocolVersion ?p = Inr []"
    by (simp add: params_ProtocolVersion_def ex_bare_reads params_String_def Raw_def unambiguous_def)
  have "strings_TrimSpace (json_text ''~cli-1~'') = json_text ''~cli-1~''" by (simp add: TrimSpace_visible json_text_def)
  then obtain rq where h: "handleRequest (ca_Server ex_call) None ?m ex_call_line = Send rq" "rq_Name rq = ''get_issue''"
    unfolding handleRequest_def p using ex_bare_reads(2) v
    by (auto simp: ex_request_def raw_bytes_def nullID_def mcp_defs ex_call_def json_text_def)
  have c: "ca_Method ex_call = Method ?m" "ca_Params ex_call = raw_bytes (msg_params ?m)" "ca_Server ex_call = ''gh''"
    by (simp_all add: ex_call_def ex_request_def raw_bytes_def)
  have i: "ID ?m = Some (json_text ''~cli-1~'')" by simp
  from call_sends_what_the_shim_sends [OF d k i c(1) [symmetric] c(2) [symmetric] h(1)]
  obtain rq' where "buildCallRequest ex_call = Inr rq'" "rq_Name rq' = rq_Name rq" "rq_ProtocolVersion rq' = rq_ProtocolVersion rq"
    "Decode (rq_Body rq') = Decode (rq_Body rq)"
    using p v unfolding c(2) by auto
  with h c(3) show ?thesis by auto
qed


section \<open>Running the commands\<close>

record ShimCmd =
  sc_Server :: bytes
  sc_NatsURL :: bytes
  sc_Creds :: bytes
  sc_Tenant :: bytes
  sc_User :: bytes
  sc_SubjectPrefix :: bytes
  sc_InboxPrefix :: bytes
  sc_AcceptClaims :: bool

definition ShimCmd_AfterApply :: "(bytes \<Rightarrow> bytes) \<Rightarrow> ShimCmd \<Rightarrow> ShimCmd" where
  "ShimCmd_AfterApply getenv c = c\<lparr>sc_Creds := credsFromEnv getenv (sc_Creds c) clientCredsEnv\<rparr>"

definition CallCmd_AfterApply :: "(bytes \<Rightarrow> bytes) \<Rightarrow> CallCmd \<Rightarrow> CallCmd" where
  "CallCmd_AfterApply getenv c = c\<lparr>ca_Creds := credsFromEnv getenv (ca_Creds c) clientCredsEnv\<rparr>"

datatype nats_option = OptName bytes | OptMaxReconnects int | OptUserCredentials bytes | OptCustomInboxPrefix bytes

datatype command_error =
    InboxPrefixFlag token_error
  | SubjectPrefixFlag token_error
  | NotConnected bytes
  | ParamsFlag params_error
  | NoClaims bytes
  | NoClient client_error
  | NotSent do_error

text \<open>The options of the connection, after the checks that name the flag that is wrong.\<close>

definition command_options ::
  "(rune \<Rightarrow> bool) \<Rightarrow> nats_option list \<Rightarrow> bytes \<Rightarrow> bytes \<Rightarrow> bytes \<Rightarrow> command_error + nats_option list" where
  "command_options isPrint base creds inbox pfx =
     (case (if inbox = [] then Inr () else ValidateInboxPrefix inbox) of
        Inl e \<Rightarrow> Inl (InboxPrefixFlag e)
      | Inr _ \<Rightarrow>
          (case (if pfx = [] then Inr () else ValidateSubjectPrefix isPrint pfx) of
             Inl e \<Rightarrow> Inl (SubjectPrefixFlag e)
           | Inr _ \<Rightarrow>
               Inr (base @ (if creds = [] then [] else [OptUserCredentials creds]) @
                 (if inbox = [] then [] else [OptCustomInboxPrefix inbox]))))"

text \<open>
  The wire client of a command.  \<open>jserr\<close> is the error of \<open>jetstream.New\<close>, if there is one; it is asked
  for only when claims are to be accepted.
\<close>

definition command_client ::
  "(rune \<Rightarrow> bool) \<Rightarrow> bytes option \<Rightarrow> bytes \<Rightarrow> bytes \<Rightarrow> bytes \<Rightarrow> bool \<Rightarrow> command_error + client" where
  "command_client isPrint jserr pfx tenant user claims =
     (case (if claims then jserr else None) of
        Some e \<Rightarrow> Inl (NoClaims e)
      | None \<Rightarrow>
          map_err NoClient (NewClient isPrint
            \<lparr>cc_Prefix = pfx, cc_Tenant = tenant, cc_User = user, cc_Inactivity = 0, cc_Claims = claims\<rparr>))"

text \<open>\<open>connect\<close>: the text of the error of \<open>nats.Connect\<close>, if there is one.\<close>

definition runShim ::
  "(rune \<Rightarrow> bool) \<Rightarrow> (bytes \<Rightarrow> nats_option list \<Rightarrow> bytes option) \<Rightarrow> bytes option \<Rightarrow> ShimCmd \<Rightarrow> command_error + client" where
  "runShim isPrint connect jserr c =
     (case command_options isPrint [OptName (''natsmcp-shim-'' @ sc_Server c), OptMaxReconnects (- 1)]
             (sc_Creds c) (sc_InboxPrefix c) (sc_SubjectPrefix c) of
        Inl e \<Rightarrow> Inl e
      | Inr opts \<Rightarrow>
          (case connect (sc_NatsURL c) opts of
             Some err \<Rightarrow> Inl (NotConnected (connectFailure isPrint (sc_NatsURL c) err))
           | None \<Rightarrow> command_client isPrint jserr (sc_SubjectPrefix c) (sc_Tenant c) (sc_User c) (sc_AcceptClaims c)))"

text \<open>A line of the output; \<open>message_of\<close> is the text of a failure.\<close>

definition printed_frame :: "(failure \<Rightarrow> bytes) \<Rightarrow> client_frame \<Rightarrow> bytes" where
  "printed_frame message_of f =
     ''['' @ frame_kind_value (cf_kind f) @ ''] '' @
     (case cf_err f of
        Some (code, e) \<Rightarrow> ''wire error '' @ itoa code @ '': '' @ message_of e
      | None \<Rightarrow> if length (cf_body f) = 0 then ''(empty body: cancelled)'' else cf_body f) @ [CHR 0x0A]"

text \<open>\<open>exchange\<close>: what \<open>Do\<close> returns, with the frames its stream delivers.\<close>

definition runCall ::
  "(rune \<Rightarrow> bool) \<Rightarrow> (bytes \<Rightarrow> nats_option list \<Rightarrow> bytes option) \<Rightarrow> bytes option \<Rightarrow>
    (client \<Rightarrow> request \<Rightarrow> do_error + client_frame list) \<Rightarrow> (failure \<Rightarrow> bytes) \<Rightarrow> CallCmd \<Rightarrow> command_error + bytes list" where
  "runCall isPrint connect jserr exchange message_of c =
     (case command_options isPrint [OptName ''natsmcp-call''] (ca_Creds c) (ca_InboxPrefix c) (ca_SubjectPrefix c) of
        Inl e \<Rightarrow> Inl e
      | Inr opts \<Rightarrow>
          (case connect (ca_NatsURL c) opts of
             Some err \<Rightarrow> Inl (NotConnected (connectFailure isPrint (ca_NatsURL c) err))
           | None \<Rightarrow>
               (case buildCallRequest c of
                  Inl e \<Rightarrow> Inl (ParamsFlag e)
                | Inr req \<Rightarrow>
                    (case command_client isPrint jserr (ca_SubjectPrefix c) (ca_Tenant c) (ca_User c) (ca_AcceptClaims c) of
                       Inl e \<Rightarrow> Inl e
                     | Inr wc \<Rightarrow>
                         (case exchange wc req of
                            Inl e \<Rightarrow> Inl (NotSent e)
                          | Inr frames \<Rightarrow> Inr (map (printed_frame message_of) frames))))))"

text \<open>The flags of a command are checked before the wire is touched, by the rule the wire uses itself.\<close>

lemma command_client_prefix:
  "command_options isPrint base creds inbox pfx = Inr opts \<Longrightarrow>
     command_client isPrint jserr pfx tenant user claims \<noteq> Inl (NoClient (BadClientPrefix e))"
  by (auto simp: command_options_def command_client_def NewClient_def map_err_def split: option.splits sum.splits if_splits)

end
