(* ===== verification/Gateway.thy ===== *)
theory Gateway
  imports GatewayCreds Services Call
begin

text \<open>
  The gateway process (\<open>runGateway\<close> of \<open>cmd/gateway.go\<close>): what it starts from its flags, in which order it
  gives up, how it answers signals and which error it ends with.  The connection, JetStream and the micro
  services answer through \<open>gateway_world\<close>; the parts it starts have theories of their own.
\<close>

section \<open>Starting\<close>

definition minRecommendedPayload :: int where
  "minRecommendedPayload = 8 * 1024 * 1024"

record gateway_world =
  gw_connect :: "bytes \<Rightarrow> nats_option list \<Rightarrow> bytes option"
  gw_maxPayload :: int
  gw_jetstream :: "bytes option"
  gw_account :: "bytes option"
  gw_add :: "bytes \<Rightarrow> bool"
  gw_stop :: "bytes \<Rightarrow> bool"

datatype gateway_error =
    GatewayLog log_error
  | GatewaySource
  | GatewayBoot boot_error
  | GatewayConnect bytes
  | GatewayClaims bytes
  | GatewayServe serve_error

datatype gateway_warning = IgnoredSetting conflict | PlaintextURL bytes | SmallPayload int | JetStreamUnreachable bytes

text \<open>What a started gateway is made of.  The pool and the object claims are given by their settings.\<close>

record gateway =
  gp_kind :: sourceKind
  gp_boot :: bootParams
  gp_options :: "nats_option list"
  gp_warnings :: "gateway_warning list"
  gp_source :: source_config
  gp_reload :: bool
  gp_pool :: PoolConfig
  gp_claims :: "(int \<times> int) option"
  gp_server :: wire_server

definition gateway_options :: "bootParams \<Rightarrow> nats_option list" where
  "gateway_options boot =
     [OptName ''natsmcp-gateway'', OptMaxReconnects (- 1)] @
     (if bp_credsFile boot \<noteq> [] then [OptUserCredentials (bp_credsFile boot)] else []) @
     (if bp_inboxPrefix boot \<noteq> [] then [OptCustomInboxPrefix (bp_inboxPrefix boot)] else [])"

definition gateway_server_config :: "bytes \<Rightarrow> bootParams \<Rightarrow> ServerConfig" where
  "gateway_server_config version boot =
     \<lparr>cfg_Prefix = bp_prefix boot, cfg_QueueGroup = bp_queueGroup boot, cfg_Tenant = bp_tenant boot, cfg_User = bp_user boot,
      cfg_Servers = [], cfg_Name = [], cfg_Version = normalizeVersion version, cfg_KeepAlive = 0\<rparr>"

text \<open>Claim-check: JetStream that cannot be set up is an error, JetStream that does not answer a warning.\<close>

definition gateway_claims :: "gateway_world \<Rightarrow> bootParams \<Rightarrow> gateway_error + (int \<times> int) option \<times> gateway_warning list" where
  "gateway_claims w boot =
     (if \<not> bp_claimCheck boot then Inr (None, [])
      else (case gw_jetstream w of
              Some e \<Rightarrow> Inl (GatewayClaims e)
            | None \<Rightarrow>
                Inr (Some (bp_claimMaxAge boot, bp_claimMaxBytes boot),
                  case gw_account w of Some e \<Rightarrow> [JetStreamUnreachable e] | None \<Rightarrow> [])))"

definition start_gateway ::
  "golib \<Rightarrow> (bytes \<rightharpoonup> bytes) \<Rightarrow> (bytes \<Rightarrow> bytes) \<Rightarrow> (bytes \<rightharpoonup> bytes) \<Rightarrow> gateway_world \<Rightarrow> bytes \<Rightarrow> bytes \<Rightarrow> bytes \<Rightarrow> GatewayCmd \<Rightarrow>
     gateway_error + gateway" where
  "start_gateway lib env getenv read_file w level format version c =
     bind_err (map_err GatewayLog (NewLogger level format)) (\<lambda>_.
     case selectSource c of
       None \<Rightarrow> Inl GatewaySource
     | Some kind \<Rightarrow>
         bind_err (map_err GatewayBoot (resolve_boot lib env getenv read_file c kind)) (\<lambda>boot.
         case gw_connect w (bp_url boot) (gateway_options boot) of
           Some e \<Rightarrow> Inl (GatewayConnect (connectFailure (is_print lib) (bp_url boot) e))
         | None \<Rightarrow>
             bind_err (gateway_claims w boot) (\<lambda>(claims, unreachable).
             bind_err (map_err GatewayServe (Serve (is_print lib) (gw_add w) (gw_stop w) (gateway_server_config version boot))) (\<lambda>ws.
               Inr \<lparr>gp_kind = kind, gp_boot = boot, gp_options = gateway_options boot,
                 gp_warnings = map IgnoredSetting (bp_ignoredFlags boot) @ map PlaintextURL (warnPlaintextNATSURL lib (bp_url boot)) @
                   (if gw_maxPayload w < minRecommendedPayload then [SmallPayload (gw_maxPayload w)] else []) @ unreachable,
                 gp_source = fst (buildSource c kind boot), gp_reload = snd (buildSource c kind boot),
                 gp_pool = bp_pool boot, gp_claims = claims, gp_server = ws\<rparr>))))"

section \<open>Signals and the end\<close>

datatype os_signal = SIGHUP | SIGINT | SIGTERM

datatype reaction = Reloads bytes | HangupIgnored bytes bool | Drains os_signal

text \<open>The reactions to the signals that come in; the flag of an ignored hangup says that the source reloads otherwise.\<close>

fun handle_signals :: "GatewayCmd \<Rightarrow> sourceKind \<Rightarrow> os_signal list \<Rightarrow> reaction list" where
  "handle_signals c kind [] = []"
| "handle_signals c kind (s # ss) =
     (if s = SIGHUP then
        (if reloadsOnSighup kind then Reloads (describe kind c)
         else HangupIgnored (describe kind c) (kind = SourceFetch)) # handle_signals c kind ss
      else [Drains s])"

definition cancels :: "reaction list \<Rightarrow> bool" where
  "cancels rs = list_ex (\<lambda>r. case r of Drains _ \<Rightarrow> True | _ \<Rightarrow> False) rs"

text \<open>The error of \<open>runGateway\<close>, given that of the configuration loop, whether a signal ended it, and that of the drain.\<close>

definition gateway_result :: "'e option \<Rightarrow> bool \<Rightarrow> 'e option \<Rightarrow> 'e option" where
  "gateway_result runErr signalled drainErr = (if runErr \<noteq> None \<and> \<not> signalled then runErr else drainErr)"

text \<open>A clean end is reported only for a drain that was clean, and an error of the loop only if no signal came first.\<close>

lemma gateway_result_None: "gateway_result runErr signalled drainErr = None \<longleftrightarrow> drainErr = None \<and> (runErr = None \<or> signalled)"
  by (auto simp: gateway_result_def)

lemma handle_signals_hangups: "\<not> cancels (handle_signals c kind ss) \<longleftrightarrow> set ss \<subseteq> {SIGHUP}"
  by (induction c kind ss rule: handle_signals.induct) (auto simp: cancels_def)

lemma handle_signals_reload:
  "Reloads d \<in> set (handle_signals c kind ss) \<Longrightarrow> kind = SourceFile \<and> SIGHUP \<in> set ss"
  by (induction c kind ss rule: handle_signals.induct) (auto simp: reloadsOnSighup_def split: if_splits)

section \<open>The services of a running gateway\<close>

text \<open>The calls of \<open>SetServers\<close> that the reconciler makes, whatever \<open>micro\<close> answers.\<close>

definition services_step :: "((bytes \<Rightarrow> bool) \<times> (bytes \<Rightarrow> bool) \<times> bytes list) \<Rightarrow> wire_server \<Rightarrow> wire_server option" where
  "services_step e s = (case e of (add, stop, names) \<Rightarrow> Some (snd (SetServers add stop s names)))"

definition scoped_as :: "wire_server \<Rightarrow> wire_server \<Rightarrow> bool" where
  "scoped_as s0 s \<longleftrightarrow> services_ok s \<and> ws_prefix s = ws_prefix s0 \<and> ws_tenant s = ws_tenant s0 \<and> ws_user s = ws_user s0"

interpretation services_steps: step_invariant services_step "scoped_as s0" for s0
proof
  fix s e s'
  assume s: "scoped_as s0 s" and step: "services_step e s = Some s'"
  obtain add stop names where e: "e = (add, stop, names)" using prod_cases3 by blast
  obtain r where r: "SetServers add stop s names = (r, s')" using step e by (cases "SetServers add stop s names") (simp add: services_step_def)
  have "services_ok s'" using SetServers_keeps_ok [OF _ r] s by (simp add: scoped_as_def)
  moreover obtain svcs where "s' = s\<lparr>ws_svcs := svcs\<rparr>"
    using SetServers_ok(4) SetServers_failed(4) r by (cases r) (metis surj_pair)+
  ultimately show "scoped_as s0 s'" using s by (simp add: scoped_as_def)
qed

lemma start_gateway_Inr:
  assumes "start_gateway lib env getenv read_file w level format version c = Inr g"
  shows "selectSource c = Some (gp_kind g)" "resolve_boot lib env getenv read_file c (gp_kind g) = Inr (gp_boot g)"
    "Serve (is_print lib) (gw_add w) (gw_stop w) (gateway_server_config version (gp_boot g)) = Inr (gp_server g)"
    "map IgnoredSetting (bp_ignoredFlags (gp_boot g)) @ map PlaintextURL (warnPlaintextNATSURL lib (bp_url (gp_boot g))) = 
      take (length (bp_ignoredFlags (gp_boot g)) + length (warnPlaintextNATSURL lib (bp_url (gp_boot g)))) (gp_warnings g)"
    "gp_options g = gateway_options (gp_boot g)"
  using assms by (auto simp: start_gateway_def bind_err_Inr map_err_def split: option.splits sum.splits prod.splits)

lemma Serve_empty:
  assumes "Serve isPrint add stop (gateway_server_config version boot) = Inr ws"
  shows "ws_svcs ws = []" "services_ok ws" "ws_tenant ws = bp_tenant boot" "ws_user ws = bp_user boot"
    "ws_prefix ws = (if bp_prefix boot = [] then DefaultPrefix else bp_prefix boot)"
  using assms
  by (auto simp: Serve_def gateway_server_config_def SetServers_def Let_def services_ok_def bind_err_Inr split: if_splits sum.splits)

lemma started_scope:
  assumes "start_gateway lib env getenv read_file w level format version c = Inr g" "reaches services_step (gp_server g) s"
  shows "services_ok s" "g_ScopeTenant c \<noteq> [] \<longrightarrow> ws_tenant s = g_ScopeTenant c" "g_ScopeUser c \<noteq> [] \<longrightarrow> ws_user s = g_ScopeUser c"
proof -
  note g = start_gateway_Inr [OF assms(1)]
  note e = Serve_empty [OF g(3)]
  have "scoped_as (gp_server g) (gp_server g)" using e(2) by (simp add: scoped_as_def)
  from services_steps.reaches_keeps [OF assms(2) this]
  show "services_ok s" "g_ScopeTenant c \<noteq> [] \<longrightarrow> ws_tenant s = g_ScopeTenant c" "g_ScopeUser c \<noteq> [] \<longrightarrow> ws_user s = g_ScopeUser c"
    using requested_scope_is_served [OF g(2)] e(3,4) by (simp_all add: scoped_as_def)
qed

section \<open>A gateway stays in its scope\<close>

text \<open>
  C13. From the flags to the subjects.  A gateway that starts serves nothing until a configuration is applied,
  and after any reloads, accepted or refused, with services that would not start or stop among them, every
  request that reaches one of its services is for that service's own server and in the scope that was asked
  for: of the tenant, if one was set, and of the user, if one was set, whichever source the settings came from.
\<close>

theorem gateway_stays_in_its_scope:
  assumes "start_gateway lib env getenv read_file w level format version c = Inr g" "reaches services_step (gp_server g) s"
    and "map_of (ws_svcs s) n = Some svc" "BuildSubject (ws_prefix s) t u x meth name = Inr subj" "subject_matches (sv_subject svc) subj"
  shows "ws_svcs (gp_server g) = [] \<and> n = x \<and> (g_ScopeTenant c \<noteq> [] \<longrightarrow> t = g_ScopeTenant c) \<and>
    (g_ScopeUser c \<noteq> [] \<longrightarrow> default_user u = g_ScopeUser c)"
proof -
  note s = started_scope [OF assms(1,2)]
  from services_ok_scope [OF s(1) assms(3,4)] assms(5)
  have "n = x" "ws_tenant s = [] \<or> ws_tenant s = t" "ws_user s = [] \<or> ws_user s = default_user u" by simp_all
  with s(2,3) Serve_empty(1) [OF start_gateway_Inr(3) [OF assms(1)]] show ?thesis by auto
qed

definition ex_world :: gateway_world where
  "ex_world = \<lparr>gw_connect = (\<lambda>_ _. None), gw_maxPayload = 1024 * 1024, gw_jetstream = None, gw_account = None,
     gw_add = (\<lambda>_. True), gw_stop = (\<lambda>_. True)\<rparr>"

theorem gateway_stays_in_its_scope_witness:
  "\<exists>g (s :: wire_server) (svc :: service). start_gateway ex_lib Map.empty (\<lambda>_. []) Map.empty ex_world [] [] ''v1.2.3'' ex_flags = Inr g \<and>
     map_of (ws_svcs s) ''fs'' = Some svc \<and> subject_matches (sv_subject svc) ''mcp.v1.req.acme.bob.fs.ping._'' \<and>
     ws_svcs (gp_server g) = []"
proof -
  have k: "selectSource ex_flags = Some SourceFetch" by (simp add: selectSource_def ex_flags_def)
  have l: "NewLogger [] [] = Inr (LevelInfo, LogText)" by (simp add: NewLogger_def lower_is_def)
  have cl: "gateway_claims ex_world (flag_params ex_flags) = Inr (None, [])"
    by (simp add: gateway_claims_def flag_params_def ex_flags_def)
  obtain ws where ws: "Serve (is_print ex_lib) (gw_add ex_world) (gw_stop ex_world) (gateway_server_config ''v1.2.3'' (flag_params ex_flags)) = Inr ws"
    by (simp add: Serve_def gateway_server_config_def flag_params_def ex_flags_def SetServers_def Let_def)
  obtain g where g: "start_gateway ex_lib Map.empty (\<lambda>_. []) Map.empty ex_world [] [] ''v1.2.3'' ex_flags = Inr g" "gp_server g = ws"
    using k l cl ws ex_boot by (simp add: start_gateway_def map_err_def ex_world_def)
  note e = Serve_empty [OF ws]
  have w: "ws_prefix ws = DefaultPrefix" "ws_tenant ws = ''acme''" "ws_user ws = ''bob''" "ws_svcs ws = []"
    using e by (simp_all add: flag_params_def ex_flags_def)
  have "\<exists>pat. EndpointSubject DefaultPrefix ''acme'' ''bob'' ''fs'' = Inr pat"
    by (simp add: EndpointSubject_def Let_def TokenSafe_def token_char_def)
  then obtain s where s: "SetServers (\<lambda>_. True) (\<lambda>_. True) ws [''fs''] = (Inr [], s)"
    using w by (auto simp: SetServers_def)
  have step: "services_step (\<lambda>_. True, \<lambda>_. True, [''fs'']) ws = Some s" by (simp add: services_step_def s)
  have r: "reaches services_step (gp_server g) s"
    unfolding g(2) by (rule reaches_step [of services_step ws ws, OF reaches_init step])
  obtain svc where svc: "map_of (ws_svcs s) ''fs'' = Some svc" using SetServers_ok(2) [OF s, of "''fs''"] by auto
  have ok: "services_ok s" by (rule SetServers_keeps_ok [OF e(2) s])
  obtain svcs where s': "s = ws\<lparr>ws_svcs := svcs\<rparr>" using SetServers_ok(4) [OF s] by blast
  have "BuildSubject DefaultPrefix ''acme'' ''bob'' ''fs'' ''ping'' '''' = Inr ''mcp.v1.req.acme.bob.fs.ping._''"
    by code_simp
  then have b: "BuildSubject (ws_prefix s) ''acme'' ''bob'' ''fs'' ''ping'' '''' = Inr ''mcp.v1.req.acme.bob.fs.ping._''"
    unfolding s' using w by simp
  have "default_user ''bob'' = ''bob''" by (simp add: default_user_def)
  then have m: "subject_matches (sv_subject svc) ''mcp.v1.req.acme.bob.fs.ping._''"
    unfolding services_ok_scope [OF ok svc b] using s' w by simp
  from gateway_stays_in_its_scope [OF g(1) r svc b m] g(1) svc m show ?thesis by blast
qed

end
