(* ===== verification/Spawn.thy ===== *)
theory Spawn
  imports Stdio
begin

text \<open>
  The life of a subprocess (\<open>Connect\<close>, \<open>waitLoop\<close> and \<open>Dead\<close> of \<open>pkg/backend/stdio.go\<close>): what a connect
  takes from the operating system, and that it is given back on every path.  The operating system
  is its open descriptors, directories and processes; \<open>faults\<close> says which calls fail.
\<close>

section \<open>What the operating system lends\<close>

datatype stream = Stdin | Stdout | Stderr

datatype descriptor = ParentEnd stream | ChildEnd stream

record child =
  ch_Command :: bytes
  ch_Args :: "bytes list"
  ch_Dir :: bytes
  ch_Env :: "bytes list"
  ch_Setpgid :: bool
  ch_WaitDelay :: int

text \<open>Descriptors and processes are named by the connect that asked for them.\<close>

record os =
  os_fds :: "(nat \<times> descriptor) set"
  os_dirs :: "bytes set"
  os_procs :: "nat \<rightharpoonup> child"

record faults =
  mkdir_temp :: "bytes + bytes"
  pipe_fault :: "stream \<Rightarrow> bytes option"
  start_fault :: "bytes option"

definition terminateGrace :: int where
  "terminateGrace = 3 * 1000000000"

section \<open>Connecting\<close>

datatype connect_error = NoWorkDir bytes | NoPipe stream bytes | NoStart bytes bytes

text \<open>\<open>StdinPipe\<close> and its siblings: two descriptors, one returned and one parked in the command.\<close>

definition open_pipe :: "nat \<Rightarrow> stream \<Rightarrow> os \<Rightarrow> os" where
  "open_pipe n s st = st\<lparr>os_fds := os_fds st \<union> {(n, ParentEnd s), (n, ChildEnd s)}\<rparr>"

text \<open>The pipes in the order of the code: the error, if one fails, and what is opened until then.\<close>

fun open_pipes :: "(stream \<Rightarrow> bytes option) \<Rightarrow> nat \<Rightarrow> stream list \<Rightarrow> stream list \<Rightarrow> os \<Rightarrow> connect_error option \<times> stream list \<times> os" where
  "open_pipes fault n [] opened st = (None, opened, st)"
| "open_pipes fault n (s # ss) opened st =
     (case fault s of
        Some e \<Rightarrow> (Some (NoPipe s e), opened, st)
      | None \<Rightarrow> open_pipes fault n ss (opened @ [s]) (open_pipe n s st))"

definition close_ends :: "nat \<Rightarrow> descriptor list \<Rightarrow> os \<Rightarrow> os" where
  "close_ends n ds st = st\<lparr>os_fds := os_fds st - {n} \<times> set ds\<rparr>"

text \<open>The deferred function: the ends that were returned, those parked in the command, the directory.\<close>

definition undo_connect :: "nat \<Rightarrow> stream list \<Rightarrow> stream list \<Rightarrow> bytes \<Rightarrow> os \<Rightarrow> os" where
  "undo_connect n opened parked dir st =
     (close_ends n (map ChildEnd parked) (close_ends n (map ParentEnd opened) st))\<lparr>os_dirs := os_dirs st - {dir}\<rparr>"

definition all_streams :: "stream list" where
  "all_streams = [Stdin, Stdout, Stderr]"

text \<open>\<open>cmd.Start\<close> closes the child's ends, and the parent's as well when it fails.\<close>

definition cmd_Start :: "bytes option \<Rightarrow> nat \<Rightarrow> child \<Rightarrow> os \<Rightarrow> bytes option \<times> os" where
  "cmd_Start fault n c st =
     (case fault of
        Some e \<Rightarrow> (Some e, close_ends n (map ParentEnd all_streams @ map ChildEnd all_streams) st)
      | None \<Rightarrow> (None, (close_ends n (map ChildEnd all_streams) st)\<lparr>os_procs := (os_procs st)(n \<mapsto> c)\<rparr>))"

definition child_of :: "stdioBackend \<Rightarrow> bytes \<Rightarrow> bytes \<Rightarrow> child" where
  "child_of b path dir =
     \<lparr>ch_Command = sb_Command b, ch_Args = sb_Args b, ch_Dir = dir, ch_Env = child_env b path dir, ch_Setpgid = True,
      ch_WaitDelay = terminateGrace\<rparr>"

record spawned =
  sp_conn :: stdioConn
  sp_workDir :: bytes

definition stdio_Connect :: "stdioBackend \<Rightarrow> bytes \<Rightarrow> faults \<Rightarrow> nat \<Rightarrow> os \<Rightarrow> (connect_error + spawned) \<times> os" where
  "stdio_Connect b path flt n st =
     (case mkdir_temp flt of
        Inl e \<Rightarrow> (Inl (NoWorkDir e), st)
      | Inr dir \<Rightarrow>
          (case open_pipes (pipe_fault flt) n all_streams [] (st\<lparr>os_dirs := insert dir (os_dirs st)\<rparr>) of
             (Some e, opened, st') \<Rightarrow> (Inl e, undo_connect n opened opened dir st')
           | (None, opened, st') \<Rightarrow>
               (case cmd_Start (start_fault flt) n (child_of b path dir) st' of
                  (Some e, st'') \<Rightarrow> (Inl (NoStart (sb_Command b) e), undo_connect n [] opened dir st'')
                | (None, st'') \<Rightarrow>
                    (Inr \<lparr>sp_conn = \<lparr>sc_lines = [], sc_closed = False, sc_dead = False, sc_stdin = []\<rparr>, sp_workDir = dir\<rparr>, st''))))"

text \<open>\<open>waitLoop\<close>: \<open>cmd.Wait\<close> reaps the process and closes the parent's ends; then the directory goes.\<close>

definition waitLoop :: "nat \<Rightarrow> spawned \<Rightarrow> os \<Rightarrow> spawned \<times> os" where
  "waitLoop n c st =
     (c\<lparr>sp_conn := (sp_conn c)\<lparr>sc_dead := True\<rparr>\<rparr>,
      (close_ends n (map ParentEnd all_streams) st)
        \<lparr>os_procs := (os_procs st)(n := None), os_dirs := os_dirs st - {sp_workDir c}\<rparr>)"

definition stdio_Dead :: "spawned \<Rightarrow> bool" where
  "stdio_Dead c = sc_dead (sp_conn c)"

section \<open>Nothing is left behind\<close>

text \<open>What belongs to the connect \<open>n\<close> is all that the calls of \<open>Connect\<close> touch.\<close>

definition touches :: "nat \<Rightarrow> os \<Rightarrow> os \<Rightarrow> (nat \<times> descriptor) set \<Rightarrow> bytes set \<Rightarrow> bool" where
  "touches n st st' fds dirs \<longleftrightarrow> os_fds st' = os_fds st \<union> fds \<and> os_dirs st' = os_dirs st \<union> dirs \<and> os_procs st' = os_procs st"

lemma open_pipes_result:
  assumes "open_pipes fault n ss opened st = (e, opened', st')"
  shows "\<exists>more. opened' = opened @ more \<and> (e = None \<longrightarrow> more = ss) \<and>
    touches n st st' ({n} \<times> (ParentEnd ` set more \<union> ChildEnd ` set more)) {}"
  using assms
proof (induction fault n ss opened st rule: open_pipes.induct)
  case (2 fault n s ss opened st)
  show ?case
  proof (cases "fault s")
    case None
    with 2 obtain more where m: "opened' = (opened @ [s]) @ more" "e = None \<longrightarrow> more = ss"
      "touches n (open_pipe n s st) st' ({n} \<times> (ParentEnd ` set more \<union> ChildEnd ` set more)) {}"
      by auto
    then have "touches n st st' ({n} \<times> (ParentEnd ` set (s # more) \<union> ChildEnd ` set (s # more))) {}"
      by (auto simp: open_pipe_def touches_def)
    with m(1,2) show ?thesis by (intro exI [of _ "s # more"]) simp
  qed (use 2 in \<open>auto simp: touches_def\<close>)
qed (auto simp: touches_def)

lemma given_back:
  assumes "n \<notin> fst ` F"
  shows "(F \<union> {n} \<times> X) - {n} \<times> X = F" "(F \<union> {n} \<times> (X \<union> Y)) - {n} \<times> X - {n} \<times> Y = F"
    "F - {n} \<times> X = F"
  using assms by (auto intro: rev_image_eqI)

lemma undo_all:
  assumes "touches n st st' ({n} \<times> (ParentEnd ` set opened \<union> ChildEnd ` set opened)) {dir}" "n \<notin> fst ` os_fds st" "dir \<notin> os_dirs st"
  shows "undo_connect n opened opened dir st' = st"
proof (rule os.equality)
  show "os_fds (undo_connect n opened opened dir st') = os_fds st"
    using assms(1) given_back(2) [OF assms(2), of "ParentEnd ` set opened" "ChildEnd ` set opened"]
    by (simp add: touches_def undo_connect_def close_ends_def Un_commute)
qed (use assms in \<open>simp_all add: touches_def undo_connect_def close_ends_def\<close>)

lemma all_descriptors: "ParentEnd ` set all_streams \<union> ChildEnd ` set all_streams = UNIV"
proof -
  have "d \<in> ParentEnd ` set all_streams \<union> ChildEnd ` set all_streams" for d
    by (cases d) (use stream.exhaust in \<open>force simp: all_streams_def\<close>)+
  then show ?thesis by blast
qed

text \<open>
  C28. A subprocess gives back what it took.  A connect that fails, at whichever of its calls, leaves the
  operating system as it found it: no descriptor of a pipe that had already succeeded, no working
  directory.  One that succeeds has started the configured command in its own directory and process
  group, with the configured environment and no variable of the gateway but \<open>PATH\<close>, and once the process has
  been waited for nothing of it is left either.
\<close>

theorem subprocess_leaves_nothing:
  assumes "\<And>dir. mkdir_temp flt = Inr dir \<Longrightarrow> dir \<notin> os_dirs st" "n \<notin> fst ` os_fds st" "os_procs st n = None"
    and "stdio_Connect b path flt n st = (r, st')"
  shows "case r of
      Inl e \<Rightarrow> st' = st
    | Inr c \<Rightarrow> os_procs st' n = Some (child_of b path (sp_workDir c)) \<and> sp_workDir c \<in> os_dirs st' \<and> \<not> stdio_Dead c \<and>
        stdio_Dead (fst (waitLoop n c st')) \<and> snd (waitLoop n c st') = st"
proof (cases "mkdir_temp flt")
  case (Inl e)
  with assms(4) show ?thesis by (auto simp: stdio_Connect_def)
next
  case (Inr dir)
  then have dir: "dir \<notin> os_dirs st" by (rule assms(1))
  obtain e opened st1 where o: "open_pipes (pipe_fault flt) n all_streams [] (st\<lparr>os_dirs := insert dir (os_dirs st)\<rparr>) = (e, opened, st1)"
    using prod_cases3 by blast
  let ?D = "ParentEnd ` set opened \<union> ChildEnd ` set opened"
  from open_pipes_result [OF o] have st1: "touches n st st1 ({n} \<times> ?D) {dir}" and all: "e = None \<longrightarrow> opened = all_streams"
    by (auto simp: touches_def)
  show ?thesis
  proof (cases e)
    case (Some x)
    with assms(4) Inr o undo_all [OF st1 assms(2) dir] show ?thesis by (auto simp: stdio_Connect_def)
  next
    case None
    with all have D: "?D = UNIV" using all_descriptors by simp
    show ?thesis
    proof (cases "start_fault flt")
      case (Some x)
      have "undo_connect n [] opened dir (snd (cmd_Start (Some x) n (child_of b path dir) st1)) = st"
      proof (rule os.equality, goal_cases)
        case 1
        have "set (map ParentEnd all_streams @ map ChildEnd all_streams) = (UNIV :: descriptor set)"
          using all_descriptors by simp
        then show ?case
          using st1 given_back(1) [OF assms(2), of UNIV] given_back(3) [OF assms(2)] unfolding touches_def D
          by (simp add: cmd_Start_def undo_connect_def close_ends_def Diff_eq [symmetric] del: map_append set_append)
      qed (use st1 dir in \<open>simp_all add: touches_def cmd_Start_def undo_connect_def close_ends_def\<close>)
      with Some None assms(4) Inr o show ?thesis by (auto simp: stdio_Connect_def cmd_Start_def)
    next
      case start: None
      let ?st2 = "(close_ends n (map ChildEnd all_streams) st1)\<lparr>os_procs := (os_procs st1)(n \<mapsto> child_of b path dir)\<rparr>"
      have st': "st' = ?st2" "r = Inr \<lparr>sp_conn = \<lparr>sc_lines = [], sc_closed = False, sc_dead = False, sc_stdin = []\<rparr>, sp_workDir = dir\<rparr>"
        using None start assms(4) Inr o by (auto simp: stdio_Connect_def cmd_Start_def)
      have "snd (waitLoop n \<lparr>sp_conn = \<lparr>sc_lines = [], sc_closed = False, sc_dead = False, sc_stdin = []\<rparr>, sp_workDir = dir\<rparr> ?st2) = st"
      proof (rule os.equality, goal_cases)
        case 1
        show ?case
          using st1 given_back(2) [OF assms(2), of "ChildEnd ` set all_streams" "ParentEnd ` set all_streams"] all_descriptors
          unfolding touches_def D by (simp add: waitLoop_def close_ends_def Un_commute)
      next
        case 2
        show ?case using st1 dir unfolding touches_def by (simp add: waitLoop_def close_ends_def)
      next
        case 3
        show ?case using st1 assms(3) unfolding touches_def by (auto simp: waitLoop_def close_ends_def)
      qed simp
      with st' st1 show ?thesis by (simp add: touches_def close_ends_def stdio_Dead_def waitLoop_def)
    qed
  qed
qed

text \<open>A connect for which the second pipe fails, next to a descriptor of another one.\<close>

theorem subprocess_leaves_nothing_witness:
  "\<exists>st. os_fds st = {(0, ParentEnd Stdin)} \<and>
     stdio_Connect \<lparr>sb_Command = ''npx'', sb_Args = [], sb_Env = []\<rparr> ''/bin''
       \<lparr>mkdir_temp = Inr ''/tmp/natsmcp-1'', pipe_fault = (\<lambda>s. if s = Stdout then Some ''too many open files'' else None), start_fault = None\<rparr>
       1 st = (Inl (NoPipe Stdout ''too many open files''), st)"
proof -
  let ?b = "\<lparr>sb_Command = ''npx'', sb_Args = [], sb_Env = []\<rparr>"
  let ?flt = "\<lparr>mkdir_temp = Inr ''/tmp/natsmcp-1'', pipe_fault = (\<lambda>s. if s = Stdout then Some ''too many open files'' else None), start_fault = None\<rparr>"
  define st where "st = \<lparr>os_fds = {(0, ParentEnd Stdin)}, os_dirs = {}, os_procs = Map.empty\<rparr>"
  obtain st' where c: "stdio_Connect ?b ''/bin'' ?flt 1 st = (Inl (NoPipe Stdout ''too many open files''), st')"
    by (simp add: stdio_Connect_def all_streams_def)
  from subprocess_leaves_nothing [OF _ _ _ c] have "st' = st" by (simp add: st_def)
  with c show ?thesis by (intro exI [of _ st]) (simp add: st_def)
qed

end
