(* ===== verification/Messages.thy ===== *)
theory Messages
  imports HttpLife Reconcile
begin

text \<open>
  What messages about the configuration show: URLs in the errors of its validation (\<open>redactURL\<close> of
  \<open>pkg/config/config.go\<close>) and the names of connection settings that changed under a running gateway
  (\<open>natsDriftFields\<close> of \<open>pkg/reconcile/reconcile.go\<close>).
\<close>

section \<open>URLs in validation errors\<close>

text \<open>What the code sees of a URL that \<open>net/url\<close> parsed: the user's name and password among it.\<close>

record 'r config_url =
  cu_Scheme :: bytes
  cu_Opaque :: bytes
  cu_User :: "(bytes \<times> bytes option) option"
  cu_RawQuery :: bytes
  cu_rest :: 'r

definition masked_user :: "(bytes \<times> bytes option) option \<Rightarrow> (bytes \<times> bytes option) option" where
  "masked_user u =
     (case u of
        None \<Rightarrow> None
      | Some (name, Some _) \<Rightarrow> Some (name, Some redacted)
      | Some (_, None) \<Rightarrow> Some (redacted, None))"

definition redactURL :: "(bytes \<Rightarrow> 'r config_url option) \<Rightarrow> ('r config_url \<Rightarrow> bytes) \<Rightarrow> bytes \<Rightarrow> bytes" where
  "redactURL parse url_String raw =
     (case parse raw of
        None \<Rightarrow>
          (case strings_Cut raw ''://'' of
             Some (sch, _) \<Rightarrow> if sch \<noteq> [] then sch @ ''://'' @ redacted else redacted
           | None \<Rightarrow> redacted)
      | Some u \<Rightarrow>
          if cu_Opaque u \<noteq> [] then cu_Scheme u @ '':'' @ redacted
          else url_String (u\<lparr>cu_User := masked_user (cu_User u),
            cu_RawQuery := (if cu_RawQuery u \<noteq> [] then redacted else [])\<rparr>))"

text \<open>\<open>parseReason\<close>: the reason inside a \<open>*url.Error\<close>, which quotes the URL itself.\<close>

datatype url_failure = URLError bytes bytes url_failure | Reason bytes

definition parseReason :: "url_failure \<Rightarrow> url_failure" where
  "parseReason e = (case e of URLError _ _ r \<Rightarrow> r | Reason _ \<Rightarrow> e)"

text \<open>A URL that does not parse shows nothing but what stands before its first slashes.\<close>

lemma redactURL_unparsed:
  assumes "parse (sch @ ''://'' @ a) = None" "parse (sch @ ''://'' @ b) = None" "CHR '':'' \<notin> set sch"
  shows "redactURL parse url_String (sch @ ''://'' @ a) = redactURL parse url_String (sch @ ''://'' @ b)"
  using assms strings_Cut_first [OF assms(3), of "''//''"] by (simp add: redactURL_def)

text \<open>Two URLs that differ in a password beside the same name, in a bare token or in the query show the same.\<close>

lemma redactURL_masks:
  assumes "parse a = Some u" "parse b = Some v" "cu_Opaque u = []" "cu_Opaque v = []" "cu_Scheme u = cu_Scheme v"
    and "masked_user (cu_User u) = masked_user (cu_User v)" "(cu_RawQuery u = []) = (cu_RawQuery v = [])" "cu_rest u = cu_rest v"
  shows "redactURL parse url_String a = redactURL parse url_String b"
  using assms by (cases u; cases v) (simp add: redactURL_def)

lemma masked_user_password: "masked_user (Some (name, Some p)) = masked_user (Some (name, Some q))"
    "masked_user (Some (s, None)) = masked_user (Some (t, None))"
  by (simp_all add: masked_user_def)

section \<open>Settings that cannot change\<close>

text \<open>\<open>natsFields\<close>: the marshalled fields by their JSON names.\<close>

definition nats_settings :: "(bytes \<times> (NATS \<Rightarrow> bytes)) list" where
  "nats_settings =
     [(''url'', n_URL), (''credsFile'', n_CredsFile), (''subjectPrefix'', n_SubjectPrefix), (''inboxPrefix'', n_InboxPrefix),
      (''queueGroup'', n_QueueGroup), (''tenant'', n_Tenant), (''user'', n_User)]"

definition natsFields :: "NATS \<Rightarrow> raw_map" where
  "natsFields n = map (\<lambda>(k, f). (k, render (marshal_string (f n)))) nats_settings"

definition driftFields :: "raw_map \<Rightarrow> raw_map \<Rightarrow> bytes list" where
  "driftFields boot nxt =
     sort (map fst (filter (\<lambda>(k, v). v \<noteq> (case map_of nxt k of None \<Rightarrow> [] | Some w \<Rightarrow> w)) boot) @
       map fst (filter (\<lambda>(k, _). map_of boot k = None) nxt))"

definition natsDriftFields :: "NATS \<Rightarrow> NATS \<Rightarrow> bytes list" where
  "natsDriftFields boot nxt = driftFields (natsFields boot) (natsFields nxt)"

lemma marshal_string_inject:
  assumes "utf8_Valid s" "utf8_Valid t" "render (marshal_string s) = render (marshal_string t)"
  shows "s = t"
proof -
  have "escape_string s = escape_string t" using assms(3) unfolding marshal_string_def by simp
  then have "unquoted (escape_string s) = unquoted (escape_string t)" by (rule arg_cong)
  then show ?thesis unfolding marshal_string_value [OF assms(1)] marshal_string_value [OF assms(2)] .
qed

definition nats_valid :: "NATS \<Rightarrow> bool" where
  "nats_valid n \<longleftrightarrow> (\<forall>(_, f) \<in> set nats_settings. utf8_Valid (f n))"

lemma map_of_fields:
  "distinct (map fst L) \<Longrightarrow> (k, f) \<in> set L \<Longrightarrow> map_of (map (\<lambda>(k, f). (k, g f)) L) k = Some (g f)"
  by (rule map_of_is_SomeI) (auto simp: comp_def case_prod_unfold intro: rev_image_eqI)

lemma map_of_fields_None: "map_of (map (\<lambda>(k, f). (k, g f)) L) k = None \<longleftrightarrow> k \<notin> fst ` set L"
  by (force simp: map_of_eq_None_iff image_image case_prod_unfold)

lemma driftFields_names:
  assumes "distinct (map fst L)"
  shows "set (driftFields (map (\<lambda>(k, f). (k, g f)) L) (map (\<lambda>(k, f). (k, h f)) L)) = {k. \<exists>f. (k, f) \<in> set L \<and> g f \<noteq> h f}"
proof -
  have v: "map_of (map (\<lambda>(k, f). (k, h f)) L) k = Some (h f)" if "(k, f) \<in> set L" for k f
    using map_of_fields [OF assms that] .
  have gone: "filter (\<lambda>(k, _). map_of (map (\<lambda>(k, f). (k, g f)) L) k = None) (map (\<lambda>(k, f). (k, h f)) L) = []"
    by (auto simp: filter_empty_conv map_of_fields_None image_iff)
  have "k \<in> fst ` {(k, u). (k, u) \<in> set (map (\<lambda>(k, f). (k, g f)) L) \<and>
      u \<noteq> (case map_of (map (\<lambda>(k, f). (k, h f)) L) k of None \<Rightarrow> [] | Some w \<Rightarrow> w)} \<longleftrightarrow>
    (\<exists>f. (k, f) \<in> set L \<and> g f \<noteq> h f)" for k
    by (auto simp: v image_iff) force
  then show ?thesis
    unfolding driftFields_def gone by (auto simp: set_eq_iff image_iff)
qed

text \<open>The warning of \<open>warnNATSDrift\<close> names every field that changed, and no other.\<close>

lemma drift_names:
  assumes "nats_valid a" "nats_valid b"
  shows "set (natsDriftFields a b) = {k. \<exists>f. (k, f) \<in> set nats_settings \<and> f a \<noteq> f b}"
proof -
  have inj: "render (marshal_string (f a)) \<noteq> render (marshal_string (f b)) \<longleftrightarrow> f a \<noteq> f b" if "(k, f) \<in> set nats_settings" for k f
  proof -
    have "utf8_Valid (f a)" "utf8_Valid (f b)"
      using that assms unfolding nats_valid_def by (blast dest: bspec [where x = "(k, f)"])+
    then show ?thesis using marshal_string_inject [of "f a" "f b"] by (auto intro: arg_cong)
  qed
  have "distinct (map fst nats_settings)" by (simp add: nats_settings_def)
  from driftFields_names [OF this, of "\<lambda>f. render (marshal_string (f a))" "\<lambda>f. render (marshal_string (f b))"]
  have "set (natsDriftFields a b) = {k. \<exists>f. (k, f) \<in> set nats_settings \<and> render (marshal_string (f a)) \<noteq> render (marshal_string (f b))}"
    by (simp add: natsDriftFields_def natsFields_def)
  with inj show ?thesis by blast
qed

corollary drift_is_named:
  assumes "warnNATSDrift (Some c) r = (True, r')" "rc_boot r = Some b" "nats_valid b" "nats_valid (c_NATS c)"
  obtains k f where "(k, f) \<in> set nats_settings" "f b \<noteq> f (c_NATS c)" "k \<in> set (natsDriftFields b (c_NATS c))"
proof -
  have "c_NATS c \<noteq> b" using assms(1,2) by (simp add: warnNATSDrift_def)
  then have "\<exists>(k, f) \<in> set nats_settings. f b \<noteq> f (c_NATS c)"
    by (cases b; cases "c_NATS c") (auto simp: nats_settings_def)
  then show thesis using that drift_names [OF assms(3,4)] by auto
qed

end
